(* ===== verification/Prelude.thy ===== *)
theory Prelude
  imports Main "HOL-Library.Word"
begin

text \<open>
  Shared vocabulary of the development: the C integer types as machine words, the faults that
  undefined behaviour and failed assertions of the C sources become, the named collections of
  rewrite rules, and the generic facts on lists, words and byte strings that the component
  theories share.
\<close>

unbundle bit_operations_syntax

section \<open>C types and faults\<close>

text \<open>
  \<open>uint8_t\<close>, \<open>uint16_t\<close>, \<open>uint32_t\<close> and \<open>size_t\<close> (32 bits on the Cortex-R5) are words of
  that width; memory is a list of bytes.
\<close>

type_synonym u8 = "8 word"
type_synonym u16 = "16 word"
type_synonym u32 = "32 word"
type_synonym bytes = "u8 list"

text \<open>
  A C function that would run into undefined behaviour or into \<open>LWIP_PLATFORM_ASSERT\<close>
  (which disables interrupts and spins forever) returns a fault instead of a value.
\<close>

datatype fault =
    NullDeref        \<comment> \<open>a NULL pointer is dereferenced\<close>
  | OutOfBounds      \<comment> \<open>an access outside the object it is derived from\<close>
  | DivByZero        \<comment> \<open>the modulus of a \<open>%\<close> is zero\<close>
  | AssertFail       \<comment> \<open>an \<open>LWIP_ASSERT\<close> does not hold\<close>
  | Hang             \<comment> \<open>a loop of the C code does not end\<close>

type_synonym 'a result = "fault + 'a"

text \<open>\<open>err_t\<close> of lwIP (lwip/err.h), the values the modelled code returns.\<close>

datatype err_t = ERR_OK | ERR_MEM | ERR_BUF | ERR_RTE | ERR_VAL | ERR_USE | ERR_ARG

definition is_fault :: "'a result \<Rightarrow> bool" where
  "is_fault r = (case r of Inl _ \<Rightarrow> True | Inr _ \<Rightarrow> False)"

lemma is_fault_simps [simp]: "is_fault (Inl f)" "\<not> is_fault (Inr x)"
  by (simp_all add: is_fault_def)

section \<open>Collections\<close>

named_theorems queue_simps \<open>behaviour of the frame queues\<close>
named_theorems wire_simps \<open>encoding and decoding of the wire format\<close>
named_theorems reg_simps \<open>register layouts of the peripherals\<close>
named_theorems chain_simps \<open>pbuf chains\<close>

section \<open>Lists\<close>

definition mem_get :: "'a list \<Rightarrow> nat \<Rightarrow> 'a result" where
  "mem_get xs i = (if i < length xs then Inr (xs ! i) else Inl OutOfBounds)"

definition mem_read :: "'a list \<Rightarrow> nat \<Rightarrow> nat \<Rightarrow> 'a list result" where
  "mem_read xs i n = (if i + n \<le> length xs then Inr (take n (drop i xs)) else Inl OutOfBounds)"

definition mem_write :: "'a list \<Rightarrow> nat \<Rightarrow> 'a list \<Rightarrow> 'a list result" where
  "mem_write xs i ys = (if i + length ys \<le> length xs
     then Inr (take i xs @ ys @ drop (i + length ys) xs) else Inl OutOfBounds)"

lemma mem_get_Inr [simp]: "i < length xs \<Longrightarrow> mem_get xs i = Inr (xs ! i)"
  by (simp add: mem_get_def)

lemma mem_read_length: "mem_read xs i n = Inr ys \<Longrightarrow> length ys = n"
  by (auto simp: mem_read_def split: if_splits)

lemma mem_write_length: "mem_write xs i ys = Inr zs \<Longrightarrow> length zs = length xs"
  by (auto simp: mem_write_def split: if_splits)

lemma mem_write_read:
  "mem_write xs i ys = Inr zs \<Longrightarrow> mem_read zs i (length ys) = Inr ys"
  by (auto simp: mem_write_def mem_read_def split: if_splits)

lemma mem_read_write_id:
  "mem_read xs i n = Inr ys \<Longrightarrow> mem_write xs i ys = Inr xs"
  by (auto simp: mem_write_def mem_read_def min_def split: if_splits)
     (metis append_take_drop_id drop_drop add.commute)

lemma map_upt_shift: "map f [Suc m..<Suc n] = map (\<lambda>i. f (Suc i)) [m..<n]"
  by (simp add: map_Suc_upt [symmetric] del: upt_Suc)

section \<open>Words\<close>

lemma unat_mod_word: "unat ((a :: 'a::len word) mod b) = unat a mod unat b"
  by (rule unat_mod_distrib)

lemma unat_Suc_word: "(a :: 'a::len word) < b \<Longrightarrow> unat (a + 1) = Suc (unat a)"
proof -
  assume "a < b"
  then have "Suc (unat a) \<le> unat b"
    by (simp add: word_less_nat_alt)
  also have "\<dots> < 2 ^ LENGTH('a)"
    by (rule unsigned_less)
  finally show ?thesis
    by (simp add: unat_word_ariths)
qed

lemma unat_ucast_u8: "unat (ucast (x :: u8) :: u16) = unat x"
proof -
  have "unat x < 256" using unsigned_less [of x] by simp
  then show ?thesis by (simp add: unsigned_ucast_eq take_bit_nat_eq_self)
qed

lemma unat_Suc_mod_word:
  "(a :: 'a::len word) < b \<Longrightarrow> unat ((a + 1) mod b) = Suc (unat a) mod unat b"
  by (simp add: unat_mod_word unat_Suc_word)

lemma and_not_disjoint: "(a :: 'a::len word) AND b = 0 \<Longrightarrow> a AND NOT b = a"
proof (rule bit_word_eqI)
  fix n
  assume "a AND b = 0" "n < LENGTH('a)"
  then have "\<not> (bit a n \<and> bit b n)" by (metis bit_and_iff bit_0_eq bot_apply bot_bool_def)
  then show "bit (a AND NOT b) n = bit a n" using \<open>n < LENGTH('a)\<close> by (auto simp: bit_simps)
qed

section \<open>Big-endian fields\<close>

definition be32 :: "u32 \<Rightarrow> bytes" where
  "be32 x = [ucast (drop_bit 24 x), ucast (drop_bit 16 x), ucast (drop_bit 8 x), ucast x]"

definition of_be32 :: "u8 \<Rightarrow> u8 \<Rightarrow> u8 \<Rightarrow> u8 \<Rightarrow> u32" where
  "of_be32 a b c d = push_bit 24 (ucast a) OR push_bit 16 (ucast b) OR push_bit 8 (ucast c) OR ucast d"

definition be16 :: "u16 \<Rightarrow> bytes" where
  "be16 x = [ucast (drop_bit 8 x), ucast x]"

definition of_be16 :: "u8 \<Rightarrow> u8 \<Rightarrow> u16" where
  "of_be16 a b = push_bit 8 (ucast a) OR ucast b"

lemma length_be [simp]: "length (be32 x) = 4" "length (be16 y) = 2"
  by (simp_all add: be32_def be16_def)

lemma of_be32_be32 [wire_simps]:
  "of_be32 (ucast (drop_bit 24 x)) (ucast (drop_bit 16 x)) (ucast (drop_bit 8 x)) (ucast x) = x"
proof (rule bit_word_eqI)
  fix n
  assume "n < LENGTH(32)"
  then show "bit (of_be32 (ucast (drop_bit 24 x)) (ucast (drop_bit 16 x)) (ucast (drop_bit 8 x)) (ucast x)) n
      = bit x n"
    unfolding of_be32_def by (cases "n < 8"; cases "n < 16"; cases "n < 24") (auto simp: bit_simps)
qed

lemma of_be16_be16 [wire_simps]: "of_be16 (ucast (drop_bit 8 x)) (ucast x) = x"
proof (rule bit_word_eqI)
  fix n
  assume "n < LENGTH(16)"
  then show "bit (of_be16 (ucast (drop_bit 8 x)) (ucast x)) n = bit x n"
    unfolding of_be16_def by (cases "n < 8") (auto simp: bit_simps)
qed

section \<open>Overwriting bytes\<close>

definition put_bytes :: "'a list \<Rightarrow> nat \<Rightarrow> 'a list \<Rightarrow> 'a list" where
  "put_bytes m i bs = take i m @ bs @ drop (i + length bs) m"

lemma mem_write_put: "i + length bs \<le> length m \<Longrightarrow> mem_write m i bs = Inr (put_bytes m i bs)"
  by (simp add: mem_write_def put_bytes_def)

lemma length_put_bytes [simp]: "i + length bs \<le> length m \<Longrightarrow> length (put_bytes m i bs) = length m"
  by (simp add: put_bytes_def)

lemma put_bytes_append:
  "i + length a + length b \<le> length m \<Longrightarrow>
    put_bytes (put_bytes m i a) (i + length a) b = put_bytes m i (a @ b)"
  by (simp add: put_bytes_def add.commute add.left_commute)

lemma put_bytes_Nil [simp]: "put_bytes m i [] = m"
  by (simp add: put_bytes_def)

lemma put_bytes_prepend:
  "i + length a + length b \<le> length m \<Longrightarrow>
    put_bytes (put_bytes m (i + length a) b) i a = put_bytes m i (a @ b)"
  by (simp add: put_bytes_def add.commute add.left_commute)

lemma take_put_bytes: "i + length b \<le> length m \<Longrightarrow> take (length b) (drop i (put_bytes m i b)) = b"
  by (simp add: put_bytes_def)

section \<open>Waiting for hardware\<close>

text \<open>
  A loop that reads a register until a condition holds; \<open>step\<close> is what the hardware does between two
  reads. \<open>None\<close> is a loop that does not end.
\<close>

partial_function (option) poll_until :: "('s \<Rightarrow> bool) \<Rightarrow> ('s \<Rightarrow> 's) \<Rightarrow> 's \<Rightarrow> 's option" where
  "poll_until c step s = (if c s then Some s else poll_until c step (step s))"

lemma poll_until_ready: "c s \<Longrightarrow> poll_until c step s = Some s"
  by (subst poll_until.simps) simp

lemma poll_until_ends:
  "c ((step ^^ n) s) \<Longrightarrow> \<exists>m \<le> n. poll_until c step s = Some ((step ^^ m) s) \<and> c ((step ^^ m) s)"
proof (induction n arbitrary: s)
  case (Suc n)
  show ?case
  proof (cases "c s")
    case False
    have "c ((step ^^ n) (step s))" using Suc.prems by (simp add: funpow_swap1)
    then obtain m where "m \<le> n" "poll_until c step (step s) = Some ((step ^^ m) (step s))" "c ((step ^^ m) (step s))"
      using Suc.IH by blast
    then show ?thesis using False by (intro exI [of _ "Suc m"]) (subst poll_until.simps, simp add: funpow_swap1)
  qed (intro exI [of _ 0], simp add: poll_until_ready)
qed (simp add: poll_until_ready)

end
