(* ===== verification/Frame_Queue.thy ===== *)
theory Frame_Queue
  imports Prelude
begin

text \<open>
  The CAN frame queues of src/src/cannelloni.c: the frame and queue structures of cannelloni.h,
  \<open>queue_init\<close>, \<open>queue_put\<close>, \<open>queue_take\<close> and \<open>queue_peek\<close>, the abstract bounded FIFO they
  implement (locale \<open>bounded_fifo\<close>), and the refinement between the two.
\<close>

section \<open>Data\<close>

text \<open>\<open>struct canfd_frame\<close>; \<open>frame_data\<close> is \<open>data[CNL_CANFD_MAX_DLEN]\<close>.\<close>

record canfd_frame =
  can_id :: u32
  frame_len :: u8
  frame_flags :: u8
  frame_data :: bytes

definition CNL_CANFD_MAX_DLEN :: nat where
  "CNL_CANFD_MAX_DLEN = 8"

text \<open>
  The frame arrays are static memory shared by all handles, so they live in a store indexed by
  the address of the array; a \<open>struct canfd_frame *\<close> into one is the array and an index.
\<close>

type_synonym buf_addr = nat
type_synonym frame_ptr = "buf_addr \<times> u32"
type_synonym frame_store = "buf_addr \<Rightarrow> canfd_frame list"

record frames_queue_t =
  q_head :: u32
  q_tail :: u32
  q_count :: u32
  q_frames :: buf_addr

section \<open>Operations\<close>

definition queue_init :: "buf_addr \<Rightarrow> u32 \<Rightarrow> frames_queue_t" where
  "queue_init frames cnt = \<lparr>q_head = 0, q_tail = 0, q_count = cnt, q_frames = frames\<rparr>"

definition queue_put :: "frames_queue_t \<Rightarrow> (frame_ptr option \<times> frames_queue_t) result" where
  "queue_put q =
     (if q_count q = 0 then Inl DivByZero
      else if (q_tail q + 1) mod q_count q = q_head q then Inr (None, q)
      else Inr (Some (q_frames q, q_tail q), q\<lparr>q_tail := (q_tail q + 1) mod q_count q\<rparr>))"

definition queue_take :: "frames_queue_t \<Rightarrow> (frame_ptr option \<times> frames_queue_t) result" where
  "queue_take q =
     (if q_head q = q_tail q then Inr (None, q)
      else if q_count q = 0 then Inl DivByZero
      else Inr (Some (q_frames q, q_head q), q\<lparr>q_head := (q_head q + 1) mod q_count q\<rparr>))"

definition queue_peek :: "frames_queue_t \<Rightarrow> frame_ptr option" where
  "queue_peek q = (if q_head q = q_tail q then None else Some (q_frames q, q_head q))"

text \<open>Reading and writing through a frame pointer.\<close>

definition load_frame :: "frame_store \<Rightarrow> frame_ptr \<Rightarrow> canfd_frame result" where
  "load_frame st p = mem_get (st (fst p)) (unat (snd p))"

definition store_frame :: "frame_ptr \<Rightarrow> canfd_frame \<Rightarrow> frame_store \<Rightarrow> frame_store result" where
  "store_frame p f st =
     (if unat (snd p) < length (st (fst p))
      then Inr (st(fst p := (st (fst p))[unat (snd p) := f])) else Inl OutOfBounds)"

section \<open>Well-formedness and contents\<close>

definition queue_ok :: "frame_store \<Rightarrow> frames_queue_t \<Rightarrow> bool" where
  "queue_ok st q \<longleftrightarrow> q_head q < q_count q \<and> q_tail q < q_count q
     \<and> length (st (q_frames q)) = unat (q_count q)"

definition queue_length :: "frames_queue_t \<Rightarrow> nat" where
  "queue_length q = (unat (q_tail q) + unat (q_count q) - unat (q_head q)) mod unat (q_count q)"

definition queue_slot :: "frames_queue_t \<Rightarrow> nat \<Rightarrow> nat" where
  "queue_slot q i = (unat (q_head q) + i) mod unat (q_count q)"

definition queue_contents :: "frame_store \<Rightarrow> frames_queue_t \<Rightarrow> canfd_frame list" where
  "queue_contents st q = map (\<lambda>i. st (q_frames q) ! queue_slot q i) [0..<queue_length q]"

lemma queue_ok_count: "queue_ok st q \<Longrightarrow> 0 < unat (q_count q)"
  by (auto simp: queue_ok_def word_less_nat_alt)

lemma length_queue_contents [simp]: "length (queue_contents st q) = queue_length q"
  by (simp add: queue_contents_def)

lemma queue_length_less: "queue_ok st q \<Longrightarrow> queue_length q < unat (q_count q)"
  using queue_ok_count [of st q] by (simp add: queue_length_def)

lemma queue_slot_less: "queue_ok st q \<Longrightarrow> queue_slot q i < unat (q_count q)"
  using queue_ok_count [of st q] by (simp add: queue_slot_def)

subsection \<open>Ring arithmetic\<close>

lemma ring_dist: "(h::nat) < c \<Longrightarrow> t < c \<Longrightarrow>
    (t + c - h) mod c = (if h \<le> t then t - h else t + c - h)"
proof (cases "h \<le> t")
  case True
  then have "t + c - h = (t - h) + c" by simp
  then have "(t + c - h) mod c = (t - h) mod c" by (simp only: mod_add_self2)
  then show "t < c \<Longrightarrow> (t + c - h) mod c = (if h \<le> t then t - h else t + c - h)"
    using True by simp
qed simp

lemma ring_Suc: "(t::nat) < c \<Longrightarrow> Suc t mod c = (if Suc t = c then 0 else Suc t)"
  by simp

lemma ring_slot: "(h::nat) < c \<Longrightarrow> i < c \<Longrightarrow> (h + i) mod c = (if h + i < c then h + i else h + i - c)"
  by (simp add: mod_if)

lemmas ring_arith = ring_dist ring_Suc ring_slot

lemma ring_dist_Suc_tail:
  "(h::nat) < c \<Longrightarrow> t < c \<Longrightarrow> Suc t mod c \<noteq> h \<Longrightarrow>
    (Suc t mod c + c - h) mod c = Suc ((t + c - h) mod c)"
  using ring_dist [of h c "Suc t"] by (cases "Suc t = c") (auto simp: ring_dist)

lemma ring_dist_Suc_head:
  "(h::nat) < c \<Longrightarrow> t < c \<Longrightarrow> h \<noteq> t \<Longrightarrow>
    Suc ((t + c - Suc h mod c) mod c) = (t + c - h) mod c"
  by (cases "Suc h = c") (auto simp: ring_dist)

lemma ring_slot_Suc_head:
  "(h::nat) < c \<Longrightarrow> (Suc h mod c + i) mod c = (h + Suc i) mod c"
  by (simp add: mod_add_left_eq)

lemma ring_full: "(h::nat) < c \<Longrightarrow> t < c \<Longrightarrow> Suc t mod c = h \<longleftrightarrow> Suc ((t + c - h) mod c) = c"
  by (cases "Suc t = c") (auto simp: ring_dist)

lemma ring_last_slot: "(h::nat) < c \<Longrightarrow> t < c \<Longrightarrow> (h + (t + c - h) mod c) mod c = t"
  by (auto simp: ring_dist mod_if)

lemma ring_slots_distinct:
  "(h::nat) < c \<Longrightarrow> i < c \<Longrightarrow> j < c \<Longrightarrow> (h + i) mod c = (h + j) mod c \<Longrightarrow> i = j"
  by (auto simp: ring_slot split: if_splits)

section \<open>Behaviour of the operations\<close>

lemma queue_ok_bounds:
  "queue_ok st q \<Longrightarrow> unat (q_head q) < unat (q_count q)"
  "queue_ok st q \<Longrightarrow> unat (q_tail q) < unat (q_count q)"
  by (auto simp: queue_ok_def word_less_nat_alt)

lemma queue_init_ok [queue_simps]:
  "0 < unat cnt \<Longrightarrow> length (st frames) = unat cnt \<Longrightarrow> queue_ok st (queue_init frames cnt)"
  by (simp add: queue_ok_def queue_init_def word_less_nat_alt)

lemma queue_init_contents [queue_simps]: "queue_contents st (queue_init frames cnt) = []"
  by (simp add: queue_contents_def queue_length_def queue_init_def)

lemma queue_full_iff:
  "queue_ok st q \<Longrightarrow>
    (q_tail q + 1) mod q_count q = q_head q \<longleftrightarrow> Suc (queue_length q) = unat (q_count q)"
  by (simp add: queue_ok_def unat_Suc_mod_word word_unat_eq_iff queue_length_def
      word_less_nat_alt ring_full)

lemma queue_empty_iff: "queue_ok st q \<Longrightarrow> q_head q = q_tail q \<longleftrightarrow> queue_length q = 0"
  using queue_ok_bounds [of st q]
  by (auto simp: word_unat_eq_iff queue_length_def ring_dist)

lemma queue_put_full:
  "queue_ok st q \<Longrightarrow> Suc (queue_length q) = unat (q_count q) \<Longrightarrow> queue_put q = Inr (None, q)"
  using queue_ok_count [of st q]
  by (auto simp: queue_put_def queue_full_iff [symmetric])

lemma queue_put_room:
  assumes "queue_ok st q" "Suc (queue_length q) < unat (q_count q)"
  shows "queue_put q = Inr (Some (q_frames q, q_tail q), q\<lparr>q_tail := (q_tail q + 1) mod q_count q\<rparr>)"
  using assms queue_ok_count [of st q] queue_full_iff [of st q]
  by (auto simp: queue_put_def)

text \<open>
  Reserving a slot and filling it appends the frame written: the new slot is the one behind the
  last, and it overlaps no slot in use.
\<close>

lemma queue_put_contents:
  fixes f :: canfd_frame
  assumes ok: "queue_ok st q" and room: "Suc (queue_length q) < unat (q_count q)"
  defines "q' \<equiv> q\<lparr>q_tail := (q_tail q + 1) mod q_count q\<rparr>"
  defines "st' \<equiv> st(q_frames q := (st (q_frames q))[unat (q_tail q) := f])"
  shows "queue_ok st' q'" and "queue_contents st' q' = queue_contents st q @ [f]"
proof -
  let ?h = "unat (q_head q)" and ?t = "unat (q_tail q)" and ?c = "unat (q_count q)"
  have b: "?h < ?c" "?t < ?c" using queue_ok_bounds [OF ok] by auto
  have t': "unat (q_tail q') = Suc ?t mod ?c"
    using ok by (simp add: q'_def unat_Suc_mod_word queue_ok_def)
  show "queue_ok st' q'"
    using ok b t' by (simp add: queue_ok_def word_less_nat_alt st'_def q'_def)
  have "Suc ?t mod ?c \<noteq> ?h"
    using room b by (simp add: ring_full queue_length_def)
  then have len: "queue_length q' = Suc (queue_length q)"
    using b t' by (simp add: queue_length_def q'_def ring_dist_Suc_tail)
  have last: "queue_slot q (queue_length q) = ?t"
    using b by (simp add: queue_slot_def queue_length_def ring_last_slot)
  have other: "?t \<noteq> queue_slot q i" if "i < queue_length q" for i
    using that b room last ring_slots_distinct [of ?h ?c i "queue_length q"]
    by (auto simp: queue_slot_def)
  have slot: "queue_slot q' i = queue_slot q i" for i
    by (simp add: queue_slot_def q'_def)
  have lenst: "length (st (q_frames q)) = ?c" using ok by (simp add: queue_ok_def)
  have fr: "q_frames q' = q_frames q" by (simp add: q'_def)
  show "queue_contents st' q' = queue_contents st q @ [f]"
    using b other lenst by (simp add: queue_contents_def len slot last fr st'_def)
qed

lemma queue_take_empty: "queue_ok st q \<Longrightarrow> queue_length q = 0 \<Longrightarrow> queue_take q = Inr (None, q)"
  by (simp add: queue_take_def queue_empty_iff)

lemma queue_peek_empty: "queue_ok st q \<Longrightarrow> queue_length q = 0 \<Longrightarrow> queue_peek q = None"
  by (simp add: queue_peek_def queue_empty_iff)

lemma queue_contents_Cons:
  assumes ok: "queue_ok st q" and ne: "0 < queue_length q"
  defines "q' \<equiv> q\<lparr>q_head := (q_head q + 1) mod q_count q\<rparr>"
  shows "queue_contents st q = st (q_frames q) ! unat (q_head q) # queue_contents st q'"
    and "queue_ok st q'"
proof -
  let ?h = "unat (q_head q)" and ?t = "unat (q_tail q)" and ?c = "unat (q_count q)"
  have b: "?h < ?c" "?t < ?c" using queue_ok_bounds [OF ok] by auto
  have h': "unat (q_head q') = Suc ?h mod ?c"
    using ok by (simp add: q'_def unat_Suc_mod_word queue_ok_def)
  show "queue_ok st q'"
    using ok b h' by (simp add: queue_ok_def word_less_nat_alt q'_def)
  have "?h \<noteq> ?t" using ne queue_empty_iff [OF ok] by (auto simp: word_unat_eq_iff)
  then have len: "queue_length q = Suc (queue_length q')"
    using b h' by (simp add: queue_length_def q'_def ring_dist_Suc_head)
  have slot: "queue_slot q' i = queue_slot q (Suc i)" for i
    using b h' by (simp add: queue_slot_def q'_def ring_slot_Suc_head)
  have fst_slot: "queue_slot q 0 = ?h" using b by (simp add: queue_slot_def)
  have fr: "q_frames q' = q_frames q" by (simp add: q'_def)
  show "queue_contents st q = st (q_frames q) ! ?h # queue_contents st q'"
    by (simp add: queue_contents_def len upt_conv_Cons fst_slot map_upt_shift slot fr del: upt_Suc)
qed

lemma queue_take_nonempty:
  "queue_ok st q \<Longrightarrow> 0 < queue_length q \<Longrightarrow>
    queue_take q = Inr (Some (q_frames q, q_head q), q\<lparr>q_head := (q_head q + 1) mod q_count q\<rparr>)"
  using queue_ok_count [of st q] queue_empty_iff [of st q] by (auto simp: queue_take_def)

lemma queue_peek_nonempty:
  "queue_ok st q \<Longrightarrow> 0 < queue_length q \<Longrightarrow> queue_peek q = Some (q_frames q, q_head q)"
  using queue_empty_iff [of st q] by (auto simp: queue_peek_def)

lemma load_head: "queue_ok st q \<Longrightarrow> load_frame st (q_frames q, q_head q) = Inr (st (q_frames q) ! unat (q_head q))"
  using queue_ok_bounds [of st q] by (simp add: load_frame_def queue_ok_def)

section \<open>The queue as a bounded FIFO\<close>

text \<open>
  What the protocol code does with a queue: reserve a slot with \<open>queue_put\<close> and fill it
  (\<open>frame_enqueue\<close>, where \<open>fill\<close> maps the stale contents of the slot to the new ones), and
  look at or remove the oldest frame (\<open>frame_front\<close>, \<open>frame_dequeue\<close>).
\<close>

type_synonym queue_state = "frame_store \<times> frames_queue_t"

definition frame_enqueue ::
  "(canfd_frame \<Rightarrow> canfd_frame) \<Rightarrow> queue_state \<Rightarrow> queue_state option result" where
  "frame_enqueue fill s =
     (case queue_put (snd s) of
        Inl e \<Rightarrow> Inl e
      | Inr (None, q') \<Rightarrow> Inr None
      | Inr (Some p, q') \<Rightarrow>
          (case load_frame (fst s) p of
             Inl e \<Rightarrow> Inl e
           | Inr old \<Rightarrow>
               (case store_frame p (fill old) (fst s) of
                  Inl e \<Rightarrow> Inl e
                | Inr st' \<Rightarrow> Inr (Some (st', q')))))"

definition frame_front :: "queue_state \<Rightarrow> canfd_frame option result" where
  "frame_front s =
     (case queue_peek (snd s) of
        None \<Rightarrow> Inr None
      | Some p \<Rightarrow> map_sum id Some (load_frame (fst s) p))"

definition frame_dequeue :: "queue_state \<Rightarrow> (canfd_frame \<times> queue_state) option result" where
  "frame_dequeue s =
     (case queue_take (snd s) of
        Inl e \<Rightarrow> Inl e
      | Inr (None, q') \<Rightarrow> Inr None
      | Inr (Some p, q') \<Rightarrow> map_sum id (\<lambda>f. Some (f, (fst s, q'))) (load_frame (fst s) p))"

text \<open>
  The contract of a bounded FIFO, as the protocol code relies on it: no operation faults, an
  element goes in behind the others unless the queue is full, and comes out at the front.
\<close>

locale bounded_fifo =
  fixes invar :: "'s \<Rightarrow> bool"
    and contents :: "'s \<Rightarrow> 'a list"
    and capacity :: "'s \<Rightarrow> nat"
    and enqueue :: "('a \<Rightarrow> 'a) \<Rightarrow> 's \<Rightarrow> 's option result"
    and front :: "'s \<Rightarrow> 'a option result"
    and dequeue :: "'s \<Rightarrow> ('a \<times> 's) option result"
  assumes bounded: "invar s \<Longrightarrow> length (contents s) \<le> capacity s"
    and enqueue_full: "invar s \<Longrightarrow> length (contents s) = capacity s \<Longrightarrow> enqueue fill s = Inr None"
    and enqueue_room: "invar s \<Longrightarrow> length (contents s) < capacity s \<Longrightarrow>
      \<exists>old s'. enqueue fill s = Inr (Some s') \<and> invar s' \<and> capacity s' = capacity s
        \<and> contents s' = contents s @ [fill old]"
    and front_spec: "invar s \<Longrightarrow>
      front s = Inr (case contents s of [] \<Rightarrow> None | x # _ \<Rightarrow> Some x)"
    and dequeue_empty: "invar s \<Longrightarrow> contents s = [] \<Longrightarrow> dequeue s = Inr None"
    and dequeue_Cons: "invar s \<Longrightarrow> contents s = x # xs \<Longrightarrow>
      \<exists>s'. dequeue s = Inr (Some (x, s')) \<and> invar s' \<and> capacity s' = capacity s \<and> contents s' = xs"

text \<open>
  A client is a sequence of operations; what it sees is the list of answers. The same client
  over an abstract list bounded by \<open>cap\<close> is the specification.
\<close>

datatype 'a fifo_op = Put 'a | Take | Peek
datatype 'a fifo_answer = Accepted bool | Got "'a option"

fun fifo_spec :: "nat \<Rightarrow> 'a fifo_op list \<Rightarrow> 'a list \<Rightarrow> 'a fifo_answer list \<times> 'a list" where
  "fifo_spec cap [] xs = ([], xs)"
| "fifo_spec cap (Put x # ops) xs =
     (if length xs < cap
      then (let (as, ys) = fifo_spec cap ops (xs @ [x]) in (Accepted True # as, ys))
      else (let (as, ys) = fifo_spec cap ops xs in (Accepted False # as, ys)))"
| "fifo_spec cap (Take # ops) xs =
     (let (as, ys) = fifo_spec cap ops (tl xs)
      in (Got (case xs of [] \<Rightarrow> None | x # _ \<Rightarrow> Some x) # as, ys))"
| "fifo_spec cap (Peek # ops) xs =
     (let (as, ys) = fifo_spec cap ops xs
      in (Got (case xs of [] \<Rightarrow> None | x # _ \<Rightarrow> Some x) # as, ys))"

fun fifo_run ::
  "(('a \<Rightarrow> 'a) \<Rightarrow> 's \<Rightarrow> 's option result) \<Rightarrow> ('s \<Rightarrow> 'a option result) \<Rightarrow>
   ('s \<Rightarrow> ('a \<times> 's) option result) \<Rightarrow> 'a fifo_op list \<Rightarrow> 's \<Rightarrow>
   ('a fifo_answer list \<times> 's) result" where
  "fifo_run enq frnt deq [] s = Inr ([], s)"
| "fifo_run enq frnt deq (Put x # ops) s =
     (case enq (\<lambda>_. x) s of
        Inl e \<Rightarrow> Inl e
      | Inr None \<Rightarrow> map_sum id (apfst (Cons (Accepted False))) (fifo_run enq frnt deq ops s)
      | Inr (Some s') \<Rightarrow> map_sum id (apfst (Cons (Accepted True))) (fifo_run enq frnt deq ops s'))"
| "fifo_run enq frnt deq (Take # ops) s =
     (case deq s of
        Inl e \<Rightarrow> Inl e
      | Inr None \<Rightarrow> map_sum id (apfst (Cons (Got None))) (fifo_run enq frnt deq ops s)
      | Inr (Some (x, s')) \<Rightarrow> map_sum id (apfst (Cons (Got (Some x)))) (fifo_run enq frnt deq ops s'))"
| "fifo_run enq frnt deq (Peek # ops) s =
     (case frnt s of
        Inl e \<Rightarrow> Inl e
      | Inr r \<Rightarrow> map_sum id (apfst (Cons (Got r))) (fifo_run enq frnt deq ops s))"

context bounded_fifo
begin

lemma run_refines:
  "invar s \<Longrightarrow> \<exists>s'. fifo_run enqueue front dequeue ops s
       = Inr (fst (fifo_spec (capacity s) ops (contents s)), s')
     \<and> invar s' \<and> contents s' = snd (fifo_spec (capacity s) ops (contents s))"
proof (induction ops arbitrary: s)
  case Nil
  then show ?case by simp
next
  case (Cons op ops)
  show ?case
  proof (cases op)
    case (Put x)
    show ?thesis
    proof (cases "length (contents s) < capacity s")
      case True
      obtain s' where s': "enqueue (\<lambda>_. x) s = Inr (Some s')" "invar s'"
        "capacity s' = capacity s" "contents s' = contents s @ [x]"
        using enqueue_room [OF Cons.prems True, of "\<lambda>_. x"] by auto
      from Cons.IH [OF s'(2)] show ?thesis
        using True Put s' by (auto simp: Let_def split: prod.splits)
    next
      case False
      then have full: "length (contents s) = capacity s" using bounded [OF Cons.prems] by simp
      from Cons.IH [OF Cons.prems] show ?thesis
        using Put False enqueue_full [OF Cons.prems full] by (auto simp: Let_def split: prod.splits)
    qed
  next
    case Take
    show ?thesis
    proof (cases "contents s")
      case Nil
      from Cons.IH [OF Cons.prems] show ?thesis
        using Take Nil dequeue_empty [OF Cons.prems Nil] by (auto simp: Let_def split: prod.splits)
    next
      case c: (Cons x xs)
      obtain s' where s': "dequeue s = Inr (Some (x, s'))" "invar s'"
        "capacity s' = capacity s" "contents s' = xs"
        using dequeue_Cons [OF Cons.prems c] by auto
      from Cons.IH [OF s'(2)] show ?thesis
        using Take c s' by (auto simp: Let_def split: prod.splits)
    qed
  next
    case Peek
    from Cons.IH [OF Cons.prems] show ?thesis
      using Peek front_spec [OF Cons.prems] by (auto simp: Let_def split: prod.splits)
  qed
qed

end

abbreviation queue_state_ok :: "queue_state \<Rightarrow> bool" where
  "queue_state_ok s \<equiv> queue_ok (fst s) (snd s)"

abbreviation state_contents :: "queue_state \<Rightarrow> canfd_frame list" where
  "state_contents s \<equiv> queue_contents (fst s) (snd s)"

abbreviation state_capacity :: "queue_state \<Rightarrow> nat" where
  "state_capacity s \<equiv> unat (q_count (snd s)) - 1"

lemma frame_enqueue_room:
  assumes "queue_state_ok s" "length (state_contents s) < state_capacity s"
  shows "\<exists>old s'. frame_enqueue fill s = Inr (Some s') \<and> queue_state_ok s'
    \<and> state_capacity s' = state_capacity s \<and> state_contents s' = state_contents s @ [fill old]"
proof -
  obtain st q where s: "s = (st, q)" by (cases s)
  let ?t = "unat (q_tail q)"
  have ok: "queue_ok st q" and room: "Suc (queue_length q) < unat (q_count q)"
    using assms by (auto simp: s)
  have t: "?t < length (st (q_frames q))"
    using ok by (simp add: queue_ok_def word_less_nat_alt)
  let ?s' = "(st(q_frames q := (st (q_frames q))[?t := fill (st (q_frames q) ! ?t)]),
    q\<lparr>q_tail := (q_tail q + 1) mod q_count q\<rparr>)"
  have "frame_enqueue fill s = Inr (Some ?s')"
    using t by (simp add: frame_enqueue_def s queue_put_room [OF ok room] load_frame_def
        store_frame_def)
  with queue_put_contents [OF ok room, of "fill (st (q_frames q) ! ?t)"] show ?thesis
    by (auto simp: s)
qed

lemma frame_dequeue_Cons:
  assumes "queue_state_ok s" "state_contents s = x # xs"
  shows "\<exists>s'. frame_dequeue s = Inr (Some (x, s')) \<and> queue_state_ok s'
    \<and> state_capacity s' = state_capacity s \<and> state_contents s' = xs"
proof -
  obtain st q where s: "s = (st, q)" by (cases s)
  have ok: "queue_ok st q" and ne: "0 < queue_length q"
    using assms length_queue_contents [of st q] by (auto simp: s simp del: length_queue_contents)
  from queue_contents_Cons [OF ok ne] assms(2) show ?thesis
    by (auto simp: frame_dequeue_def s queue_take_nonempty [OF ok ne] load_head [OF ok])
qed

interpretation cq: bounded_fifo queue_state_ok state_contents state_capacity
  frame_enqueue frame_front frame_dequeue
proof unfold_locales
  fix s :: queue_state and fill
  assume ok: "queue_state_ok s"
  then show "length (state_contents s) \<le> state_capacity s"
    using queue_length_less [of "fst s" "snd s"] by simp
  show "frame_front s = Inr (case state_contents s of [] \<Rightarrow> None | x # _ \<Rightarrow> Some x)"
  proof (cases "queue_length (snd s) = 0")
    case True
    then show ?thesis
      using ok by (simp add: frame_front_def queue_peek_empty [OF ok] queue_contents_def)
  next
    case False
    with queue_contents_Cons(1) [OF ok] show ?thesis
      by (simp add: frame_front_def queue_peek_nonempty [OF ok] load_head [OF ok])
  qed
  show "frame_enqueue fill s = Inr None" if "length (state_contents s) = state_capacity s"
    using that queue_ok_count [OF ok] by (simp add: frame_enqueue_def queue_put_full [OF ok])
  show "\<exists>old s'. frame_enqueue fill s = Inr (Some s') \<and> queue_state_ok s'
      \<and> state_capacity s' = state_capacity s \<and> state_contents s' = state_contents s @ [fill old]"
    if "length (state_contents s) < state_capacity s"
    using ok that by (rule frame_enqueue_room)
  show "frame_dequeue s = Inr None" if "state_contents s = []"
  proof -
    have "queue_length (snd s) = 0"
      using that length_queue_contents [of "fst s" "snd s"] by (simp del: length_queue_contents)
    then show ?thesis by (simp add: frame_dequeue_def queue_take_empty [OF ok])
  qed
next
  fix s :: queue_state and x xs
  assume "queue_state_ok s" "state_contents s = x # xs"
  then show "\<exists>s'. frame_dequeue s = Inr (Some (x, s')) \<and> queue_state_ok s'
      \<and> state_capacity s' = state_capacity s \<and> state_contents s' = xs"
    by (rule frame_dequeue_Cons)
qed

section \<open>Properties\<close>

text \<open>
  C30: A frame queue over an array of \<open>cnt\<close> slots is a FIFO of capacity \<open>cnt - 1\<close>: any sequence
  of put, take and peek operations on a freshly initialised queue runs without a fault, gives
  exactly the answers of the abstract bounded FIFO and leaves its contents, whatever stale data
  the slots held.
\<close>

theorem queue_refines_fifo:
  assumes "0 < unat cnt" "length (st a) = unat cnt"
  shows "\<exists>s'. fifo_run frame_enqueue frame_front frame_dequeue ops (st, queue_init a cnt)
      = Inr (fst (fifo_spec (unat cnt - 1) ops []), s')
    \<and> state_contents s' = snd (fifo_spec (unat cnt - 1) ops [])"
proof -
  have "q_count (queue_init a cnt) = cnt" by (simp add: queue_init_def)
  then show ?thesis
    using cq.run_refines [of "(st, queue_init a cnt)" ops] assms by (auto simp: queue_simps)
qed

definition sample_frame :: "u32 \<Rightarrow> canfd_frame" where
  "sample_frame i = \<lparr>can_id = i, frame_len = 1, frame_flags = 0, frame_data = replicate 8 0\<rparr>"

theorem queue_refines_fifo_witness:
  "\<exists>s'. fifo_run frame_enqueue frame_front frame_dequeue
      [Put (sample_frame 7), Put (sample_frame 8), Put (sample_frame 9), Take, Peek]
      (\<lambda>_. replicate 3 (sample_frame 0), queue_init 0 3)
    = Inr ([Accepted True, Accepted True, Accepted False, Got (Some (sample_frame 7)),
        Got (Some (sample_frame 8))], s')
    \<and> state_contents s' = [sample_frame 8]"
  using queue_refines_fifo [of 3 "\<lambda>_. replicate 3 (sample_frame 0)" 0
      "[Put (sample_frame 7), Put (sample_frame 8), Put (sample_frame 9), Take, Peek]"]
  by simp

end
