(* ===== verification/Ip6.thy ===== *)
theory Ip6
  imports Prelude
begin

text \<open>
  IPv6 addresses (lwip/ip6_addr.h), the addresses of a network interface (lwip/src/core/netif.c), and
  routing and source address selection (lwip/src/core/ipv6/ip6.c) in the configuration of
  src/lwipopts.h.
\<close>

section \<open>Addresses\<close>

text \<open>\<open>ip6_addr_t\<close>; there are no zones (\<open>LWIP_SINGLE_NETIF\<close>) and the host is big-endian.\<close>

datatype ip6_addr = IP6 u32 u32 u32 u32

definition IP6_ADDR_ANY :: ip6_addr where
  "IP6_ADDR_ANY = IP6 0 0 0 0"

fun ip6_addr_ismulticast :: "ip6_addr \<Rightarrow> bool" where
  "ip6_addr_ismulticast (IP6 a b c d) \<longleftrightarrow> a AND 0xff000000 = 0xff000000"

text \<open>The predicates of lwip/ip6_addr.h on the first word of an address.\<close>

fun addr0 :: "ip6_addr \<Rightarrow> u32" where "addr0 (IP6 a b c d) = a"

definition ip6_addr_isloopback :: "ip6_addr \<Rightarrow> bool" where
  "ip6_addr_isloopback a \<longleftrightarrow> a = IP6 0 0 0 1"
definition ip6_addr_isglobal :: "ip6_addr \<Rightarrow> bool" where
  "ip6_addr_isglobal a \<longleftrightarrow> addr0 a AND 0xe0000000 = 0x20000000"
definition ip6_addr_islinklocal :: "ip6_addr \<Rightarrow> bool" where
  "ip6_addr_islinklocal a \<longleftrightarrow> addr0 a AND 0xffc00000 = 0xfe800000"
definition ip6_addr_issitelocal :: "ip6_addr \<Rightarrow> bool" where
  "ip6_addr_issitelocal a \<longleftrightarrow> addr0 a AND 0xffc00000 = 0xfec00000"
definition ip6_addr_isuniquelocal :: "ip6_addr \<Rightarrow> bool" where
  "ip6_addr_isuniquelocal a \<longleftrightarrow> addr0 a AND 0xfe000000 = 0xfc000000"
definition ip6_addr_multicast_scope :: "ip6_addr \<Rightarrow> nat" where
  "ip6_addr_multicast_scope a = unat (drop_bit 16 (addr0 a) AND 0xf)"

fun ip6_addr_net_eq :: "ip6_addr \<Rightarrow> ip6_addr \<Rightarrow> bool" where
  "ip6_addr_net_eq (IP6 a b c d) (IP6 a' b' c' d') \<longleftrightarrow> a = a' \<and> b = b'"
fun ip6_addr_nethost_eq :: "ip6_addr \<Rightarrow> ip6_addr \<Rightarrow> bool" where
  "ip6_addr_nethost_eq (IP6 a b c d) (IP6 a' b' c' d') \<longleftrightarrow> c = c' \<and> d = d'"

lemma net_and_host_eq: "ip6_addr_net_eq a b \<and> ip6_addr_nethost_eq a b \<longleftrightarrow> a = b"
  by (cases a; cases b) auto

text \<open>Address states, and the scopes that source selection compares.\<close>

definition IP6_ADDR_INVALID :: u8 where "IP6_ADDR_INVALID = 0"
definition IP6_ADDR_TENTATIVE :: u8 where "IP6_ADDR_TENTATIVE = 0x08"
definition IP6_ADDR_VALID :: u8 where "IP6_ADDR_VALID = 0x10"
definition IP6_ADDR_PREFERRED :: u8 where "IP6_ADDR_PREFERRED = 0x30"

definition ip6_addr_isvalid :: "u8 \<Rightarrow> bool" where
  "ip6_addr_isvalid st \<longleftrightarrow> st AND IP6_ADDR_VALID \<noteq> 0"

section \<open>The network interface\<close>

text \<open>
  The fields of \<open>struct netif\<close> that the modelled code uses; \<open>ip6_addrs\<close> are the addresses with their
  states. There is one interface (\<open>LWIP_SINGLE_NETIF\<close>); \<open>None\<close> is \<open>netif_default == NULL\<close>.
\<close>

record netif =
  netif_num :: u8
  hwaddr :: bytes
  ip6_addrs :: "(ip6_addr \<times> u8) list"
  netif_is_up :: bool
  netif_is_link_up :: bool

definition netif_get_by_index :: "u8 \<Rightarrow> netif option \<Rightarrow> netif option" where
  "netif_get_by_index idx netif_default =
     (if idx \<noteq> 0 then (case netif_default of Some n \<Rightarrow> if idx = netif_num n + 1 then Some n else None | None \<Rightarrow> None)
      else None)"

fun addr_match :: "nat \<Rightarrow> (ip6_addr \<times> u8) list \<Rightarrow> ip6_addr \<Rightarrow> nat option" where
  "addr_match i [] a = None"
| "addr_match i ((x, st) # xs) a =
     (if st \<noteq> IP6_ADDR_INVALID \<and> x = a then Some i else addr_match (Suc i) xs a)"

definition netif_get_ip6_addr_match :: "netif \<Rightarrow> ip6_addr \<Rightarrow> nat option" where
  "netif_get_ip6_addr_match n a = addr_match 0 (ip6_addrs n) a"

definition ip6_route :: "netif option \<Rightarrow> netif option" where
  "ip6_route netif_default =
     (case netif_default of
        None \<Rightarrow> None
      | Some n \<Rightarrow> if \<not> netif_is_up n \<or> \<not> netif_is_link_up n then None else Some n)"

text \<open>
  The address that \<open>netif_create_ip6_linklocal_address\<close> forms: from a 48-bit MAC address, or, as \<open>main\<close> calls it, from
  the hardware address as it is.
\<close>

definition ll_step :: "bytes \<Rightarrow> nat \<Rightarrow> u32 \<times> u32 \<Rightarrow> u32 \<times> u32" where
  "ll_step hw i = (\<lambda>(a2, a3).
     let v = push_bit (8 * (i mod 4)) (ucast (hw ! (length hw - i - 1)))
     in if i < 4 then (a2, a3 OR v) else (a2 OR v, a3))"

definition linklocal_address :: "bool \<Rightarrow> bytes \<Rightarrow> ip6_addr" where
  "linklocal_address from_mac_48bit hw =
     (if from_mac_48bit
      then IP6 0xfe800000 0
             (push_bit 24 (ucast (hw ! 0 XOR 2)) OR push_bit 16 (ucast (hw ! 1)) OR push_bit 8 (ucast (hw ! 2)) OR 0xff)
             (push_bit 24 0xfe OR push_bit 16 (ucast (hw ! 3)) OR push_bit 8 (ucast (hw ! 4)) OR ucast (hw ! 5))
      else (let (a2, a3) = fold (ll_step hw) [0..<min 8 (length hw)] (0, 0) in IP6 0xfe800000 0 a2 a3))"

section \<open>Source address selection\<close>

definition dest_scope :: "ip6_addr \<Rightarrow> nat" where
  "dest_scope dest =
     (if ip6_addr_isglobal dest then 0xe
      else if ip6_addr_islinklocal dest \<or> ip6_addr_isloopback dest then 2
      else if ip6_addr_isuniquelocal dest then 8
      else if ip6_addr_ismulticast dest then ip6_addr_multicast_scope dest
      else if ip6_addr_issitelocal dest then 5
      else 0xe)"

definition cand_scope :: "ip6_addr \<Rightarrow> nat" where
  "cand_scope a =
     (if ip6_addr_isglobal a then 0xe
      else if ip6_addr_islinklocal a then 2
      else if ip6_addr_isuniquelocal a then 8
      else if ip6_addr_issitelocal a then 5
      else 0xf)"

text \<open>The loop: the best address so far with its scope, preference and prefix match.\<close>

fun select_loop ::
  "ip6_addr \<Rightarrow> nat \<Rightarrow> (ip6_addr \<times> u8) list \<Rightarrow> (ip6_addr \<times> nat \<times> bool \<times> bool) option \<Rightarrow> ip6_addr option" where
  "select_loop dest ds [] best = map_option fst best"
| "select_loop dest ds ((a, st) # as) best =
     (if \<not> ip6_addr_isvalid st then select_loop dest ds as best
      else
        (let sc = cand_scope a;
             pref = (st = IP6_ADDR_PREFERRED);
             bits = ip6_addr_net_eq a dest
         in if bits \<and> ip6_addr_nethost_eq a dest then Some a
            else if (case best of
                       None \<Rightarrow> True
                     | Some (b, bsc, bpref, bbits) \<Rightarrow>
                         (sc < bsc \<and> ds \<le> sc) \<or> (bsc < sc \<and> bsc < ds)
                         \<or> (sc = bsc \<and> ((pref \<and> \<not> bpref) \<or> (pref = bpref \<and> bits \<and> \<not> bbits))))
                 then select_loop dest ds as (Some (a, sc, pref, bits))
                 else select_loop dest ds as best))"

definition ip6_select_source_address :: "netif \<Rightarrow> ip6_addr \<Rightarrow> ip6_addr option" where
  "ip6_select_source_address n dest = select_loop dest (dest_scope dest) (ip6_addrs n) None"

text \<open>The addresses of an interface that may be used as a source.\<close>

definition valid_addrs :: "(ip6_addr \<times> u8) list \<Rightarrow> ip6_addr set" where
  "valid_addrs as = fst ` {x \<in> set as. ip6_addr_isvalid (snd x)}"

lemma valid_addrs_Cons: "valid_addrs ((a, st) # as) = (if ip6_addr_isvalid st then {a} else {}) \<union> valid_addrs as"
  by (force simp: valid_addrs_def)

text \<open>The loop returns a valid address whenever there is one, and the destination itself if it is ours.\<close>

definition selected :: "ip6_addr \<Rightarrow> (ip6_addr \<times> u8) list \<Rightarrow> ip6_addr option \<Rightarrow> ip6_addr option \<Rightarrow> bool" where
  "selected dest as best r \<longleftrightarrow>
     (case r of None \<Rightarrow> valid_addrs as = {} \<and> best = None
      | Some a \<Rightarrow> (a \<in> valid_addrs as \<or> best = Some a) \<and> (dest \<in> valid_addrs as \<longrightarrow> a = dest))"

lemma select_loop_spec: "selected dest as (map_option fst best) (select_loop dest ds as best)"
proof (induction as arbitrary: best)
  case Nil
  then show ?case by (cases best) (auto simp: selected_def valid_addrs_def)
next
  case (Cons x as)
  obtain a st where x: "x = (a, st)" by (cases x)
  consider "\<not> ip6_addr_isvalid st" | "ip6_addr_isvalid st" "a = dest" | "ip6_addr_isvalid st" "a \<noteq> dest" by blast
  then show ?case
  proof cases
    case 1
    then have v: "valid_addrs (x # as) = valid_addrs as" by (simp add: x valid_addrs_Cons)
    have "select_loop dest ds (x # as) best = select_loop dest ds as best" using 1 by (simp add: x)
    then show ?thesis using Cons.IH [of best] unfolding selected_def v by simp
  next
    case 2
    then have "select_loop dest ds (x # as) best = Some a" using net_and_host_eq [of a dest] by (simp add: x)
    with 2 show ?thesis by (simp add: x selected_def valid_addrs_Cons)
  next
    case 3
    let ?new = "Some (a, cand_scope a, st = IP6_ADDR_PREFERRED, ip6_addr_net_eq a dest)"
    have "\<not> (ip6_addr_net_eq a dest \<and> ip6_addr_nethost_eq a dest)" using 3(2) net_and_host_eq by blast
    then have loop: "select_loop dest ds (x # as) best = select_loop dest ds as ?new
        \<or> select_loop dest ds (x # as) best = select_loop dest ds as best \<and> best \<noteq> None"
      using 3(1) unfolding x select_loop.simps Let_def by (cases best) auto
    have new: "selected dest as (Some a) (select_loop dest ds as ?new)" using Cons.IH [of ?new] by simp
    show ?thesis
      using loop
    proof (elim disjE conjE)
      assume l: "select_loop dest ds (x # as) best = select_loop dest ds as ?new"
      show ?thesis
        using new 3 unfolding l by (auto simp: x selected_def valid_addrs_Cons split: option.splits)
    next
      assume l: "select_loop dest ds (x # as) best = select_loop dest ds as best" "best \<noteq> None"
      show ?thesis
        using Cons.IH [of best] 3 l(2) unfolding l(1) by (auto simp: x selected_def valid_addrs_Cons split: option.splits)
    qed
  qed
qed

section \<open>Properties\<close>

text \<open>
  Source address selection. \<open>ip6_select_source_address\<close> returns an address exactly when the interface has
  a valid one; what it returns is a valid address of the interface, and it is the destination itself when
  that is one of them.
\<close>

theorem ip6_select_source_address_valid:
  "(ip6_select_source_address n dest = None \<longleftrightarrow> valid_addrs (ip6_addrs n) = {})
   \<and> (case ip6_select_source_address n dest of
        None \<Rightarrow> True
      | Some a \<Rightarrow> a \<in> valid_addrs (ip6_addrs n) \<and> (dest \<notin> valid_addrs (ip6_addrs n) \<or> a = dest))"
  using select_loop_spec [of dest "ip6_addrs n" None "dest_scope dest"]
  unfolding ip6_select_source_address_def selected_def by (auto split: option.splits)

definition sample_netif :: netif where
  "sample_netif = \<lparr>netif_num = 0, hwaddr = [2, 0, 1, 2, 3, 4],
     ip6_addrs = [(IP6 0xfe800000 0 0x0200 0x01020304, 0x30), (IP6 0x20010db8 0 0 1, 0x08)],
     netif_is_up = True, netif_is_link_up = True\<rparr>"

theorem ip6_select_source_address_valid_witness:
  "ip6_select_source_address sample_netif (IP6 0xff020000 0 0x0200 0x01020304) = Some (IP6 0xfe800000 0 0x0200 0x01020304)"
proof -
  have "valid_addrs (ip6_addrs sample_netif) = {IP6 0xfe800000 0 0x0200 0x01020304}"
    by (simp add: sample_netif_def valid_addrs_Cons ip6_addr_isvalid_def IP6_ADDR_VALID_def) (simp add: valid_addrs_def)
  then show ?thesis
    using ip6_select_source_address_valid [of sample_netif "IP6 0xff020000 0 0x0200 0x01020304"]
    by (auto split: option.splits)
qed

lemma be32_of_be32: "be32 (of_be32 a b c d) = [a, b, c, d]"
proof -
  have high: "8 \<le> n \<Longrightarrow> \<not> bit (x :: u8) n" for x n
    using bit_imp_le_length [of x n] by auto
  have "ucast (drop_bit 24 (of_be32 a b c d)) = a"
    by (rule bit_word_eqI) (simp add: of_be32_def bit_simps high)
  moreover have "ucast (drop_bit 16 (of_be32 a b c d)) = b"
    by (rule bit_word_eqI) (simp add: of_be32_def bit_simps high)
  moreover have "ucast (drop_bit 8 (of_be32 a b c d)) = c"
    by (rule bit_word_eqI) (simp add: of_be32_def bit_simps high)
  moreover have "ucast (of_be32 a b c d) = d"
    by (rule bit_word_eqI) (simp add: of_be32_def bit_simps)
  ultimately show ?thesis by (simp add: be32_def)
qed

lemma of_be32_inj: "of_be32 a b c d = of_be32 a' b' c' d' \<longleftrightarrow> a = a' \<and> b = b' \<and> c = c' \<and> d = d'"
proof
  assume "of_be32 a b c d = of_be32 a' b' c' d'"
  then have "be32 (of_be32 a b c d) = be32 (of_be32 a' b' c' d')" by (rule arg_cong)
  then show "a = a' \<and> b = b' \<and> c = c' \<and> d = d'" unfolding be32_of_be32 by simp
qed simp

lemma linklocal_six:
  "linklocal_address False [a, b, c, d, e, f] = IP6 0xfe800000 0 (of_be32 0 0 a b) (of_be32 c d e f)"
  "linklocal_address True [a, b, c, d, e, f] = IP6 0xfe800000 0 (of_be32 (a XOR 2) b c 0xff) (of_be32 0xfe d e f)"
proof -
  have "[0..<min 8 (length [a, b, c, d, e, f])] = [0, 1, 2, 3, 4, 5]" by (simp add: upt_rec)
  then show "linklocal_address False [a, b, c, d, e, f] = IP6 0xfe800000 0 (of_be32 0 0 a b) (of_be32 c d e f)"
    by (simp add: linklocal_address_def ll_step_def of_be32_def or.commute or.left_commute)
  show "linklocal_address True [a, b, c, d, e, f] = IP6 0xfe800000 0 (of_be32 (a XOR 2) b c 0xff) (of_be32 0xfe d e f)"
    by (simp add: linklocal_address_def of_be32_def)
qed

lemma xor_cancel: "(a :: u8) XOR 2 = b XOR 2 \<longleftrightarrow> a = b"
  by (metis xor.assoc xor.right_neutral xor_self_eq)

text \<open>
  Link-local addresses. The address that \<open>netif_create_ip6_linklocal_address\<close> forms from a 6-byte hardware
  address is link-local and determines the hardware address, in both modes, so that gateways with
  different hardware addresses have different addresses. The gateway's own address has the hardware address as
  its interface identifier.
\<close>

theorem linklocal_address_unique:
  assumes "length hw = 6" "length hw' = 6"
  shows "ip6_addr_islinklocal (linklocal_address m hw)
    \<and> (linklocal_address m hw = linklocal_address m hw' \<longleftrightarrow> hw = hw')
    \<and> linklocal_address False hw = IP6 0xfe800000 0 (of_be32 0 0 (hw ! 0) (hw ! 1)) (of_be32 (hw ! 2) (hw ! 3) (hw ! 4) (hw ! 5))"
proof -
  have bytes: "\<exists>a b c d e f. xs = [a, b, c, d, e, f]" if "length xs = 6" for xs :: bytes
    using that by (auto simp: length_Suc_conv numeral_eq_Suc)
  obtain a b c d e f where hw: "hw = [a, b, c, d, e, f]" using bytes assms(1) by blast
  obtain a' b' c' d' e' f' where hw': "hw' = [a', b', c', d', e', f']" using bytes assms(2) by blast
  note ll = linklocal_six [of a b c d e f] linklocal_six [of a' b' c' d' e' f']
  show ?thesis
    unfolding hw hw' by (cases m) (simp_all add: ll ip6_addr_islinklocal_def of_be32_inj xor_cancel)
qed

theorem linklocal_address_unique_witness:
  "linklocal_address False [0, 1, 2, 3, 4, 5] \<noteq> linklocal_address False [0, 1, 2, 3, 4, 6]"
  using conjunct1 [OF conjunct2 [OF linklocal_address_unique [of "[0, 1, 2, 3, 4, 5]" "[0, 1, 2, 3, 4, 6]" False]]] by simp

end
