(* ===== verification/Memp.thy ===== *)
theory Memp
  imports Prelude
begin

text \<open>
  The fixed-size pools of lwIP (lwip/src/core/memp.c, priv/memp_std.h, priv/memp_priv.h) in the
  configuration of src/lwipopts.h: pool descriptors, initialisation, allocation and release over
  the free lists threaded through the elements, the contract of a pool (locale \<open>element_pool\<close>)
  and its implementation.
\<close>

section \<open>Pools\<close>

text \<open>The pools that priv/memp_std.h declares with this configuration, in its order.\<close>

datatype memp_t =
    MEMP_UDP_PCB | MEMP_SYS_TIMEOUT | MEMP_ND6_QUEUE | MEMP_MLD6_GROUP | MEMP_PBUF | MEMP_PBUF_POOL

definition memp_types :: "memp_t list" where
  "memp_types = [MEMP_UDP_PCB, MEMP_SYS_TIMEOUT, MEMP_ND6_QUEUE, MEMP_MLD6_GROUP, MEMP_PBUF,
     MEMP_PBUF_POOL]"

lemma set_memp_types [simp]: "t \<in> set memp_types"
  by (cases t) (simp_all add: memp_types_def)

text \<open>
  \<open>MEMP_NUM_UDP_PCB\<close>, \<open>MEMP_NUM_SYS_TIMEOUT\<close> (set in lwipopts.h), \<open>MEMP_NUM_ND6_QUEUE\<close>,
  \<open>MEMP_NUM_MLD6_GROUP\<close>, \<open>MEMP_NUM_PBUF\<close> and \<open>PBUF_POOL_SIZE\<close> (set in lwipopts.h).
\<close>

fun memp_num :: "memp_t \<Rightarrow> nat" where
  "memp_num MEMP_UDP_PCB = 4"
| "memp_num MEMP_SYS_TIMEOUT = 8"
| "memp_num MEMP_ND6_QUEUE = 20"
| "memp_num MEMP_MLD6_GROUP = 4"
| "memp_num MEMP_PBUF = 16"
| "memp_num MEMP_PBUF_POOL = 16"

text \<open>
  \<open>struct memp_desc\<close>. The element size is the aligned size of the C structure and the base
  address is given by the linker: both stay parameters. \<open>tab\<close> and the \<open>next\<close> words inside the
  elements are the mutable state; address 0 is NULL.
\<close>

record memp_desc =
  desc_size :: nat
  desc_num :: nat
  desc_base :: nat

record memp_state =
  memp_tab :: "memp_t \<Rightarrow> nat"
  memp_next :: "nat \<Rightarrow> nat"

definition MEM_ALIGNMENT :: nat where
  "MEM_ALIGNMENT = 4"

section \<open>Operations\<close>

fun memp_init_loop :: "memp_t \<Rightarrow> nat \<Rightarrow> nat \<Rightarrow> nat \<Rightarrow> memp_state \<Rightarrow> memp_state" where
  "memp_init_loop t sz 0 memp s = s"
| "memp_init_loop t sz (Suc n) memp s =
     memp_init_loop t sz n (memp + sz)
       (s\<lparr>memp_next := (memp_next s)(memp := memp_tab s t), memp_tab := (memp_tab s)(t := memp)\<rparr>)"

definition memp_init_pool :: "memp_t \<Rightarrow> memp_desc \<Rightarrow> memp_state \<Rightarrow> memp_state" where
  "memp_init_pool t d s =
     memp_init_loop t (desc_size d) (desc_num d) (desc_base d) (s\<lparr>memp_tab := (memp_tab s)(t := 0)\<rparr>)"

definition memp_init :: "(memp_t \<Rightarrow> memp_desc) \<Rightarrow> memp_state \<Rightarrow> memp_state" where
  "memp_init pools s = fold (\<lambda>t. memp_init_pool t (pools t)) memp_types s"

definition do_memp_malloc_pool :: "memp_t \<Rightarrow> memp_state \<Rightarrow> (nat option \<times> memp_state) result" where
  "do_memp_malloc_pool t s =
     (let memp = memp_tab s t in
      if memp \<noteq> 0 then
        (let s' = s\<lparr>memp_tab := (memp_tab s)(t := memp_next s memp)\<rparr> in
         if memp mod MEM_ALIGNMENT = 0 then Inr (Some memp, s') else Inl AssertFail)
      else Inr (None, s))"

definition memp_malloc :: "memp_t \<Rightarrow> memp_state \<Rightarrow> (nat option \<times> memp_state) result" where
  "memp_malloc t s = do_memp_malloc_pool t s"

definition do_memp_free_pool :: "memp_t \<Rightarrow> nat \<Rightarrow> memp_state \<Rightarrow> memp_state result" where
  "do_memp_free_pool t mem s =
     (if mem mod MEM_ALIGNMENT = 0
      then Inr (s\<lparr>memp_next := (memp_next s)(mem := memp_tab s t), memp_tab := (memp_tab s)(t := mem)\<rparr>)
      else Inl AssertFail)"

definition memp_free :: "memp_t \<Rightarrow> nat \<Rightarrow> memp_state \<Rightarrow> memp_state result" where
  "memp_free t mem s = (if mem = 0 then Inr s else do_memp_free_pool t mem s)"

section \<open>Free lists\<close>

definition pool_elems :: "memp_desc \<Rightarrow> nat list" where
  "pool_elems d = map (\<lambda>i. desc_base d + i * desc_size d) [0..<desc_num d]"

definition pools_ok :: "(memp_t \<Rightarrow> memp_desc) \<Rightarrow> bool" where
  "pools_ok pools \<longleftrightarrow>
     (\<forall>t. 0 < desc_base (pools t) \<and> 0 < desc_size (pools t)
        \<and> desc_base (pools t) mod MEM_ALIGNMENT = 0 \<and> desc_size (pools t) mod MEM_ALIGNMENT = 0)
     \<and> (\<forall>t u. t \<noteq> u \<longrightarrow> set (pool_elems (pools t)) \<inter> set (pool_elems (pools u)) = {})"

text \<open>\<open>linked next p xs\<close>: following \<open>next\<close> from \<open>p\<close> visits exactly \<open>xs\<close> and then NULL.\<close>

fun linked :: "(nat \<Rightarrow> nat) \<Rightarrow> nat \<Rightarrow> nat list \<Rightarrow> bool" where
  "linked nx p [] \<longleftrightarrow> p = 0"
| "linked nx p (x # xs) \<longleftrightarrow> p = x \<and> x \<noteq> 0 \<and> linked nx (nx x) xs"

definition free_list :: "memp_state \<Rightarrow> memp_t \<Rightarrow> nat list \<Rightarrow> bool" where
  "free_list s t xs \<longleftrightarrow> linked (memp_next s) (memp_tab s t) xs \<and> distinct xs"

definition memp_ok :: "(memp_t \<Rightarrow> memp_desc) \<Rightarrow> memp_state \<Rightarrow> bool" where
  "memp_ok pools s \<longleftrightarrow> pools_ok pools \<and>
     (\<forall>t. \<exists>xs. free_list s t xs \<and> set xs \<subseteq> set (pool_elems (pools t)))"

text \<open>The free elements of a pool, as a set, read off the list.\<close>

definition free_elems :: "memp_state \<Rightarrow> memp_t \<Rightarrow> nat set" where
  "free_elems s t = \<Union> {set xs |xs. free_list s t xs}"

lemma linked_cong: "linked nx p xs \<Longrightarrow> (\<And>x. x \<in> set xs \<Longrightarrow> nx' x = nx x) \<Longrightarrow> linked nx' p xs"
  by (induction xs arbitrary: p) auto

lemma linked_unique: "linked nx p xs \<Longrightarrow> linked nx p ys \<Longrightarrow> xs = ys"
proof (induction xs arbitrary: p ys)
  case Nil
  then show ?case by (cases ys) auto
next
  case (Cons x xs)
  then show ?case by (cases ys) auto
qed

lemma linked_upd [simp]: "x \<notin> set xs \<Longrightarrow> linked (nx(x := y)) p xs \<longleftrightarrow> linked nx p xs"
  by (auto elim!: linked_cong)

lemma free_elems_eq: "free_list s t xs \<Longrightarrow> free_elems s t = set xs"
  by (auto simp: free_elems_def free_list_def dest: linked_unique)

lemma linked_NULL: "linked nx 0 xs \<longleftrightarrow> xs = []"
  by (cases xs) auto

lemma linked_nonNULL: "linked nx p xs \<Longrightarrow> p \<noteq> 0 \<Longrightarrow> \<exists>ys. xs = p # ys \<and> linked nx (nx p) ys"
  by (cases xs) auto

section \<open>The contract of a pool\<close>

text \<open>
  A client of a pool sees its set of free elements: allocation hands one of them out or reports
  that there is none, and release puts one back; no other pool changes.
\<close>

locale element_pool =
  fixes invar :: "'s \<Rightarrow> bool"
    and free :: "'s \<Rightarrow> 'k \<Rightarrow> nat set"
    and elems :: "'k \<Rightarrow> nat set"
    and malloc :: "'k \<Rightarrow> 's \<Rightarrow> (nat option \<times> 's) result"
    and release :: "'k \<Rightarrow> nat \<Rightarrow> 's \<Rightarrow> 's result"
  assumes finite_free: "invar s \<Longrightarrow> finite (free s k)"
    and free_elems: "invar s \<Longrightarrow> free s k \<subseteq> elems k"
    and malloc_none: "invar s \<Longrightarrow> free s k = {} \<Longrightarrow> malloc k s = Inr (None, s)"
    and malloc_some: "invar s \<Longrightarrow> free s k \<noteq> {} \<Longrightarrow>
      \<exists>x s'. malloc k s = Inr (Some x, s') \<and> x \<in> free s k \<and> invar s'
        \<and> free s' = (free s)(k := free s k - {x})"
    and release_ok: "invar s \<Longrightarrow> x \<in> elems k \<Longrightarrow> x \<notin> free s k \<Longrightarrow>
      \<exists>s'. release k x s = Inr s' \<and> invar s' \<and> free s' = (free s)(k := insert x (free s k))"

text \<open>Allocating \<open>n\<close> elements in a row; the answers are \<open>None\<close> once the pool is empty.\<close>

fun malloc_many ::
  "('s \<Rightarrow> (nat option \<times> 's) result) \<Rightarrow> nat \<Rightarrow> 's \<Rightarrow> (nat option list \<times> 's) result" where
  "malloc_many mal 0 s = Inr ([], s)"
| "malloc_many mal (Suc n) s =
     (case mal s of
        Inl e \<Rightarrow> Inl e
      | Inr (r, s') \<Rightarrow> map_sum id (apfst (Cons r)) (malloc_many mal n s'))"

context element_pool
begin

lemma malloc_many_exhausts:
  "invar s \<Longrightarrow> \<exists>xs s'. malloc_many (malloc k) n s
       = Inr (map Some xs @ replicate (n - card (free s k)) None, s')
     \<and> length xs = min n (card (free s k)) \<and> distinct xs \<and> set xs \<subseteq> free s k \<and> invar s'
     \<and> free s' = (free s)(k := free s k - set xs)"
proof (induction n arbitrary: s)
  case 0
  then show ?case
    by (intro exI [of _ "[]"] exI [of _ s]) (auto simp: fun_eq_iff)
next
  case (Suc n)
  show ?case
  proof (cases "free s k = {}")
    case True
    then have fr: "free s = (free s)(k := {})" by (simp add: fun_upd_idem)
    show ?thesis
      using Suc.IH [OF Suc.prems] True malloc_none [OF Suc.prems True] fr by auto
  next
    case False
    obtain x s1 where s1: "malloc k s = Inr (Some x, s1)" "x \<in> free s k" "invar s1"
      "free s1 = (free s)(k := free s k - {x})"
      using malloc_some [OF Suc.prems False] by auto
    have fk: "free s1 k = free s k - {x}" using s1(4) by simp
    have card: "card (free s k) = Suc (card (free s1 k))"
      using s1(2,4) finite_free [OF Suc.prems] by (metis card.remove fun_upd_same)
    obtain xs s' where IH: "malloc_many (malloc k) n s1
        = Inr (map Some xs @ replicate (n - card (free s1 k)) None, s')"
      "length xs = min n (card (free s1 k))" "distinct xs" "set xs \<subseteq> free s1 k" "invar s'"
      "free s' = (free s1)(k := free s1 k - set xs)"
      using Suc.IH [OF s1(3)] by blast
    have 1: "malloc_many (malloc k) (Suc n) s
        = Inr (map Some (x # xs) @ replicate (Suc n - card (free s k)) None, s')"
      using s1(1) IH(1) card by simp
    have len: "length (x # xs) = min (Suc n) (card (free s k))"
      unfolding card using IH(2) by simp
    have 2: "distinct (x # xs)" "set (x # xs) \<subseteq> free s k"
      using s1(2) IH(3,4) fk by auto
    have 3: "free s' = (free s)(k := free s k - set (x # xs))"
      unfolding IH(6) s1(4) by (auto simp: fun_eq_iff)
    show ?thesis using 1 len 2 3 IH(5) by blast
  qed
qed

lemma malloc_release:
  assumes "invar s" "malloc k s = Inr (Some x, s')"
  shows "\<exists>s''. release k x s' = Inr s'' \<and> invar s'' \<and> free s'' = free s"
proof -
  have "free s k \<noteq> {}" using assms malloc_none by fastforce
  with malloc_some [OF assms(1)] assms(2)
  have *: "x \<in> free s k" "invar s'" "free s' = (free s)(k := free s k - {x})" by force+
  moreover have "x \<in> elems k" using * free_elems [OF assms(1)] by blast
  ultimately obtain s'' where "release k x s' = Inr s''" "invar s''"
    "free s'' = (free s')(k := insert x (free s' k))"
    using release_ok [of s' x k] by auto
  with * show ?thesis by (auto simp: insert_absorb)
qed

end

section \<open>memp.c implements the contract\<close>

lemma pool_elems_aligned:
  "pools_ok pools \<Longrightarrow> x \<in> set (pool_elems (pools t)) \<Longrightarrow> x mod MEM_ALIGNMENT = 0 \<and> x \<noteq> 0"
  by (auto simp: pools_ok_def pool_elems_def mod_add_eq [symmetric] mod_mult_right_eq [symmetric])

lemma memp_malloc_some:
  assumes ok: "memp_ok pools s" and ne: "free_elems s t \<noteq> {}"
  shows "\<exists>x s'. memp_malloc t s = Inr (Some x, s') \<and> x \<in> free_elems s t \<and> memp_ok pools s'
    \<and> free_elems s' = (free_elems s)(t := free_elems s t - {x})"
proof -
  obtain fl where fl: "\<And>u. free_list s u (fl u)" "\<And>u. set (fl u) \<subseteq> set (pool_elems (pools u))"
    using ok unfolding memp_ok_def by metis
  have fe: "free_elems s u = set (fl u)" for u using fl(1) by (rule free_elems_eq)
  obtain x xs where x: "fl t = x # xs" using ne fe by (cases "fl t") auto
  have l: "memp_tab s t = x" "x \<noteq> 0" "linked (memp_next s) (memp_next s x) xs" "distinct (x # xs)"
    using fl(1) [of t] x by (auto simp: free_list_def)
  let ?s' = "s\<lparr>memp_tab := (memp_tab s)(t := memp_next s x)\<rparr>"
  have al: "x mod MEM_ALIGNMENT = 0"
    using ok fl(2) [of t] x pool_elems_aligned [of pools x t] by (auto simp: memp_ok_def)
  have fl': "free_list ?s' u ((fl(t := xs)) u)" for u
    using fl(1) l by (auto simp: free_list_def)
  then have fe': "free_elems ?s' u = set ((fl(t := xs)) u)" for u by (rule free_elems_eq)
  have "memp_ok pools ?s'"
    using ok fl' fl(2) x unfolding memp_ok_def by (metis fun_upd_apply set_subset_Cons subset_trans)
  moreover have "memp_malloc t s = Inr (Some x, ?s')"
    using l al by (simp add: memp_malloc_def do_memp_malloc_pool_def Let_def)
  moreover have "free_elems ?s' = (free_elems s)(t := free_elems s t - {x})"
    using x l by (auto simp: fun_eq_iff fe fe')
  ultimately show ?thesis using x fe by auto
qed

lemma memp_free_ok:
  assumes ok: "memp_ok pools s" and x: "x \<in> set (pool_elems (pools t))" "x \<notin> free_elems s t"
  shows "\<exists>s'. memp_free t x s = Inr s' \<and> memp_ok pools s'
    \<and> free_elems s' = (free_elems s)(t := insert x (free_elems s t))"
proof -
  obtain fl where fl: "\<And>u. free_list s u (fl u)" "\<And>u. set (fl u) \<subseteq> set (pool_elems (pools u))"
    using ok unfolding memp_ok_def by metis
  have fe: "free_elems s u = set (fl u)" for u using fl(1) by (rule free_elems_eq)
  have po: "pools_ok pools" using ok by (simp add: memp_ok_def)
  have al: "x mod MEM_ALIGNMENT = 0" "x \<noteq> 0" using pool_elems_aligned [OF po x(1)] by auto
  let ?s' = "s\<lparr>memp_next := (memp_next s)(x := memp_tab s t), memp_tab := (memp_tab s)(t := x)\<rparr>"
  have fresh: "x \<notin> set (fl u)" for u
  proof (cases "u = t")
    case False
    then have "set (pool_elems (pools u)) \<inter> set (pool_elems (pools t)) = {}"
      using po by (auto simp: pools_ok_def)
    then show ?thesis using fl(2) [of u] x(1) by auto
  qed (use x(2) fe in auto)
  have fl': "free_list ?s' u ((fl(t := x # fl t)) u)" for u
    using fl(1) [of u] fl(1) [of t] fresh al by (auto simp: free_list_def)
  then have fe': "free_elems ?s' u = set ((fl(t := x # fl t)) u)" for u by (rule free_elems_eq)
  have "set ((fl(t := x # fl t)) u) \<subseteq> set (pool_elems (pools u))" for u
    using fl(2) [of u] fl(2) [of t] x(1) by auto
  with fl' po have "memp_ok pools ?s'" unfolding memp_ok_def by blast
  moreover have "memp_free t x s = Inr ?s'"
    using al by (simp add: memp_free_def do_memp_free_pool_def)
  moreover have "free_elems ?s' = (free_elems s)(t := insert x (free_elems s t))"
    by (auto simp: fun_eq_iff fe fe')
  ultimately show ?thesis by blast
qed

lemma memp_malloc_none:
  assumes "memp_ok pools s" "free_elems s t = {}"
  shows "memp_malloc t s = Inr (None, s)"
proof -
  obtain xs where xs: "free_list s t xs" using assms(1) by (auto simp: memp_ok_def)
  with assms(2) have "xs = []" by (simp add: free_elems_eq)
  with xs show ?thesis
    by (simp add: free_list_def memp_malloc_def do_memp_malloc_pool_def)
qed

interpretation pool: element_pool "memp_ok pools" free_elems "\<lambda>t. set (pool_elems (pools t))"
  memp_malloc memp_free for pools
proof unfold_locales
  fix s t
  assume ok: "memp_ok pools s"
  then obtain xs where xs: "free_list s t xs" "set xs \<subseteq> set (pool_elems (pools t))"
    by (auto simp: memp_ok_def)
  show "finite (free_elems s t)" "free_elems s t \<subseteq> set (pool_elems (pools t))"
    using xs by (simp_all add: free_elems_eq)
qed (auto intro: memp_malloc_none memp_malloc_some memp_free_ok)

section \<open>Initialisation\<close>

lemma elems_step:
  "map (\<lambda>i. memp + i * sz) [0..<Suc n] = (memp::nat) # map (\<lambda>i. memp + sz + i * sz) [0..<n]"
  by (simp add: upt_conv_Cons map_upt_shift algebra_simps del: upt_Suc)

lemma memp_init_loop_next:
  "x \<notin> set (map (\<lambda>i. memp + i * sz) [0..<n]) \<Longrightarrow>
    memp_next (memp_init_loop t sz n memp s) x = memp_next s x"
proof (induction n arbitrary: memp s)
  case (Suc n)
  have "x \<noteq> memp" "x \<notin> set (map (\<lambda>i. memp + sz + i * sz) [0..<n])"
    using Suc.prems by (simp_all only: elems_step) auto
  with Suc.IH show ?case by simp
qed simp

lemma memp_init_loop_other:
  "u \<noteq> t \<Longrightarrow> memp_tab (memp_init_loop t sz n memp s) u = memp_tab s u"
  by (induction n arbitrary: memp s) auto

lemma memp_init_loop_linked:
  "linked (memp_next s) (memp_tab s t) xs \<Longrightarrow> 0 < memp \<Longrightarrow> 0 < sz \<Longrightarrow>
    (\<forall>x \<in> set xs. x < memp) \<Longrightarrow>
    linked (memp_next (memp_init_loop t sz n memp s)) (memp_tab (memp_init_loop t sz n memp s) t)
      (rev (map (\<lambda>i. memp + i * sz) [0..<n]) @ xs)"
proof (induction n arbitrary: memp s xs)
  case (Suc n)
  let ?s = "s\<lparr>memp_next := (memp_next s)(memp := memp_tab s t), memp_tab := (memp_tab s)(t := memp)\<rparr>"
  have "linked (memp_next ?s) (memp_tab ?s t) (memp # xs)"
    using Suc.prems by auto
  then have "linked (memp_next (memp_init_loop t sz n (memp + sz) ?s))
      (memp_tab (memp_init_loop t sz n (memp + sz) ?s) t)
      (rev (map (\<lambda>i. memp + sz + i * sz) [0..<n]) @ memp # xs)"
    by (rule Suc.IH) (use Suc.prems in auto)
  then show ?case by (simp add: elems_step del: upt_Suc)
qed simp

lemma distinct_pool_elems: "pools_ok pools \<Longrightarrow> distinct (pool_elems (pools t))"
  by (auto simp: pool_elems_def distinct_map inj_on_def pools_ok_def) (metis less_numeral_extra(3))

lemma memp_init_pool_free_list:
  assumes "pools_ok pools"
  shows "free_list (memp_init_pool t (pools t) s) t (rev (pool_elems (pools t)))"
  using memp_init_loop_linked [of "s\<lparr>memp_tab := (memp_tab s)(t := 0)\<rparr>" t "[]"
      "desc_base (pools t)" "desc_size (pools t)" "desc_num (pools t)"] assms
    distinct_pool_elems [OF assms, of t]
  by (simp add: free_list_def memp_init_pool_def pool_elems_def pools_ok_def)

lemma memp_init_pool_other:
  assumes "pools_ok pools" "u \<noteq> t" "free_list s u xs" "set xs \<subseteq> set (pool_elems (pools u))"
  shows "free_list (memp_init_pool t (pools t) s) u xs"
proof -
  have "x \<notin> set (pool_elems (pools t))" if "x \<in> set xs" for x
    using assms that by (fastforce simp: pools_ok_def)
  then show ?thesis
    using assms(2,3) by (auto simp: free_list_def memp_init_pool_def memp_init_loop_other
        memp_init_loop_next pool_elems_def elim!: linked_cong)
qed

lemma memp_init_fold:
  assumes "pools_ok pools"
  shows "distinct ts \<Longrightarrow> u \<in> set ts \<or> free_list s u (rev (pool_elems (pools u))) \<Longrightarrow>
    free_list (fold (\<lambda>t. memp_init_pool t (pools t)) ts s) u (rev (pool_elems (pools u)))"
proof (induction ts arbitrary: s)
  case (Cons t ts)
  have "u \<in> set ts \<or> free_list (memp_init_pool t (pools t) s) u (rev (pool_elems (pools u)))"
    using Cons.prems memp_init_pool_free_list [OF assms] memp_init_pool_other [OF assms]
    by (cases "u = t") auto
  with Cons show ?case by simp
qed simp

lemma memp_init_free_list:
  "pools_ok pools \<Longrightarrow> free_list (memp_init pools s) t (rev (pool_elems (pools t)))"
  unfolding memp_init_def by (rule memp_init_fold) (simp_all, simp add: memp_types_def)

lemma memp_init_ok: "pools_ok pools \<Longrightarrow> memp_ok pools (memp_init pools s)"
  using memp_init_free_list [of pools s] by (fastforce simp: memp_ok_def)

lemma memp_init_free_elems:
  "pools_ok pools \<Longrightarrow> free_elems (memp_init pools s) t = set (pool_elems (pools t))"
  using free_elems_eq [OF memp_init_free_list [of pools s t]] by simp

lemma card_pool_elems: "pools_ok pools \<Longrightarrow> card (set (pool_elems (pools t))) = desc_num (pools t)"
  by (simp add: distinct_card [OF distinct_pool_elems]) (simp add: pool_elems_def)

section \<open>Properties\<close>

text \<open>
  After \<open>memp_init\<close>, \<open>n\<close> allocations from a pool hand out distinct elements of that pool
  until all of them are in use and answer NULL from then on; the other pools are untouched.
\<close>

theorem memp_pool_exhausts:
  assumes "pools_ok pools"
  shows "\<exists>xs s'. malloc_many (memp_malloc t) n (memp_init pools s)
      = Inr (map Some xs @ replicate (n - desc_num (pools t)) None, s')
    \<and> length xs = min n (desc_num (pools t)) \<and> distinct xs \<and> set xs \<subseteq> set (pool_elems (pools t))
    \<and> (\<forall>u. u \<noteq> t \<longrightarrow> free_elems s' u = set (pool_elems (pools u)))"
  using pool.malloc_many_exhausts [OF memp_init_ok [OF assms], of t n s] assms
  by (auto simp: memp_init_free_elems card_pool_elems)

text \<open>
  \<open>memp_free\<close> of an element that \<open>memp_malloc\<close> returned succeeds, and every pool has the free
  elements it had before the allocation.
\<close>

theorem memp_malloc_free:
  "memp_ok pools s \<Longrightarrow> memp_malloc t s = Inr (Some x, s') \<Longrightarrow>
    \<exists>s''. memp_free t x s' = Inr s'' \<and> memp_ok pools s'' \<and> free_elems s'' = free_elems s"
  by (rule pool.malloc_release)

text \<open>A memory map to evaluate on: six regions of 64 KiB, elements of 64 bytes.\<close>

fun sample_region :: "memp_t \<Rightarrow> nat" where
  "sample_region MEMP_UDP_PCB = 1"
| "sample_region MEMP_SYS_TIMEOUT = 2"
| "sample_region MEMP_ND6_QUEUE = 3"
| "sample_region MEMP_MLD6_GROUP = 4"
| "sample_region MEMP_PBUF = 5"
| "sample_region MEMP_PBUF_POOL = 6"

definition sample_pools :: "memp_t \<Rightarrow> memp_desc" where
  "sample_pools t = \<lparr>desc_size = 64, desc_num = memp_num t, desc_base = 65536 * sample_region t\<rparr>"

definition memp0 :: memp_state where
  "memp0 = memp_init sample_pools \<lparr>memp_tab = (\<lambda>_. 0), memp_next = (\<lambda>_. 0)\<rparr>"

lemma sample_region_inj: "sample_region t = sample_region u \<Longrightarrow> t = u"
  by (cases t; cases u; simp)

lemma sample_pools_ok: "pools_ok sample_pools"
proof -
  have num: "memp_num t \<le> 20" "0 < sample_region t" for t by (cases t; simp)+
  have reg: "x div 65536 = sample_region t" if x: "x \<in> set (pool_elems (sample_pools t))" for x t
  proof -
    obtain i where "i < memp_num t" "x = 65536 * sample_region t + i * 64"
      using x by (auto simp: pool_elems_def sample_pools_def)
    with num(1) [of t] show ?thesis by simp
  qed
  have "set (pool_elems (sample_pools t)) \<inter> set (pool_elems (sample_pools u)) = {}" if "t \<noteq> u" for t u
    using reg [of _ t] reg [of _ u] that sample_region_inj [of t u] by fastforce
  moreover have "0 < desc_base (sample_pools t) \<and> 0 < desc_size (sample_pools t)
      \<and> desc_base (sample_pools t) mod MEM_ALIGNMENT = 0 \<and> desc_size (sample_pools t) mod MEM_ALIGNMENT = 0" for t
    using num(2) [of t] by (simp add: sample_pools_def MEM_ALIGNMENT_def)
  ultimately show ?thesis by (simp add: pools_ok_def)
qed

lemma memp0_ok: "memp_ok sample_pools memp0"
  unfolding memp0_def by (rule memp_init_ok [OF sample_pools_ok])

theorem memp_pool_exhausts_witness:
  "\<exists>xs s'. malloc_many (memp_malloc MEMP_UDP_PCB) 6 memp0 = Inr (map Some xs @ [None, None], s')
    \<and> length xs = 4 \<and> distinct xs"
  using memp_pool_exhausts [OF sample_pools_ok, of MEMP_UDP_PCB 6 "\<lparr>memp_tab = (\<lambda>_. 0), memp_next = (\<lambda>_. 0)\<rparr>"]
  by (auto simp: memp0_def sample_pools_def numeral_2_eq_2)

theorem memp_malloc_free_witness:
  "\<exists>x s' s''. memp_malloc MEMP_PBUF memp0 = Inr (Some x, s') \<and> memp_free MEMP_PBUF x s' = Inr s''
    \<and> free_elems s'' = free_elems memp0"
proof -
  have "free_elems memp0 MEMP_PBUF \<noteq> {}"
    unfolding memp0_def memp_init_free_elems [OF sample_pools_ok]
    by (simp add: pool_elems_def sample_pools_def)
  then obtain x s' where m: "memp_malloc MEMP_PBUF memp0 = Inr (Some x, s')"
    using memp_malloc_some [OF memp0_ok] by blast
  from memp_malloc_free [OF memp0_ok m] m show ?thesis by blast
qed

end
