(* ===== verification/Mem.thy ===== *)
theory Mem
  imports Memp
begin

text \<open>
  The heap of lwIP (lwip/src/core/mem.c, the version without \<open>MEM_LIBC_MALLOC\<close> and
  \<open>MEM_USE_POOLS\<close>), with \<open>MEM_SIZE\<close> = 256 KiB and 4-byte alignment as in src/lwipopts.h:
  block headers at offsets of the RAM array, first-fit allocation with splitting, release with
  coalescing, trimming, and the proof that the headers always describe a partition of the heap.
  \<open>MEM_OVERFLOW_CHECK\<close>, \<open>MEM_SANITY_CHECK\<close>, the statistics and
  \<open>LWIP_ALLOW_MEM_FREE_FROM_OTHER_CONTEXT\<close> are off, and with \<open>NO_SYS\<close> the heap mutex is empty.
\<close>

section \<open>Constants and state\<close>

definition MEM_SIZE_ALIGNED :: nat where "MEM_SIZE_ALIGNED = 262144"
definition SIZEOF_STRUCT_MEM :: nat where "SIZEOF_STRUCT_MEM = 12"
definition MIN_SIZE_ALIGNED :: nat where "MIN_SIZE_ALIGNED = 12"

lemmas mem_consts = MEM_SIZE_ALIGNED_def SIZEOF_STRUCT_MEM_def MIN_SIZE_ALIGNED_def

text \<open>\<open>mem_size_t\<close> is \<open>u32_t\<close>: offsets are natural numbers and the wrap-around is written out.\<close>

definition sub32 :: "nat \<Rightarrow> nat \<Rightarrow> nat" where
  "sub32 a b = (a + (2 ^ 32 - b)) mod 2 ^ 32"

definition LWIP_MEM_ALIGN_SIZE :: "nat \<Rightarrow> nat" where
  "LWIP_MEM_ALIGN_SIZE n = ((n + 3) mod 2 ^ 32) div 4 * 4"

text \<open>
  \<open>struct mem\<close>; the structure at offset \<open>i\<close> of \<open>ram\<close> is \<open>hdr h i\<close>, and pointers into the heap
  are offsets from \<open>ram\<close>. \<open>ram_end\<close> is the offset \<open>MEM_SIZE_ALIGNED\<close>.
\<close>

record mem_hdr =
  hdr_next :: nat
  hdr_prev :: nat
  hdr_used :: bool

record heap =
  hdr :: "nat \<Rightarrow> mem_hdr"
  lfree :: nat

definition set_next :: "nat \<Rightarrow> nat \<Rightarrow> heap \<Rightarrow> heap" where
  "set_next p n h = h\<lparr>hdr := (hdr h)(p := (hdr h p)\<lparr>hdr_next := n\<rparr>)\<rparr>"

definition set_prev :: "nat \<Rightarrow> nat \<Rightarrow> heap \<Rightarrow> heap" where
  "set_prev p n h = h\<lparr>hdr := (hdr h)(p := (hdr h p)\<lparr>hdr_prev := n\<rparr>)\<rparr>"

definition set_used :: "nat \<Rightarrow> bool \<Rightarrow> heap \<Rightarrow> heap" where
  "set_used p b h = h\<lparr>hdr := (hdr h)(p := (hdr h p)\<lparr>hdr_used := b\<rparr>)\<rparr>"

section \<open>Operations\<close>

definition mem_init :: "heap \<Rightarrow> heap" where
  "mem_init h =
     h\<lparr>hdr := (hdr h)
         (0 := \<lparr>hdr_next = MEM_SIZE_ALIGNED, hdr_prev = 0, hdr_used = False\<rparr>,
          MEM_SIZE_ALIGNED :=
            \<lparr>hdr_next = MEM_SIZE_ALIGNED, hdr_prev = MEM_SIZE_ALIGNED, hdr_used = True\<rparr>),
       lfree := 0\<rparr>"

text \<open>\<open>plug_holes\<close>: merge the free block \<open>mem\<close> with a free successor, then with a free predecessor.\<close>

definition plug_forward :: "nat \<Rightarrow> heap \<Rightarrow> heap" where
  "plug_forward mem h =
     (let nmem = hdr_next (hdr h mem) in
      if mem \<noteq> nmem \<and> \<not> hdr_used (hdr h nmem) \<and> nmem \<noteq> MEM_SIZE_ALIGNED then
        (let h1 = (if lfree h = nmem then h\<lparr>lfree := mem\<rparr> else h);
             h2 = set_next mem (hdr_next (hdr h1 nmem)) h1
         in if hdr_next (hdr h2 nmem) \<noteq> MEM_SIZE_ALIGNED
            then set_prev (hdr_next (hdr h2 nmem)) mem h2 else h2)
      else h)"

definition plug_backward :: "nat \<Rightarrow> heap \<Rightarrow> heap" where
  "plug_backward mem h =
     (let pmem = hdr_prev (hdr h mem) in
      if pmem \<noteq> mem \<and> \<not> hdr_used (hdr h pmem) then
        (let h1 = (if lfree h = mem then h\<lparr>lfree := pmem\<rparr> else h);
             h2 = set_next pmem (hdr_next (hdr h1 mem)) h1
         in if hdr_next (hdr h2 mem) \<noteq> MEM_SIZE_ALIGNED
            then set_prev (hdr_next (hdr h2 mem)) pmem h2 else h2)
      else h)"

definition plug_holes :: "nat \<Rightarrow> heap \<Rightarrow> heap result" where
  "plug_holes mem h =
     (if mem < MEM_SIZE_ALIGNED \<and> \<not> hdr_used (hdr h mem)
         \<and> hdr_next (hdr h mem) \<le> MEM_SIZE_ALIGNED
      then Inr (plug_backward mem (plug_forward mem h)) else Inl AssertFail)"

definition mem_link_valid :: "nat \<Rightarrow> heap \<Rightarrow> bool" where
  "mem_link_valid mem h =
     (let m = hdr h mem; nmem = hdr_next m; pmem = hdr_prev m in
      \<not> (nmem > MEM_SIZE_ALIGNED \<or> pmem > MEM_SIZE_ALIGNED
         \<or> (pmem \<noteq> mem \<and> hdr_next (hdr h pmem) \<noteq> mem)
         \<or> (nmem \<noteq> MEM_SIZE_ALIGNED \<and> hdr_prev (hdr h nmem) \<noteq> mem)))"

text \<open>
  \<open>mem_free\<close>; \<open>rmem\<close> is the offset of the user data, \<open>None\<close> is NULL. \<open>LWIP_MEM_ILLEGAL_FREE\<close> is
  an assertion in this configuration.
\<close>

definition mem_free :: "nat option \<Rightarrow> heap \<Rightarrow> heap result" where
  "mem_free r h =
     (case r of
        None \<Rightarrow> Inr h
      | Some rmem \<Rightarrow>
          if rmem mod MEM_ALIGNMENT \<noteq> 0 then Inl AssertFail
          else if rmem < SIZEOF_STRUCT_MEM \<or> rmem + MIN_SIZE_ALIGNED > MEM_SIZE_ALIGNED
          then Inl AssertFail
          else
            (let mem = rmem - SIZEOF_STRUCT_MEM in
             if \<not> hdr_used (hdr h mem) then Inl AssertFail
             else if \<not> mem_link_valid mem h then Inl AssertFail
             else
               (let h1 = set_used mem False h;
                    h2 = (if mem < lfree h1 then h1\<lparr>lfree := mem\<rparr> else h1)
                in plug_holes mem h2)))"

definition mem_trim_split :: "nat \<Rightarrow> nat \<Rightarrow> nat \<Rightarrow> heap \<Rightarrow> heap" where
  "mem_trim_split ptr ptr2 nxt h =
     (let h1 = h\<lparr>hdr := (hdr h)(ptr2 := \<lparr>hdr_next = nxt, hdr_prev = ptr, hdr_used = False\<rparr>)\<rparr>;
          h2 = set_next ptr ptr2 h1
      in if nxt \<noteq> MEM_SIZE_ALIGNED then set_prev nxt ptr2 h2 else h2)"

definition mem_trim :: "nat \<Rightarrow> nat \<Rightarrow> heap \<Rightarrow> (nat option \<times> heap) result" where
  "mem_trim rmem new_size h =
     (let newsize = max (LWIP_MEM_ALIGN_SIZE new_size) MIN_SIZE_ALIGNED in
      if newsize > MEM_SIZE_ALIGNED \<or> newsize < new_size then Inr (None, h)
      else if \<not> rmem < MEM_SIZE_ALIGNED then Inl AssertFail
      else
        (let ptr = rmem - SIZEOF_STRUCT_MEM;
             size = sub32 (sub32 (hdr_next (hdr h ptr)) ptr) SIZEOF_STRUCT_MEM;
             mem2 = hdr_next (hdr h ptr);
             ptr2 = ptr + SIZEOF_STRUCT_MEM + newsize
         in if newsize > size then Inl AssertFail
            else if newsize = size then Inr (Some rmem, h)
            else if \<not> hdr_used (hdr h mem2) then
              (if mem2 = MEM_SIZE_ALIGNED then Inl AssertFail
               else
                 (let nxt = hdr_next (hdr h mem2);
                      h1 = (if lfree h = mem2 then h\<lparr>lfree := ptr2\<rparr> else h)
                  in Inr (Some rmem, mem_trim_split ptr ptr2 nxt h1)))
            else if newsize + SIZEOF_STRUCT_MEM + MIN_SIZE_ALIGNED \<le> size then
              (if mem2 = MEM_SIZE_ALIGNED then Inl AssertFail
               else
                 (let h1 = (if ptr2 < lfree h then h\<lparr>lfree := ptr2\<rparr> else h)
                  in Inr (Some rmem, mem_trim_split ptr ptr2 mem2 h1)))
            else Inr (Some rmem, h)))"

text \<open>The two loops of \<open>mem_malloc\<close>; \<open>None\<close> is a loop that does not end.\<close>

partial_function (option) mem_scan :: "heap \<Rightarrow> nat \<Rightarrow> nat \<Rightarrow> nat option option" where
  "mem_scan h sz ptr =
     (if ptr < MEM_SIZE_ALIGNED - sz then
        (if \<not> hdr_used (hdr h ptr)
            \<and> sz \<le> sub32 (hdr_next (hdr h ptr)) (ptr + SIZEOF_STRUCT_MEM)
         then Some (Some ptr)
         else mem_scan h sz (hdr_next (hdr h ptr)))
      else Some None)"

partial_function (option) mem_next_free :: "heap \<Rightarrow> nat \<Rightarrow> nat option" where
  "mem_next_free h cur =
     (if hdr_used (hdr h cur) \<and> cur \<noteq> MEM_SIZE_ALIGNED
      then mem_next_free h (hdr_next (hdr h cur)) else Some cur)"

definition mem_take_block :: "nat \<Rightarrow> nat \<Rightarrow> heap \<Rightarrow> heap result" where
  "mem_take_block ptr sz h =
     (let room = sub32 (hdr_next (hdr h ptr)) (ptr + SIZEOF_STRUCT_MEM) in
      if sz + SIZEOF_STRUCT_MEM + MIN_SIZE_ALIGNED \<le> room then
        (let ptr2 = ptr + SIZEOF_STRUCT_MEM + sz;
             nxt = hdr_next (hdr h ptr)
         in if ptr2 = MEM_SIZE_ALIGNED then Inl AssertFail
            else Inr (set_used ptr True (mem_trim_split ptr ptr2 nxt h)))
      else Inr (set_used ptr True h))"

definition mem_adjust_lfree :: "nat \<Rightarrow> heap \<Rightarrow> heap result" where
  "mem_adjust_lfree ptr h =
     (if ptr = lfree h then
        (case mem_next_free h (lfree h) of
           None \<Rightarrow> Inl Hang
         | Some cur \<Rightarrow>
             (if cur = MEM_SIZE_ALIGNED \<or> \<not> hdr_used (hdr h cur)
              then Inr (h\<lparr>lfree := cur\<rparr>) else Inl AssertFail))
      else Inr h)"

definition mem_malloc :: "nat \<Rightarrow> heap \<Rightarrow> (nat option \<times> heap) result" where
  "mem_malloc size_in h =
     (if size_in = 0 then Inr (None, h)
      else
        (let sz = max (LWIP_MEM_ALIGN_SIZE size_in) MIN_SIZE_ALIGNED in
         if sz > MEM_SIZE_ALIGNED \<or> sz < size_in then Inr (None, h)
         else
           (case mem_scan h sz (lfree h) of
              None \<Rightarrow> Inl Hang
            | Some None \<Rightarrow> Inr (None, h)
            | Some (Some ptr) \<Rightarrow>
                (case mem_take_block ptr sz h of
                   Inl e \<Rightarrow> Inl e
                 | Inr h1 \<Rightarrow>
                     (case mem_adjust_lfree ptr h1 of
                        Inl e \<Rightarrow> Inl e
                      | Inr h2 \<Rightarrow>
                          (if ptr + SIZEOF_STRUCT_MEM + sz \<le> MEM_SIZE_ALIGNED
                              \<and> ptr mod MEM_ALIGNMENT = 0
                           then Inr (Some (ptr + SIZEOF_STRUCT_MEM), h2)
                           else Inl AssertFail))))))"

definition mem_calloc :: "nat \<Rightarrow> nat \<Rightarrow> heap \<Rightarrow> (nat option \<times> bytes \<times> heap) result" where
  "mem_calloc count sz h =
     (let alloc_size = (count * sz) mod 2 ^ 32 in
      case mem_malloc alloc_size h of
        Inl e \<Rightarrow> Inl e
      | Inr (None, h') \<Rightarrow> Inr (None, [], h')
      | Inr (Some p, h') \<Rightarrow> Inr (Some p, replicate alloc_size 0, h'))"

section \<open>Arithmetic of sizes\<close>

lemma sub32_le: "b \<le> a \<Longrightarrow> a < 2 ^ 32 \<Longrightarrow> sub32 a b = a - b"
proof -
  assume "b \<le> a" "a < 2 ^ 32"
  then have "a + (2 ^ 32 - b) = (a - b) + 2 ^ 32" by simp
  then have "sub32 a b = (a - b) mod 2 ^ 32" unfolding sub32_def by (simp only: mod_add_self2)
  with \<open>a < 2 ^ 32\<close> show ?thesis by simp
qed

lemma aligned_size [simp]: "LWIP_MEM_ALIGN_SIZE n mod 4 = 0"
  by (simp add: LWIP_MEM_ALIGN_SIZE_def)

lemma aligned_size_ge: "n < 2 ^ 32 - 3 \<Longrightarrow> n \<le> LWIP_MEM_ALIGN_SIZE n \<and> LWIP_MEM_ALIGN_SIZE n < n + 4"
  by (simp add: LWIP_MEM_ALIGN_SIZE_def) presburger

section \<open>Blocks\<close>

text \<open>
  \<open>seg H pv b xs e\<close>: starting at offset \<open>b\<close>, whose predecessor is \<open>pv\<close>, the headers \<open>H\<close> chain
  the blocks \<open>xs\<close> up to the offset \<open>e\<close>; every block is aligned and has room for a header and the
  minimal payload, and the \<open>prev\<close> links mirror the \<open>next\<close> links.
\<close>

fun seg :: "(nat \<Rightarrow> mem_hdr) \<Rightarrow> nat \<Rightarrow> nat \<Rightarrow> nat list \<Rightarrow> nat \<Rightarrow> bool" where
  "seg H pv b [] e \<longleftrightarrow> b = e"
| "seg H pv b (x # xs) e \<longleftrightarrow> b = x \<and> x mod 4 = 0 \<and> hdr_prev (H x) = pv
     \<and> x + (SIZEOF_STRUCT_MEM + MIN_SIZE_ALIGNED) \<le> hdr_next (H x)
     \<and> seg H x (hdr_next (H x)) xs e"

definition is_used :: "heap \<Rightarrow> nat \<Rightarrow> bool" where
  "is_used h b = hdr_used (hdr h b)"

definition coalesced :: "heap \<Rightarrow> nat list \<Rightarrow> bool" where
  "coalesced h bs = successively (\<lambda>a b. is_used h a \<or> is_used h b) bs"

definition lowest_free :: "heap \<Rightarrow> nat list \<Rightarrow> nat" where
  "lowest_free h bs = (case filter (\<lambda>b. \<not> is_used h b) bs of [] \<Rightarrow> MEM_SIZE_ALIGNED | b # _ \<Rightarrow> b)"

text \<open>
  The heap invariant: the blocks tile the RAM array from offset 0 to \<open>ram_end\<close>, no two free
  blocks are adjacent, \<open>lfree\<close> is the lowest free block and the end marker is in use.
\<close>

definition heap_inv :: "heap \<Rightarrow> nat list \<Rightarrow> bool" where
  "heap_inv h bs \<longleftrightarrow> seg (hdr h) 0 0 bs MEM_SIZE_ALIGNED
     \<and> coalesced h bs
     \<and> lfree h = lowest_free h bs \<and> is_used h MEM_SIZE_ALIGNED"

definition heap_ok :: "heap \<Rightarrow> bool" where
  "heap_ok h \<longleftrightarrow> (\<exists>bs. heap_inv h bs)"

lemma seg_le: "seg H pv b xs e \<Longrightarrow> b \<le> e"
  by (induction xs arbitrary: pv b) force+

lemma seg_bounds: "seg H pv b xs e \<Longrightarrow> x \<in> set xs \<Longrightarrow>
    b \<le> x \<and> x + 24 \<le> hdr_next (H x) \<and> hdr_next (H x) \<le> e \<and> x mod 4 = 0"
proof (induction xs arbitrary: pv b)
  case (Cons y ys)
  then have "hdr_next (H y) \<le> e" using seg_le by auto
  with Cons show ?case by (auto simp: mem_consts) (metis add_leD1 le_trans)
qed simp

lemma seg_cong:
  "seg H pv b xs e \<Longrightarrow> (\<And>x. x \<in> set xs \<Longrightarrow> hdr_next (H' x) = hdr_next (H x) \<and> hdr_prev (H' x) = hdr_prev (H x))
    \<Longrightarrow> seg H' pv b xs e"
  by (induction xs arbitrary: pv b) auto

lemma seg_append:
  "seg H pv b (xs @ ys) e \<longleftrightarrow>
    (\<exists>m. seg H pv b xs m \<and> seg H (if xs = [] then pv else last xs) m ys e)"
  by (induction xs arbitrary: pv b) auto

lemma seg_unique: "seg H pv b xs e \<Longrightarrow> seg H pv b ys e \<Longrightarrow> xs = ys"
proof (induction xs arbitrary: pv b ys)
  case Nil
  then show ?case
    using seg_bounds [of H pv e ys e e] by (cases ys) (auto simp: mem_consts dest: seg_le)
next
  case (Cons x xs)
  then show ?case using seg_le [of H x "hdr_next (H x)" xs e] by (cases ys) (auto simp: mem_consts)
qed

lemma seg_split:
  assumes "seg H 0 0 bs e" "m \<in> set bs"
  obtains pre post where "bs = pre @ m # post" "seg H 0 0 pre m" "m mod 4 = 0"
    "hdr_prev (H m) = (if pre = [] then 0 else last pre)" "m + 24 \<le> hdr_next (H m)"
    "seg H m (hdr_next (H m)) post e"
proof -
  obtain pre post where bs: "bs = pre @ m # post" using assms(2) by (meson split_list)
  then show ?thesis using assms(1) that by (auto simp: seg_append mem_consts)
qed

lemma seg_less: "seg H pv b xs e \<Longrightarrow> x \<in> set xs \<Longrightarrow> x < e"
  using seg_bounds [of H pv b xs e x] by simp

lemma seg_distinct: "seg H pv b xs e \<Longrightarrow> distinct xs"
proof (induction xs arbitrary: pv b)
  case (Cons x xs)
  then have "x \<notin> set xs" using seg_bounds [of H x "hdr_next (H x)" xs e x] by (auto simp: mem_consts)
  with Cons show ?case by auto
qed simp

section \<open>Relinking blocks\<close>

lemma set_hdr_simps [simp]:
  "hdr (set_next p n h) = (hdr h)(p := (hdr h p)\<lparr>hdr_next := n\<rparr>)"
  "hdr (set_prev p n h) = (hdr h)(p := (hdr h p)\<lparr>hdr_prev := n\<rparr>)"
  "hdr (set_used p u h) = (hdr h)(p := (hdr h p)\<lparr>hdr_used := u\<rparr>)"
  "lfree (set_next p n h) = lfree h" "lfree (set_prev p n h) = lfree h"
  "lfree (set_used p u h) = lfree h"
  by (simp_all add: set_next_def set_prev_def set_used_def)

lemma is_used_simps [simp]:
  "is_used (set_next p n h) = is_used h"
  "is_used (set_prev p n h) = is_used h"
  "is_used (set_used p u h) = (is_used h)(p := u)"
  "is_used (h\<lparr>lfree := f\<rparr>) = is_used h"
  by (auto simp: is_used_def fun_eq_iff)

text \<open>Giving the first block of a segment a new predecessor.\<close>

lemma seg_relink:
  assumes "seg H p n post e"
  shows "seg (if n \<noteq> e then H(n := (H n)\<lparr>hdr_prev := c\<rparr>) else H) c n post e"
proof (cases post)
  case Nil
  then show ?thesis using assms by simp
next
  case (Cons x xs)
  then have s: "seg H n (hdr_next (H n)) xs e" "n < hdr_next (H n)" "x = n"
    using assms by (auto simp: mem_consts)
  then have "n \<notin> set xs" using seg_bounds [OF s(1), of n] by auto
  with s(1) have "seg (H(n := (H n)\<lparr>hdr_prev := c\<rparr>)) n (hdr_next (H n)) xs e"
    by (elim seg_cong) auto
  moreover have "n \<noteq> e" using s seg_le by fastforce
  ultimately show ?thesis using assms Cons s by simp
qed

definition merge_blocks :: "nat \<Rightarrow> nat \<Rightarrow> heap \<Rightarrow> heap" where
  "merge_blocks a b h =
     (let h2 = set_next a (hdr_next (hdr h b)) h
      in if hdr_next (hdr h b) \<noteq> MEM_SIZE_ALIGNED then set_prev (hdr_next (hdr h b)) a h2 else h2)"

lemma merge_blocks_simps [simp]:
  "is_used (merge_blocks a b h) = is_used h" "lfree (merge_blocks a b h) = lfree h"
  "hdr_next (hdr (merge_blocks a b h) x) = (if x = a then hdr_next (hdr h b) else hdr_next (hdr h x))"
  by (auto simp: merge_blocks_def Let_def)

lemma seg_merge_blocks:
  assumes "seg (hdr h) 0 0 (pre @ a # b # post) MEM_SIZE_ALIGNED"
  shows "seg (hdr (merge_blocks a b h)) 0 0 (pre @ a # post) MEM_SIZE_ALIGNED"
proof -
  let ?H = "hdr h" and ?E = MEM_SIZE_ALIGNED and ?H' = "hdr (merge_blocks a b h)"
  let ?n = "hdr_next (?H b)"
  have pre: "seg ?H 0 0 pre a" and a: "a mod 4 = 0" "hdr_prev (?H a) = (if pre = [] then 0 else last pre)"
    "a + 24 \<le> b" and b: "b + 24 \<le> ?n" and post: "seg ?H b ?n post ?E"
    using assms by (auto simp: seg_append mem_consts)
  have notin: "a \<notin> set post" "a \<notin> set pre" "?n \<notin> set pre"
    using seg_bounds [OF post, of a] seg_bounds [OF pre, of a] seg_bounds [OF pre, of ?n] a b by auto
  have H': "?H' = (if ?n \<noteq> ?E then ?H(?n := (?H ?n)\<lparr>hdr_prev := a\<rparr>) else ?H)(a := (?H a)\<lparr>hdr_next := ?n\<rparr>)"
    using a b by (auto simp: merge_blocks_def Let_def fun_upd_twist)
  have "seg ?H' 0 0 pre a"
    using pre by (rule seg_cong) (use notin in \<open>auto simp: H'\<close>)
  moreover have "seg ?H' a ?n post ?E"
    using seg_relink [OF post, of a] by (rule seg_cong) (use notin in \<open>auto simp: H'\<close>)
  ultimately show ?thesis
    using a b by (auto simp: seg_append mem_consts H')
qed

lemma trim_split_simps [simp]:
  "ptr \<noteq> ptr2 \<Longrightarrow> is_used (mem_trim_split ptr ptr2 nxt h) = (is_used h)(ptr2 := False)"
  "lfree (mem_trim_split ptr ptr2 nxt h) = lfree h"
  "ptr \<noteq> ptr2 \<Longrightarrow> hdr_next (hdr (mem_trim_split ptr ptr2 nxt h) x) =
     (if x = ptr then ptr2 else if x = ptr2 then nxt else hdr_next (hdr h x))"
  by (auto simp: mem_trim_split_def Let_def is_used_def fun_eq_iff)

lemma seg_trim_split:
  assumes pre: "seg (hdr h) 0 0 pre a" and post: "seg (hdr h) p nxt post MEM_SIZE_ALIGNED"
    and a: "a mod 4 = 0" "hdr_prev (hdr h a) = (if pre = [] then 0 else last pre)"
    and c: "a + 24 \<le> c" "c + 24 \<le> nxt" "c mod 4 = 0"
  shows "seg (hdr (mem_trim_split a c nxt h)) 0 0 (pre @ a # c # post) MEM_SIZE_ALIGNED"
proof -
  let ?H = "hdr h" and ?E = MEM_SIZE_ALIGNED and ?H' = "hdr (mem_trim_split a c nxt h)"
  have notin: "a \<notin> set post" "a \<notin> set pre" "c \<notin> set post" "c \<notin> set pre" "nxt \<notin> set pre"
    using seg_bounds [OF post, of a] seg_bounds [OF pre, of a] seg_bounds [OF post, of c]
      seg_bounds [OF pre, of c] seg_bounds [OF pre, of nxt] c by auto
  have H': "?H' = (if nxt \<noteq> ?E then ?H(nxt := (?H nxt)\<lparr>hdr_prev := c\<rparr>) else ?H)
      (a := (?H a)\<lparr>hdr_next := c\<rparr>, c := \<lparr>hdr_next = nxt, hdr_prev = a, hdr_used = False\<rparr>)"
    using c by (auto simp: mem_trim_split_def Let_def fun_eq_iff)
  have "seg ?H' 0 0 pre a"
    using pre by (rule seg_cong) (use notin in \<open>auto simp: H'\<close>)
  moreover have "seg ?H' c nxt post ?E"
    using seg_relink [OF post, of c] by (rule seg_cong) (use notin in \<open>auto simp: H'\<close>)
  ultimately show ?thesis
    using a c by (auto simp: seg_append mem_consts H')
qed

section \<open>The lowest free block\<close>

lemma lowest_free_Nil [simp]: "lowest_free h [] = MEM_SIZE_ALIGNED"
  by (simp add: lowest_free_def)

lemma lowest_free_Cons [simp]:
  "lowest_free h (b # bs) = (if is_used h b then lowest_free h bs else b)"
  by (simp add: lowest_free_def)

lemma lowest_free_append:
  "lowest_free h (xs @ ys) = (if \<forall>x \<in> set xs. is_used h x then lowest_free h ys else lowest_free h xs)"
  by (induction xs) auto

lemma lowest_free_cong:
  "(\<And>x. x \<in> set xs \<Longrightarrow> is_used h' x = is_used h x) \<Longrightarrow> lowest_free h' xs = lowest_free h xs"
  by (induction xs) auto

lemma lowest_free_cases: "lowest_free h xs = MEM_SIZE_ALIGNED \<or> lowest_free h xs \<in> set xs \<and> \<not> is_used h (lowest_free h xs)"
  by (induction xs) auto

lemma lowest_free_in: "\<exists>x \<in> set xs. \<not> is_used h x \<Longrightarrow> lowest_free h xs \<in> set xs"
  by (induction xs) auto

lemma coalesced_cong:
  "(\<And>x. x \<in> set xs \<Longrightarrow> is_used h' x = is_used h x) \<Longrightarrow>
    coalesced h' xs = coalesced h xs"
  unfolding coalesced_def by (rule successively_cong) auto

lemma coalesced_Nil [simp]: "coalesced h []"
  by (simp add: coalesced_def)

lemma coalesced_Cons:
  "coalesced h (x # xs) \<longleftrightarrow> coalesced h xs \<and> (xs \<noteq> [] \<longrightarrow> is_used h x \<or> is_used h (hd xs))"
  by (auto simp: coalesced_def successively_Cons)

lemma coalesced_append:
  "coalesced h (xs @ ys) \<longleftrightarrow> coalesced h xs \<and> coalesced h ys
    \<and> (xs \<noteq> [] \<longrightarrow> ys \<noteq> [] \<longrightarrow> is_used h (last xs) \<or> is_used h (hd ys))"
  by (auto simp: coalesced_def successively_append_iff)

section \<open>Release\<close>

lemma plug_forward_eq:
  "plug_forward m h =
    (let n = hdr_next (hdr h m) in
     if m \<noteq> n \<and> \<not> is_used h n \<and> n \<noteq> MEM_SIZE_ALIGNED
     then merge_blocks m n (if lfree h = n then h\<lparr>lfree := m\<rparr> else h) else h)"
  by (auto simp: plug_forward_def merge_blocks_def Let_def is_used_def)

lemma plug_backward_eq:
  "hdr_prev (hdr h m) \<noteq> hdr_next (hdr h m) \<Longrightarrow> plug_backward m h =
    (let p = hdr_prev (hdr h m) in
     if p \<noteq> m \<and> \<not> is_used h p
     then merge_blocks p m (if lfree h = m then h\<lparr>lfree := p\<rparr> else h) else h)"
  by (auto simp: plug_backward_def merge_blocks_def Let_def is_used_def)

text \<open>Merging with a free successor; afterwards the successor, if any, is in use.\<close>

lemma plug_forward_blocks:
  assumes s: "seg (hdr h) 0 0 (pre @ m # post) MEM_SIZE_ALIGNED"
    and post: "coalesced h post"
    and lf: "lfree h \<le> m" and E: "is_used h MEM_SIZE_ALIGNED"
  obtains post' where
    "seg (hdr (plug_forward m h)) 0 0 (pre @ m # post') MEM_SIZE_ALIGNED"
    "coalesced h post'"
    "post' \<noteq> [] \<Longrightarrow> is_used h (hd post')"
    "set post' \<subseteq> set post" "\<And>b. b \<in> set post \<Longrightarrow> is_used h b \<Longrightarrow> b \<in> set post'"
    "is_used (plug_forward m h) = is_used h" "lfree (plug_forward m h) = lfree h"
    "\<And>b. b \<noteq> m \<Longrightarrow> hdr_next (hdr (plug_forward m h) b) = hdr_next (hdr h b)"
proof -
  let ?n = "hdr_next (hdr h m)"
  have m: "m < ?n" "seg (hdr h) m ?n post MEM_SIZE_ALIGNED"
    using s by (auto simp: seg_append mem_consts)
  show ?thesis
  proof (cases "is_used h ?n")
    case True
    then have "plug_forward m h = h" by (simp add: plug_forward_eq Let_def)
    moreover have "post \<noteq> [] \<Longrightarrow> is_used h (hd post)" using m(2) True by (cases post) auto
    ultimately show ?thesis using that [of post] s post by simp
  next
    case False
    then have ne: "?n \<noteq> MEM_SIZE_ALIGNED" using E by auto
    then obtain post' where p: "post = ?n # post'" using m(2) by (cases post) auto
    have "plug_forward m h = merge_blocks m ?n h"
      using False ne m(1) lf by (simp add: plug_forward_eq Let_def)
    moreover have "post' \<noteq> [] \<Longrightarrow> is_used h (hd post')"
      using post False unfolding p by (simp add: coalesced_Cons)
    ultimately show ?thesis
      using that [of post'] seg_merge_blocks [of h pre m ?n post'] s post False
      by (auto simp: p coalesced_Cons)
  qed
qed

lemma plug_backward_blocks:
  assumes s: "seg (hdr h) 0 0 (pre @ m # post) MEM_SIZE_ALIGNED"
    and pre: "coalesced h pre"
    and lf: "\<exists>x \<in> set pre. \<not> is_used h x \<Longrightarrow> lfree h \<noteq> m"
  obtains pre' where
    "pre' = pre \<and> (pre \<noteq> [] \<longrightarrow> is_used h (last pre)) \<and> plug_backward m h = h
     \<or> pre = pre' @ [last pre] \<and> \<not> is_used h (last pre) \<and> (pre' \<noteq> [] \<longrightarrow> is_used h (last pre'))
        \<and> seg (hdr (plug_backward m h)) 0 0 (pre @ post) MEM_SIZE_ALIGNED
        \<and> is_used (plug_backward m h) = is_used h \<and> lfree (plug_backward m h) = lfree h
        \<and> (\<forall>b. b \<noteq> last pre \<longrightarrow> hdr_next (hdr (plug_backward m h) b) = hdr_next (hdr h b))"
proof (cases "pre = []")
  case True
  then have "plug_backward m h = h"
    using s by (auto simp: plug_backward_def Let_def)
  then show ?thesis using that True by simp
next
  case False
  then obtain ps p where p: "pre = ps @ [p]" by (metis append_butlast_last_id)
  have prev: "hdr_prev (hdr h m) = p" "p < m" "m < hdr_next (hdr h m)"
    using s by (auto simp: p seg_append mem_consts)
  show ?thesis
  proof (cases "is_used h p")
    case True
    then show ?thesis using that [of pre] prev by (simp add: plug_backward_eq Let_def p)
  next
    case free: False
    then have "plug_backward m h = merge_blocks p m h"
      using prev lf by (simp add: plug_backward_eq Let_def p)
    moreover have "ps \<noteq> [] \<Longrightarrow> is_used h (last ps)"
      using pre free by (auto simp: p coalesced_append)
    ultimately show ?thesis
      using that [of ps] seg_merge_blocks [of h ps p m post] s free by (simp add: p)
  qed
qed

text \<open>
  What a client sees of the heap: the blocks in use, as a map from the offset of the user data
  to the number of bytes behind it.
\<close>

definition live_blocks :: "heap \<Rightarrow> nat list \<Rightarrow> nat \<Rightarrow> nat option" where
  "live_blocks h bs a =
     (if SIZEOF_STRUCT_MEM \<le> a \<and> a - SIZEOF_STRUCT_MEM \<in> set bs \<and> is_used h (a - SIZEOF_STRUCT_MEM)
      then Some (hdr_next (hdr h (a - SIZEOF_STRUCT_MEM)) - a) else None)"

definition live :: "heap \<Rightarrow> nat \<Rightarrow> nat option" where
  "live h = live_blocks h (SOME bs. heap_inv h bs)"

lemma heap_inv_unique: "heap_inv h bs \<Longrightarrow> heap_inv h bs' \<Longrightarrow> bs' = bs"
  using seg_unique by (auto simp: heap_inv_def)

lemma live_eq: "heap_inv h bs \<Longrightarrow> live h = live_blocks h bs"
  unfolding live_def by (metis heap_inv_unique someI)

lemma live_blocks_eqI:
  assumes "\<And>b. b \<in> set bs' \<and> is_used h' b \<longleftrightarrow> b \<in> set bs \<and> is_used h b \<and> b \<noteq> m"
    and "\<And>b. b \<in> set bs \<Longrightarrow> is_used h b \<Longrightarrow> b \<noteq> m \<Longrightarrow> hdr_next (hdr h' b) = hdr_next (hdr h b)"
  shows "live_blocks h' bs' = (live_blocks h bs)(m + SIZEOF_STRUCT_MEM := None)"
proof
  fix a
  show "live_blocks h' bs' a = ((live_blocks h bs)(m + SIZEOF_STRUCT_MEM := None)) a"
    using assms [of "a - SIZEOF_STRUCT_MEM"]
    by (auto simp: live_blocks_def)
qed

lemma mem_free_guards:
  assumes inv: "heap_inv h bs" and m: "m \<in> set bs" "is_used h m"
  shows "mem_free (Some (m + SIZEOF_STRUCT_MEM)) h =
    (let h1 = set_used m False h; h2 = (if m < lfree h1 then h1\<lparr>lfree := m\<rparr> else h1)
     in Inr (plug_backward m (plug_forward m h2)))"
proof -
  have s: "seg (hdr h) 0 0 bs MEM_SIZE_ALIGNED" using inv by (simp add: heap_inv_def)
  obtain pre post where sp: "bs = pre @ m # post" "seg (hdr h) 0 0 pre m" "m mod 4 = 0"
    "hdr_prev (hdr h m) = (if pre = [] then 0 else last pre)" "m + 24 \<le> hdr_next (hdr h m)"
    "seg (hdr h) m (hdr_next (hdr h m)) post MEM_SIZE_ALIGNED"
    using seg_split [OF s m(1)] .
  have le: "hdr_next (hdr h m) \<le> MEM_SIZE_ALIGNED" using seg_bounds [OF s m(1)] by simp
  have "pre \<noteq> [] \<Longrightarrow> hdr_next (hdr h (last pre)) = m"
  proof -
    assume "pre \<noteq> []"
    then obtain ps p where "pre = ps @ [p]" by (metis append_butlast_last_id)
    then show ?thesis using sp(2) by (auto simp: seg_append)
  qed
  moreover have "pre = [] \<Longrightarrow> m = 0" using sp(2) by simp
  moreover have "hdr_next (hdr h m) \<noteq> MEM_SIZE_ALIGNED \<Longrightarrow> hdr_prev (hdr h (hdr_next (hdr h m))) = m"
    using sp(6) by (cases post) auto
  moreover have "hdr_prev (hdr h m) \<le> m" using sp(2,4) seg_less [OF sp(2), of "last pre"] by fastforce
  ultimately have "mem_link_valid m h"
    using le sp(4,5)
    by (cases "hdr_next (hdr h m) = MEM_SIZE_ALIGNED") (auto simp: mem_link_valid_def Let_def)
  moreover have "(m + 12) mod 4 = 0" using sp(3) by presburger
  ultimately show ?thesis
    using sp(5) le m(2) by (simp add: mem_free_def MEM_ALIGNMENT_def Let_def mem_consts is_used_def plug_holes_def)
qed

lemma lowest_free_release:
  assumes s: "seg (hdr h) 0 0 (pre @ m # post) MEM_SIZE_ALIGNED" and m: "is_used h m"
  shows "min m (lowest_free h (pre @ m # post)) = (if \<forall>x \<in> set pre. is_used h x then m else lowest_free h pre)"
proof (cases "\<forall>x \<in> set pre. is_used h x")
  case True
  have mE: "m < MEM_SIZE_ALIGNED" using seg_less [OF s] by simp
  have "lowest_free h post \<ge> m"
    using lowest_free_cases [of h post] s mE seg_bounds [of "hdr h" m "hdr_next (hdr h m)" post MEM_SIZE_ALIGNED]
    by (auto simp: seg_append) (metis add_leD1 le_trans)
  then show ?thesis using True m by (simp add: lowest_free_append)
next
  case False
  have "x < m" if "x \<in> set pre" for x using s seg_less that by (auto simp: seg_append)
  then have "lowest_free h pre < m" using False lowest_free_in [of pre h] by auto
  then show ?thesis using False by (auto simp: lowest_free_append)
qed

lemma mem_free_inv:
  assumes inv: "heap_inv h bs" and m: "m \<in> set bs" "is_used h m"
  shows "\<exists>h' bs'. mem_free (Some (m + SIZEOF_STRUCT_MEM)) h = Inr h' \<and> heap_inv h' bs'
    \<and> live_blocks h' bs' = (live_blocks h bs)(m + SIZEOF_STRUCT_MEM := None)"
proof -
  let ?E = MEM_SIZE_ALIGNED
  have s: "seg (hdr h) 0 0 bs ?E" and co: "coalesced h bs"
    and lf: "lfree h = lowest_free h bs" and E: "is_used h ?E" using inv by (auto simp: heap_inv_def)
  obtain pre post where bs: "bs = pre @ m # post" using m(1) by (meson split_list)
  have new: "m \<notin> set pre" "m \<notin> set post" "m < ?E" "?E \<notin> set pre"
    using seg_distinct [OF s] seg_less [OF s] by (auto simp: bs)
  define h2 where "h2 = (let h1 = set_used m False h in if m < lfree h1 then h1\<lparr>lfree := m\<rparr> else h1)"
  define h3 where "h3 = plug_forward m h2"
  have u2: "is_used h2 = (is_used h)(m := False)" and H2: "hdr h2 = (hdr h)(m := (hdr h m)\<lparr>hdr_used := False\<rparr>)"
    and l2: "lfree h2 = min m (lfree h)"
    by (auto simp: h2_def Let_def fun_eq_iff)
  have s2: "seg (hdr h2) 0 0 (pre @ m # post) ?E"
    using s unfolding bs by (rule seg_cong) (auto simp: H2)
  have same: "x \<noteq> m \<Longrightarrow> is_used h2 x = is_used h x" for x by (simp add: u2)
  have co2: "coalesced h2 pre"
    "coalesced h2 post"
    using co new coalesced_cong [of pre h2 h] coalesced_cong [of post h2 h] same
    by (simp_all add: bs coalesced_append coalesced_Cons, metis+)
  obtain post' where f: "seg (hdr h3) 0 0 (pre @ m # post') ?E"
    "coalesced h2 post'"
    "post' \<noteq> [] \<Longrightarrow> is_used h2 (hd post')"
    "set post' \<subseteq> set post" "\<And>b. b \<in> set post \<Longrightarrow> is_used h2 b \<Longrightarrow> b \<in> set post'"
    "is_used h3 = is_used h2" "lfree h3 = lfree h2"
    "\<And>b. b \<noteq> m \<Longrightarrow> hdr_next (hdr h3 b) = hdr_next (hdr h2 b)"
    unfolding h3_def
    by (rule plug_forward_blocks [OF s2 co2(2)]) (use l2 E new in \<open>auto simp: u2\<close>)
  have lfm: "lfree h3 = (if \<forall>x \<in> set pre. is_used h x then m else lowest_free h pre)"
    using lowest_free_release [OF s [unfolded bs] m(2)] f(7) l2 lf by (simp add: bs)
  have up: "is_used h3 x = is_used h x" if "x \<in> set pre" for x
    using that new(1) same f(6) by metis
  then have lf3: "lowest_free h3 pre = lowest_free h pre" by (rule lowest_free_cong)
  have lfn: "\<exists>x \<in> set pre. \<not> is_used h3 x \<Longrightarrow> lfree h3 \<noteq> m"
    using lfm up lowest_free_in [of pre h] new(1) by auto
  have mf: "\<not> is_used h3 m" using f(6) by (simp add: u2)
  have f3: "post' = [] \<or> is_used h3 (hd post')" using f(3,6) by auto
  have c3: "coalesced h3 xs = coalesced h2 xs" for xs using f(6) by (simp add: coalesced_def)
  obtain pre' where b: "pre' = pre \<and> (pre \<noteq> [] \<longrightarrow> is_used h3 (last pre)) \<and> plug_backward m h3 = h3
     \<or> pre = pre' @ [last pre] \<and> \<not> is_used h3 (last pre) \<and> (pre' \<noteq> [] \<longrightarrow> is_used h3 (last pre'))
        \<and> seg (hdr (plug_backward m h3)) 0 0 (pre @ post') ?E
        \<and> is_used (plug_backward m h3) = is_used h3 \<and> lfree (plug_backward m h3) = lfree h3
        \<and> (\<forall>b. b \<noteq> last pre \<longrightarrow> hdr_next (hdr (plug_backward m h3) b) = hdr_next (hdr h3 b))"
    by (rule plug_backward_blocks [OF f(1)]) (use co2(1) lfn in \<open>auto simp: c3\<close>)
  have res: "mem_free (Some (m + SIZEOF_STRUCT_MEM)) h = Inr (plug_backward m h3)"
    using mem_free_guards [OF inv m] by (simp add: h3_def h2_def Let_def)
  have E3: "is_used h3 ?E" using E new f(6) by (simp add: u2)
  from b show ?thesis
  proof
    assume keep: "pre' = pre \<and> (pre \<noteq> [] \<longrightarrow> is_used h3 (last pre)) \<and> plug_backward m h3 = h3"
    have "heap_inv h3 (pre @ m # post')"
      using f(1) co2(1) f(2) f3 mf keep lfm lf3 up E3
      by (auto simp: heap_inv_def coalesced_append coalesced_Cons lowest_free_append c3)
    moreover have "live_blocks h3 (pre @ m # post') = (live_blocks h bs)(m + SIZEOF_STRUCT_MEM := None)"
      by (rule live_blocks_eqI) (use f(4,5,6,8) new H2 in \<open>auto simp: bs u2 subset_iff\<close>)
    ultimately show ?thesis using res keep by auto
  next
    assume mg: "pre = pre' @ [last pre] \<and> \<not> is_used h3 (last pre) \<and> (pre' \<noteq> [] \<longrightarrow> is_used h3 (last pre'))
        \<and> seg (hdr (plug_backward m h3)) 0 0 (pre @ post') ?E
        \<and> is_used (plug_backward m h3) = is_used h3 \<and> lfree (plug_backward m h3) = lfree h3
        \<and> (\<forall>b. b \<noteq> last pre \<longrightarrow> hdr_next (hdr (plug_backward m h3) b) = hdr_next (hdr h3 b))"
    let ?h4 = "plug_backward m h3"
    have lst: "last pre \<in> set pre" using mg by (metis in_set_conv_decomp)
    have "lowest_free ?h4 (pre @ post') = lowest_free h pre"
      using mg lf3 up lst lowest_free_cong [of pre ?h4 h3] by (auto simp: lowest_free_append)
    moreover have "coalesced ?h4 xs = coalesced h2 xs" for xs
      using mg f(6) by (simp add: coalesced_def)
    ultimately have "heap_inv ?h4 (pre @ post')"
      using mg co2(1) f(2) f3 lfm lf3 up lst E3
      by (auto simp: heap_inv_def coalesced_append)
    moreover have "live_blocks ?h4 (pre @ post') = (live_blocks h bs)(m + SIZEOF_STRUCT_MEM := None)"
    proof (rule live_blocks_eqI)
      fix b
      show "b \<in> set (pre @ post') \<and> is_used ?h4 b \<longleftrightarrow> b \<in> set bs \<and> is_used h b \<and> b \<noteq> m"
        using mg f(4,5,6) new by (auto simp: bs u2 subset_iff)
      have "\<not> is_used h (last pre)" using mg up lst by simp
      then show "is_used h b \<Longrightarrow> b \<noteq> m \<Longrightarrow> hdr_next (hdr ?h4 b) = hdr_next (hdr h b)"
        using mg f(8) H2 by (metis fun_upd_other)
    qed
    ultimately show ?thesis using res by auto
  qed
qed

section \<open>Allocation\<close>

definition block_fits :: "heap \<Rightarrow> nat \<Rightarrow> nat \<Rightarrow> bool" where
  "block_fits h sz b \<longleftrightarrow> \<not> is_used h b \<and> b + SIZEOF_STRUCT_MEM + sz \<le> hdr_next (hdr h b)"

text \<open>The first loop ends and finds the first free block with enough room.\<close>

lemma mem_scan_eq:
  assumes "seg (hdr h) p b xs MEM_SIZE_ALIGNED" "sz \<le> MEM_SIZE_ALIGNED"
  shows "mem_scan h sz b = Some (find (block_fits h sz) xs)"
  using assms(1)
proof (induction xs arbitrary: p b)
  case Nil
  then have "\<not> b < MEM_SIZE_ALIGNED - sz" by simp
  then show ?case by (subst mem_scan.simps) simp
next
  case (Cons x xs)
  then have b: "b = x" and s: "seg (hdr h) x (hdr_next (hdr h x)) xs MEM_SIZE_ALIGNED" by auto
  have le: "hdr_next (hdr h x) \<le> MEM_SIZE_ALIGNED" "x + 24 \<le> hdr_next (hdr h x)"
    using seg_bounds [OF Cons.prems, of x] by auto
  have sub: "sub32 (hdr_next (hdr h x)) (x + SIZEOF_STRUCT_MEM) = hdr_next (hdr h x) - (x + SIZEOF_STRUCT_MEM)"
    using le by (intro sub32_le) (auto simp: mem_consts)
  show ?case
  proof (cases "x < MEM_SIZE_ALIGNED - sz")
    case True
    have "block_fits h sz x \<longleftrightarrow> \<not> hdr_used (hdr h x)
        \<and> sz \<le> sub32 (hdr_next (hdr h x)) (x + SIZEOF_STRUCT_MEM)"
      using le(2) unfolding sub by (auto simp: mem_consts block_fits_def is_used_def)
    with True Cons.IH [OF s] show ?thesis
      by (subst mem_scan.simps) (simp add: b)
  next
    case False
    have "\<not> block_fits h sz y" if "y \<in> set (x # xs)" for y
    proof -
      have "x \<le> y \<and> hdr_next (hdr h y) \<le> MEM_SIZE_ALIGNED"
        using seg_bounds [OF Cons.prems that] b by simp
      then show ?thesis using False by (auto simp: block_fits_def mem_consts)
    qed
    then have "find (block_fits h sz) (x # xs) = None" by (simp add: find_None_iff)
    with False show ?thesis by (subst mem_scan.simps) (simp add: b)
  qed
qed

lemma mem_next_free_eq:
  assumes "seg (hdr h) p b xs MEM_SIZE_ALIGNED"
  shows "mem_next_free h b = Some (lowest_free h xs)"
  using assms
proof (induction xs arbitrary: p b)
  case Nil
  then show ?case by (simp add: mem_next_free.simps)
next
  case (Cons x xs)
  then have "x < MEM_SIZE_ALIGNED" using seg_less by fastforce
  with Cons show ?case
    by (subst mem_next_free.simps) (auto simp: is_used_def)
qed

lemma mem_adjust_lfree_eq:
  assumes s: "seg (hdr h) 0 0 (pre @ a # rest) MEM_SIZE_ALIGNED" and a: "is_used h a"
    and lf: "lfree h = (if \<forall>x \<in> set pre. is_used h x then a else lowest_free h pre)"
  shows "mem_adjust_lfree a h = Inr (h\<lparr>lfree := lowest_free h (pre @ a # rest)\<rparr>)"
proof -
  have sa: "seg (hdr h) (if pre = [] then 0 else last pre) a (a # rest) MEM_SIZE_ALIGNED"
    and pl: "seg (hdr h) 0 0 pre a"
    using s by (auto simp: seg_append)
  show ?thesis
  proof (cases "\<forall>x \<in> set pre. is_used h x")
    case True
    then show ?thesis
      using lf a mem_next_free_eq [OF sa] lowest_free_cases [of h rest]
      by (auto simp: mem_adjust_lfree_def lowest_free_append is_used_def)
  next
    case False
    then have "lowest_free h pre \<noteq> a" using lowest_free_in [of pre h] seg_less [OF pl] by fastforce
    moreover have "lfree h = lowest_free h pre" "lowest_free h (pre @ a # rest) = lowest_free h pre"
      using False lf by (auto simp: lowest_free_append)
    ultimately show ?thesis by (simp add: mem_adjust_lfree_def)
  qed
qed

text \<open>Taking a free block that fits, whether it is split or not.\<close>

lemma live_blocks_takeI:
  assumes "\<And>b. b \<in> set bs' \<and> is_used h' b \<longleftrightarrow> b = a \<or> b \<in> set bs \<and> is_used h b"
    and "\<And>b. b \<noteq> a \<Longrightarrow> b \<in> set bs \<Longrightarrow> is_used h b \<Longrightarrow> hdr_next (hdr h' b) = hdr_next (hdr h b)"
  shows "live_blocks h' bs' = (live_blocks h bs)
    (a + SIZEOF_STRUCT_MEM \<mapsto> hdr_next (hdr h' a) - (a + SIZEOF_STRUCT_MEM))"
proof
  fix x
  show "live_blocks h' bs' x = ((live_blocks h bs)
      (a + SIZEOF_STRUCT_MEM \<mapsto> hdr_next (hdr h' a) - (a + SIZEOF_STRUCT_MEM))) x"
    using assms [of "x - SIZEOF_STRUCT_MEM"] by (auto simp: live_blocks_def)
qed

lemma mem_take_block_inv:
  assumes inv: "heap_inv h (pre @ a # post)" and fit: "block_fits h sz a"
    and sz: "12 \<le> sz" "sz mod 4 = 0"
  shows "\<exists>h1 rest. mem_take_block a sz h = Inr h1
    \<and> seg (hdr h1) 0 0 (pre @ a # rest) MEM_SIZE_ALIGNED
    \<and> is_used h1 a \<and> (\<forall>x \<in> set pre. is_used h1 x = is_used h x) \<and> is_used h1 MEM_SIZE_ALIGNED
    \<and> coalesced h1 (pre @ a # rest) \<and> lfree h1 = lfree h
    \<and> live_blocks h1 (pre @ a # rest) = (live_blocks h (pre @ a # post))
        (a + SIZEOF_STRUCT_MEM \<mapsto> hdr_next (hdr h1 a) - (a + SIZEOF_STRUCT_MEM))
    \<and> a + SIZEOF_STRUCT_MEM + sz \<le> hdr_next (hdr h1 a)"
proof -
  let ?E = MEM_SIZE_ALIGNED and ?n = "hdr_next (hdr h a)"
  have s: "seg (hdr h) 0 0 (pre @ a # post) ?E" and co: "coalesced h (pre @ a # post)"
    and E: "is_used h ?E" using inv by (auto simp: heap_inv_def)
  have pre: "seg (hdr h) 0 0 pre a" and post: "seg (hdr h) a ?n post ?E"
    and a: "a mod 4 = 0" "hdr_prev (hdr h a) = (if pre = [] then 0 else last pre)"
    using s by (auto simp: seg_append)
  have n: "a + 24 \<le> ?n" "?n \<le> ?E" using seg_bounds [OF s, of a] by auto
  have free: "\<not> is_used h a" and room: "a + 12 + sz \<le> ?n"
    using fit by (auto simp: block_fits_def mem_consts)
  have new: "a \<notin> set pre" "a \<notin> set post" using seg_distinct [OF s] by auto
  have sub: "sub32 ?n (a + 12) = ?n - (a + 12)"
    using n by (subst sub32_le) (auto simp: mem_consts)
  have cu: "coalesced h pre" "coalesced h post" "post \<noteq> [] \<Longrightarrow> is_used h (hd post)"
    using co free by (auto simp: coalesced_append coalesced_Cons)
  have cong: "coalesced h' pre \<and> coalesced h' post"
    if "\<forall>x \<in> set pre \<union> set post. is_used h' x = is_used h x" for h'
    using cu that coalesced_cong [of pre h' h] coalesced_cong [of post h' h] by auto
  show ?thesis
  proof (cases "sz + 24 \<le> ?n - (a + 12)")
    case True
    define c where "c = a + 12 + sz"
    define h1 where "h1 = set_used a True (mem_trim_split a c ?n h)"
    have c: "a + 24 \<le> c" "c + 24 \<le> ?n" "c mod 4 = 0"
      using True sz a n(1) by (auto simp: c_def mod_add_eq [symmetric])
    have fresh: "c \<notin> set pre" "c \<notin> set post" "c \<noteq> ?E"
      using seg_bounds [OF pre, of c] seg_bounds [OF post, of c] c n by auto
    have "mem_take_block a sz h = Inr h1"
      using True fresh by (simp add: mem_take_block_def sub Let_def mem_consts h1_def c_def)
    moreover have "seg (hdr h1) 0 0 (pre @ a # c # post) ?E"
      using seg_trim_split [OF pre post a c] unfolding h1_def by (elim seg_cong) auto
    moreover have used: "is_used h1 = (is_used h)(c := False, a := True)"
      using c by (simp add: h1_def)
    moreover have "coalesced h1 (pre @ a # c # post)"
    proof -
      have sm: "\<forall>x \<in> set pre \<union> set post. is_used h1 x = is_used h x" using used fresh new by auto
      then have "post = [] \<or> is_used h1 (hd post)" using cu(3) by (cases post) auto
      then show ?thesis using cong [OF sm] used by (auto simp: coalesced_append coalesced_Cons)
    qed
    moreover have "live_blocks h1 (pre @ a # c # post) = (live_blocks h (pre @ a # post))
        (a + SIZEOF_STRUCT_MEM \<mapsto> hdr_next (hdr h1 a) - (a + SIZEOF_STRUCT_MEM))"
      by (rule live_blocks_takeI) (use used fresh new free c in \<open>auto simp: h1_def\<close>)
    moreover have "hdr_next (hdr h1 a) = c" using c by (simp add: h1_def)
    ultimately show ?thesis
      using E fresh new n by (intro exI [of _ h1] exI [of _ "c # post"])
        (auto simp: h1_def c_def mem_consts)
  next
    case False
    define h1 where "h1 = set_used a True h"
    have used: "is_used h1 = (is_used h)(a := True)" by (simp add: h1_def)
    have "mem_take_block a sz h = Inr h1"
      using False by (simp add: mem_take_block_def sub Let_def mem_consts h1_def)
    moreover have "seg (hdr h1) 0 0 (pre @ a # post) ?E"
      using s unfolding h1_def by (elim seg_cong) auto
    moreover have "coalesced h1 (pre @ a # post)"
      using cong [of h1] used new by (auto simp: coalesced_append coalesced_Cons)
    moreover have "live_blocks h1 (pre @ a # post) = (live_blocks h (pre @ a # post))
        (a + SIZEOF_STRUCT_MEM \<mapsto> hdr_next (hdr h1 a) - (a + SIZEOF_STRUCT_MEM))"
      by (rule live_blocks_takeI) (use used new free in \<open>auto simp: h1_def\<close>)
    ultimately show ?thesis
      using E used new n room by (intro exI [of _ h1] exI [of _ post])
        (auto simp: h1_def mem_consts)
  qed
qed

definition malloc_size :: "nat \<Rightarrow> nat" where
  "malloc_size n = max (LWIP_MEM_ALIGN_SIZE n) MIN_SIZE_ALIGNED"

definition request_ok :: "nat \<Rightarrow> bool" where
  "request_ok n \<longleftrightarrow> 0 < n \<and> n \<le> malloc_size n \<and> malloc_size n \<le> MEM_SIZE_ALIGNED"

lemma malloc_size_props: "12 \<le> malloc_size n" "malloc_size n mod 4 = 0"
  by (auto simp: malloc_size_def mem_consts max_def)

lemma mem_malloc_refused: "\<not> request_ok n \<Longrightarrow> mem_malloc n h = Inr (None, h)"
  by (auto simp: mem_malloc_def request_ok_def malloc_size_def Let_def)

text \<open>
  The first fit: the blocks in front of the lowest free one are all in use, so the scan that
  starts there finds the first block that fits.
\<close>

lemma lowest_free_split:
  "\<exists>x \<in> set xs. \<not> is_used h x \<Longrightarrow>
    \<exists>pre post. xs = pre @ lowest_free h xs # post \<and> (\<forall>x \<in> set pre. is_used h x)"
proof (induction xs)
  case (Cons b bs)
  show ?case
  proof (cases "is_used h b")
    case True
    then obtain pre post where "bs = pre @ lowest_free h bs # post" "\<forall>x \<in> set pre. is_used h x"
      using Cons by auto
    with True have "b # bs = (b # pre) @ lowest_free h (b # bs) # post \<and> (\<forall>x \<in> set (b # pre). is_used h x)"
      by simp
    then show ?thesis by blast
  next
    case False
    then have "b # bs = [] @ lowest_free h (b # bs) # bs" by simp
    then show ?thesis by force
  qed
qed simp

lemma find_skip_used:
  "\<forall>x \<in> set pre. is_used h x \<Longrightarrow> find (block_fits h sz) (pre @ xs) = find (block_fits h sz) xs"
  by (induction pre) (auto simp: block_fits_def)

lemma mem_scan_from_lfree:
  assumes inv: "heap_inv h bs" and sz: "sz \<le> MEM_SIZE_ALIGNED"
  shows "mem_scan h sz (lfree h) = Some (find (block_fits h sz) bs)"
proof (cases "\<exists>x \<in> set bs. \<not> is_used h x")
  case True
  have s: "seg (hdr h) 0 0 bs MEM_SIZE_ALIGNED" and lf: "lfree h = lowest_free h bs"
    using inv by (auto simp: heap_inv_def)
  obtain pre post where p: "bs = pre @ lfree h # post" "\<forall>x \<in> set pre. is_used h x"
    using lowest_free_split [OF True] lf by auto
  have "seg (hdr h) (if pre = [] then 0 else last pre) (lfree h) (lfree h # post) MEM_SIZE_ALIGNED"
    using s by (subst (asm) p(1)) (auto simp: seg_append)
  from mem_scan_eq [OF this sz] show ?thesis
    using find_skip_used [OF p(2)] p(1) by metis
next
  case False
  then have "find (block_fits h sz) bs = None" by (auto simp: find_None_iff block_fits_def)
  moreover have "lfree h = MEM_SIZE_ALIGNED"
    using inv False lowest_free_cases [of h bs] by (auto simp: heap_inv_def)
  then have "\<not> lfree h < MEM_SIZE_ALIGNED - sz" by simp
  then have "mem_scan h sz (lfree h) = Some None" by (subst mem_scan.simps) simp
  ultimately show ?thesis by simp
qed

lemma mem_malloc_full:
  assumes inv: "heap_inv h bs" and ok: "request_ok n" and no: "find (block_fits h (malloc_size n)) bs = None"
  shows "mem_malloc n h = Inr (None, h)"
  using mem_scan_from_lfree [OF inv, of "malloc_size n"] no ok
  by (simp add: mem_malloc_def request_ok_def malloc_size_def [symmetric] Let_def)

lemma mem_malloc_fits:
  assumes inv: "heap_inv h bs" and ok: "request_ok n" and fit: "find (block_fits h (malloc_size n)) bs = Some a"
  shows "\<exists>h' bs' m. mem_malloc n h = Inr (Some (a + SIZEOF_STRUCT_MEM), h') \<and> heap_inv h' bs'
    \<and> live_blocks h bs (a + SIZEOF_STRUCT_MEM) = None \<and> n \<le> m
    \<and> live_blocks h' bs' = (live_blocks h bs)(a + SIZEOF_STRUCT_MEM \<mapsto> m)"
proof -
  let ?E = MEM_SIZE_ALIGNED and ?sz = "malloc_size n"
  have a: "a \<in> set bs" "block_fits h ?sz a" using fit by (auto simp: find_Some_iff)
  then have free: "\<not> is_used h a" by (simp add: block_fits_def)
  have n: "hdr_next (hdr h a) \<le> ?E" "a mod 4 = 0"
    using inv seg_bounds [of "hdr h" 0 0 bs ?E a] a by (auto simp: heap_inv_def)
  obtain pre post where bs: "bs = pre @ a # post" using a(1) by (meson split_list)
  obtain h1 rest where t: "mem_take_block a ?sz h = Inr h1"
    "seg (hdr h1) 0 0 (pre @ a # rest) ?E" "is_used h1 a"
    "\<forall>x \<in> set pre. is_used h1 x = is_used h x" "is_used h1 ?E"
    "coalesced h1 (pre @ a # rest)" "lfree h1 = lfree h"
    "live_blocks h1 (pre @ a # rest) = (live_blocks h (pre @ a # post))
        (a + SIZEOF_STRUCT_MEM \<mapsto> hdr_next (hdr h1 a) - (a + SIZEOF_STRUCT_MEM))"
    "a + SIZEOF_STRUCT_MEM + ?sz \<le> hdr_next (hdr h1 a)"
    using mem_take_block_inv [OF inv [unfolded bs] a(2) malloc_size_props] by blast
  define h2 where "h2 = h1\<lparr>lfree := lowest_free h1 (pre @ a # rest)\<rparr>"
  have "lfree h1 = (if \<forall>x \<in> set pre. is_used h1 x then a else lowest_free h1 pre)"
    using inv t(4,7) free lowest_free_cong [of pre h1 h] by (auto simp: heap_inv_def bs lowest_free_append)
  then have adj: "mem_adjust_lfree a h1 = Inr h2"
    unfolding h2_def by (rule mem_adjust_lfree_eq [OF t(2,3)])
  have "heap_inv h2 (pre @ a # rest)"
    using t(2,5,6) by (auto simp: heap_inv_def h2_def coalesced_def intro!: lowest_free_cong)
  moreover have "a + SIZEOF_STRUCT_MEM + ?sz \<le> ?E"
    using a(2) n(1) by (simp add: block_fits_def)
  then have "mem_malloc n h = Inr (Some (a + SIZEOF_STRUCT_MEM), h2)"
    using mem_scan_from_lfree [OF inv, of ?sz] ok fit t(1) adj n(2)
    by (simp add: mem_malloc_def request_ok_def malloc_size_def [symmetric] Let_def MEM_ALIGNMENT_def)
  moreover have "live_blocks h bs (a + SIZEOF_STRUCT_MEM) = None"
    using free by (simp add: live_blocks_def)
  moreover have "live_blocks h2 (pre @ a # rest) = live_blocks h1 (pre @ a # rest)"
    by (simp add: h2_def live_blocks_def fun_eq_iff)
  moreover have "n \<le> hdr_next (hdr h1 a) - (a + SIZEOF_STRUCT_MEM)"
    using t(9) ok by (auto simp: request_ok_def)
  ultimately show ?thesis using t(8) bs by metis
qed

lemma mem_init_inv: "heap_inv (mem_init h) [0]"
  by (auto simp: heap_inv_def mem_init_def coalesced_def lowest_free_def is_used_def mem_consts)

lemma live_mem_init: "live (mem_init h) = Map.empty"
  using live_eq [OF mem_init_inv [of h]] by (auto simp: live_blocks_def mem_init_def is_used_def mem_consts)

section \<open>Trimming\<close>

text \<open>
  Shrinking a block in use: the cut-off part joins the free successor, or becomes a free block
  of its own when it is large enough and the block is not the last of the heap.
\<close>

lemma trim_split_inv:
  fixes h :: heap
  assumes inv: "heap_inv h (pre @ m # post)" and m: "is_used h m"
    and rest: "seg (hdr h) p nxt rest MEM_SIZE_ALIGNED" "coalesced h rest" "rest = [] \<or> is_used h (hd rest)"
    and c: "m + 24 \<le> c" "c + 24 \<le> nxt" "c mod 4 = 0"
    and used: "\<And>b. b \<in> set rest \<and> is_used h b \<longleftrightarrow> b \<in> set post \<and> is_used h b"
  defines "h' \<equiv> mem_trim_split m c nxt
      (h\<lparr>lfree := if \<forall>x \<in> set pre. is_used h x then c else lowest_free h pre\<rparr>)"
  shows "heap_inv h' (pre @ m # c # rest)"
    and "live_blocks h' (pre @ m # c # rest) = (live_blocks h (pre @ m # post))
      (m + SIZEOF_STRUCT_MEM \<mapsto> c - (m + SIZEOF_STRUCT_MEM))"
proof -
  let ?E = MEM_SIZE_ALIGNED
  have s: "seg (hdr h) 0 0 (pre @ m # post) ?E" and co: "coalesced h (pre @ m # post)"
    and E: "is_used h ?E" using inv by (auto simp: heap_inv_def)
  have pre: "seg (hdr h) 0 0 pre m" and a: "m mod 4 = 0" "hdr_prev (hdr h m) = (if pre = [] then 0 else last pre)"
    using s by (auto simp: seg_append)
  have fresh: "c \<notin> set pre" "c \<notin> set rest" "m \<notin> set pre" "m \<notin> set rest" "c \<noteq> ?E" "m \<noteq> c"
    using seg_bounds [OF pre, of c] seg_bounds [OF rest(1), of c] seg_bounds [OF pre, of m]
      seg_bounds [OF rest(1), of m] seg_le [OF rest(1)] c by auto
  have u: "is_used h' = (is_used h)(c := False)" using fresh by (simp add: h'_def)
  have lf: "lfree h' = (if \<forall>x \<in> set pre. is_used h x then c else lowest_free h pre)"
    by (simp add: h'_def)
  have sm: "is_used h' x = is_used h x" if "x \<in> set pre \<union> set rest" for x using that u fresh by auto
  have "rest = [] \<or> is_used h' (hd rest)" using rest(3) sm by (cases rest) auto
  moreover have "coalesced h' pre" "coalesced h' rest"
    using co rest(2) sm coalesced_cong [of pre h' h] coalesced_cong [of rest h' h]
    by (auto simp: coalesced_append)
  ultimately have "coalesced h' (pre @ m # c # rest)"
    using u m fresh by (auto simp: coalesced_append coalesced_Cons)
  moreover have "seg (hdr h') 0 0 (pre @ m # c # rest) ?E"
    unfolding h'_def by (rule seg_trim_split [of _ _ _ p]) (use pre rest a c in auto)
  moreover have "lowest_free h' (pre @ m # c # rest) = lfree h'"
    using u m fresh sm lf lowest_free_cong [of pre h' h] by (auto simp: lowest_free_append)
  ultimately show "heap_inv h' (pre @ m # c # rest)"
    using E fresh u by (simp add: heap_inv_def)
  have "hdr_next (hdr h' m) = c" using fresh by (simp add: h'_def)
  moreover have "live_blocks h' (pre @ m # c # rest) = (live_blocks h (pre @ m # post))
      (m + SIZEOF_STRUCT_MEM \<mapsto> hdr_next (hdr h' m) - (m + SIZEOF_STRUCT_MEM))"
  proof (rule live_blocks_takeI)
    fix b
    show "b \<in> set (pre @ m # c # rest) \<and> is_used h' b \<longleftrightarrow> b = m \<or> b \<in> set (pre @ m # post) \<and> is_used h b"
      using u m fresh used [of b] by auto
    have "c \<notin> set post \<or> \<not> is_used h c" using used [of c] fresh by auto
    then show "b \<noteq> m \<Longrightarrow> b \<in> set (pre @ m # post) \<Longrightarrow> is_used h b \<Longrightarrow> hdr_next (hdr h' b) = hdr_next (hdr h b)"
      using fresh by (auto simp: h'_def)
  qed
  ultimately show "live_blocks h' (pre @ m # c # rest) = (live_blocks h (pre @ m # post))
      (m + SIZEOF_STRUCT_MEM \<mapsto> c - (m + SIZEOF_STRUCT_MEM))" by simp
qed

lemma live_blocks_same:
  "heap_inv h bs \<Longrightarrow> m \<in> set bs \<Longrightarrow> is_used h m \<Longrightarrow>
    (live_blocks h bs)(m + SIZEOF_STRUCT_MEM \<mapsto> hdr_next (hdr h m) - (m + SIZEOF_STRUCT_MEM)) = live_blocks h bs"
  by (auto simp: live_blocks_def fun_eq_iff)

lemma mem_trim_eq:
  assumes "n \<le> malloc_size n" "m + SIZEOF_STRUCT_MEM + malloc_size n \<le> hdr_next (hdr h m)"
    and "hdr_next (hdr h m) < MEM_SIZE_ALIGNED"
  defines "c \<equiv> m + SIZEOF_STRUCT_MEM + malloc_size n" and "nx \<equiv> hdr_next (hdr h m)"
  shows "mem_trim (m + SIZEOF_STRUCT_MEM) n h = Inr (Some (m + SIZEOF_STRUCT_MEM),
    if c = nx then h
    else if \<not> is_used h nx
      then mem_trim_split m c (hdr_next (hdr h nx)) (if lfree h = nx then h\<lparr>lfree := c\<rparr> else h)
    else if c + (SIZEOF_STRUCT_MEM + MIN_SIZE_ALIGNED) \<le> nx
      then mem_trim_split m c nx (if c < lfree h then h\<lparr>lfree := c\<rparr> else h)
    else h)"
proof -
  have "m \<le> nx" "SIZEOF_STRUCT_MEM \<le> nx - m" "nx < 2 ^ 32"
    using assms(2,3) by (auto simp: nx_def mem_consts)
  then have sub: "sub32 (sub32 nx m) SIZEOF_STRUCT_MEM = nx - m - SIZEOF_STRUCT_MEM"
    by (simp add: sub32_le)
  have "\<not> (malloc_size n > MEM_SIZE_ALIGNED \<or> malloc_size n < n)" "m + SIZEOF_STRUCT_MEM < MEM_SIZE_ALIGNED"
    "\<not> malloc_size n > nx - m - SIZEOF_STRUCT_MEM" "nx \<noteq> MEM_SIZE_ALIGNED"
    "malloc_size n = nx - m - SIZEOF_STRUCT_MEM \<longleftrightarrow> c = nx"
    "malloc_size n + SIZEOF_STRUCT_MEM + MIN_SIZE_ALIGNED \<le> nx - m - SIZEOF_STRUCT_MEM
      \<longleftrightarrow> c + (SIZEOF_STRUCT_MEM + MIN_SIZE_ALIGNED) \<le> nx"
    using assms malloc_size_props(1) [of n] by (auto simp: c_def nx_def)
  then show ?thesis
    unfolding mem_trim_def malloc_size_def [symmetric] Let_def
    by (simp add: is_used_def c_def [symmetric] nx_def [symmetric] sub)
qed

lemma mem_trim_inv:
  assumes inv: "heap_inv h bs" and m: "m \<in> set bs" "is_used h m"
    and n: "n \<le> malloc_size n" "m + SIZEOF_STRUCT_MEM + malloc_size n \<le> hdr_next (hdr h m)"
    and nl: "hdr_next (hdr h m) \<noteq> MEM_SIZE_ALIGNED"
  shows "\<exists>h' bs' k. mem_trim (m + SIZEOF_STRUCT_MEM) n h = Inr (Some (m + SIZEOF_STRUCT_MEM), h')
    \<and> heap_inv h' bs' \<and> n \<le> k
    \<and> live_blocks h' bs' = (live_blocks h bs)(m + SIZEOF_STRUCT_MEM \<mapsto> k)"
proof -
  let ?E = MEM_SIZE_ALIGNED and ?n = "hdr_next (hdr h m)" and ?S = SIZEOF_STRUCT_MEM
  have s: "seg (hdr h) 0 0 bs ?E" and lf: "lfree h = lowest_free h bs"
    using inv by (auto simp: heap_inv_def)
  obtain pre post where bs: "bs = pre @ m # post" and pre: "seg (hdr h) 0 0 pre m" and al: "m mod 4 = 0"
    and post: "seg (hdr h) m ?n post ?E" using seg_split [OF s m(1)] by metis
  have le: "?n < ?E" using seg_bounds [OF s m(1)] nl by simp
  have co: "coalesced h post" using inv by (simp add: heap_inv_def bs coalesced_append coalesced_Cons)
  define c where "c = m + ?S + malloc_size n"
  have c: "m + 24 \<le> c" "c mod 4 = 0" "c \<le> ?n" and k: "n \<le> c - (m + ?S)" "n \<le> ?n - (m + ?S)"
    using malloc_size_props [of n] al n by (auto simp: c_def mem_consts mod_add_eq [symmetric])
  obtain post' where p: "post = ?n # post'" using post nl by (cases post) auto
  have post': "seg (hdr h) ?n (hdr_next (hdr h ?n)) post' ?E" "?n + 24 \<le> hdr_next (hdr h ?n)"
    using post by (subst (asm) p, simp add: mem_consts)+
  have lfree_pre: "lfree h = (if \<forall>x \<in> set pre. is_used h x then lowest_free h post else lowest_free h pre)"
    using lf m(2) by (simp add: bs lowest_free_append)
  have lower: "lowest_free h pre < m" if "\<not> (\<forall>x \<in> set pre. is_used h x)"
    using that lowest_free_in [of pre h] seg_less [OF pre] by auto
  have same: ?thesis if "mem_trim (m + ?S) n h = Inr (Some (m + ?S), h)"
    using that inv k(2) live_blocks_same [OF inv m] by metis
  let ?lf = "if \<forall>x \<in> set pre. is_used h x then c else lowest_free h pre"
  have split: ?thesis
    if "mem_trim (m + ?S) n h = Inr (Some (m + ?S), mem_trim_split m c nxt (h\<lparr>lfree := ?lf\<rparr>))"
      and "seg (hdr h) q nxt rest ?E" "coalesced h rest" "rest = [] \<or> is_used h (hd rest)" "c + 24 \<le> nxt"
      and "\<And>b. b \<in> set rest \<and> is_used h b \<longleftrightarrow> b \<in> set post \<and> is_used h b" for q nxt rest
    using trim_split_inv [OF inv [unfolded bs] m(2) that(2-4) c(1) that(5) c(2) that(6)] that(1) k(1)
    unfolding bs by blast
  note eq = mem_trim_eq [OF n le, folded c_def]
  consider "c = ?n" | (free) "c \<noteq> ?n" "\<not> is_used h ?n" | (new) "c \<noteq> ?n" "is_used h ?n" "c + 24 \<le> ?n"
    | "is_used h ?n" "\<not> c + 24 \<le> ?n" by blast
  then show ?thesis
  proof cases
    case free
    have "(if lfree h = ?n then h\<lparr>lfree := c\<rparr> else h) = h\<lparr>lfree := ?lf\<rparr>"
    proof (cases "\<forall>x \<in> set pre. is_used h x")
      case True
      then show ?thesis using lfree_pre free by (simp add: p)
    next
      case False
      then have l: "lowest_free h pre = lfree h" using lfree_pre by auto
      then have "lfree h \<noteq> ?n" using lower [OF False] c by simp
      then show ?thesis using False l by auto
    qed
    then show ?thesis
      using free eq post' co c by (intro split [of "hdr_next (hdr h ?n)" ?n post'])
        (auto simp: p coalesced_Cons)
  next
    case new
    have "\<forall>b \<in> set post. c < b" using new post seg_bounds [OF post] by fastforce
    then have "c < lowest_free h post" using lowest_free_cases [of h post] le new by auto
    then have "(if c < lfree h then h\<lparr>lfree := c\<rparr> else h) = h\<lparr>lfree := ?lf\<rparr>"
    proof (cases "\<forall>x \<in> set pre. is_used h x")
      case False
      then have l: "lowest_free h pre = lfree h" using lfree_pre by auto
      then have "\<not> c < lfree h" using lower [OF False] c by simp
      then show ?thesis using False l by auto
    qed (use lfree_pre in auto)
    then show ?thesis
      using new eq post co by (intro split [of ?n m post]) (auto simp: p mem_consts)
  qed (use same eq in \<open>auto simp: mem_consts\<close>)
qed

section \<open>The contract of the heap\<close>

text \<open>
  A client of the heap sees the live blocks: they lie inside the heap and do not overlap;
  allocation hands out a new one of at least the requested size or answers NULL and changes
  nothing; release removes the block it is given.
\<close>

locale heap_allocator =
  fixes invar :: "'h \<Rightarrow> bool"
    and live :: "'h \<Rightarrow> nat \<Rightarrow> nat option"
    and limit :: nat
    and malloc :: "nat \<Rightarrow> 'h \<Rightarrow> (nat option \<times> 'h) result"
    and release :: "nat option \<Rightarrow> 'h \<Rightarrow> 'h result"
  assumes live_bound: "invar h \<Longrightarrow> live h p = Some n \<Longrightarrow> p + n \<le> limit"
    and live_disjoint: "invar h \<Longrightarrow> live h p = Some n \<Longrightarrow> live h q = Some m \<Longrightarrow> p < q \<Longrightarrow> p + n < q"
    and malloc_ok: "invar h \<Longrightarrow> \<exists>r h'. malloc n h = Inr (r, h') \<and> invar h' \<and>
      (case r of None \<Rightarrow> h' = h
       | Some p \<Rightarrow> live h p = None \<and> (\<exists>m. n \<le> m \<and> live h' = (live h)(p \<mapsto> m)))"
    and release_ok: "invar h \<Longrightarrow> live h p = Some n \<Longrightarrow>
      \<exists>h'. release (Some p) h = Inr h' \<and> invar h' \<and> live h' = (live h)(p := None)"
begin

lemma malloc_release:
  assumes "invar h" "malloc n h = Inr (Some p, h')"
  shows "\<exists>h''. release (Some p) h' = Inr h'' \<and> invar h'' \<and> live h'' = live h"
proof -
  obtain m where *: "invar h'" "live h p = None" "live h' = (live h)(p \<mapsto> m)"
    using malloc_ok [OF assms(1), of n] assms(2) by auto
  then obtain h'' where "release (Some p) h' = Inr h''" "invar h''" "live h'' = (live h')(p := None)"
    using release_ok [of h' p m] by auto
  with * show ?thesis by (auto simp: fun_upd_idem)
qed

text \<open>A fresh block overlaps no block that was live before.\<close>

lemma malloc_fresh:
  assumes "invar h" "malloc n h = Inr (Some p, h')" "live h q = Some m"
  shows "{p..<p + n} \<inter> {q..<q + m} = {}"
proof -
  obtain k where *: "invar h'" "live h p = None" "n \<le> k" "live h' = (live h)(p \<mapsto> k)"
    using malloc_ok [OF assms(1), of n] assms(2) by auto
  have "live h' p = Some k" "live h' q = Some m" "p \<noteq> q" using * assms(3) by auto
  then have "p + k < q \<or> q + m < p"
    using live_disjoint [OF *(1), of p k q m] live_disjoint [OF *(1), of q m p k] by linarith
  with *(3) show ?thesis by auto
qed

end

lemma live_blocks_Some:
  "heap_inv h bs \<Longrightarrow> live h p = Some n \<Longrightarrow> \<exists>m. m \<in> set bs \<and> is_used h m
    \<and> p = m + SIZEOF_STRUCT_MEM \<and> n = hdr_next (hdr h m) - p"
  by (auto simp: live_eq live_blocks_def split: if_splits intro!: exI [of _ "p - SIZEOF_STRUCT_MEM"])

lemma seg_order: "seg H pv b xs e \<Longrightarrow> x \<in> set xs \<Longrightarrow> y \<in> set xs \<Longrightarrow> x < y \<Longrightarrow> hdr_next (H x) \<le> y"
proof (induction xs arbitrary: pv b)
  case (Cons z zs)
  then show ?case
    using seg_bounds [of H z "hdr_next (H z)" zs e x] seg_bounds [of H z "hdr_next (H z)" zs e y]
    by auto
qed simp

interpretation lwip_heap: heap_allocator heap_ok live MEM_SIZE_ALIGNED mem_malloc mem_free
proof unfold_locales
  fix h p n q m
  assume "heap_ok h" "live h p = Some n"
  then obtain bs b where bs: "heap_inv h bs" and b: "b \<in> set bs" "is_used h b"
    "p = b + SIZEOF_STRUCT_MEM" "n = hdr_next (hdr h b) - p"
    using live_blocks_Some by (fastforce simp: heap_ok_def)
  have s: "seg (hdr h) 0 0 bs MEM_SIZE_ALIGNED" using bs by (simp add: heap_inv_def)
  show "p + n \<le> MEM_SIZE_ALIGNED" using seg_bounds [OF s b(1)] b by (simp add: mem_consts)
  show "\<exists>h'. mem_free (Some p) h = Inr h' \<and> heap_ok h' \<and> live h' = (live h)(p := None)"
    using mem_free_inv [OF bs b(1,2)] b(3) live_eq [OF bs] live_eq by (fastforce simp: heap_ok_def)
  show "p + n < q" if q: "live h q = Some m" and pq: "p < q"
  proof -
    obtain c where c: "c \<in> set bs" "q = c + SIZEOF_STRUCT_MEM" using live_blocks_Some [OF bs q] by auto
    then have "hdr_next (hdr h b) \<le> c" using seg_order [OF s b(1)] pq b by simp
    then show ?thesis using seg_bounds [OF s b(1)] b c by (simp add: mem_consts)
  qed
next
  fix h n
  assume "heap_ok h"
  then obtain bs where bs: "heap_inv h bs" by (auto simp: heap_ok_def)
  show "\<exists>r h'. mem_malloc n h = Inr (r, h') \<and> heap_ok h' \<and>
      (case r of None \<Rightarrow> h' = h
       | Some p \<Rightarrow> live h p = None \<and> (\<exists>m. n \<le> m \<and> live h' = (live h)(p \<mapsto> m)))"
  proof (cases "request_ok n \<and> find (block_fits h (malloc_size n)) bs \<noteq> None")
    case True
    then obtain a where ok: "request_ok n" and a: "find (block_fits h (malloc_size n)) bs = Some a" by auto
    obtain h' bs' m where r: "mem_malloc n h = Inr (Some (a + SIZEOF_STRUCT_MEM), h')" "heap_inv h' bs'"
      "live_blocks h bs (a + SIZEOF_STRUCT_MEM) = None" "n \<le> m"
      "live_blocks h' bs' = (live_blocks h bs)(a + SIZEOF_STRUCT_MEM \<mapsto> m)"
      using mem_malloc_fits [OF bs ok a] by blast
    then show ?thesis using live_eq [OF bs] live_eq [OF r(2)] by (auto simp: heap_ok_def)
  next
    case False
    then have "mem_malloc n h = Inr (None, h)"
      using mem_malloc_refused mem_malloc_full [OF bs] by blast
    then show ?thesis using bs by (auto simp: heap_ok_def)
  qed
qed

section \<open>Reachable heaps\<close>

lemma mem_trim_last:
  assumes inv: "heap_inv h bs" and m: "m \<in> set bs" and nl: "hdr_next (hdr h m) = MEM_SIZE_ALIGNED"
    and n: "n \<le> malloc_size n" "malloc_size n \<le> MEM_SIZE_ALIGNED"
  shows "mem_trim (m + SIZEOF_STRUCT_MEM) n h =
    (if m + SIZEOF_STRUCT_MEM + malloc_size n \<le> MEM_SIZE_ALIGNED
        \<and> MEM_SIZE_ALIGNED < m + SIZEOF_STRUCT_MEM + malloc_size n + 24
     then Inr (Some (m + SIZEOF_STRUCT_MEM), h) else Inl AssertFail)"
proof -
  let ?E = MEM_SIZE_ALIGNED
  have le: "m + 24 \<le> ?E" and E: "is_used h ?E"
    using inv seg_bounds [of "hdr h" 0 0 bs ?E m] m nl by (auto simp: heap_inv_def)
  then have "m \<le> ?E" "SIZEOF_STRUCT_MEM \<le> ?E - m" "?E < 2 ^ 32" by (auto simp: mem_consts)
  then have sub: "sub32 (sub32 ?E m) SIZEOF_STRUCT_MEM = ?E - m - SIZEOF_STRUCT_MEM" by (simp add: sub32_le)
  have c: "\<not> (malloc_size n > ?E \<or> malloc_size n < n)" "m + SIZEOF_STRUCT_MEM < ?E"
    using n le by (auto simp: mem_consts)
  have "malloc_size n > ?E - m - SIZEOF_STRUCT_MEM \<longleftrightarrow> \<not> m + SIZEOF_STRUCT_MEM + malloc_size n \<le> ?E"
    "malloc_size n + SIZEOF_STRUCT_MEM + MIN_SIZE_ALIGNED \<le> ?E - m - SIZEOF_STRUCT_MEM
      \<longleftrightarrow> \<not> ?E < m + SIZEOF_STRUCT_MEM + malloc_size n + 24"
    using le malloc_size_props(1) [of n] by (auto simp: mem_consts)
  then show ?thesis
    unfolding mem_trim_def malloc_size_def [symmetric] Let_def using c E
    by (auto simp: is_used_def nl sub)
qed

lemma mem_trim_preserves:
  assumes "heap_ok h" "live h p = Some k" "mem_trim p n h = Inr (r, h')"
  shows "heap_ok h'"
proof -
  obtain bs where inv: "heap_inv h bs" using assms(1) by (auto simp: heap_ok_def)
  obtain m where m: "m \<in> set bs" "is_used h m" and p: "p = m + SIZEOF_STRUCT_MEM"
    using live_blocks_Some [OF inv assms(2)] by blast
  let ?n = "hdr_next (hdr h m)"
  have le: "m + 24 \<le> ?n" "?n \<le> MEM_SIZE_ALIGNED" and s: "seg (hdr h) 0 0 bs MEM_SIZE_ALIGNED"
    using inv seg_bounds [of "hdr h" 0 0 bs MEM_SIZE_ALIGNED m] m by (auto simp: heap_inv_def)
  then have "m \<le> ?n" "SIZEOF_STRUCT_MEM \<le> ?n - m" "?n < 2 ^ 32" by (auto simp: mem_consts)
  then have sub: "sub32 (sub32 ?n m) SIZEOF_STRUCT_MEM = ?n - m - SIZEOF_STRUCT_MEM" by (simp add: sub32_le)
  show ?thesis
  proof (cases "malloc_size n > MEM_SIZE_ALIGNED \<or> malloc_size n < n")
    case True
    then have "h' = h" using assms(3) by (simp add: mem_trim_def malloc_size_def [symmetric] Let_def)
    then show ?thesis using assms(1) by simp
  next
    case False
    then have fit: "m + SIZEOF_STRUCT_MEM + malloc_size n \<le> ?n"
      using assms(3) le unfolding p mem_trim_def malloc_size_def [symmetric] Let_def
      by (auto simp: sub split: if_splits) (auto simp: mem_consts)
    then show ?thesis
      using mem_trim_inv [OF inv m _ fit] mem_trim_last [OF inv m(1)] assms(1,3) False
      by (cases "?n = MEM_SIZE_ALIGNED") (auto simp: p heap_ok_def split: if_splits)
  qed
qed

text \<open>
  The heaps the stack can get to: \<open>mem_init\<close>, then any sequence of allocations and of releases
  and trims of live blocks.
\<close>

inductive heap_reach :: "heap \<Rightarrow> bool" where
  init: "heap_reach (mem_init h)"
| malloc: "heap_reach h \<Longrightarrow> mem_malloc n h = Inr (r, h') \<Longrightarrow> heap_reach h'"
| free: "heap_reach h \<Longrightarrow> live h p = Some k \<Longrightarrow> mem_free (Some p) h = Inr h' \<Longrightarrow> heap_reach h'"
| trim: "heap_reach h \<Longrightarrow> live h p = Some k \<Longrightarrow> mem_trim p n h = Inr (r, h') \<Longrightarrow> heap_reach h'"

lemma heap_reach_ok: "heap_reach h \<Longrightarrow> heap_ok h"
proof (induction rule: heap_reach.induct)
  case (init h)
  then show ?case using mem_init_inv heap_ok_def by blast
next
  case (malloc h n r h')
  then show ?case using lwip_heap.malloc_ok [of h n] by auto
next
  case (free h p k h')
  then show ?case using lwip_heap.release_ok [of h p k] by auto
next
  case (trim h p k n r h')
  then show ?case using mem_trim_preserves by blast
qed

section \<open>Properties\<close>

text \<open>A heap to evaluate on.\<close>

definition heap0 :: heap where
  "heap0 = mem_init \<lparr>hdr = (\<lambda>_. \<lparr>hdr_next = 0, hdr_prev = 0, hdr_used = False\<rparr>), lfree = 0\<rparr>"

lemma heap0_inv: "heap_inv heap0 [0]"
  unfolding heap0_def by (rule mem_init_inv)

lemma heap0_reach: "heap_reach heap0"
  unfolding heap0_def by (rule heap_reach.init)

lemma heap0_fits: "find (block_fits heap0 (malloc_size 100)) [0] = Some 0"
  by (simp add: block_fits_def heap0_def mem_init_def is_used_def malloc_size_def
      LWIP_MEM_ALIGN_SIZE_def mem_consts)

definition heap1 :: heap where
  "heap1 = (case mem_malloc 100 heap0 of Inr (r, h) \<Rightarrow> h | Inl e \<Rightarrow> heap0)"

lemma heap1_hdr:
  "mem_malloc 100 heap0 = Inr (Some 12, heap1)"
  "hdr heap1 0 = \<lparr>hdr_next = 112, hdr_prev = 0, hdr_used = True\<rparr>"
  "hdr heap1 112 = \<lparr>hdr_next = 262144, hdr_prev = 0, hdr_used = False\<rparr>"
  "hdr_used (hdr heap1 262144)" "lfree heap1 = 112"
proof -
  have scan: "mem_scan heap0 (malloc_size 100) 0 = Some (Some 0)"
    using mem_scan_from_lfree [OF heap0_inv, of "malloc_size 100"] heap0_fits
    by (simp add: heap0_def mem_init_def malloc_size_def LWIP_MEM_ALIGN_SIZE_def mem_consts)
  have sz: "malloc_size 100 = 100" by (simp add: malloc_size_def LWIP_MEM_ALIGN_SIZE_def mem_consts)
  let ?h = "set_used 0 True (mem_trim_split 0 112 262144 heap0)"
  have take: "mem_take_block 0 100 heap0 = Inr ?h"
    by (simp add: mem_take_block_def heap0_def mem_init_def sub32_def Let_def mem_consts)
  have lf: "mem_next_free ?h 0 = Some 112"
    by (subst mem_next_free.simps, subst mem_next_free.simps)
       (simp add: mem_trim_split_def heap0_def mem_init_def Let_def mem_consts)
  have m: "mem_malloc 100 heap0 = Inr (Some 12, ?h\<lparr>lfree := 112\<rparr>)"
    using scan [unfolded sz] take lf
    by (simp add: mem_malloc_def LWIP_MEM_ALIGN_SIZE_def Let_def mem_adjust_lfree_def
        mem_trim_split_def heap0_def mem_init_def mem_consts MEM_ALIGNMENT_def)
  then have h1: "heap1 = ?h\<lparr>lfree := 112\<rparr>" by (simp add: heap1_def)
  show "mem_malloc 100 heap0 = Inr (Some 12, heap1)" using m h1 by simp
  show "hdr heap1 0 = \<lparr>hdr_next = 112, hdr_prev = 0, hdr_used = True\<rparr>"
    "hdr heap1 112 = \<lparr>hdr_next = 262144, hdr_prev = 0, hdr_used = False\<rparr>"
    "hdr_used (hdr heap1 262144)" "lfree heap1 = 112"
    unfolding h1 by (simp_all add: mem_trim_split_def heap0_def mem_init_def Let_def mem_consts)
qed

lemma heap1_inv: "heap_inv heap1 [0, 112]"
  by (simp add: heap_inv_def coalesced_def is_used_def heap1_hdr mem_consts)

lemma heap1_fits: "find (block_fits heap1 (malloc_size 100)) [0, 112] = Some 112"
  by (simp add: block_fits_def is_used_def heap1_hdr malloc_size_def LWIP_MEM_ALIGN_SIZE_def mem_consts)

lemma heap1_live: "live heap1 12 = Some 100"
  by (simp add: live_eq [OF heap1_inv] live_blocks_def is_used_def heap1_hdr mem_consts)

lemma request_100: "request_ok 100"
  by (simp add: request_ok_def malloc_size_def LWIP_MEM_ALIGN_SIZE_def mem_consts)

text \<open>
  C33: In every heap that lwIP can reach, the block headers tile the 256 KiB array exactly, the
  backward links mirror the forward ones, no two neighbouring blocks are both free and \<open>lfree\<close>
  is the lowest free block.
\<close>

theorem heap_partition:
  "heap_reach h \<Longrightarrow> \<exists>bs. seg (hdr h) 0 0 bs MEM_SIZE_ALIGNED \<and> coalesced h bs
    \<and> lfree h = lowest_free h bs"
  using heap_reach_ok by (auto simp: heap_ok_def heap_inv_def)

theorem heap_partition_witness:
  "\<exists>bs. seg (hdr heap0) 0 0 bs MEM_SIZE_ALIGNED \<and> coalesced heap0 bs \<and> lfree heap0 = lowest_free heap0 bs"
  by (rule heap_partition) (rule heap0_reach)

text \<open>
  \<open>mem_malloc\<close> is first fit and complete: on a well-formed heap it ends without a fault, and
  for an admissible request it answers the first free block with room for the aligned size, and
  NULL only when there is none.
\<close>

theorem mem_malloc_first_fit:
  assumes "heap_inv h bs" "request_ok n"
  shows "\<exists>h'. mem_malloc n h =
    Inr (map_option (\<lambda>a. a + SIZEOF_STRUCT_MEM) (find (block_fits h (malloc_size n)) bs), h')"
  using mem_malloc_full [OF assms] mem_malloc_fits [OF assms]
  by (cases "find (block_fits h (malloc_size n)) bs") auto

theorem mem_malloc_first_fit_witness: "\<exists>h'. mem_malloc 100 heap1 = Inr (Some 124, h')"
  using mem_malloc_first_fit [OF heap1_inv request_100] unfolding heap1_fits by (simp add: mem_consts)

text \<open>
  Releasing a block that \<open>mem_malloc\<close> returned succeeds, keeps the heap well formed and
  leaves exactly the blocks live that were live before the allocation.
\<close>

theorem mem_malloc_free:
  "heap_ok h \<Longrightarrow> mem_malloc n h = Inr (Some p, h') \<Longrightarrow>
    \<exists>h''. mem_free (Some p) h' = Inr h'' \<and> heap_ok h'' \<and> live h'' = live h"
  by (rule lwip_heap.malloc_release)

theorem mem_malloc_free_witness:
  "\<exists>h2. mem_malloc 100 heap0 = Inr (Some 12, heap1) \<and> mem_free (Some 12) heap1 = Inr h2
    \<and> heap_ok h2 \<and> live h2 = live heap0"
  using mem_malloc_free [of heap0 100 12 heap1] heap0_inv heap1_hdr(1) by (auto simp: heap_ok_def)

text \<open>
  The block \<open>mem_malloc\<close> returns shares no byte with any block that is live, so no two owners
  of heap memory alias.
\<close>

theorem mem_malloc_no_overlap:
  "heap_reach h \<Longrightarrow> mem_malloc n h = Inr (Some p, h') \<Longrightarrow> live h q = Some m \<Longrightarrow>
    {p..<p + n} \<inter> {q..<q + m} = {}"
  by (rule lwip_heap.malloc_fresh [OF heap_reach_ok])

theorem mem_malloc_no_overlap_witness:
  "\<exists>h2. mem_malloc 100 heap1 = Inr (Some 124, h2) \<and> live heap1 12 = Some 100
    \<and> {124..<124 + 100} \<inter> {12..<12 + 100} = ({} :: nat set)"
proof -
  obtain h2 where h2: "mem_malloc 100 heap1 = Inr (Some 124, h2)"
    using mem_malloc_fits [OF heap1_inv request_100 heap1_fits] by (auto simp: mem_consts)
  have "heap_reach heap1" using heap0_reach heap1_hdr(1) by (rule heap_reach.malloc)
  from mem_malloc_no_overlap [OF this h2 heap1_live] h2 heap1_live show ?thesis by blast
qed

end
