(* ===== verification/Pbuf.thy ===== *)
theory Pbuf
  imports Mem
begin

text \<open>
  Packet buffers (lwip/src/core/pbuf.c, lwip/pbuf.h) in the configuration of src/lwipopts.h.
  A pointer to a pbuf is modelled by the chain it heads, the list of the pbufs reachable through
  \<open>next\<close>, and NULL by the empty list; the bytes a pbuf may touch are its buffer \<open>pbuf_mem\<close>, into
  which \<open>payload\<close> is an offset. Allocation and release go through the pools and the heap of the
  theories Memp and Mem.
\<close>

section \<open>Data\<close>

record pbuf =
  pbuf_addr :: nat      \<comment> \<open>address of the structure in its pool, or offset in the heap\<close>
  pbuf_mem :: bytes     \<comment> \<open>the bytes behind the structure, or the referenced memory\<close>
  payload :: nat
  tot_len :: u16
  p_len :: u16
  type_internal :: u8
  p_flags :: u8
  p_ref :: u8
  if_idx :: u8

type_synonym chain = "pbuf list"

datatype pbuf_layer = PBUF_TRANSPORT | PBUF_IP | PBUF_LINK | PBUF_RAW_TX | PBUF_RAW
datatype pbuf_type = PBUF_RAM | PBUF_ROM | PBUF_REF | PBUF_POOL

text \<open>
  \<open>PBUF_LINK_ENCAPSULATION_HLEN\<close> is 0, \<open>PBUF_LINK_HLEN\<close> 14, \<open>PBUF_IP_HLEN\<close> 40 (IPv6) and
  \<open>PBUF_TRANSPORT_HLEN\<close> 20.
\<close>

fun layer_offset :: "pbuf_layer \<Rightarrow> u16" where
  "layer_offset PBUF_TRANSPORT = 74"
| "layer_offset PBUF_IP = 54"
| "layer_offset PBUF_LINK = 14"
| "layer_offset PBUF_RAW_TX = 0"
| "layer_offset PBUF_RAW = 0"

text \<open>The low byte of the type constants, which is what \<open>type_internal\<close> keeps.\<close>

fun pbuf_type_u8 :: "pbuf_type \<Rightarrow> u8" where
  "pbuf_type_u8 PBUF_RAM = 0x80"
| "pbuf_type_u8 PBUF_ROM = 0x01"
| "pbuf_type_u8 PBUF_REF = 0x41"
| "pbuf_type_u8 PBUF_POOL = 0x82"

definition PBUF_TYPE_FLAG_STRUCT_DATA_CONTIGUOUS :: u8 where
  "PBUF_TYPE_FLAG_STRUCT_DATA_CONTIGUOUS = 0x80"

definition pbuf_get_allocsrc :: "pbuf \<Rightarrow> u8" where
  "pbuf_get_allocsrc p = type_internal p AND 0x0F"

definition SIZEOF_STRUCT_PBUF :: nat where "SIZEOF_STRUCT_PBUF = 16"
definition PBUF_POOL_BUFSIZE_ALIGNED :: nat where "PBUF_POOL_BUFSIZE_ALIGNED = 1400"
definition NETIF_NO_INDEX :: u8 where "NETIF_NO_INDEX = 0"

record alloc_state =
  al_memp :: memp_state
  al_heap :: heap

section \<open>Allocation and release\<close>

definition pbuf_init_alloced_pbuf ::
  "nat \<Rightarrow> bytes \<Rightarrow> nat \<Rightarrow> u16 \<Rightarrow> u16 \<Rightarrow> pbuf_type \<Rightarrow> u8 \<Rightarrow> pbuf" where
  "pbuf_init_alloced_pbuf addr mem pl tlen ln type fl =
     \<lparr>pbuf_addr = addr, pbuf_mem = mem, payload = pl, tot_len = tlen, p_len = ln,
      type_internal = pbuf_type_u8 type, p_flags = fl, p_ref = 1, if_idx = NETIF_NO_INDEX\<rparr>"

definition dealloc_pbuf :: "pbuf \<Rightarrow> alloc_state \<Rightarrow> alloc_state result" where
  "dealloc_pbuf p s =
     (if pbuf_get_allocsrc p = 2
      then map_sum id (\<lambda>m. s\<lparr>al_memp := m\<rparr>) (memp_free MEMP_PBUF_POOL (pbuf_addr p) (al_memp s))
      else if pbuf_get_allocsrc p = 1
      then map_sum id (\<lambda>m. s\<lparr>al_memp := m\<rparr>) (memp_free MEMP_PBUF (pbuf_addr p) (al_memp s))
      else if pbuf_get_allocsrc p = 0
      then map_sum id (\<lambda>h. s\<lparr>al_heap := h\<rparr>) (mem_free (Some (pbuf_addr p)) (al_heap s))
      else Inl AssertFail)"

text \<open>\<open>pbuf_free\<close> returns the number of released pbufs and what is left of the chain.\<close>

fun pbuf_free_loop :: "u8 \<Rightarrow> chain \<Rightarrow> alloc_state \<Rightarrow> (u8 \<times> chain \<times> alloc_state) result" where
  "pbuf_free_loop cnt [] s = Inr (cnt, [], s)"
| "pbuf_free_loop cnt (p # ps) s =
     (if p_ref p = 0 then Inl AssertFail
      else if p_ref p - 1 = 0 then
        (case dealloc_pbuf p s of
           Inl e \<Rightarrow> Inl e
         | Inr s' \<Rightarrow> pbuf_free_loop (cnt + 1) ps s')
      else Inr (cnt, p\<lparr>p_ref := p_ref p - 1\<rparr> # ps, s))"

definition pbuf_free :: "chain \<Rightarrow> alloc_state \<Rightarrow> (u8 \<times> chain \<times> alloc_state) result" where
  "pbuf_free p s = (if p = [] then Inl AssertFail else pbuf_free_loop 0 p s)"

definition pbuf_alloc_reference ::
  "bytes \<Rightarrow> nat \<Rightarrow> u16 \<Rightarrow> pbuf_type \<Rightarrow> alloc_state \<Rightarrow> (chain \<times> alloc_state) result" where
  "pbuf_alloc_reference mem pl n type s =
     (if type = PBUF_REF \<or> type = PBUF_ROM then
        (case memp_malloc MEMP_PBUF (al_memp s) of
           Inl e \<Rightarrow> Inl e
         | Inr (None, m) \<Rightarrow> Inr ([], s\<lparr>al_memp := m\<rparr>)
         | Inr (Some a, m) \<Rightarrow>
             Inr ([pbuf_init_alloced_pbuf a mem pl n n type 0], s\<lparr>al_memp := m\<rparr>))
      else Inl AssertFail)"

text \<open>
  The \<open>do\<close> loop of \<open>pbuf_alloc\<close> for \<open>PBUF_POOL\<close>: \<open>p\<close> is the chain so far. The contents of fresh
  memory are unknown; they are what \<open>uninit\<close> says.
\<close>

definition pool_room :: "u16 \<Rightarrow> u16" where
  "pool_room off = of_nat PBUF_POOL_BUFSIZE_ALIGNED - of_nat (LWIP_MEM_ALIGN_SIZE (unat off))"

function pbuf_pool_loop ::
  "(nat \<Rightarrow> bytes) \<Rightarrow> chain \<Rightarrow> u16 \<Rightarrow> u16 \<Rightarrow> alloc_state \<Rightarrow> (chain \<times> alloc_state) result" where
  "pbuf_pool_loop uninit p rem_len off s =
     (case memp_malloc MEMP_PBUF_POOL (al_memp s) of
        Inl e \<Rightarrow> Inl e
      | Inr (None, m) \<Rightarrow>
          (if p \<noteq> [] then
             (case pbuf_free p (s\<lparr>al_memp := m\<rparr>) of
                Inl e \<Rightarrow> Inl e
              | Inr (cnt, rest, s') \<Rightarrow> Inr ([], s'))
           else Inr ([], s\<lparr>al_memp := m\<rparr>))
      | Inr (Some q, m) \<Rightarrow>
          (let qlen = min rem_len (pool_room off);
               qb = pbuf_init_alloced_pbuf q (uninit PBUF_POOL_BUFSIZE_ALIGNED)
                      (LWIP_MEM_ALIGN_SIZE (unat off)) rem_len qlen PBUF_POOL 0
           in if pool_room off = 0 then Inl AssertFail
              else if rem_len - qlen = 0 then Inr (p @ [qb], s\<lparr>al_memp := m\<rparr>)
              else pbuf_pool_loop uninit (p @ [qb]) (rem_len - qlen) 0 (s\<lparr>al_memp := m\<rparr>)))"
  by pat_completeness auto

lemma rem_len_decreases:
  "d \<noteq> 0 \<Longrightarrow> r - min r d \<noteq> 0 \<Longrightarrow> unat (r - min r d) < unat (r :: 'a::len word)"
  by (auto simp: min_def unat_sub word_le_nat_alt unat_gt_0 split: if_splits)
     (metis diff_less unat_gt_0 le_zero_eq linorder_not_le nat_le_linear neq0_conv unat_0_iff)

termination pbuf_pool_loop
  by (relation "measure (\<lambda>(uninit, p, rem_len, off, s). unat rem_len)")
     (auto intro: rem_len_decreases)

declare pbuf_pool_loop.simps [simp del]

definition pbuf_alloc ::
  "(nat \<Rightarrow> bytes) \<Rightarrow> pbuf_layer \<Rightarrow> u16 \<Rightarrow> pbuf_type \<Rightarrow> alloc_state \<Rightarrow> (chain \<times> alloc_state) result" where
  "pbuf_alloc uninit layer n type s =
     (case type of
        PBUF_REF \<Rightarrow> pbuf_alloc_reference [] 0 n type s
      | PBUF_ROM \<Rightarrow> pbuf_alloc_reference [] 0 n type s
      | PBUF_POOL \<Rightarrow> pbuf_pool_loop uninit [] n (layer_offset layer) s
      | PBUF_RAM \<Rightarrow>
          (let off = LWIP_MEM_ALIGN_SIZE (unat (layer_offset layer));
               payload_len = (off + LWIP_MEM_ALIGN_SIZE (unat n)) mod 2 ^ 32;
               alloc_len = (LWIP_MEM_ALIGN_SIZE SIZEOF_STRUCT_PBUF + payload_len) mod 2 ^ 32
           in if payload_len < LWIP_MEM_ALIGN_SIZE (unat n)
                 \<or> alloc_len < LWIP_MEM_ALIGN_SIZE (unat n) then Inr ([], s)
              else
                (case mem_malloc alloc_len (al_heap s) of
                   Inl e \<Rightarrow> Inl e
                 | Inr (None, h) \<Rightarrow> Inr ([], s\<lparr>al_heap := h\<rparr>)
                 | Inr (Some a, h) \<Rightarrow>
                     Inr ([pbuf_init_alloced_pbuf a (uninit payload_len) off n n PBUF_RAM 0],
                          s\<lparr>al_heap := h\<rparr>))))"

section \<open>Reference counts and chaining\<close>

definition pbuf_ref :: "chain \<Rightarrow> chain result" where
  "pbuf_ref c =
     (case c of
        [] \<Rightarrow> Inr []
      | p # ps \<Rightarrow>
          (if p_ref p + 1 = 0 then Inl AssertFail else Inr (p\<lparr>p_ref := p_ref p + 1\<rparr> # ps)))"

definition pbuf_clen :: "chain \<Rightarrow> u16" where
  "pbuf_clen c = of_nat (length c)"

fun pbuf_cat_loop :: "u16 \<Rightarrow> chain \<Rightarrow> chain result" where
  "pbuf_cat_loop t_len [] = Inr []"
| "pbuf_cat_loop t_len [p] =
     (if tot_len p = p_len p then Inr [p\<lparr>tot_len := tot_len p + t_len\<rparr>] else Inl AssertFail)"
| "pbuf_cat_loop t_len (p # q # ps) =
     map_sum id (Cons (p\<lparr>tot_len := tot_len p + t_len\<rparr>)) (pbuf_cat_loop t_len (q # ps))"

text \<open>\<open>pbuf_cat\<close> returns the new head chain; with a NULL argument it does nothing.\<close>

definition pbuf_cat :: "chain \<Rightarrow> chain \<Rightarrow> chain result" where
  "pbuf_cat h t =
     (case t of
        [] \<Rightarrow> Inr h
      | q # _ \<Rightarrow> (if h = [] then Inr [] else map_sum id (\<lambda>h'. h' @ t) (pbuf_cat_loop (tot_len q) h)))"

text \<open>\<open>pbuf_chain\<close> returns both chains: the tail's first pbuf carries one reference more.\<close>

definition pbuf_chain :: "chain \<Rightarrow> chain \<Rightarrow> (chain \<times> chain) result" where
  "pbuf_chain h t =
     (case pbuf_cat h t of
        Inl e \<Rightarrow> Inl e
      | Inr c \<Rightarrow>
          (case pbuf_ref t of
             Inl e \<Rightarrow> Inl e
           | Inr t' \<Rightarrow> Inr (if h = [] \<or> t = [] then c else take (length h) c @ t', t')))"

text \<open>\<open>pbuf_dechain\<close>: the first pbuf on its own, what is left of the tail, and the returned pointer.\<close>

definition pbuf_dechain :: "chain \<Rightarrow> alloc_state \<Rightarrow> (pbuf \<times> chain \<times> bool \<times> alloc_state) result" where
  "pbuf_dechain c s =
     (case c of
        [] \<Rightarrow> Inl NullDeref
      | [p] \<Rightarrow> (if tot_len p = p_len p then Inr (p, [], False, s) else Inl AssertFail)
      | p # q # qs \<Rightarrow>
          (if int (unat (tot_len q)) \<noteq> int (unat (tot_len p)) - int (unat (p_len p)) then Inl AssertFail
           else
             (case pbuf_free (q\<lparr>tot_len := tot_len p - p_len p\<rparr> # qs) s of
                Inl e \<Rightarrow> Inl e
              | Inr (tail_gone, rest, s') \<Rightarrow>
                  Inr (p\<lparr>tot_len := p_len p\<rparr>, rest, \<not> tail_gone > 0, s'))))"

section \<open>Shrinking and headers\<close>

fun pbuf_realloc_loop ::
  "u16 \<Rightarrow> u16 \<Rightarrow> chain \<Rightarrow> alloc_state \<Rightarrow> (chain \<times> alloc_state) result" where
  "pbuf_realloc_loop rem_len shrink [] s = Inl AssertFail"
| "pbuf_realloc_loop rem_len shrink (q # qs) s =
     (if rem_len > p_len q then
        map_sum id (apfst (Cons (q\<lparr>tot_len := tot_len q - shrink\<rparr>)))
          (pbuf_realloc_loop (rem_len - p_len q) shrink qs s)
      else
        (let trimmed =
               (if pbuf_get_allocsrc q = 0 \<and> rem_len \<noteq> p_len q then
                  (case mem_trim (pbuf_addr q) (SIZEOF_STRUCT_PBUF + payload q + unat rem_len) (al_heap s) of
                     Inl e \<Rightarrow> Inl e
                   | Inr (None, h) \<Rightarrow> Inl AssertFail
                   | Inr (Some r, h) \<Rightarrow>
                       (if r = pbuf_addr q
                        then Inr (q\<lparr>pbuf_mem := take (payload q + unat rem_len) (pbuf_mem q)\<rparr>, s\<lparr>al_heap := h\<rparr>)
                        else Inl AssertFail))
                else Inr (q, s))
         in case trimmed of
              Inl e \<Rightarrow> Inl e
            | Inr (q1, s1) \<Rightarrow>
                (let q2 = q1\<lparr>p_len := rem_len, tot_len := rem_len\<rparr>
                 in if qs \<noteq> [] then
                      (case pbuf_free qs s1 of Inl e \<Rightarrow> Inl e | Inr (cnt, rest, s2) \<Rightarrow> Inr ([q2], s2))
                    else Inr ([q2], s1))))"

definition pbuf_realloc :: "chain \<Rightarrow> u16 \<Rightarrow> alloc_state \<Rightarrow> (chain \<times> alloc_state) result" where
  "pbuf_realloc c new_len s =
     (case c of
        [] \<Rightarrow> Inl AssertFail
      | p # _ \<Rightarrow>
          (if new_len \<ge> tot_len p then Inr (c, s)
           else pbuf_realloc_loop new_len (tot_len p - new_len) c s))"

text \<open>The header functions return the C status (\<open>False\<close> for 0, success) and the new head.\<close>

definition pbuf_add_header_impl :: "pbuf \<Rightarrow> u32 \<Rightarrow> bool \<Rightarrow> (bool \<times> pbuf) result" where
  "pbuf_add_header_impl p header_size_increment force =
     (let inc = (ucast header_size_increment :: u16) in
      if header_size_increment > 0xFFFF then Inr (True, p)
      else if header_size_increment = 0 then Inr (False, p)
      else if inc + tot_len p < inc then Inr (True, p)
      else if type_internal p AND PBUF_TYPE_FLAG_STRUCT_DATA_CONTIGUOUS \<noteq> 0 \<and> payload p < unat header_size_increment
      then Inr (True, p)
      else if type_internal p AND PBUF_TYPE_FLAG_STRUCT_DATA_CONTIGUOUS = 0 \<and> \<not> force then Inr (True, p)
      else if payload p < unat header_size_increment then Inl OutOfBounds
      else Inr (False, p\<lparr>payload := payload p - unat header_size_increment,
                        p_len := p_len p + inc, tot_len := tot_len p + inc\<rparr>))"

definition pbuf_add_header :: "pbuf \<Rightarrow> u32 \<Rightarrow> (bool \<times> pbuf) result" where
  "pbuf_add_header p n = pbuf_add_header_impl p n False"

definition pbuf_add_header_force :: "pbuf \<Rightarrow> u32 \<Rightarrow> (bool \<times> pbuf) result" where
  "pbuf_add_header_force p n = pbuf_add_header_impl p n True"

definition pbuf_remove_header :: "pbuf \<Rightarrow> u32 \<Rightarrow> bool \<times> pbuf" where
  "pbuf_remove_header p header_size_decrement =
     (let dec = (ucast header_size_decrement :: u16) in
      if header_size_decrement > 0xFFFF then (True, p)
      else if header_size_decrement = 0 then (False, p)
      else if \<not> dec \<le> p_len p then (True, p)
      else (False, p\<lparr>payload := payload p + unat header_size_decrement,
                     p_len := p_len p - dec, tot_len := tot_len p - dec\<rparr>))"

definition pbuf_header_impl :: "pbuf \<Rightarrow> 16 word \<Rightarrow> bool \<Rightarrow> (bool \<times> pbuf) result" where
  "pbuf_header_impl p inc force =
     (if sint inc < 0 then Inr (pbuf_remove_header p (- (scast inc)))
      else pbuf_add_header_impl p (ucast inc) force)"

definition pbuf_header :: "pbuf \<Rightarrow> 16 word \<Rightarrow> (bool \<times> pbuf) result" where
  "pbuf_header p inc = pbuf_header_impl p inc False"

definition pbuf_header_force :: "pbuf \<Rightarrow> 16 word \<Rightarrow> (bool \<times> pbuf) result" where
  "pbuf_header_force p inc = pbuf_header_impl p inc True"

fun pbuf_free_header :: "chain \<Rightarrow> u16 \<Rightarrow> alloc_state \<Rightarrow> (chain \<times> alloc_state) result" where
  "pbuf_free_header [] free_left s = Inr ([], s)"
| "pbuf_free_header (p # ps) free_left s =
     (if free_left = 0 then Inr (p # ps, s)
      else if free_left \<ge> p_len p then
        (case pbuf_free [p] s of
           Inl e \<Rightarrow> Inl e
         | Inr (cnt, rest, s') \<Rightarrow> pbuf_free_header ps (free_left - p_len p) s')
      else Inr (snd (pbuf_remove_header p (ucast free_left)) # ps, s))"

section \<open>Well-formed chains and their contents\<close>

definition pbuf_bytes :: "pbuf \<Rightarrow> bytes" where
  "pbuf_bytes p = take (unat (p_len p)) (drop (payload p) (pbuf_mem p))"

definition chain_data :: "chain \<Rightarrow> bytes" where
  "chain_data c = concat (map pbuf_bytes c)"

definition chain_len :: "chain \<Rightarrow> nat" where
  "chain_len c = sum_list (map (\<lambda>p. unat (p_len p)) c)"

text \<open>
  The invariant lwip/pbuf.h documents for a chain that is one packet: \<open>tot_len\<close> is the length of
  this pbuf and all that follow; the payload lies inside the buffer, and every pbuf is referenced.
\<close>

fun chain_ok :: "chain \<Rightarrow> bool" where
  "chain_ok [] \<longleftrightarrow> True"
| "chain_ok (p # ps) \<longleftrightarrow>
     payload p + unat (p_len p) \<le> length (pbuf_mem p)
     \<and> unat (tot_len p) = unat (p_len p) + chain_len ps \<and> p_ref p \<noteq> 0 \<and> chain_ok ps"

lemma chain_len_simps [simp]:
  "chain_len [] = 0" "chain_len (p # ps) = unat (p_len p) + chain_len ps"
  "chain_len (c @ d) = chain_len c + chain_len d"
  by (simp_all add: chain_len_def)

lemma chain_data_simps [simp]:
  "chain_data [] = []" "chain_data (p # ps) = pbuf_bytes p @ chain_data ps"
  "chain_data (c @ d) = chain_data c @ chain_data d"
  by (simp_all add: chain_data_def)

lemma length_pbuf_bytes [chain_simps]:
  "payload p + unat (p_len p) \<le> length (pbuf_mem p) \<Longrightarrow> length (pbuf_bytes p) = unat (p_len p)"
  by (simp add: pbuf_bytes_def)

lemma length_chain_data [chain_simps]: "chain_ok c \<Longrightarrow> length (chain_data c) = chain_len c"
  by (induction c) (simp_all add: chain_simps)

lemma chain_len_u16: "chain_ok c \<Longrightarrow> chain_len c < 65536"
proof (cases c)
  case (Cons p ps)
  assume "chain_ok c"
  with Cons have "chain_len c = unat (tot_len p)" by simp
  then show ?thesis using unsigned_less [of "tot_len p"] by simp
qed simp

lemma chain_ok_appendD: "chain_ok (c @ d) \<Longrightarrow> chain_ok d"
  by (induction c) auto

lemma chain_ok_payload: "chain_ok c \<Longrightarrow> p \<in> set c \<Longrightarrow> payload p + unat (p_len p) \<le> length (pbuf_mem p)"
  by (induction c) auto

lemma pbuf_bytes_read:
  assumes "payload p + unat (p_len p) \<le> length (pbuf_mem p)" "off + n \<le> unat (p_len p)"
  shows "mem_read (pbuf_mem p) (payload p + off) n = Inr (take n (drop off (pbuf_bytes p)))"
proof -
  have "take n (drop off (pbuf_bytes p)) = take n (drop (payload p + off) (pbuf_mem p))"
    using assms by (simp add: pbuf_bytes_def drop_take min_def add.commute)
  with assms show ?thesis by (simp add: mem_read_def)
qed

section \<open>Heap pbufs\<close>

text \<open>Fresh memory has the size asked for; \<open>zeros\<close> is the instance of the sample runs.\<close>

definition fresh_ok :: "(nat \<Rightarrow> bytes) \<Rightarrow> bool" where
  "fresh_ok uninit \<longleftrightarrow> (\<forall>n. length (uninit n) = n)"

definition zeros :: "nat \<Rightarrow> bytes" where "zeros n = replicate n 0"

lemma zeros_fresh: "fresh_ok zeros"
  by (simp add: fresh_ok_def zeros_def)

lemma aligned_u16: "LWIP_MEM_ALIGN_SIZE (unat (n :: u16)) \<le> 65536" "unat n \<le> LWIP_MEM_ALIGN_SIZE (unat n)"
proof -
  have n: "unat n < 65536" using unsigned_less [of n] by simp
  then show "unat n \<le> LWIP_MEM_ALIGN_SIZE (unat n)" using aligned_size_ge [of "unat n"] by simp
  have "LWIP_MEM_ALIGN_SIZE (unat n) < 65540" "LWIP_MEM_ALIGN_SIZE (unat n) mod 4 = 0"
    using aligned_size_ge [of "unat n"] n by auto
  with n show "LWIP_MEM_ALIGN_SIZE (unat n) \<le> 65536" by presburger
qed

definition ram_len :: "pbuf_layer \<Rightarrow> u16 \<Rightarrow> nat" where
  "ram_len layer n = LWIP_MEM_ALIGN_SIZE (unat (layer_offset layer)) + LWIP_MEM_ALIGN_SIZE (unat n)"

text \<open>
  \<open>pbuf_alloc\<close> of a \<open>PBUF_RAM\<close> buffer: NULL with nothing changed, or one pbuf with room for the
  headers and the data, in a fresh heap block.
\<close>

lemma pbuf_alloc_ram:
  assumes ok: "heap_ok (al_heap s)"
  shows "\<exists>c s'. pbuf_alloc uninit layer n PBUF_RAM s = Inr (c, s') \<and> heap_ok (al_heap s')
    \<and> al_memp s' = al_memp s
    \<and> (c = [] \<and> s' = s
       \<or> (\<exists>a k. c = [pbuf_init_alloced_pbuf a (uninit (ram_len layer n))
              (LWIP_MEM_ALIGN_SIZE (unat (layer_offset layer))) n n PBUF_RAM 0]
          \<and> live (al_heap s) a = None \<and> live (al_heap s') = (live (al_heap s))(a \<mapsto> k)))"
proof -
  have off: "LWIP_MEM_ALIGN_SIZE (unat (layer_offset layer)) \<le> 76"
    by (cases layer) (simp_all add: LWIP_MEM_ALIGN_SIZE_def)
  have al: "LWIP_MEM_ALIGN_SIZE SIZEOF_STRUCT_PBUF = 16" by (simp add: SIZEOF_STRUCT_PBUF_def LWIP_MEM_ALIGN_SIZE_def)
  let ?len = "16 + ram_len layer n"
  obtain r h where m: "mem_malloc ?len (al_heap s) = Inr (r, h)" "heap_ok h"
    "case r of None \<Rightarrow> h = al_heap s
     | Some p \<Rightarrow> live (al_heap s) p = None \<and> (\<exists>k. ?len \<le> k \<and> live h = (live (al_heap s))(p \<mapsto> k))"
    using lwip_heap.malloc_ok [OF ok, of ?len] by blast
  then show ?thesis
    using off aligned_u16(1) [of n] by (cases r) (auto simp: pbuf_alloc_def Let_def al ram_len_def)
qed

lemma pbuf_free_ram:
  assumes ok: "heap_ok (al_heap s)" and p: "p_ref p = 1" "pbuf_get_allocsrc p = 0"
    and lv: "live (al_heap s) (pbuf_addr p) = Some k"
  shows "\<exists>h. pbuf_free [p] s = Inr (1, [], s\<lparr>al_heap := h\<rparr>) \<and> heap_ok h
    \<and> live h = (live (al_heap s))(pbuf_addr p := None)"
  using lwip_heap.release_ok [OF ok lv] p by (auto simp: pbuf_free_def dealloc_pbuf_def)

lemma allocsrc_init [simp]:
  "pbuf_get_allocsrc (pbuf_init_alloced_pbuf a m off n n' PBUF_RAM fl) = 0"
  by (simp add: pbuf_get_allocsrc_def pbuf_init_alloced_pbuf_def)

end
