(* ===== verification/Pbuf_Data.thy ===== *)
theory Pbuf_Data
  imports Pbuf
begin

text \<open>
  Access to the bytes of a pbuf chain (lwip/src/core/pbuf.c): copying out of, into and between
  chains, single bytes, comparison and search, and the functions built on them. The meaning of a
  chain is the byte string \<open>chain_data\<close>; every function is related to the list operation it
  stands for.
\<close>

section \<open>Operations\<close>

fun pbuf_skip_const :: "chain \<Rightarrow> u16 \<Rightarrow> chain \<times> u16" where
  "pbuf_skip_const [] off = ([], off)"
| "pbuf_skip_const (q # qs) off =
     (if p_len q \<le> off then pbuf_skip_const qs (off - p_len q) else (q # qs, off))"

definition pbuf_skip :: "chain \<Rightarrow> u16 \<Rightarrow> chain \<times> u16" where
  "pbuf_skip c off = pbuf_skip_const c off"

text \<open>\<open>pbuf_copy_partial\<close>: \<open>dst\<close> is the destination buffer, \<open>left\<close> the write position.\<close>

fun pbuf_copy_partial_loop ::
  "chain \<Rightarrow> bytes \<Rightarrow> u16 \<Rightarrow> u16 \<Rightarrow> u16 \<Rightarrow> u16 \<Rightarrow> (u16 \<times> bytes) result" where
  "pbuf_copy_partial_loop [] dst left n off copied = Inr (copied, dst)"
| "pbuf_copy_partial_loop (p # ps) dst left n off copied =
     (if n = 0 then Inr (copied, dst)
      else if off \<noteq> 0 \<and> off \<ge> p_len p
      then pbuf_copy_partial_loop ps dst left n (off - p_len p) copied
      else
        (let cl = min (p_len p - off) n in
         case mem_read (pbuf_mem p) (payload p + unat off) (unat cl) of
           Inl e \<Rightarrow> Inl e
         | Inr bs \<Rightarrow>
             (case mem_write dst (unat left) bs of
                Inl e \<Rightarrow> Inl e
              | Inr dst' \<Rightarrow> pbuf_copy_partial_loop ps dst' (left + cl) (n - cl) 0 (copied + cl))))"

definition pbuf_copy_partial :: "chain \<Rightarrow> bytes \<Rightarrow> u16 \<Rightarrow> u16 \<Rightarrow> (u16 \<times> bytes) result" where
  "pbuf_copy_partial buf dst n off =
     (if buf = [] then Inr (0, dst) else pbuf_copy_partial_loop buf dst 0 n off 0)"

text \<open>
  \<open>pbuf_get_contiguous\<close> returns the \<open>len\<close> bytes the returned pointer addresses and whether they
  were copied into \<open>buffer\<close>; \<open>None\<close> is NULL.
\<close>

definition pbuf_get_contiguous :: "chain \<Rightarrow> bytes \<Rightarrow> u16 \<Rightarrow> u16 \<Rightarrow> (bytes \<times> bytes) option result" where
  "pbuf_get_contiguous p buffer n off =
     (if p = [] then Inr None
      else if \<not> length buffer \<ge> unat n then Inr None
      else
        (case pbuf_skip_const p off of
           ([], out_offset) \<Rightarrow> Inr None
         | (q # qs, out_offset) \<Rightarrow>
             (if unat (p_len q) \<ge> unat out_offset + unat n
              then map_sum id (\<lambda>bs. Some (bs, buffer))
                     (mem_read (pbuf_mem q) (payload q + unat out_offset) (unat n))
              else
                (case pbuf_copy_partial (q # qs) buffer n out_offset of
                   Inl e \<Rightarrow> Inl e
                 | Inr (copied, buffer') \<Rightarrow>
                     (if copied \<noteq> n then Inr None else Inr (Some (take (unat n) buffer', buffer')))))))"

definition write_payload :: "pbuf \<Rightarrow> nat \<Rightarrow> bytes \<Rightarrow> pbuf result" where
  "write_payload p off bs =
     map_sum id (\<lambda>m. p\<lparr>pbuf_mem := m\<rparr>) (mem_write (pbuf_mem p) (payload p + off) bs)"

fun pbuf_take_loop :: "chain \<Rightarrow> bytes \<Rightarrow> chain result" where
  "pbuf_take_loop [] src = (if src = [] then Inr [] else Inl AssertFail)"
| "pbuf_take_loop (p # ps) src =
     (if src = [] then Inr (p # ps)
      else
        (case write_payload p 0 (take (unat (p_len p)) src) of
           Inl e \<Rightarrow> Inl e
         | Inr p' \<Rightarrow> map_sum id (Cons p') (pbuf_take_loop ps (drop (unat (p_len p)) src))))"

text \<open>\<open>pbuf_take\<close>: \<open>dataptr\<close> with length \<open>len\<close> is the byte list \<open>src\<close>.\<close>

definition pbuf_take :: "chain \<Rightarrow> bytes \<Rightarrow> (err_t \<times> chain) result" where
  "pbuf_take buf src =
     (case buf of
        [] \<Rightarrow> Inr (ERR_ARG, buf)
      | p # _ \<Rightarrow>
          (if \<not> unat (tot_len p) \<ge> length src then Inr (ERR_MEM, buf)
           else map_sum id (Pair ERR_OK) (pbuf_take_loop buf src)))"

text \<open>\<open>pbuf_take_at\<close>; the pbufs before the offset are kept as they are.\<close>

definition pbuf_take_at :: "chain \<Rightarrow> bytes \<Rightarrow> u16 \<Rightarrow> (err_t \<times> chain) result" where
  "pbuf_take_at buf src off =
     (case pbuf_skip buf off of
        ([], _) \<Rightarrow> Inr (ERR_MEM, buf)
      | (q # qs, target_offset) \<Rightarrow>
          (let before = take (length buf - Suc (length qs)) buf in
           if unat (tot_len q) \<ge> unat target_offset + length src then
             (let first_copy_len = min (unat (p_len q) - unat target_offset) (length src) in
              case write_payload q (unat target_offset) (take first_copy_len src) of
                Inl e \<Rightarrow> Inl e
              | Inr q' \<Rightarrow>
                  (if length src - first_copy_len > 0
                   then map_sum id (\<lambda>(r, qs'). (r, before @ q' # qs')) (pbuf_take qs (drop first_copy_len src))
                   else Inr (ERR_OK, before @ q' # qs)))
           else Inr (ERR_MEM, buf)))"

text \<open>\<open>pbuf_try_get_at\<close>: \<open>None\<close> is the result -1.\<close>

definition pbuf_try_get_at :: "chain \<Rightarrow> u16 \<Rightarrow> u8 option result" where
  "pbuf_try_get_at p off =
     (case pbuf_skip_const p off of
        ([], _) \<Rightarrow> Inr None
      | (q # _, q_idx) \<Rightarrow>
          (if p_len q > q_idx then map_sum id Some (mem_get (pbuf_mem q) (payload q + unat q_idx))
           else Inr None))"

definition pbuf_get_at :: "chain \<Rightarrow> u16 \<Rightarrow> u8 result" where
  "pbuf_get_at p off =
     map_sum id (\<lambda>r. case r of Some b \<Rightarrow> b | None \<Rightarrow> 0) (pbuf_try_get_at p off)"

definition pbuf_put_at :: "chain \<Rightarrow> u16 \<Rightarrow> u8 \<Rightarrow> chain result" where
  "pbuf_put_at p off b =
     (case pbuf_skip p off of
        ([], _) \<Rightarrow> Inr p
      | (q # qs, q_idx) \<Rightarrow>
          (if p_len q > q_idx
           then map_sum id (\<lambda>q'. take (length p - Suc (length qs)) p @ q' # qs)
                  (write_payload q (unat q_idx) [b])
           else Inr p))"

fun pbuf_memcmp_loop :: "chain \<Rightarrow> u16 \<Rightarrow> nat \<Rightarrow> bytes \<Rightarrow> u16 result" where
  "pbuf_memcmp_loop q start i [] = Inr 0"
| "pbuf_memcmp_loop q start i (b # bs) =
     (case pbuf_get_at q (start + of_nat i) of
        Inl e \<Rightarrow> Inl e
      | Inr a \<Rightarrow> (if a \<noteq> b then Inr (of_nat (min (i + 1) 0xFFFF)) else pbuf_memcmp_loop q start (Suc i) bs))"

definition pbuf_memcmp :: "chain \<Rightarrow> u16 \<Rightarrow> bytes \<Rightarrow> u16 result" where
  "pbuf_memcmp p off s2 =
     (case p of
        [] \<Rightarrow> Inl NullDeref
      | h # _ \<Rightarrow>
          (if unat (tot_len h) < unat off + length s2 then Inr 0xffff
           else (case pbuf_skip_const p off of (q, start) \<Rightarrow> pbuf_memcmp_loop q start 0 s2)))"

text \<open>\<open>pbuf_memfind\<close>: \<open>n\<close> counts the candidate positions left from \<open>i\<close> on.\<close>

fun pbuf_memfind_loop :: "chain \<Rightarrow> bytes \<Rightarrow> nat \<Rightarrow> u16 \<Rightarrow> u16 result" where
  "pbuf_memfind_loop p mem 0 i = Inr 0xFFFF"
| "pbuf_memfind_loop p mem (Suc n) i =
     (case pbuf_memcmp p i mem of
        Inl e \<Rightarrow> Inl e
      | Inr r \<Rightarrow> (if r = 0 then Inr i else pbuf_memfind_loop p mem n (i + 1)))"

definition pbuf_memfind :: "chain \<Rightarrow> bytes \<Rightarrow> u16 \<Rightarrow> u16 result" where
  "pbuf_memfind p mem start_offset =
     (case p of
        [] \<Rightarrow> Inl NullDeref
      | h # _ \<Rightarrow>
          (let max_cmp_start = tot_len h - of_nat (length mem) in
           if unat (tot_len h) \<ge> length mem + unat start_offset
           then pbuf_memfind_loop p mem (Suc (unat max_cmp_start) - unat start_offset) start_offset
           else Inr 0xFFFF))"

definition pbuf_strstr :: "chain \<Rightarrow> bytes \<Rightarrow> u16 result" where
  "pbuf_strstr p substr =
     (case p of
        [] \<Rightarrow> Inl NullDeref
      | h # _ \<Rightarrow>
          (if substr = [] \<or> tot_len h = 0xFFFF then Inr 0xFFFF
           else if length substr \<ge> 0xFFFF then Inr 0xFFFF
           else pbuf_memfind p substr 0))"

subsection \<open>Copying between chains\<close>

text \<open>
  The loop of \<open>pbuf_copy_partial_pbuf\<close>. \<open>done\<close> are the destination pbufs already filled; the
  \<open>size_t\<close> subtractions wrap at 32 bits.
\<close>

function (sequential) pbuf_copy_loop ::
  "chain \<Rightarrow> chain \<Rightarrow> nat \<Rightarrow> chain \<Rightarrow> nat \<Rightarrow> nat \<Rightarrow> (err_t \<times> chain) result" where
  "pbuf_copy_loop done (t # ts) offset_to (f # fs) offset_from n =
     (let room = sub32 (unat (p_len t)) offset_to;
          avail = sub32 (unat (p_len f)) offset_from;
          l = min n (if room \<ge> avail then avail else room)
      in case mem_read (pbuf_mem f) (payload f + offset_from) l of
           Inl e \<Rightarrow> Inl e
         | Inr bs \<Rightarrow>
             (case write_payload t offset_to bs of
                Inl e \<Rightarrow> Inl e
              | Inr t' \<Rightarrow>
                  (let n' = n - l;
                       from_end = (offset_from + l \<ge> unat (p_len f));
                       to_end = (offset_to + l = unat (p_len t));
                       from' = (if from_end then fs else f # fs);
                       to' = (if to_end then ts else t' # ts);
                       done' = (if to_end then done @ [t'] else done)
                   in if \<not> offset_to + l \<le> unat (p_len t) \<or> \<not> offset_from + l \<le> unat (p_len f)
                      then Inl AssertFail
                      else if from_end \<and> fs = [] \<and> n' \<noteq> 0 then Inr (ERR_ARG, done @ t' # ts)
                      else if to_end \<and> ts = [] \<and> n' \<noteq> 0 then Inr (ERR_ARG, done @ t' # ts)
                      else if (case from' of [] \<Rightarrow> False | x # xs \<Rightarrow> p_len x = tot_len x \<and> xs \<noteq> [])
                      then Inr (ERR_VAL, done @ t' # ts)
                      else if (case to' of [] \<Rightarrow> False | x # xs \<Rightarrow> p_len x = tot_len x \<and> xs \<noteq> [])
                      then Inr (ERR_VAL, done @ t' # ts)
                      else if n' = 0 then Inr (ERR_OK, done @ t' # ts)
                      else pbuf_copy_loop done' to' (if to_end then 0 else offset_to + l)
                             from' (if from_end then 0 else offset_from + l) n')))"
| "pbuf_copy_loop done to offset_to frm offset_from n = Inl NullDeref"
  by pat_completeness auto

lemma copy_step_progress:
  assumes "ot + l \<le> a" "off + l \<le> b" "a < 2 ^ 32" "b < 2 ^ 32"
    and "l = min n (if sub32 a ot \<ge> sub32 b off then sub32 b off else sub32 a ot)" "n - l \<noteq> 0"
  shows "b \<le> off + l \<or> ot + l = a"
proof -
  have "sub32 a ot = a - ot" "sub32 b off = b - off"
    using assms(1-4) by (auto intro: sub32_le)
  with assms(1,2,5,6) show ?thesis by (auto simp: min_def split: if_splits)
qed

lemma u16_less_32: "unat (x :: u16) < 2 ^ 32"
  using unsigned_less [of x] by (rule order_less_trans) simp

termination pbuf_copy_loop
proof (relation "measure (\<lambda>(done, to, ot, frm, off, n). length to + length frm)", goal_cases)
  case (2 don t ts ot f fs off n room avail l bs t' n' from_end to_end from' to' done')
  have "unat (p_len f) \<le> off + l \<or> ot + l = unat (p_len t)"
    by (rule copy_step_progress [where n = n]) (use 2 u16_less_32 in auto)
  then have "from_end \<or> to_end" using 2 by simp
  then show ?case using 2 by (auto split: if_splits)
qed simp

declare pbuf_copy_loop.simps [simp del]

definition pbuf_copy_partial_pbuf :: "chain \<Rightarrow> chain \<Rightarrow> u16 \<Rightarrow> u16 \<Rightarrow> (err_t \<times> chain) result" where
  "pbuf_copy_partial_pbuf p_to p_from copy_len off =
     (case p_from of
        [] \<Rightarrow> Inr (ERR_ARG, p_to)
      | f # _ \<Rightarrow>
          (if \<not> tot_len f \<ge> copy_len then Inr (ERR_ARG, p_to)
           else
             (case p_to of
                [] \<Rightarrow> Inr (ERR_ARG, p_to)
              | t # _ \<Rightarrow>
                  (if \<not> unat (tot_len t) \<ge> unat off + unat copy_len then Inr (ERR_ARG, p_to)
                   else pbuf_copy_loop [] p_to (unat off) p_from 0 (unat copy_len)))))"

definition pbuf_copy :: "chain \<Rightarrow> chain \<Rightarrow> (err_t \<times> chain) result" where
  "pbuf_copy p_to p_from =
     (case p_from of
        [] \<Rightarrow> Inr (ERR_ARG, p_to)
      | f # _ \<Rightarrow> pbuf_copy_partial_pbuf p_to p_from (tot_len f) 0)"

definition pbuf_clone ::
  "(nat \<Rightarrow> bytes) \<Rightarrow> pbuf_layer \<Rightarrow> pbuf_type \<Rightarrow> chain \<Rightarrow> alloc_state \<Rightarrow> (chain \<times> alloc_state) result" where
  "pbuf_clone uninit layer type p s =
     (case p of
        [] \<Rightarrow> Inl NullDeref
      | h # _ \<Rightarrow>
          (case pbuf_alloc uninit layer (tot_len h) type s of
             Inl e \<Rightarrow> Inl e
           | Inr (q, s') \<Rightarrow>
               (if q = [] then Inr ([], s')
                else
                  (case pbuf_copy q p of
                     Inl e \<Rightarrow> Inl e
                   | Inr (err, q') \<Rightarrow> (if err = ERR_OK then Inr (q', s') else Inl AssertFail)))))"

definition pbuf_coalesce ::
  "(nat \<Rightarrow> bytes) \<Rightarrow> chain \<Rightarrow> pbuf_layer \<Rightarrow> alloc_state \<Rightarrow> (chain \<times> alloc_state) result" where
  "pbuf_coalesce uninit p layer s =
     (case p of
        [] \<Rightarrow> Inl NullDeref
      | [_] \<Rightarrow> Inr (p, s)
      | _ \<Rightarrow>
          (case pbuf_clone uninit layer PBUF_RAM p s of
             Inl e \<Rightarrow> Inl e
           | Inr (q, s') \<Rightarrow>
               (if q = [] then Inr (p, s')
                else
                  (case pbuf_free p s' of
                     Inl e \<Rightarrow> Inl e
                   | Inr (cnt, rest, s'') \<Rightarrow> Inr (q, s'')))))"

section \<open>Skipping and single bytes\<close>

lemma pbuf_skip_const_Nil:
  "chain_ok c \<Longrightarrow> chain_len c \<le> unat off \<Longrightarrow> fst (pbuf_skip_const c off) = []"
proof (induction c arbitrary: off)
  case (Cons p ps)
  then have "p_len p \<le> off" by (simp add: word_le_nat_alt)
  moreover have "chain_len ps \<le> unat (off - p_len p)"
    using Cons.prems calculation by (simp add: unat_sub)
  ultimately show ?case using Cons by simp
qed simp

lemma pbuf_skip_const_Cons:
  "chain_ok c \<Longrightarrow> unat off < chain_len c \<Longrightarrow>
    \<exists>pre q qs out. pbuf_skip_const c off = (q # qs, out) \<and> c = pre @ q # qs
      \<and> out < p_len q \<and> unat off = chain_len pre + unat out"
proof (induction c arbitrary: off)
  case (Cons p ps)
  show ?case
  proof (cases "p_len p \<le> off")
    case True
    then have u: "unat (off - p_len p) = unat off - unat (p_len p)" by (simp add: unat_sub)
    have le: "unat (p_len p) \<le> unat off" using True by (simp add: word_le_nat_alt)
    have "\<exists>pre q qs out. pbuf_skip_const ps (off - p_len p) = (q # qs, out) \<and> ps = pre @ q # qs
        \<and> out < p_len q \<and> unat (off - p_len p) = chain_len pre + unat out"
      using Cons.prems u le by (intro Cons.IH) auto
    then obtain pre q qs out where *: "pbuf_skip_const ps (off - p_len p) = (q # qs, out)"
      "ps = pre @ q # qs" "out < p_len q" "unat (off - p_len p) = chain_len pre + unat out"
      by blast
    then have "p # ps = (p # pre) @ q # qs" "unat off = chain_len (p # pre) + unat out"
      using u le by simp_all
    with * True show ?thesis by (metis pbuf_skip_const.simps(2))
  next
    case False
    then have "pbuf_skip_const (p # ps) off = (p # ps, off)" by simp
    moreover have "off < p_len p" using False by simp
    ultimately show ?thesis
      by (intro exI [of _ "[]"] exI [of _ p] exI [of _ ps] exI [of _ off]) simp
  qed
qed simp

lemma nth_chain_data:
  assumes "chain_ok (pre @ q # qs)" "out < p_len q"
  shows "chain_data (pre @ q # qs) ! (chain_len pre + unat out) = pbuf_mem q ! (payload q + unat out)"
proof -
  have *: "payload r + unat (p_len r) \<le> length (pbuf_mem r)" if "r \<in> set (pre @ q # qs)" for r
    using chain_ok_payload [OF assms(1) that] .
  then have "length (chain_data pre) = chain_len pre"
    by (induction pre) (simp_all add: chain_simps)
  then show ?thesis
    using * [of q] assms(2) by (simp add: nth_append pbuf_bytes_def word_less_nat_alt)
qed

lemma pbuf_try_get_at_spec:
  assumes "chain_ok c"
  shows "pbuf_try_get_at c off =
    Inr (if unat off < length (chain_data c) then Some (chain_data c ! unat off) else None)"
proof (cases "unat off < chain_len c")
  case True
  obtain pre q qs out where *: "pbuf_skip_const c off = (q # qs, out)" "c = pre @ q # qs"
    "out < p_len q" "unat off = chain_len pre + unat out"
    using pbuf_skip_const_Cons [OF assms True] by blast
  have "chain_ok (q # qs)" using assms * chain_ok_appendD by blast
  then have "payload q + unat out < length (pbuf_mem q)"
    using *(3) by (simp add: word_less_nat_alt)
  then show ?thesis
    using * True assms nth_chain_data [of pre q qs out]
    by (simp add: pbuf_try_get_at_def length_chain_data del: chain_data_simps)
next
  case False
  then have "fst (pbuf_skip_const c off) = []" using assms by (simp add: pbuf_skip_const_Nil)
  then show ?thesis using False assms
    by (auto simp: pbuf_try_get_at_def length_chain_data split: prod.splits)
qed

lemma pbuf_get_at_spec:
  "chain_ok c \<Longrightarrow> pbuf_get_at c off =
    Inr (if unat off < length (chain_data c) then chain_data c ! unat off else 0)"
  by (simp add: pbuf_get_at_def pbuf_try_get_at_spec)

section \<open>Copying out\<close>

lemma copy_partial_step:
  assumes "payload p + unat (p_len p) \<le> length (pbuf_mem p)" "unat off \<le> unat (p_len p)"
    "cl = min (p_len p - off) n"
  shows "unat cl = min (unat (p_len p) - unat off) (unat n)"
    and "mem_read (pbuf_mem p) (payload p + unat off) (unat cl)
      = Inr (take (unat n) (drop (unat off) (pbuf_bytes p)))"
proof -
  show u: "unat cl = min (unat (p_len p) - unat off) (unat n)"
    using assms(2,3) by (auto simp: min_def unat_sub word_le_nat_alt)
  have "mem_read (pbuf_mem p) (payload p + unat off) (unat cl)
      = Inr (take (unat cl) (drop (unat off) (pbuf_bytes p)))"
    using assms u by (intro pbuf_bytes_read) auto
  moreover have "take (unat cl) (drop (unat off) (pbuf_bytes p)) = take (unat n) (drop (unat off) (pbuf_bytes p))"
    using u assms(1) by (auto simp: min_def length_pbuf_bytes)
  ultimately show "mem_read (pbuf_mem p) (payload p + unat off) (unat cl)
      = Inr (take (unat n) (drop (unat off) (pbuf_bytes p)))" by simp
qed

lemma pbuf_copy_partial_loop_spec:
  fixes off :: u16
  assumes "chain_ok c" "unat left + unat n \<le> length dst" "unat left + unat n < 65536"
    "unat copied = unat left"
  defines "bs \<equiv> take (unat n) (drop (unat off) (chain_data c))"
  shows "pbuf_copy_partial_loop c dst left n off copied =
    Inr (copied + of_nat (length bs), take (unat left) dst @ bs @ drop (unat left + length bs) dst)"
  using assms(1-4) unfolding bs_def
proof (induction c arbitrary: dst left n off copied)
  case (Cons p ps)
  have pok: "payload p + unat (p_len p) \<le> length (pbuf_mem p)" "chain_ok ps"
    using Cons.prems by auto
  consider (fin) "n = 0" | (skip) "n \<noteq> 0" "off \<noteq> 0" "p_len p \<le> off"
    | (copy) "n \<noteq> 0" "off = 0 \<or> off < p_len p" by force
  then show ?case
  proof cases
    case fin
    then show ?thesis by simp
  next
    case skip
    then have "unat (off - p_len p) = unat off - unat (p_len p)" "unat (p_len p) \<le> unat off"
      by (simp_all add: unat_sub word_le_nat_alt)
    with skip Cons.IH [OF pok(2) Cons.prems(2-4), of "off - p_len p"] show ?thesis
      using pok(1) by (simp add: length_pbuf_bytes)
  next
    case copy
    define cl where "cl = min (p_len p - off) n"
    define bs where "bs = take (unat n) (drop (unat off) (pbuf_bytes p))"
    have le: "unat off \<le> unat (p_len p)" using copy by (auto simp: word_less_nat_alt)
    note st = copy_partial_step [OF pok(1) le cl_def]
    have lbs: "length bs = unat cl" using st(1) pok(1) by (simp add: bs_def length_pbuf_bytes)
    have cln: "unat cl \<le> unat n" using st(1) by simp
    have un: "unat (n - cl) = unat n - unat cl" using st(1) by (simp add: unat_sub word_le_nat_alt)
    have ul: "unat (left + cl) = unat left + unat cl"
      using st(1) Cons.prems(3) by (simp add: unat_word_ariths)
    have uc: "unat (copied + cl) = unat (left + cl)"
      using Cons.prems(4) by (simp add: unat_word_ariths)
    let ?dst = "take (unat left) dst @ bs @ drop (unat left + unat cl) dst"
    have w: "mem_write dst (unat left) bs = Inr ?dst"
      using Cons.prems(2) st(1) lbs by (simp add: mem_write_def)
    have nd: "take (unat n) (drop (unat off) (pbuf_bytes p @ chain_data ps))
        = bs @ take (unat n - unat cl) (chain_data ps)"
      using st(1) le pok(1) lbs by (simp add: bs_def length_pbuf_bytes) (auto simp: min_def)
    have IH: "pbuf_copy_partial_loop ps ?dst (left + cl) (n - cl) 0 (copied + cl) =
       Inr (copied + cl + of_nat (length (take (unat (n - cl)) (drop (unat (0::u16)) (chain_data ps)))),
        take (unat (left + cl)) ?dst @ take (unat (n - cl)) (drop (unat (0::u16)) (chain_data ps)) @
        drop (unat (left + cl) + length (take (unat (n - cl)) (drop (unat (0::u16)) (chain_data ps)))) ?dst)"
      using Cons.prems(2,3) cln un ul uc lbs by (intro Cons.IH [OF pok(2)]) auto
    have "pbuf_copy_partial_loop (p # ps) dst left n off copied
        = pbuf_copy_partial_loop ps ?dst (left + cl) (n - cl) 0 (copied + cl)"
      using copy st(2) w by (auto simp: Let_def cl_def [symmetric] bs_def [symmetric])
    also note IH
    finally have eq: "pbuf_copy_partial_loop (p # ps) dst left n off copied =
       Inr (copied + cl + of_nat (length (take (unat n - unat cl) (chain_data ps))),
        take (unat left + unat cl) ?dst @ take (unat n - unat cl) (chain_data ps) @
        drop (unat left + unat cl + length (take (unat n - unat cl) (chain_data ps))) ?dst)"
      by (simp only: un ul unsigned_0 drop_0)
    have ll: "unat left + unat cl \<le> length dst" using Cons.prems(2) cln by simp
    have t: "take (unat left + unat cl) ?dst = take (unat left) dst @ bs"
      using ll lbs by simp
    have d: "drop (unat left + unat cl + k) ?dst = drop (unat left + unat cl + k) dst" for k
      using ll lbs by (simp add: add.commute add.left_commute)
    have c: "copied + cl + of_nat k = copied + of_nat (unat cl + k)" for k
      by simp
    show ?thesis
      unfolding eq chain_data_simps nd t d c by (simp add: lbs add.assoc)
  qed
qed simp

lemma pbuf_copy_partial_spec:
  fixes off :: u16
  assumes "chain_ok c" "c \<noteq> []" "unat n \<le> length dst"
  defines "bs \<equiv> take (unat n) (drop (unat off) (chain_data c))"
  shows "pbuf_copy_partial c dst n off = Inr (of_nat (length bs), bs @ drop (length bs) dst)"
  using pbuf_copy_partial_loop_spec [of c 0 n dst 0 off] assms unsigned_less [of n]
  by (simp add: pbuf_copy_partial_def)

lemma write_payload_put:
  "payload p + off + length bs \<le> length (pbuf_mem p) \<Longrightarrow>
    write_payload p off bs = Inr (p\<lparr>pbuf_mem := put_bytes (pbuf_mem p) (payload p + off) bs\<rparr>)"
  by (simp add: write_payload_def mem_write_put)

section \<open>Headers in a chain\<close>

text \<open>A first pbuf with room for \<open>k\<close> more bytes in front of its data.\<close>

definition room_for :: "nat \<Rightarrow> pbuf \<Rightarrow> bool" where
  "room_for k b \<longleftrightarrow> k \<le> payload b \<and> type_internal b AND PBUF_TYPE_FLAG_STRUCT_DATA_CONTIGUOUS \<noteq> 0
     \<and> unat (tot_len b) + k < 65536"

definition grow_front :: "nat \<Rightarrow> pbuf \<Rightarrow> pbuf" where
  "grow_front k b = b\<lparr>payload := payload b - k, p_len := p_len b + of_nat k, tot_len := tot_len b + of_nat k\<rparr>"

definition cut_front :: "nat \<Rightarrow> pbuf \<Rightarrow> pbuf" where
  "cut_front k b = b\<lparr>payload := payload b + k, p_len := p_len b - of_nat k, tot_len := tot_len b - of_nat k\<rparr>"

lemma u16_add: "unat (n :: u16) + k < 65536 \<Longrightarrow> unat (n + of_nat k) = unat n + k"
  by (simp add: unat_word_ariths unat_of_nat take_bit_nat_def)

lemma u16_sub:
  assumes "k \<le> unat (n :: u16)"
  shows "unat (n - of_nat k) = unat n - k"
proof -
  have "unat n < 65536" using unsigned_less [of n] by simp
  then have "k < 65536" using assms by simp
  then have u: "unat (of_nat k :: u16) = k" by (simp add: unat_of_nat take_bit_nat_def)
  then have "of_nat k \<le> n" using assms by (simp add: word_le_nat_alt)
  then show ?thesis by (simp add: unat_sub u)
qed

lemma grow_front_simps [simp]:
  "p_ref (grow_front k b) = p_ref b" "pbuf_addr (grow_front k b) = pbuf_addr b" "type_internal (grow_front k b) = type_internal b"
  "pbuf_mem (grow_front k b) = pbuf_mem b" "payload (grow_front k b) = payload b - k" "p_flags (grow_front k b) = p_flags b"
  "if_idx (grow_front k b) = if_idx b"
  by (simp_all add: grow_front_def)

lemma cut_front_simps [simp]:
  "p_ref (cut_front k b) = p_ref b" "pbuf_addr (cut_front k b) = pbuf_addr b" "type_internal (cut_front k b) = type_internal b"
  "pbuf_mem (cut_front k b) = pbuf_mem b" "payload (cut_front k b) = payload b + k" "p_flags (cut_front k b) = p_flags b"
  "if_idx (cut_front k b) = if_idx b"
  by (simp_all add: cut_front_def)

lemma grow_front_len:
  assumes "chain_ok (b # bs)" "room_for k b"
  shows "unat (p_len (grow_front k b)) = unat (p_len b) + k" "unat (tot_len (grow_front k b)) = unat (tot_len b) + k"
  using assms by (simp_all add: grow_front_def room_for_def u16_add)

lemma cut_front_len:
  assumes "chain_ok (b # bs)" "k \<le> unat (p_len b)"
  shows "unat (p_len (cut_front k b)) = unat (p_len b) - k" "unat (tot_len (cut_front k b)) = unat (tot_len b) - k"
  using assms by (simp_all add: cut_front_def u16_sub)

lemma pbuf_add_header_room:
  assumes "chain_ok (b # bs)" "room_for k b" "0 < k"
  shows "pbuf_add_header b (of_nat k) = Inr (False, grow_front k b)" "chain_ok (grow_front k b # bs)"
    "drop k (chain_data (grow_front k b # bs)) = chain_data (b # bs)"
proof -
  note len = grow_front_len [OF assms(1,2)]
  have k: "k < 65536" using assms(2) by (simp add: room_for_def)
  have u: "unat (of_nat k :: u32) = k" "unat (of_nat k :: u16) = k" "(ucast (of_nat k :: u32) :: u16) = of_nat k"
    using k by (simp_all add: unat_of_nat take_bit_nat_def word_unat_eq_iff unsigned_ucast_eq)
  have "unat (of_nat k + tot_len b) = unat (tot_len b) + k" using len(2) by (simp add: grow_front_def add.commute)
  then have nw: "\<not> (of_nat k :: u16) + tot_len b < of_nat k" by (simp add: word_less_nat_alt u(2))
  have "\<not> (of_nat k :: u32) > 0xFFFF" "(of_nat k :: u32) \<noteq> 0"
    using k assms(3) u(1) by (auto simp: word_less_nat_alt simp flip: unat_eq_0)
  then show "pbuf_add_header b (of_nat k) = Inr (False, grow_front k b)"
    using assms(2) nw by (simp add: pbuf_add_header_def pbuf_add_header_impl_def Let_def u grow_front_def room_for_def)
  show "chain_ok (grow_front k b # bs)" using assms(1,2) len by (simp add: room_for_def)
  have "pbuf_bytes (grow_front k b) = take k (drop (payload b - k) (pbuf_mem b)) @ pbuf_bytes b"
  proof -
    have "pbuf_bytes (grow_front k b) = take (k + unat (p_len b)) (drop (payload b - k) (pbuf_mem b))"
      using len(1) by (simp add: pbuf_bytes_def add.commute)
    also have "\<dots> = take k (drop (payload b - k) (pbuf_mem b)) @ take (unat (p_len b)) (drop k (drop (payload b - k) (pbuf_mem b)))"
      by (rule take_add)
    also have "drop k (drop (payload b - k) (pbuf_mem b)) = drop (payload b) (pbuf_mem b)"
      using assms(2) by (simp add: room_for_def)
    finally show ?thesis by (simp add: pbuf_bytes_def)
  qed
  moreover have "length (take k (drop (payload b - k) (pbuf_mem b))) = k"
    using assms(1,2) by (auto simp: room_for_def min_def)
  ultimately show "drop k (chain_data (grow_front k b # bs)) = chain_data (b # bs)" by simp
qed

lemma pbuf_remove_header_cut:
  assumes "chain_ok (b # bs)" "k \<le> unat (p_len b)"
  shows "0 < k \<Longrightarrow> pbuf_remove_header b (of_nat k) = (False, cut_front k b)" "chain_ok (cut_front k b # bs)"
    "chain_data (cut_front k b # bs) = drop k (chain_data (b # bs))"
proof -
  note len = cut_front_len [OF assms]
  have in_mem: "payload b + unat (p_len b) \<le> length (pbuf_mem b)" using assms(1) by simp
  have "unat (p_len b) < 65536" using unsigned_less [of "p_len b"] by simp
  then have k: "k < 65536" using assms(2) by simp
  have u: "unat (of_nat k :: u32) = k" "unat (of_nat k :: u16) = k" "(ucast (of_nat k :: u32) :: u16) = of_nat k"
    using k by (simp_all add: unat_of_nat take_bit_nat_def word_unat_eq_iff unsigned_ucast_eq)
  have "\<not> (of_nat k :: u32) > 0xFFFF" "(of_nat k :: u16) \<le> p_len b"
    using k assms(2) u by (auto simp: word_less_nat_alt word_le_nat_alt)
  moreover have "(of_nat k :: u32) \<noteq> 0" if "0 < k" using that u(1) by (auto simp flip: unat_eq_0)
  ultimately show "pbuf_remove_header b (of_nat k) = (False, cut_front k b)" if "0 < k"
    using that by (simp add: pbuf_remove_header_def Let_def u cut_front_def)
  show "chain_ok (cut_front k b # bs)" using assms len by simp
  have "pbuf_bytes (cut_front k b) = drop k (pbuf_bytes b)" by (simp add: pbuf_bytes_def len drop_take add.commute)
  then show "chain_data (cut_front k b # bs) = drop k (chain_data (b # bs))"
    using assms(2) length_pbuf_bytes [OF in_mem] by simp
qed

lemma write_payload_bytes:
  assumes "payload b + unat (p_len b) \<le> length (pbuf_mem b)" "off + length bs \<le> unat (p_len b)"
  shows "write_payload b off bs = Inr (b\<lparr>pbuf_mem := put_bytes (pbuf_mem b) (payload b + off) bs\<rparr>)"
    and "pbuf_bytes (b\<lparr>pbuf_mem := put_bytes (pbuf_mem b) (payload b + off) bs\<rparr>) = put_bytes (pbuf_bytes b) off bs"
    and "length (put_bytes (pbuf_mem b) (payload b + off) bs) = length (pbuf_mem b)"
proof -
  have eq: "unat (p_len b) \<le> off \<Longrightarrow> unat (p_len b) = off" using assms(2) by simp
  show "write_payload b off bs = Inr (b\<lparr>pbuf_mem := put_bytes (pbuf_mem b) (payload b + off) bs\<rparr>)"
    using assms by (intro write_payload_put) simp
  show "pbuf_bytes (b\<lparr>pbuf_mem := put_bytes (pbuf_mem b) (payload b + off) bs\<rparr>) = put_bytes (pbuf_bytes b) off bs"
    using assms by (simp add: pbuf_bytes_def put_bytes_def drop_take min_def add.commute add.left_commute)
      (auto simp: eq)
  show "length (put_bytes (pbuf_mem b) (payload b + off) bs) = length (pbuf_mem b)"
    using assms by simp
qed

text \<open>Writing a header over the first bytes of a chain.\<close>

lemma write_header:
  assumes "chain_ok (b # bs)" "length h \<le> unat (p_len b)"
  defines "b' \<equiv> b\<lparr>pbuf_mem := put_bytes (pbuf_mem b) (payload b) h\<rparr>"
  shows "write_payload b 0 h = Inr b'" "chain_ok (b' # bs)"
    "chain_data (b' # bs) = h @ drop (length h) (chain_data (b # bs))"
proof -
  have in_mem: "payload b + unat (p_len b) \<le> length (pbuf_mem b)" using assms(1) by simp
  have "0 + length h \<le> unat (p_len b)" using assms(2) by simp
  note w = write_payload_bytes [OF in_mem this, unfolded add_0_right]
  show "write_payload b 0 h = Inr b'" using w(1) by (simp add: b'_def)
  show "chain_ok (b' # bs)" using assms(1) w(3) by (simp add: b'_def)
  show "chain_data (b' # bs) = h @ drop (length h) (chain_data (b # bs))"
    using w(2) assms(2) length_pbuf_bytes [OF in_mem] by (simp add: b'_def put_bytes_def)
qed

section \<open>Copying a chain into one pbuf\<close>

lemma put_bytes_put:
  "i + length a + length b \<le> length m \<Longrightarrow> put_bytes (put_bytes m i a) (i + length a) b = put_bytes m i (a @ b)"
  by (simp add: put_bytes_def add.commute add.left_commute)

lemma sub32_u16: "o' \<le> unat (n :: u16) \<Longrightarrow> sub32 (unat n) o' = unat n - o'"
  using u16_less_32 [of n] by (intro sub32_le) simp_all

text \<open>
  The destination is one pbuf that the data fits in; the source has no empty pbuf behind its first one, so that
  the check for a second packet in the chain does not apply.
\<close>

lemma pbuf_copy_loop_one:
  assumes "payload t + unat (p_len t) \<le> length (pbuf_mem t)" "ot + n \<le> unat (p_len t)"
    and "chain_ok (f # fs)" "off \<le> unat (p_len f)" "off + n \<le> chain_len (f # fs)" "\<forall>q \<in> set fs. p_len q \<noteq> 0"
  shows "pbuf_copy_loop done [t] ot (f # fs) off n =
    Inr (ERR_OK, done @ [t\<lparr>pbuf_mem := put_bytes (pbuf_mem t) (payload t + ot) (take n (drop off (chain_data (f # fs))))\<rparr>])"
  using assms
proof (induction fs arbitrary: t ot f off n)
  case Nil
  have fm: "payload f + unat (p_len f) \<le> length (pbuf_mem f)" using Nil.prems(3) by simp
  define bs where "bs = take n (drop off (chain_data [f]))"
  have lb: "length bs = n" using Nil.prems(5) length_pbuf_bytes [OF fm] by (simp add: bs_def)
  have rd: "mem_read (pbuf_mem f) (payload f + off) n = Inr bs"
    using pbuf_bytes_read [OF fm, of off n] Nil.prems(5) by (simp add: bs_def)
  have wr: "write_payload t ot bs = Inr (t\<lparr>pbuf_mem := put_bytes (pbuf_mem t) (payload t + ot) bs\<rparr>)"
    using Nil.prems(1,2) lb by (intro write_payload_put) simp
  have l: "min n (if sub32 (unat (p_len f)) off \<le> sub32 (unat (p_len t)) ot then sub32 (unat (p_len f)) off else sub32 (unat (p_len t)) ot) = n"
    using Nil.prems(2,4,5) by (auto simp: sub32_u16)
  show ?case
    unfolding pbuf_copy_loop.simps(1) Let_def l rd sum.case wr bs_def [symmetric]
    using Nil.prems(2,5) by simp
next
  case (Cons f' fs)
  have fm: "payload f + unat (p_len f) \<le> length (pbuf_mem f)" using Cons.prems(3) by simp
  have ne: "p_len f \<noteq> tot_len f"
  proof -
    have "0 < unat (p_len f')" using Cons.prems(6) by (simp add: unat_gt_0)
    then have "unat (tot_len f) \<noteq> unat (p_len f)" using Cons.prems(3) by simp
    then show ?thesis by (simp add: word_unat_eq_iff)
  qed
  have ne': "\<not> (p_len f' = tot_len f' \<and> fs \<noteq> [])"
  proof
    assume a: "p_len f' = tot_len f' \<and> fs \<noteq> []"
    then obtain g gs where fs: "fs = g # gs" by (cases fs) auto
    have "0 < unat (p_len g)" using Cons.prems(6) fs by (simp add: unat_gt_0)
    then have "unat (tot_len f') \<noteq> unat (p_len f')" using Cons.prems(3) fs by simp
    then show False using a by simp
  qed
  define l where "l = min n (unat (p_len f) - off)"
  define bs where "bs = take l (drop off (pbuf_bytes f))"
  have lb: "length bs = l" using Cons.prems(4) length_pbuf_bytes [OF fm] by (simp add: bs_def l_def)
  have rd: "mem_read (pbuf_mem f) (payload f + off) l = Inr bs"
    using pbuf_bytes_read [OF fm, of off l] Cons.prems(4) by (simp add: bs_def l_def)
  let ?t = "t\<lparr>pbuf_mem := put_bytes (pbuf_mem t) (payload t + ot) bs\<rparr>"
  have ln: "l \<le> n" "off + l \<le> unat (p_len f)" using Cons.prems(4) by (simp_all add: l_def)
  have wr: "write_payload t ot bs = Inr ?t"
    using Cons.prems(1,2) lb ln by (intro write_payload_put) simp
  have ml: "min n (if sub32 (unat (p_len f)) off \<le> sub32 (unat (p_len t)) ot then sub32 (unat (p_len f)) off else sub32 (unat (p_len t)) ot) = l"
    using Cons.prems(2,4) by (auto simp: sub32_u16 l_def)
  have lm: "length (put_bytes (pbuf_mem t) (payload t + ot) bs) = length (pbuf_mem t)" using Cons.prems(1,2) lb ln by simp
  show ?case
  proof (cases "l = n")
    case True
    have "take n (drop off (chain_data (f # f' # fs))) = bs"
      using True ln(2) length_pbuf_bytes [OF fm] by (simp add: bs_def)
    then show ?thesis
      unfolding pbuf_copy_loop.simps(1) Let_def ml rd sum.case wr using True Cons.prems(2) ne ne' ln by auto
  next
    case False
    then have l: "l = unat (p_len f) - off" "l < n" by (auto simp: l_def)
    have "take n (drop off (chain_data (f # f' # fs))) = bs @ take (n - l) (chain_data (f' # fs))"
      using l Cons.prems(4) length_pbuf_bytes [OF fm] by (simp add: bs_def)
    moreover have "pbuf_copy_loop done [?t] (ot + l) (f' # fs) 0 (n - l) =
        Inr (ERR_OK, done @ [?t\<lparr>pbuf_mem := put_bytes (pbuf_mem ?t) (payload ?t + (ot + l)) (take (n - l) (drop 0 (chain_data (f' # fs))))\<rparr>])"
    proof (rule Cons.IH)
      show "payload ?t + unat (p_len ?t) \<le> length (pbuf_mem ?t)" using Cons.prems(1) lm by simp
    qed (use Cons.prems l ln in auto)
    moreover have "put_bytes (put_bytes (pbuf_mem t) (payload t + ot) bs) (payload t + (ot + l)) (take (n - l) (chain_data (f' # fs)))
        = put_bytes (pbuf_mem t) (payload t + ot) (bs @ take (n - l) (chain_data (f' # fs)))"
    proof -
      have "payload t + (ot + l) = payload t + ot + length bs" using lb by simp
      moreover have "payload t + ot + length bs + length (take (n - l) (chain_data (f' # fs))) \<le> length (pbuf_mem t)"
        using Cons.prems(1,2) lb ln by simp
      ultimately show ?thesis by (simp only: put_bytes_put)
    qed
    ultimately have eq: "pbuf_copy_loop done [?t] (ot + l) (f' # fs) 0 (n - l) =
        Inr (ERR_OK, done @ [t\<lparr>pbuf_mem := put_bytes (pbuf_mem t) (payload t + ot) (take n (drop off (chain_data (f # f' # fs))))\<rparr>])"
      by simp
    have "pbuf_copy_loop done [t] ot (f # f' # fs) off n = pbuf_copy_loop done [?t] (ot + l) (f' # fs) 0 (n - l)"
      unfolding pbuf_copy_loop.simps(1) [of _ t] Let_def ml rd sum.case wr
      using l ln Cons.prems(2) ne' by auto
    then show ?thesis using eq by simp
  qed
qed

end
