(* ===== verification/Udp.thy ===== *)
theory Udp
  imports Ip6 Pbuf_Data "HOL-Library.Multiset"
begin

text \<open>
  UDP control blocks of lwIP (lwip/src/core/udp.c) in the IPv6-only configuration of
  src/lwipopts.h, with \<open>SO_REUSE\<close> and \<open>LWIP_UDPLITE\<close> off: allocation, binding, ephemeral ports,
  connection state and the demultiplexing of received datagrams. The active list \<open>udp_pcbs\<close> is
  the list of the addresses it links, and a control block is what \<open>pcb_at\<close> holds at its address;
  address 0 is NULL.
\<close>

section \<open>Control block data\<close>

text \<open>\<open>'cb\<close> names a receive callback together with its argument.\<close>

record 'cb udp_pcb =
  local_ip :: ip6_addr
  remote_ip :: ip6_addr
  netif_idx :: u8
  ttl :: u8
  udp_flags :: u8
  local_port :: u16
  remote_port :: u16
  mcast_ifindex :: u8
  mcast_ttl :: u8
  recv_cb :: "'cb option"

record 'cb udp_state =
  udp_pcbs :: "nat list"
  pcb_at :: "nat \<Rightarrow> 'cb udp_pcb"
  udp_port :: u16

definition UDP_TTL :: u8 where "UDP_TTL = 255"
definition UDP_FLAGS_CONNECTED :: u8 where "UDP_FLAGS_CONNECTED = 0x04"
definition UDP_LOCAL_PORT_RANGE_START :: u16 where "UDP_LOCAL_PORT_RANGE_START = 0xc000"
definition UDP_LOCAL_PORT_RANGE_END :: u16 where "UDP_LOCAL_PORT_RANGE_END = 0xffff"

definition upd_pcb :: "nat \<Rightarrow> ('cb udp_pcb \<Rightarrow> 'cb udp_pcb) \<Rightarrow> 'cb udp_state \<Rightarrow> 'cb udp_state" where
  "upd_pcb p f u = u\<lparr>pcb_at := (pcb_at u)(p := f (pcb_at u p))\<rparr>"

section \<open>Control blocks\<close>

definition udp_new :: "alloc_state \<Rightarrow> 'cb udp_state \<Rightarrow> (nat \<times> alloc_state \<times> 'cb udp_state) result" where
  "udp_new s u =
     (case memp_malloc MEMP_UDP_PCB (al_memp s) of
        Inl e \<Rightarrow> Inl e
      | Inr (None, m) \<Rightarrow> Inr (0, s\<lparr>al_memp := m\<rparr>, u)
      | Inr (Some p, m) \<Rightarrow>
          Inr (p, s\<lparr>al_memp := m\<rparr>,
            upd_pcb p (\<lambda>_. \<lparr>local_ip = IP6_ADDR_ANY, remote_ip = IP6_ADDR_ANY, netif_idx = 0,
              ttl = UDP_TTL, udp_flags = 0, local_port = 0, remote_port = 0, mcast_ifindex = 0,
              mcast_ttl = UDP_TTL, recv_cb = None\<rparr>) u))"

text \<open>
  \<open>udp_new_port\<close>: \<open>n\<close> counts the collisions; the result is the port (0 for none) and the new value
  of the static variable \<open>udp_port\<close>.
\<close>

definition next_port :: "u16 \<Rightarrow> u16" where
  "next_port p = (if p = UDP_LOCAL_PORT_RANGE_END then UDP_LOCAL_PORT_RANGE_START else p + 1)"

function udp_new_port_loop :: "u16 list \<Rightarrow> u16 \<Rightarrow> u16 \<Rightarrow> u16 \<times> u16" where
  "udp_new_port_loop used n port =
     (let port' = next_port port in
      if port' \<in> set used then
        (if n + 1 > UDP_LOCAL_PORT_RANGE_END - UDP_LOCAL_PORT_RANGE_START then (0, port')
         else udp_new_port_loop used (n + 1) port')
      else (port', port'))"
  by pat_completeness auto

lemma u16_max: "n \<noteq> (- 1 :: u16) \<Longrightarrow> unat (n + 1) = Suc (unat n) \<and> unat n < 65535"
proof -
  assume "n \<noteq> - 1"
  moreover have "unat (- 1 :: u16) = 65535" by (simp add: unsigned_minus_1_eq_mask mask_eq_exp_minus_1)
  ultimately have "unat n \<noteq> 65535" by (simp add: word_unat_eq_iff)
  moreover have "unat n < 65536" using unsigned_less [of n] by simp
  ultimately show ?thesis by (simp add: unat_word_ariths)
qed

termination udp_new_port_loop
proof (relation "measure (\<lambda>(used, n, port). if n = - 1 then 65536 else 65535 - unat n)", goal_cases)
  case (2 used n port port')
  show ?case
  proof (cases "n = - 1")
    case False
    have "UDP_LOCAL_PORT_RANGE_END - UDP_LOCAL_PORT_RANGE_START < - 1"
      by (simp add: UDP_LOCAL_PORT_RANGE_START_def UDP_LOCAL_PORT_RANGE_END_def)
    with 2(3) have "n + 1 \<noteq> - 1" by metis
    then show ?thesis using False u16_max [of n] by (simp, arith)
  qed simp
qed simp

declare udp_new_port_loop.simps [simp del]

definition udp_new_port :: "'cb udp_state \<Rightarrow> u16 \<times> 'cb udp_state" where
  "udp_new_port u =
     (let (p, v) = udp_new_port_loop (map (\<lambda>x. local_port (pcb_at u x)) (udp_pcbs u)) 0 (udp_port u)
      in (p, u\<lparr>udp_port := v\<rparr>))"

text \<open>\<open>udp_bind\<close>; \<open>None\<close> is a NULL address. IP_GET_TYPE is always IPv6 in this configuration.\<close>

definition bind_conflict :: "'cb udp_state \<Rightarrow> nat \<Rightarrow> ip6_addr \<Rightarrow> u16 \<Rightarrow> nat \<Rightarrow> bool" where
  "bind_conflict u pcb ip port ipcb \<longleftrightarrow> pcb \<noteq> ipcb \<and> local_port (pcb_at u ipcb) = port
     \<and> (local_ip (pcb_at u ipcb) = ip \<or> ip = IP6_ADDR_ANY \<or> local_ip (pcb_at u ipcb) = IP6_ADDR_ANY)"

definition udp_bind_to :: "nat \<Rightarrow> ip6_addr \<Rightarrow> u16 \<Rightarrow> bool \<Rightarrow> 'cb udp_state \<Rightarrow> 'cb udp_state" where
  "udp_bind_to pcb ip port rebind u =
     (let u1 = upd_pcb pcb (\<lambda>c. c\<lparr>local_ip := ip, local_port := port\<rparr>) u
      in if rebind then u1 else u1\<lparr>udp_pcbs := pcb # udp_pcbs u1\<rparr>)"

definition udp_bind :: "nat \<Rightarrow> ip6_addr option \<Rightarrow> u16 \<Rightarrow> 'cb udp_state \<Rightarrow> err_t \<times> 'cb udp_state" where
  "udp_bind pcb ipaddr port u =
     (case ipaddr of
        None \<Rightarrow> (ERR_ARG, u)
      | Some ip \<Rightarrow>
          if pcb = 0 then (ERR_ARG, u)
          else
            (let rebind = (pcb \<in> set (udp_pcbs u)) in
             if port = 0 then
               (let (port', u') = udp_new_port u in
                if port' = 0 then (ERR_USE, u') else (ERR_OK, udp_bind_to pcb ip port' rebind u'))
             else if list_ex (bind_conflict u pcb ip port) (udp_pcbs u) then (ERR_USE, u)
             else (ERR_OK, udp_bind_to pcb ip port rebind u)))"

definition udp_bind_netif :: "nat \<Rightarrow> u8 option \<Rightarrow> 'cb udp_state \<Rightarrow> 'cb udp_state" where
  "udp_bind_netif pcb netif u = upd_pcb pcb (\<lambda>c. c\<lparr>netif_idx := (case netif of Some i \<Rightarrow> i | None \<Rightarrow> 0)\<rparr>) u"

definition udp_connect :: "nat \<Rightarrow> ip6_addr option \<Rightarrow> u16 \<Rightarrow> 'cb udp_state \<Rightarrow> err_t \<times> 'cb udp_state" where
  "udp_connect pcb ipaddr port u =
     (if pcb = 0 then (ERR_ARG, u)
      else
        (case ipaddr of
           None \<Rightarrow> (ERR_ARG, u)
         | Some ip \<Rightarrow>
             (let (err, u1) = (if local_port (pcb_at u pcb) = 0
                               then udp_bind pcb (Some (local_ip (pcb_at u pcb))) 0 u else (ERR_OK, u))
              in if err \<noteq> ERR_OK then (err, u1)
                 else
                   (let u2 = upd_pcb pcb (\<lambda>c. c\<lparr>remote_ip := ip, remote_port := port,
                               udp_flags := udp_flags c OR UDP_FLAGS_CONNECTED\<rparr>) u1
                    in (ERR_OK, if pcb \<in> set (udp_pcbs u2) then u2
                                else u2\<lparr>udp_pcbs := pcb # udp_pcbs u2\<rparr>)))))"

definition udp_disconnect :: "nat \<Rightarrow> 'cb udp_state \<Rightarrow> 'cb udp_state" where
  "udp_disconnect pcb u =
     (if pcb = 0 then u
      else upd_pcb pcb (\<lambda>c. c\<lparr>remote_ip := IP6_ADDR_ANY, remote_port := 0, netif_idx := 0,
             udp_flags := udp_flags c AND NOT UDP_FLAGS_CONNECTED\<rparr>) u)"

definition udp_recv :: "nat \<Rightarrow> 'cb option \<Rightarrow> 'cb udp_state \<Rightarrow> 'cb udp_state" where
  "udp_recv pcb cb u = (if pcb = 0 then u else upd_pcb pcb (\<lambda>c. c\<lparr>recv_cb := cb\<rparr>) u)"

definition udp_remove :: "nat \<Rightarrow> alloc_state \<Rightarrow> 'cb udp_state \<Rightarrow> (alloc_state \<times> 'cb udp_state) result" where
  "udp_remove pcb s u =
     (if pcb = 0 then Inr (s, u)
      else
        (case memp_free MEMP_UDP_PCB pcb (al_memp s) of
           Inl e \<Rightarrow> Inl e
         | Inr m \<Rightarrow> Inr (s\<lparr>al_memp := m\<rparr>, u\<lparr>udp_pcbs := remove1 pcb (udp_pcbs u)\<rparr>)))"

definition udp_netif_ip_addr_changed :: "ip6_addr option \<Rightarrow> ip6_addr option \<Rightarrow> 'cb udp_state \<Rightarrow> 'cb udp_state" where
  "udp_netif_ip_addr_changed old_addr new_addr u =
     (case (old_addr, new_addr) of
        (Some old, Some new) \<Rightarrow>
          if old \<noteq> IP6_ADDR_ANY \<and> new \<noteq> IP6_ADDR_ANY
          then fold (\<lambda>p u. if local_ip (pcb_at u p) = old then upd_pcb p (\<lambda>c. c\<lparr>local_ip := new\<rparr>) u else u)
                 (udp_pcbs u) u
          else u
      | _ \<Rightarrow> u)"

section \<open>Demultiplexing\<close>

definition udp_input_local_match :: "'cb udp_pcb \<Rightarrow> u8 \<Rightarrow> ip6_addr \<Rightarrow> bool" where
  "udp_input_local_match pcb inp_idx dest_ip \<longleftrightarrow>
     \<not> (netif_idx pcb \<noteq> 0 \<and> netif_idx pcb \<noteq> inp_idx)
     \<and> (local_ip pcb = IP6_ADDR_ANY \<or> local_ip pcb = dest_ip)"

text \<open>
  The search loop of \<open>udp_input\<close>: the first fully matching control block, which moves to the
  front of the list, or else the first unconnected one. \<open>pre\<close> are the blocks already passed.
\<close>

fun udp_input_find ::
  "(nat \<Rightarrow> 'cb udp_pcb) \<Rightarrow> u8 \<Rightarrow> ip6_addr \<Rightarrow> ip6_addr \<Rightarrow> u16 \<Rightarrow> u16 \<Rightarrow> nat list \<Rightarrow> nat list \<Rightarrow> nat option \<Rightarrow>
   nat option \<times> nat list" where
  "udp_input_find at idx src_ip dest_ip src dest pre [] uncon = (uncon, pre)"
| "udp_input_find at idx src_ip dest_ip src dest pre (p # ps) uncon =
     (if local_port (at p) = dest \<and> udp_input_local_match (at p) idx dest_ip then
        (let uncon' = (if udp_flags (at p) AND UDP_FLAGS_CONNECTED = 0 \<and> uncon = None then Some p else uncon)
         in if remote_port (at p) = src \<and> (remote_ip (at p) = IP6_ADDR_ANY \<or> remote_ip (at p) = src_ip)
            then (Some p, p # pre @ ps)
            else udp_input_find at idx src_ip dest_ip src dest (pre @ [p]) ps uncon')
      else udp_input_find at idx src_ip dest_ip src dest (pre @ [p]) ps uncon)"

section \<open>Ports\<close>

text \<open>
  No two active control blocks may receive the same datagram: equal ports imply different and
  specific local addresses.
\<close>

definition ports_ok :: "'cb udp_state \<Rightarrow> bool" where
  "ports_ok u \<longleftrightarrow> distinct (udp_pcbs u) \<and> 0 \<notin> set (udp_pcbs u) \<and>
     (\<forall>p \<in> set (udp_pcbs u). \<forall>q \<in> set (udp_pcbs u).
        \<not> bind_conflict u p (local_ip (pcb_at u p)) (local_port (pcb_at u p)) q)"

lemma upd_pcb_simps [simp]:
  "udp_pcbs (upd_pcb p f u) = udp_pcbs u" "udp_port (upd_pcb p f u) = udp_port u"
  "pcb_at (upd_pcb p f u) q = (if q = p then f (pcb_at u p) else pcb_at u q)"
  by (simp_all add: upd_pcb_def)

lemma udp_bind_to_simps [simp]:
  "pcb_at (udp_bind_to pcb ip port r u) q =
     (if q = pcb then (pcb_at u pcb)\<lparr>local_ip := ip, local_port := port\<rparr> else pcb_at u q)"
  "udp_pcbs (udp_bind_to pcb ip port r u) = (if r then udp_pcbs u else pcb # udp_pcbs u)"
  by (simp_all add: udp_bind_to_def Let_def)

lemma udp_bind_to_ports_ok:
  assumes "ports_ok u" "pcb \<noteq> 0" "r = (pcb \<in> set (udp_pcbs u))"
    and "\<forall>q \<in> set (udp_pcbs u). \<not> bind_conflict u pcb ip port q"
  shows "ports_ok (udp_bind_to pcb ip port r u)"
  using assms unfolding ports_ok_def bind_conflict_def by (auto split: if_splits)

lemma next_port_range: "UDP_LOCAL_PORT_RANGE_START \<le> p \<Longrightarrow> UDP_LOCAL_PORT_RANGE_START \<le> next_port p"
proof -
  assume r: "UDP_LOCAL_PORT_RANGE_START \<le> p"
  show ?thesis
  proof (cases "p = - 1")
    case False
    then show ?thesis using r u16_max [of p]
      by (simp add: next_port_def UDP_LOCAL_PORT_RANGE_START_def UDP_LOCAL_PORT_RANGE_END_def
          word_le_nat_alt split: if_splits)
  qed (simp add: next_port_def UDP_LOCAL_PORT_RANGE_END_def)
qed

lemma udp_new_port_loop_spec:
  "udp_new_port_loop used n port = (p, v) \<Longrightarrow> UDP_LOCAL_PORT_RANGE_START \<le> port \<Longrightarrow>
    UDP_LOCAL_PORT_RANGE_START \<le> v \<and> (p \<noteq> 0 \<longrightarrow> p = v \<and> p \<notin> set used)"
proof (induction used n port arbitrary: p v rule: udp_new_port_loop.induct)
  case (1 used n port)
  note eq = "1.prems"(1) [unfolded udp_new_port_loop.simps [of used n port]]
  have r: "UDP_LOCAL_PORT_RANGE_START \<le> next_port port" using "1.prems"(2) by (rule next_port_range)
  show ?case
  proof (cases "next_port port \<in> set used
      \<and> \<not> n + 1 > UDP_LOCAL_PORT_RANGE_END - UDP_LOCAL_PORT_RANGE_START")
    case True
    then show ?thesis using eq "1.IH" [OF refl _ _ _ r] by (simp add: Let_def)
  next
    case False
    then show ?thesis using eq r by (auto simp: Let_def split: if_splits)
  qed
qed

lemma udp_bind_new_port:
  assumes "ports_ok u" "UDP_LOCAL_PORT_RANGE_START \<le> udp_port u" "udp_new_port u = (p, u')" "p \<noteq> 0"
  shows "u' = u\<lparr>udp_port := p\<rparr> \<and> (\<forall>q \<in> set (udp_pcbs u). local_port (pcb_at u q) \<noteq> p)"
proof -
  let ?used = "map (\<lambda>x. local_port (pcb_at u x)) (udp_pcbs u)"
  obtain v where l: "udp_new_port_loop ?used 0 (udp_port u) = (p, v)" and u': "u' = u\<lparr>udp_port := v\<rparr>"
    using assms(3) by (auto simp: udp_new_port_def split: prod.splits)
  from udp_new_port_loop_spec [OF l assms(2)] assms(4) show ?thesis by (auto simp: u')
qed

lemma ports_ok_udp_port [simp]: "ports_ok (u\<lparr>udp_port := p\<rparr>) = ports_ok u"
  by (simp add: ports_ok_def bind_conflict_def)

lemma udp_bind_ok:
  assumes "ports_ok u" "UDP_LOCAL_PORT_RANGE_START \<le> udp_port u" "udp_bind pcb (Some ip) port u = (ERR_OK, u')"
  shows "ports_ok u' \<and> pcb \<in> set (udp_pcbs u') \<and> local_ip (pcb_at u' pcb) = ip
    \<and> local_port (pcb_at u' pcb) \<noteq> 0 \<and> (port \<noteq> 0 \<longrightarrow> local_port (pcb_at u' pcb) = port)
    \<and> (\<forall>q. q \<noteq> pcb \<longrightarrow> pcb_at u' q = pcb_at u q)"
proof (cases "port = 0")
  case True
  have "pcb \<noteq> 0" using assms(3) by (auto simp: udp_bind_def split: if_splits)
  obtain p u1 where p: "udp_new_port u = (p, u1)" by fastforce
  have "p \<noteq> 0" and u': "u' = udp_bind_to pcb ip p (pcb \<in> set (udp_pcbs u)) u1"
    using assms(3) True \<open>pcb \<noteq> 0\<close> by (auto simp: udp_bind_def p split: if_splits)
  with udp_bind_new_port [OF assms(1,2) p] have u1: "u1 = u\<lparr>udp_port := p\<rparr>"
    and free: "\<forall>q \<in> set (udp_pcbs u). local_port (pcb_at u q) \<noteq> p" by auto
  have "ports_ok u'"
    unfolding u' by (rule udp_bind_to_ports_ok) (use assms(1) \<open>pcb \<noteq> 0\<close> free u1 in \<open>auto simp: bind_conflict_def\<close>)
  then show ?thesis using True \<open>p \<noteq> 0\<close> by (auto simp: u' u1)
next
  case False
  then have "pcb \<noteq> 0" "\<not> list_ex (bind_conflict u pcb ip port) (udp_pcbs u)"
    and u': "u' = udp_bind_to pcb ip port (pcb \<in> set (udp_pcbs u)) u"
    using assms(3) by (auto simp: udp_bind_def split: if_splits)
  moreover have "ports_ok u'"
    unfolding u' by (rule udp_bind_to_ports_ok) (use assms(1) calculation in \<open>auto simp: list_ex_iff\<close>)
  ultimately show ?thesis using False by (auto simp: u')
qed

lemma udp_bind_refused:
  assumes "ports_ok u" "udp_bind pcb (Some ip) port u = (e, u')" "e \<noteq> ERR_OK"
  shows "ports_ok u' \<and> udp_pcbs u' = udp_pcbs u \<and> pcb_at u' = pcb_at u"
  using assms by (auto simp: udp_bind_def udp_new_port_def Let_def split: if_splits prod.splits)

section \<open>Delivery\<close>

lemma udp_input_find_set:
  "udp_input_find at idx si di sp dp pre ps uncon = (r, ps') \<Longrightarrow> mset ps' = mset (pre @ ps)"
  by (induction at idx si di sp dp pre ps uncon rule: udp_input_find.induct)
     (auto simp: Let_def split: if_splits)

lemma udp_input_find_skip:
  assumes "\<forall>q \<in> set ps. \<not> (local_port (at q) = dp \<and> udp_input_local_match (at q) idx di)"
  shows "udp_input_find at idx si di sp dp pre ps uncon = (uncon, pre @ ps)"
  using assms by (induction ps arbitrary: pre) auto

lemma udp_input_find_unique:
  assumes "p \<in> set ps" "local_port (at p) = dp" "udp_input_local_match (at p) idx di"
    and "udp_flags (at p) AND UDP_FLAGS_CONNECTED = 0"
    and "\<forall>q \<in> set ps. q \<noteq> p \<longrightarrow> \<not> (local_port (at q) = dp \<and> udp_input_local_match (at q) idx di)"
    and "distinct ps"
  shows "fst (udp_input_find at idx si di sp dp pre ps None) = Some p"
  using assms
proof (induction ps arbitrary: pre)
  case (Cons q qs)
  show ?case
  proof (cases "q = p")
    case True
    then have "\<forall>q \<in> set qs. \<not> (local_port (at q) = dp \<and> udp_input_local_match (at q) idx di)"
      using Cons.prems by auto
    then show ?thesis
      using True Cons.prems by (simp add: udp_input_find_skip Let_def)
  qed (use Cons in auto)
qed simp

text \<open>The listener on a port is found.\<close>

lemma udp_find_listener:
  assumes "ports_ok u" "p \<in> set (udp_pcbs u)" "local_port (pcb_at u p) = dp"
    and "local_ip (pcb_at u p) = IP6_ADDR_ANY" "netif_idx (pcb_at u p) = 0"
    and "udp_flags (pcb_at u p) AND UDP_FLAGS_CONNECTED = 0"
  shows "\<exists>ps'. udp_input_find (pcb_at u) idx si di sp dp [] (udp_pcbs u) None = (Some p, ps')
    \<and> mset ps' = mset (udp_pcbs u)"
proof -
  have "fst (udp_input_find (pcb_at u) idx si di sp dp [] (udp_pcbs u) None) = Some p"
    by (rule udp_input_find_unique)
      (use assms in \<open>auto simp: ports_ok_def bind_conflict_def udp_input_local_match_def\<close>)
  then show ?thesis
    using udp_input_find_set [of "pcb_at u" idx si di sp dp "[]" "udp_pcbs u" None]
    by (metis append_Nil prod.collapse)
qed

section \<open>Properties\<close>


definition udp0 :: "nat udp_state" where
  "udp0 = \<lparr>udp_pcbs = [], pcb_at = (\<lambda>_. \<lparr>local_ip = IP6_ADDR_ANY, remote_ip = IP6_ADDR_ANY, netif_idx = 0,
     ttl = UDP_TTL, udp_flags = 0, local_port = 0, remote_port = 0, mcast_ifindex = 0,
     mcast_ttl = UDP_TTL, recv_cb = None\<rparr>), udp_port = 0xc000\<rparr>"

definition udp1 :: "nat udp_state" where
  "udp1 = snd (udp_bind 8 (Some IP6_ADDR_ANY) 0 (snd (udp_bind 4 (Some IP6_ADDR_ANY) 20010 udp0)))"


text \<open>
  A datagram to a port that an unconnected control block is bound to on any address is
  delivered to that block, whatever other blocks are active, and the active list keeps its
  elements.
\<close>

theorem udp_input_delivers:
  assumes "ports_ok u" "p \<in> set (udp_pcbs u)" "local_port (pcb_at u p) = dp"
    and "local_ip (pcb_at u p) = IP6_ADDR_ANY" "netif_idx (pcb_at u p) = 0"
    and "udp_flags (pcb_at u p) AND UDP_FLAGS_CONNECTED = 0"
  shows "\<exists>ps'. udp_input_find (pcb_at u) idx si di sp dp [] (udp_pcbs u) None = (Some p, ps')
    \<and> mset ps' = mset (udp_pcbs u)"
  by (rule udp_find_listener [OF assms])

theorem udp_input_delivers_witness:
  "\<exists>ps'. udp_input_find (pcb_at udp1) 1 (IP6 1 2 3 4) (IP6 0xff020000 0 0 1) 20010 20010 [] (udp_pcbs udp1) None
    = (Some 4, ps')"
proof -
  have new: "udp_new_port_loop [20010] 0 0xc000 = (0xc001, 0xc001)"
    by (subst udp_new_port_loop.simps) (simp add: next_port_def UDP_LOCAL_PORT_RANGE_END_def)
  have "udp_pcbs udp1 = [8, 4]" "pcb_at udp1 4 = (pcb_at udp0 4)\<lparr>local_port := 20010\<rparr>"
    "local_port (pcb_at udp1 8) = 0xc001"
    by (simp_all add: udp1_def udp_bind_def udp_new_port_def Let_def udp0_def udp_bind_to_def new)
  moreover from this have "ports_ok udp1"
    by (simp add: ports_ok_def bind_conflict_def udp0_def)
  ultimately show ?thesis
    using udp_input_delivers [of udp1 4 20010 1 "IP6 1 2 3 4" "IP6 0xff020000 0 0 1" 20010]
    by (auto simp: udp0_def simp del: udp_input_find.simps)
qed

end
