(* ===== verification/Cannelloni.thy ===== *)
theory Cannelloni
  imports Frame_Queue Udp
begin

text \<open>
  The cannelloni protocol of src/src/cannelloni.c: a handle with its two frame queues, the
  receive callback that unpacks UDP datagrams into CAN frames, the packing of CAN frames into
  datagrams and the main-loop step. The UDP send function and the CAN driver callbacks are
  arguments; everything they may change besides the handle, the frame arrays and the allocator
  is the state of type \<open>'n\<close>.
\<close>

section \<open>Data\<close>

definition CANNELLONI_FRAME_BASE_SIZE :: nat where "CANNELLONI_FRAME_BASE_SIZE = 5"
definition CANNELLONI_DATA_PACKET_BASE_SIZE :: nat where "CANNELLONI_DATA_PACKET_BASE_SIZE = 5"
definition CANNELLONI_FRAME_VERSION :: u8 where "CANNELLONI_FRAME_VERSION = 2"
definition CNL_DATA :: u8 where "CNL_DATA = 0"
definition CANFD_FRAME :: u8 where "CANFD_FRAME = 0x80"
definition CAN_RTR_FLAG :: u32 where "CAN_RTR_FLAG = 0x40000000"

lemmas cnl_consts = CANNELLONI_FRAME_BASE_SIZE_def CANNELLONI_DATA_PACKET_BASE_SIZE_def
  CANNELLONI_FRAME_VERSION_def CNL_DATA_def CNL_CANFD_MAX_DLEN_def

text \<open>\<open>cannelloni_handle_t\<close>; the callbacks of \<open>Init\<close> are arguments of the functions that call them.\<close>

record cannelloni_handle =
  init_port :: u16
  init_addr :: ip6_addr
  init_remote_port :: u16
  can_buf_size :: u8
  can_tx_buf :: buf_addr
  can_rx_buf :: buf_addr
  tx_queue :: frames_queue_t
  rx_queue :: frames_queue_t
  sequence_number :: u32
  cnl_pcb :: nat
  udp_rx_count :: u32

record 'n cnl_state =
  cs_handle :: cannelloni_handle
  cs_frames :: frame_store
  cs_alloc :: alloc_state
  cs_net :: 'n

type_synonym 'n sendto_fn =
  "nat \<Rightarrow> chain \<Rightarrow> ip6_addr \<Rightarrow> u16 \<Rightarrow> alloc_state \<Rightarrow> 'n \<Rightarrow> (chain \<times> alloc_state \<times> 'n) result"
type_synonym 'n can_tx_fn = "cannelloni_handle \<Rightarrow> canfd_frame \<Rightarrow> 'n \<Rightarrow> (bool \<times> 'n) result"
type_synonym 'n can_rx_fn = "'n cnl_state \<Rightarrow> 'n cnl_state result"

definition canfd_len :: "canfd_frame \<Rightarrow> u8" where
  "canfd_len f = frame_len f AND NOT CANFD_FRAME"

section \<open>Set-up\<close>

text \<open>\<open>init_cannelloni\<close>; \<open>cb\<close> is the receive callback with this handle as its argument.\<close>

definition init_cannelloni ::
  "'cb \<Rightarrow> cannelloni_handle \<Rightarrow> alloc_state \<Rightarrow> 'cb udp_state \<Rightarrow>
   (cannelloni_handle \<times> alloc_state \<times> 'cb udp_state) result" where
  "init_cannelloni cb h s u =
     (let h1 = h\<lparr>sequence_number := 0, udp_rx_count := 0,
                tx_queue := queue_init (can_tx_buf h) (ucast (can_buf_size h)),
                rx_queue := queue_init (can_rx_buf h) (ucast (can_buf_size h))\<rparr>
      in case udp_new s u of
           Inl e \<Rightarrow> Inl e
         | Inr (pcb, s1, u1) \<Rightarrow>
             (let h2 = h1\<lparr>cnl_pcb := pcb\<rparr> in
              if pcb = 0 then Inr (h2, s1, u1)
              else
                (let (err, u2) = udp_bind pcb (Some IP6_ADDR_ANY) (init_port h2) u1 in
                 if err \<noteq> ERR_OK then Inr (h2, s1, u2)
                 else Inr (h2, s1, udp_recv pcb (Some cb) u2))))"

section \<open>Receiving datagrams\<close>

text \<open>Storing a received frame into a slot; bytes behind the data keep what the slot held.\<close>

definition fill_frame :: "u32 \<Rightarrow> u8 \<Rightarrow> u8 \<Rightarrow> bytes \<Rightarrow> canfd_frame \<Rightarrow> canfd_frame" where
  "fill_frame cid len flags bs old =
     old\<lparr>can_id := cid, frame_len := len, frame_flags := flags,
         frame_data := bs @ drop (length bs) (frame_data old)\<rparr>"

text \<open>
  The loop over the frames of a datagram, with the number of iterations left: \<open>mem\<close> from offset
  \<open>pl\<close> on is \<open>rawData\<close>, and \<open>tot\<close> is \<open>p->tot_len\<close>. A break leaves the queue as it is.
\<close>

fun parse_frames ::
  "bytes \<Rightarrow> nat \<Rightarrow> u16 \<Rightarrow> nat \<Rightarrow> u16 \<Rightarrow> queue_state \<Rightarrow> queue_state result" where
  "parse_frames mem pl tot 0 pos s = Inr s"
| "parse_frames mem pl tot (Suc n) pos s =
     (if unat pos + CANNELLONI_FRAME_BASE_SIZE > unat tot then Inr s
      else
        (case mem_read mem (pl + unat pos) 5 of
           Inl e \<Rightarrow> Inl e
         | Inr hb \<Rightarrow>
             (let cid = of_be32 (hb ! 0) (hb ! 1) (hb ! 2) (hb ! 3);
                  len = hb ! 4;
                  pos2 = pos + 4 + 1;
                  dlc = len AND NOT CANFD_FRAME;
                  rtr = (cid AND CAN_RTR_FLAG \<noteq> 0)
              in case (if len AND CANFD_FRAME \<noteq> 0
                       then map_sum id (\<lambda>fl. (fl, pos2 + 1)) (mem_get mem (pl + unat pos2))
                       else Inr (0, pos2)) of
                   Inl e \<Rightarrow> Inl e
                 | Inr (flags, pos3) \<Rightarrow>
                     if \<not> rtr \<and> unat pos3 + unat dlc > unat tot then Inr s
                     else
                       (let bs = (if rtr then [] else take (unat dlc) (drop (pl + unat pos3) mem)) in
                        case frame_enqueue (fill_frame cid len flags bs) s of
                          Inl e \<Rightarrow> Inl e
                        | Inr None \<Rightarrow> Inr s
                        | Inr (Some s') \<Rightarrow>
                            if rtr then parse_frames mem pl tot n pos3 s'
                            else if pl + unat pos3 + unat dlc > length mem then Inl OutOfBounds
                            else if unat dlc > CNL_CANFD_MAX_DLEN then Inl OutOfBounds
                            else parse_frames mem pl tot n (pos3 + ucast dlc) s'))))"

definition handle_packet :: "pbuf \<Rightarrow> 'n cnl_state \<Rightarrow> 'n cnl_state result" where
  "handle_packet p s =
     (case mem_read (pbuf_mem p) (payload p) 2 of
        Inl e \<Rightarrow> Inl e
      | Inr vo \<Rightarrow>
          if vo ! 0 \<noteq> CANNELLONI_FRAME_VERSION \<or> vo ! 1 \<noteq> CNL_DATA then Inr s
          else
            (let h = (cs_handle s)\<lparr>udp_rx_count := udp_rx_count (cs_handle s) + 1\<rparr> in
             case mem_read (pbuf_mem p) (payload p + 3) 2 of
               Inl e \<Rightarrow> Inl e
             | Inr c \<Rightarrow>
                 map_sum id (\<lambda>(st, q). s\<lparr>cs_handle := h\<lparr>tx_queue := q\<rparr>, cs_frames := st\<rparr>)
                   (parse_frames (pbuf_mem p) (payload p) (tot_len p)
                      (unat (of_be16 (c ! 0) (c ! 1))) (of_nat CANNELLONI_DATA_PACKET_BASE_SIZE)
                      (cs_frames s, tx_queue h))))"

definition handle_cannelloni_frame :: "chain \<Rightarrow> 'n cnl_state \<Rightarrow> 'n cnl_state result" where
  "handle_cannelloni_frame p s =
     (case p of
        [] \<Rightarrow> Inr s
      | b # _ \<Rightarrow>
          (case (if unat (tot_len b) > CANNELLONI_DATA_PACKET_BASE_SIZE then handle_packet b s else Inr s) of
             Inl e \<Rightarrow> Inl e
           | Inr s1 \<Rightarrow>
               (case pbuf_free p (cs_alloc s1) of
                  Inl e \<Rightarrow> Inl e
                | Inr (cnt, rest, al) \<Rightarrow> Inr (s1\<lparr>cs_alloc := al\<rparr>))))"

section \<open>Sending datagrams\<close>

text \<open>
  The loop of \<open>transmit_udp_frame\<close>; the variable \<open>frame\<close> always holds the last \<open>queue_peek\<close>, which
  is taken at the head of each round. The result is the buffer, the position, the number of
  frames written, whether a frame is left in the queue, and the queue.
\<close>

function transmit_frames ::
  "pbuf \<Rightarrow> u16 \<Rightarrow> u16 \<Rightarrow> queue_state \<Rightarrow> (pbuf \<times> u16 \<times> u16 \<times> bool \<times> queue_state) result" where
  "transmit_frames p pos cnt s =
     (case frame_front s of
        Inl e \<Rightarrow> Inl e
      | Inr None \<Rightarrow> Inr (p, pos, cnt, False, s)
      | Inr (Some f) \<Rightarrow>
          if \<not> unat pos + CANNELLONI_FRAME_BASE_SIZE + unat (canfd_len f) < unat (tot_len p)
          then Inr (p, pos, cnt, True, s)
          else
            (case frame_dequeue s of
               Inl e \<Rightarrow> Inl e
             | Inr None \<Rightarrow> Inl NullDeref
             | Inr (Some (g, s')) \<Rightarrow>
                 (case write_payload p (unat pos) (be32 (can_id g) @ [frame_len g]) of
                    Inl e \<Rightarrow> Inl e
                  | Inr p1 \<Rightarrow>
                      if unat (canfd_len g) > CNL_CANFD_MAX_DLEN then Inl OutOfBounds
                      else
                        (case write_payload p1 (unat (pos + 4 + 1))
                                (take (unat (canfd_len g)) (frame_data g)) of
                           Inl e \<Rightarrow> Inl e
                         | Inr p2 \<Rightarrow>
                             transmit_frames p2 (pos + 4 + 1 + ucast (canfd_len g)) (cnt + 1) s'))))"
  by pat_completeness auto

lemma write_payload_fields:
  "write_payload p off bs = Inr q \<Longrightarrow> tot_len q = tot_len p \<and> payload q = payload p \<and> p_len q = p_len p
    \<and> length (pbuf_mem q) = length (pbuf_mem p)"
  by (auto simp: write_payload_def mem_write_def split: if_splits)

lemma front_is_dequeued:
  "frame_front s = Inr (Some f) \<Longrightarrow> frame_dequeue s = Inr (Some (g, s')) \<Longrightarrow> g = f"
  by (auto simp: frame_front_def frame_dequeue_def queue_peek_def queue_take_def load_frame_def
      mem_get_def split: if_splits sum.splits)

lemma pos_advance:
  assumes "unat (pos :: u16) + 5 + unat (l :: u8) < unat (t :: u16)"
  shows "unat (pos + 4 + 1 + ucast l) = unat pos + 5 + unat l"
proof -
  have "unat t < 65536" using unsigned_less [of t] by simp
  then show ?thesis using assms by (simp add: unat_word_ariths unat_ucast_u8)
qed

termination transmit_frames
proof (relation "measure (\<lambda>(p, pos, cnt, s). unat (tot_len p) - unat pos)", goal_cases)
  case (2 p pos cnt s fo f dq gs g s' p1 p2)
  then have g: "g = f" by (auto dest: front_is_dequeued)
  have t: "tot_len p2 = tot_len p" using 2 by (auto dest!: write_payload_fields)
  have "unat pos + 5 + unat (canfd_len f) < unat (tot_len p)" using 2 by (simp add: cnl_consts)
  with pos_advance [OF this] show ?case by (simp add: t g)
qed simp

declare transmit_frames.simps [simp del]

definition transmit_udp_frame ::
  "(nat \<Rightarrow> bytes) \<Rightarrow> 'n sendto_fn \<Rightarrow> 'n cnl_state \<Rightarrow> (bool \<times> 'n cnl_state) result" where
  "transmit_udp_frame uninit udp_sendto s =
     (case frame_front (cs_frames s, rx_queue (cs_handle s)) of
        Inl e \<Rightarrow> Inl e
      | Inr None \<Rightarrow> Inr (False, s)
      | Inr (Some f) \<Rightarrow>
          (case pbuf_alloc uninit PBUF_TRANSPORT 1200 PBUF_RAM (cs_alloc s) of
             Inl e \<Rightarrow> Inl e
           | Inr ([], al) \<Rightarrow> Inr (False, s\<lparr>cs_alloc := al\<rparr>)
           | Inr (p # ps, al) \<Rightarrow>
               (case transmit_frames p (of_nat CANNELLONI_DATA_PACKET_BASE_SIZE) 0
                       (cs_frames s, rx_queue (cs_handle s)) of
                  Inl e \<Rightarrow> Inl e
                | Inr (p1, pos, cnt, pending, (st, q)) \<Rightarrow>
                    (let h = (cs_handle s)\<lparr>rx_queue := q,
                               sequence_number := sequence_number (cs_handle s) + 1\<rparr>
                     in case write_payload p1 0
                               ([CANNELLONI_FRAME_VERSION, CNL_DATA, ucast (sequence_number (cs_handle s))]
                                @ be16 cnt) of
                          Inl e \<Rightarrow> Inl e
                        | Inr p2 \<Rightarrow>
                            (case udp_sendto (cnl_pcb h) (p2\<lparr>tot_len := pos, p_len := pos\<rparr> # ps)
                                    (init_addr h) (init_remote_port h) al (cs_net s) of
                               Inl e \<Rightarrow> Inl e
                             | Inr (c, al', net) \<Rightarrow>
                                 (case pbuf_free c al' of
                                    Inl e \<Rightarrow> Inl e
                                  | Inr (n, rest, al'') \<Rightarrow>
                                      Inr (pending, s\<lparr>cs_handle := h, cs_frames := st, cs_alloc := al'', cs_net := net\<rparr>)))))))"

section \<open>Exchanging frames with the CAN driver\<close>

text \<open>\<open>None\<close> is a loop that does not end; a \<open>can_tx_fn\<close> of \<open>None\<close> is a NULL callback.\<close>

partial_function (option) transmit_can_loop :: "'n can_tx_fn \<Rightarrow> 'n cnl_state \<Rightarrow> 'n cnl_state result option" where
  "transmit_can_loop tx_fn s =
     (case frame_front (cs_frames s, tx_queue (cs_handle s)) of
        Inl e \<Rightarrow> Some (Inl e)
      | Inr None \<Rightarrow> Some (Inr s)
      | Inr (Some f) \<Rightarrow>
          (case tx_fn (cs_handle s) f (cs_net s) of
             Inl e \<Rightarrow> Some (Inl e)
           | Inr (ok, net) \<Rightarrow>
               if \<not> ok then Some (Inr (s\<lparr>cs_net := net\<rparr>))
               else
                 (case queue_take (tx_queue (cs_handle s)) of
                    Inl e \<Rightarrow> Some (Inl e)
                  | Inr (fp, q) \<Rightarrow>
                      transmit_can_loop tx_fn
                        (s\<lparr>cs_net := net, cs_handle := (cs_handle s)\<lparr>tx_queue := q\<rparr>\<rparr>))))"

definition transmit_can_frames :: "'n can_tx_fn option \<Rightarrow> 'n cnl_state \<Rightarrow> 'n cnl_state result option" where
  "transmit_can_frames tx_fn s = (case tx_fn of None \<Rightarrow> Some (Inr s) | Some f \<Rightarrow> transmit_can_loop f s)"

definition receive_can_frames :: "'n can_rx_fn option \<Rightarrow> 'n cnl_state \<Rightarrow> 'n cnl_state result" where
  "receive_can_frames rx_fn s = (case rx_fn of None \<Rightarrow> Inr s | Some f \<Rightarrow> f s)"

definition get_can_rx_frame :: "'n cnl_state \<Rightarrow> (frame_ptr option \<times> 'n cnl_state) result" where
  "get_can_rx_frame s =
     map_sum id (\<lambda>(fp, q). (fp, s\<lparr>cs_handle := (cs_handle s)\<lparr>rx_queue := q\<rparr>\<rparr>)) (queue_put (rx_queue (cs_handle s)))"

partial_function (option) transmit_udp_loop ::
  "(nat \<Rightarrow> bytes) \<Rightarrow> 'n sendto_fn \<Rightarrow> 'n cnl_state \<Rightarrow> 'n cnl_state result option" where
  "transmit_udp_loop uninit udp_sendto s =
     (case transmit_udp_frame uninit udp_sendto s of
        Inl e \<Rightarrow> Some (Inl e)
      | Inr (pending, s') \<Rightarrow> if pending then transmit_udp_loop uninit udp_sendto s' else Some (Inr s'))"

definition run_cannelloni ::
  "(nat \<Rightarrow> bytes) \<Rightarrow> 'n sendto_fn \<Rightarrow> 'n can_tx_fn option \<Rightarrow> 'n can_rx_fn option \<Rightarrow> 'n cnl_state \<Rightarrow>
   'n cnl_state result" where
  "run_cannelloni uninit udp_sendto tx_fn rx_fn s =
     (case transmit_can_frames tx_fn s of
        None \<Rightarrow> Inl Hang
      | Some (Inl e) \<Rightarrow> Inl e
      | Some (Inr s1) \<Rightarrow>
          (case receive_can_frames rx_fn s1 of
             Inl e \<Rightarrow> Inl e
           | Inr s2 \<Rightarrow>
               (case transmit_udp_loop uninit udp_sendto s2 of
                  None \<Rightarrow> Inl Hang
                | Some r \<Rightarrow> r)))"

section \<open>The wire format\<close>

text \<open>
  The specification: a datagram is the version, the op code, the low byte of the sequence number,
  the number of frames and the frames; a frame is its id, its length byte and its data.
\<close>

definition encode_frame :: "canfd_frame \<Rightarrow> bytes" where
  "encode_frame f = be32 (can_id f) @ [frame_len f] @ take (unat (canfd_len f)) (frame_data f)"

definition encode_packet :: "u8 \<Rightarrow> canfd_frame list \<Rightarrow> bytes" where
  "encode_packet seq fs = [CANNELLONI_FRAME_VERSION, CNL_DATA, seq] @ be16 (of_nat (length fs))
     @ concat (map encode_frame fs)"

text \<open>A frame as the bus driver delivers it: an 8-byte data array and a length within it.\<close>

definition frame_wf :: "canfd_frame \<Rightarrow> bool" where
  "frame_wf f \<longleftrightarrow> length (frame_data f) = CNL_CANFD_MAX_DLEN \<and> unat (canfd_len f) \<le> CNL_CANFD_MAX_DLEN"

text \<open>The frames that the packing loop takes from the front of the queue.\<close>

fun fitting :: "nat \<Rightarrow> nat \<Rightarrow> canfd_frame list \<Rightarrow> canfd_frame list" where
  "fitting limit pos [] = []"
| "fitting limit pos (f # fs) =
     (if pos + 5 + unat (canfd_len f) < limit then f # fitting limit (pos + 5 + unat (canfd_len f)) fs else [])"

lemma length_encode_frame: "frame_wf f \<Longrightarrow> length (encode_frame f) = 5 + unat (canfd_len f)"
  by (simp add: encode_frame_def frame_wf_def)

lemma fitting_prefix: "fitting limit pos fs = take (length (fitting limit pos fs)) fs"
  by (induction limit pos fs rule: fitting.induct) auto

lemma fitting_subset: "set (fitting limit pos fs) \<subseteq> set fs"
  by (metis fitting_prefix set_take_subset)

lemma length_fitting_le: "length (fitting limit pos fs) \<le> length fs"
  by (induction limit pos fs rule: fitting.induct) auto

lemma fitting_size:
  "(\<forall>f \<in> set fs. frame_wf f) \<Longrightarrow> fitting limit pos fs \<noteq> [] \<Longrightarrow>
    pos + length (concat (map encode_frame (fitting limit pos fs))) < limit"
proof (induction limit pos fs rule: fitting.induct)
  case (2 limit pos f fs)
  then show ?case
    by (cases "fitting limit (pos + 5 + unat (canfd_len f)) fs = []")
       (auto simp: length_encode_frame split: if_splits)
qed simp

section \<open>Packing\<close>

lemma dequeue_store: "frame_dequeue s = Inr (Some (x, s')) \<Longrightarrow> fst s' = fst s"
  by (auto simp: frame_dequeue_def queue_take_def load_frame_def mem_get_def split: if_splits)

lemma transmit_frames_spec:
  assumes "queue_state_ok s" "state_contents s = fs" "\<forall>f \<in> set fs. frame_wf f"
    and "payload p + unat (tot_len p) \<le> length (pbuf_mem p)"
  shows "\<exists>s' pos'. let gs = fitting (unat (tot_len p)) (unat pos) fs; enc = concat (map encode_frame gs) in
      transmit_frames p pos cnt s =
        Inr (p\<lparr>pbuf_mem := put_bytes (pbuf_mem p) (payload p + unat pos) enc\<rparr>, pos',
             cnt + of_nat (length gs), length gs < length fs, s')
      \<and> unat pos' = unat pos + length enc \<and> queue_state_ok s' \<and> fst s' = fst s
      \<and> state_contents s' = drop (length gs) fs \<and> state_capacity s' = state_capacity s"
  using assms
proof (induction fs arbitrary: p pos cnt s)
  case Nil
  then have "frame_front s = Inr None" using cq.front_spec [of s] by simp
  then show ?case using Nil by (subst transmit_frames.simps) auto
next
  case (Cons f fs)
  let ?l = "canfd_len f" and ?e = "encode_frame f"
  have front: "frame_front s = Inr (Some f)" using cq.front_spec [OF Cons.prems(1)] Cons.prems(2) by simp
  have wf: "frame_wf f" using Cons.prems(3) by simp
  show ?case
  proof (cases "unat pos + 5 + unat ?l < unat (tot_len p)")
    case False
    then have "transmit_frames p pos cnt s = Inr (p, pos, cnt, True, s)"
      using front by (subst transmit_frames.simps) (simp add: cnl_consts)
    then show ?thesis using False Cons.prems by auto
  next
    case True
    obtain s1 where s1: "frame_dequeue s = Inr (Some (f, s1))" "queue_state_ok s1"
      "state_capacity s1 = state_capacity s" "state_contents s1 = fs"
      using cq.dequeue_Cons [OF Cons.prems(1,2)] by auto
    have st: "fst s1 = fst s" using s1(1) by (rule dequeue_store)
    define np where "np = pos + 4 + 1 + ucast ?l"
    have posl: "unat np = unat pos + 5 + unat ?l" unfolding np_def using True by (rule pos_advance)
    have pos5: "unat (pos + 5) = unat pos + 5"
      using True pos_advance [of pos 0 "tot_len p"] by (simp add: add.commute)
    have len: "length ?e = 5 + unat ?l" using wf by (rule length_encode_frame)
    define p2 where "p2 = p\<lparr>pbuf_mem := put_bytes (pbuf_mem p) (payload p + unat pos) ?e\<rparr>"
    have room: "payload p + unat pos + length ?e \<le> length (pbuf_mem p)" using True Cons.prems(4) len by simp
    let ?p1 = "p\<lparr>pbuf_mem := put_bytes (pbuf_mem p) (payload p + unat pos) (be32 (can_id f) @ [frame_len f])\<rparr>"
    have w1: "write_payload p (unat pos) (be32 (can_id f) @ [frame_len f]) = Inr ?p1"
      using room len by (intro write_payload_put) simp
    have w2: "write_payload ?p1 (unat (pos + 4 + 1)) (take (unat ?l) (frame_data f)) = Inr p2"
      using room len wf put_bytes_append [of "payload p + unat pos" "be32 (can_id f) @ [frame_len f]"
          "take (unat ?l) (frame_data f)" "pbuf_mem p"]
      by (subst write_payload_put) (auto simp: pos5 p2_def encode_frame_def frame_wf_def add.assoc)
    have step: "transmit_frames p pos cnt s = transmit_frames p2 np (cnt + 1) s1"
      using front True s1(1) w1 w2 wf
      by (subst transmit_frames.simps) (simp add: cnl_consts frame_wf_def np_def)
    let ?gs = "fitting (unat (tot_len p)) (unat pos + 5 + unat ?l) fs"
    let ?enc = "concat (map encode_frame ?gs)"
    have fields: "tot_len p2 = tot_len p" "payload p2 = payload p" "length (pbuf_mem p2) = length (pbuf_mem p)"
      using room by (simp_all add: p2_def)
    obtain s' pos' where IH: "transmit_frames p2 np (cnt + 1) s1 =
        Inr (p2\<lparr>pbuf_mem := put_bytes (pbuf_mem p2) (payload p + (unat pos + 5 + unat ?l)) ?enc\<rparr>, pos',
             cnt + 1 + of_nat (length ?gs), length ?gs < length fs, s')"
      "unat pos' = unat pos + 5 + unat ?l + length ?enc" "queue_state_ok s'" "fst s' = fst s1"
      "state_contents s' = drop (length ?gs) fs" "state_capacity s' = state_capacity s1"
      using Cons.IH [OF s1(2,4), of p2 np "cnt + 1"] Cons.prems(3,4)
      by (auto simp: Let_def fields posl)
    have "?gs \<noteq> [] \<Longrightarrow> unat pos + 5 + unat ?l + length ?enc < unat (tot_len p)"
      using fitting_size [of fs "unat (tot_len p)" "unat pos + 5 + unat ?l"] Cons.prems(3) by simp
    then have enc_room: "payload p + unat pos + length ?e + length ?enc \<le> length (pbuf_mem p)"
      using Cons.prems(4) True len by (cases "?gs = []") auto
    have "p2\<lparr>pbuf_mem := put_bytes (pbuf_mem p2) (payload p + (unat pos + 5 + unat ?l)) ?enc\<rparr>
        = p\<lparr>pbuf_mem := put_bytes (pbuf_mem p) (payload p + unat pos) (?e @ ?enc)\<rparr>"
      using put_bytes_append [OF enc_room] len by (simp add: p2_def add.assoc)
    then show ?thesis
      using True step IH st s1(3) len by (auto simp: Let_def add.assoc)
  qed
qed

text \<open>
  What \<open>transmit_udp_frame\<close> hands to \<open>udp_sendto\<close>: one contiguous pbuf with the encoding of the
  frames that fit, in queue order.
\<close>

definition rx_frames :: "'n cnl_state \<Rightarrow> canfd_frame list" where
  "rx_frames s = queue_contents (cs_frames s) (rx_queue (cs_handle s))"

definition tx_frames :: "'n cnl_state \<Rightarrow> canfd_frame list" where
  "tx_frames s = queue_contents (cs_frames s) (tx_queue (cs_handle s))"

definition cnl_ok :: "'n cnl_state \<Rightarrow> bool" where
  "cnl_ok s \<longleftrightarrow> queue_ok (cs_frames s) (rx_queue (cs_handle s))
     \<and> queue_ok (cs_frames s) (tx_queue (cs_handle s)) \<and> heap_ok (al_heap (cs_alloc s))"

definition packet_frames :: "'n cnl_state \<Rightarrow> canfd_frame list" where
  "packet_frames s = fitting 1200 5 (rx_frames s)"

lemma ram_len_1200: "ram_len PBUF_TRANSPORT 1200 = 1276" "LWIP_MEM_ALIGN_SIZE (unat (layer_offset PBUF_TRANSPORT)) = 76"
  by (simp_all add: ram_len_def LWIP_MEM_ALIGN_SIZE_def)

lemma packet_bytes:
  assumes "length mem = 1276" "5 + length enc < 1200" "length hb = 5" "unat pos = 5 + length enc"
    and pl: "payload p = 76"
  shows "write_payload (p\<lparr>pbuf_mem := put_bytes mem 81 enc\<rparr>) 0 hb
      = Inr (p\<lparr>pbuf_mem := put_bytes mem 76 (hb @ enc)\<rparr>)"
    and "pbuf_bytes (p\<lparr>pbuf_mem := put_bytes mem 76 (hb @ enc), tot_len := pos, p_len := pos\<rparr>) = hb @ enc"
proof -
  show "write_payload (p\<lparr>pbuf_mem := put_bytes mem 81 enc\<rparr>) 0 hb
      = Inr (p\<lparr>pbuf_mem := put_bytes mem 76 (hb @ enc)\<rparr>)"
    using assms put_bytes_prepend [of 76 hb enc mem] by (subst write_payload_put) auto
  show "pbuf_bytes (p\<lparr>pbuf_mem := put_bytes mem 76 (hb @ enc), tot_len := pos, p_len := pos\<rparr>) = hb @ enc"
    using assms take_put_bytes [of 76 "hb @ enc" mem] by (simp add: pbuf_bytes_def)
qed

text \<open>A packet as \<open>transmit_udp_frame\<close> sends it: one pbuf from the heap, with room for the headers.\<close>

definition tx_packet :: "pbuf \<Rightarrow> bool" where
  "tx_packet p \<longleftrightarrow> chain_ok [p] \<and> payload p = 76 \<and> type_internal p = 0x80 \<and> unat (tot_len p) < 1200 \<and> p_ref p = 1"

lemma tx_packet_simps: "tx_packet p \<Longrightarrow> chain_ok [p]" "tx_packet p \<Longrightarrow> p_ref p = 1" "tx_packet p \<Longrightarrow> pbuf_get_allocsrc p = 0"
  by (simp_all add: tx_packet_def pbuf_get_allocsrc_def)

lemma transmit_udp_frame_packet:
  fixes s :: "'n cnl_state"
  assumes ok: "cnl_ok s" and wf: "\<forall>f \<in> set (rx_frames s). frame_wf f" and un: "fresh_ok uninit"
    and ne: "rx_frames s \<noteq> []"
  defines "gs \<equiv> packet_frames s"
  shows "pbuf_alloc uninit PBUF_TRANSPORT 1200 PBUF_RAM (cs_alloc s) = Inr ([], cs_alloc s)
        \<and> transmit_udp_frame uninit sendto s = Inr (False, s)
    \<or> (\<exists>p al q k. tx_packet p \<and> chain_data [p] = encode_packet (ucast (sequence_number (cs_handle s))) gs
        \<and> heap_ok (al_heap al) \<and> al_memp al = al_memp (cs_alloc s)
        \<and> live (al_heap (cs_alloc s)) (pbuf_addr p) = None
        \<and> live (al_heap al) = (live (al_heap (cs_alloc s)))(pbuf_addr p \<mapsto> k)
        \<and> queue_ok (cs_frames s) q \<and> queue_contents (cs_frames s) q = drop (length gs) (rx_frames s)
        \<and> transmit_udp_frame uninit sendto s =
          (case sendto (cnl_pcb (cs_handle s)) [p] (init_addr (cs_handle s)) (init_remote_port (cs_handle s))
                  al (cs_net s) of
             Inl e \<Rightarrow> Inl e
           | Inr (c, al', net) \<Rightarrow>
               (case pbuf_free c al' of
                  Inl e \<Rightarrow> Inl e
                | Inr (n, rest, al'') \<Rightarrow>
                    Inr (length gs < length (rx_frames s),
                      s\<lparr>cs_handle := (cs_handle s)\<lparr>rx_queue := q, sequence_number := sequence_number (cs_handle s) + 1\<rparr>,
                        cs_alloc := al'', cs_net := net\<rparr>))))"
proof -
  let ?q = "(cs_frames s, rx_queue (cs_handle s))" and ?enc = "concat (map encode_frame gs)"
  let ?hb = "[CANNELLONI_FRAME_VERSION, CNL_DATA, ucast (sequence_number (cs_handle s))] @ be16 (of_nat (length gs))"
  have qok: "queue_state_ok ?q" and hok: "heap_ok (al_heap (cs_alloc s))" and cont: "state_contents ?q = rx_frames s"
    using ok by (simp_all add: cnl_ok_def rx_frames_def)
  obtain f fs where f: "rx_frames s = f # fs" using ne by (cases "rx_frames s") auto
  have front: "frame_front ?q = Inr (Some f)" using cq.front_spec [OF qok] cont f by simp
  obtain c al where a: "pbuf_alloc uninit PBUF_TRANSPORT 1200 PBUF_RAM (cs_alloc s) = Inr (c, al)"
    "heap_ok (al_heap al)" "al_memp al = al_memp (cs_alloc s)"
    and alt: "c = [] \<and> al = cs_alloc s \<or> (\<exists>a k. c = [pbuf_init_alloced_pbuf a (uninit 1276) 76 1200 1200 PBUF_RAM 0]
      \<and> live (al_heap (cs_alloc s)) a = None \<and> live (al_heap al) = (live (al_heap (cs_alloc s)))(a \<mapsto> k))"
    using pbuf_alloc_ram [OF hok, of uninit PBUF_TRANSPORT 1200] unfolding ram_len_1200 by blast
  from alt show ?thesis
  proof
    assume "c = [] \<and> al = cs_alloc s"
    then show ?thesis using front a by (simp add: transmit_udp_frame_def)
  next
    assume "\<exists>a k. c = [pbuf_init_alloced_pbuf a (uninit 1276) 76 1200 1200 PBUF_RAM 0]
      \<and> live (al_heap (cs_alloc s)) a = None \<and> live (al_heap al) = (live (al_heap (cs_alloc s)))(a \<mapsto> k)"
    then obtain x k where c: "c = [pbuf_init_alloced_pbuf x (uninit 1276) 76 1200 1200 PBUF_RAM 0]"
      and lv: "live (al_heap (cs_alloc s)) x = None" "live (al_heap al) = (live (al_heap (cs_alloc s)))(x \<mapsto> k)" by blast
    define b where "b = pbuf_init_alloced_pbuf x (uninit 1276) 76 1200 1200 PBUF_RAM 0"
    have bf: "pbuf_mem b = uninit 1276" "payload b = 76" "tot_len b = 1200" "length (pbuf_mem b) = 1276"
      "pbuf_addr b = x" "p_ref b = 1" "type_internal b = 0x80"
      using un by (simp_all add: b_def pbuf_init_alloced_pbuf_def fresh_ok_def)
    obtain s' pos' where t: "transmit_frames b 5 0 ?q = Inr (b\<lparr>pbuf_mem := put_bytes (pbuf_mem b) 81 ?enc\<rparr>, pos',
          of_nat (length gs), length gs < length (rx_frames s), s')"
      "unat pos' = 5 + length ?enc" "queue_state_ok s'" "fst s' = cs_frames s"
      "state_contents s' = drop (length gs) (rx_frames s)"
      using transmit_frames_spec [OF qok cont wf, of b 5 0] bf
      by (auto simp: Let_def gs_def packet_frames_def)
    have gne: "gs \<noteq> []"
      using f wf by (auto simp: gs_def packet_frames_def frame_wf_def cnl_consts)
    then have small: "5 + length ?enc < 1200"
      using fitting_size [of "rx_frames s" 1200 5] wf by (simp add: gs_def packet_frames_def)
    define p where "p = b\<lparr>pbuf_mem := put_bytes (pbuf_mem b) 76 (?hb @ ?enc), tot_len := pos', p_len := pos'\<rparr>"
    have w: "write_payload (b\<lparr>pbuf_mem := put_bytes (pbuf_mem b) 81 ?enc\<rparr>) 0 ?hb
        = Inr (b\<lparr>pbuf_mem := put_bytes (pbuf_mem b) 76 (?hb @ ?enc)\<rparr>)"
      using packet_bytes(1) [of "pbuf_mem b" ?enc ?hb pos' b] bf small t(2) by simp
    have "pbuf_bytes p = ?hb @ ?enc"
      using packet_bytes(2) [of "pbuf_mem b" ?enc ?hb pos' b] bf small t(2) by (simp add: p_def)
    then have "chain_data [p] = encode_packet (ucast (sequence_number (cs_handle s))) gs"
      by (simp add: encode_packet_def)
    moreover have "tx_packet p" "pbuf_addr p = x" using bf small t(2) by (simp_all add: tx_packet_def p_def)
    moreover obtain q where q: "s' = (cs_frames s, q)" using t(4) by (cases s') auto
    moreover have "transmit_udp_frame uninit sendto s =
          (case sendto (cnl_pcb (cs_handle s)) [p] (init_addr (cs_handle s)) (init_remote_port (cs_handle s))
                  al (cs_net s) of
             Inl e \<Rightarrow> Inl e
           | Inr (c, al', net) \<Rightarrow>
               (case pbuf_free c al' of
                  Inl e \<Rightarrow> Inl e
                | Inr (n, rest, al'') \<Rightarrow>
                    Inr (length gs < length (rx_frames s),
                      s\<lparr>cs_handle := (cs_handle s)\<lparr>rx_queue := q, sequence_number := sequence_number (cs_handle s) + 1\<rparr>,
                        cs_alloc := al'', cs_net := net\<rparr>)))"
      using front a(1) c t(1) w q
      by (auto simp: transmit_udp_frame_def b_def [symmetric] p_def cnl_consts split: sum.splits)
    ultimately show ?thesis
      using a(2,3) lv t(3,5)
      by (intro disjI2 exI [of _ p] exI [of _ al] exI [of _ q] exI [of _ k] conjI) simp_all
  qed
qed

section \<open>The send loop ends\<close>

text \<open>
  What the loop relies on of \<open>udp_sendto\<close>: it returns, keeps the heap well formed and leaves the
  caller's reference to the pbuf; the driver may have taken one more reference.
\<close>

definition sendto_ok :: "'n sendto_fn \<Rightarrow> bool" where
  "sendto_ok sendto \<longleftrightarrow>
     (\<forall>pcb p a port al net. heap_ok (al_heap al) \<and> tx_packet p \<and> live (al_heap al) (pbuf_addr p) \<noteq> None \<longrightarrow>
        (\<exists>p' al' net'. sendto pcb [p] a port al net = Inr ([p'], al', net') \<and> heap_ok (al_heap al')
          \<and> pbuf_addr p' = pbuf_addr p \<and> pbuf_get_allocsrc p' = 0
          \<and> live (al_heap al') (pbuf_addr p) \<noteq> None \<and> (p_ref p' = 1 \<or> p_ref p' = 2)))"

lemma fitting_ne: "frame_wf f \<Longrightarrow> fitting 1200 5 (f # fs) \<noteq> []"
  by (auto simp: frame_wf_def cnl_consts)

lemma transmit_udp_frame_ok:
  fixes s :: "'n cnl_state"
  assumes ok: "cnl_ok s" and wf: "\<forall>f \<in> set (rx_frames s). frame_wf f" and un: "fresh_ok uninit"
    and snd: "sendto_ok sendto"
  shows "\<exists>pending s' k. transmit_udp_frame uninit sendto s = Inr (pending, s') \<and> cnl_ok s'
    \<and> rx_frames s' = drop k (rx_frames s) \<and> (pending \<longrightarrow> 0 < k \<and> k < length (rx_frames s))
    \<and> cs_frames s' = cs_frames s \<and> tx_queue (cs_handle s') = tx_queue (cs_handle s)"
proof (cases "rx_frames s")
  case Nil
  then have "frame_front (cs_frames s, rx_queue (cs_handle s)) = Inr None"
    using ok cq.front_spec [of "(cs_frames s, rx_queue (cs_handle s))"] by (simp add: cnl_ok_def rx_frames_def)
  then have "transmit_udp_frame uninit sendto s = Inr (False, s)" by (simp add: transmit_udp_frame_def)
  then show ?thesis using ok by (intro exI [of _ False] exI [of _ s] exI [of _ 0]) simp
next
  case (Cons f fs)
  then have ne: "rx_frames s \<noteq> []" by simp
  have stuck: ?thesis if "transmit_udp_frame uninit sendto s = Inr (False, s)"
    using that ok by (intro exI [of _ False] exI [of _ s] exI [of _ 0]) simp
  from transmit_udp_frame_packet [OF ok wf un ne, of sendto] show ?thesis
  proof (elim disjE exE conjE)
    fix p al q k
    let ?gs = "packet_frames s"
    let ?s' = "\<lambda>al net. s\<lparr>cs_handle := (cs_handle s)\<lparr>rx_queue := q, sequence_number := sequence_number (cs_handle s) + 1\<rparr>,
      cs_alloc := al, cs_net := net\<rparr>"
    assume p: "tx_packet p" and al: "heap_ok (al_heap al)"
      "live (al_heap al) = (live (al_heap (cs_alloc s)))(pbuf_addr p \<mapsto> k)"
      and q: "queue_ok (cs_frames s) q" "queue_contents (cs_frames s) q = drop (length ?gs) (rx_frames s)"
      and t: "transmit_udp_frame uninit sendto s =
        (case sendto (cnl_pcb (cs_handle s)) [p] (init_addr (cs_handle s)) (init_remote_port (cs_handle s)) al (cs_net s) of
           Inl e \<Rightarrow> Inl e
         | Inr (c, al', net) \<Rightarrow>
             (case pbuf_free c al' of Inl e \<Rightarrow> Inl e
              | Inr (n, rest, al'') \<Rightarrow> Inr (length ?gs < length (rx_frames s), ?s' al'' net)))"
    obtain p' al' net where r: "sendto (cnl_pcb (cs_handle s)) [p] (init_addr (cs_handle s))
        (init_remote_port (cs_handle s)) al (cs_net s) = Inr ([p'], al', net)" "heap_ok (al_heap al')"
      "pbuf_get_allocsrc p' = 0" "live (al_heap al') (pbuf_addr p') \<noteq> None" "p_ref p' = 1 \<or> p_ref p' = 2"
      using snd p al unfolding sendto_ok_def by (metis fun_upd_same option.simps(3))
    have "\<exists>n rest al''. pbuf_free [p'] al' = Inr (n, rest, al'') \<and> heap_ok (al_heap al'')"
      using r(5)
    proof
      assume "p_ref p' = 1"
      then show ?thesis using pbuf_free_ram [OF r(2) _ r(3)] r(4) by fastforce
    qed (use r(2) in \<open>auto simp: pbuf_free_def\<close>)
    then obtain n rest al'' where fr: "pbuf_free [p'] al' = Inr (n, rest, al'')" "heap_ok (al_heap al'')" by blast
    have "cnl_ok (?s' al'' net)" "rx_frames (?s' al'' net) = drop (length ?gs) (rx_frames s)"
      using ok q fr(2) by (simp_all add: cnl_ok_def rx_frames_def)
    moreover have "0 < length ?gs" using fitting_ne [of f fs] wf Cons by (simp add: packet_frames_def)
    ultimately show ?thesis using t r(1) fr(1)
      by (intro exI [of _ "length ?gs < length (rx_frames s)"] exI [of _ "?s' al'' net"] exI [of _ "length ?gs"]) simp
  qed (rule stuck)
qed

lemma transmit_udp_loop_ends:
  fixes s :: "'n cnl_state"
  assumes "cnl_ok s" "\<forall>f \<in> set (rx_frames s). frame_wf f" "fresh_ok uninit" "sendto_ok sendto"
  shows "\<exists>s' k. transmit_udp_loop uninit sendto s = Some (Inr s') \<and> cnl_ok s'
    \<and> rx_frames s' = drop k (rx_frames s) \<and> cs_frames s' = cs_frames s
    \<and> tx_queue (cs_handle s') = tx_queue (cs_handle s)"
  using assms(1,2)
proof (induction "length (rx_frames s)" arbitrary: s rule: less_induct)
  case less
  obtain pending s1 k where t: "transmit_udp_frame uninit sendto s = Inr (pending, s1)" "cnl_ok s1"
    "rx_frames s1 = drop k (rx_frames s)" "pending \<longrightarrow> 0 < k \<and> k < length (rx_frames s)"
    "cs_frames s1 = cs_frames s" "tx_queue (cs_handle s1) = tx_queue (cs_handle s)"
    using transmit_udp_frame_ok [OF less.prems assms(3,4)] by blast
  show ?case
  proof (cases pending)
    case False
    then show ?thesis using t by (subst transmit_udp_loop.simps) auto
  next
    case True
    have "length (rx_frames s1) < length (rx_frames s)" "\<forall>f \<in> set (rx_frames s1). frame_wf f"
      using True t(3,4) less.prems(2) by (auto dest: in_set_dropD)
    from less.hyps [OF this(1) t(2) this(2)] True t show ?thesis
      by (subst transmit_udp_loop.simps) (auto simp: drop_drop)
  qed
qed

section \<open>Unpacking\<close>

definition bytes_at :: "bytes \<Rightarrow> nat \<Rightarrow> bytes \<Rightarrow> bool" where
  "bytes_at mem i bs \<longleftrightarrow> i + length bs \<le> length mem \<and> take (length bs) (drop i mem) = bs"

lemma bytes_at_append:
  "bytes_at mem i (a @ b) \<longleftrightarrow> bytes_at mem i a \<and> bytes_at mem (i + length a) b"
  by (auto simp: bytes_at_def take_add add.commute add.left_commute append_eq_append_conv)

lemma bytes_at_read: "bytes_at mem i bs \<Longrightarrow> n = length bs \<Longrightarrow> mem_read mem i n = Inr bs"
  by (simp add: bytes_at_def mem_read_def)

text \<open>What the protocol transports of a frame, and the frames it transports unchanged.\<close>

definition frame_view :: "canfd_frame \<Rightarrow> u32 \<times> u8 \<times> bytes" where
  "frame_view f = (can_id f, frame_len f, take (unat (canfd_len f)) (frame_data f))"

definition plain_frame :: "canfd_frame \<Rightarrow> bool" where
  "plain_frame f \<longleftrightarrow> frame_wf f \<and> frame_len f AND CANFD_FRAME = 0 \<and> can_id f AND CAN_RTR_FLAG = 0"

lemma parse_one:
  assumes at: "bytes_at mem (pl + unat pos) (encode_frame f)" and f: "plain_frame f"
    and tot: "unat pos + length (encode_frame f) \<le> unat tot"
  shows "parse_frames mem pl tot (Suc n) pos s =
    (case frame_enqueue (fill_frame (can_id f) (frame_len f) 0 (take (unat (canfd_len f)) (frame_data f))) s of
       Inl e \<Rightarrow> Inl e
     | Inr None \<Rightarrow> Inr s
     | Inr (Some s') \<Rightarrow> parse_frames mem pl tot n (pos + 4 + 1 + ucast (canfd_len f)) s')"
proof -
  let ?l = "canfd_len f"
  have wf: "frame_wf f" using f by (simp add: plain_frame_def)
  have len: "length (encode_frame f) = 5 + unat ?l" using wf by (rule length_encode_frame)
  have h: "bytes_at mem (pl + unat pos) (be32 (can_id f) @ [frame_len f])"
    and d: "bytes_at mem (pl + unat pos + 5) (take (unat ?l) (frame_data f))"
    using at bytes_at_append [of mem "pl + unat pos" "be32 (can_id f) @ [frame_len f]" "take (unat ?l) (frame_data f)"]
    by (simp_all add: encode_frame_def)
  have "unat tot < 65536" using unsigned_less [of tot] by simp
  then have pos5: "unat (5 + pos) = unat pos + 5" "unat (pos + 5) = unat pos + 5"
    using tot len by (simp_all add: unat_word_ariths)
  have rd: "mem_read mem (pl + unat pos) 5 = Inr (be32 (can_id f) @ [frame_len f])"
    using h by (rule bytes_at_read) simp
  have ld: "length (take (unat ?l) (frame_data f)) = unat ?l" using wf by (simp add: frame_wf_def)
  have dt: "take (unat ?l) (drop (pl + (unat pos + 5)) mem) = take (unat ?l) (frame_data f)"
    and lm: "pl + (unat pos + 5) + unat ?l \<le> length mem"
    using d unfolding bytes_at_def ld by (simp_all add: add.assoc)
  have fd: "frame_len f AND CANFD_FRAME = 0" "can_id f AND CAN_RTR_FLAG = 0"
    using f by (auto simp: plain_frame_def)
  show ?thesis
    using rd tot len wf lm dt fd
    by (auto simp: cnl_consts frame_wf_def canfd_len_def [symmetric] be32_def wire_simps pos5 Let_def
        split: sum.splits option.splits)
qed

lemma fill_frame_view:
  "unat (canfd_len f) \<le> length (frame_data f) \<Longrightarrow>
    frame_view (fill_frame (can_id f) (frame_len f) fl (take (unat (canfd_len f)) (frame_data f)) old) = frame_view f"
  by (simp add: frame_view_def fill_frame_def canfd_len_def min_def)

lemma parse_frames_spec:
  assumes "queue_state_ok s" "bytes_at mem (pl + unat pos) (concat (map encode_frame fs))"
    and "\<forall>f \<in> set fs. plain_frame f" "unat pos + length (concat (map encode_frame fs)) \<le> unat tot"
  shows "\<exists>s'. parse_frames mem pl tot (length fs) pos s = Inr s' \<and> queue_state_ok s'
    \<and> state_capacity s' = state_capacity s
    \<and> map frame_view (state_contents s') = map frame_view (state_contents s)
        @ map frame_view (take (state_capacity s - length (state_contents s)) fs)"
  using assms
proof (induction fs arbitrary: pos s)
  case (Cons f fs)
  have f: "plain_frame f" "frame_wf f" using Cons.prems(3) by (auto simp: plain_frame_def)
  have len: "length (encode_frame f) = 5 + unat (canfd_len f)" using f(2) by (rule length_encode_frame)
  have at: "bytes_at mem (pl + unat pos) (encode_frame f)"
    "bytes_at mem (pl + unat pos + length (encode_frame f)) (concat (map encode_frame fs))"
    using Cons.prems(2) by (simp_all add: bytes_at_append)
  define np where "np = pos + 4 + 1 + ucast (canfd_len f)"
  have "unat tot < 65536" using unsigned_less [of tot] by simp
  then have np: "unat np = unat pos + length (encode_frame f)"
    using Cons.prems(4) len by (simp add: np_def unat_word_ariths unat_ucast_u8)
  let ?fill = "fill_frame (can_id f) (frame_len f) 0 (take (unat (canfd_len f)) (frame_data f))"
  have one: "parse_frames mem pl tot (length (f # fs)) pos s =
    (case frame_enqueue ?fill s of Inl e \<Rightarrow> Inl e | Inr None \<Rightarrow> Inr s
     | Inr (Some s') \<Rightarrow> parse_frames mem pl tot (length fs) np s')"
    unfolding np_def
    using parse_one [OF at(1) f(1), of tot "length fs" s] Cons.prems(4) by (simp del: parse_frames.simps)
  show ?case
  proof (cases "length (state_contents s) < state_capacity s")
    case True
    obtain old s1 where s1: "frame_enqueue ?fill s = Inr (Some s1)" "queue_state_ok s1"
      "state_capacity s1 = state_capacity s" "state_contents s1 = state_contents s @ [?fill old]"
      using cq.enqueue_room [OF Cons.prems(1) True, of ?fill] by blast
    have view: "frame_view (?fill old) = frame_view f"
      using f(2) by (intro fill_frame_view) (simp add: frame_wf_def)
    obtain s' where "parse_frames mem pl tot (length fs) np s1 = Inr s'" "queue_state_ok s'"
      "state_capacity s' = state_capacity s1"
      "map frame_view (state_contents s') = map frame_view (state_contents s1)
        @ map frame_view (take (state_capacity s1 - length (state_contents s1)) fs)"
      using Cons.IH [OF s1(2), of np] at(2) np Cons.prems(3,4) by (auto simp: add.assoc)
    moreover define k where "k = state_capacity s1 - length (state_contents s1)"
    moreover have cap: "state_capacity s - length (state_contents s) = Suc k"
      using True unfolding k_def s1(3,4) by simp
    ultimately show ?thesis
      unfolding cap using one s1 view by (simp del: parse_frames.simps length_queue_contents)
  next
    case False
    then have "length (state_contents s) = state_capacity s" using cq.bounded [OF Cons.prems(1)] by simp
    then show ?thesis
      using one cq.enqueue_full [OF Cons.prems(1)] Cons.prems(1) by (simp del: parse_frames.simps)
  qed
qed simp

section \<open>Handing frames to the bus\<close>

text \<open>
  The specification: the queued frames are offered to the driver in order until it refuses one;
  the accepted ones leave the queue.
\<close>

fun offer :: "(canfd_frame \<Rightarrow> 'n \<Rightarrow> (bool \<times> 'n) result) \<Rightarrow> canfd_frame list \<Rightarrow> 'n \<Rightarrow> (canfd_frame list \<times> 'n) result" where
  "offer tx [] n = Inr ([], n)"
| "offer tx (f # fs) n =
     (case tx f n of
        Inl e \<Rightarrow> Inl e
      | Inr (ok, n') \<Rightarrow> if ok then offer tx fs n' else Inr (f # fs, n'))"

lemma transmit_can_loop_spec:
  fixes s :: "'n cnl_state"
  assumes "queue_ok (cs_frames s) (tx_queue (cs_handle s))"
  shows "case offer tx (tx_frames s) (cs_net s) of
      Inl e \<Rightarrow> transmit_can_loop (\<lambda>_. tx) s = Some (Inl e)
    | Inr (rest, n) \<Rightarrow> \<exists>q. transmit_can_loop (\<lambda>_. tx) s =
          Some (Inr (s\<lparr>cs_net := n, cs_handle := (cs_handle s)\<lparr>tx_queue := q\<rparr>\<rparr>))
        \<and> queue_ok (cs_frames s) q \<and> queue_contents (cs_frames s) q = rest"
  using assms
proof (induction "tx_frames s" arbitrary: s)
  case Nil
  let ?q = "(cs_frames s, tx_queue (cs_handle s))"
  have "frame_front ?q = Inr None"
    using cq.front_spec [of ?q] Nil by (simp add: tx_frames_def)
  then have "transmit_can_loop (\<lambda>_. tx) s = Some (Inr s)" by (subst transmit_can_loop.simps) simp
  moreover have "s\<lparr>cs_net := cs_net s, cs_handle := (cs_handle s)\<lparr>tx_queue := tx_queue (cs_handle s)\<rparr>\<rparr> = s" by simp
  moreover have "queue_contents (cs_frames s) (tx_queue (cs_handle s)) = []"
    using Nil(1) by (simp add: tx_frames_def)
  ultimately show ?case using Nil(2) unfolding Nil(1) [symmetric]
    by (auto intro!: exI [of _ "tx_queue (cs_handle s)"])
next
  case (Cons f fs)
  let ?tq = "tx_queue (cs_handle s)" and ?st = "cs_frames s"
  have c: "queue_contents ?st ?tq = f # fs" using Cons(2) by (simp add: tx_frames_def)
  have front: "frame_front (?st, ?tq) = Inr (Some f)"
    using cq.front_spec [of "(?st, ?tq)"] Cons(3) c by simp
  have ne: "0 < queue_length ?tq" using c length_queue_contents [of ?st ?tq] by (simp del: length_queue_contents)
  define q where "q = ?tq\<lparr>q_head := (q_head ?tq + 1) mod q_count ?tq\<rparr>"
  have take: "queue_take ?tq = Inr (Some (q_frames ?tq, q_head ?tq), q)"
    unfolding q_def by (rule queue_take_nonempty [OF Cons(3) ne])
  have q: "queue_ok ?st q" "queue_contents ?st q = fs"
    using queue_contents_Cons [OF Cons(3) ne] c by (simp_all add: q_def)
  show ?case
  proof (cases "tx f (cs_net s)")
    case (Inl e)
    then show ?thesis
      using front Cons(2) by (subst transmit_can_loop.simps) (auto simp: Cons(2) [symmetric])
  next
    case (Inr r)
    obtain ok n where r: "r = (ok, n)" by (cases r)
    define s1 where "s1 = s\<lparr>cs_net := n, cs_handle := (cs_handle s)\<lparr>tx_queue := q\<rparr>\<rparr>"
    show ?thesis
    proof (cases ok)
      case False
      then have "transmit_can_loop (\<lambda>_. tx) s = Some (Inr (s\<lparr>cs_net := n\<rparr>))"
        using front Inr r by (subst transmit_can_loop.simps) simp
      then show ?thesis using Inr r False Cons(2,3) c
        by (auto simp: Cons(2) [symmetric] intro!: exI [of _ ?tq])
    next
      case True
      have step: "transmit_can_loop (\<lambda>_. tx) s = transmit_can_loop (\<lambda>_. tx) s1"
        using front Inr r True take by (subst transmit_can_loop.simps) (simp add: s1_def)
      have s1: "fs = tx_frames s1" "queue_ok (cs_frames s1) (tx_queue (cs_handle s1))"
        using q by (simp_all add: s1_def tx_frames_def)
      have off: "offer tx (tx_frames s) (cs_net s) = offer tx (tx_frames s1) (cs_net s1)"
        using Inr r True s1(1) by (simp add: Cons(2) [symmetric]) (simp add: s1_def)
      show ?thesis
        using Cons(1) [OF s1] unfolding off step by (auto simp: s1_def split: sum.splits)
    qed
  qed
qed

lemma offer_total:
  "(\<And>f n. f \<in> set fs \<Longrightarrow> \<exists>r. tx f n = Inr r) \<Longrightarrow> \<exists>k n'. offer tx fs n = Inr (drop k fs, n')"
proof (induction fs arbitrary: n)
  case (Cons f fs)
  obtain ok n' where t: "tx f n = Inr (ok, n')" using Cons.prems [of f n] by auto
  obtain k n'' where o: "offer tx fs n' = Inr (drop k fs, n'')" using Cons by fastforce
  show ?case
  proof (cases ok)
    case True
    with t o show ?thesis by (intro exI [of _ "Suc k"] exI [of _ n'']) simp
  next
    case False
    with t show ?thesis by (intro exI [of _ 0] exI [of _ n']) simp
  qed
qed simp

lemma transmit_can_frames_ends:
  fixes s :: "'n cnl_state"
  assumes "queue_ok (cs_frames s) (tx_queue (cs_handle s))"
    and "\<And>f n. f \<in> set (tx_frames s) \<Longrightarrow> \<exists>r. tx f n = Inr r"
  shows "\<exists>q n. transmit_can_frames (Some (\<lambda>_. tx)) s =
      Some (Inr (s\<lparr>cs_net := n, cs_handle := (cs_handle s)\<lparr>tx_queue := q\<rparr>\<rparr>)) \<and> queue_ok (cs_frames s) q"
proof -
  obtain rest n where "offer tx (tx_frames s) (cs_net s) = Inr (rest, n)"
    using offer_total [of "tx_frames s" tx "cs_net s"] assms(2) by blast
  then show ?thesis
    using transmit_can_loop_spec [OF assms(1), of tx] by (auto simp: transmit_can_frames_def)
qed

text \<open>
  One round: the state after it has the frame arrays that the receive callback left.
\<close>

lemma run_cannelloni_ends:
  fixes s :: "'n cnl_state"
  assumes ok: "cnl_ok s" and un: "fresh_ok uninit" "sendto_ok sendto"
    and tx: "\<And>f n. f \<in> set (tx_frames s) \<Longrightarrow> \<exists>x. tx f n = Inr x"
    and rx: "\<And>s'. cnl_ok s' \<Longrightarrow> cs_frames s' = cs_frames s \<Longrightarrow> rx_queue (cs_handle s') = rx_queue (cs_handle s) \<Longrightarrow>
      \<exists>s''. rx s' = Inr s'' \<and> cnl_ok s'' \<and> (\<forall>f \<in> set (rx_frames s''). frame_wf f) \<and> P (cs_frames s'')"
  shows "\<exists>s'. run_cannelloni uninit sendto (Some (\<lambda>_. tx)) (Some rx) s = Inr s' \<and> cnl_ok s' \<and> P (cs_frames s')"
proof -
  obtain q n where t: "transmit_can_frames (Some (\<lambda>_. tx)) s =
      Some (Inr (s\<lparr>cs_net := n, cs_handle := (cs_handle s)\<lparr>tx_queue := q\<rparr>\<rparr>))" "queue_ok (cs_frames s) q"
    using transmit_can_frames_ends [of s tx] ok tx by (auto simp: cnl_ok_def)
  let ?s1 = "s\<lparr>cs_net := n, cs_handle := (cs_handle s)\<lparr>tx_queue := q\<rparr>\<rparr>"
  obtain s2 where s2: "rx ?s1 = Inr s2" "cnl_ok s2" "\<forall>f \<in> set (rx_frames s2). frame_wf f" "P (cs_frames s2)"
    using rx [of ?s1] ok t(2) by (auto simp: cnl_ok_def)
  from transmit_udp_loop_ends [OF s2(2,3) un] t(1) s2(1,4) show ?thesis
    by (auto simp: run_cannelloni_def receive_can_frames_def)
qed

section \<open>Receiving a datagram\<close>

lemma pbuf_bytes_at:
  "chain_ok [p] \<Longrightarrow> bytes_at (pbuf_mem p) (payload p) (pbuf_bytes p) \<and> length (pbuf_bytes p) = unat (tot_len p)"
  by (auto simp: bytes_at_def pbuf_bytes_def min_def)

lemma handle_packet_ok:
  fixes r :: "'n cnl_state"
  assumes ok: "cnl_ok r" and p: "chain_ok [p]" "pbuf_bytes p = encode_packet seq fs"
    and fs: "\<forall>f \<in> set fs. plain_frame f" "length fs < 65536"
  shows "\<exists>st q. handle_packet p r = Inr (r\<lparr>cs_frames := st, cs_handle := (cs_handle r)\<lparr>tx_queue := q,
        udp_rx_count := udp_rx_count (cs_handle r) + 1\<rparr>\<rparr>)
    \<and> queue_ok st q \<and> map frame_view (queue_contents st q) = map frame_view (tx_frames r)
        @ map frame_view (take (unat (q_count (tx_queue (cs_handle r))) - 1 - length (tx_frames r)) fs)"
proof -
  let ?m = "pbuf_mem p" and ?pl = "payload p" and ?enc = "concat (map encode_frame fs)"
  let ?c = "be16 (of_nat (length fs))"
  have pk: "encode_packet seq fs = [CANNELLONI_FRAME_VERSION, CNL_DATA] @ [seq] @ ?c @ ?enc"
    by (simp add: encode_packet_def)
  have at: "bytes_at ?m ?pl [CANNELLONI_FRAME_VERSION, CNL_DATA]" "bytes_at ?m (?pl + 3) ?c"
    "bytes_at ?m (?pl + 5) ?enc" and len: "unat (tot_len p) = 5 + length ?enc"
    using pbuf_bytes_at [OF p(1)] unfolding p(2) pk bytes_at_append by (simp_all add: numeral_eq_Suc)
  have vo: "mem_read ?m ?pl 2 = Inr [CANNELLONI_FRAME_VERSION, CNL_DATA]"
    using at(1) by (rule bytes_at_read) simp
  have c: "mem_read ?m (?pl + 3) 2 = Inr ?c" using at(2) by (rule bytes_at_read) simp
  have cnt: "unat (of_be16 (?c ! 0) (?c ! 1)) = length fs"
    using fs(2) by (simp add: be16_def wire_simps unat_of_nat)
  let ?q = "(cs_frames r, tx_queue (cs_handle r))"
  obtain s' where s': "parse_frames ?m ?pl (tot_len p) (length fs) 5 ?q = Inr s'" "queue_state_ok s'"
    "map frame_view (state_contents s') = map frame_view (state_contents ?q)
        @ map frame_view (take (state_capacity ?q - length (state_contents ?q)) fs)"
    using parse_frames_spec [of ?q ?m ?pl 5 fs "tot_len p"] ok at(3) fs(1) len by (auto simp: cnl_ok_def)
  moreover obtain st q where "s' = (st, q)" by (cases s')
  ultimately show ?thesis
    using vo c cnt by (intro exI [of _ st] exI [of _ q])
      (auto simp: handle_packet_def cnl_consts tx_frames_def simp del: length_queue_contents)
qed

section \<open>Properties\<close>

lemma handle_frame_ok:
  fixes r :: "'n cnl_state"
  assumes "cnl_ok r" "chain_ok [p]" "pbuf_bytes p = encode_packet seq fs"
    and "\<forall>f \<in> set fs. plain_frame f" "0 < length fs" "length fs < 65536"
    and "pbuf_free [p] (cs_alloc r) = Inr (n, rest, al)"
  shows "\<exists>r'. handle_cannelloni_frame [p] r = Inr r' \<and> cs_alloc r' = al
    \<and> queue_ok (cs_frames r') (tx_queue (cs_handle r'))
    \<and> udp_rx_count (cs_handle r') = udp_rx_count (cs_handle r) + 1
    \<and> map frame_view (tx_frames r') = map frame_view (tx_frames r)
        @ map frame_view (take (unat (q_count (tx_queue (cs_handle r))) - 1 - length (tx_frames r)) fs)"
proof -
  have "5 < unat (tot_len p)"
  proof -
    obtain f fs' where "fs = f # fs'" using assms(5) by (cases fs) auto
    moreover have "length (pbuf_bytes p) = unat (tot_len p)" using pbuf_bytes_at [OF assms(2)] by simp
    ultimately show ?thesis unfolding assms(3) by (simp add: encode_packet_def encode_frame_def)
  qed
  with handle_packet_ok [OF assms(1-4,6)] assms(7) show ?thesis
    by (fastforce simp: handle_cannelloni_frame_def cnl_consts tx_frames_def)
qed


text \<open>
  C7: Packing. With frames waiting, \<open>transmit_udp_frame\<close> either finds no memory for the datagram and changes nothing,
  or sends one datagram: the version, op code, sequence number and count followed by the longest
  prefix of the queue whose encoding stays below 1200 bytes. Exactly these frames leave the
  queue, the sequence number advances by one, and the result says whether frames are left.
\<close>

theorem transmit_udp_frame_encodes:
  fixes s :: "'n cnl_state"
  assumes "cnl_ok s" "\<forall>f \<in> set (rx_frames s). frame_wf f" "fresh_ok uninit" "rx_frames s \<noteq> []"
  shows "pbuf_alloc uninit PBUF_TRANSPORT 1200 PBUF_RAM (cs_alloc s) = Inr ([], cs_alloc s)
        \<and> transmit_udp_frame uninit sendto s = Inr (False, s)
    \<or> (\<exists>p al q. tx_packet p
        \<and> chain_data [p] = encode_packet (ucast (sequence_number (cs_handle s))) (packet_frames s)
        \<and> heap_ok (al_heap al) \<and> live (al_heap al) (pbuf_addr p) \<noteq> None \<and> queue_ok (cs_frames s) q
        \<and> packet_frames s @ queue_contents (cs_frames s) q = rx_frames s
        \<and> transmit_udp_frame uninit sendto s =
          (case sendto (cnl_pcb (cs_handle s)) [p] (init_addr (cs_handle s)) (init_remote_port (cs_handle s))
                  al (cs_net s) of
             Inl e \<Rightarrow> Inl e
           | Inr (c, al', net) \<Rightarrow>
               (case pbuf_free c al' of
                  Inl e \<Rightarrow> Inl e
                | Inr (n, rest, al'') \<Rightarrow>
                    Inr (length (packet_frames s) < length (rx_frames s),
                      s\<lparr>cs_handle := (cs_handle s)\<lparr>rx_queue := q, sequence_number := sequence_number (cs_handle s) + 1\<rparr>,
                        cs_alloc := al'', cs_net := net\<rparr>))))"
proof -
  have "packet_frames s @ drop (length (packet_frames s)) (rx_frames s) = rx_frames s"
    unfolding packet_frames_def by (metis append_take_drop_id fitting_prefix)
  with transmit_udp_frame_packet [OF assms, of sendto] show ?thesis
    by (elim disjE exE conjE) (blast, intro disjI2 exI conjI, assumption+, auto)
qed

text \<open>
  C31: \<open>transmit_can_frames\<close> offers the queued frames to the bus driver in order, stops at the first
  refusal, and removes exactly the accepted frames; it always returns.
\<close>

theorem transmit_can_frames_in_order:
  fixes s :: "'n cnl_state"
  assumes "queue_ok (cs_frames s) (tx_queue (cs_handle s))"
    and "offer tx (tx_frames s) (cs_net s) = Inr (rest, n)"
  shows "\<exists>q. transmit_can_frames (Some (\<lambda>_. tx)) s =
        Some (Inr (s\<lparr>cs_net := n, cs_handle := (cs_handle s)\<lparr>tx_queue := q\<rparr>\<rparr>))
    \<and> queue_ok (cs_frames s) q \<and> queue_contents (cs_frames s) q = rest"
  using transmit_can_loop_spec [OF assms(1), of tx] assms(2) by (simp add: transmit_can_frames_def)

text \<open>
  One round of the main loop for an interface returns: with callbacks that do not fault and a
  \<open>udp_sendto\<close> that keeps the caller's reference, \<open>run_cannelloni\<close> ends without a fault and leaves
  the queues and the heap well formed.
\<close>

theorem run_cannelloni_returns:
  fixes s :: "'n cnl_state"
  assumes "cnl_ok s" "fresh_ok uninit" "sendto_ok sendto"
    and "\<And>f n. f \<in> set (tx_frames s) \<Longrightarrow> \<exists>x. tx f n = Inr x"
    and "\<And>s'. cnl_ok s' \<Longrightarrow> cs_frames s' = cs_frames s \<Longrightarrow> rx_queue (cs_handle s') = rx_queue (cs_handle s) \<Longrightarrow>
      \<exists>s''. rx s' = Inr s'' \<and> cnl_ok s'' \<and> (\<forall>f \<in> set (rx_frames s''). frame_wf f)"
  shows "\<exists>s'. run_cannelloni uninit sendto (Some (\<lambda>_. tx)) (Some rx) s = Inr s' \<and> cnl_ok s'"
  using run_cannelloni_ends [of s uninit sendto tx rx "\<lambda>_. True"] assms by simp



section \<open>Witnesses\<close>

definition frame_ab :: "u32 \<Rightarrow> canfd_frame" where
  "frame_ab i = \<lparr>can_id = i, frame_len = 2, frame_flags = 0, frame_data = [10, 11, 0, 0, 0, 0, 0, 0]\<rparr>"

text \<open>Four slots per queue; two frames wait in each queue.\<close>

definition handle0 :: cannelloni_handle where
  "handle0 = \<lparr>init_port = 20010, init_addr = IP6 0xff020000 0 0 1, init_remote_port = 20010, can_buf_size = 4,
     can_tx_buf = 0, can_rx_buf = 1, tx_queue = \<lparr>q_head = 0, q_tail = 2, q_count = 4, q_frames = 0\<rparr>,
     rx_queue = \<lparr>q_head = 0, q_tail = 2, q_count = 4, q_frames = 1\<rparr>, sequence_number = 0, cnl_pcb = 4,
     udp_rx_count = 0\<rparr>"

definition cnl0 :: "'n \<Rightarrow> 'n cnl_state" where
  "cnl0 n = \<lparr>cs_handle = handle0, cs_frames = (\<lambda>_. map frame_ab [1, 2, 3, 4]),
     cs_alloc = \<lparr>al_memp = memp0, al_heap = heap1\<rparr>, cs_net = n\<rparr>"

lemma frame_ab_plain: "plain_frame (frame_ab i)" if "i AND CAN_RTR_FLAG = 0"
  using that by (simp add: frame_ab_def plain_frame_def frame_wf_def canfd_len_def CANFD_FRAME_def cnl_consts)

lemma cnl0_queues: "rx_frames (cnl0 n) = [frame_ab 1, frame_ab 2]" "tx_frames (cnl0 n) = [frame_ab 1, frame_ab 2]"
  by (simp_all add: cnl0_def handle0_def rx_frames_def tx_frames_def queue_contents_def queue_length_def
      queue_slot_def upt_rec)

lemma cnl0_ok: "cnl_ok (cnl0 n)"
  using heap1_inv by (auto simp: cnl_ok_def cnl0_def handle0_def queue_ok_def heap_ok_def)

definition pbuf_ab :: pbuf where
  "pbuf_ab = \<lparr>pbuf_addr = 12, pbuf_mem = encode_packet 7 [frame_ab 5, frame_ab 6], payload = 0, tot_len = 19,
     p_len = 19, type_internal = 0x80, p_flags = 0, p_ref = 1, if_idx = 0\<rparr>"

lemma pbuf_ab_bytes: "chain_ok [pbuf_ab]" "pbuf_bytes pbuf_ab = encode_packet 7 [frame_ab 5, frame_ab 6]"
  by (simp_all add: pbuf_ab_def pbuf_bytes_def encode_packet_def encode_frame_def frame_ab_def canfd_len_def CANFD_FRAME_def)


definition log_sendto :: "bytes list sendto_fn" where
  "log_sendto pcb p a port al n = Inr (p, al, n @ [chain_data p])"

lemma log_sendto_ok: "sendto_ok log_sendto"
  by (auto simp: sendto_ok_def log_sendto_def tx_packet_simps)

lemma cnl0_memory: "pbuf_alloc zeros PBUF_TRANSPORT 1200 PBUF_RAM (cs_alloc (cnl0 n)) \<noteq> Inr ([], cs_alloc (cnl0 n))"
proof -
  have sz: "LWIP_MEM_ALIGN_SIZE SIZEOF_STRUCT_PBUF = 16" by (simp add: SIZEOF_STRUCT_PBUF_def LWIP_MEM_ALIGN_SIZE_def)
  have "request_ok 1292" "find (block_fits heap1 (malloc_size 1292)) [0, 112] = Some 112"
    by (simp_all add: request_ok_def block_fits_def is_used_def heap1_hdr malloc_size_def LWIP_MEM_ALIGN_SIZE_def mem_consts)
  then obtain a h where "mem_malloc 1292 heap1 = Inr (Some a, h)"
    using mem_malloc_fits [OF heap1_inv] by blast
  then show ?thesis
    using aligned_u16(1) [of 1200]
    by (simp add: pbuf_alloc_def Let_def cnl0_def sz ram_len_1200) (simp add: LWIP_MEM_ALIGN_SIZE_def)
qed

theorem transmit_udp_frame_encodes_witness:
  "\<exists>s'. transmit_udp_frame zeros log_sendto (cnl0 []) = Inr (False, s')
        \<and> cs_net s' = [encode_packet 0 [frame_ab 1, frame_ab 2]]"
proof -
  have pf: "packet_frames (cnl0 []) = [frame_ab 1, frame_ab 2]"
    by (simp add: packet_frames_def cnl0_queues frame_ab_def canfd_len_def CANFD_FRAME_def)
  have wf: "\<forall>f \<in> set (rx_frames (cnl0 [])). frame_wf f"
    using frame_ab_plain by (simp add: cnl0_queues plain_frame_def CAN_RTR_FLAG_def)
  have ne: "rx_frames (cnl0 []) \<noteq> []" by (simp add: cnl0_queues)
  from transmit_udp_frame_encodes [OF cnl0_ok wf zeros_fresh ne, of log_sendto] show ?thesis
  proof (elim disjE exE conjE)
    fix p al q
    assume p: "tx_packet p" "heap_ok (al_heap al)" "live (al_heap al) (pbuf_addr p) \<noteq> None"
      and d: "chain_data [p] = encode_packet (ucast (sequence_number (cs_handle (cnl0 [])))) (packet_frames (cnl0 []))"
      and t: "transmit_udp_frame zeros log_sendto (cnl0 []) =
          (case log_sendto (cnl_pcb (cs_handle (cnl0 []))) [p] (init_addr (cs_handle (cnl0 [])))
                  (init_remote_port (cs_handle (cnl0 []))) al (cs_net (cnl0 [])) of
             Inl e \<Rightarrow> Inl e
           | Inr (c, al', net) \<Rightarrow>
               (case pbuf_free c al' of
                  Inl e \<Rightarrow> Inl e
                | Inr (n, rest, al'') \<Rightarrow>
                    Inr (length (packet_frames (cnl0 [])) < length (rx_frames (cnl0 [])),
                      (cnl0 [])\<lparr>cs_handle := (cs_handle (cnl0 []))\<lparr>rx_queue := q,
                          sequence_number := sequence_number (cs_handle (cnl0 [])) + 1\<rparr>,
                        cs_alloc := al'', cs_net := net\<rparr>)))"
    obtain k where "live (al_heap al) (pbuf_addr p) = Some k" using p(3) by auto
    from pbuf_free_ram [OF p(2) tx_packet_simps(2,3) [OF p(1)] this] t d show ?thesis
      by (auto simp: log_sendto_def pf cnl0_queues) (simp_all add: cnl0_def handle0_def)
  qed (simp add: cnl0_memory)
qed

theorem transmit_can_frames_in_order_witness:
  "\<exists>q. transmit_can_frames (Some (\<lambda>_ f n. Inr (n = 0, n + 1))) (cnl0 (0 :: nat)) =
      Some (Inr ((cnl0 0)\<lparr>cs_net := 2, cs_handle := (cs_handle (cnl0 (0 :: nat)))\<lparr>tx_queue := q\<rparr>\<rparr>))
    \<and> queue_contents (cs_frames (cnl0 (0 :: nat))) q = [frame_ab 2]"
proof -
  have q: "queue_ok (cs_frames (cnl0 (0 :: nat))) (tx_queue (cs_handle (cnl0 (0 :: nat))))"
    using cnl0_ok [of "0 :: nat"] by (simp add: cnl_ok_def)
  have "offer (\<lambda>f n. Inr (n = 0, n + 1)) (tx_frames (cnl0 (0 :: nat))) (cs_net (cnl0 (0 :: nat))) = Inr ([frame_ab 2], 2)"
    by (simp add: cnl0_queues) (simp add: cnl0_def)
  from transmit_can_frames_in_order [OF q this] show ?thesis by blast
qed

theorem run_cannelloni_returns_witness:
  "\<exists>s'. run_cannelloni zeros log_sendto (Some (\<lambda>_ f n. Inr (True, n))) (Some Inr) (cnl0 []) = Inr s' \<and> cnl_ok s'"
proof -
  have wf: "\<forall>f \<in> set (rx_frames s'). frame_wf f"
    if "cs_frames s' = cs_frames (cnl0 ([] :: bytes list))"
      "rx_queue (cs_handle s') = rx_queue (cs_handle (cnl0 ([] :: bytes list)))" for s' :: "bytes list cnl_state"
    using that frame_ab_plain cnl0_queues(1) [of "[] :: bytes list"] by (simp add: rx_frames_def plain_frame_def CAN_RTR_FLAG_def)
  show ?thesis
    by (rule run_cannelloni_returns [OF cnl0_ok zeros_fresh log_sendto_ok]) (use wf in auto)
qed



end
