(* ===== verification/Can_Driver.thy ===== *)
theory Can_Driver
  imports Prelude
begin

text \<open>
  The DCAN driver of src/src/drivers/can.c. The register frame \<open>canBASE_t\<close> is a record; the
  controller behind it is hardware and stays a parameter: \<open>cmd\<close> is what writing \<open>IF1NO\<close> starts (the
  transfer between the interface registers and a message object) and \<open>poll\<close> is how the registers
  change between two reads of \<open>IF1STAT\<close>. \<open>None\<close> is a wait loop that does not end. The record is
  extensible: a client adds the controller's own state (the message RAM) as further fields.
\<close>

section \<open>Registers\<close>

record can_regs =
  CTL :: u32
  BTR :: u32
  TXRQx :: "u32 list"
  IF1CMD :: u8
  IF1STAT :: u8
  IF1NO :: u8
  IF1MSK :: u32
  IF1ARB :: u32
  IF1MCTL :: u32
  IF1DATx :: bytes
  TIOC :: u32
  RIOC :: u32

definition CAN_RX_QUEUE_FIRST_MBOX :: u8 where "CAN_RX_QUEUE_FIRST_MBOX = 2"
definition CAN_MBOX_LAST :: u8 where "CAN_MBOX_LAST = 64"
definition CAN_MSGID_EXTENDED :: u32 where "CAN_MSGID_EXTENDED = 0x80000000"
definition CAN_MSGID_XTD_MASK :: u32 where "CAN_MSGID_XTD_MASK = 0x1fffffff"
definition CAN_MSGID_STD_MASK :: u32 where "CAN_MSGID_STD_MASK = 0x7ff"

definition data_byte_order :: "nat list" where
  "data_byte_order = [3, 2, 1, 0, 7, 6, 5, 4]"

text \<open>\<open>1U << n\<close>\<close>

definition bit32 :: "nat \<Rightarrow> u32" where
  "bit32 n = push_bit n 1"

section \<open>Operations\<close>

partial_function (option) can_if_wait_ready :: "('h can_regs_scheme \<Rightarrow> 'h can_regs_scheme) \<Rightarrow> 'h can_regs_scheme \<Rightarrow> 'h can_regs_scheme option" where
  "can_if_wait_ready poll r =
     (if IF1STAT r AND 0x80 = 0x80 then can_if_wait_ready poll (poll r) else Some r)"

definition can_init_mbox :: "('h can_regs_scheme \<Rightarrow> 'h can_regs_scheme) \<Rightarrow> ('h can_regs_scheme \<Rightarrow> 'h can_regs_scheme) \<Rightarrow> u8 \<Rightarrow> 'h can_regs_scheme \<Rightarrow> 'h can_regs_scheme option" where
  "can_init_mbox poll cmd mbox r0 =
     (case can_if_wait_ready poll r0 of
        None \<Rightarrow> None
      | Some r \<Rightarrow>
          Some (cmd (r\<lparr>IF1MSK := bit32 30,
                      IF1ARB := bit32 31 OR bit32 30,
                      IF1MCTL := bit32 12 OR (if mbox = 64 then bit32 7 else 0) OR bit32 10,
                      IF1CMD := 0xF8,
                      IF1NO := mbox\<rparr>)))"

fun can_init_mboxes :: "('h can_regs_scheme \<Rightarrow> 'h can_regs_scheme) \<Rightarrow> ('h can_regs_scheme \<Rightarrow> 'h can_regs_scheme) \<Rightarrow> u8 list \<Rightarrow> 'h can_regs_scheme \<Rightarrow> 'h can_regs_scheme option" where
  "can_init_mboxes poll cmd [] r = Some r"
| "can_init_mboxes poll cmd (m # ms) r =
     (case can_init_mbox poll cmd m r of None \<Rightarrow> None | Some r' \<Rightarrow> can_init_mboxes poll cmd ms r')"

definition rx_mboxes :: "u8 list" where
  "rx_mboxes = map word_of_nat [2..<65]"

definition can_init :: "('h can_regs_scheme \<Rightarrow> 'h can_regs_scheme) \<Rightarrow> ('h can_regs_scheme \<Rightarrow> 'h can_regs_scheme) \<Rightarrow> 'h can_regs_scheme \<Rightarrow> 'h can_regs_scheme option" where
  "can_init poll cmd r =
     (case can_init_mboxes poll cmd rx_mboxes (r\<lparr>CTL := push_bit 10 5 OR bit32 0 OR bit32 6\<rparr>) of
        None \<Rightarrow> None
      | Some r1 \<Rightarrow>
          (let r2 = r1\<lparr>BTR := push_bit 12 (4 - 1) OR push_bit 8 (6 + 4 - 1) OR push_bit 6 (4 - 1) OR 9,
                      TIOC := bit32 18 OR bit32 3,
                      RIOC := bit32 18 OR bit32 3\<rparr>
           in Some (r2\<lparr>CTL := CTL r2 AND NOT (bit32 0 OR bit32 6)\<rparr>)))"

definition can_mbox_has_data ::
  "('h can_regs_scheme \<Rightarrow> 'h can_regs_scheme) \<Rightarrow> ('h can_regs_scheme \<Rightarrow> 'h can_regs_scheme) \<Rightarrow> u8 \<Rightarrow> 'h can_regs_scheme \<Rightarrow> (bool \<times> 'h can_regs_scheme) option" where
  "can_mbox_has_data poll cmd mbox r =
     (if mbox > CAN_MBOX_LAST then Some (False, r)
      else
        (case can_if_wait_ready poll r of
           None \<Rightarrow> None
         | Some r1 \<Rightarrow>
             (case can_if_wait_ready poll (cmd (r1\<lparr>IF1CMD := 0x3F, IF1NO := mbox\<rparr>)) of
                None \<Rightarrow> None
              | Some r2 \<Rightarrow> Some (IF1MCTL r2 AND bit32 15 \<noteq> 0, r2))))"

text \<open>
  \<open>can_fill_rx_mbox\<close>: the identifier, the length and the data array after the call, given the old
  data array. \<open>data_byte_order\<close> and the data array have 8 elements.
\<close>

definition arb_to_id :: "u32 \<Rightarrow> u32" where
  "arb_to_id arb =
     (let i = arb AND 0x1FFFFFFF in
      if arb AND bit32 30 = 0 then drop_bit 18 i else i OR CAN_MSGID_EXTENDED)"

definition can_fill_rx_mbox :: "'h can_regs_scheme \<Rightarrow> bytes \<Rightarrow> (u32 \<times> u8 \<times> bytes) result" where
  "can_fill_rx_mbox r old =
     (let len = (ucast (IF1MCTL r AND 0xF) :: u8) in
      if unat len > length data_byte_order then Inl OutOfBounds
      else Inr (arb_to_id (IF1ARB r), len,
             fold (\<lambda>i d. d[i := IF1DATx r ! (data_byte_order ! i)]) [0..<unat len] old))"

definition id_to_arb :: "u32 \<Rightarrow> u32" where
  "id_to_arb i =
     (bit32 31 OR bit32 29)
       OR (if i AND CAN_MSGID_EXTENDED \<noteq> 0 then bit32 30 OR (i AND CAN_MSGID_XTD_MASK)
           else push_bit 18 (i AND CAN_MSGID_STD_MASK))"

definition can_send ::
  "('h can_regs_scheme \<Rightarrow> 'h can_regs_scheme) \<Rightarrow> ('h can_regs_scheme \<Rightarrow> 'h can_regs_scheme) \<Rightarrow> u32 \<Rightarrow> u8 \<Rightarrow> bytes \<Rightarrow> 'h can_regs_scheme \<Rightarrow>
   (bool \<times> 'h can_regs_scheme) result" where
  "can_send poll cmd i dlc dat r =
     (if TXRQx r ! 0 AND bit32 0 \<noteq> 0 then Inr (False, r)
      else
        (case can_if_wait_ready poll r of
           None \<Rightarrow> Inl Hang
         | Some r1 \<Rightarrow>
             (if unat dlc > length data_byte_order \<or> unat dlc > length dat then Inl OutOfBounds
              else
                Inr (True, cmd (r1\<lparr>IF1ARB := id_to_arb i,
                                  IF1MCTL := bit32 15 OR bit32 8 OR ucast dlc,
                                  IF1DATx := fold (\<lambda>k d. d[data_byte_order ! k := dat ! k]) [0..<unat dlc] (IF1DATx r1),
                                  IF1CMD := 0xFF,
                                  IF1NO := 1\<rparr>)))))"


section \<open>Identifiers\<close>

text \<open>The identifier the frame keeps when it crosses the driver: the flag and the identifier bits.\<close>

definition can_id_norm :: "u32 \<Rightarrow> u32" where
  "can_id_norm i = (if i AND CAN_MSGID_EXTENDED \<noteq> 0 then i AND (CAN_MSGID_EXTENDED OR CAN_MSGID_XTD_MASK)
                    else i AND CAN_MSGID_STD_MASK)"

lemmas id_masks [reg_simps] = CAN_MSGID_EXTENDED_def CAN_MSGID_XTD_MASK_def CAN_MSGID_STD_MASK_def bit32_def

lemma and_bit_ne_0: "(x :: u32) AND push_bit n 1 \<noteq> 0 \<longleftrightarrow> n < 32 \<and> bit x n"
proof -
  have "x AND push_bit n 1 \<noteq> 0 \<longleftrightarrow> (\<exists>k. bit (x AND push_bit n 1) k)"
    by (metis bit_0_eq bot_apply bot_bool_def bit_eqI)
  then show ?thesis by (auto simp: bit_simps bit_1_iff)
qed

lemma ext_flag: "i AND CAN_MSGID_EXTENDED \<noteq> 0 \<longleftrightarrow> bit (i :: u32) 31"
  using and_bit_ne_0 [of i 31] by (simp add: CAN_MSGID_EXTENDED_def)

lemma xtd_flag: "(a :: u32) AND bit32 30 = 0 \<longleftrightarrow> \<not> bit a 30"
  using and_bit_ne_0 [of a 30] by (auto simp: bit32_def)

lemma bit_bit32 [reg_simps]: "bit (bit32 k) n \<longleftrightarrow> n = k \<and> k < 32"
  by (auto simp: bit32_def bit_simps bit_1_iff)

lemma masks_as_mask: "CAN_MSGID_XTD_MASK = mask 29" "CAN_MSGID_STD_MASK = mask 11" "CAN_MSGID_EXTENDED = bit32 31"
  "(0x1FFFFFFF :: u32) = mask 29"
  by (simp_all add: id_masks mask_eq_exp_minus_1)

lemma bit_id_to_arb: "n < 32 \<Longrightarrow> bit (id_to_arb i) n \<longleftrightarrow>
    n = 31 \<or> n = 29 \<or> (if bit i 31 then n = 30 \<or> (n < 29 \<and> bit i n) else 18 \<le> n \<and> n < 29 \<and> bit i (n - 18))"
  unfolding id_to_arb_def ext_flag
  by (auto simp: masks_as_mask bit_bit32 bit_simps)

lemma bit_arb_to_id: "n < 32 \<Longrightarrow> bit (arb_to_id a) n \<longleftrightarrow>
    (if bit a 30 then n = 31 \<or> (n < 29 \<and> bit a n) else n + 18 < 29 \<and> bit a (n + 18))"
  unfolding arb_to_id_def Let_def xtd_flag
  by (auto simp: masks_as_mask bit_bit32 bit_simps add.commute)

lemma bit_can_id_norm: "n < 32 \<Longrightarrow> bit (can_id_norm i) n \<longleftrightarrow>
    bit i n \<and> (if bit i 31 then n = 31 \<or> n < 29 else n < 11)"
  unfolding can_id_norm_def ext_flag
  by (auto simp: masks_as_mask bit_bit32 bit_simps)

lemma arb_to_id_to_arb: "arb_to_id (id_to_arb i) = can_id_norm i"
proof (rule bit_word_eqI)
  fix n :: nat
  assume "n < LENGTH(32)"
  then show "bit (arb_to_id (id_to_arb i)) n = bit (can_id_norm i) n"
    by (auto simp: bit_arb_to_id bit_id_to_arb bit_can_id_norm split: if_splits)
qed

text \<open>Only these bits of the arbitration register travel over the bus.\<close>

definition arb_wire :: u32 where
  "arb_wire = bit32 30 OR mask 29"

lemma arb_to_id_wire: "a AND arb_wire = b AND arb_wire \<Longrightarrow> arb_to_id a = arb_to_id b"
proof (rule bit_word_eqI)
  fix n :: nat
  assume eq: "a AND arb_wire = b AND arb_wire" and "n < LENGTH(32)"
  have "bit a k = bit b k" if "k = 30 \<or> k < 29" for k
  proof -
    have "bit (a AND arb_wire) k = bit (b AND arb_wire) k" using eq by simp
    then show ?thesis using that by (auto simp: arb_wire_def bit_bit32 bit_simps)
  qed
  then show "bit (arb_to_id a) n = bit (arb_to_id b) n"
    using \<open>n < LENGTH(32)\<close> by (auto simp: bit_arb_to_id)
qed

section \<open>Data bytes\<close>

lemma data_byte_order_simps [reg_simps]: "length data_byte_order = 8" "distinct data_byte_order"
  "k < 8 \<Longrightarrow> data_byte_order ! k < 8"
  by (simp_all add: data_byte_order_def nth_Cons' eval_nat_numeral)

text \<open>The loop of \<open>can_send\<close> and the loop of \<open>can_fill_rx_mbox\<close>.\<close>

lemma fill_loop: "n \<le> length d \<Longrightarrow> fold (\<lambda>i d. d[i := f i]) [0..<n] d = map f [0..<n] @ drop n d"
proof (induction n)
  case (Suc n)
  then have "fold (\<lambda>i d. d[i := f i]) [0..<Suc n] d = (map f [0..<n] @ drop n d)[n := f n]" by simp
  also have "\<dots> = map f [0..<n] @ (drop n d)[0 := f n]" by (simp add: list_update_append)
  also have "(drop n d)[0 := f n] = f n # drop (Suc n) d"
    using Suc.prems by (cases "drop n d") (auto simp: drop_Suc tl_drop [symmetric])
  finally show ?case by simp
qed simp

lemma send_loop_length [simp]: "length (fold (\<lambda>k d. d[g k := h k]) xs d) = length d"
proof (induction xs arbitrary: d)
  case (Cons x xs)
  show ?case unfolding fold_simps comp_apply Cons.IH by (rule length_list_update)
qed simp

lemma send_loop:
  assumes "inj_on g {..<n}" "\<forall>k<n. g k < length d" "j < n"
  shows "fold (\<lambda>k d. d[g k := h k]) [0..<n] d ! g j = h j"
  using assms
proof (induction n)
  case (Suc n)
  let ?d = "fold (\<lambda>k d. d[g k := h k]) [0..<n] d"
  have step: "fold (\<lambda>k d. d[g k := h k]) [0..<Suc n] d = ?d[g n := h n]" by simp
  have inj: "inj_on g {..<n}" using Suc.prems(1) by (rule inj_on_subset) auto
  show ?case
  proof (cases "j = n")
    case True
    then show ?thesis unfolding step using Suc.prems(2) by (simp add: nth_list_update_eq)
  next
    case False
    then have lt: "j < n" using Suc.prems(3) by simp
    have "g n \<noteq> g j" using inj_onD [OF Suc.prems(1), of n j] False lt by auto
    moreover have "?d ! g j = h j" using Suc.prems(2) by (intro Suc.IH inj lt) simp
    ultimately show ?thesis unfolding step by simp
  qed
qed simp

section \<open>Waiting for the interface registers\<close>

lemma can_if_wait_ready_poll:
  "(IF1STAT r AND 0x80 = 0x80 \<longrightarrow> can_if_wait_ready poll (poll r) = w) \<Longrightarrow>
   (IF1STAT r AND 0x80 \<noteq> 0x80 \<longrightarrow> Some r = w) \<Longrightarrow> can_if_wait_ready poll r = w"
  by (subst can_if_wait_ready.simps) simp

text \<open>The loop ends as soon as the controller clears the busy flag.\<close>

lemma can_if_wait_ready_ends:
  "IF1STAT ((poll ^^ k) r) AND 0x80 \<noteq> 0x80 \<Longrightarrow> \<exists>j\<le>k. can_if_wait_ready poll r = Some ((poll ^^ j) r)"
proof (induction k arbitrary: r)
  case 0
  then show ?case by (auto intro: can_if_wait_ready_poll)
next
  case (Suc k)
  show ?case
  proof (cases "IF1STAT r AND 0x80 = 0x80")
    case True
    obtain j where "j \<le> k" "can_if_wait_ready poll (poll r) = Some ((poll ^^ j) (poll r))"
      using Suc.IH [of "poll r"] Suc.prems by (auto simp: funpow_swap1)
    then show ?thesis
      using True by (intro exI [of _ "Suc j"]) (auto intro: can_if_wait_ready_poll simp: funpow_swap1)
  next
    case False
    then show ?thesis by (intro exI [of _ 0]) (auto intro: can_if_wait_ready_poll)
  qed
qed

text \<open>A field that polling leaves alone is the same after the wait.\<close>

lemma funpow_keeps: "\<forall>r. f (poll r) = f r \<Longrightarrow> f ((poll ^^ j) r) = f r"
  by (induction j) simp_all

definition ready_after :: "('h can_regs_scheme \<Rightarrow> 'h can_regs_scheme) \<Rightarrow> 'h can_regs_scheme \<Rightarrow> nat \<Rightarrow> bool" where
  "ready_after poll r k \<longleftrightarrow> IF1STAT ((poll ^^ k) r) AND 0x80 \<noteq> 0x80"

lemma wait_keeps:
  assumes "ready_after poll r k" "\<forall>r. f (poll r) = f r"
  shows "\<exists>r'. can_if_wait_ready poll r = Some r' \<and> f r' = f r"
  using can_if_wait_ready_ends assms funpow_keeps unfolding ready_after_def by metis

section \<open>Sending and receiving\<close>

text \<open>
  A frame crosses the bus: the receiving controller presents the same identifier bits, length code
  and data bytes in its interface registers as the sending driver wrote.
\<close>

definition bus_copy :: "'h can_regs_scheme \<Rightarrow> 'i can_regs_scheme \<Rightarrow> bool" where
  "bus_copy tx rx \<longleftrightarrow> IF1ARB rx AND arb_wire = IF1ARB tx AND arb_wire
     \<and> IF1MCTL rx AND 0xF = IF1MCTL tx AND 0xF \<and> IF1DATx rx = IF1DATx tx"

lemma dlc_field: "unat (dlc :: u8) \<le> 8 \<Longrightarrow> ucast ((bit32 15 OR bit32 8 OR ucast dlc) AND 0xF :: u32) = dlc"
proof (rule bit_word_eqI)
  fix n :: nat
  assume le: "unat dlc \<le> 8" and n: "n < LENGTH(8)"
  have "unat dlc div 2 ^ n = 0" if "4 \<le> n"
    using le power_increasing [OF that, of "2::nat"] by simp
  then have "\<not> bit dlc n" if "4 \<le> n"
    using that bit_unsigned_iff [of dlc n, where 'a = nat] by (simp add: bit_iff_odd)
  then have small: "bit dlc n \<Longrightarrow> n < 4" by (cases "n < 4") auto
  have m4: "(0xF :: u32) = mask 4" by (simp add: mask_eq_exp_minus_1)
  show "bit (ucast ((bit32 15 OR bit32 8 OR ucast dlc) AND 0xF :: u32) :: u8) n = bit dlc n"
    unfolding m4 using n by (auto simp: bit_simps bit_bit32 dest: small)
qed

lemma can_fill_loop:
  assumes "n \<le> 8" "n \<le> length old"
  shows "fold (\<lambda>i d. d[i := regs ! (data_byte_order ! i)]) [0..<n] old
    = map (\<lambda>i. regs ! (data_byte_order ! i)) [0..<n] @ drop n old"
  using fill_loop [of n old "\<lambda>i. regs ! (data_byte_order ! i)"] assms by simp

lemma data_order_inj: "n \<le> 8 \<Longrightarrow> inj_on ((!) data_byte_order) {..<n}"
  by (rule inj_onI) (simp add: nth_eq_iff_index_eq data_byte_order_simps)

lemma can_send_loop:
  assumes "n \<le> 8" "length regs = 8" "n \<le> length dat"
  shows "map (\<lambda>i. fold (\<lambda>k d. d[data_byte_order ! k := dat ! k]) [0..<n] regs ! (data_byte_order ! i)) [0..<n]
    = take n dat"
proof (rule nth_equalityI)
  fix i
  assume "i < length (map (\<lambda>i. fold (\<lambda>k d. d[data_byte_order ! k := dat ! k]) [0..<n] regs ! (data_byte_order ! i)) [0..<n])"
  then have "i < n" by simp
  moreover have "\<forall>k<n. data_byte_order ! k < length regs"
    using assms data_byte_order_simps(3) by auto
  ultimately show "map (\<lambda>i. fold (\<lambda>k d. d[data_byte_order ! k := dat ! k]) [0..<n] regs ! (data_byte_order ! i)) [0..<n] ! i
      = take n dat ! i"
    using send_loop [of "(!) data_byte_order" n regs i "(!) dat"] data_order_inj [OF assms(1)] by simp
qed (use assms in simp)


definition regs0 :: can_regs where
  "regs0 = \<lparr>CTL = 0, BTR = 0, TXRQx = [0, 0, 0, 0], IF1CMD = 0, IF1STAT = 0, IF1NO = 0, IF1MSK = 0,
     IF1ARB = 0, IF1MCTL = 0, IF1DATx = [0, 0, 0, 0, 0, 0, 0, 0], TIOC = 0, RIOC = 0\<rparr>"


text \<open>
  Refusal. While the transmit request of mailbox 1 is pending \<open>can_send\<close> returns false and
  leaves every register as it is; it ignores the remote request flag, so a remote frame leaves
  the gateway as a data frame with the same identifier.
\<close>

theorem can_send_busy_and_rtr:
  "can_send poll cmd (i OR bit32 30) dlc dat r = can_send poll cmd i dlc dat r
   \<and> (bit (TXRQx r ! 0) 0 \<longrightarrow> can_send poll cmd i dlc dat r = Inr (False, r))"
proof -
  have "id_to_arb (i OR bit32 30) = id_to_arb i"
    by (rule bit_word_eqI) (auto simp: bit_id_to_arb bit_simps bit_bit32 split: if_splits)
  then have "can_send poll cmd (i OR bit32 30) dlc dat r = can_send poll cmd i dlc dat r"
    unfolding can_send_def by (simp only:)
  moreover have "bit (TXRQx r ! 0) 0 \<Longrightarrow> TXRQx r ! 0 AND bit32 0 \<noteq> 0"
    using and_bit_ne_0 [of "TXRQx r ! 0" 0] by (simp add: bit32_def)
  ultimately show ?thesis by (simp add: can_send_def)
qed

theorem can_send_busy_and_rtr_witness:
  "can_send (\<lambda>r. r) (\<lambda>r. r) 5 1 [7] (regs0\<lparr>TXRQx := [1, 0]\<rparr>) = Inr (False, regs0\<lparr>TXRQx := [1, 0]\<rparr>)"
  using can_send_busy_and_rtr [of "\<lambda>r. r" "\<lambda>r. r" 5 1 "[7]" "regs0\<lparr>TXRQx := [1, 0]\<rparr>"] by simp

section \<open>Mailbox configuration\<close>

text \<open>A message object of the controller: its mask, arbitration and message control words.\<close>

type_synonym msg_ram = "u8 \<Rightarrow> u32 \<times> u32 \<times> u32"

definition rx_object :: "u8 \<Rightarrow> u32 \<times> u32 \<times> u32" where
  "rx_object m = (bit32 30, bit32 31 OR bit32 30, bit32 12 OR (if m = 64 then bit32 7 else 0) OR bit32 10)"

text \<open>What the controller does for the driver: the write transfer of \<open>IF1CMD = 0xF8\<close>, and waiting.\<close>

definition stores_object :: "(msg_ram can_regs_scheme \<Rightarrow> msg_ram can_regs_scheme) \<Rightarrow> bool" where
  "stores_object cmd \<longleftrightarrow> (\<forall>r. IF1CMD r = 0xF8 \<longrightarrow>
     CTL (cmd r) = CTL r
     \<and> can_regs.more (cmd r) = (can_regs.more r)(IF1NO r := (IF1MSK r, IF1ARB r, IF1MCTL r)))"

definition always_ready :: "('h can_regs_scheme \<Rightarrow> 'h can_regs_scheme) \<Rightarrow> bool" where
  "always_ready poll \<longleftrightarrow> (\<forall>r. \<exists>k. ready_after poll r k)
     \<and> (\<forall>r. CTL (poll r) = CTL r \<and> can_regs.more (poll r) = can_regs.more r)"

lemma more_update [reg_simps]: "can_regs.more (r\<lparr>CTL := x\<rparr>) = can_regs.more r"
  "can_regs.more (r\<lparr>BTR := x\<rparr>) = can_regs.more r" "can_regs.more (r\<lparr>TIOC := x\<rparr>) = can_regs.more r"
  "can_regs.more (r\<lparr>RIOC := x\<rparr>) = can_regs.more r" "can_regs.more (r\<lparr>IF1STAT := y\<rparr>) = can_regs.more r"
  by (cases r; simp)+

lemma can_init_mbox_spec:
  assumes "always_ready poll" "stores_object cmd"
  shows "\<exists>r'. can_init_mbox poll cmd m r = Some r' \<and> CTL r' = CTL r
     \<and> can_regs.more r' = (can_regs.more r)(m := rx_object m)"
proof -
  obtain k where "ready_after poll r k" using assms(1) by (auto simp: always_ready_def)
  then obtain r1 where "can_if_wait_ready poll r = Some r1" "CTL r1 = CTL r" "can_regs.more r1 = can_regs.more r"
    using wait_keeps [of poll r k "\<lambda>r. (CTL r, can_regs.more r)"] assms(1)
    by (auto simp: always_ready_def)
  then show ?thesis
    using assms(2) by (simp add: can_init_mbox_def stores_object_def rx_object_def)
qed

lemma can_init_mboxes_spec:
  assumes "always_ready poll" "stores_object cmd"
  shows "\<exists>r'. can_init_mboxes poll cmd ms r = Some r' \<and> CTL r' = CTL r
     \<and> can_regs.more r' = (\<lambda>m. if m \<in> set ms then rx_object m else can_regs.more r m)"
proof (induction ms arbitrary: r)
  case (Cons m ms)
  obtain r1 where r1: "can_init_mbox poll cmd m r = Some r1" "CTL r1 = CTL r"
      "can_regs.more r1 = (can_regs.more r)(m := rx_object m)"
    using can_init_mbox_spec [OF assms] by blast
  obtain r2 where r2: "can_init_mboxes poll cmd ms r1 = Some r2" "CTL r2 = CTL r1"
      "can_regs.more r2 = (\<lambda>m. if m \<in> set ms then rx_object m else can_regs.more r1 m)"
    using Cons.IH by blast
  show ?case
    using r1 r2 by (intro exI [of _ r2]) (auto simp: fun_eq_iff)
qed auto

lemma set_rx_mboxes: "m \<in> set rx_mboxes \<longleftrightarrow> 2 \<le> m \<and> m \<le> 64"
proof -
  have "m \<in> set rx_mboxes \<longleftrightarrow> (\<exists>n. 2 \<le> n \<and> n < 65 \<and> m = word_of_nat n)"
    unfolding rx_mboxes_def set_map set_upt image_iff Bex_def atLeastLessThan_iff by blast
  also have "\<dots> \<longleftrightarrow> 2 \<le> unat m \<and> unat m < 65"
    by (auto simp: unat_of_nat intro!: exI [of _ "unat m"])
  also have "\<dots> \<longleftrightarrow> 2 \<le> m \<and> m \<le> 64"
    by (auto simp: word_le_nat_alt)
  finally show ?thesis .
qed

text \<open>
  C12: the mailboxes after \<open>can_init\<close>. On a controller whose busy flag always clears and whose
  write transfer stores the interface registers in the addressed message object, \<open>can_init\<close>
  ends; mailboxes 2 to 64 are then valid receive objects that accept every identifier, chained
  into one FIFO that only mailbox 64 closes, every other message object is as it was, and the
  controller has left its initialisation mode.
\<close>

theorem can_init_mailboxes:
  assumes "always_ready poll" "stores_object cmd"
  shows "\<exists>r'. can_init poll cmd r = Some r'
     \<and> (\<forall>m. can_regs.more r' m = (if 2 \<le> m \<and> m \<le> 64
            then (0x40000000, 0xC0000000, if m = 64 then 0x1480 else 0x1400) else can_regs.more r m))
     \<and> CTL r' = 0x1400 \<and> BTR r' = 0x39C9"
proof -
  obtain r1 where r1: "can_init_mboxes poll cmd rx_mboxes (r\<lparr>CTL := push_bit 10 5 OR bit32 0 OR bit32 6\<rparr>) = Some r1"
      "CTL r1 = push_bit 10 5 OR bit32 0 OR bit32 6"
      "can_regs.more r1 = (\<lambda>m. if m \<in> set rx_mboxes then rx_object m else can_regs.more r m)"
    using can_init_mboxes_spec [OF assms, of rx_mboxes "r\<lparr>CTL := push_bit 10 5 OR bit32 0 OR bit32 6\<rparr>"]
    unfolding more_update by auto
  show ?thesis
    unfolding can_init_def r1(1) option.case Let_def
    using r1(2,3) by (simp add: set_rx_mboxes rx_object_def bit32_def more_update)
qed

definition dcan0 :: "msg_ram can_regs_scheme" where
  "dcan0 = can_regs.extend regs0 (\<lambda>m. (0, 0, 0))"

definition dcan_poll :: "'h can_regs_scheme \<Rightarrow> 'h can_regs_scheme" where
  "dcan_poll r = r\<lparr>IF1STAT := 0\<rparr>"

definition dcan_cmd :: "msg_ram can_regs_scheme \<Rightarrow> msg_ram can_regs_scheme" where
  "dcan_cmd r = can_regs.extend (can_regs.truncate (r\<lparr>IF1STAT := 0x80\<rparr>))
              ((can_regs.more r)(IF1NO r := (IF1MSK r, IF1ARB r, IF1MCTL r)))"

theorem can_init_mailboxes_witness:
  "\<exists>r'. can_init dcan_poll dcan_cmd dcan0 = Some r'
     \<and> can_regs.more r' 64 = (0x40000000, 0xC0000000, 0x1480) \<and> can_regs.more r' 1 = (0, 0, 0)"
proof -
  have "ready_after dcan_poll r 1" for r :: "msg_ram can_regs_scheme"
    by (simp add: ready_after_def dcan_poll_def)
  then have "always_ready (dcan_poll :: msg_ram can_regs_scheme \<Rightarrow> _)"
    unfolding always_ready_def by (intro conjI allI) (blast, simp_all add: dcan_poll_def more_update)
  moreover have "stores_object dcan_cmd"
    by (simp add: stores_object_def dcan_cmd_def can_regs.defs)
  moreover have "can_regs.more dcan0 = (\<lambda>m. (0, 0, 0))" by (simp add: dcan0_def can_regs.defs)
  ultimately show ?thesis
    using can_init_mailboxes [of dcan_poll dcan_cmd dcan0] by (auto simp: word_le_nat_alt)
qed

end
