(* ===== verification/Gateway.thy ===== *)
theory Gateway
  imports Cannelloni Can_Driver
begin

text \<open>
  The application of src/src/main.c: the four CAN interfaces, the callbacks that tie the protocol
  handles to the DCAN driver, their initialisation and the round of the main loop. The frame
  arrays \<open>tx_buf\<close> and \<open>rx_buf\<close> of interface \<open>i\<close> are the arrays at addresses \<open>2 i\<close> and \<open>2 i + 1\<close>
  of the frame store.
\<close>

section \<open>Data\<close>

definition CAN_IFACES :: nat where "CAN_IFACES = 4"
definition CNL_BUF_SIZE :: nat where "CNL_BUF_SIZE = 128"

definition tx_buf :: "nat \<Rightarrow> buf_addr" where "tx_buf i = 2 * i"
definition rx_buf :: "nat \<Rightarrow> buf_addr" where "rx_buf i = 2 * i + 1"

record CANInterface =
  cannelloni :: cannelloni_handle
  canreg :: nat                       \<comment> \<open>\<open>canREG1\<close> to \<open>canREG4\<close>\<close>

text \<open>The receive callbacks that this program registers with UDP, with their arguments.\<close>

datatype recv_fn = Mdns_recv | Handle_cannelloni_frame nat

record 'h gw_net =
  can_controllers :: "nat \<Rightarrow> 'h can_regs_scheme"
  gw_udp :: "recv_fn udp_state"

record 'h gateway =
  can_interfaces :: "CANInterface list"
  gw_frames :: frame_store
  gw_alloc :: alloc_state
  gw_net :: "'h gw_net"

section \<open>Callbacks\<close>

definition node_id :: "u32 \<Rightarrow> u8" where
  "node_id DIEIDL_REG0 = (if DIEIDL_REG0 = 0x1600600D then 1 else if DIEIDL_REG0 = 0x16013009 then 2 else 0)"

type_synonym 'h ctl = "'h can_regs_scheme \<Rightarrow> 'h can_regs_scheme"

definition set_canreg :: "nat \<Rightarrow> 'h can_regs_scheme \<Rightarrow> 'h gw_net \<Rightarrow> 'h gw_net" where
  "set_canreg c r n = n\<lparr>can_controllers := (can_controllers n)(c := r)\<rparr>"

definition on_can_transmit :: "'h ctl \<Rightarrow> 'h ctl \<Rightarrow> nat \<Rightarrow> canfd_frame \<Rightarrow> 'h gw_net \<Rightarrow> (bool \<times> 'h gw_net) result" where
  "on_can_transmit poll cmd c frame n =
     map_sum id (\<lambda>(ok, r). (ok, set_canreg c r n))
       (can_send poll cmd (can_id frame) (frame_len frame) (frame_data frame) (can_controllers n c))"

text \<open>
  The loop of \<open>on_can_receive\<close>, at mailbox \<open>mbox\<close>. The frame pointer that \<open>get_can_rx_frame\<close>
  returns is written through; the flags of the slot keep their old value.
\<close>

definition fill_rx_frame :: "frame_ptr \<Rightarrow> 'h can_regs_scheme \<Rightarrow> frame_store \<Rightarrow> frame_store result" where
  "fill_rx_frame fp r st =
     (case load_frame st fp of
        Inl e \<Rightarrow> Inl e
      | Inr old \<Rightarrow>
          (case can_fill_rx_mbox r (frame_data old) of
             Inl e \<Rightarrow> Inl e
           | Inr (i, len, dat) \<Rightarrow> store_frame fp (old\<lparr>can_id := i, frame_len := len, frame_data := dat\<rparr>) st))"

function on_can_receive_loop ::
  "'h ctl \<Rightarrow> 'h ctl \<Rightarrow> nat \<Rightarrow> u8 \<Rightarrow> 'h gw_net cnl_state \<Rightarrow> 'h gw_net cnl_state result" where
  "on_can_receive_loop poll cmd c mbox s =
     (case can_mbox_has_data poll cmd mbox (can_controllers (cs_net s) c) of
        None \<Rightarrow> Inl Hang
      | Some (has_data, r) \<Rightarrow>
          (let s1 = s\<lparr>cs_net := set_canreg c r (cs_net s)\<rparr> in
           if \<not> has_data then Inr s1
           else
             (case get_can_rx_frame s1 of
                Inl e \<Rightarrow> Inl e
              | Inr (None, s2) \<Rightarrow> Inr s2
              | Inr (Some fp, s2) \<Rightarrow>
                  (case fill_rx_frame fp r (cs_frames s2) of
                     Inl e \<Rightarrow> Inl e
                   | Inr st \<Rightarrow> on_can_receive_loop poll cmd c (mbox + 1) (s2\<lparr>cs_frames := st\<rparr>)))))"
  by pat_completeness auto

lemma has_data_mbox: "can_mbox_has_data poll cmd mbox r = Some (True, r') \<Longrightarrow> mbox \<le> 64"
  by (auto simp: can_mbox_has_data_def CAN_MBOX_LAST_def split: if_splits)

lemma next_mbox: "mbox \<le> (64 :: u8) \<Longrightarrow> unat (mbox + 1) = Suc (unat mbox)"
  by (rule unat_Suc_word [of _ 65]) (simp add: word_less_nat_alt word_le_nat_alt)

termination on_can_receive_loop
proof (relation "measure (\<lambda>(poll, cmd, c, mbox, s). 256 - unat mbox)", goal_cases)
  case (2 poll cmd c mbox s v hd r s1)
  then have "can_mbox_has_data poll cmd mbox (can_controllers (cs_net s) c) = Some (True, r)" by simp
  then have le: "mbox \<le> 64" by (rule has_data_mbox)
  then have "unat mbox \<le> 64" by (simp add: word_le_nat_alt)
  with next_mbox [OF le] show ?case by simp
qed simp

declare on_can_receive_loop.simps [simp del]

definition on_can_receive :: "'h ctl \<Rightarrow> 'h ctl \<Rightarrow> nat \<Rightarrow> 'h gw_net cnl_state \<Rightarrow> 'h gw_net cnl_state result" where
  "on_can_receive poll cmd c s = on_can_receive_loop poll cmd c CAN_RX_QUEUE_FIRST_MBOX s"

section \<open>Initialisation\<close>

text \<open>The control block of the mDNS responder, which is set up before the CAN interfaces.\<close>

definition MDNS_PORT :: u16 where "MDNS_PORT = 5353"

definition mdns_resp_init :: "alloc_state \<Rightarrow> recv_fn udp_state \<Rightarrow> (alloc_state \<times> recv_fn udp_state) result" where
  "mdns_resp_init s u =
     (case udp_new s u of
        Inl e \<Rightarrow> Inl e
      | Inr (pcb, s1, u1) \<Rightarrow>
          if pcb = 0 then Inl AssertFail
          else
            (let u2 = upd_pcb pcb (\<lambda>c. c\<lparr>mcast_ttl := 255\<rparr>) u1;
                 (err, u3) = udp_bind pcb (Some IP6_ADDR_ANY) MDNS_PORT u2
             in if err \<noteq> ERR_OK then Inl AssertFail
                else Inr (s1, udp_recv pcb (Some Mdns_recv) u3)))"

fun multicast_addr :: "ip6_addr \<Rightarrow> ip6_addr" where
  "multicast_addr (IP6 a b c d) = IP6 (push_bit 16 (0xFF00 OR 2) OR (a AND 0xffff)) b c d"

definition init_handle :: "u8 \<Rightarrow> ip6_addr \<Rightarrow> nat \<Rightarrow> cannelloni_handle \<Rightarrow> cannelloni_handle" where
  "init_handle node netif_addr i h =
     (let port = 20000 + ucast node * 10 + of_nat i in
      h\<lparr>init_addr := multicast_addr netif_addr,
        can_buf_size := of_nat CNL_BUF_SIZE,
        can_rx_buf := rx_buf 0,
        can_tx_buf := tx_buf 0,
        init_port := port,
        init_remote_port := port\<rparr>)"

text \<open>
  One round of the initialisation loop. \<open>add_service\<close> stands for \<open>mdns_resp_add_service\<close>, which
  takes a service record from the heap.
\<close>

type_synonym add_service_fn = "u8 \<Rightarrow> nat \<Rightarrow> u16 \<Rightarrow> alloc_state \<Rightarrow> alloc_state result"

definition init_interface ::
  "'h ctl \<Rightarrow> 'h ctl \<Rightarrow> add_service_fn \<Rightarrow> u8 \<Rightarrow> ip6_addr \<Rightarrow> nat \<Rightarrow> 'h gateway \<Rightarrow> 'h gateway result" where
  "init_interface poll cmd add_service node netif_addr i g =
     (let h = init_handle node netif_addr i (cannelloni (can_interfaces g ! i)) in
      case can_init poll cmd (can_controllers (gw_net g) (Suc i)) of
        None \<Rightarrow> Inl Hang
      | Some r \<Rightarrow>
          (case init_cannelloni (Handle_cannelloni_frame i) h (gw_alloc g) (gw_udp (gw_net g)) of
             Inl e \<Rightarrow> Inl e
           | Inr (h', al, u) \<Rightarrow>
               (case add_service node i (init_port h') al of
                  Inl e \<Rightarrow> Inl e
                | Inr al' \<Rightarrow>
                    Inr (g\<lparr>can_interfaces := (can_interfaces g)[i := \<lparr>cannelloni = h', canreg = Suc i\<rparr>],
                           gw_alloc := al',
                           gw_net := (set_canreg (Suc i) r (gw_net g))\<lparr>gw_udp := u\<rparr>\<rparr>))))"

fun init_interfaces ::
  "'h ctl \<Rightarrow> 'h ctl \<Rightarrow> add_service_fn \<Rightarrow> u8 \<Rightarrow> ip6_addr \<Rightarrow> nat list \<Rightarrow> 'h gateway \<Rightarrow> 'h gateway result" where
  "init_interfaces poll cmd add_service node a [] g = Inr g"
| "init_interfaces poll cmd add_service node a (i # is) g =
     (case init_interface poll cmd add_service node a i g of
        Inl e \<Rightarrow> Inl e
      | Inr g' \<Rightarrow> init_interfaces poll cmd add_service node a is g')"

text \<open>\<open>main\<close> from \<open>mdns_resp_init\<close> to the end of the initialisation loop.\<close>

definition main_init ::
  "'h ctl \<Rightarrow> 'h ctl \<Rightarrow> add_service_fn \<Rightarrow> u32 \<Rightarrow> ip6_addr \<Rightarrow> 'h gateway \<Rightarrow> 'h gateway result" where
  "main_init poll cmd add_service die netif_addr g =
     (case mdns_resp_init (gw_alloc g) (gw_udp (gw_net g)) of
        Inl e \<Rightarrow> Inl e
      | Inr (al, u) \<Rightarrow>
          init_interfaces poll cmd add_service (node_id die) netif_addr [0..<CAN_IFACES]
            (g\<lparr>gw_alloc := al, gw_net := (gw_net g)\<lparr>gw_udp := u\<rparr>\<rparr>))"

section \<open>The main loop\<close>

definition iface_state :: "nat \<Rightarrow> 'h gateway \<Rightarrow> 'h gw_net cnl_state" where
  "iface_state i g = \<lparr>cs_handle = cannelloni (can_interfaces g ! i), cs_frames = gw_frames g,
     cs_alloc = gw_alloc g, cs_net = gw_net g\<rparr>"

definition put_iface :: "nat \<Rightarrow> 'h gw_net cnl_state \<Rightarrow> 'h gateway \<Rightarrow> 'h gateway" where
  "put_iface i s g = g\<lparr>can_interfaces := (can_interfaces g)[i := (can_interfaces g ! i)\<lparr>cannelloni := cs_handle s\<rparr>],
     gw_frames := cs_frames s, gw_alloc := cs_alloc s, gw_net := cs_net s\<rparr>"

definition run_interface ::
  "(nat \<Rightarrow> bytes) \<Rightarrow> 'h gw_net sendto_fn \<Rightarrow> 'h ctl \<Rightarrow> 'h ctl \<Rightarrow> nat \<Rightarrow> 'h gateway \<Rightarrow> 'h gateway result" where
  "run_interface uninit udp_sendto poll cmd i g =
     (let c = canreg (can_interfaces g ! i) in
      map_sum id (\<lambda>s. put_iface i s g)
        (run_cannelloni uninit udp_sendto (Some (\<lambda>_. on_can_transmit poll cmd c))
           (Some (on_can_receive poll cmd c)) (iface_state i g)))"

fun run_interfaces ::
  "(nat \<Rightarrow> bytes) \<Rightarrow> 'h gw_net sendto_fn \<Rightarrow> 'h ctl \<Rightarrow> 'h ctl \<Rightarrow> nat list \<Rightarrow> 'h gateway \<Rightarrow> 'h gateway result" where
  "run_interfaces uninit udp_sendto poll cmd [] g = Inr g"
| "run_interfaces uninit udp_sendto poll cmd (i # is) g =
     (case run_interface uninit udp_sendto poll cmd i g of
        Inl e \<Rightarrow> Inl e
      | Inr g' \<Rightarrow> run_interfaces uninit udp_sendto poll cmd is g')"

text \<open>One round of the endless loop of \<open>main\<close>; \<open>check_timeouts\<close> is \<open>sys_check_timeouts\<close>.\<close>

definition main_loop_round ::
  "(nat \<Rightarrow> bytes) \<Rightarrow> 'h gw_net sendto_fn \<Rightarrow> 'h ctl \<Rightarrow> 'h ctl \<Rightarrow> ('h gateway \<Rightarrow> 'h gateway result) \<Rightarrow>
   'h gateway \<Rightarrow> 'h gateway result" where
  "main_loop_round uninit udp_sendto poll cmd check_timeouts g =
     (case check_timeouts g of
        Inl e \<Rightarrow> Inl e
      | Inr g' \<Rightarrow> run_interfaces uninit udp_sendto poll cmd [0..<CAN_IFACES] g')"

text \<open>A datagram for interface \<open>i\<close> arrives, by way of its UDP receive callback.\<close>

definition recv_datagram :: "nat \<Rightarrow> chain \<Rightarrow> 'h gateway \<Rightarrow> 'h gateway result" where
  "recv_datagram i p g = map_sum id (\<lambda>s. put_iface i s g) (handle_cannelloni_frame p (iface_state i g))"

section \<open>Control blocks of the application\<close>

text \<open>The bound control blocks: their ports and callbacks, most recently bound first.\<close>

definition pcb_table :: "'cb udp_state \<Rightarrow> (u16 \<times> 'cb option) list" where
  "pcb_table u = map (\<lambda>p. (local_port (pcb_at u p), recv_cb (pcb_at u p))) (udp_pcbs u)"

text \<open>\<open>n\<close> control blocks are left in the pool, and none of them is in use.\<close>

definition udp_inv :: "(memp_t \<Rightarrow> memp_desc) \<Rightarrow> nat \<Rightarrow> alloc_state \<Rightarrow> 'cb udp_state \<Rightarrow> bool" where
  "udp_inv pools n s u \<longleftrightarrow> memp_ok pools (al_memp s)
     \<and> card (free_elems (al_memp s) MEMP_UDP_PCB) = n
     \<and> set (udp_pcbs u) \<inter> free_elems (al_memp s) MEMP_UDP_PCB = {}"

lemma pcb_table_upd [simp]: "p \<notin> set (udp_pcbs u) \<Longrightarrow> pcb_table (upd_pcb p f u) = pcb_table u"
  by (auto simp: pcb_table_def upd_pcb_def)

lemma udp_pcbs_upd [simp]: "udp_pcbs (upd_pcb p f u) = udp_pcbs u"
  by (simp add: upd_pcb_def)

lemma udp_new_free:
  fixes u :: "'cb udp_state"
  assumes "udp_inv pools (Suc n) s u"
  shows "\<exists>p s1 c. udp_new s u = Inr (p, s1, upd_pcb p (\<lambda>_. c) u) \<and> p \<noteq> 0 \<and> p \<notin> set (udp_pcbs u)
    \<and> (\<forall>u' :: 'cb udp_state. set (udp_pcbs u') \<subseteq> insert p (set (udp_pcbs u)) \<longrightarrow> udp_inv pools n s1 u')"
proof -
  let ?F = "free_elems (al_memp s) MEMP_UDP_PCB"
  have ok: "memp_ok pools (al_memp s)" and card: "card ?F = Suc n" and dis: "set (udp_pcbs u) \<inter> ?F = {}"
    using assms by (auto simp: udp_inv_def)
  then have "?F \<noteq> {}" by auto
  then obtain p m where m: "memp_malloc MEMP_UDP_PCB (al_memp s) = Inr (Some p, m)" "p \<in> ?F" "memp_ok pools m"
      "free_elems m = (free_elems (al_memp s))(MEMP_UDP_PCB := ?F - {p})"
    using pool.malloc_some [OF ok] by blast
  have "p \<noteq> 0" using m(1) by (auto simp: memp_malloc_def do_memp_malloc_pool_def Let_def split: if_splits)
  moreover have "card (?F - {p}) = n" using card m(2) by simp
  ultimately show ?thesis
    using m dis by (auto simp: udp_new_def udp_inv_def)
qed

lemma udp_new_exhausted:
  assumes "udp_inv pools 0 s u"
  shows "udp_new s u = Inr (0, s, u)"
proof -
  have ok: "memp_ok pools (al_memp s)" and card: "card (free_elems (al_memp s) MEMP_UDP_PCB) = 0"
    using assms by (auto simp: udp_inv_def)
  then have "free_elems (al_memp s) MEMP_UDP_PCB = {}" using pool.finite_free [OF ok] by auto
  from pool.malloc_none [OF ok this] show ?thesis by (simp add: udp_new_def)
qed

lemma udp_bind_fresh:
  assumes "p \<noteq> 0" "p \<notin> set (udp_pcbs u)" "port \<noteq> 0" "port \<notin> fst ` set (pcb_table u)"
  shows "\<exists>u'. udp_bind p (Some ip) port u = (ERR_OK, u') \<and> udp_pcbs u' = p # udp_pcbs u
    \<and> pcb_table (udp_recv p (Some cb) u') = (port, Some cb) # pcb_table u"
proof -
  have no: "\<not> list_ex (bind_conflict u p ip port) (udp_pcbs u)"
    using assms(4) by (auto simp: bind_conflict_def list_ex_iff pcb_table_def image_image)
  let ?u' = "udp_bind_to p ip port False u"
  have "udp_bind p (Some ip) port u = (ERR_OK, ?u')"
    using assms no by (simp add: udp_bind_def)
  moreover have "udp_pcbs ?u' = p # udp_pcbs u" by (simp add: udp_bind_to_def Let_def)
  moreover have "pcb_table (udp_recv p (Some cb) ?u') = (port, Some cb) # pcb_table u"
    using assms(1,2) by (auto simp: udp_bind_to_def Let_def pcb_table_def udp_recv_def upd_pcb_def)
  ultimately show ?thesis by blast
qed

lemma udp_recv_pcbs [simp]: "udp_pcbs (udp_recv p cb u) = udp_pcbs u"
  by (simp add: udp_recv_def)

lemma mdns_resp_init_ok:
  assumes inv: "udp_inv pools (Suc n) s u" and port: "MDNS_PORT \<notin> fst ` set (pcb_table u)"
  shows "\<exists>s' u'. mdns_resp_init s u = Inr (s', u') \<and> udp_inv pools n s' u'
    \<and> pcb_table u' = (MDNS_PORT, Some Mdns_recv) # pcb_table u"
proof -
  obtain p s1 c where p: "udp_new s u = Inr (p, s1, upd_pcb p (\<lambda>_. c) u)" "p \<noteq> 0" "p \<notin> set (udp_pcbs u)"
      "\<forall>u' :: recv_fn udp_state. set (udp_pcbs u') \<subseteq> insert p (set (udp_pcbs u)) \<longrightarrow> udp_inv pools n s1 u'"
    using udp_new_free [OF inv] by blast
  let ?u2 = "upd_pcb p (\<lambda>c. c\<lparr>mcast_ttl := 255\<rparr>) (upd_pcb p (\<lambda>_. c) u)"
  obtain u3 where u3: "udp_bind p (Some IP6_ADDR_ANY) MDNS_PORT ?u2 = (ERR_OK, u3)" "udp_pcbs u3 = p # udp_pcbs u"
      "pcb_table (udp_recv p (Some Mdns_recv) u3) = (MDNS_PORT, Some Mdns_recv) # pcb_table u"
    using udp_bind_fresh [of p ?u2 MDNS_PORT IP6_ADDR_ANY Mdns_recv] p port by (auto simp: MDNS_PORT_def)
  have "udp_inv pools n s1 (udp_recv p (Some Mdns_recv) u3)"
    by (rule p(4) [rule_format]) (simp add: u3(2))
  then show ?thesis
    using p u3 by (auto simp: mdns_resp_init_def)
qed

lemma init_cannelloni_ok:
  fixes u :: "'cb udp_state"
  assumes inv: "udp_inv pools (Suc n) s u" and port: "init_port h \<noteq> 0" "init_port h \<notin> fst ` set (pcb_table u)"
  shows "\<exists>p s' u'. init_cannelloni cb h s u = Inr (h\<lparr>sequence_number := 0, udp_rx_count := 0,
        tx_queue := queue_init (can_tx_buf h) (ucast (can_buf_size h)),
        rx_queue := queue_init (can_rx_buf h) (ucast (can_buf_size h)), cnl_pcb := p\<rparr>, s', u')
    \<and> p \<noteq> 0 \<and> udp_inv pools n s' u' \<and> pcb_table u' = (init_port h, Some cb) # pcb_table u"
proof -
  obtain p s1 c where p: "udp_new s u = Inr (p, s1, upd_pcb p (\<lambda>_. c) u)" "p \<noteq> 0" "p \<notin> set (udp_pcbs u)"
      "\<forall>u' :: 'cb udp_state. set (udp_pcbs u') \<subseteq> insert p (set (udp_pcbs u)) \<longrightarrow> udp_inv pools n s1 u'"
    using udp_new_free [OF inv] by blast
  obtain u3 where u3: "udp_bind p (Some IP6_ADDR_ANY) (init_port h) (upd_pcb p (\<lambda>_. c) u) = (ERR_OK, u3)"
      "udp_pcbs u3 = p # udp_pcbs u" "pcb_table (udp_recv p (Some cb) u3) = (init_port h, Some cb) # pcb_table u"
    using udp_bind_fresh [of p "upd_pcb p (\<lambda>_. c) u" "init_port h" IP6_ADDR_ANY cb] p port by auto
  have "udp_inv pools n s1 (udp_recv p (Some cb) u3)"
    by (rule p(4) [rule_format]) (simp add: u3(2))
  then show ?thesis
    using p u3 by (intro exI [of _ p] exI [of _ s1] exI [of _ "udp_recv p (Some cb) u3"])
      (auto simp: init_cannelloni_def Let_def)
qed

lemma init_cannelloni_exhausted:
  assumes "udp_inv pools 0 s u"
  shows "init_cannelloni cb h s u = Inr (h\<lparr>sequence_number := 0, udp_rx_count := 0,
        tx_queue := queue_init (can_tx_buf h) (ucast (can_buf_size h)),
        rx_queue := queue_init (can_rx_buf h) (ucast (can_buf_size h)), cnl_pcb := 0\<rparr>, s, u)"
  using udp_new_exhausted [OF assms] by (simp add: init_cannelloni_def Let_def)

section \<open>Start-up\<close>

lemma can_init_mboxes_total:
  "\<forall>r. \<exists>k. ready_after poll r k \<Longrightarrow> \<exists>r'. can_init_mboxes poll cmd ms r = Some r'"
proof (induction ms arbitrary: r)
  case (Cons m ms)
  obtain r1 where "can_if_wait_ready poll r = Some r1"
    using Cons.prems wait_keeps [of poll r _ "\<lambda>_. ()"] by blast
  then have "\<exists>r'. can_init_mbox poll cmd m r = Some r'" by (simp add: can_init_mbox_def)
  with Cons show ?case by fastforce
qed simp

lemma can_init_total: "\<forall>r. \<exists>k. ready_after poll r k \<Longrightarrow> \<exists>r'. can_init poll cmd r = Some r'"
  using can_init_mboxes_total [of poll cmd rx_mboxes "r\<lparr>CTL := push_bit 10 5 OR bit32 0 OR bit32 6\<rparr>"]
  unfolding can_init_def Let_def by auto

definition service_ok :: "add_service_fn \<Rightarrow> bool" where
  "service_ok add_service \<longleftrightarrow> (\<forall>node i port al. \<exists>al'. add_service node i port al = Inr al' \<and> al_memp al' = al_memp al)"

text \<open>What the initialisation loop does to the handle of interface \<open>i\<close>.\<close>

definition started :: "u8 \<Rightarrow> ip6_addr \<Rightarrow> nat \<Rightarrow> nat \<Rightarrow> CANInterface \<Rightarrow> bool" where
  "started node a i p ci \<longleftrightarrow> canreg ci = Suc i \<and> cnl_pcb (cannelloni ci) = p
     \<and> init_port (cannelloni ci) = 20000 + ucast node * 10 + of_nat i
     \<and> init_remote_port (cannelloni ci) = init_port (cannelloni ci)
     \<and> init_addr (cannelloni ci) = multicast_addr a
     \<and> rx_queue (cannelloni ci) = queue_init (rx_buf 0) 128
     \<and> tx_queue (cannelloni ci) = queue_init (tx_buf 0) 128"

lemma init_handle_simps [simp]:
  "init_port (init_handle node a i h) = 20000 + ucast node * 10 + of_nat i"
  "init_remote_port (init_handle node a i h) = 20000 + ucast node * 10 + of_nat i"
  "init_addr (init_handle node a i h) = multicast_addr a"
  "can_rx_buf (init_handle node a i h) = rx_buf 0" "can_tx_buf (init_handle node a i h) = tx_buf 0"
  "can_buf_size (init_handle node a i h) = 128"
  by (simp_all add: init_handle_def CNL_BUF_SIZE_def Let_def)

definition gw_port :: "u8 \<Rightarrow> nat \<Rightarrow> u16" where
  "gw_port node i = 20000 + ucast node * 10 + of_nat i"

abbreviation (input) start_handle :: "nat \<Rightarrow> cannelloni_handle \<Rightarrow> cannelloni_handle" where
  "start_handle p h \<equiv> h\<lparr>sequence_number := 0, udp_rx_count := 0, tx_queue := queue_init (tx_buf 0) 128,
     rx_queue := queue_init (rx_buf 0) 128, cnl_pcb := p\<rparr>"

lemma started_start: "started node a i p \<lparr>cannelloni = start_handle p (init_handle node a i h), canreg = Suc i\<rparr>"
  by (simp add: started_def)

lemma init_interface_ok:
  assumes ready: "\<forall>r. \<exists>k. ready_after poll r k" and svc: "service_ok add_service"
    and i: "i < length (can_interfaces g)" and inv: "udp_inv pools (Suc n) (gw_alloc g) (gw_udp (gw_net g))"
    and port: "gw_port node i \<notin> insert 0 (fst ` set (pcb_table (gw_udp (gw_net g))))"
  shows "\<exists>g' p. init_interface poll cmd add_service node a i g = Inr g' \<and> p \<noteq> 0
    \<and> udp_inv pools n (gw_alloc g') (gw_udp (gw_net g'))
    \<and> pcb_table (gw_udp (gw_net g'))
        = (gw_port node i, Some (Handle_cannelloni_frame i)) # pcb_table (gw_udp (gw_net g))
    \<and> (\<exists>ci. started node a i p ci \<and> can_interfaces g' = (can_interfaces g)[i := ci])"
proof -
  let ?h = "init_handle node a i (cannelloni (can_interfaces g ! i))"
  obtain r where r: "can_init poll cmd (can_controllers (gw_net g) (Suc i)) = Some r"
    using can_init_total [OF ready] by blast
  obtain p s' u' where c: "init_cannelloni (Handle_cannelloni_frame i) ?h (gw_alloc g) (gw_udp (gw_net g)) =
        Inr (start_handle p ?h, s', u')"
      "p \<noteq> 0" "udp_inv pools n s' u'" "pcb_table u' = (20000 + ucast node * 10 + of_nat i, Some (Handle_cannelloni_frame i))
        # pcb_table (gw_udp (gw_net g))"
    using init_cannelloni_ok [OF inv, of ?h "Handle_cannelloni_frame i"] port by (auto simp: gw_port_def)
  obtain al' where al: "add_service node i (20000 + ucast node * 10 + of_nat i) s' = Inr al'" "al_memp al' = al_memp s'"
    using svc unfolding service_ok_def by blast
  have "udp_inv pools n al' u'" using c(3) al(2) by (simp add: udp_inv_def)
  then show ?thesis
    using r c al started_start [of node a i p "cannelloni (can_interfaces g ! i)"]
    by (auto simp: init_interface_def Let_def gw_port_def intro!: exI [of _ p])
qed

lemma init_interface_exhausted:
  assumes ready: "\<forall>r. \<exists>k. ready_after poll r k" and svc: "service_ok add_service"
    and i: "i < length (can_interfaces g)" and inv: "udp_inv pools 0 (gw_alloc g) (gw_udp (gw_net g))"
  shows "\<exists>g'. init_interface poll cmd add_service node a i g = Inr g'
    \<and> gw_udp (gw_net g') = gw_udp (gw_net g)
    \<and> (\<exists>ci. started node a i 0 ci \<and> can_interfaces g' = (can_interfaces g)[i := ci])"
proof -
  let ?h = "init_handle node a i (cannelloni (can_interfaces g ! i))"
  obtain r where r: "can_init poll cmd (can_controllers (gw_net g) (Suc i)) = Some r"
    using can_init_total [OF ready] by blast
  obtain al' where al: "add_service node i (20000 + ucast node * 10 + of_nat i) (gw_alloc g) = Inr al'"
    using svc unfolding service_ok_def by blast
  show ?thesis
    using r al init_cannelloni_exhausted [OF inv, of "Handle_cannelloni_frame i" ?h]
      started_start [of node a i 0 "cannelloni (can_interfaces g ! i)"]
    by (auto simp: init_interface_def Let_def set_canreg_def)
qed

text \<open>The ports of the interfaces are distinct and none is 0 or the mDNS port.\<close>

lemma node_id_cases: "node_id d = 0 \<or> node_id d = 1 \<or> node_id d = 2"
  by (simp add: node_id_def)

lemma gw_port_distinct:
  "i < 4 \<Longrightarrow> gw_port (node_id d) i \<notin> {0, MDNS_PORT}"
  "i < 4 \<Longrightarrow> j < 4 \<Longrightarrow> gw_port (node_id d) i = gw_port (node_id d) j \<longleftrightarrow> i = j"
proof -
  have four: "i < 4 \<Longrightarrow> i = 0 \<or> i = 1 \<or> i = 2 \<or> i = 3" by arith
  show "i < 4 \<Longrightarrow> gw_port (node_id d) i \<notin> {0, MDNS_PORT}"
    using four node_id_cases [of d] by (auto simp: gw_port_def MDNS_PORT_def)
  have "unat (of_nat k :: u16) = k" if "k < 4" for k
    using that by (simp add: unat_of_nat)
  then show "i < 4 \<Longrightarrow> j < 4 \<Longrightarrow> gw_port (node_id d) i = gw_port (node_id d) j \<longleftrightarrow> i = j"
    by (auto simp: gw_port_def) metis
qed


definition gw0 :: "unit gateway" where
  "gw0 = \<lparr>can_interfaces = replicate 4 \<lparr>cannelloni = handle0, canreg = 0\<rparr>,
     gw_frames = (\<lambda>_. replicate 128 (sample_frame 0)),
     gw_alloc = \<lparr>al_memp = memp0, al_heap = heap1\<rparr>,
     gw_net = \<lparr>can_controllers = (\<lambda>_. regs0), gw_udp = \<lparr>udp_pcbs = [], pcb_at = undefined, udp_port = 0xc000\<rparr>\<rparr>\<rparr>"

lemma dcan_poll_ready: "ready_after dcan_poll r 1"
  by (simp add: ready_after_def dcan_poll_def)




section \<open>Receiving from the bus\<close>

text \<open>
  The register snapshots that \<open>can_mbox_has_data\<close> leaves for the mailboxes \<open>ms\<close>, up to the first
  one that has no data, and what such a snapshot says about the frame.
\<close>

fun mbox_snapshots :: "'h ctl \<Rightarrow> 'h ctl \<Rightarrow> u8 list \<Rightarrow> 'h can_regs_scheme \<Rightarrow> 'h can_regs_scheme list" where
  "mbox_snapshots poll cmd [] r = []"
| "mbox_snapshots poll cmd (m # ms) r =
     (case can_mbox_has_data poll cmd m r of
        Some (True, r') \<Rightarrow> r' # mbox_snapshots poll cmd ms r'
      | _ \<Rightarrow> [])"

definition reg_dlc :: "'h can_regs_scheme \<Rightarrow> u8" where
  "reg_dlc r = ucast (IF1MCTL r AND 0xF)"

definition reg_view :: "'h can_regs_scheme \<Rightarrow> u32 \<times> u8 \<times> bytes" where
  "reg_view r = (arb_to_id (IF1ARB r), reg_dlc r,
     map (\<lambda>i. IF1DATx r ! (data_byte_order ! i)) [0..<unat (reg_dlc r)])"

definition rx_fill :: "'h can_regs_scheme \<Rightarrow> canfd_frame \<Rightarrow> canfd_frame" where
  "rx_fill r old = old\<lparr>can_id := arb_to_id (IF1ARB r), frame_len := reg_dlc r,
     frame_data := map (\<lambda>i. IF1DATx r ! (data_byte_order ! i)) [0..<unat (reg_dlc r)]
       @ drop (unat (reg_dlc r)) (frame_data old)\<rparr>"

text \<open>Frames as the driver and the protocol leave them: 8 data bytes, a plain length.\<close>

definition small_frame :: "canfd_frame \<Rightarrow> bool" where
  "small_frame f \<longleftrightarrow> length (frame_data f) = 8 \<and> unat (frame_len f) \<le> 8"

definition frames_small :: "frame_store \<Rightarrow> bool" where
  "frames_small st \<longleftrightarrow> (\<forall>a. \<forall>f \<in> set (st a). small_frame f)"

lemma load_small: "load_frame st fp = Inr old \<Longrightarrow> frames_small st \<Longrightarrow> small_frame old"
  using nth_mem by (fastforce simp: load_frame_def mem_get_def frames_small_def split: if_splits)

lemma small_canfd_len: "unat (frame_len f) \<le> 8 \<Longrightarrow> canfd_len f = frame_len f"
proof -
  assume le: "unat (frame_len f) \<le> 8"
  have "even (unat (frame_len f) div 2 ^ 7)" using le by simp
  then have b: "\<not> bit (frame_len f) 7"
    using bit_unsigned_iff [of "frame_len f" 7, where 'a = nat] by (simp add: bit_iff_odd)
  have "frame_len f AND CANFD_FRAME = 0"
  proof (rule bit_word_eqI)
    fix n :: nat
    have "(0x80 :: u8) = push_bit 7 1" by simp
    then have "bit (0x80 :: u8) n \<Longrightarrow> n = 7" by (metis bit_push_bit_iff bit_1_iff le_add_diff_inverse add.right_neutral)
    then show "bit (frame_len f AND CANFD_FRAME) n = bit 0 n"
      using b by (auto simp: CANFD_FRAME_def bit_simps)
  qed
  then show ?thesis by (simp add: canfd_len_def and_not_disjoint)
qed

lemma small_frame_wf: "small_frame f \<Longrightarrow> frame_wf f"
  using small_canfd_len [of f] by (simp add: small_frame_def frame_wf_def CNL_CANFD_MAX_DLEN_def)

lemma rx_fill_small: "length (frame_data old) = 8 \<Longrightarrow> unat (reg_dlc r) \<le> 8 \<Longrightarrow> small_frame (rx_fill r old)"
  by (simp add: small_frame_def rx_fill_def)

lemma rx_fill_view: "unat (reg_dlc r) \<le> 8 \<Longrightarrow> frame_view (rx_fill r old) = reg_view r"
  using small_canfd_len [of "rx_fill r old"] by (simp add: frame_view_def rx_fill_def reg_view_def)

text \<open>The body of the loop is one step of the FIFO contract.\<close>

lemma fill_rx_frame_enqueue:
  assumes "unat (reg_dlc r) \<le> 8" "frames_small st"
  shows "(case queue_put q of Inl e \<Rightarrow> Inl e | Inr (None, q') \<Rightarrow> Inr None
      | Inr (Some fp, q') \<Rightarrow> map_sum id (\<lambda>st'. Some (st', q')) (fill_rx_frame fp r st))
    = frame_enqueue (rx_fill r) (st, q)"
proof -
  have "fill_rx_frame fp r st = (case load_frame st fp of Inl e \<Rightarrow> Inl e | Inr old \<Rightarrow> store_frame fp (rx_fill r old) st)" for fp
  proof (cases "load_frame st fp")
    case (Inr old)
    then have "small_frame old"
      using load_small assms(2) by blast
    then have "can_fill_rx_mbox r (frame_data old)
        = Inr (can_id (rx_fill r old), frame_len (rx_fill r old), frame_data (rx_fill r old))"
      using assms(1) can_fill_loop [of "unat (reg_dlc r)" "frame_data old" "IF1DATx r"]
      by (simp add: can_fill_rx_mbox_def reg_dlc_def [symmetric] rx_fill_def small_frame_def data_byte_order_simps Let_def)
    then show ?thesis using Inr by (simp add: fill_rx_frame_def rx_fill_def)
  qed (simp add: fill_rx_frame_def)
  then show ?thesis
    by (auto simp: frame_enqueue_def split: sum.splits prod.splits option.splits)
qed

lemma enqueue_frames_small:
  assumes "frame_enqueue fill (st, q) = Inr (Some (st', q'))" "frames_small st"
    and "\<And>old. small_frame old \<Longrightarrow> small_frame (fill old)"
  shows "frames_small st' \<and> (\<forall>a. length (st' a) = length (st a))"
proof -
  obtain fp old where e: "load_frame st fp = Inr old" "store_frame fp (fill old) st = Inr st'"
    using assms(1) by (auto simp: frame_enqueue_def split: sum.splits prod.splits option.splits)
  then have st': "st' = st(fst fp := (st (fst fp))[unat (snd fp) := fill old])"
    by (simp add: store_frame_def split: if_splits)
  have "small_frame old"
    using load_small e(1) assms(2) by blast
  then have "small_frame (fill old)" by (rule assms(3))
  then show ?thesis
    using assms(2) unfolding frames_small_def st' by (auto dest!: set_update_subset_insert [THEN subsetD])
qed

lemma queue_ok_cong: "queue_ok st q \<Longrightarrow> \<forall>a. length (st' a) = length (st a) \<Longrightarrow> queue_ok st' q"
  by (simp add: queue_ok_def)

lemma queue_capacity_pos: "queue_ok st q \<Longrightarrow> queue_length q \<le> unat (q_count q) - 1"
  using queue_length_less [of st q] by simp

text \<open>One round of the loop for a mailbox with data.\<close>

lemma receive_loop_step:
  assumes "can_mbox_has_data poll cmd mbox (can_controllers (cs_net s) c) = Some (True, r)"
    and "unat (reg_dlc r) \<le> 8" "frames_small (cs_frames s)"
  shows "on_can_receive_loop poll cmd c mbox s =
    (case frame_enqueue (rx_fill r) (cs_frames s, rx_queue (cs_handle s)) of
       Inl e \<Rightarrow> Inl e
     | Inr None \<Rightarrow> Inr (s\<lparr>cs_net := set_canreg c r (cs_net s)\<rparr>)
     | Inr (Some (st, q)) \<Rightarrow> on_can_receive_loop poll cmd c (mbox + 1)
         (s\<lparr>cs_net := set_canreg c r (cs_net s), cs_handle := (cs_handle s)\<lparr>rx_queue := q\<rparr>, cs_frames := st\<rparr>))"
proof -
  have full: "queue_put q = Inr (None, q') \<Longrightarrow> q' = q" for q q'
    by (auto simp: queue_put_def split: if_splits)
  show ?thesis
    unfolding fill_rx_frame_enqueue [OF assms(2,3), symmetric]
    using assms(1) full
    by (subst on_can_receive_loop.simps)
       (auto simp: get_can_rx_frame_def Let_def split: sum.splits prod.splits option.splits)
qed

lemma has_data_total:
  assumes "\<forall>r. \<exists>k. ready_after poll r k"
  shows "\<exists>b r'. can_mbox_has_data poll cmd m r = Some (b, r')"
proof -
  have wait: "\<exists>r'. can_if_wait_ready poll r = Some r'" for r
    using assms wait_keeps [of poll r _ "\<lambda>_. ()"] by blast
  obtain r1 where r1: "can_if_wait_ready poll r = Some r1" using wait by blast
  obtain r2 where "can_if_wait_ready poll (cmd (r1\<lparr>IF1CMD := 0x3F, IF1NO := m\<rparr>)) = Some r2" using wait by blast
  with r1 show ?thesis by (cases "m > CAN_MBOX_LAST") (auto simp: can_mbox_has_data_def intro: exI [of _ False])
qed

definition mboxes_from :: "u8 \<Rightarrow> u8 list" where
  "mboxes_from m = map word_of_nat [unat m..<65]"

lemma mboxes_from_Cons: "m \<le> 64 \<Longrightarrow> mboxes_from m = m # mboxes_from (m + 1)"
  using next_mbox [of m] by (simp add: mboxes_from_def upt_conv_Cons word_le_nat_alt)

lemma mboxes_from_2: "mboxes_from CAN_RX_QUEUE_FIRST_MBOX = rx_mboxes"
  by (simp only: mboxes_from_def rx_mboxes_def CAN_RX_QUEUE_FIRST_MBOX_def) simp

text \<open>The frames of the snapshots go into the queue, in mailbox order, as long as there is room.\<close>

definition rx_room :: "'n cnl_state \<Rightarrow> nat" where
  "rx_room s = unat (q_count (rx_queue (cs_handle s))) - 1 - length (rx_frames s)"

definition received :: "'n cnl_state \<Rightarrow> (u32 \<times> u8 \<times> bytes) list \<Rightarrow> 'n cnl_state \<Rightarrow> bool" where
  "received s vs s' \<longleftrightarrow> queue_ok (cs_frames s') (rx_queue (cs_handle s')) \<and> frames_small (cs_frames s')
     \<and> (\<forall>a. length (cs_frames s' a) = length (cs_frames s a))
     \<and> tx_queue (cs_handle s') = tx_queue (cs_handle s) \<and> cs_alloc s' = cs_alloc s
     \<and> map frame_view (rx_frames s') = map frame_view (rx_frames s) @ take (rx_room s) vs"

lemma receive_loop_spec:
  assumes ready: "\<forall>r. \<exists>k. ready_after poll r k"
  shows "mbox \<le> 65 \<Longrightarrow> queue_ok (cs_frames s) (rx_queue (cs_handle s)) \<Longrightarrow> frames_small (cs_frames s) \<Longrightarrow>
    \<forall>r \<in> set (mbox_snapshots poll cmd (mboxes_from mbox) (can_controllers (cs_net s) c)). unat (reg_dlc r) \<le> 8 \<Longrightarrow>
    \<exists>s'. on_can_receive_loop poll cmd c mbox s = Inr s'
      \<and> received s (map reg_view (mbox_snapshots poll cmd (mboxes_from mbox) (can_controllers (cs_net s) c))) s'"
proof (induction "65 - unat mbox" arbitrary: mbox s rule: less_induct)
  case less
  let ?r = "can_controllers (cs_net s) c"
  obtain b r where hd: "can_mbox_has_data poll cmd mbox ?r = Some (b, r)"
    using has_data_total [OF ready] by blast
  show ?case
  proof (cases b)
    case False
    have no: "mbox_snapshots poll cmd (mboxes_from mbox) ?r = []"
      using hd False by (cases "mboxes_from mbox") (auto simp: mboxes_from_def upt_eq_Cons_conv split: option.splits)
    have "on_can_receive_loop poll cmd c mbox s = Inr (s\<lparr>cs_net := set_canreg c r (cs_net s)\<rparr>)"
      using hd False by (subst on_can_receive_loop.simps) simp
    then show ?thesis
      unfolding no using less.prems by (simp add: received_def rx_frames_def)
  next
    case True
    then have le: "mbox \<le> 64" using hd has_data_mbox [of poll cmd mbox ?r r] by simp
    let ?snaps = "mbox_snapshots poll cmd (mboxes_from (mbox + 1)) r"
    have snaps: "mbox_snapshots poll cmd (mboxes_from mbox) ?r = r # ?snaps"
      using hd True by (simp add: mboxes_from_Cons [OF le])
    have small: "unat (reg_dlc r) \<le> 8" using less.prems(4) unfolding snaps by simp
    let ?q = "(cs_frames s, rx_queue (cs_handle s))"
    have qok: "queue_state_ok ?q" using less.prems(2) by simp
    have "can_mbox_has_data poll cmd mbox ?r = Some (True, r)" using hd True by simp
    note step = receive_loop_step [OF this small less.prems(3)]
    show ?thesis
    proof (cases "length (state_contents ?q) < state_capacity ?q")
      case False
      then have full: "length (state_contents ?q) = state_capacity ?q" using cq.bounded [OF qok] by simp
      then have "rx_room s = 0" by (simp add: rx_room_def rx_frames_def)
      then show ?thesis
        using step cq.enqueue_full [OF qok full] less.prems by (simp add: received_def rx_frames_def)
    next
      case room: True
      obtain old s1 where e: "frame_enqueue (rx_fill r) ?q = Inr (Some s1)" "queue_state_ok s1"
          "state_capacity s1 = state_capacity ?q" "state_contents s1 = state_contents ?q @ [rx_fill r old]"
        using cq.enqueue_room [OF qok room] by blast
      obtain st q where s1: "s1 = (st, q)" by (cases s1)
      define s2 where "s2 = s\<lparr>cs_net := set_canreg c r (cs_net s), cs_handle := (cs_handle s)\<lparr>rx_queue := q\<rparr>, cs_frames := st\<rparr>"
      have fs: "frames_small st" "\<forall>a. length (st a) = length (cs_frames s a)"
        using enqueue_frames_small [OF e(1) [unfolded s1] less.prems(3)] rx_fill_small [OF _ small]
        by (auto simp: small_frame_def)
      have s2: "queue_ok (cs_frames s2) (rx_queue (cs_handle s2))" "frames_small (cs_frames s2)"
          "can_controllers (cs_net s2) c = r" "rx_frames s2 = rx_frames s @ [rx_fill r old]"
          "rx_room s = Suc (rx_room s2)"
        using e fs room by (simp_all add: s1 s2_def set_canreg_def rx_frames_def rx_room_def)
      have "on_can_receive_loop poll cmd c mbox s = on_can_receive_loop poll cmd c (mbox + 1) s2"
        using step e(1) by (simp add: s1 s2_def)
      moreover have "65 - unat (mbox + 1) < 65 - unat mbox" "mbox + 1 \<le> 65"
        using next_mbox [OF le] le by (auto simp: word_le_nat_alt)
      moreover have "\<forall>r \<in> set ?snaps. unat (reg_dlc r) \<le> 8" using less.prems(4) unfolding snaps by simp
      ultimately obtain s' where s': "on_can_receive_loop poll cmd c mbox s = Inr s'"
          "received s2 (map reg_view ?snaps) s'"
        using less.hyps [of "mbox + 1" s2] s2(1-3) by auto
      have "received s (map reg_view (r # ?snaps)) s'"
        using s'(2) fs(2) rx_fill_view [OF small, of old] unfolding received_def s2(4,5)
        by (simp add: s2_def)
      then show ?thesis unfolding snaps using s'(1) by blast
    qed
  qed
qed


section \<open>A round of the main loop\<close>

definition gw_ok :: "'h gateway \<Rightarrow> bool" where
  "gw_ok g \<longleftrightarrow> length (can_interfaces g) = CAN_IFACES \<and> frames_small (gw_frames g) \<and> heap_ok (al_heap (gw_alloc g))
     \<and> (\<forall>ci \<in> set (can_interfaces g). queue_ok (gw_frames g) (rx_queue (cannelloni ci))
          \<and> queue_ok (gw_frames g) (tx_queue (cannelloni ci)))"

text \<open>The controllers answer, and no station on the bus sends a length code above 8.\<close>

definition bus_ok :: "'h ctl \<Rightarrow> 'h ctl \<Rightarrow> bool" where
  "bus_ok poll cmd \<longleftrightarrow> (\<forall>r. \<exists>k. ready_after poll r k)
     \<and> (\<forall>m r r'. can_mbox_has_data poll cmd m r = Some (True, r') \<longrightarrow> unat (reg_dlc r') \<le> 8)"

lemma bus_snapshots: "bus_ok poll cmd \<Longrightarrow> r' \<in> set (mbox_snapshots poll cmd ms r) \<Longrightarrow> unat (reg_dlc r') \<le> 8"
proof (induction ms arbitrary: r)
  case (Cons m ms)
  then obtain r1 where "can_mbox_has_data poll cmd m r = Some (True, r1)"
    by (cases "can_mbox_has_data poll cmd m r") (auto split: bool.splits)
  with Cons show ?case unfolding bus_ok_def by auto
qed simp

lemma on_can_transmit_total:
  assumes "bus_ok poll cmd" "small_frame f"
  shows "\<exists>x. on_can_transmit poll cmd c f n = Inr x"
proof -
  obtain k where "ready_after poll (can_controllers n c) k" using assms(1) unfolding bus_ok_def by blast
  then obtain r1 where "can_if_wait_ready poll (can_controllers n c) = Some r1"
    using wait_keeps [of poll _ k "\<lambda>_. ()"] by blast
  then show ?thesis
    using assms(2) by (auto simp: on_can_transmit_def can_send_def small_frame_def data_byte_order_simps)
qed

lemma rx_contents_small:
  assumes "queue_ok st q" "frames_small st" "f \<in> set (queue_contents st q)"
  shows "small_frame f"
proof -
  obtain i where "f = st (q_frames q) ! queue_slot q i" using assms(3) by (auto simp: queue_contents_def)
  moreover have "queue_slot q i < length (st (q_frames q))"
    using queue_slot_less [OF assms(1)] assms(1) by (simp add: queue_ok_def)
  ultimately show ?thesis using assms(2) unfolding frames_small_def by (metis nth_mem)
qed

lemma run_interface_ok:
  assumes g: "gw_ok g" "i < CAN_IFACES" and hw: "bus_ok poll cmd" "fresh_ok uninit" "sendto_ok sendto"
  shows "\<exists>g'. run_interface uninit sendto poll cmd i g = Inr g' \<and> gw_ok g'"
proof -
  let ?s = "iface_state i g" and ?c = "canreg (can_interfaces g ! i)"
  let ?P = "\<lambda>st. frames_small st \<and> (\<forall>a. length (st a) = length (gw_frames g a))"
  have ok: "cnl_ok ?s" and sm: "frames_small (gw_frames g)"
    using g by (auto simp: gw_ok_def cnl_ok_def iface_state_def)
  have tx: "\<exists>x. on_can_transmit poll cmd ?c f n = Inr x" if "f \<in> set (tx_frames ?s)" for f n
    using on_can_transmit_total [OF hw(1)] that ok rx_contents_small [OF _ sm]
    by (auto simp: tx_frames_def cnl_ok_def iface_state_def)
  have rx: "\<exists>s''. on_can_receive poll cmd ?c s' = Inr s'' \<and> cnl_ok s'' \<and> (\<forall>f \<in> set (rx_frames s''). frame_wf f) \<and> ?P (cs_frames s'')"
    if s': "cnl_ok s'" "cs_frames s' = cs_frames ?s" for s'
  proof -
    have r: "\<forall>r. \<exists>k. ready_after poll r k" using hw(1) by (simp add: bus_ok_def)
    have 2: "CAN_RX_QUEUE_FIRST_MBOX \<le> 65" by (simp add: CAN_RX_QUEUE_FIRST_MBOX_def word_le_nat_alt)
    obtain s'' where s'': "on_can_receive poll cmd ?c s' = Inr s''"
        "received s' (map reg_view (mbox_snapshots poll cmd (mboxes_from CAN_RX_QUEUE_FIRST_MBOX) (can_controllers (cs_net s') ?c))) s''"
      using receive_loop_spec [OF r 2, of s' cmd ?c] s' sm bus_snapshots [OF hw(1)]
      unfolding on_can_receive_def cnl_ok_def by (auto simp: iface_state_def)
    then have R: "queue_ok (cs_frames s'') (rx_queue (cs_handle s''))" "frames_small (cs_frames s'')"
        "\<forall>a. length (cs_frames s'' a) = length (cs_frames s' a)" "tx_queue (cs_handle s'') = tx_queue (cs_handle s')"
        "cs_alloc s'' = cs_alloc s'"
      by (auto simp: received_def)
    then have "cnl_ok s''" using s'(1) queue_ok_cong [of "cs_frames s'" _ "cs_frames s''"] by (simp add: cnl_ok_def)
    moreover have "\<forall>f \<in> set (rx_frames s''). frame_wf f"
      using rx_contents_small [OF R(1,2)] small_frame_wf by (auto simp: rx_frames_def)
    ultimately show ?thesis using s''(1) R(2,3) s'(2) by (simp add: iface_state_def)
  qed
  obtain s' where run: "run_cannelloni uninit sendto (Some (\<lambda>_. on_can_transmit poll cmd ?c)) (Some (on_can_receive poll cmd ?c)) ?s = Inr s'"
      "cnl_ok s'" "?P (cs_frames s')"
    using run_cannelloni_ends [OF ok hw(2,3), of "on_can_transmit poll cmd ?c" "on_can_receive poll cmd ?c" ?P] tx rx by blast
  have "gw_ok (put_iface i s' g)"
    using g(1) run(2,3) queue_ok_cong [of "gw_frames g" _ "cs_frames s'"]
    by (auto simp: gw_ok_def put_iface_def cnl_ok_def dest!: set_update_subset_insert [THEN subsetD])
  then show ?thesis using run(1) by (simp add: run_interface_def)
qed

lemma main_loop_round_ok:
  assumes "gw_ok g" "bus_ok poll cmd" "fresh_ok uninit" "sendto_ok sendto"
    and "\<And>g. gw_ok g \<Longrightarrow> \<exists>g'. check_timeouts g = Inr g' \<and> gw_ok g'"
  shows "\<exists>g'. main_loop_round uninit sendto poll cmd check_timeouts g = Inr g' \<and> gw_ok g'"
proof -
  have run: "\<exists>g'. run_interfaces uninit sendto poll cmd js g = Inr g' \<and> gw_ok g'"
    if "gw_ok g" "set js \<subseteq> {0..<CAN_IFACES}" for js and g :: "'a gateway"
    using that
  proof (induction js arbitrary: g)
    case (Cons i js)
    obtain g' where "run_interface uninit sendto poll cmd i g = Inr g'" "gw_ok g'"
      using run_interface_ok [OF Cons.prems(1) _ assms(2,3,4), of i] Cons.prems(2) by auto
    with Cons show ?case by simp
  qed simp
  obtain g1 where "check_timeouts g = Inr g1" "gw_ok g1" using assms(1,5) by blast
  with run [of g1 "[0..<CAN_IFACES]"] show ?thesis by (simp add: main_loop_round_def)
qed

section \<open>Sample runs\<close>

definition gw1 :: "unit gateway" where
  "gw1 = gw0\<lparr>can_interfaces := replicate 4 \<lparr>cannelloni = handle0\<lparr>tx_queue := queue_init 0 128, rx_queue := queue_init 1 128\<rparr>,
     canreg = 1\<rparr>\<rparr>"

lemma sample_queue: "queue_ok (gw_frames gw0) (queue_init a 128)" "queue_contents st (queue_init a 128) = []"
  by (simp_all add: queue_ok_def queue_init_def gw0_def queue_contents_def queue_length_def word_less_nat_alt)

lemma gw1_ok: "gw_ok gw1"
proof -
  have "heap_ok heap1" using heap1_inv by (auto simp: heap_ok_def)
  moreover have "frames_small (gw_frames gw0)"
    by (simp add: frames_small_def gw0_def small_frame_def sample_frame_def)
  ultimately show ?thesis
    using sample_queue(1) by (simp add: gw_ok_def gw1_def CAN_IFACES_def) (simp add: gw0_def)
qed

text \<open>A controller that has one frame, in mailbox 2, and one that has none.\<close>

definition one_frame_cmd :: "can_regs \<Rightarrow> can_regs" where
  "one_frame_cmd r = r\<lparr>IF1MCTL := (if IF1NO r = 2 then 0x8002 else 0), IF1ARB := 0x848C0000,
     IF1DATx := [0, 0, 2, 1, 0, 0, 0, 0]\<rparr>"

lemma wait_idle: "IF1STAT r AND 0x80 = 0 \<Longrightarrow> can_if_wait_ready poll r = Some r"
  by (subst can_if_wait_ready.simps) simp

lemma has_data_idle:
  "m \<le> 64 \<Longrightarrow> IF1STAT r = 0 \<Longrightarrow> can_mbox_has_data poll one_frame_cmd m r
    = Some (m = 2, one_frame_cmd (r\<lparr>IF1CMD := 0x3F, IF1NO := m\<rparr>))"
  by (simp add: can_mbox_has_data_def CAN_MBOX_LAST_def wait_idle one_frame_cmd_def bit32_def)


definition no_frame_cmd :: "can_regs \<Rightarrow> can_regs" where
  "no_frame_cmd r = r\<lparr>IF1MCTL := 0\<rparr>"

lemma no_frame_bus: "bus_ok dcan_poll no_frame_cmd"
proof -
  have keep: "\<exists>r'. can_if_wait_ready dcan_poll r = Some r' \<and> IF1MCTL r' = IF1MCTL r" for r :: can_regs
    using wait_keeps [OF dcan_poll_ready, of IF1MCTL r] by (simp add: dcan_poll_def)
  have none: "can_if_wait_ready dcan_poll (no_frame_cmd r) = Some r' \<Longrightarrow> IF1MCTL r' = 0" for r r'
    using keep [of "no_frame_cmd r"] by (auto simp: no_frame_cmd_def)
  have "can_mbox_has_data dcan_poll no_frame_cmd m r \<noteq> Some (True, r')" for m r r'
    by (auto simp: can_mbox_has_data_def dest: none split: option.splits if_splits)
  then show ?thesis using dcan_poll_ready unfolding bus_ok_def by blast
qed


end
