(* ===== verification/Chksum.thy ===== *)
theory Chksum
  imports Ip6 Pbuf_Data
begin

text \<open>
  The Internet checksum of lwip/src/core/inet_chksum.c: \<open>lwip_standard_chksum\<close> in the variant
  \<open>LWIP_CHKSUM_ALGORITHM == 2\<close> that this build selects, the sums over pbuf chains and the IPv6
  pseudo header. The host is big-endian, so \<open>lwip_htons\<close> is the identity and a 16-bit load has the
  byte at the lower address as its high byte. The reference is the one's-complement sum of the
  bytes as numbers.
\<close>

section \<open>Definitions\<close>

definition FOLD_U32T :: "u32 \<Rightarrow> u32" where
  "FOLD_U32T u = drop_bit 16 u + (u AND 0xffff)"

definition SWAP_BYTES_IN_WORD :: "u32 \<Rightarrow> u32" where
  "SWAP_BYTES_IN_WORD w = push_bit 8 (w AND 0xff) OR drop_bit 8 (w AND 0xff00)"

text \<open>The loop over the 16-bit words: the sum and the byte left over.\<close>

fun chksum_bulk :: "bytes \<Rightarrow> u32 \<Rightarrow> u32 \<times> bytes" where
  "chksum_bulk (a # b # bs) s = chksum_bulk bs (s + ucast (of_be16 a b))"
| "chksum_bulk bs s = (s, bs)"

text \<open>\<open>odd\<close>: the data starts at an odd address.\<close>

definition lwip_standard_chksum :: "bool \<Rightarrow> bytes \<Rightarrow> u16" where
  "lwip_standard_chksum is_odd dat =
     (let (t1, rest) = (if is_odd \<and> dat \<noteq> [] then (of_be16 0 (hd dat), tl dat) else (0, dat));
          (s, left) = chksum_bulk rest 0;
          t = (case left of [] \<Rightarrow> t1 | b # _ \<Rightarrow> t1 OR of_be16 b 0);
          s2 = FOLD_U32T (FOLD_U32T (s + ucast t))
      in ucast (if is_odd then SWAP_BYTES_IN_WORD s2 else s2))"

definition inet_chksum :: "bool \<Rightarrow> bytes \<Rightarrow> u16" where
  "inet_chksum is_odd dat = NOT (lwip_standard_chksum is_odd dat)"

text \<open>
  The loop over a chain that the sums share; the pbuf memory starts at an even address, so the
  parity of the payload address is that of its offset. \<open>swapped\<close> is part of the result.
\<close>

fun chksum_chain :: "chain \<Rightarrow> u32 \<Rightarrow> bool \<Rightarrow> u32 \<times> bool" where
  "chksum_chain [] acc swapped = (acc, swapped)"
| "chksum_chain (q # qs) acc swapped =
     (let acc1 = FOLD_U32T (acc + ucast (lwip_standard_chksum (odd (payload q)) (pbuf_bytes q))) in
      if p_len q mod 2 \<noteq> 0 then chksum_chain qs (SWAP_BYTES_IN_WORD acc1) (\<not> swapped)
      else chksum_chain qs acc1 swapped)"

definition inet_cksum_pseudo_base :: "chain \<Rightarrow> u8 \<Rightarrow> u16 \<Rightarrow> u32 \<Rightarrow> u16" where
  "inet_cksum_pseudo_base p proto proto_len acc0 =
     (let (acc1, swapped) = chksum_chain p acc0 False;
          acc2 = (if swapped then SWAP_BYTES_IN_WORD acc1 else acc1);
          acc3 = FOLD_U32T (FOLD_U32T (acc2 + ucast proto + ucast proto_len))
      in ucast (NOT (acc3 AND 0xffff)))"

fun addr_parts :: "ip6_addr \<Rightarrow> u32 list" where
  "addr_parts (IP6 a b c d) = [a, b, c, d]"

definition add_addr_part :: "u32 \<Rightarrow> u32 \<Rightarrow> u32" where
  "add_addr_part addr acc = acc + (addr AND 0xffff) + (drop_bit 16 addr AND 0xffff)"

definition ip6_chksum_pseudo :: "chain \<Rightarrow> u8 \<Rightarrow> u16 \<Rightarrow> ip6_addr \<Rightarrow> ip6_addr \<Rightarrow> u16" where
  "ip6_chksum_pseudo p proto proto_len src dest =
     (let acc = fold (\<lambda>(s, d) acc. add_addr_part d (add_addr_part s acc)) (zip (addr_parts src) (addr_parts dest)) 0
      in inet_cksum_pseudo_base p proto proto_len (FOLD_U32T (FOLD_U32T acc)))"

definition ip_chksum_pseudo :: "chain \<Rightarrow> u8 \<Rightarrow> u16 \<Rightarrow> ip6_addr \<Rightarrow> ip6_addr \<Rightarrow> u16" where
  "ip_chksum_pseudo p proto proto_len src dest = ip6_chksum_pseudo p proto proto_len src dest"

definition inet_chksum_pbuf :: "chain \<Rightarrow> u16" where
  "inet_chksum_pbuf p =
     (let (acc1, swapped) = chksum_chain p 0 False;
          acc2 = (if swapped then SWAP_BYTES_IN_WORD acc1 else acc1)
      in ucast (NOT (acc2 AND 0xffff)))"

section \<open>The one's-complement sum\<close>

text \<open>The 16-bit words of a byte string in network order, the last byte padded with a zero byte.\<close>

fun word_sum :: "bytes \<Rightarrow> nat" where
  "word_sum [] = 0"
| "word_sum [a] = 256 * unat a"
| "word_sum (a # b # bs) = 256 * unat a + unat b + word_sum bs"

text \<open>The 16-bit one's-complement number of a sum: end-around carries until it fits.\<close>

definition ones :: "nat \<Rightarrow> nat" where
  "ones n = (if n = 0 then 0 else (n - 1) mod 65535 + 1)"

lemma ones_le: "ones n \<le> 65535"
  using mod_less_divisor [of 65535 "n - 1"] by (simp add: ones_def) arith

lemma ones_0 [simp]: "ones n = 0 \<longleftrightarrow> n = 0"
  by (simp add: ones_def)

lemma ones_mod: "ones n mod 65535 = n mod 65535"
proof (cases "n = 0")
  case False
  then have "ones n = Suc ((n - 1) mod 65535)" by (simp add: ones_def)
  then show ?thesis using False by (simp add: mod_Suc_eq)
qed (simp add: ones_def)

text \<open>A number of at most 16 bits is \<open>ones n\<close> when it is congruent and zero at the same time.\<close>

lemma onesI: "m \<le> 65535 \<Longrightarrow> (m = 0 \<longleftrightarrow> n = 0) \<Longrightarrow> m mod 65535 = n mod 65535 \<Longrightarrow> m = ones n"
proof -
  assume m: "m \<le> 65535" "m = 0 \<longleftrightarrow> n = 0" "m mod 65535 = n mod 65535"
  show "m = ones n"
  proof (cases "n = 0")
    case False
    have "m mod 65535 = ones n mod 65535" using m(3) by (simp add: ones_mod)
    moreover have "0 < m" "0 < ones n" "ones n \<le> 65535" using m(2) False ones_le [of n] by (simp_all add: ones_def)
    moreover have "x mod 65535 = (if x = 65535 then 0 else x)" if "x \<le> 65535" for x :: nat using that by auto
    ultimately show ?thesis using m(1) by (auto split: if_splits)
  qed (use m in simp)
qed

lemma ones_cong: "(a = 0 \<longleftrightarrow> b = 0) \<Longrightarrow> a mod 65535 = b mod 65535 \<Longrightarrow> ones a = ones b"
  by (rule onesI) (auto simp: ones_le ones_mod)

section \<open>Folding and swapping\<close>

lemma unat_and_ffff: "unat (x AND 0xffff :: u32) = unat x mod 65536"
proof -
  have "(0xffff :: u32) = mask 16" by (simp add: mask_eq_exp_minus_1)
  then have "x AND 0xffff = take_bit 16 x" by (simp only: take_bit_eq_mask)
  then show ?thesis by (simp add: unsigned_take_bit_eq take_bit_nat_def)
qed

lemma unat_FOLD: "unat (FOLD_U32T x) = unat x div 65536 + unat x mod 65536"
proof -
  have "unat x < 4294967296" using unsigned_less [of x] by simp
  moreover have "unat (drop_bit 16 x) = unat x div 65536" by (simp add: unat_drop_bit_eq drop_bit_nat_def)
  ultimately show ?thesis
    unfolding FOLD_U32T_def by (simp add: unat_word_ariths unat_and_ffff)
qed

text \<open>One fold is enough below twice the 16-bit range, two always.\<close>

lemma carry_mod: "(65536 * q + r) mod 65535 = (q + r) mod (65535 :: nat)"
proof -
  have "65536 * q + r = (q + r) + 65535 * q" by simp
  then show ?thesis by (simp only: mod_mult_self2)
qed

lemma fold_mod: "(n div 65536 + n mod 65536) mod 65535 = n mod (65535 :: nat)"
  using carry_mod [of "n div 65536" "n mod 65536"] by (simp only: mult_div_mod_eq)

lemma fold_0: "n div 65536 + n mod 65536 = 0 \<longleftrightarrow> n = (0 :: nat)"
  by (metis add_is_0 div_mult_mod_eq mult_0 add_0 div_0 mod_0)

lemma fold_once: "unat x \<le> 131070 \<Longrightarrow> unat (FOLD_U32T x) = ones (unat x)"
  unfolding unat_FOLD
proof (rule onesI)
  assume "unat x \<le> 131070"
  then have "unat x div 65536 = 0 \<and> unat x mod 65536 \<le> 65535 \<or> unat x div 65536 = 1 \<and> unat x mod 65536 \<le> 65534"
    by (simp add: modulo_nat_def) arith
  then show "unat x div 65536 + unat x mod 65536 \<le> 65535" by auto
qed (rule fold_0, rule fold_mod)

lemma fold_twice: "unat (FOLD_U32T (FOLD_U32T x)) = ones (unat x)"
proof -
  have "unat x < 4294967296" using unsigned_less [of x] by simp
  then have "unat x div 65536 \<le> 65535" by simp
  moreover have "unat x mod 65536 \<le> 65535" by simp
  ultimately have "unat (FOLD_U32T x) \<le> 131070" unfolding unat_FOLD by arith
  from fold_once [OF this] show ?thesis
    unfolding unat_FOLD [of x] using ones_cong [OF fold_0 fold_mod] by simp
qed

lemma unat_SWAP: "unat x \<le> 65535 \<Longrightarrow> unat (SWAP_BYTES_IN_WORD x) = 256 * (unat x mod 256) + unat x div 256"
proof -
  assume le: "unat x \<le> 65535"
  have m: "(0xff :: u32) = mask 8" "(0xff00 :: u32) = push_bit 8 (mask 8)" by (simp_all add: mask_eq_exp_minus_1)
  have hi: "x AND 0xff = take_bit 8 x" unfolding m by (simp only: take_bit_eq_mask)
  have "unat (take_bit 16 x) = unat x" using le by (simp add: unsigned_take_bit_eq take_bit_nat_def)
  then have "take_bit 16 x = x" by (simp add: word_unat_eq_iff)
  then have small: "bit x n \<Longrightarrow> n < 16" for n by (metis bit_take_bit_iff)
  have lo: "drop_bit 8 (x AND 0xff00) = drop_bit 8 x"
    unfolding m by (rule bit_word_eqI) (auto simp: bit_simps dest: small)
  have "push_bit 8 (take_bit 8 x) AND drop_bit 8 x = 0"
    by (rule bit_word_eqI) (auto simp: bit_simps dest: small)
  then have "SWAP_BYTES_IN_WORD x = push_bit 8 (take_bit 8 x) + drop_bit 8 x"
    unfolding SWAP_BYTES_IN_WORD_def hi lo by (simp add: disjunctive_add_eq_or)
  moreover have "unat (push_bit 8 (take_bit 8 x)) = 256 * (unat x mod 256)"
  proof -
    have "unat (take_bit 8 x) < 256" by (simp add: unsigned_take_bit_eq take_bit_nat_def)
    then show ?thesis
      by (simp add: unsigned_push_bit_eq unsigned_take_bit_eq take_bit_nat_def push_bit_nat_def mult.commute)
  qed
  moreover have "unat (drop_bit 8 x) = unat x div 256" by (simp add: unat_drop_bit_eq drop_bit_nat_def)
  ultimately show ?thesis using le by (simp add: unat_word_ariths)
qed

lemma swap_mod: "(256 * (n mod 256) + n div 256) mod 65535 = 256 * n mod (65535 :: nat)"
proof -
  have "256 * n = 65536 * (n div 256) + 256 * (n mod 256)" using mult_div_mod_eq [of 256 n] by arith
  then show ?thesis using carry_mod [of "n div 256" "256 * (n mod 256)"] by (simp add: add.commute)
qed

lemma swap_ones: "unat x \<le> 65535 \<Longrightarrow> unat (SWAP_BYTES_IN_WORD x) = ones (256 * unat x)"
  unfolding unat_SWAP
proof (rule onesI)
  assume "unat x \<le> 65535"
  then have "unat x div 256 \<le> 255" by simp
  moreover have "unat x mod 256 \<le> 255" by simp
  ultimately show "256 * (unat x mod 256) + unat x div 256 \<le> 65535" by arith
  show "256 * (unat x mod 256) + unat x div 256 = 0 \<longleftrightarrow> 256 * unat x = 0"
    by (simp add: mod_eq_0_iff_dvd) (metis div_eq_0_iff dvd_div_eq_0_iff div_0 dvd_0_right)
qed (rule swap_mod)

section \<open>Sums of byte strings\<close>

lemma byte_le: "unat (b :: u8) \<le> 255"
  using unsigned_less [of b, where 'a = nat] by simp

lemma half_le: "unat (h :: u16) \<le> 65535"
  using unsigned_less [of h, where 'a = nat] by simp

lemma unat_ucast_u16: "unat (ucast (h :: u16) :: u32) = unat h"
  using half_le [of h] by (simp add: unsigned_ucast_eq take_bit_nat_eq_self)

lemma unat_of_be16: "unat (of_be16 a b) = 256 * unat a + unat b"
proof -
  have lt: "unat a < 256" "unat b < 256" using byte_le [of a] byte_le [of b] by simp_all
  have "of_be16 a b = push_bit 8 (ucast a) + ucast b"
  proof -
    have "push_bit 8 (ucast a :: u16) AND ucast b = 0"
      by (rule bit_word_eqI) (auto simp: bit_simps dest: bit_imp_le_length)
    then show ?thesis by (simp add: of_be16_def disjunctive_add_eq_or)
  qed
  moreover have "unat (push_bit 8 (ucast a :: u16)) = 256 * unat a"
    using lt by (simp add: push_bit_eq_mult unat_word_ariths unat_ucast_u8 mult.commute)
  ultimately show ?thesis using lt by (simp add: unat_word_ariths unat_ucast_u8)
qed

lemma word_sum_bound: "word_sum bs \<le> 65535 * ((length bs + 1) div 2)"
proof (induction bs rule: word_sum.induct)
  case (2 a)
  then show ?case using byte_le [of a] by simp
next
  case (3 a b bs)
  with byte_le [of a] byte_le [of b] show ?case by simp
qed simp

lemma chksum_bulk_sum:
  assumes "length bs < 65536" "chksum_bulk bs s = (s', left)" "unat s + word_sum bs < 4294967296"
  shows "unat s' + word_sum left = unat s + word_sum bs \<and> length left \<le> 1"
  using assms
proof (induction bs s rule: chksum_bulk.induct)
  case (1 a b bs s)
  have u: "unat (ucast (of_be16 a b) :: u32) = 256 * unat a + unat b"
    by (simp add: unat_ucast_u16 unat_of_be16)
  then have "unat (s + ucast (of_be16 a b)) = unat s + (256 * unat a + unat b)"
    using 1(4) by (simp add: unat_word_ariths)
  with 1 show ?case by simp
qed auto

text \<open>Bytes at the other parity: the sum is that of the swapped words.\<close>

lemma word_sum_shift: "word_sum (0 # bs) mod 65535 = 256 * word_sum bs mod 65535"
proof (induction bs rule: word_sum.induct)
  case (2 a)
  show ?case using carry_mod [of "unat a" 0] by simp
next
  case (3 a b bs)
  have "256 * word_sum (a # b # bs) mod 65535 = (65536 * unat a + 256 * unat b + 256 * word_sum bs) mod 65535" by simp
  also have "\<dots> = (65536 * unat a + 256 * unat b + word_sum (0 # bs)) mod 65535"
    using 3 by (metis mod_add_right_eq)
  also have "\<dots> = (65536 * unat a + (256 * unat b + word_sum (0 # bs))) mod 65535" by (simp only: add.assoc)
  also have "\<dots> = (unat a + (256 * unat b + word_sum (0 # bs))) mod 65535" by (rule carry_mod)
  also have "unat a + (256 * unat b + word_sum (0 # bs)) = word_sum (0 # a # b # bs)"
    by (cases bs) simp_all
  finally show ?case by simp
qed simp

lemma word_sum_0: "word_sum bs = 0 \<longleftrightarrow> (\<forall>b \<in> set bs. b = 0)"
  by (induction bs rule: word_sum.induct) (auto simp: unat_eq_0)

lemma word_sum_append: "word_sum (xs @ ys) mod 65535 = (word_sum xs + (if even (length xs) then 1 else 256) * word_sum ys) mod 65535"
proof (induction xs rule: word_sum.induct)
  case (2 a)
  have eq: "word_sum ([a] @ ys) = 256 * unat a + word_sum (0 # ys)" by (cases ys) simp_all
  show ?case
    unfolding eq using mod_add_cong [OF refl word_sum_shift [of ys], of "256 * unat a"] by simp
next
  case (3 a b xs)
  show ?case
    using mod_add_cong [OF refl 3, of "256 * unat a + unat b"] by (simp add: add.assoc)
qed simp

text \<open>\<open>lwip_standard_chksum\<close> is the one's-complement sum, at either alignment.\<close>

lemma standard_chksum_even:
  assumes "length bs < 65536"
  shows "unat (lwip_standard_chksum False bs) = ones (word_sum bs)"
proof -
  obtain s left where b: "chksum_bulk bs 0 = (s, left)" by (cases "chksum_bulk bs 0")
  have "word_sum bs \<le> 65535 * 32768" using word_sum_bound [of bs] assms by (simp add: le_trans)
  then have sum: "unat s + word_sum left = word_sum bs" "length left \<le> 1"
    using chksum_bulk_sum [OF assms b] by simp_all
  define t where "t = (case left of [] \<Rightarrow> 0 | c # _ \<Rightarrow> of_be16 c 0)"
  have "unat t = word_sum left"
    using sum(2) by (cases left) (auto simp: t_def unat_of_be16)
  then have "unat (s + ucast t) = word_sum bs"
    using sum(1) \<open>word_sum bs \<le> 65535 * 32768\<close> by (simp add: unat_word_ariths unat_ucast_u16)
  then have f: "unat (FOLD_U32T (FOLD_U32T (s + ucast t))) = ones (word_sum bs)" by (simp add: fold_twice)
  have "lwip_standard_chksum False bs = ucast (FOLD_U32T (FOLD_U32T (s + ucast t)))"
    using b by (simp add: lwip_standard_chksum_def t_def Let_def split: list.splits)
  then show ?thesis
    using f ones_le [of "word_sum bs"] by (simp add: unsigned_ucast_eq take_bit_nat_eq_self)
qed

lemma ones_scale: "ones (256 * ones n) = ones (256 * n)"
  by (rule ones_cong) (simp, rule mod_mult_cong [OF refl ones_mod])

lemma ones_add: "ones (ones a + ones b) = ones (a + b)"
  by (rule ones_cong) (simp, rule mod_add_cong [OF ones_mod ones_mod])

lemma swap_twice: "256 * (256 * n) mod 65535 = n mod (65535 :: nat)"
  using carry_mod [of n 0] by simp

lemma standard_chksum_odd:
  assumes "length bs < 65536"
  shows "unat (lwip_standard_chksum True bs) = ones (word_sum bs)"
proof (cases bs)
  case Nil
  then show ?thesis by (simp add: lwip_standard_chksum_def FOLD_U32T_def SWAP_BYTES_IN_WORD_def ones_def)
next
  case (Cons b r)
  obtain s left where bulk: "chksum_bulk r 0 = (s, left)" by (cases "chksum_bulk r 0")
  have len: "length r < 65536" using assms Cons by simp
  have bd: "word_sum r \<le> 65535 * 32768" using word_sum_bound [of r] len by (simp add: le_trans)
  then have sum: "unat s + word_sum left = word_sum r" "length left \<le> 1"
    using chksum_bulk_sum [OF len bulk] by simp_all
  define t where "t = (case left of [] \<Rightarrow> of_be16 0 b | c # _ \<Rightarrow> of_be16 0 b OR of_be16 c 0)"
  have or: "of_be16 0 b OR of_be16 c 0 = of_be16 c b" for c
    by (simp add: of_be16_def or.commute)
  have "unat t = unat b + word_sum left"
    using sum(2) by (cases left) (auto simp: t_def unat_of_be16 or)
  then have "unat (s + ucast t) = word_sum (0 # bs)"
    using sum(1) bd byte_le [of b] Cons by (simp add: unat_word_ariths unat_ucast_u16)
  then have f: "unat (FOLD_U32T (FOLD_U32T (s + ucast t))) = ones (word_sum (0 # bs))" by (simp add: fold_twice)
  have "lwip_standard_chksum True bs = ucast (SWAP_BYTES_IN_WORD (FOLD_U32T (FOLD_U32T (s + ucast t))))"
    using bulk Cons by (simp add: lwip_standard_chksum_def t_def Let_def split: list.splits)
  moreover have "unat (SWAP_BYTES_IN_WORD (FOLD_U32T (FOLD_U32T (s + ucast t)))) = ones (256 * word_sum (0 # bs))"
    using swap_ones f ones_le [of "word_sum (0 # bs)"] ones_scale by simp
  moreover have "ones (256 * word_sum (0 # bs)) = ones (word_sum bs)"
  proof (rule ones_cong)
    show "256 * word_sum (0 # bs) = 0 \<longleftrightarrow> word_sum bs = 0"
      using word_sum_0 [of "0 # bs"] word_sum_0 [of bs] by auto
    have "256 * word_sum (0 # bs) mod 65535 = 256 * (256 * word_sum bs) mod 65535"
      using mod_mult_cong [OF refl word_sum_shift [of bs], of 256] by simp
    then show "256 * word_sum (0 # bs) mod 65535 = word_sum bs mod 65535" by (simp only: swap_twice)
  qed
  ultimately show ?thesis
    using ones_le [of "word_sum bs"] by (simp add: unsigned_ucast_eq take_bit_nat_eq_self)
qed

lemma standard_chksum: "length bs < 65536 \<Longrightarrow> unat (lwip_standard_chksum is_odd bs) = ones (word_sum bs)"
  using standard_chksum_even standard_chksum_odd by (cases is_odd) simp_all

section \<open>Chains\<close>

text \<open>The weight of a byte string that follows \<open>n\<close> bytes.\<close>

definition weight :: "nat \<Rightarrow> nat" where
  "weight n = (if even n then 1 else 256)"

lemma weight_add: "weight (m + n) * k mod 65535 = weight m * (weight n * k) mod 65535"
  using swap_twice [of k] by (auto simp: weight_def)

lemma weight_square: "weight n * (weight n * k) mod 65535 = k mod 65535"
  using swap_twice [of k] by (auto simp: weight_def)

lemma weight_pos [simp]: "weight n * k = 0 \<longleftrightarrow> k = 0" "weight n \<noteq> 0"
  by (simp_all add: weight_def)

lemma word_sum_weight: "word_sum (xs @ ys) mod 65535 = (word_sum xs + weight (length xs) * word_sum ys) mod 65535"
  using word_sum_append [of xs ys] by (simp add: weight_def)

lemma word_sum_append_0: "word_sum (xs @ ys) = 0 \<longleftrightarrow> word_sum xs = 0 \<and> word_sum ys = 0"
  by (auto simp: word_sum_0)

definition payloads_ok :: "chain \<Rightarrow> bool" where
  "payloads_ok p \<longleftrightarrow> (\<forall>q \<in> set p. payload q + unat (p_len q) \<le> length (pbuf_mem q))"

lemma chain_ok_payloads: "chain_ok p \<Longrightarrow> payloads_ok p"
  by (induction p) (auto simp: payloads_ok_def)

lemma payload_length: "payload q + unat (p_len q) \<le> length (pbuf_mem q) \<Longrightarrow> length (pbuf_bytes q) = unat (p_len q)"
  by (simp add: pbuf_bytes_def)

lemma odd_len: "(n :: u16) mod 2 \<noteq> 0 \<longleftrightarrow> odd (unat n)"
proof -
  have "unat (n mod 2) = unat n mod 2" by (simp add: unat_mod_word)
  then show ?thesis using word_unat_eq_iff [of "n mod 2" 0] by (simp only: even_iff_mod_2_eq_zero unsigned_0)
qed

lemma chksum_step:
  assumes "unat acc \<le> 65535" "length bs < 65536"
  shows "unat (FOLD_U32T (acc + ucast (lwip_standard_chksum is_odd bs))) = ones (unat acc + word_sum bs)"
proof -
  have c: "unat (ucast (lwip_standard_chksum is_odd bs) :: u32) = ones (word_sum bs)"
    using standard_chksum [OF assms(2)] by (simp add: unat_ucast_u16)
  then have s: "unat (acc + ucast (lwip_standard_chksum is_odd bs)) = unat acc + ones (word_sum bs)"
    using assms(1) ones_le [of "word_sum bs"] by (simp add: unat_word_ariths)
  then have "unat (FOLD_U32T (acc + ucast (lwip_standard_chksum is_odd bs))) = ones (unat acc + ones (word_sum bs))"
    using assms(1) ones_le [of "word_sum bs"] by (subst fold_once) simp_all
  also have "\<dots> = ones (unat acc + word_sum bs)"
    by (rule ones_cong) (simp, rule mod_add_cong [OF refl ones_mod])
  finally show ?thesis .
qed

lemma chksum_chain_sum:
  assumes "payloads_ok p" "unat acc \<le> 65535" "chksum_chain p acc sw = (acc', sw')"
  shows "unat acc' = ones (weight (length (chain_data p)) * (unat acc + word_sum (chain_data p)))
    \<and> (sw' \<longleftrightarrow> (sw \<longleftrightarrow> even (length (chain_data p))))"
  using assms
proof (induction p acc sw arbitrary: acc' sw' rule: chksum_chain.induct)
  case (1 acc sw)
  then have "unat acc' = unat acc" "sw' = sw" by simp_all
  moreover have "ones (unat acc) = unat acc" by (rule onesI [symmetric]) (use 1 in simp_all)
  ultimately show ?case by (simp add: chain_data_def weight_def)
next
  case (2 q qs acc sw)
  let ?b = "pbuf_bytes q" and ?d = "chain_data qs"
  have len: "length ?b = unat (p_len q)" "length ?b < 65536"
    using 2(3) payload_length half_le [of "p_len q"] by (auto simp: payloads_ok_def)
  define acc1 where "acc1 = FOLD_U32T (acc + ucast (lwip_standard_chksum (odd (payload q)) ?b))"
  define acc2 where "acc2 = (if odd (length ?b) then SWAP_BYTES_IN_WORD acc1 else acc1)"
  have a1: "unat acc1 = ones (unat acc + word_sum ?b)" unfolding acc1_def by (rule chksum_step [OF 2(4) len(2)])
  have a2: "unat acc2 = ones (weight (length ?b) * (unat acc + word_sum ?b))"
    using swap_ones [of acc1] a1 ones_le ones_scale by (simp add: acc2_def weight_def)
  have le: "unat acc1 \<le> 65535" "unat acc2 \<le> 65535" using a1 a2 ones_le by simp_all
  have ok: "payloads_ok qs" using 2(3) by (simp add: payloads_ok_def)
  have par: "p_len q mod 2 \<noteq> 0 \<longleftrightarrow> odd (length ?b)" unfolding len(1) by (rule odd_len)
  have rest: "unat acc' = ones (weight (length ?d) * (unat acc2 + word_sum ?d))
      \<and> (sw' \<longleftrightarrow> ((sw \<longleftrightarrow> even (length ?b)) \<longleftrightarrow> even (length ?d)))"
  proof (cases "odd (length ?b)")
    case True
    then have "chksum_chain qs (SWAP_BYTES_IN_WORD acc1) (\<not> sw) = (acc', sw')"
      using 2(5) par unfolding chksum_chain.simps acc1_def Let_def by (simp only: if_True not_False_eq_True)
    then show ?thesis
      using 2(1) [OF refl, of acc' sw'] True par ok le by (simp add: acc1_def [symmetric] acc2_def)
  next
    case False
    then have "chksum_chain qs acc1 sw = (acc', sw')"
      using 2(5) par unfolding chksum_chain.simps acc1_def Let_def by (simp only: if_False not_True_eq_False simp_thms)
    then show ?thesis
      using 2(2) [OF refl, of acc' sw'] False par ok le by (simp add: acc1_def [symmetric] acc2_def)
  qed
  have dat: "chain_data (q # qs) = ?b @ ?d" by (simp add: chain_data_def)
  let ?wb = "weight (length ?b)" and ?wd = "weight (length ?d)"
  have "?wb * (unat acc + word_sum (?b @ ?d)) mod 65535
      = ?wb * (unat acc + word_sum ?b + ?wb * word_sum ?d) mod 65535"
    using mod_mult_cong [OF refl mod_add_cong [OF refl word_sum_weight [of ?b ?d]], of ?wb "unat acc"]
    by (simp add: add.assoc)
  also have "\<dots> = (?wb * (unat acc + word_sum ?b) + ?wb * (?wb * word_sum ?d)) mod 65535" by (simp add: distrib_left)
  also have "\<dots> = (?wb * (unat acc + word_sum ?b) + word_sum ?d) mod 65535"
    by (rule mod_add_cong [OF refl weight_square])
  also have "\<dots> = (unat acc2 + word_sum ?d) mod 65535"
    unfolding a2 by (rule mod_add_cong [OF ones_mod [symmetric] refl])
  finally have "?wd * (unat acc2 + word_sum ?d) mod 65535 = ?wd * (?wb * (unat acc + word_sum (?b @ ?d))) mod 65535"
    by (intro mod_mult_cong refl) simp
  also have "\<dots> = weight (length (?b @ ?d)) * (unat acc + word_sum (?b @ ?d)) mod 65535"
    using weight_add [of "length ?d" "length ?b"] by (simp add: add.commute)
  finally have "ones (?wd * (unat acc2 + word_sum ?d)) = ones (weight (length (?b @ ?d)) * (unat acc + word_sum (?b @ ?d)))"
    by (intro ones_cong) (simp_all add: a2 word_sum_append_0)
  then show ?case unfolding dat using rest by auto
qed

section \<open>The checksums\<close>

lemma unat_NOT16: "unat (NOT (h :: u16)) = 65535 - unat h"
proof -
  have "h \<le> - 1" by simp
  then have "unat (- 1 - h) = unat (- 1 :: u16) - unat h" by (rule unat_sub)
  moreover have "unat (- 1 :: u16) = 65535" by (simp add: unsigned_minus_1_eq_mask mask_eq_exp_minus_1)
  moreover have "NOT h = - 1 - h" by (simp add: not_eq_complement)
  ultimately show ?thesis by simp
qed

lemma complement_low: "unat acc \<le> 65535 \<Longrightarrow> unat (ucast (NOT (acc AND 0xffff) :: u32) :: u16) = 65535 - unat acc"
proof -
  assume le: "unat acc \<le> 65535"
  have m: "(0xffff :: u32) = mask 16" by (simp add: mask_eq_exp_minus_1)
  have "(ucast (NOT (acc AND 0xffff)) :: u16) = NOT (ucast acc)"
    unfolding m by (rule bit_word_eqI) (auto simp: bit_simps)
  moreover have "unat (ucast acc :: u16) = unat acc" using le by (simp add: unsigned_ucast_eq take_bit_nat_eq_self)
  ultimately show ?thesis by (simp add: unat_NOT16)
qed

text \<open>After the loop, \<open>swapped\<close> undoes the swaps.\<close>

lemma chksum_chain_unswapped:
  assumes "payloads_ok p" "unat acc \<le> 65535" "chksum_chain p acc False = (acc1, swapped)"
  shows "unat (if swapped then SWAP_BYTES_IN_WORD acc1 else acc1) = ones (unat acc + word_sum (chain_data p))"
proof -
  let ?n = "unat acc + word_sum (chain_data p)" and ?w = "weight (length (chain_data p))"
  have r: "unat acc1 = ones (?w * ?n)" "swapped \<longleftrightarrow> odd (length (chain_data p))"
    using chksum_chain_sum [OF assms] by auto
  show ?thesis
  proof (cases swapped)
    case True
    then have "?w = 256" using r(2) by (simp add: weight_def)
    then have "unat (SWAP_BYTES_IN_WORD acc1) = ones (256 * (256 * ?n))"
      using swap_ones [of acc1] r(1) ones_le ones_scale by simp
    also have "\<dots> = ones ?n" by (rule ones_cong) (simp, rule swap_twice)
    finally show ?thesis using True by simp
  next
    case False
    then show ?thesis using r by (simp add: weight_def)
  qed
qed

text \<open>
  C27: the checksum of a packet. \<open>inet_chksum_pbuf\<close> over a chain is the complement of the one's-complement
  sum of the bytes of the packet, wherever the chain cuts it and at whatever addresses the pieces lie.
\<close>

theorem inet_chksum_pbuf_sum:
  assumes "chain_ok p"
  shows "unat (inet_chksum_pbuf p) = 65535 - ones (word_sum (chain_data p))"
proof -
  obtain acc sw where c: "chksum_chain p 0 False = (acc, sw)" by (cases "chksum_chain p 0 False")
  then have s: "unat (if sw then SWAP_BYTES_IN_WORD acc else acc) = ones (word_sum (chain_data p))"
    using chksum_chain_unswapped [OF chain_ok_payloads [OF assms], of 0] by simp
  then show ?thesis
    unfolding inet_chksum_pbuf_def c Let_def prod.case using complement_low ones_le by simp
qed

text \<open>The IPv6 pseudo header.\<close>

definition pseudo_header :: "ip6_addr \<Rightarrow> ip6_addr \<Rightarrow> u16 \<Rightarrow> u8 \<Rightarrow> bytes" where
  "pseudo_header src dest len proto =
     concat (map be32 (addr_parts src @ addr_parts dest)) @ be32 (ucast len) @ [0, 0, 0, proto]"

lemma word_sum_even_append: "even (length xs) \<Longrightarrow> word_sum (xs @ ys) = word_sum xs + word_sum ys"
  by (induction xs rule: word_sum.induct) simp_all

lemma be32_sum: "word_sum (be32 x) = unat (x AND 0xffff) + unat (drop_bit 16 x AND 0xffff)"
proof -
  have b: "unat (ucast (drop_bit k x) :: u8) = unat x div 2 ^ k mod 256" for k
    by (simp add: unsigned_ucast_eq unat_drop_bit_eq drop_bit_nat_def take_bit_nat_def)
  have lt: "unat x < 4294967296" using unsigned_less [of x, where 'a = nat] by simp
  have "unat (ucast x :: u8) = unat x mod 256" using b [of 0] by simp
  moreover have "unat (drop_bit 16 x AND 0xffff) = unat x div 65536 mod 65536"
    by (simp add: unat_and_ffff unat_drop_bit_eq drop_bit_nat_def)
  moreover have "n mod 65536 = 256 * (n div 256 mod 256) + n mod 256" for n :: nat
    using mod_mult2_eq [of n 256 256] by simp
  moreover have "unat x div 16777216 = unat x div 65536 div 256" by (simp add: div_mult2_eq [symmetric])
  ultimately show ?thesis
    using b [of 24] b [of 16] b [of 8] by (simp add: be32_def unat_and_ffff) 
qed

lemma add_addr_part_unat:
  "unat acc \<le> 1000000 \<Longrightarrow> unat (add_addr_part x acc) = unat acc + word_sum (be32 x)"
proof -
  assume "unat acc \<le> 1000000"
  moreover have "unat (x AND 0xffff) \<le> 65535" "unat (drop_bit 16 x AND 0xffff) \<le> 65535"
    by (simp_all add: unat_and_ffff)
  ultimately show ?thesis unfolding add_addr_part_def be32_sum by (simp add: unat_word_ariths)
qed

lemma be32_sum_le: "word_sum (be32 x) \<le> 131070"
  using word_sum_bound [of "be32 x"] by simp

lemma addr_sum:
  "unat (fold (\<lambda>(s, d) acc. add_addr_part d (add_addr_part s acc)) (zip (addr_parts src) (addr_parts dest)) 0)
    = word_sum (concat (map be32 (addr_parts src @ addr_parts dest)))"
proof -
  obtain a b c d e f g h where ad: "src = IP6 a b c d" "dest = IP6 e f g h" by (cases src, cases dest)
  note le = be32_sum_le [of a] be32_sum_le [of b] be32_sum_le [of c] be32_sum_le [of d]
    be32_sum_le [of e] be32_sum_le [of f] be32_sum_le [of g] be32_sum_le [of h]
  show ?thesis
    using le by (simp add: ad add_addr_part_unat word_sum_even_append)
qed

lemma ip6_chksum_pseudo_ones:
  assumes "chain_ok p"
  shows "unat (ip6_chksum_pseudo p proto len src dest)
    = 65535 - ones (word_sum (pseudo_header src dest len proto @ chain_data p))"
proof -
  define acc0 where "acc0 = fold (\<lambda>(s, d) acc. add_addr_part d (add_addr_part s acc)) (zip (addr_parts src) (addr_parts dest)) 0"
  let ?A = "word_sum (concat (map be32 (addr_parts src @ addr_parts dest)))" and ?D = "word_sum (chain_data p)"
  have a0: "unat (FOLD_U32T (FOLD_U32T acc0)) = ones ?A" unfolding fold_twice acc0_def addr_sum ..
  obtain acc sw where c: "chksum_chain p (FOLD_U32T (FOLD_U32T acc0)) False = (acc, sw)"
    by (cases "chksum_chain p (FOLD_U32T (FOLD_U32T acc0)) False")
  define acc2 where "acc2 = (if sw then SWAP_BYTES_IN_WORD acc else acc)"
  have a2: "unat acc2 = ones (ones ?A + ?D)"
    unfolding acc2_def a0 [symmetric]
    using chksum_chain_unswapped [OF chain_ok_payloads [OF assms] _ c] a0 ones_le by simp
  have "unat (ucast proto :: u32) = unat proto"
    using byte_le [of proto] by (simp add: unsigned_ucast_eq take_bit_nat_eq_self)
  then have sum: "unat (acc2 + ucast proto + ucast len) = unat acc2 + unat proto + unat len"
    using a2 ones_le [of "ones ?A + ?D"] byte_le [of proto] half_le [of len]
    by (simp add: unat_word_ariths unat_ucast_u16)
  have hd: "word_sum (pseudo_header src dest len proto @ chain_data p) = ?A + unat len + unat proto + ?D"
  proof -
    have ev: "even (length (concat (map be32 (addr_parts src @ addr_parts dest))))" "even (length (pseudo_header src dest len proto))"
      by (cases src; cases dest; simp add: pseudo_header_def)+
    have "word_sum (be32 (ucast len)) = unat len"
      using half_le [of len] by (simp add: be32_sum unat_and_ffff unat_ucast_u16 unat_drop_bit_eq drop_bit_nat_def)
    then have "word_sum (pseudo_header src dest len proto) = ?A + unat len + unat proto"
      unfolding pseudo_header_def word_sum_even_append [OF ev(1)] by (simp add: word_sum_even_append)
    then show ?thesis using ev(2) by (simp add: word_sum_even_append)
  qed
  have "ones (unat acc2 + unat proto + unat len) = ones (?A + unat len + unat proto + ?D)"
  proof (rule ones_cong)
    show "unat acc2 + unat proto + unat len = 0 \<longleftrightarrow> ?A + unat len + unat proto + ?D = 0"
      unfolding a2 by auto
    have "unat acc2 mod 65535 = (?A + ?D) mod 65535"
      unfolding a2 ones_mod by (rule mod_add_cong [OF ones_mod refl])
    then have "(unat acc2 + (unat proto + unat len)) mod 65535 = (?A + ?D + (unat proto + unat len)) mod 65535"
      by (rule mod_add_cong) simp
    then show "(unat acc2 + unat proto + unat len) mod 65535 = (?A + unat len + unat proto + ?D) mod 65535"
      by (simp add: ac_simps)
  qed
  then have "unat (FOLD_U32T (FOLD_U32T (acc2 + ucast proto + ucast len)))
      = ones (word_sum (pseudo_header src dest len proto @ chain_data p))"
    unfolding fold_twice sum hd .
  then show ?thesis
    unfolding ip6_chksum_pseudo_def inet_cksum_pseudo_base_def acc0_def [symmetric] Let_def c prod.case acc2_def [symmetric]
    using complement_low ones_le by simp
qed

text \<open>
  A packet that carries its own checksum in a 16-bit field at an even offset sums to 0xffff. A
  checksum of 0 may be sent as 0xffff, as UDP does.
\<close>

lemma be16_sum: "word_sum (be16 c) = unat c"
proof -
  have "of_be16 (ucast (drop_bit 8 c)) (ucast c) = c" by (rule of_be16_be16)
  then have "unat c = 256 * unat (ucast (drop_bit 8 c) :: u8) + unat (ucast c :: u8)" by (metis unat_of_be16)
  then show ?thesis by (simp add: be16_def)
qed

lemma ones_full: "0 < n \<Longrightarrow> n mod 65535 = 0 \<Longrightarrow> ones n = 65535"
  by (rule onesI [symmetric]) simp_all

lemma checksum_fills:
  assumes "even (length a)" and s: "s = ones (word_sum (a @ [0, 0] @ b))"
    and c: "unat c = 65535 - s \<or> s = 65535 \<and> c = 0xffff"
  shows "ones (word_sum (a @ be16 c @ b)) = 65535"
proof -
  let ?S = "word_sum a + word_sum b"
  have S: "s = ones ?S" "word_sum (a @ be16 c @ b) = ?S + unat c"
    using assms(1) s by (simp_all add: word_sum_even_append be16_sum)
  have "(?S + unat c) mod 65535 = (s + unat c) mod 65535"
    unfolding S(1) by (rule mod_add_cong [OF ones_mod [symmetric] refl])
  moreover have "(s + unat c) mod 65535 = 0 \<and> 0 < s + unat c"
    using c ones_le [of ?S] S(1) by auto
  moreover have "s + unat c = 0 \<longleftrightarrow> ?S + unat c = 0" unfolding S(1) by simp
  ultimately show ?thesis unfolding S(2) by (intro ones_full) auto
qed

text \<open>A packet that sums to 0xffff no longer does after a change of one byte.\<close>

lemma word_sum_update:
  "i < length bs \<Longrightarrow> word_sum (bs[i := x]) + (if even i then 256 else 1) * unat (bs ! i)
    = word_sum bs + (if even i then 256 else 1) * unat x"
proof (induction bs arbitrary: i rule: word_sum.induct)
  case (3 a b bs)
  show ?case
  proof (cases i)
    case (Suc j)
    then show ?thesis using 3 by (cases j) auto
  qed simp
qed simp_all

lemma byte_error:
  assumes "ones (word_sum bs) = 65535" "i < length bs" "bs ! i \<noteq> x"
  shows "ones (word_sum (bs[i := x])) \<noteq> 65535"
proof
  let ?w = "if even i then 256 else 1 :: int" and ?d = "int (unat x) - int (unat (bs ! i))"
  assume "ones (word_sum (bs[i := x])) = 65535"
  then have "word_sum (bs[i := x]) mod 65535 = 0" "word_sum bs mod 65535 = 0"
    using assms(1) ones_mod [of "word_sum (bs[i := x])"] ones_mod [of "word_sum bs"] by simp_all
  then obtain k l where kl: "word_sum (bs[i := x]) = 65535 * k" "word_sum bs = 65535 * l"
    by (meson dvdE mod_0_imp_dvd)
  have "int (word_sum (bs[i := x])) - int (word_sum bs) = ?w * ?d"
    using arg_cong [OF word_sum_update [OF assms(2), of x], of int] by (cases "even i") (simp_all add: algebra_simps)
  then have eq: "65535 * (int k - int l) = ?w * ?d" unfolding kl by simp
  have "abs ?d \<le> 255" using byte_le [of x] byte_le [of "bs ! i"] by linarith
  moreover have "abs (?w * e) < 65535" if "abs e \<le> 255" for e using that by auto
  ultimately have "abs (?w * ?d) < 65535" by blast
  then have "abs (65535 * (int k - int l)) < 65535" unfolding eq .
  moreover have "z = 0" if "abs (65535 * z) < 65535" for z :: int using that by (simp add: abs_mult)
  ultimately have "int k - int l = 0" by blast
  then have "?w * ?d = 0" unfolding eq [symmetric] by simp
  then show False using assms(3) by (cases "even i") (simp_all add: word_uint_eq_iff)
qed

definition split_packet :: chain where
  "split_packet =
     [\<lparr>pbuf_addr = 0, pbuf_mem = [1, 2, 3], payload = 0, tot_len = 5, p_len = 3, type_internal = 0, p_flags = 0,
        p_ref = 1, if_idx = 0\<rparr>,
      \<lparr>pbuf_addr = 0, pbuf_mem = [0, 4, 5], payload = 1, tot_len = 2, p_len = 2, type_internal = 0, p_flags = 0,
        p_ref = 1, if_idx = 0\<rparr>]"

lemma split_packet_ok: "chain_ok split_packet" "chain_data split_packet = [1, 2, 3, 4, 5]"
  by (simp_all add: split_packet_def chain_data_def pbuf_bytes_def)

theorem inet_chksum_pbuf_sum_witness: "unat (inet_chksum_pbuf split_packet) = 63225"
  using inet_chksum_pbuf_sum [OF split_packet_ok(1)] by (simp add: split_packet_ok(2) ones_def)

text \<open>
  The checksum of UDP and ICMPv6. \<open>ip6_chksum_pseudo\<close> is the complement of the one's-complement
  sum over the IPv6 pseudo header and the packet.
\<close>

theorem ip6_chksum_pseudo_sum:
  assumes "chain_ok p"
  shows "unat (ip6_chksum_pseudo p proto len src dest)
    = 65535 - ones (word_sum (pseudo_header src dest len proto @ chain_data p))"
  by (rule ip6_chksum_pseudo_ones [OF assms])

theorem ip6_chksum_pseudo_sum_witness:
  "unat (ip6_chksum_pseudo split_packet 17 5 (IP6 0xfe800000 0 0 1) (IP6 0xff020000 0 0 1)) = 63837"
  using ip6_chksum_pseudo_sum [OF split_packet_ok(1), of 17 5 "IP6 0xfe800000 0 0 1" "IP6 0xff020000 0 0 1"]
  by (simp add: split_packet_ok(2) pseudo_header_def be32_def ones_def)

end
