(* ===== verification/Udp_Io.thy ===== *)
theory Udp_Io
  imports Udp Chksum
begin

text \<open>
  Sending and receiving of lwip/src/core/udp.c: \<open>udp_send\<close>, \<open>udp_sendto\<close>, \<open>udp_sendto_if\<close>,
  \<open>udp_sendto_if_src\<close> and \<open>udp_input\<close>. The layers around them are arguments: \<open>ip_output_if_src\<close>
  below, the receive callback and \<open>icmp_port_unreach\<close> above, with their state of type \<open>'n\<close>. A function that
  gets a packet returns it as well, as the callee changes the pbufs the caller holds.
\<close>

section \<open>Definitions\<close>

definition UDP_HLEN :: nat where "UDP_HLEN = 8"
definition IP_PROTO_UDP :: u8 where "IP_PROTO_UDP = 17"
definition UDP_FLAGS_MULTICAST_LOOP :: u8 where "UDP_FLAGS_MULTICAST_LOOP = 0x08"
definition PBUF_FLAG_MCASTLOOP :: u8 where "PBUF_FLAG_MCASTLOOP = 0x04"

type_synonym 'n ip_output_fn =
  "chain \<Rightarrow> ip6_addr \<Rightarrow> ip6_addr \<Rightarrow> u8 \<Rightarrow> u8 \<Rightarrow> netif \<Rightarrow> alloc_state \<Rightarrow> 'n \<Rightarrow>
   (err_t \<times> chain \<times> alloc_state \<times> 'n) result"
type_synonym ('cb, 'n) sent = "(err_t \<times> chain \<times> alloc_state \<times> 'cb udp_state \<times> 'n) result"

text \<open>Room for the header: in the first pbuf, or in a new one; the second component says which.\<close>

definition udp_make_room :: "(nat \<Rightarrow> bytes) \<Rightarrow> chain \<Rightarrow> alloc_state \<Rightarrow> ((chain \<times> bool) option \<times> alloc_state) result" where
  "udp_make_room uninit p s =
     (case pbuf_add_header (hd p) (of_nat UDP_HLEN) of
        Inl e \<Rightarrow> Inl e
      | Inr (False, b) \<Rightarrow> Inr (Some (b # tl p, False), s)
      | Inr (True, b) \<Rightarrow>
          (case pbuf_alloc uninit PBUF_IP (of_nat UDP_HLEN) PBUF_RAM s of
             Inl e \<Rightarrow> Inl e
           | Inr ([], s1) \<Rightarrow> Inr (None, s1)
           | Inr (q # qs, s1) \<Rightarrow>
               if tot_len (hd p) \<noteq> 0
               then (case pbuf_chain (q # qs) p of Inl e \<Rightarrow> Inl e | Inr (c, t) \<Rightarrow> Inr (Some (c, True), s1))
               else Inr (Some (q # qs, True), s1)))"

text \<open>The header fields are written with a zero checksum first; the sum over that is the checksum.\<close>

definition udp_checksum :: "chain \<Rightarrow> ip6_addr \<Rightarrow> ip6_addr \<Rightarrow> u16" where
  "udp_checksum q src_ip dst_ip =
     (let c = ip_chksum_pseudo q IP_PROTO_UDP (tot_len (hd q)) src_ip dst_ip in if c = 0 then 0xffff else c)"

definition udp_fill_header :: "chain \<Rightarrow> u16 \<Rightarrow> u16 \<Rightarrow> ip6_addr \<Rightarrow> ip6_addr \<Rightarrow> bool \<Rightarrow> chain result" where
  "udp_fill_header q src_port dst_port src_ip dst_ip mcast_loop =
     (if unat (p_len (hd q)) < UDP_HLEN then Inl AssertFail
      else
        (case write_payload (hd q) 0 (be16 src_port @ be16 dst_port @ be16 (tot_len (hd q)) @ be16 0) of
           Inl e \<Rightarrow> Inl e
         | Inr b \<Rightarrow>
             (let b1 = (if mcast_loop then b\<lparr>p_flags := p_flags b OR PBUF_FLAG_MCASTLOOP\<rparr> else b) in
              map_sum id (\<lambda>b2. b2 # tl q)
                (write_payload b1 6 (be16 (udp_checksum (b1 # tl q) src_ip dst_ip))))))"

definition udp_sendto_if_src ::
  "(nat \<Rightarrow> bytes) \<Rightarrow> 'n ip_output_fn \<Rightarrow> nat \<Rightarrow> chain \<Rightarrow> ip6_addr \<Rightarrow> u16 \<Rightarrow> netif \<Rightarrow> ip6_addr \<Rightarrow>
   alloc_state \<Rightarrow> 'cb udp_state \<Rightarrow> 'n \<Rightarrow> ('cb, 'n) sent" where
  "udp_sendto_if_src uninit ip_output_if_src pcb p dst_ip dst_port netif src_ip s u n =
     (if pcb = 0 \<or> p = [] then Inr (ERR_ARG, p, s, u, n)
      else
        (let (err, u1) = (if local_port (pcb_at u pcb) = 0
                          then udp_bind pcb (Some (local_ip (pcb_at u pcb))) (local_port (pcb_at u pcb)) u
                          else (ERR_OK, u))
         in if err \<noteq> ERR_OK then Inr (err, p, s, u1, n)
            else if tot_len (hd p) + of_nat UDP_HLEN < tot_len (hd p) then Inr (ERR_MEM, p, s, u1, n)
            else
              (case udp_make_room uninit p s of
                 Inl e \<Rightarrow> Inl e
               | Inr (None, s1) \<Rightarrow> Inr (ERR_MEM, p, s1, u1, n)
               | Inr (Some (q, separate), s1) \<Rightarrow>
                   (let c = pcb_at u1 pcb;
                        mcast = ip6_addr_ismulticast dst_ip in
                    case udp_fill_header q (local_port c) dst_port src_ip dst_ip
                           (udp_flags c AND UDP_FLAGS_MULTICAST_LOOP \<noteq> 0 \<and> mcast) of
                      Inl e \<Rightarrow> Inl e
                    | Inr q1 \<Rightarrow>
                        (case ip_output_if_src q1 src_ip dst_ip (if mcast then mcast_ttl c else ttl c)
                                IP_PROTO_UDP netif s1 n of
                           Inl e \<Rightarrow> Inl e
                         | Inr (err, q2, s2, n2) \<Rightarrow>
                             if separate then
                               (case pbuf_free q2 s2 of
                                  Inl e \<Rightarrow> Inl e
                                | Inr (cnt, rest, s3) \<Rightarrow>
                                    Inr (err, if tot_len (hd p) \<noteq> 0 then rest else p, s3, u1, n2))
                             else Inr (err, q2, s2, u1, n2))))))"

definition udp_sendto_if ::
  "(nat \<Rightarrow> bytes) \<Rightarrow> 'n ip_output_fn \<Rightarrow> nat \<Rightarrow> chain \<Rightarrow> ip6_addr \<Rightarrow> u16 \<Rightarrow> netif \<Rightarrow>
   alloc_state \<Rightarrow> 'cb udp_state \<Rightarrow> 'n \<Rightarrow> ('cb, 'n) sent" where
  "udp_sendto_if uninit ip_output_if_src pcb p dst_ip dst_port netif s u n =
     (if pcb = 0 \<or> p = [] then Inr (ERR_ARG, p, s, u, n)
      else
        (let lip = local_ip (pcb_at u pcb) in
         if lip = IP6_ADDR_ANY \<or> ip6_addr_ismulticast lip then
           (case ip6_select_source_address netif dst_ip of
              None \<Rightarrow> Inr (ERR_RTE, p, s, u, n)
            | Some src_ip \<Rightarrow> udp_sendto_if_src uninit ip_output_if_src pcb p dst_ip dst_port netif src_ip s u n)
         else if netif_get_ip6_addr_match netif lip = None then Inr (ERR_RTE, p, s, u, n)
         else udp_sendto_if_src uninit ip_output_if_src pcb p dst_ip dst_port netif lip s u n))"

definition udp_route :: "'cb udp_pcb \<Rightarrow> ip6_addr \<Rightarrow> netif option \<Rightarrow> netif option" where
  "udp_route c dst_ip netif_default =
     (if netif_idx c \<noteq> 0 then netif_get_by_index (netif_idx c) netif_default
      else
        (case (if ip6_addr_ismulticast dst_ip \<and> mcast_ifindex c \<noteq> 0
               then netif_get_by_index (mcast_ifindex c) netif_default else None) of
           Some n \<Rightarrow> Some n
         | None \<Rightarrow> ip6_route netif_default))"

definition udp_sendto ::
  "(nat \<Rightarrow> bytes) \<Rightarrow> 'n ip_output_fn \<Rightarrow> netif option \<Rightarrow> nat \<Rightarrow> chain \<Rightarrow> ip6_addr \<Rightarrow> u16 \<Rightarrow>
   alloc_state \<Rightarrow> 'cb udp_state \<Rightarrow> 'n \<Rightarrow> ('cb, 'n) sent" where
  "udp_sendto uninit ip_output_if_src netif_default pcb p dst_ip dst_port s u n =
     (if pcb = 0 \<or> p = [] then Inr (ERR_ARG, p, s, u, n)
      else
        (case udp_route (pcb_at u pcb) dst_ip netif_default of
           None \<Rightarrow> Inr (ERR_RTE, p, s, u, n)
         | Some netif \<Rightarrow> udp_sendto_if uninit ip_output_if_src pcb p dst_ip dst_port netif s u n))"

definition udp_send ::
  "(nat \<Rightarrow> bytes) \<Rightarrow> 'n ip_output_fn \<Rightarrow> netif option \<Rightarrow> nat \<Rightarrow> chain \<Rightarrow>
   alloc_state \<Rightarrow> 'cb udp_state \<Rightarrow> 'n \<Rightarrow> ('cb, 'n) sent" where
  "udp_send uninit ip_output_if_src netif_default pcb p s u n =
     (if pcb = 0 \<or> p = [] then Inr (ERR_ARG, p, s, u, n)
      else udp_sendto uninit ip_output_if_src netif_default pcb p (remote_ip (pcb_at u pcb))
             (remote_port (pcb_at u pcb)) s u n)"

text \<open>
  \<open>udp_input\<close>. The addresses of the packet being received and the length of its IP headers are the
  globals of \<open>ip_data\<close>; the callback frees the packet.
\<close>

type_synonym ('cb, 'n) udp_recv_fn =
  "'cb \<Rightarrow> nat \<Rightarrow> chain \<Rightarrow> ip6_addr \<Rightarrow> u16 \<Rightarrow> alloc_state \<Rightarrow> 'n \<Rightarrow> (alloc_state \<times> 'n) result"
type_synonym 'n unreach_fn = "chain \<Rightarrow> alloc_state \<Rightarrow> 'n \<Rightarrow> (alloc_state \<times> 'n) result"

definition udp_drop :: "chain \<Rightarrow> alloc_state \<Rightarrow> 'cb udp_state \<Rightarrow> 'n \<Rightarrow> (alloc_state \<times> 'cb udp_state \<times> 'n) result" where
  "udp_drop p s u n = map_sum id (\<lambda>(cnt, rest, s'). (s', u, n)) (pbuf_free p s)"

definition udp_no_port ::
  "'n unreach_fn \<Rightarrow> u16 \<Rightarrow> chain \<Rightarrow> ip6_addr \<Rightarrow> alloc_state \<Rightarrow> 'cb udp_state \<Rightarrow> 'n \<Rightarrow>
   (alloc_state \<times> 'cb udp_state \<times> 'n) result" where
  "udp_no_port icmp_port_unreach hlen p dest_ip s u n =
     (if ip6_addr_ismulticast dest_ip then udp_drop p s u n
      else
        (case pbuf_header_force (hd p) (hlen + of_nat UDP_HLEN) of
           Inl e \<Rightarrow> Inl e
         | Inr (status, b) \<Rightarrow>
             (case icmp_port_unreach (b # tl p) s n of
                Inl e \<Rightarrow> Inl e
              | Inr (s1, n1) \<Rightarrow> udp_drop (b # tl p) s1 u n1)))"

definition udp_input ::
  "('cb, 'n) udp_recv_fn \<Rightarrow> 'n unreach_fn \<Rightarrow> chain \<Rightarrow> netif \<Rightarrow> ip6_addr \<Rightarrow> ip6_addr \<Rightarrow> u16 \<Rightarrow>
   alloc_state \<Rightarrow> 'cb udp_state \<Rightarrow> 'n \<Rightarrow> (alloc_state \<times> 'cb udp_state \<times> 'n) result" where
  "udp_input recv icmp_port_unreach p inp src_ip dest_ip hlen s u n =
     (case p of
        [] \<Rightarrow> Inl AssertFail
      | b # bs \<Rightarrow>
          if unat (p_len b) < UDP_HLEN then udp_drop p s u n
          else
            (case mem_read (pbuf_mem b) (payload b) UDP_HLEN of
               Inl e \<Rightarrow> Inl e
             | Inr uh \<Rightarrow>
                 (let src = of_be16 (uh ! 0) (uh ! 1);
                      dest = of_be16 (uh ! 2) (uh ! 3);
                      chksum = of_be16 (uh ! 6) (uh ! 7);
                      (pcb, pcbs) = udp_input_find (pcb_at u) (netif_num inp + 1) src_ip dest_ip src dest [] (udp_pcbs u) None;
                      u1 = u\<lparr>udp_pcbs := pcbs\<rparr>
                  in if pcb = None \<and> netif_get_ip6_addr_match inp dest_ip = None then udp_drop p s u1 n
                     else if chksum \<noteq> 0 \<and> ip_chksum_pseudo p IP_PROTO_UDP (tot_len b) src_ip dest_ip \<noteq> 0
                     then udp_drop p s u1 n
                     else
                       (case pbuf_remove_header b (of_nat UDP_HLEN) of
                          (True, b1) \<Rightarrow> Inl AssertFail
                        | (False, b1) \<Rightarrow>
                            (case pcb of
                               Some c \<Rightarrow>
                                 (case recv_cb (pcb_at u1 c) of
                                    Some cb \<Rightarrow> map_sum id (\<lambda>(s', n'). (s', u1, n')) (recv cb c (b1 # bs) src_ip src s n)
                                  | None \<Rightarrow> udp_drop (b1 # bs) s u1 n)
                             | None \<Rightarrow> udp_no_port icmp_port_unreach hlen (b1 # bs) dest_ip s u1 n)))))"

section \<open>Writing the header\<close>

lemma put_bytes_front: "length a = k \<Longrightarrow> put_bytes (a @ b @ c) k x = a @ x @ drop (length x) (b @ c)"
  by (simp add: put_bytes_def)

definition udp_packet :: "u16 \<Rightarrow> u16 \<Rightarrow> u16 \<Rightarrow> u16 \<Rightarrow> bytes \<Rightarrow> bytes" where
  "udp_packet sport dport len ck dat = be16 sport @ be16 dport @ be16 len @ be16 ck @ dat"

text \<open>A packet whose checksum is the one over the packet with a zero checksum verifies.\<close>

lemma udp_packet_verifies:
  assumes "chain_ok c" "chain_data c = udp_packet sp dp len ck dat"
    and z: "chain_ok z" "chain_data z = udp_packet sp dp len 0 dat"
    and ck: "ck = (if ip_chksum_pseudo z proto n src dst = 0 then 0xffff else ip_chksum_pseudo z proto n src dst)"
  shows "ip_chksum_pseudo c proto n src dst = 0"
proof -
  let ?h = "pseudo_header src dst n proto" and ?a = "be16 sp @ be16 dp @ be16 len"
  have ev: "even (length (?h @ ?a))" by (cases src; cases dst) (simp add: pseudo_header_def)
  have zero: "be16 0 = [0, 0]" by (simp add: be16_def)
  have cz: "unat (ip_chksum_pseudo z proto n src dst) = 65535 - ones (word_sum ((?h @ ?a) @ [0, 0] @ dat))"
    using ip6_chksum_pseudo_ones [OF z(1), of proto n src dst] z(2) zero
    by (simp add: ip_chksum_pseudo_def udp_packet_def)
  have "unat ck = 65535 - ones (word_sum ((?h @ ?a) @ [0, 0] @ dat))
      \<or> ones (word_sum ((?h @ ?a) @ [0, 0] @ dat)) = 65535 \<and> ck = 0xffff"
    using cz ck ones_le [of "word_sum ((?h @ ?a) @ [0, 0] @ dat)"] by (auto split: if_splits)
  from checksum_fills [OF ev refl this]
  have "ones (word_sum (?h @ chain_data c)) = 65535" using assms(2) by (simp add: udp_packet_def)
  then have "unat (ip_chksum_pseudo c proto n src dst) = 0"
    using ip6_chksum_pseudo_ones [OF assms(1), of proto n src dst] by (simp add: ip_chksum_pseudo_def)
  then show ?thesis by (simp add: unat_eq_0)
qed

lemma udp_fill_header_spec:
  assumes q: "chain_ok (b # qs)" "8 \<le> unat (p_len b)"
  defines "len \<equiv> tot_len b" and "dat \<equiv> drop 8 (chain_data (b # qs))"
  shows "\<exists>b' ck. udp_fill_header (b # qs) sp dp src dst ml = Inr (b' # qs) \<and> chain_ok (b' # qs)
    \<and> chain_data (b' # qs) = udp_packet sp dp len ck dat \<and> ck \<noteq> 0
    \<and> ip_chksum_pseudo (b' # qs) IP_PROTO_UDP len src dst = 0
    \<and> tot_len b' = len \<and> p_len b' = p_len b \<and> payload b' = payload b \<and> p_ref b' = p_ref b
    \<and> type_internal b' = type_internal b \<and> pbuf_addr b' = pbuf_addr b"
proof -
  have in_mem: "payload b + unat (p_len b) \<le> length (pbuf_mem b)" using q(1) by simp
  define h0 where "h0 = be16 sp @ be16 dp @ be16 len @ be16 0"
  have h0: "length h0 = 8" by (simp add: h0_def)
  define m1 where "m1 = put_bytes (pbuf_mem b) (payload b) h0"
  define b1 where "b1 = (if ml then (b\<lparr>pbuf_mem := m1\<rparr>)\<lparr>p_flags := p_flags b OR PBUF_FLAG_MCASTLOOP\<rparr> else b\<lparr>pbuf_mem := m1\<rparr>)"
  have w1: "write_payload b 0 h0 = Inr (b\<lparr>pbuf_mem := m1\<rparr>)" "pbuf_bytes (b\<lparr>pbuf_mem := m1\<rparr>) = put_bytes (pbuf_bytes b) 0 h0"
      "length m1 = length (pbuf_mem b)"
    using write_payload_bytes [of b 0 h0] in_mem q(2) h0 by (simp_all add: m1_def)
  have f1: "payload b1 = payload b" "p_len b1 = p_len b" "tot_len b1 = len" "p_ref b1 = p_ref b" "pbuf_mem b1 = m1"
      "type_internal b1 = type_internal b" "pbuf_addr b1 = pbuf_addr b" "pbuf_bytes b1 = put_bytes (pbuf_bytes b) 0 h0"
    using w1(2) by (simp_all add: b1_def len_def pbuf_bytes_def)
  have lb: "8 \<le> length (pbuf_bytes b)" using q(2) length_pbuf_bytes [OF in_mem] by simp
  have ok1: "chain_ok (b1 # qs)" using q(1) f1 w1(3) by (simp add: len_def)
  have d1: "chain_data (b1 # qs) = udp_packet sp dp len 0 dat"
    using lb h0 f1(8) by (simp add: udp_packet_def h0_def dat_def put_bytes_def)
  define ck where "ck = udp_checksum (b1 # qs) src dst"
  define b2 where "b2 = b1\<lparr>pbuf_mem := put_bytes (pbuf_mem b1) (payload b1 + 6) (be16 ck)\<rparr>"
  have w2: "write_payload b1 6 (be16 ck) = Inr b2" "pbuf_bytes b2 = put_bytes (pbuf_bytes b1) 6 (be16 ck)"
      "length (pbuf_mem b2) = length (pbuf_mem b1)"
    using write_payload_bytes [of b1 6 "be16 ck"] in_mem q(2) f1 w1(3) by (simp_all add: b2_def)
  have "udp_fill_header (b # qs) sp dp src dst ml = Inr (b2 # qs)"
    using q(2) w1(1) w2(1) by (cases ml) (simp_all add: udp_fill_header_def UDP_HLEN_def h0_def len_def b1_def ck_def Let_def)
  moreover have ok2: "chain_ok (b2 # qs)" using ok1 w2(3) by (simp add: b2_def)
  moreover have d2: "chain_data (b2 # qs) = udp_packet sp dp len ck dat"
  proof -
    have "pbuf_bytes b1 = (be16 sp @ be16 dp @ be16 len) @ be16 0 @ drop 8 (pbuf_bytes b)"
      using f1(8) lb h0 by (simp add: put_bytes_def h0_def)
    then have "pbuf_bytes b2 = (be16 sp @ be16 dp @ be16 len) @ be16 ck @ drop 8 (pbuf_bytes b)"
      using w2(2) put_bytes_front [of "be16 sp @ be16 dp @ be16 len" 6 "be16 0" "drop 8 (pbuf_bytes b)" "be16 ck"] by simp
    then show ?thesis using lb by (simp add: udp_packet_def dat_def)
  qed
  moreover have "ck \<noteq> 0" by (simp add: ck_def udp_checksum_def Let_def)
  moreover have "ip_chksum_pseudo (b2 # qs) IP_PROTO_UDP len src dst = 0"
    by (rule udp_packet_verifies [OF ok2 d2 ok1 d1]) (simp add: ck_def udp_checksum_def Let_def f1(3))
  ultimately show ?thesis
    using f1 by (intro exI [of _ b2] exI [of _ ck]) (simp add: b2_def)
qed

section \<open>Sending\<close>

text \<open>A packet that has room for the header in front of its data.\<close>

definition has_headroom :: "pbuf \<Rightarrow> bool" where
  "has_headroom b \<longleftrightarrow> room_for 8 b"

lemma u16_add_8: "unat (n :: u16) + 8 < 65536 \<Longrightarrow> unat (n + 8) = unat n + 8"
  by (simp add: unat_word_ariths)

lemma add_header_headroom:
  assumes "has_headroom b" "chain_ok (b # bs)"
  defines "b' \<equiv> b\<lparr>payload := payload b - 8, p_len := p_len b + 8, tot_len := tot_len b + 8\<rparr>"
  shows "udp_make_room uninit (b # bs) s = Inr (Some (b' # bs, False), s)" "chain_ok (b' # bs)"
    "drop 8 (chain_data (b' # bs)) = chain_data (b # bs)" "8 \<le> unat (p_len b')"
proof -
  have r: "room_for 8 b" using assms(1) by (simp add: has_headroom_def)
  have eq: "b' = grow_front 8 b" by (simp add: b'_def grow_front_def)
  note add = pbuf_add_header_room [OF assms(2) r, simplified]
  show "udp_make_room uninit (b # bs) s = Inr (Some (b' # bs, False), s)"
    using add(1) by (simp add: eq udp_make_room_def UDP_HLEN_def)
  show "chain_ok (b' # bs)" unfolding eq by (rule pbuf_add_header_room(2) [OF assms(2) r]) simp
  show "drop 8 (chain_data (b' # bs)) = chain_data (b # bs)" unfolding eq by (rule pbuf_add_header_room(3) [OF assms(2) r]) simp
  show "8 \<le> unat (p_len b')" unfolding eq grow_front_len(1) [OF assms(2) r] by simp
qed

lemma udp_sendto_if_src_sends:
  fixes u :: "'cb udp_state"
  assumes "pcb \<noteq> 0" "local_port (pcb_at u pcb) \<noteq> 0" "chain_ok (b # bs)" "has_headroom b"
  shows "\<exists>b' ck. chain_ok (b' # bs) \<and> p_ref b' = p_ref b \<and> pbuf_addr b' = pbuf_addr b \<and> type_internal b' = type_internal b
    \<and> payload b' = payload b - 8 \<and> 8 \<le> unat (p_len b') \<and> tot_len b' = tot_len b + 8
    \<and> chain_data (b' # bs) = udp_packet (local_port (pcb_at u pcb)) dport (tot_len b + 8) ck (chain_data (b # bs))
    \<and> ck \<noteq> 0 \<and> ip_chksum_pseudo (b' # bs) IP_PROTO_UDP (tot_len b') src dst = 0
    \<and> udp_sendto_if_src uninit out pcb (b # bs) dst dport netif src s u n =
        (case out (b' # bs) src dst (if ip6_addr_ismulticast dst then mcast_ttl (pcb_at u pcb) else ttl (pcb_at u pcb))
                IP_PROTO_UDP netif s n of
           Inl e \<Rightarrow> Inl e
         | Inr (err, q2, s2, n2) \<Rightarrow> Inr (err, q2, s2, u, n2))"
proof -
  define b1 where "b1 = b\<lparr>payload := payload b - 8, p_len := p_len b + 8, tot_len := tot_len b + 8\<rparr>"
  note room = add_header_headroom [OF assms(4,3), folded b1_def]
  let ?ml = "udp_flags (pcb_at u pcb) AND UDP_FLAGS_MULTICAST_LOOP \<noteq> 0 \<and> ip6_addr_ismulticast dst"
  obtain b' ck where f: "udp_fill_header (b1 # bs) (local_port (pcb_at u pcb)) dport src dst ?ml = Inr (b' # bs)"
      "chain_ok (b' # bs)" "chain_data (b' # bs) = udp_packet (local_port (pcb_at u pcb)) dport (tot_len b1) ck (chain_data (b # bs))"
      "ck \<noteq> 0" "ip_chksum_pseudo (b' # bs) IP_PROTO_UDP (tot_len b1) src dst = 0"
      "tot_len b' = tot_len b1" "p_len b' = p_len b1" "payload b' = payload b1" "p_ref b' = p_ref b1"
      "type_internal b' = type_internal b1" "pbuf_addr b' = pbuf_addr b1"
    using udp_fill_header_spec [OF room(2,4)] unfolding room(3) by blast
  have "\<not> tot_len b + 8 < tot_len b"
    using assms(4) u16_add_8 [of "tot_len b"] by (simp add: has_headroom_def room_for_def word_less_nat_alt)
  then have "udp_sendto_if_src uninit out pcb (b # bs) dst dport netif src s u n =
        (case out (b' # bs) src dst (if ip6_addr_ismulticast dst then mcast_ttl (pcb_at u pcb) else ttl (pcb_at u pcb))
                IP_PROTO_UDP netif s n of
           Inl e \<Rightarrow> Inl e
         | Inr (err, q2, s2, n2) \<Rightarrow> Inr (err, q2, s2, u, n2))"
    using assms(1,2) room(1) f(1) by (auto simp: udp_sendto_if_src_def UDP_HLEN_def Let_def split: sum.splits prod.splits)
  then show ?thesis
    using f room(4) by (intro exI [of _ b'] exI [of _ ck]) (simp add: b1_def)
qed

text \<open>Every outcome of \<open>udp_sendto_if_src\<close> on such a packet: the packet as it was, or with the header to IP.\<close>

lemma udp_sendto_if_src_cases:
  fixes u :: "'cb udp_state"
  assumes "pcb \<noteq> 0" "chain_ok (b # bs)" "has_headroom b"
  shows "(\<exists>err u1. udp_sendto_if_src uninit out pcb (b # bs) dst dport netif src s u n = Inr (err, b # bs, s, u1, n))
    \<or> (\<exists>b' u1 t. chain_ok (b' # bs) \<and> p_ref b' = p_ref b \<and> pbuf_addr b' = pbuf_addr b \<and> type_internal b' = type_internal b
        \<and> payload b' = payload b - 8 \<and> tot_len b' = tot_len b + 8
        \<and> udp_sendto_if_src uninit out pcb (b # bs) dst dport netif src s u n =
          (case out (b' # bs) src dst t IP_PROTO_UDP netif s n of
             Inl e \<Rightarrow> Inl e
           | Inr (err, q2, s2, n2) \<Rightarrow> Inr (err, q2, s2, u1, n2)))"
proof -
  obtain err u1 where bind: "(if local_port (pcb_at u pcb) = 0
      then udp_bind pcb (Some (local_ip (pcb_at u pcb))) (local_port (pcb_at u pcb)) u else (ERR_OK, u)) = (err, u1)"
    by (metis surj_pair)
  show ?thesis
  proof (cases "err = ERR_OK")
    case False
    then have "udp_sendto_if_src uninit out pcb (b # bs) dst dport netif src s u n = Inr (err, b # bs, s, u1, n)"
      unfolding udp_sendto_if_src_def bind using assms(1) by simp
    then show ?thesis by blast
  next
    case True
    define b1 where "b1 = b\<lparr>payload := payload b - 8, p_len := p_len b + 8, tot_len := tot_len b + 8\<rparr>"
    note room = add_header_headroom [OF assms(3,2), folded b1_def]
    let ?ml = "udp_flags (pcb_at u1 pcb) AND UDP_FLAGS_MULTICAST_LOOP \<noteq> 0 \<and> ip6_addr_ismulticast dst"
    obtain b' ck where f: "udp_fill_header (b1 # bs) (local_port (pcb_at u1 pcb)) dport src dst ?ml = Inr (b' # bs)"
        "chain_ok (b' # bs)" "tot_len b' = tot_len b1" "payload b' = payload b1" "p_ref b' = p_ref b1"
        "type_internal b' = type_internal b1" "pbuf_addr b' = pbuf_addr b1"
      using udp_fill_header_spec [OF room(2,4)] unfolding room(3) by blast
    have "\<not> tot_len b + 8 < tot_len b"
      using assms(3) u16_add_8 [of "tot_len b"] by (simp add: has_headroom_def room_for_def word_less_nat_alt)
    then have "udp_sendto_if_src uninit out pcb (b # bs) dst dport netif src s u n =
        (case out (b' # bs) src dst (if ip6_addr_ismulticast dst then mcast_ttl (pcb_at u1 pcb) else ttl (pcb_at u1 pcb))
                IP_PROTO_UDP netif s n of
           Inl e \<Rightarrow> Inl e
         | Inr (err, q2, s2, n2) \<Rightarrow> Inr (err, q2, s2, u1, n2))"
      unfolding udp_sendto_if_src_def bind
      using assms(1) room(1) f(1) True by (auto simp: UDP_HLEN_def Let_def split: sum.splits prod.splits)
    then show ?thesis
      using f by (intro disjI2 exI [of _ b'] exI [of _ u1] exI conjI) (simp_all add: b1_def)
  qed
qed

section \<open>Receiving\<close>

lemma of_be16_split: "of_be16 (be16 x ! 0) (be16 x ! Suc 0) = x"
  by (simp add: be16_def of_be16_be16)

lemma udp_header_read:
  assumes "chain_ok (b # bs)" "8 \<le> unat (p_len b)" "chain_data (b # bs) = udp_packet sp dp len ck dat"
  shows "\<exists>uh. mem_read (pbuf_mem b) (payload b) 8 = Inr uh \<and> of_be16 (uh ! 0) (uh ! 1) = sp
    \<and> of_be16 (uh ! 2) (uh ! 3) = dp \<and> of_be16 (uh ! 6) (uh ! 7) = ck"
proof -
  have in_mem: "payload b + unat (p_len b) \<le> length (pbuf_mem b)" using assms(1) by simp
  have "take 8 (pbuf_bytes b) = take 8 (chain_data (b # bs))"
    using assms(2) length_pbuf_bytes [OF in_mem] by simp
  also have "\<dots> = be16 sp @ be16 dp @ be16 len @ be16 ck" unfolding assms(3) by (simp add: udp_packet_def)
  finally have "mem_read (pbuf_mem b) (payload b) 8 = Inr (be16 sp @ be16 dp @ be16 len @ be16 ck)"
    using pbuf_bytes_read [OF in_mem, of 0 8] assms(2) by simp
  then show ?thesis
    by (simp add: be16_def of_be16_be16)
qed

lemma remove_header_data:
  assumes "chain_ok (b # bs)" "8 \<le> unat (p_len b)"
  shows "\<exists>b1. pbuf_remove_header b 8 = (False, b1) \<and> chain_ok (b1 # bs)
    \<and> chain_data (b1 # bs) = drop 8 (chain_data (b # bs))
    \<and> p_ref b1 = p_ref b \<and> pbuf_addr b1 = pbuf_addr b \<and> type_internal b1 = type_internal b"
  using pbuf_remove_header_cut [OF assms] by (intro exI [of _ "cut_front 8 b"]) simp

lemma udp_input_accepts:
  fixes u :: "'cb udp_state"
  assumes "chain_ok (b # bs)" "8 \<le> unat (p_len b)" "chain_data (b # bs) = udp_packet sp dp len ck dat"
    and "ck = 0 \<or> ip_chksum_pseudo (b # bs) IP_PROTO_UDP (tot_len b) src dst = 0"
    and "udp_input_find (pcb_at u) (netif_num inp + 1) src dst sp dp [] (udp_pcbs u) None = (Some c, ps)"
    and "recv_cb (pcb_at u c) = Some cb"
  shows "\<exists>b1. chain_ok (b1 # bs) \<and> chain_data (b1 # bs) = dat
    \<and> p_ref b1 = p_ref b \<and> pbuf_addr b1 = pbuf_addr b \<and> type_internal b1 = type_internal b
    \<and> udp_input recv unreach (b # bs) inp src dst hlen s u n
      = map_sum id (\<lambda>(s', n'). (s', u\<lparr>udp_pcbs := ps\<rparr>, n')) (recv cb c (b1 # bs) src sp s n)"
proof -
  obtain uh where uh: "mem_read (pbuf_mem b) (payload b) 8 = Inr uh" "of_be16 (uh ! 0) (uh ! 1) = sp"
      "of_be16 (uh ! 2) (uh ! 3) = dp" "of_be16 (uh ! 6) (uh ! 7) = ck"
    using udp_header_read [OF assms(1,2,3)] by blast
  obtain b1 where b1: "pbuf_remove_header b 8 = (False, b1)" "chain_ok (b1 # bs)"
      "chain_data (b1 # bs) = drop 8 (chain_data (b # bs))"
      "p_ref b1 = p_ref b" "pbuf_addr b1 = pbuf_addr b" "type_internal b1 = type_internal b"
    using remove_header_data [OF assms(1,2)] by blast
  have "chain_data (b1 # bs) = dat" unfolding b1(3) assms(3) by (simp add: udp_packet_def)
  moreover have "udp_input recv unreach (b # bs) inp src dst hlen s u n
      = map_sum id (\<lambda>(s', n'). (s', u\<lparr>udp_pcbs := ps\<rparr>, n')) (recv cb c (b1 # bs) src sp s n)"
    using assms(2,4,5,6) uh b1(1) by (auto simp: udp_input_def UDP_HLEN_def Let_def)
  ultimately show ?thesis using b1(2,4-6) by blast
qed

text \<open>The checksum of a packet depends on its bytes only.\<close>

lemma same_data_verifies:
  assumes "chain_ok (r # rs)" "chain_ok (q # qs)" "chain_data (r # rs) = chain_data (q # qs)"
  shows "tot_len r = tot_len q"
    and "ip_chksum_pseudo (r # rs) proto (tot_len r) src dst = ip_chksum_pseudo (q # qs) proto (tot_len q) src dst"
proof -
  have "unat (tot_len r) = length (chain_data (r # rs))" using assms(1) length_chain_data [OF assms(1)] by simp
  also have "\<dots> = length (chain_data (q # qs))" using assms(3) by simp
  also have "\<dots> = unat (tot_len q)" using assms(2) length_chain_data [OF assms(2)] by simp
  finally show tl: "tot_len r = tot_len q" by (simp add: word_unat_eq_iff)
  have "unat (ip_chksum_pseudo (r # rs) proto (tot_len r) src dst) = unat (ip_chksum_pseudo (q # qs) proto (tot_len q) src dst)"
    unfolding ip_chksum_pseudo_def ip6_chksum_pseudo_ones [OF assms(1)] ip6_chksum_pseudo_ones [OF assms(2)] tl assms(3) ..
  then show "ip_chksum_pseudo (r # rs) proto (tot_len r) src dst = ip_chksum_pseudo (q # qs) proto (tot_len q) src dst"
    by (simp add: word_unat_eq_iff)
qed

text \<open>
  C13: UDP end to end. A datagram that \<open>udp_sendto_if_src\<close> hands to IP is accepted by \<open>udp_input\<close> on a
  host where a control block with a callback is the match for its ports: whatever chain carries the
  same bytes there, with the header in its first pbuf, the checksum verifies and the callback gets
  exactly the payload, with the sender's address and port.
\<close>

theorem udp_roundtrip:
  fixes u :: "'cb udp_state" and u' :: "'d udp_state"
  assumes snd: "pcb \<noteq> 0" "local_port (pcb_at u pcb) \<noteq> 0" "chain_ok (b # bs)" "has_headroom b"
    and rcv: "udp_input_find (pcb_at u') (netif_num inp + 1) src dst (local_port (pcb_at u pcb)) dport [] (udp_pcbs u') None
        = (Some c, ps)" "recv_cb (pcb_at u' c) = Some cb"
  shows "\<exists>q. udp_sendto_if_src uninit out pcb (b # bs) dst dport netif src s u n =
        (case out q src dst (if ip6_addr_ismulticast dst then mcast_ttl (pcb_at u pcb) else ttl (pcb_at u pcb))
                IP_PROTO_UDP netif s n of
           Inl e \<Rightarrow> Inl e
         | Inr (err, q2, s2, n2) \<Rightarrow> Inr (err, q2, s2, u, n2))
     \<and> chain_ok q \<and> q \<noteq> [] \<and> 8 \<le> unat (p_len (hd q))
     \<and> (\<forall>r rs. chain_ok (r # rs) \<and> chain_data (r # rs) = chain_data q \<and> 8 \<le> unat (p_len r) \<longrightarrow>
          (\<exists>r1. chain_data (r1 # rs) = chain_data (b # bs)
            \<and> udp_input recv unreach (r # rs) inp src dst hlen s' u' n'
              = map_sum id (\<lambda>(s', n'). (s', u'\<lparr>udp_pcbs := ps\<rparr>, n'))
                  (recv cb c (r1 # rs) src (local_port (pcb_at u pcb)) s' n')))"
proof -
  obtain b' ck where q: "chain_ok (b' # bs)" "tot_len b' = tot_len b + 8"
      "8 \<le> unat (p_len b')"
      "chain_data (b' # bs) = udp_packet (local_port (pcb_at u pcb)) dport (tot_len b + 8) ck (chain_data (b # bs))"
      "ip_chksum_pseudo (b' # bs) IP_PROTO_UDP (tot_len b') src dst = 0"
    and send: "udp_sendto_if_src uninit out pcb (b # bs) dst dport netif src s u n =
        (case out (b' # bs) src dst (if ip6_addr_ismulticast dst then mcast_ttl (pcb_at u pcb) else ttl (pcb_at u pcb))
                IP_PROTO_UDP netif s n of
           Inl e \<Rightarrow> Inl e
         | Inr (err, q2, s2, n2) \<Rightarrow> Inr (err, q2, s2, u, n2))"
    using udp_sendto_if_src_sends [OF snd, where src = src and dst = dst and dport = dport and uninit = uninit
        and out = out and netif = netif and s = s and n = n] by blast
  have "\<exists>r1. chain_data (r1 # rs) = chain_data (b # bs)
      \<and> udp_input recv unreach (r # rs) inp src dst hlen s' u' n'
        = map_sum id (\<lambda>(s', n'). (s', u'\<lparr>udp_pcbs := ps\<rparr>, n')) (recv cb c (r1 # rs) src (local_port (pcb_at u pcb)) s' n')"
    if r: "chain_ok (r # rs)" "chain_data (r # rs) = chain_data (b' # bs)" "8 \<le> unat (p_len r)" for r rs
  proof -
    have "ip_chksum_pseudo (r # rs) IP_PROTO_UDP (tot_len r) src dst = 0"
      unfolding same_data_verifies(2) [OF r(1) q(1) r(2)] by (rule q(5))
    then show ?thesis
      using udp_input_accepts [OF r(1,3) _ _ rcv, of "tot_len b + 8" ck "chain_data (b # bs)" recv unreach hlen s' n'] r(2) q(4)
      by auto
  qed
  then show ?thesis using send q(1,3) by (intro exI [of _ "b' # bs"] conjI) simp_all
qed

text \<open>
  A sample run: a datagram of three bytes from control block 4 to the group address, with an IP layer that
  records the packet, and a receiver with a callback on port 20010 that records what it gets.
\<close>

definition udp_pkt :: pbuf where
  "udp_pkt = \<lparr>pbuf_addr = 0, pbuf_mem = replicate 8 0 @ [1, 2, 3], payload = 8, tot_len = 3, p_len = 3,
     type_internal = 0x80, p_flags = 0, p_ref = 1, if_idx = 0\<rparr>"

definition udp_snd :: "nat udp_state" where
  "udp_snd = udp_recv 4 (Some 7) (snd (udp_bind 4 (Some IP6_ADDR_ANY) 20010 udp0))"

definition udp_netif :: netif where
  "udp_netif = \<lparr>netif_num = 0, hwaddr = [0, 1, 2, 3, 4, 5], ip6_addrs = [(IP6 0xfe800000 0 0 1, 0x30)],
     netif_is_up = True, netif_is_link_up = True\<rparr>"

lemma udp_snd_simps:
  "local_port (pcb_at udp_snd 4) = 20010" "recv_cb (pcb_at udp_snd 4) = Some 7" "udp_pcbs udp_snd = [4]"
  "udp_input_find (pcb_at udp_snd) i src dst 20010 20010 [] [4] None = (Some 4, [4])"
  "udp_snd\<lparr>udp_pcbs := [4]\<rparr> = udp_snd"
  by (simp_all add: udp_snd_def udp_recv_def udp_bind_def udp0_def udp_bind_to_def Let_def upd_pcb_def
      udp_input_local_match_def)

lemma udp_pkt_ok: "chain_ok [udp_pkt]" "has_headroom udp_pkt" "chain_data [udp_pkt] = [1, 2, 3]"
  by (simp_all add: udp_pkt_def has_headroom_def room_for_def pbuf_bytes_def PBUF_TYPE_FLAG_STRUCT_DATA_CONTIGUOUS_def)

theorem udp_roundtrip_witness:
  "\<forall>s0. \<exists>q r1. udp_sendto_if_src (\<lambda>k. []) (\<lambda>q src dst t p netif s n. Inr (ERR_OK, q, s, q)) 4 [udp_pkt] (IP6 0xff020000 0 0 1) 20010
        udp_netif (IP6 0xfe800000 0 0 1) s0 udp_snd [] = Inr (ERR_OK, q, s0, udp_snd, q)
     \<and> chain_data r1 = [1, 2, 3]
     \<and> udp_input (\<lambda>cb c p a port s n. Inr (s, (cb, p))) (\<lambda>p s n. Inr (s, (0, p))) q udp_netif (IP6 0xfe800000 0 0 1)
          (IP6 0xff020000 0 0 1) 40 s0 udp_snd (0, []) = Inr (s0, udp_snd, (7, r1))"
proof
  fix s0
  have ne: "local_port (pcb_at udp_snd 4) \<noteq> 0" "(4 :: nat) \<noteq> 0" by (simp_all add: udp_snd_simps)
  have rcv: "udp_input_find (pcb_at udp_snd) (netif_num udp_netif + 1) (IP6 0xfe800000 0 0 1) (IP6 0xff020000 0 0 1)
      (local_port (pcb_at udp_snd 4)) 20010 [] (udp_pcbs udp_snd) None = (Some 4, [4])"
    by (simp only: udp_snd_simps)
  note R = udp_roundtrip [where uninit = "\<lambda>k. []" and out = "\<lambda>q src dst t p netif s n. Inr (ERR_OK, q, s, q)"
      and recv = "\<lambda>cb c p a port s n. Inr (s, (cb, p))" and unreach = "\<lambda>p s n. Inr (s, (0, p))"
      and netif = udp_netif and s = s0 and s' = s0 and n = "[]" and n' = "(0, [])" and hlen = 40,
      OF ne(2,1) udp_pkt_ok(1,2) rcv udp_snd_simps(2)]
  from R show "\<exists>q r1. udp_sendto_if_src (\<lambda>k. []) (\<lambda>q src dst t p netif s n. Inr (ERR_OK, q, s, q)) 4 [udp_pkt] (IP6 0xff020000 0 0 1) 20010
        udp_netif (IP6 0xfe800000 0 0 1) s0 udp_snd [] = Inr (ERR_OK, q, s0, udp_snd, q)
     \<and> chain_data r1 = [1, 2, 3]
     \<and> udp_input (\<lambda>cb c p a port s n. Inr (s, (cb, p))) (\<lambda>p s n. Inr (s, (0, p))) q udp_netif (IP6 0xfe800000 0 0 1)
          (IP6 0xff020000 0 0 1) 40 s0 udp_snd (0, []) = Inr (s0, udp_snd, (7, r1))"
  proof (elim exE conjE, goal_cases)
    case (1 q)
    have eq: "hd q # tl q = q" using 1(3) by simp
    have "chain_ok (hd q # tl q) \<and> chain_data (hd q # tl q) = chain_data q \<and> 8 \<le> unat (p_len (hd q))"
      unfolding eq using 1(2,4) by simp
    from 1(5) [rule_format, OF this] obtain r1 where r1: "chain_data (r1 # tl q) = [1, 2, 3]"
      "udp_input (\<lambda>cb c p a port s n. Inr (s, (cb, p))) (\<lambda>p s n. Inr (s, (0, p))) q udp_netif (IP6 0xfe800000 0 0 1)
          (IP6 0xff020000 0 0 1) 40 s0 udp_snd (0, []) = Inr (s0, udp_snd, (7, r1 # tl q))"
      unfolding eq udp_pkt_ok(3) udp_snd_simps(5) map_sum.simps prod.case id_apply by (elim exE conjE)
    then show ?case using 1(1) by (intro exI [of _ q] exI [of _ "r1 # tl q"] conjI) (simp_all only: sum.case prod.case)
  qed
qed

text \<open>
  C14: corruption of one byte. A datagram with a checksum, of which one byte outside the checksum field
  changed on the way, is dropped by \<open>udp_input\<close>: no callback runs, the packet is freed.
\<close>

theorem udp_input_detects_byte_error:
  assumes q: "chain_ok q" "ip_chksum_pseudo q IP_PROTO_UDP (of_nat (length (chain_data q))) src dst = 0"
    and ck: "chain_data q ! 6 \<noteq> 0 \<or> chain_data q ! 7 \<noteq> 0" "i \<noteq> 6" "i \<noteq> 7"
    and x: "i < length (chain_data q)" "x \<noteq> chain_data q ! i"
    and r: "chain_ok (b # bs)" "8 \<le> unat (p_len b)" "chain_data (b # bs) = (chain_data q)[i := x]"
  shows "\<exists>ps. udp_input recv unreach (b # bs) inp src dst hlen s u n = udp_drop (b # bs) s (u\<lparr>udp_pcbs := ps\<rparr>) n"
proof -
  have in_mem: "payload b + unat (p_len b) \<le> length (pbuf_mem b)" using r(1) by simp
  let ?uh = "take 8 (chain_data (b # bs))"
  have "mem_read (pbuf_mem b) (payload b) 8 = Inr ?uh"
    using pbuf_bytes_read [OF in_mem, of 0 8] r(2) length_pbuf_bytes [OF in_mem] by simp
  moreover have "of_be16 (?uh ! 6) (?uh ! 7) \<noteq> 0"
    using ck unfolding r(3) by (auto simp: unat_of_be16 simp flip: unat_eq_0)
  moreover have "ip_chksum_pseudo (b # bs) IP_PROTO_UDP (tot_len b) src dst \<noteq> 0"
  proof -
    let ?h = "pseudo_header src dst (tot_len b) IP_PROTO_UDP"
    have "unat (tot_len b) = length (chain_data (b # bs))" using r(1) length_chain_data [OF r(1)] by simp
    then have "unat (tot_len b) = length (chain_data q)" unfolding r(3) by simp
    then have len: "of_nat (length (chain_data q)) = tot_len b" by (metis of_nat_unat ucast_id)
    have "65535 - ones (word_sum (?h @ chain_data q)) = 0"
      using q(2) ip6_chksum_pseudo_ones [OF q(1), of IP_PROTO_UDP "tot_len b" src dst] unfolding len ip_chksum_pseudo_def by simp
    then have "ones (word_sum (?h @ chain_data q)) = 65535" using ones_le [of "word_sum (?h @ chain_data q)"] by simp
    then have "ones (word_sum ((?h @ chain_data q)[length ?h + i := x])) \<noteq> 65535"
      using x by (intro byte_error) auto
    moreover have "(?h @ chain_data q)[length ?h + i := x] = ?h @ chain_data (b # bs)"
      unfolding r(3) by (simp add: list_update_append)
    ultimately have "unat (ip_chksum_pseudo (b # bs) IP_PROTO_UDP (tot_len b) src dst) \<noteq> 0"
      using ones_le [of "word_sum (?h @ chain_data (b # bs))"]
      unfolding ip_chksum_pseudo_def ip6_chksum_pseudo_ones [OF r(1)] by simp
    then show ?thesis by (metis unat_0)
  qed
  ultimately show ?thesis
    using r(2) by (auto simp: udp_input_def UDP_HLEN_def Let_def split: prod.splits)
qed

definition udp_good :: "u8 \<Rightarrow> pbuf" where
  "udp_good x = \<lparr>pbuf_addr = 0, pbuf_mem = [0x4e, 0x2a, 0x4e, 0x2a, 0, 11, 0x61, 0xfc, 1, x, 3], payload = 0, tot_len = 11,
     p_len = 11, type_internal = 0x80, p_flags = 0, p_ref = 1, if_idx = 0\<rparr>"

theorem udp_input_detects_byte_error_witness:
  "\<forall>s0. \<exists>ps. udp_input (\<lambda>cb c p a port s n. Inr (s, Some cb)) (\<lambda>p s n. Inr (s, n)) [udp_good 6] udp_netif (IP6 0xfe800000 0 0 1)
      (IP6 0xff020000 0 0 1) 40 s0 udp_snd None = udp_drop [udp_good 6] s0 (udp_snd\<lparr>udp_pcbs := ps\<rparr>) None"
proof
  fix s0
  have q: "chain_ok [udp_good x]" "chain_data [udp_good x] = [0x4e, 0x2a, 0x4e, 0x2a, 0, 11, 0x61, 0xfc, 1, x, 3]" for x
    by (simp_all add: udp_good_def pbuf_bytes_def)
  have "unat (ip_chksum_pseudo [udp_good 2] IP_PROTO_UDP 11 (IP6 0xfe800000 0 0 1) (IP6 0xff020000 0 0 1)) = 0"
    unfolding ip_chksum_pseudo_def ip6_chksum_pseudo_ones [OF q(1)] q(2)
    by (simp add: pseudo_header_def be32_def ones_def IP_PROTO_UDP_def)
  then have ck: "ip_chksum_pseudo [udp_good 2] IP_PROTO_UDP (of_nat (length (chain_data [udp_good 2])))
      (IP6 0xfe800000 0 0 1) (IP6 0xff020000 0 0 1) = 0"
    unfolding q(2) by (simp add: unat_eq_0)
  have len: "8 \<le> unat (p_len (udp_good 6))" by (simp add: udp_good_def)
  have upd: "chain_data [udp_good 6] = (chain_data [udp_good 2])[9 := 6]" unfolding q(2) by simp
  show "\<exists>ps. udp_input (\<lambda>cb c p a port s n. Inr (s, Some cb)) (\<lambda>p s n. Inr (s, n)) [udp_good 6] udp_netif (IP6 0xfe800000 0 0 1)
      (IP6 0xff020000 0 0 1) 40 s0 udp_snd None = udp_drop [udp_good 6] s0 (udp_snd\<lparr>udp_pcbs := ps\<rparr>) None"
    by (rule udp_input_detects_byte_error [OF q(1) ck _ _ _ _ _ q(1) len upd]) (simp_all add: q(2) del: chain_data_simps)
qed

end
