(* ===== verification/Network.thy ===== *)
theory Network
  imports Gateway Udp_Io
begin

text \<open>
  The gateway on top of UDP: \<open>udp_sendto\<close> as the function that \<open>transmit_udp_frame\<close> calls, and the
  receive callbacks of \<open>udp_input\<close> bound to the protocol handles. \<open>ip_output_if_src\<close> is an argument; the
  properties follow a CAN frame from the receive queue of one gateway into the transmit queue of another.
\<close>

section \<open>Definitions\<close>

text \<open>\<open>transmit_udp_frame\<close> ignores the error code of \<open>udp_sendto\<close>.\<close>

definition gw_sendto :: "(nat \<Rightarrow> bytes) \<Rightarrow> 'h gw_net ip_output_fn \<Rightarrow> netif option \<Rightarrow> 'h gw_net sendto_fn" where
  "gw_sendto uninit out netif_default pcb p dst_ip dst_port s n =
     map_sum id (\<lambda>(err, c, s', u, n'). (c, s', n'\<lparr>gw_udp := u\<rparr>))
       (udp_sendto uninit out netif_default pcb p dst_ip dst_port s (gw_udp n) n)"

text \<open>The callbacks that the program registers; \<open>mdns\<close> is the one of the mDNS responder.\<close>

definition gw_recv :: "(nat \<Rightarrow> chain \<Rightarrow> ip6_addr \<Rightarrow> u16 \<Rightarrow> alloc_state \<Rightarrow> 'h gateway \<Rightarrow> (alloc_state \<times> 'h gateway) result) \<Rightarrow>
    (recv_fn, 'h gateway) udp_recv_fn" where
  "gw_recv mdns cb pcb p addr port s g =
     (case cb of
        Mdns_recv \<Rightarrow> mdns pcb p addr port s g
      | Handle_cannelloni_frame i \<Rightarrow>
          map_sum id (\<lambda>g'. (gw_alloc g', g')) (recv_datagram i p (g\<lparr>gw_alloc := s\<rparr>)))"

definition gw_udp_input ::
  "(nat \<Rightarrow> chain \<Rightarrow> ip6_addr \<Rightarrow> u16 \<Rightarrow> alloc_state \<Rightarrow> 'h gateway \<Rightarrow> (alloc_state \<times> 'h gateway) result) \<Rightarrow>
   'h gateway unreach_fn \<Rightarrow> chain \<Rightarrow> netif \<Rightarrow> ip6_addr \<Rightarrow> ip6_addr \<Rightarrow> u16 \<Rightarrow> 'h gateway \<Rightarrow> 'h gateway result" where
  "gw_udp_input mdns unreach p inp src dst hlen g =
     map_sum id (\<lambda>(s, u, g'). g'\<lparr>gw_alloc := s, gw_net := (gw_net g')\<lparr>gw_udp := u\<rparr>\<rparr>)
       (udp_input (gw_recv mdns) unreach p inp src dst hlen (gw_alloc g) (gw_udp (gw_net g)) g)"

section \<open>UDP as the sender's network\<close>

text \<open>What \<open>ip_output_if_src\<close> promises: it returns, and the caller still holds the packet.\<close>

definition ip_out_ok :: "'n ip_output_fn \<Rightarrow> bool" where
  "ip_out_ok out \<longleftrightarrow>
     (\<forall>q src dst t proto nif s n. heap_ok (al_heap s) \<and> chain_ok [q] \<and> 68 \<le> payload q \<and> type_internal q = 0x80 \<and> p_ref q = 1
        \<and> live (al_heap s) (pbuf_addr q) \<noteq> None \<longrightarrow>
        (\<exists>err q' s' n'. out [q] src dst t proto nif s n = Inr (err, [q'], s', n') \<and> heap_ok (al_heap s')
          \<and> pbuf_addr q' = pbuf_addr q \<and> pbuf_get_allocsrc q' = 0
          \<and> live (al_heap s') (pbuf_addr q) \<noteq> None \<and> (p_ref q' = 1 \<or> p_ref q' = 2)))"

lemma tx_packet_headroom: "tx_packet p \<Longrightarrow> has_headroom p"
  by (simp add: tx_packet_def has_headroom_def room_for_def PBUF_TYPE_FLAG_STRUCT_DATA_CONTIGUOUS_def)

definition keeps_packet :: "pbuf \<Rightarrow> (err_t \<times> chain \<times> alloc_state \<times> 'cb udp_state \<times> 'n) result \<Rightarrow> bool" where
  "keeps_packet p r \<longleftrightarrow> (\<exists>err p' s' u' n'. r = Inr (err, [p'], s', u', n') \<and> heap_ok (al_heap s') \<and> pbuf_addr p' = pbuf_addr p
     \<and> pbuf_get_allocsrc p' = 0 \<and> live (al_heap s') (pbuf_addr p) \<noteq> None \<and> (p_ref p' = 1 \<or> p_ref p' = 2))"

lemma keeps_same:
  "tx_packet p \<Longrightarrow> heap_ok (al_heap s) \<Longrightarrow> live (al_heap s) (pbuf_addr p) \<noteq> None \<Longrightarrow> keeps_packet p (Inr (err, [p], s, u, n))"
  by (simp add: keeps_packet_def tx_packet_simps)

lemma udp_sendto_if_src_keeps:
  assumes "ip_out_ok out" "tx_packet p" "heap_ok (al_heap s)" "live (al_heap s) (pbuf_addr p) \<noteq> None" "pcb \<noteq> 0"
  shows "keeps_packet p (udp_sendto_if_src uninit out pcb [p] dst dport nif src s u n)"
proof -
  from udp_sendto_if_src_cases [OF assms(5) tx_packet_simps(1) [OF assms(2)] tx_packet_headroom [OF assms(2)],
      of uninit out dst dport nif src s u n] show ?thesis
  proof (elim disjE exE conjE)
    fix err u1
    assume "udp_sendto_if_src uninit out pcb [p] dst dport nif src s u n = Inr (err, [p], s, u1, n)"
    then show ?thesis using keeps_same [OF assms(2-4)] by simp
  next
    fix b' u1 t
    assume b': "chain_ok [b']" "p_ref b' = p_ref p" "pbuf_addr b' = pbuf_addr p" "type_internal b' = type_internal p"
        "payload b' = payload p - 8"
      and eq: "udp_sendto_if_src uninit out pcb [p] dst dport nif src s u n =
          (case out [b'] src dst t IP_PROTO_UDP nif s n of
             Inl e \<Rightarrow> Inl e | Inr (err, q2, s2, n2) \<Rightarrow> Inr (err, q2, s2, u1, n2))"
    have "heap_ok (al_heap s) \<and> chain_ok [b'] \<and> 68 \<le> payload b' \<and> type_internal b' = 0x80 \<and> p_ref b' = 1
        \<and> live (al_heap s) (pbuf_addr b') \<noteq> None"
      using assms(3,4) b' assms(2) by (simp add: tx_packet_def)
    note assms(1) [unfolded ip_out_ok_def, rule_format, OF this, of src dst t IP_PROTO_UDP nif n]
    then show ?thesis using eq b'(3) by (auto simp: keeps_packet_def)
  qed
qed

lemma gw_sendto_ok:
  assumes "ip_out_ok out"
  shows "sendto_ok (gw_sendto uninit out nd)"
proof -
  have "keeps_packet p (udp_sendto uninit out nd pcb [p] a port al u n)"
    if p: "heap_ok (al_heap al)" "tx_packet p" "live (al_heap al) (pbuf_addr p) \<noteq> None" for pcb p a port al u n
    by (auto simp: udp_sendto_def udp_sendto_if_def Let_def keeps_same [OF p(2,1,3)] udp_sendto_if_src_keeps [OF assms p(2,1,3)]
        split: option.splits)
  note keep = this [unfolded keeps_packet_def]
  show ?thesis
    unfolding sendto_ok_def
  proof (intro allI impI, elim conjE, goal_cases)
    case (1 pcb p a port al net)
    from keep [OF 1, of pcb a port "gw_udp net" net] show ?case by (elim exE conjE) (simp add: gw_sendto_def)
  qed
qed

section \<open>From gateway to gateway\<close>

lemma pbuf_free_same:
  assumes "p_ref r = 1" "p_ref b = p_ref r" "pbuf_addr b = pbuf_addr r" "type_internal b = type_internal r"
    and "dealloc_pbuf r s = Inr s'"
  shows "pbuf_free [b] s = Inr (1, [], s')"
proof -
  have "dealloc_pbuf b s = dealloc_pbuf r s" by (simp only: dealloc_pbuf_def pbuf_get_allocsrc_def assms(3,4))
  then show ?thesis using assms by (simp add: pbuf_free_def)
qed

text \<open>A handle that can send: a bound control block, a route and a source address.\<close>

definition can_reach :: "'h gw_net cnl_state \<Rightarrow> netif option \<Rightarrow> netif \<Rightarrow> ip6_addr \<Rightarrow> bool" where
  "can_reach s nd nif src \<longleftrightarrow>
     (let c = pcb_at (gw_udp (cs_net s)) (cnl_pcb (cs_handle s)) in
      cnl_pcb (cs_handle s) \<noteq> 0 \<and> local_port c \<noteq> 0 \<and> local_ip c = IP6_ADDR_ANY \<and> netif_idx c = 0 \<and> mcast_ifindex c = 0
      \<and> ip6_route nd = Some nif \<and> ip6_select_source_address nif (init_addr (cs_handle s)) = Some src)"

lemma gw_sendto_reaches:
  assumes "can_reach s nd nif src" "tx_packet p"
  defines "c \<equiv> pcb_at (gw_udp (cs_net s)) (cnl_pcb (cs_handle s))" and "dst \<equiv> init_addr (cs_handle s)"
  shows "\<exists>q ck t. chain_ok [q] \<and> 8 \<le> unat (p_len q) \<and> room_for 54 q \<and> p_ref q = 1 \<and> unat (tot_len q) < 1208
    \<and> chain_data [q] = udp_packet (local_port c) (init_remote_port (cs_handle s)) (tot_len p + 8) ck (chain_data [p])
    \<and> ip_chksum_pseudo [q] IP_PROTO_UDP (tot_len q) src dst = 0
    \<and> gw_sendto uninit out nd (cnl_pcb (cs_handle s)) [p] dst (init_remote_port (cs_handle s)) al (cs_net s) =
      (case out [q] src dst t IP_PROTO_UDP nif al (cs_net s) of
         Inl e \<Rightarrow> Inl e
       | Inr (err, q2, s2, n2) \<Rightarrow> Inr (q2, s2, n2\<lparr>gw_udp := gw_udp (cs_net s)\<rparr>))"
proof -
  let ?u = "gw_udp (cs_net s)" and ?pcb = "cnl_pcb (cs_handle s)" and ?port = "init_remote_port (cs_handle s)"
  have r: "?pcb \<noteq> 0" "local_port (pcb_at ?u ?pcb) \<noteq> 0" "local_ip (pcb_at ?u ?pcb) = IP6_ADDR_ANY" "netif_idx (pcb_at ?u ?pcb) = 0"
      "mcast_ifindex (pcb_at ?u ?pcb) = 0" "ip6_route nd = Some nif" "ip6_select_source_address nif dst = Some src"
    using assms(1) by (auto simp: can_reach_def dst_def Let_def)
  obtain q ck where q: "chain_ok [q]" "8 \<le> unat (p_len q)"
      "chain_data [q] = udp_packet (local_port (pcb_at ?u ?pcb)) ?port (tot_len p + 8) ck (chain_data [p])"
      "ip_chksum_pseudo [q] IP_PROTO_UDP (tot_len q) src dst = 0"
      "p_ref q = p_ref p" "type_internal q = type_internal p" "payload q = payload p - 8" "tot_len q = tot_len p + 8"
    and send: "udp_sendto_if_src uninit out ?pcb [p] dst ?port nif src al ?u (cs_net s) =
        (case out [q] src dst (if ip6_addr_ismulticast dst then mcast_ttl (pcb_at ?u ?pcb) else ttl (pcb_at ?u ?pcb))
                IP_PROTO_UDP nif al (cs_net s) of
           Inl e \<Rightarrow> Inl e
         | Inr (err, q2, s2, n2) \<Rightarrow> Inr (err, q2, s2, ?u, n2))"
    using udp_sendto_if_src_sends [OF r(1,2) tx_packet_simps(1) [OF assms(2)] tx_packet_headroom [OF assms(2)],
        where dport = ?port and src = src and dst = dst and uninit = uninit and out = out and netif = nif and s = al and n = "cs_net s"]
    by blast
  have "udp_sendto uninit out nd ?pcb [p] dst ?port al ?u (cs_net s) = udp_sendto_if_src uninit out ?pcb [p] dst ?port nif src al ?u (cs_net s)"
    using r by (simp add: udp_sendto_def udp_sendto_if_def udp_route_def Let_def)
  then have "gw_sendto uninit out nd ?pcb [p] dst ?port al (cs_net s) =
      (case out [q] src dst (if ip6_addr_ismulticast dst then mcast_ttl (pcb_at ?u ?pcb) else ttl (pcb_at ?u ?pcb))
              IP_PROTO_UDP nif al (cs_net s) of
         Inl e \<Rightarrow> Inl e
       | Inr (err, q2, s2, n2) \<Rightarrow> Inr (q2, s2, n2\<lparr>gw_udp := ?u\<rparr>))"
    unfolding gw_sendto_def send by (auto split: sum.splits prod.splits)
  moreover have "room_for 54 q" "p_ref q = 1" "unat (tot_len q) < 1208"
  proof -
    have "unat (tot_len q) = unat (tot_len p) + 8" using assms(2) unfolding q(8) by (simp add: tx_packet_def unat_word_ariths)
    then show "room_for 54 q" "p_ref q = 1" "unat (tot_len q) < 1208"
      using assms(2) q(5-7) by (simp_all add: tx_packet_def room_for_def PBUF_TYPE_FLAG_STRUCT_DATA_CONTIGUOUS_def)
  qed
  ultimately show ?thesis using q(1-4) unfolding c_def by blast
qed

text \<open>A control block of the receiving gateway that listens for interface \<open>i\<close>.\<close>

definition listens :: "'h gateway \<Rightarrow> nat \<Rightarrow> u16 \<Rightarrow> nat \<Rightarrow> bool" where
  "listens g c port i \<longleftrightarrow>
     (let u = gw_udp (gw_net g) in
      ports_ok u \<and> c \<in> set (udp_pcbs u) \<and> local_port (pcb_at u c) = port \<and> local_ip (pcb_at u c) = IP6_ADDR_ANY
      \<and> netif_idx (pcb_at u c) = 0 \<and> udp_flags (pcb_at u c) AND UDP_FLAGS_CONNECTED = 0
      \<and> recv_cb (pcb_at u c) = Some (Handle_cannelloni_frame i))"

definition tx_room :: "nat \<Rightarrow> 'h gateway \<Rightarrow> nat" where
  "tx_room i g = unat (q_count (tx_queue (cannelloni (can_interfaces g ! i)))) - 1 - length (tx_frames (iface_state i g))"

lemma udp_input_frames:
  assumes g: "gw_ok (g\<lparr>gw_alloc := s\<rparr>)" "i < CAN_IFACES" "listens g c dport i"
    and r: "chain_ok [r]" "8 \<le> unat (p_len r)" "chain_data [r] = udp_packet sport dport len ck (encode_packet seq fs)"
      "ip_chksum_pseudo [r] IP_PROTO_UDP (tot_len r) src dst = 0" "p_ref r = 1" "dealloc_pbuf r s = Inr al"
    and fs: "\<forall>f \<in> set fs. plain_frame f" "0 < length fs" "length fs < 65536"
  shows "\<exists>g' ps. udp_input (gw_recv mdns) unreach [r] inp src dst hlen s (gw_udp (gw_net g)) g = Inr (al, (gw_udp (gw_net g))\<lparr>udp_pcbs := ps\<rparr>, g')
    \<and> gw_alloc g' = al \<and> map frame_view (tx_frames (iface_state i g')) = map frame_view (tx_frames (iface_state i g))
        @ map frame_view (take (tx_room i g) fs)"
proof -
  let ?u = "gw_udp (gw_net g)" and ?g = "g\<lparr>gw_alloc := s\<rparr>"
  have l: "ports_ok ?u" "c \<in> set (udp_pcbs ?u)" "local_port (pcb_at ?u c) = dport" "local_ip (pcb_at ?u c) = IP6_ADDR_ANY"
      "netif_idx (pcb_at ?u c) = 0" "udp_flags (pcb_at ?u c) AND UDP_FLAGS_CONNECTED = 0"
      "recv_cb (pcb_at ?u c) = Some (Handle_cannelloni_frame i)"
    using g(3) by (simp_all add: listens_def Let_def)
  obtain ps where find: "udp_input_find (pcb_at ?u) (netif_num inp + 1) src dst sport dport [] (udp_pcbs ?u) None = (Some c, ps)"
    using udp_find_listener [OF l(1-6)] by blast
  obtain b where b: "chain_ok [b]" "chain_data [b] = encode_packet seq fs" "p_ref b = p_ref r" "pbuf_addr b = pbuf_addr r"
      "type_internal b = type_internal r"
    and inp: "udp_input (gw_recv mdns) unreach [r] inp src dst hlen s ?u g
      = map_sum id (\<lambda>(s', n'). (s', ?u\<lparr>udp_pcbs := ps\<rparr>, n')) (gw_recv mdns (Handle_cannelloni_frame i) c [b] src sport s g)"
    using udp_input_accepts [OF r(1-3) disjI2 [OF r(4)] find l(7), of "gw_recv mdns" unreach hlen s g] by blast
  have free: "pbuf_free [b] (cs_alloc (iface_state i ?g)) = Inr (1, [], al)"
    using pbuf_free_same [OF r(5) b(3-5) r(6)] by (simp add: iface_state_def)
  have len: "length (can_interfaces g) = CAN_IFACES" using g(1) by (simp add: gw_ok_def)
  have ok: "cnl_ok (iface_state i ?g)" using g by (auto simp: gw_ok_def cnl_ok_def iface_state_def)
  have dat: "pbuf_bytes b = encode_packet seq fs" using b(2) by simp
  obtain s' where s': "handle_cannelloni_frame [b] (iface_state i ?g) = Inr s'" "cs_alloc s' = al"
      "map frame_view (tx_frames s') = map frame_view (tx_frames (iface_state i ?g)) @ map frame_view
         (take (unat (q_count (tx_queue (cs_handle (iface_state i ?g)))) - 1 - length (tx_frames (iface_state i ?g))) fs)"
    using handle_frame_ok [OF ok b(1) dat fs free] by blast
  let ?g1 = "put_iface i s' ?g"
  have "gw_recv mdns (Handle_cannelloni_frame i) c [b] src sport s g = Inr (gw_alloc ?g1, ?g1)"
    unfolding gw_recv_def recv_datagram_def using s'(1) by simp
  moreover have "gw_alloc ?g1 = al" using s'(2) by (simp add: put_iface_def)
  ultimately have "udp_input (gw_recv mdns) unreach [r] inp src dst hlen s ?u g = Inr (al, ?u\<lparr>udp_pcbs := ps\<rparr>, ?g1)" unfolding inp by simp
  moreover have "tx_frames (iface_state i ?g1) = tx_frames s'"
    using g(2) len by (simp add: tx_frames_def iface_state_def put_iface_def)
  ultimately show ?thesis using s'(3) \<open>gw_alloc ?g1 = al\<close> by (intro exI [of _ ?g1] exI [of _ ps]) (simp add: tx_room_def iface_state_def tx_frames_def)
qed

lemma gw_udp_input_frames:
  assumes g: "gw_ok g" "i < CAN_IFACES" "listens g c dport i"
    and r: "chain_ok [r]" "8 \<le> unat (p_len r)" "chain_data [r] = udp_packet sport dport len ck (encode_packet seq fs)"
      "ip_chksum_pseudo [r] IP_PROTO_UDP (tot_len r) src dst = 0" "p_ref r = 1" "dealloc_pbuf r (gw_alloc g) = Inr al"
    and fs: "\<forall>f \<in> set fs. plain_frame f" "0 < length fs" "length fs < 65536"
  shows "\<exists>g'. gw_udp_input mdns unreach [r] inp src dst hlen g = Inr g' \<and> gw_alloc g' = al
    \<and> map frame_view (tx_frames (iface_state i g')) = map frame_view (tx_frames (iface_state i g))
        @ map frame_view (take (tx_room i g) fs)"
proof -
  have "gw_ok (g\<lparr>gw_alloc := gw_alloc g\<rparr>)" using g(1) by simp
  from udp_input_frames [OF this g(2,3) r fs, of mdns unreach inp hlen] obtain g' ps where
    "udp_input (gw_recv mdns) unreach [r] inp src dst hlen (gw_alloc g) (gw_udp (gw_net g)) g = Inr (al, (gw_udp (gw_net g))\<lparr>udp_pcbs := ps\<rparr>, g')"
    "map frame_view (tx_frames (iface_state i g')) = map frame_view (tx_frames (iface_state i g)) @ map frame_view (take (tx_room i g) fs)"
    by blast
  then show ?thesis by (simp add: gw_udp_input_def tx_frames_def iface_state_def)
qed

section \<open>Properties\<close>

lemma packet_frames_plain:
  assumes "\<forall>f \<in> set (rx_frames s). plain_frame f" "rx_frames s \<noteq> []"
  shows "\<forall>f \<in> set (packet_frames s). plain_frame f" "0 < length (packet_frames s)" "length (packet_frames s) < 65536"
proof -
  let ?fs = "packet_frames s"
  have wf: "\<forall>f \<in> set (rx_frames s). frame_wf f" using assms(1) by (auto simp: plain_frame_def)
  have "?fs = take (length ?fs) (rx_frames s)" unfolding packet_frames_def by (rule fitting_prefix)
  then show "\<forall>f \<in> set ?fs. plain_frame f" using assms(1) by (metis in_set_takeD)
  obtain f fs' where "rx_frames s = f # fs'" using assms(2) by (cases "rx_frames s") auto
  then show ne: "0 < length ?fs" using fitting_ne [of f fs'] wf by (simp add: packet_frames_def)
  have bound: "length xs \<le> length (concat (map encode_frame xs))" for xs by (induction xs) (auto simp: encode_frame_def)
  have "length (concat (map encode_frame ?fs)) < 1200"
    using fitting_size [of "rx_frames s" 1200 5] wf ne by (simp add: packet_frames_def)
  then show "length ?fs < 65536" using bound [of ?fs] by linarith
qed

lemma transmit_hands_over:
  fixes s :: "'h gw_net cnl_state"
  assumes s: "cnl_ok s" "\<forall>f \<in> set (rx_frames s). plain_frame f" "rx_frames s \<noteq> []" "fresh_ok uninit"
      "pbuf_alloc uninit PBUF_TRANSPORT 1200 PBUF_RAM (cs_alloc s) \<noteq> Inr ([], cs_alloc s)" "can_reach s nd nif src"
  defines "h \<equiv> cs_handle s"
  shows "\<exists>q len ck t al rq. chain_ok [q] \<and> 8 \<le> unat (p_len q) \<and> room_for 54 q \<and> p_ref q = 1 \<and> unat (tot_len q) < 1208
    \<and> chain_data [q] = udp_packet (local_port (pcb_at (gw_udp (cs_net s)) (cnl_pcb h))) (init_remote_port h) len ck
        (encode_packet (ucast (sequence_number h)) (packet_frames s))
    \<and> ip_chksum_pseudo [q] IP_PROTO_UDP (tot_len q) src (init_addr h) = 0
    \<and> transmit_udp_frame uninit (gw_sendto uninit out nd) s =
        (case out [q] src (init_addr h) t IP_PROTO_UDP nif al (cs_net s) of
           Inl e \<Rightarrow> Inl e
         | Inr (err, q2, s2, n2) \<Rightarrow>
             (case pbuf_free q2 s2 of
                Inl e \<Rightarrow> Inl e
              | Inr (n, rest, al'') \<Rightarrow>
                  Inr (length (packet_frames s) < length (rx_frames s),
                    s\<lparr>cs_handle := h\<lparr>rx_queue := rq, sequence_number := sequence_number h + 1\<rparr>,
                      cs_alloc := al'', cs_net := n2\<lparr>gw_udp := gw_udp (cs_net s)\<rparr>\<rparr>)))
    \<and> queue_contents (cs_frames s) rq = drop (length (packet_frames s)) (rx_frames s)"
proof -
  let ?fs = "packet_frames s"
  have wf: "\<forall>f \<in> set (rx_frames s). frame_wf f" using s(2) by (auto simp: plain_frame_def)
  from transmit_udp_frame_packet [OF s(1) wf s(4,3), of "gw_sendto uninit out nd"] s(5)
  obtain p al rq where p: "tx_packet p" "chain_data [p] = encode_packet (ucast (sequence_number h)) ?fs"
    and rq: "queue_contents (cs_frames s) rq = drop (length ?fs) (rx_frames s)"
    and t: "transmit_udp_frame uninit (gw_sendto uninit out nd) s =
        (case gw_sendto uninit out nd (cnl_pcb h) [p] (init_addr h) (init_remote_port h) al (cs_net s) of
           Inl e \<Rightarrow> Inl e
         | Inr (c, al', net) \<Rightarrow>
             (case pbuf_free c al' of
                Inl e \<Rightarrow> Inl e
              | Inr (n, rest, al'') \<Rightarrow>
                  Inr (length ?fs < length (rx_frames s),
                    s\<lparr>cs_handle := h\<lparr>rx_queue := rq, sequence_number := sequence_number h + 1\<rparr>,
                      cs_alloc := al'', cs_net := net\<rparr>)))"
    unfolding h_def by blast
  obtain q ck tt where q: "chain_ok [q]" "8 \<le> unat (p_len q)" "room_for 54 q" "p_ref q = 1" "unat (tot_len q) < 1208"
      "chain_data [q] = udp_packet (local_port (pcb_at (gw_udp (cs_net s)) (cnl_pcb h))) (init_remote_port h) (tot_len p + 8) ck (chain_data [p])"
      "ip_chksum_pseudo [q] IP_PROTO_UDP (tot_len q) src (init_addr h) = 0"
    and send: "gw_sendto uninit out nd (cnl_pcb h) [p] (init_addr h) (init_remote_port h) al (cs_net s) =
      (case out [q] src (init_addr h) tt IP_PROTO_UDP nif al (cs_net s) of
         Inl e \<Rightarrow> Inl e
       | Inr (err, q2, s2, n2) \<Rightarrow> Inr (q2, s2, n2\<lparr>gw_udp := gw_udp (cs_net s)\<rparr>))"
    using gw_sendto_reaches [OF s(6) p(1), of uninit out al] unfolding h_def by blast
  show ?thesis
    apply (rule exI [of _ q], rule exI [of _ "tot_len p + 8"], rule exI [of _ ck], rule exI [of _ tt], rule exI [of _ al], rule exI [of _ rq])
    using q(1-5,7) q(6) [unfolded p(2)] rq unfolding t send by (auto split: sum.splits prod.splits)
qed

text \<open>
  The gateway end to end. When \<open>transmit_udp_frame\<close> has memory for a datagram, it hands to IP one UDP
  packet such that any other gateway which gets the same bytes in one pbuf, on an interface that
  listens on the port, appends exactly the packed CAN frames (identifier, length and data), in order
  and as far as there is room, to the transmit queue of that interface and releases the buffer.
\<close>

theorem gateway_end_to_end:
  fixes s :: "'h gw_net cnl_state" and g :: "'k gateway"
  assumes s: "cnl_ok s" "\<forall>f \<in> set (rx_frames s). plain_frame f" "rx_frames s \<noteq> []" "fresh_ok uninit"
      "pbuf_alloc uninit PBUF_TRANSPORT 1200 PBUF_RAM (cs_alloc s) \<noteq> Inr ([], cs_alloc s)" "can_reach s nd nif src"
    and g: "gw_ok g" "i < CAN_IFACES" "listens g c (init_remote_port (cs_handle s)) i"
  shows "\<exists>q t al rq. chain_ok [q]
    \<and> transmit_udp_frame uninit (gw_sendto uninit out nd) s =
        (case out [q] src (init_addr (cs_handle s)) t IP_PROTO_UDP nif al (cs_net s) of
           Inl e \<Rightarrow> Inl e
         | Inr (err, q2, s2, n2) \<Rightarrow>
             (case pbuf_free q2 s2 of
                Inl e \<Rightarrow> Inl e
              | Inr (n, rest, al'') \<Rightarrow>
                  Inr (length (packet_frames s) < length (rx_frames s),
                    s\<lparr>cs_handle := (cs_handle s)\<lparr>rx_queue := rq, sequence_number := sequence_number (cs_handle s) + 1\<rparr>,
                      cs_alloc := al'', cs_net := n2\<lparr>gw_udp := gw_udp (cs_net s)\<rparr>\<rparr>)))
    \<and> queue_contents (cs_frames s) rq = drop (length (packet_frames s)) (rx_frames s) \<and> packet_frames s \<noteq> []
    \<and> (\<forall>r al. chain_ok [r] \<and> chain_data [r] = chain_data [q] \<and> p_ref r = 1 \<and> dealloc_pbuf r (gw_alloc g) = Inr al \<longrightarrow>
         (\<exists>g'. gw_udp_input mdns unreach [r] inp src (init_addr (cs_handle s)) hlen g = Inr g' \<and> gw_alloc g' = al
           \<and> map frame_view (tx_frames (iface_state i g')) = map frame_view (tx_frames (iface_state i g))
               @ map frame_view (take (tx_room i g) (packet_frames s))))"
proof -
  let ?fs = "packet_frames s" and ?h = "cs_handle s"
  note plain = packet_frames_plain(1) [OF s(2,3)] and ne = packet_frames_plain(2) [OF s(2,3)] and small = packet_frames_plain(3) [OF s(2,3)]
  from transmit_hands_over [OF s, of out] obtain q len ck tt al rq where q: "chain_ok [q]" "8 \<le> unat (p_len q)"
      "chain_data [q] = udp_packet (local_port (pcb_at (gw_udp (cs_net s)) (cnl_pcb ?h))) (init_remote_port ?h) len ck
        (encode_packet (ucast (sequence_number ?h)) ?fs)"
      "ip_chksum_pseudo [q] IP_PROTO_UDP (tot_len q) src (init_addr ?h) = 0"
    and t: "transmit_udp_frame uninit (gw_sendto uninit out nd) s =
        (case out [q] src (init_addr ?h) tt IP_PROTO_UDP nif al (cs_net s) of
           Inl e \<Rightarrow> Inl e
         | Inr (err, q2, s2, n2) \<Rightarrow>
             (case pbuf_free q2 s2 of
                Inl e \<Rightarrow> Inl e
              | Inr (n, rest, al'') \<Rightarrow>
                  Inr (length ?fs < length (rx_frames s),
                    s\<lparr>cs_handle := ?h\<lparr>rx_queue := rq, sequence_number := sequence_number ?h + 1\<rparr>,
                      cs_alloc := al'', cs_net := n2\<lparr>gw_udp := gw_udp (cs_net s)\<rparr>\<rparr>)))"
    and rq: "queue_contents (cs_frames s) rq = drop (length ?fs) (rx_frames s)"
    by (elim exE conjE)
  have recv: "\<exists>g'. gw_udp_input mdns unreach [r] inp src (init_addr ?h) hlen g = Inr g' \<and> gw_alloc g' = al'
      \<and> map frame_view (tx_frames (iface_state i g')) = map frame_view (tx_frames (iface_state i g)) @ map frame_view (take (tx_room i g) ?fs)"
    if r: "chain_ok [r]" "chain_data [r] = chain_data [q]" "p_ref r = 1" "dealloc_pbuf r (gw_alloc g) = Inr al'" for r al'
  proof (rule gw_udp_input_frames [OF g r(1) _ _ _ r(3,4) plain ne small])
    note same = same_data_verifies [OF r(1) q(1) r(2)]
    show "8 \<le> unat (p_len r)"
    proof -
      have "unat (p_len r) = unat (tot_len r)" "unat (p_len q) = unat (tot_len q)" using r(1) q(1) by simp_all
      then show ?thesis using q(2) same(1) by simp
    qed
    show "ip_chksum_pseudo [r] IP_PROTO_UDP (tot_len r) src (init_addr ?h) = 0" unfolding same(2) by (rule q(4))
    show "chain_data [r] = udp_packet (local_port (pcb_at (gw_udp (cs_net s)) (cnl_pcb ?h))) (init_remote_port ?h) len ck
        (encode_packet (ucast (sequence_number ?h)) ?fs)"
      unfolding r(2) q(3) ..
  qed
  show ?thesis
    apply (rule exI [of _ q], rule exI [of _ tt], rule exI [of _ al], rule exI [of _ rq])
    using q(1) rq ne recv t by auto
qed


text \<open>
  C38: an interface without a control block. A handle whose \<open>udp_new\<close> failed, as that of the fourth interface,
  packs the received CAN frames into datagrams that \<open>udp_sendto\<close> refuses: the frames leave the queue, no
  function of the network is called, and nothing reports the loss.
\<close>

theorem unbound_interface_loses_frames:
  fixes s :: "'h gw_net cnl_state"
  assumes "cnl_ok s" "\<forall>f \<in> set (rx_frames s). frame_wf f" "fresh_ok uninit" "rx_frames s \<noteq> []"
      "pbuf_alloc uninit PBUF_TRANSPORT 1200 PBUF_RAM (cs_alloc s) \<noteq> Inr ([], cs_alloc s)"
    and "cnl_pcb (cs_handle s) = 0"
  shows "\<exists>s'. transmit_udp_frame uninit (gw_sendto uninit out nd) s = Inr (length (packet_frames s) < length (rx_frames s), s')
    \<and> cs_net s' = cs_net s \<and> packet_frames s \<noteq> [] \<and> rx_frames s = packet_frames s @ rx_frames s'"
proof -
  let ?fs = "packet_frames s"
  have send: "gw_sendto uninit out nd (cnl_pcb (cs_handle s)) [p] a port al (cs_net s) = Inr ([p], al, cs_net s)" for p a port al
    unfolding assms(6) by (simp add: gw_sendto_def udp_sendto_def)
  from transmit_udp_frame_packet [OF assms(1-4), of "gw_sendto uninit out nd"] assms(5)
  obtain p al q k where p: "tx_packet p" "heap_ok (al_heap al)" "live (al_heap al) = (live (al_heap (cs_alloc s)))(pbuf_addr p \<mapsto> k)"
    and q: "queue_contents (cs_frames s) q = drop (length ?fs) (rx_frames s)"
    and t: "transmit_udp_frame uninit (gw_sendto uninit out nd) s =
        (case gw_sendto uninit out nd (cnl_pcb (cs_handle s)) [p] (init_addr (cs_handle s)) (init_remote_port (cs_handle s)) al (cs_net s) of
           Inl e \<Rightarrow> Inl e
         | Inr (c, al', net) \<Rightarrow>
             (case pbuf_free c al' of
                Inl e \<Rightarrow> Inl e
              | Inr (n, rest, al'') \<Rightarrow>
                  Inr (length ?fs < length (rx_frames s),
                    s\<lparr>cs_handle := (cs_handle s)\<lparr>rx_queue := q, sequence_number := sequence_number (cs_handle s) + 1\<rparr>,
                      cs_alloc := al'', cs_net := net\<rparr>)))"
    by blast
  have "live (al_heap al) (pbuf_addr p) = Some k" using p(3) by simp
  from pbuf_free_ram [OF p(2) tx_packet_simps(2,3) [OF p(1)] this] obtain h where "pbuf_free [p] al = Inr (1, [], al\<lparr>al_heap := h\<rparr>)" by blast
  moreover obtain f fs' where "rx_frames s = f # fs'" using assms(4) by (cases "rx_frames s") auto
  then have "?fs \<noteq> []" using fitting_ne [of f fs'] assms(2) by (simp add: packet_frames_def)
  moreover have "?fs @ drop (length ?fs) (rx_frames s) = rx_frames s"
    unfolding packet_frames_def by (metis append_take_drop_id fitting_prefix)
  moreover have "rx_frames (s\<lparr>cs_handle := (cs_handle s)\<lparr>rx_queue := q, sequence_number := n\<rparr>, cs_alloc := al'\<rparr>)
      = drop (length ?fs) (rx_frames s)" for n al'
    using q by (simp add: rx_frames_def)
  ultimately show ?thesis unfolding t send
    by (intro exI [of _ "s\<lparr>cs_handle := (cs_handle s)\<lparr>rx_queue := q, sequence_number := sequence_number (cs_handle s) + 1\<rparr>,
        cs_alloc := al\<lparr>al_heap := h\<rparr>, cs_net := cs_net s\<rparr>"]) simp
qed

section \<open>Sample runs\<close>

text \<open>Both gateways have one control block, on port 20010, for interface 1; IP returns the packet.\<close>

definition udp_gw :: "recv_fn udp_state" where
  "udp_gw = \<lparr>udp_pcbs = [4], pcb_at = (\<lambda>_. \<lparr>local_ip = IP6_ADDR_ANY, remote_ip = IP6_ADDR_ANY, netif_idx = 0,
     ttl = UDP_TTL, udp_flags = 0, local_port = 20010, remote_port = 0, mcast_ifindex = 0,
     mcast_ttl = UDP_TTL, recv_cb = Some (Handle_cannelloni_frame 1)\<rparr>), udp_port = 0xc000\<rparr>"

definition net_gw :: "unit gw_net" where
  "net_gw = \<lparr>can_controllers = (\<lambda>_. regs0), gw_udp = udp_gw\<rparr>"

definition echo_out :: "'n ip_output_fn" where
  "echo_out q src dst t proto nif s n = Inr (ERR_OK, q, s, n)"

lemma echo_out_ok: "ip_out_ok echo_out"
  by (auto simp: ip_out_ok_def echo_out_def pbuf_get_allocsrc_def)

lemma sample_reach: "can_reach (cnl0 net_gw) (Some sample_netif) sample_netif (IP6 0xfe800000 0 0x0200 0x01020304)"
proof -
  have "ip6_select_source_address sample_netif (IP6 0xff020000 0 0 1) = Some (IP6 0xfe800000 0 0x0200 0x01020304)"
    by (simp add: ip6_select_source_address_def sample_netif_def ip6_addr_isvalid_def IP6_ADDR_VALID_def Let_def)
  then show ?thesis
    by (simp add: can_reach_def cnl0_def handle0_def net_gw_def udp_gw_def ip6_route_def Let_def) (simp add: sample_netif_def)
qed

lemma sample_listens: "listens (gw1\<lparr>gw_net := net_gw\<rparr>) 4 20010 1"
  by (simp add: listens_def net_gw_def udp_gw_def ports_ok_def bind_conflict_def)

lemma sample_gw: "gw_ok (gw1\<lparr>gw_net := net_gw\<rparr>)"
  using gw1_ok by (simp add: gw_ok_def)

theorem gateway_end_to_end_witness:
  "\<exists>r g'. gw_udp_input (\<lambda>pcb p a port s g. Inr (s, g)) (\<lambda>p s g. Inr (s, g)) [r] sample_netif (IP6 0xfe800000 0 0x0200 0x01020304)
      (IP6 0xff020000 0 0 1) 40 (gw1\<lparr>gw_net := net_gw\<rparr>) = Inr g'
    \<and> map frame_view (tx_frames (iface_state 1 g')) = map frame_view [frame_ab 1, frame_ab 2]"
proof -
  let ?s = "cnl0 net_gw" and ?g = "gw1\<lparr>gw_net := net_gw\<rparr>" and ?src = "IP6 0xfe800000 0 0x0200 0x01020304"
  have h: "init_remote_port (cs_handle ?s) = 20010" "init_addr (cs_handle ?s) = IP6 0xff020000 0 0 1"
    by (simp_all add: cnl0_def handle0_def)
  have plain: "\<forall>f \<in> set (rx_frames ?s). plain_frame f" "rx_frames ?s \<noteq> []"
    using frame_ab_plain by (simp_all add: cnl0_queues CAN_RTR_FLAG_def)
  have l: "listens ?g 4 (init_remote_port (cs_handle ?s)) 1" unfolding h by (rule sample_listens)
  have pf: "packet_frames ?s = [frame_ab 1, frame_ab 2]"
    by (simp add: packet_frames_def cnl0_queues frame_ab_def canfd_len_def CANFD_FRAME_def)
  have room: "tx_room 1 ?g = 127" "tx_frames (iface_state 1 ?g) = []"
    using sample_queue(2) by (simp_all add: tx_room_def tx_frames_def iface_state_def gw1_def) (simp add: queue_init_def)
  have i: "1 < CAN_IFACES" by (simp add: CAN_IFACES_def)
  from gateway_end_to_end [where mdns = "\<lambda>pcb p a port s g. Inr (s, g)" and unreach = "\<lambda>p s g. Inr (s, g)"
      and inp = sample_netif and hlen = 40 and out = echo_out, OF cnl0_ok plain zeros_fresh cnl0_memory sample_reach sample_gw i l]
  show ?thesis
  proof (elim exE conjE, goal_cases)
    case (1 q t al rq)
    let ?r = "q\<lparr>pbuf_addr := 12, type_internal := 0x80, p_ref := 1\<rparr>"
    have "heap_ok (al_heap (gw_alloc ?g))" using gw1_ok by (simp add: gw_ok_def)
    moreover have "live (al_heap (gw_alloc ?g)) 12 = Some 100" using heap1_live by (simp add: gw1_def gw0_def)
    ultimately obtain m where "pbuf_free [?r] (gw_alloc ?g) = Inr (1, [], m)"
      using pbuf_free_ram [of "gw_alloc ?g" ?r 100] by (auto simp: pbuf_get_allocsrc_def)
    then obtain m' where m': "dealloc_pbuf ?r (gw_alloc ?g) = Inr m'" by (auto simp: pbuf_free_def split: sum.splits)
    have "pbuf_bytes ?r = pbuf_bytes q" by (simp add: pbuf_bytes_def)
    then have "chain_ok [?r] \<and> chain_data [?r] = chain_data [q] \<and> p_ref ?r = 1 \<and> dealloc_pbuf ?r (gw_alloc ?g) = Inr m'"
      using 1(1) m' by simp
    from 1(5) [rule_format, OF this] obtain g' where
      g': "gw_udp_input (\<lambda>pcb p a port s g. Inr (s, g)) (\<lambda>p s g. Inr (s, g)) [?r] sample_netif ?src (IP6 0xff020000 0 0 1) 40 ?g = Inr g'"
        "map frame_view (tx_frames (iface_state 1 g')) = map frame_view [] @ map frame_view (take 127 [frame_ab 1, frame_ab 2])"
      unfolding h pf room by (elim exE conjE)
    have "take 127 [frame_ab 1, frame_ab 2] = [frame_ab 1, frame_ab 2]" by simp
    then show ?case using g' by (intro exI [of _ ?r] exI [of _ g'] conjI) (simp_all only: list.map append_Nil)
  qed
qed


theorem unbound_interface_loses_frames_witness:
  "\<exists>s'. transmit_udp_frame zeros (gw_sendto zeros echo_out (Some sample_netif))
        ((cnl0 net_gw)\<lparr>cs_handle := handle0\<lparr>cnl_pcb := 0\<rparr>\<rparr>) = Inr (False, s')
    \<and> cs_net s' = net_gw \<and> rx_frames s' = []"
proof -
  let ?s = "(cnl0 net_gw)\<lparr>cs_handle := handle0\<lparr>cnl_pcb := 0\<rparr>\<rparr>"
  have eq: "rx_frames ?s = rx_frames (cnl0 net_gw)" "cs_alloc ?s = cs_alloc (cnl0 net_gw)" "cnl_ok ?s \<longleftrightarrow> cnl_ok (cnl0 net_gw)"
      "cs_net ?s = net_gw"
    by (simp_all add: rx_frames_def cnl_ok_def cnl0_def)
  have wf: "\<forall>f \<in> set (rx_frames ?s). frame_wf f" and ne: "rx_frames ?s \<noteq> []"
    using frame_ab_plain unfolding eq by (simp_all add: cnl0_queues plain_frame_def CAN_RTR_FLAG_def)
  have pf: "packet_frames ?s = rx_frames ?s"
    unfolding packet_frames_def eq by (simp add: cnl0_queues frame_ab_def canfd_len_def CANFD_FRAME_def)
  have "cnl_ok ?s" unfolding eq by (rule cnl0_ok)
  moreover have "pbuf_alloc zeros PBUF_TRANSPORT 1200 PBUF_RAM (cs_alloc ?s) \<noteq> Inr ([], cs_alloc ?s)"
    unfolding eq by (rule cnl0_memory)
  moreover have "cnl_pcb (cs_handle ?s) = 0" by simp
  ultimately show ?thesis
    using unbound_interface_loses_frames [OF _ wf zeros_fresh ne, of echo_out "Some sample_netif"] unfolding pf eq(4) by auto
qed

end
