(* ===== verification/Ip6_Output.thy ===== *)
theory Ip6_Output
  imports Udp_Io
begin

text \<open>
  Sending of lwip/src/core/ipv6/ip6.c (\<open>ip6_output\<close>, \<open>ip6_output_if\<close>, \<open>ip6_output_if_src\<close>,
  \<open>ip6_options_add_hbh_ra\<close>), lwip/src/core/ipv6/ethip6.c and \<open>ethernet_output\<close> of
  lwip/src/netif/ethernet.c. The function pointers of \<open>struct netif\<close>, \<open>output_ip6\<close> and \<open>linkoutput\<close>, and
  \<open>nd6_get_next_hop_addr_or_queue\<close> are arguments, with their state of type \<open>'n\<close>.
\<close>

section \<open>Definitions\<close>

subsection \<open>The IPv6 header\<close>

definition IP6_HLEN :: nat where "IP6_HLEN = 40"
definition IP6_NEXTH_HOPBYHOP :: u8 where "IP6_NEXTH_HOPBYHOP = 0"
definition IP6_NEXTH_ROUTING :: u8 where "IP6_NEXTH_ROUTING = 43"
definition IP6_NEXTH_FRAGMENT :: u8 where "IP6_NEXTH_FRAGMENT = 44"
definition IP6_NEXTH_ICMP6 :: u8 where "IP6_NEXTH_ICMP6 = 58"
definition IP6_NEXTH_NONE :: u8 where "IP6_NEXTH_NONE = 59"
definition IP6_NEXTH_DESTOPTS :: u8 where "IP6_NEXTH_DESTOPTS = 60"

text \<open>\<open>struct ip6_hdr\<close> and its bytes in memory.\<close>

record ip6_hdr =
  v_tc_fl :: u32
  plen :: u16
  nexth :: u8
  hoplim :: u8
  hdr_src :: ip6_addr
  hdr_dest :: ip6_addr

definition IP6H_V :: "ip6_hdr \<Rightarrow> u32" where
  "IP6H_V h = drop_bit 28 (v_tc_fl h) AND 0x0f"
definition IP6H_VTCFL :: "u32 \<Rightarrow> u8 \<Rightarrow> u32 \<Rightarrow> u32" where
  "IP6H_VTCFL v tc fl = push_bit 28 v OR push_bit 20 (ucast tc) OR fl"

fun ip6_addr_bytes :: "ip6_addr \<Rightarrow> bytes" where
  "ip6_addr_bytes (IP6 a b c d) = be32 a @ be32 b @ be32 c @ be32 d"

definition ip6_addr_of_bytes :: "bytes \<Rightarrow> ip6_addr" where
  "ip6_addr_of_bytes bs =
     IP6 (of_be32 (bs ! 0) (bs ! 1) (bs ! 2) (bs ! 3)) (of_be32 (bs ! 4) (bs ! 5) (bs ! 6) (bs ! 7))
         (of_be32 (bs ! 8) (bs ! 9) (bs ! 10) (bs ! 11)) (of_be32 (bs ! 12) (bs ! 13) (bs ! 14) (bs ! 15))"

definition ip6_hdr_bytes :: "ip6_hdr \<Rightarrow> bytes" where
  "ip6_hdr_bytes h =
     be32 (v_tc_fl h) @ be16 (plen h) @ [nexth h, hoplim h] @ ip6_addr_bytes (hdr_src h) @ ip6_addr_bytes (hdr_dest h)"

definition ip6_hdr_of_bytes :: "bytes \<Rightarrow> ip6_hdr" where
  "ip6_hdr_of_bytes bs =
     \<lparr>v_tc_fl = of_be32 (bs ! 0) (bs ! 1) (bs ! 2) (bs ! 3), plen = of_be16 (bs ! 4) (bs ! 5), nexth = bs ! 6,
      hoplim = bs ! 7, hdr_src = ip6_addr_of_bytes (take 16 (drop 8 bs)), hdr_dest = ip6_addr_of_bytes (take 16 (drop 24 bs))\<rparr>"

subsection \<open>IPv6\<close>

type_synonym 'n out_result = "(err_t \<times> chain \<times> alloc_state \<times> 'n) result"
type_synonym 'n output_ip6_fn = "netif \<Rightarrow> chain \<Rightarrow> ip6_addr \<Rightarrow> alloc_state \<Rightarrow> 'n \<Rightarrow> 'n out_result"
type_synonym 'n linkoutput_fn = "netif \<Rightarrow> chain \<Rightarrow> alloc_state \<Rightarrow> 'n \<Rightarrow> 'n out_result"

text \<open>
  \<open>ip6_output_if_src\<close>. A source \<open>None\<close> is NULL, a destination \<open>None\<close> is \<open>LWIP_IP_HDRINCL\<close>; the assignments to
  the fields of the header are one write of its bytes.
\<close>

definition ip6_output_if_src ::
  "'n output_ip6_fn \<Rightarrow> chain \<Rightarrow> ip6_addr option \<Rightarrow> ip6_addr option \<Rightarrow> u8 \<Rightarrow> u8 \<Rightarrow> u8 \<Rightarrow> netif \<Rightarrow>
   alloc_state \<Rightarrow> 'n \<Rightarrow> 'n out_result" where
  "ip6_output_if_src output_ip6 p src dest hl tc nxt netif s n =
     (case p of
        [] \<Rightarrow> Inl NullDeref
      | b # bs \<Rightarrow>
          if p_ref b \<noteq> 1 then Inl AssertFail
          else
            (case dest of
               Some d \<Rightarrow>
                 (case pbuf_add_header b (of_nat IP6_HLEN) of
                    Inl e \<Rightarrow> Inl e
                  | Inr (True, b1) \<Rightarrow> Inr (ERR_BUF, b1 # bs, s, n)
                  | Inr (False, b1) \<Rightarrow>
                      if unat (p_len b1) < IP6_HLEN then Inl AssertFail
                      else
                        (case write_payload b1 0 (ip6_hdr_bytes
                                \<lparr>v_tc_fl = IP6H_VTCFL 6 tc 0, plen = tot_len b1 - of_nat IP6_HLEN, nexth = nxt, hoplim = hl,
                                 hdr_src = (case src of None \<Rightarrow> IP6_ADDR_ANY | Some a \<Rightarrow> a), hdr_dest = d\<rparr>) of
                           Inl e \<Rightarrow> Inl e
                         | Inr b2 \<Rightarrow> output_ip6 netif (b2 # bs) d s n))
             | None \<Rightarrow>
                 (case mem_read (pbuf_mem b) (payload b) IP6_HLEN of
                    Inl e \<Rightarrow> Inl e
                  | Inr h \<Rightarrow> output_ip6 netif p (hdr_dest (ip6_hdr_of_bytes h)) s n)))"

definition ip6_output_if ::
  "'n output_ip6_fn \<Rightarrow> chain \<Rightarrow> ip6_addr option \<Rightarrow> ip6_addr option \<Rightarrow> u8 \<Rightarrow> u8 \<Rightarrow> u8 \<Rightarrow> netif \<Rightarrow>
   alloc_state \<Rightarrow> 'n \<Rightarrow> 'n out_result" where
  "ip6_output_if output_ip6 p src dest hl tc nxt netif s n =
     (case dest of
        Some d \<Rightarrow>
          if src = Some IP6_ADDR_ANY then
            (case ip6_select_source_address netif d of
               None \<Rightarrow> Inr (ERR_RTE, p, s, n)
             | Some a \<Rightarrow>
                 if a = IP6_ADDR_ANY then Inr (ERR_RTE, p, s, n)
                 else ip6_output_if_src output_ip6 p (Some a) dest hl tc nxt netif s n)
          else ip6_output_if_src output_ip6 p src dest hl tc nxt netif s n
      | None \<Rightarrow> ip6_output_if_src output_ip6 p src dest hl tc nxt netif s n)"

text \<open>
  \<open>ip6_output\<close>: with an included header \<open>dest\<close> becomes the address read from it, so that
  \<open>ip6_output_if\<close> is called with a destination in both cases.
\<close>

definition ip6_output ::
  "'n output_ip6_fn \<Rightarrow> netif option \<Rightarrow> chain \<Rightarrow> ip6_addr option \<Rightarrow> ip6_addr option \<Rightarrow> u8 \<Rightarrow> u8 \<Rightarrow> u8 \<Rightarrow>
   alloc_state \<Rightarrow> 'n \<Rightarrow> 'n out_result" where
  "ip6_output output_ip6 netif_default p src dest hl tc nxt s n =
     (case p of
        [] \<Rightarrow> Inl NullDeref
      | b # bs \<Rightarrow>
          if p_ref b \<noteq> 1 then Inl AssertFail
          else
            (case (case dest of
                     Some d \<Rightarrow> Inr d
                   | None \<Rightarrow> map_sum id (\<lambda>h. hdr_dest (ip6_hdr_of_bytes h)) (mem_read (pbuf_mem b) (payload b) IP6_HLEN)) of
               Inl e \<Rightarrow> Inl e
             | Inr d \<Rightarrow>
                 (case ip6_route netif_default of
                    None \<Rightarrow> Inr (ERR_RTE, p, s, n)
                  | Some netif \<Rightarrow> ip6_output_if output_ip6 p src (Some d) hl tc nxt netif s n)))"

definition IP6_ROUTER_ALERT_OPTION :: u8 where "IP6_ROUTER_ALERT_OPTION = 5"
definition IP6_ROUTER_ALERT_DLEN :: u8 where "IP6_ROUTER_ALERT_DLEN = 2"
definition IP6_PAD1_OPTION :: u8 where "IP6_PAD1_OPTION = 0"
definition IP6_PADN_OPTION :: u8 where "IP6_PADN_OPTION = 1"

definition hbh_ra_bytes :: "u8 \<Rightarrow> u8 \<Rightarrow> bytes" where
  "hbh_ra_bytes nxt val = [nxt, 0, IP6_ROUTER_ALERT_OPTION, IP6_ROUTER_ALERT_DLEN, val, 0, IP6_PADN_OPTION, 0]"

definition ip6_options_add_hbh_ra :: "pbuf \<Rightarrow> u8 \<Rightarrow> u8 \<Rightarrow> (err_t \<times> pbuf) result" where
  "ip6_options_add_hbh_ra b nxt val =
     (case pbuf_add_header b 8 of
        Inl e \<Rightarrow> Inl e
      | Inr (True, b1) \<Rightarrow> Inr (ERR_BUF, b1)
      | Inr (False, b1) \<Rightarrow> map_sum id (Pair ERR_OK) (write_payload b1 0 (hbh_ra_bytes nxt val)))"

subsection \<open>Ethernet\<close>

definition SIZEOF_ETH_HDR :: nat where "SIZEOF_ETH_HDR = 14"
definition ETHTYPE_IPV6 :: u16 where "ETHTYPE_IPV6 = 0x86DD"

definition ethernet_output ::
  "'n linkoutput_fn \<Rightarrow> netif \<Rightarrow> chain \<Rightarrow> bytes \<Rightarrow> bytes \<Rightarrow> u16 \<Rightarrow> alloc_state \<Rightarrow> 'n \<Rightarrow> 'n out_result" where
  "ethernet_output linkoutput netif p src dst eth_type s n =
     (case p of
        [] \<Rightarrow> Inl NullDeref
      | b # bs \<Rightarrow>
          (case pbuf_add_header b (of_nat SIZEOF_ETH_HDR) of
             Inl e \<Rightarrow> Inl e
           | Inr (True, b1) \<Rightarrow> Inr (ERR_BUF, b1 # bs, s, n)
           | Inr (False, b1) \<Rightarrow>
               (case write_payload b1 0 (take 6 dst @ take 6 src @ be16 eth_type) of
                  Inl e \<Rightarrow> Inl e
                | Inr b2 \<Rightarrow> if length (hwaddr netif) \<noteq> 6 then Inl AssertFail else linkoutput netif (b2 # bs) s n)))"

text \<open>
  \<open>nd6_get_next_hop_addr_or_queue\<close> returns an error, or the hardware address (\<open>None\<close> when the packet was
  queued), and the packet.
\<close>

type_synonym 'n next_hop_fn =
  "netif \<Rightarrow> chain \<Rightarrow> ip6_addr \<Rightarrow> alloc_state \<Rightarrow> 'n \<Rightarrow> (err_t \<times> bytes option \<times> chain \<times> alloc_state \<times> 'n) result"

fun multicast_mac :: "ip6_addr \<Rightarrow> bytes" where
  "multicast_mac (IP6 a b c d) = [0x33, 0x33] @ be32 d"

definition ethip6_output :: "'n linkoutput_fn \<Rightarrow> 'n next_hop_fn \<Rightarrow> 'n output_ip6_fn" where
  "ethip6_output linkoutput next_hop netif q ip6addr s n =
     (if ip6_addr_ismulticast ip6addr
      then ethernet_output linkoutput netif q (hwaddr netif) (multicast_mac ip6addr) ETHTYPE_IPV6 s n
      else
        (case next_hop netif q ip6addr s n of
           Inl e \<Rightarrow> Inl e
         | Inr (err, hw, q1, s1, n1) \<Rightarrow>
             if err \<noteq> ERR_OK then Inr (err, q1, s1, n1)
             else
               (case hw of
                  None \<Rightarrow> Inr (ERR_OK, q1, s1, n1)
                | Some mac \<Rightarrow> ethernet_output linkoutput netif q1 (hwaddr netif) mac ETHTYPE_IPV6 s1 n1)))"

text \<open>What \<open>udp_sendto_if_src\<close> calls \<open>ip_output_if_src\<close>: the pointers are those \<open>hdkif_init\<close> sets, the traffic class is 0.\<close>

definition eth_ip_output :: "'n linkoutput_fn \<Rightarrow> 'n next_hop_fn \<Rightarrow> 'n ip_output_fn" where
  "eth_ip_output linkoutput next_hop p src dst hl proto netif s n =
     ip6_output_if_src (ethip6_output linkoutput next_hop) p (Some src) (Some dst) hl 0 proto netif s n"

section \<open>The bytes of the headers\<close>

lemma length_addr_bytes [simp]: "length (ip6_addr_bytes a) = 16"
  by (cases a) simp

lemma length_hdr_bytes [simp]: "length (ip6_hdr_bytes h) = 40"
  by (simp add: ip6_hdr_bytes_def)

lemma ip6_addr_of_bytes_bytes [simp]: "ip6_addr_of_bytes (ip6_addr_bytes a) = a"
  by (cases a) (simp add: ip6_addr_of_bytes_def be32_def of_be32_be32)

lemma ip6_hdr_of_bytes_bytes: "ip6_hdr_of_bytes (ip6_hdr_bytes h) = h"
proof -
  have "take 16 (drop 8 (ip6_hdr_bytes h)) = ip6_addr_bytes (hdr_src h)"
    "take 16 (drop 24 (ip6_hdr_bytes h)) = ip6_addr_bytes (hdr_dest h)"
    by (simp_all add: ip6_hdr_bytes_def)
  moreover have "ip6_hdr_bytes h ! 4 = be16 (plen h) ! 0" "ip6_hdr_bytes h ! 5 = be16 (plen h) ! 1" "ip6_hdr_bytes h ! 6 = nexth h"
    "ip6_hdr_bytes h ! 7 = hoplim h" "ip6_hdr_bytes h ! 0 = be32 (v_tc_fl h) ! 0" "ip6_hdr_bytes h ! 1 = be32 (v_tc_fl h) ! 1"
    "ip6_hdr_bytes h ! 2 = be32 (v_tc_fl h) ! 2" "ip6_hdr_bytes h ! 3 = be32 (v_tc_fl h) ! 3"
    by (simp_all add: ip6_hdr_bytes_def nth_append)
  ultimately show ?thesis
    by (simp add: ip6_hdr_of_bytes_def be32_def be16_def of_be32_be32 of_be16_be16)
qed

lemma vtcfl_version: "IP6H_V h = 6" if "v_tc_fl h = IP6H_VTCFL 6 tc 0"
proof -
  have "drop_bit 28 (push_bit 20 (ucast tc) :: u32) = 0"
  proof (rule bit_word_eqI, goal_cases)
    case (1 n)
    have "\<not> bit tc (28 + n - 20)" by (rule impossible_bit) simp
    then show ?case unfolding bit_drop_bit_eq bit_push_bit_iff by (simp add: bit_simps)
  qed
  moreover have "drop_bit 28 (push_bit 28 6 :: u32) = 6" by simp
  ultimately have "drop_bit 28 (IP6H_VTCFL 6 tc 0) = 6"
    unfolding IP6H_VTCFL_def drop_bit_or by (simp only: or.right_neutral drop_bit_of_0)
  then show ?thesis using that by (simp add: IP6H_V_def)
qed

section \<open>What goes out\<close>

text \<open>The bytes of an IPv6 packet and of the Ethernet frame around it.\<close>

definition ip6_packet :: "u8 \<Rightarrow> u8 \<Rightarrow> u8 \<Rightarrow> ip6_addr \<Rightarrow> ip6_addr \<Rightarrow> bytes \<Rightarrow> bytes" where
  "ip6_packet tc nxt hl src dst dat =
     ip6_hdr_bytes \<lparr>v_tc_fl = IP6H_VTCFL 6 tc 0, plen = of_nat (length dat), nexth = nxt, hoplim = hl, hdr_src = src, hdr_dest = dst\<rparr> @ dat"

definition eth_frame :: "bytes \<Rightarrow> bytes \<Rightarrow> bytes \<Rightarrow> bytes" where
  "eth_frame dst src dat = take 6 dst @ take 6 src @ be16 ETHTYPE_IPV6 @ dat"

lemma ip6_output_if_src_sends:
  assumes "chain_ok (b # bs)" "room_for 40 b" "p_ref b = 1"
  shows "\<exists>b2. chain_ok (b2 # bs) \<and> p_ref b2 = 1 \<and> pbuf_addr b2 = pbuf_addr b \<and> type_internal b2 = type_internal b
    \<and> payload b2 = payload b - 40 \<and> unat (tot_len b2) = unat (tot_len b) + 40 \<and> unat (p_len b2) = unat (p_len b) + 40
    \<and> chain_data (b2 # bs) = ip6_packet tc nxt hl (case src of None \<Rightarrow> IP6_ADDR_ANY | Some a \<Rightarrow> a) d (chain_data (b # bs))
    \<and> ip6_output_if_src out (b # bs) src (Some d) hl tc nxt netif s n = out netif (b2 # bs) d s n"
proof -
  let ?src = "case src of None \<Rightarrow> IP6_ADDR_ANY | Some a \<Rightarrow> a"
  define b1 where "b1 = grow_front 40 b"
  have add: "pbuf_add_header b (of_nat 40) = Inr (False, b1)" "chain_ok (b1 # bs)" "drop 40 (chain_data (b1 # bs)) = chain_data (b # bs)"
    unfolding b1_def by (rule pbuf_add_header_room [OF assms(1,2)], simp)+
  note len = grow_front_len [OF assms(1,2), folded b1_def]
  define h where "h = \<lparr>v_tc_fl = IP6H_VTCFL 6 tc 0, plen = tot_len b1 - 40, nexth = nxt, hoplim = hl, hdr_src = ?src, hdr_dest = d\<rparr>"
  have le: "length (ip6_hdr_bytes h) \<le> unat (p_len b1)" using len(1) by simp
  define b2 where "b2 = b1\<lparr>pbuf_mem := put_bytes (pbuf_mem b1) (payload b1) (ip6_hdr_bytes h)\<rparr>"
  note w = write_header [OF add(2) le, folded b2_def]
  have "unat (tot_len b) = length (chain_data (b # bs))" using assms(1) length_chain_data [OF assms(1)] by simp
  moreover have "tot_len b1 - 40 = of_nat (unat (tot_len b))" by (simp add: b1_def grow_front_def)
  ultimately have tl: "tot_len b1 - 40 = of_nat (length (chain_data (b # bs)))" by (simp only:)
  have "chain_data (b2 # bs) = ip6_packet tc nxt hl ?src d (chain_data (b # bs))"
    unfolding w(3) length_hdr_bytes add(3) by (simp only: ip6_packet_def h_def tl)
  moreover have "ip6_output_if_src out (b # bs) src (Some d) hl tc nxt netif s n = out netif (b2 # bs) d s n"
    using assms(3) add(1) len(1) w(1) by (simp add: ip6_output_if_src_def IP6_HLEN_def h_def)
  ultimately show ?thesis
    using w(2) len assms(3) by (intro exI [of _ b2]) (simp add: b2_def b1_def)
qed

lemma ethernet_output_sends:
  assumes "chain_ok (b # bs)" "room_for 14 b" "length (hwaddr netif) = 6" "length mac = 6"
  shows "\<exists>b2. chain_ok (b2 # bs) \<and> p_ref b2 = p_ref b \<and> pbuf_addr b2 = pbuf_addr b \<and> type_internal b2 = type_internal b
    \<and> payload b2 = payload b - 14 \<and> unat (tot_len b2) = unat (tot_len b) + 14 \<and> unat (p_len b2) = unat (p_len b) + 14
    \<and> chain_data (b2 # bs) = eth_frame mac (hwaddr netif) (chain_data (b # bs))
    \<and> ethernet_output linkoutput netif (b # bs) (hwaddr netif) mac ETHTYPE_IPV6 s n = linkoutput netif (b2 # bs) s n"
proof -
  define b1 where "b1 = grow_front 14 b"
  have add: "pbuf_add_header b (of_nat 14) = Inr (False, b1)" "chain_ok (b1 # bs)" "drop 14 (chain_data (b1 # bs)) = chain_data (b # bs)"
    unfolding b1_def by (rule pbuf_add_header_room [OF assms(1,2)], simp)+
  note len = grow_front_len [OF assms(1,2), folded b1_def]
  define h where "h = take 6 mac @ take 6 (hwaddr netif) @ be16 ETHTYPE_IPV6"
  have lh: "length h = 14" using assms(3,4) by (simp add: h_def)
  have le: "length h \<le> unat (p_len b1)" using len(1) lh by simp
  define b2 where "b2 = b1\<lparr>pbuf_mem := put_bytes (pbuf_mem b1) (payload b1) h\<rparr>"
  note w = write_header [OF add(2) le, folded b2_def]
  have "chain_data (b2 # bs) = eth_frame mac (hwaddr netif) (chain_data (b # bs))"
    unfolding w(3) lh add(3) by (simp only: eth_frame_def h_def append_assoc)
  moreover have "ethernet_output linkoutput netif (b # bs) (hwaddr netif) mac ETHTYPE_IPV6 s n = linkoutput netif (b2 # bs) s n"
    using assms(3) add(1) w(1) by (simp add: ethernet_output_def SIZEOF_ETH_HDR_def h_def)
  ultimately show ?thesis
    using w(2) len by (intro exI [of _ b2]) (simp add: b2_def b1_def)
qed

text \<open>
  A datagram for a group, or for a neighbour whose hardware address is known, goes to \<open>linkoutput\<close> as one
  Ethernet frame.
\<close>

definition hop_mac :: "'n next_hop_fn \<Rightarrow> netif \<Rightarrow> ip6_addr \<Rightarrow> bytes \<Rightarrow> bool" where
  "hop_mac next_hop netif d mac \<longleftrightarrow>
     (if ip6_addr_ismulticast d then mac = multicast_mac d
      else \<forall>q s n. next_hop netif q d s n = Inr (ERR_OK, Some mac, q, s, n)) \<and> length mac = 6"

lemma length_multicast_mac [simp]: "length (multicast_mac d) = 6"
  by (cases d) simp

lemma eth_ip_output_frame:
  assumes b: "chain_ok (b # bs)" "room_for 54 b" "p_ref b = 1" and nif: "length (hwaddr netif) = 6" "hop_mac next_hop netif d mac"
  shows "\<exists>f. chain_ok (f # bs) \<and> p_ref f = 1 \<and> pbuf_addr f = pbuf_addr b \<and> type_internal f = type_internal b
    \<and> payload f = payload b - 54 \<and> unat (tot_len f) = unat (tot_len b) + 54 \<and> unat (p_len f) = unat (p_len b) + 54
    \<and> chain_data (f # bs) = eth_frame mac (hwaddr netif) (ip6_packet 0 proto hl src d (chain_data (b # bs)))
    \<and> eth_ip_output linkoutput next_hop (b # bs) src d hl proto netif s n = linkoutput netif (f # bs) s n"
proof -
  have r: "room_for 40 b" using b(2) by (simp add: room_for_def)
  obtain b2 where b2: "chain_ok (b2 # bs)" "p_ref b2 = 1" "pbuf_addr b2 = pbuf_addr b" "type_internal b2 = type_internal b"
      "payload b2 = payload b - 40" "unat (tot_len b2) = unat (tot_len b) + 40" "unat (p_len b2) = unat (p_len b) + 40"
      "chain_data (b2 # bs) = ip6_packet 0 proto hl src d (chain_data (b # bs))"
    and out: "ip6_output_if_src (ethip6_output linkoutput next_hop) (b # bs) (Some src) (Some d) hl 0 proto netif s n
      = ethip6_output linkoutput next_hop netif (b2 # bs) d s n"
    using ip6_output_if_src_sends [OF b(1) r b(3), where src = "Some src" and tc = 0 and nxt = proto and hl = hl and d = d
        and out = "ethip6_output linkoutput next_hop" and netif = netif and s = s and n = n] by auto
  have r2: "room_for 14 b2" using b(2) b2(4-6) by (auto simp: room_for_def)
  have lm: "length mac = 6" using nif(2) by (simp add: hop_mac_def)
  have "ethip6_output linkoutput next_hop netif (b2 # bs) d s n
      = ethernet_output linkoutput netif (b2 # bs) (hwaddr netif) mac ETHTYPE_IPV6 s n"
    using nif(2) by (auto simp: ethip6_output_def hop_mac_def)
  then show ?thesis
    using ethernet_output_sends [OF b2(1) r2 nif(1) lm, of linkoutput s n] b2 out by (auto simp: eth_ip_output_def simp del: chain_data_simps)
qed

section \<open>Packets that the stack makes itself\<close>

text \<open>A packet from \<open>pbuf_alloc (PBUF_IP, n, PBUF_RAM)\<close>, with room for the IPv6 and Ethernet headers.\<close>

definition ip_packet :: "nat \<Rightarrow> alloc_state \<Rightarrow> pbuf \<Rightarrow> bool" where
  "ip_packet k s b \<longleftrightarrow> chain_ok [b] \<and> k \<le> payload b \<and> type_internal b = 0x80 \<and> p_ref b = 1 \<and> unat (tot_len b) + k < 65536
     \<and> heap_ok (al_heap s) \<and> live (al_heap s) (pbuf_addr b) \<noteq> None"

lemma ip_packet_room: "ip_packet k s b \<Longrightarrow> j \<le> k \<Longrightarrow> room_for j b"
  by (auto simp: ip_packet_def room_for_def PBUF_TYPE_FLAG_STRUCT_DATA_CONTIGUOUS_def)

lemma pbuf_alloc_ip:
  assumes "heap_ok (al_heap s)" "fresh_ok uninit" "unat n + 54 < 65536"
  obtains "pbuf_alloc uninit PBUF_IP n PBUF_RAM s = Inr ([], s)"
  | b s' where "pbuf_alloc uninit PBUF_IP n PBUF_RAM s = Inr ([b], s')" "ip_packet 54 s' b" "p_len b = n" "tot_len b = n"
      "al_memp s' = al_memp s"
proof -
  from pbuf_alloc_ram [OF assms(1), of uninit PBUF_IP n] show thesis
  proof (elim exE conjE disjE, goal_cases)
    case (1 c s')
    then show ?case using that(1) by simp
  next
    case (2 c s' a k)
    let ?b = "pbuf_init_alloced_pbuf a (uninit (ram_len PBUF_IP n)) (LWIP_MEM_ALIGN_SIZE (unat (layer_offset PBUF_IP))) n n PBUF_RAM 0"
    have "ip_packet 54 s' ?b"
      using 2(2,6) assms(2,3) aligned_u16(2) [of n]
      by (simp add: ip_packet_def pbuf_init_alloced_pbuf_def fresh_ok_def ram_len_def) (simp add: LWIP_MEM_ALIGN_SIZE_def)
    then show ?case using that(2) [of ?b s'] 2 by (simp add: pbuf_init_alloced_pbuf_def)
  qed
qed

text \<open>
  What \<open>netif->output_ip6\<close> promises for such a packet: it returns, the caller still holds the packet, and the pools
  stay well formed, with the groups and the receive buffers as they were.
\<close>

definition keeps_pools :: "memp_state \<Rightarrow> memp_state \<Rightarrow> bool" where
  "keeps_pools m m' \<longleftrightarrow> (\<forall>t \<in> {MEMP_MLD6_GROUP, MEMP_PBUF_POOL}. free_elems m' t = free_elems m t)"

lemma keeps_pools_refl [simp]: "keeps_pools m m"
  by (simp add: keeps_pools_def)

lemma keeps_pools_trans: "keeps_pools m m' \<Longrightarrow> keeps_pools m' m'' \<Longrightarrow> keeps_pools m m''"
  by (simp add: keeps_pools_def)

definition output_ok :: "(memp_t \<Rightarrow> memp_desc) \<Rightarrow> 'n output_ip6_fn \<Rightarrow> bool" where
  "output_ok pools out \<longleftrightarrow>
     (\<forall>nif q d s n. ip_packet 14 s q \<and> memp_ok pools (al_memp s) \<longrightarrow>
        (\<exists>err q' s' n'. out nif [q] d s n = Inr (err, [q'], s', n') \<and> heap_ok (al_heap s') \<and> memp_ok pools (al_memp s')
          \<and> keeps_pools (al_memp s) (al_memp s')
          \<and> pbuf_addr q' = pbuf_addr q \<and> pbuf_get_allocsrc q' = 0
          \<and> live (al_heap s') (pbuf_addr q) \<noteq> None \<and> (p_ref q' = 1 \<or> p_ref q' = 2)))"

lemma pbuf_free_held:
  assumes "heap_ok (al_heap s)" "pbuf_get_allocsrc q = 0" "live (al_heap s) (pbuf_addr q) \<noteq> None" "p_ref q = 1 \<or> p_ref q = 2"
  shows "\<exists>cnt rest s'. pbuf_free [q] s = Inr (cnt, rest, s') \<and> heap_ok (al_heap s') \<and> al_memp s' = al_memp s"
  using assms(4)
proof
  assume "p_ref q = 1"
  then show ?thesis using pbuf_free_ram [OF assms(1) _ assms(2)] assms(3) by fastforce
qed (use assms(1) in \<open>auto simp: pbuf_free_def\<close>)

lemma ip6_output_if_returns:
  assumes out: "output_ok pools out" and b: "ip_packet 54 s b" "memp_ok pools (al_memp s)"
  shows "\<exists>err c s1 n1 cnt rest s2. ip6_output_if out [b] src (Some d) hl tc nxt netif s n = Inr (err, c, s1, n1)
    \<and> pbuf_free c s1 = Inr (cnt, rest, s2) \<and> heap_ok (al_heap s2) \<and> memp_ok pools (al_memp s2)
    \<and> keeps_pools (al_memp s) (al_memp s2)"
proof -
  have same: "\<exists>cnt rest s2. pbuf_free [b] s = Inr (cnt, rest, s2) \<and> heap_ok (al_heap s2) \<and> al_memp s2 = al_memp s"
    using b(1) by (intro pbuf_free_held) (auto simp: ip_packet_def pbuf_get_allocsrc_def)
  have src: "\<exists>err c s1 n1 cnt rest s2. ip6_output_if_src out [b] a (Some d) hl tc nxt netif s n = Inr (err, c, s1, n1)
    \<and> pbuf_free c s1 = Inr (cnt, rest, s2) \<and> heap_ok (al_heap s2) \<and> memp_ok pools (al_memp s2)
    \<and> keeps_pools (al_memp s) (al_memp s2)" for a
  proof -
    have b0: "chain_ok [b]" "room_for 40 b" "p_ref b = 1" using b(1) ip_packet_room [OF b(1)] by (simp_all add: ip_packet_def)
    obtain b2 where b2: "chain_ok [b2]" "p_ref b2 = 1" "pbuf_addr b2 = pbuf_addr b" "type_internal b2 = type_internal b"
        "payload b2 = payload b - 40" "unat (tot_len b2) = unat (tot_len b) + 40"
      and eq: "ip6_output_if_src out [b] a (Some d) hl tc nxt netif s n = out netif [b2] d s n"
      using ip6_output_if_src_sends [OF b0, where src = a and tc = tc and nxt = nxt and hl = hl and d = d and out = out
          and netif = netif and s = s and n = n] by blast
    have "ip_packet 14 s b2" using b(1) b2 by (auto simp: ip_packet_def)
    with out b(2) have "\<exists>err q' s' n'. out netif [b2] d s n = Inr (err, [q'], s', n') \<and> heap_ok (al_heap s') \<and> memp_ok pools (al_memp s')
          \<and> keeps_pools (al_memp s) (al_memp s')
          \<and> pbuf_addr q' = pbuf_addr b2 \<and> pbuf_get_allocsrc q' = 0
          \<and> live (al_heap s') (pbuf_addr b2) \<noteq> None \<and> (p_ref q' = 1 \<or> p_ref q' = 2)"
      unfolding output_ok_def by blast
    then obtain err q' s' n' where o: "out netif [b2] d s n = Inr (err, [q'], s', n')" "heap_ok (al_heap s')" "memp_ok pools (al_memp s')"
        "keeps_pools (al_memp s) (al_memp s')" "pbuf_get_allocsrc q' = 0"
        "live (al_heap s') (pbuf_addr q') \<noteq> None" "p_ref q' = 1 \<or> p_ref q' = 2"
      by (elim exE conjE) simp
    from pbuf_free_held [OF o(2,5-7)] o(1,3,4) show ?thesis unfolding eq by fastforce
  qed
  have err: "\<exists>err c s1 n1 cnt rest s2. Inr (ERR_RTE, [b], s, n) = Inr (err, c, s1, n1)
    \<and> pbuf_free c s1 = Inr (cnt, rest, s2) \<and> heap_ok (al_heap s2) \<and> memp_ok pools (al_memp s2)
    \<and> keeps_pools (al_memp s) (al_memp s2)"
    using same b(2) by fastforce
  show ?thesis unfolding ip6_output_if_def using src err by (auto split: option.splits)
qed

end
