(* ===== verification/Mld6.thy ===== *)
theory Mld6
  imports Ip6_Output
begin

text \<open>
  Multicast listener discovery (lwip/src/core/ipv6/mld6.c): the list of groups an interface has joined, their
  use counts and report timers, and the reports. The groups are elements of the pool \<open>MEMP_MLD6_GROUP\<close>;
  \<open>netif->output_ip6\<close> and \<open>rand\<close> are arguments; \<open>netif->mld_mac_filter\<close> is NULL, as \<open>netif_add\<close> leaves it.
\<close>

section \<open>Definitions\<close>

definition MLD6_HL :: u8 where "MLD6_HL = 1"
definition MLD6_JOIN_DELAYING_MEMBER_TMR_MS :: u16 where "MLD6_JOIN_DELAYING_MEMBER_TMR_MS = 500"
definition MLD6_TMR_INTERVAL :: u16 where "MLD6_TMR_INTERVAL = 100"
definition MLD6_GROUP_DELAYING_MEMBER :: u8 where "MLD6_GROUP_DELAYING_MEMBER = 1"
definition MLD6_GROUP_IDLE_MEMBER :: u8 where "MLD6_GROUP_IDLE_MEMBER = 2"
definition MLD6_HBH_HLEN :: nat where "MLD6_HBH_HLEN = 8"
definition ICMP6_TYPE_MLQ :: u8 where "ICMP6_TYPE_MLQ = 130"
definition ICMP6_TYPE_MLR :: u8 where "ICMP6_TYPE_MLR = 131"
definition ICMP6_TYPE_MLD :: u8 where "ICMP6_TYPE_MLD = 132"

text \<open>\<open>struct mld_group\<close>; \<open>grp_ptr\<close> is its address, the list order is that of \<open>next\<close>.\<close>

record mld_group =
  grp_ptr :: nat
  group_address :: ip6_addr
  last_reporter_flag :: u8
  group_state :: u8
  grp_timer :: u16
  grp_use :: u8

text \<open>Addresses of lwip/ip6_addr.h.\<close>

definition ip6_addr_isallnodes_iflocal :: "ip6_addr \<Rightarrow> bool" where
  "ip6_addr_isallnodes_iflocal a \<longleftrightarrow> a = IP6 0xff010000 0 0 1"
definition ip6_addr_isallnodes_linklocal :: "ip6_addr \<Rightarrow> bool" where
  "ip6_addr_isallnodes_linklocal a \<longleftrightarrow> a = IP6 0xff020000 0 0 1"
definition ip6_addr_ismulticast_iflocal :: "ip6_addr \<Rightarrow> bool" where
  "ip6_addr_ismulticast_iflocal a \<longleftrightarrow> addr0 a AND 0xff8f0000 = 0xff010000"

subsection \<open>The group list\<close>

definition mld6_lookfor_group :: "mld_group list \<Rightarrow> ip6_addr \<Rightarrow> mld_group option" where
  "mld6_lookfor_group gs addr = find (\<lambda>g. group_address g = addr) gs"

definition mld6_new_group :: "ip6_addr \<Rightarrow> mld_group list \<Rightarrow> alloc_state \<Rightarrow> (mld_group list option \<times> alloc_state) result" where
  "mld6_new_group addr gs s =
     (case memp_malloc MEMP_MLD6_GROUP (al_memp s) of
        Inl e \<Rightarrow> Inl e
      | Inr (None, m) \<Rightarrow> Inr (None, s\<lparr>al_memp := m\<rparr>)
      | Inr (Some a, m) \<Rightarrow>
          Inr (Some (\<lparr>grp_ptr = a, group_address = addr, last_reporter_flag = 0, group_state = MLD6_GROUP_IDLE_MEMBER,
                      grp_timer = 0, grp_use = 0\<rparr> # gs), s\<lparr>al_memp := m\<rparr>))"

fun mld6_remove_group :: "mld_group list \<Rightarrow> nat \<Rightarrow> err_t \<times> mld_group list" where
  "mld6_remove_group [] p = (ERR_ARG, [])"
| "mld6_remove_group (g # gs) p = (if grp_ptr g = p then (ERR_OK, gs) else apsnd (Cons g) (mld6_remove_group gs p))"

text \<open>A change of the group a pointer designates.\<close>

definition upd_group :: "nat \<Rightarrow> (mld_group \<Rightarrow> mld_group) \<Rightarrow> mld_group list \<Rightarrow> mld_group list" where
  "upd_group p f gs = map (\<lambda>g. if grp_ptr g = p then f g else g) gs"

definition mld6_stop :: "mld_group list \<Rightarrow> alloc_state \<Rightarrow> (err_t \<times> mld_group list \<times> alloc_state) result" where
  "mld6_stop gs s =
     map_sum id (\<lambda>s'. (ERR_OK, [], s'))
       (fold (\<lambda>g r. case r of
                Inl e \<Rightarrow> Inl e
              | Inr s \<Rightarrow> map_sum id (\<lambda>m. s\<lparr>al_memp := m\<rparr>) (memp_free MEMP_MLD6_GROUP (grp_ptr g) (al_memp s)))
          gs (Inr s))"

subsection \<open>Reports\<close>

text \<open>\<open>rand\<close> returns a number and changes its state, a part of \<open>'n\<close>.\<close>

type_synonym 'n rand_fn = "'n \<Rightarrow> nat \<times> 'n"

definition report_delay :: "nat \<Rightarrow> u16 \<Rightarrow> u16" where
  "report_delay r maxresp_in =
     (let m = maxresp_in div MLD6_TMR_INTERVAL;
          maxresp = (if m = 0 then 1 else m);
          d = of_nat (r mod unat maxresp)
      in if d = 0 then 1 else d)"

definition mld6_delayed_report :: "'n rand_fn \<Rightarrow> u16 \<Rightarrow> mld_group \<Rightarrow> 'n \<Rightarrow> mld_group \<times> 'n" where
  "mld6_delayed_report rand maxresp_in g n =
     (let (r, n1) = rand n;
          maxresp = report_delay r maxresp_in
      in (if group_state g = MLD6_GROUP_IDLE_MEMBER
             \<or> (group_state g = MLD6_GROUP_DELAYING_MEMBER \<and> (grp_timer g = 0 \<or> maxresp < grp_timer g))
          then g\<lparr>grp_timer := maxresp, group_state := MLD6_GROUP_DELAYING_MEMBER\<rparr> else g, n1))"

fun mld6_report_groups :: "'n rand_fn \<Rightarrow> mld_group list \<Rightarrow> 'n \<Rightarrow> mld_group list \<times> 'n" where
  "mld6_report_groups rand [] n = ([], n)"
| "mld6_report_groups rand (g # gs) n =
     (let (g', n1) = mld6_delayed_report rand MLD6_JOIN_DELAYING_MEMBER_TMR_MS g n;
          (gs', n2) = mld6_report_groups rand gs n1
      in (g' # gs', n2))"

definition mld_header_bytes :: "u8 \<Rightarrow> u16 \<Rightarrow> ip6_addr \<Rightarrow> bytes" where
  "mld_header_bytes type ck addr = [type, 0] @ be16 ck @ be16 0 @ be16 0 @ ip6_addr_bytes addr"

text \<open>The checksum of an ICMPv6 message is stored at offset 2, after it was computed with that field zero.\<close>

definition put_icmp6_chksum :: "chain \<Rightarrow> u16 \<Rightarrow> ip6_addr \<Rightarrow> ip6_addr \<Rightarrow> chain result" where
  "put_icmp6_chksum c len src dst =
     (case c of
        [] \<Rightarrow> Inl NullDeref
      | b # bs \<Rightarrow> map_sum id (\<lambda>b'. b' # bs) (write_payload b 2 (be16 (ip6_chksum_pseudo c IP6_NEXTH_ICMP6 len src dst))))"

definition mld6_send ::
  "(nat \<Rightarrow> bytes) \<Rightarrow> 'n output_ip6_fn \<Rightarrow> netif \<Rightarrow> u8 \<Rightarrow> mld_group \<Rightarrow> alloc_state \<Rightarrow> 'n \<Rightarrow> (mld_group \<times> alloc_state \<times> 'n) result" where
  "mld6_send uninit out netif type g s n =
     (case pbuf_alloc uninit PBUF_IP (of_nat (24 + MLD6_HBH_HLEN)) PBUF_RAM s of
        Inl e \<Rightarrow> Inl e
      | Inr ([], s1) \<Rightarrow> Inr (g, s1, n)
      | Inr (b # bs, s1) \<Rightarrow>
          (case pbuf_remove_header b (of_nat MLD6_HBH_HLEN) of
             (True, b1) \<Rightarrow> map_sum id (\<lambda>(cnt, rest, s2). (g, s2, n)) (pbuf_free (b1 # bs) s1)
           | (False, b1) \<Rightarrow>
               (case ip6_addrs netif of
                  [] \<Rightarrow> Inl OutOfBounds
                | (a, st) # _ \<Rightarrow>
                    (let src = (if \<not> ip6_addr_isvalid st then IP6_ADDR_ANY else a) in
                     case write_payload b1 0 (mld_header_bytes type 0 (group_address g)) of
                       Inl e \<Rightarrow> Inl e
                     | Inr b2 \<Rightarrow>
                         (case put_icmp6_chksum (b2 # bs) (p_len b2) src (group_address g) of
                            Inl e \<Rightarrow> Inl e
                          | Inr c3 \<Rightarrow>
                              (case ip6_options_add_hbh_ra (hd c3) IP6_NEXTH_ICMP6 0 of
                                 Inl e \<Rightarrow> Inl e
                               | Inr (err, b4) \<Rightarrow>
                                   (let g1 = (if type = ICMP6_TYPE_MLR then g\<lparr>last_reporter_flag := 1\<rparr> else g) in
                                    case ip6_output_if out (b4 # bs) (if src = IP6_ADDR_ANY then None else Some src)
                                           (Some (group_address g)) MLD6_HL 0 IP6_NEXTH_HOPBYHOP netif s1 n of
                                      Inl e \<Rightarrow> Inl e
                                    | Inr (err', c5, s2, n2) \<Rightarrow>
                                        map_sum id (\<lambda>(cnt, rest, s3). (g1, s3, n2)) (pbuf_free c5 s2))))))))"

subsection \<open>Joining and leaving\<close>

definition mld6_joingroup_netif ::
  "(nat \<Rightarrow> bytes) \<Rightarrow> 'n output_ip6_fn \<Rightarrow> 'n rand_fn \<Rightarrow> netif \<Rightarrow> ip6_addr \<Rightarrow> mld_group list \<Rightarrow> alloc_state \<Rightarrow> 'n \<Rightarrow>
   (err_t \<times> mld_group list \<times> alloc_state \<times> 'n) result" where
  "mld6_joingroup_netif uninit out rand netif groupaddr gs s n =
     (case mld6_lookfor_group gs groupaddr of
        Some g \<Rightarrow> Inr (ERR_OK, upd_group (grp_ptr g) (\<lambda>g. g\<lparr>grp_use := grp_use g + 1\<rparr>) gs, s, n)
      | None \<Rightarrow>
          (case mld6_new_group groupaddr gs s of
             Inl e \<Rightarrow> Inl e
           | Inr (Some (g # gs'), s1) \<Rightarrow>
               (case mld6_send uninit out netif ICMP6_TYPE_MLR g s1 n of
                  Inl e \<Rightarrow> Inl e
                | Inr (g1, s2, n2) \<Rightarrow>
                    (let (g2, n3) = mld6_delayed_report rand MLD6_JOIN_DELAYING_MEMBER_TMR_MS g1 n2
                     in Inr (ERR_OK, g2\<lparr>grp_use := grp_use g2 + 1\<rparr> # gs', s2, n3)))
           | Inr (r, s1) \<Rightarrow> Inr (ERR_MEM, gs, s1, n)))"

definition mld6_joingroup ::
  "(nat \<Rightarrow> bytes) \<Rightarrow> 'n output_ip6_fn \<Rightarrow> 'n rand_fn \<Rightarrow> netif option \<Rightarrow> ip6_addr \<Rightarrow> ip6_addr \<Rightarrow> mld_group list \<Rightarrow> alloc_state \<Rightarrow> 'n \<Rightarrow>
   (err_t \<times> mld_group list \<times> alloc_state \<times> 'n) result" where
  "mld6_joingroup uninit out rand netif_default srcaddr groupaddr gs s n =
     (case netif_default of
        None \<Rightarrow> Inr (ERR_VAL, gs, s, n)
      | Some netif \<Rightarrow>
          if srcaddr = IP6_ADDR_ANY \<or> netif_get_ip6_addr_match netif srcaddr \<noteq> None
          then mld6_joingroup_netif uninit out rand netif groupaddr gs s n
          else Inr (ERR_VAL, gs, s, n))"

definition mld6_leavegroup_netif ::
  "(nat \<Rightarrow> bytes) \<Rightarrow> 'n output_ip6_fn \<Rightarrow> netif \<Rightarrow> ip6_addr \<Rightarrow> mld_group list \<Rightarrow> alloc_state \<Rightarrow> 'n \<Rightarrow>
   (err_t \<times> mld_group list \<times> alloc_state \<times> 'n) result" where
  "mld6_leavegroup_netif uninit out netif groupaddr gs s n =
     (case mld6_lookfor_group gs groupaddr of
        None \<Rightarrow> Inr (ERR_VAL, gs, s, n)
      | Some g \<Rightarrow>
          if grp_use g \<le> 1 then
            (let (e, gs') = mld6_remove_group gs (grp_ptr g) in
             case (if last_reporter_flag g \<noteq> 0 then mld6_send uninit out netif ICMP6_TYPE_MLD g s n else Inr (g, s, n)) of
               Inl e \<Rightarrow> Inl e
             | Inr (g1, s1, n1) \<Rightarrow>
                 map_sum id (\<lambda>m. (ERR_OK, gs', s1\<lparr>al_memp := m\<rparr>, n1)) (memp_free MEMP_MLD6_GROUP (grp_ptr g) (al_memp s1)))
          else Inr (ERR_OK, upd_group (grp_ptr g) (\<lambda>g. g\<lparr>grp_use := grp_use g - 1\<rparr>) gs, s, n))"

definition mld6_leavegroup ::
  "(nat \<Rightarrow> bytes) \<Rightarrow> 'n output_ip6_fn \<Rightarrow> netif option \<Rightarrow> ip6_addr \<Rightarrow> ip6_addr \<Rightarrow> mld_group list \<Rightarrow> alloc_state \<Rightarrow> 'n \<Rightarrow>
   (err_t \<times> mld_group list \<times> alloc_state \<times> 'n) result" where
  "mld6_leavegroup uninit out netif_default srcaddr groupaddr gs s n =
     (case netif_default of
        None \<Rightarrow> Inr (ERR_VAL, gs, s, n)
      | Some netif \<Rightarrow>
          if srcaddr = IP6_ADDR_ANY \<or> netif_get_ip6_addr_match netif srcaddr \<noteq> None
          then mld6_leavegroup_netif uninit out netif groupaddr gs s n
          else Inr (ERR_VAL, gs, s, n))"

subsection \<open>Timer and input\<close>

definition mld6_tmr_group ::
  "(nat \<Rightarrow> bytes) \<Rightarrow> 'n output_ip6_fn \<Rightarrow> netif \<Rightarrow> mld_group \<Rightarrow> alloc_state \<Rightarrow> 'n \<Rightarrow> (mld_group \<times> alloc_state \<times> 'n) result" where
  "mld6_tmr_group uninit out netif g s n =
     (if grp_timer g > 0 then
        (let g1 = g\<lparr>grp_timer := grp_timer g - 1\<rparr> in
         if grp_timer g1 = 0 \<and> group_state g1 = MLD6_GROUP_DELAYING_MEMBER
         then map_sum id (\<lambda>(g2, s', n'). (g2\<lparr>group_state := MLD6_GROUP_IDLE_MEMBER\<rparr>, s', n'))
                (mld6_send uninit out netif ICMP6_TYPE_MLR g1 s n)
         else Inr (g1, s, n))
      else Inr (g, s, n))"

fun mld6_tmr_loop ::
  "(nat \<Rightarrow> bytes) \<Rightarrow> 'n output_ip6_fn \<Rightarrow> netif \<Rightarrow> mld_group list \<Rightarrow> alloc_state \<Rightarrow> 'n \<Rightarrow> (mld_group list \<times> alloc_state \<times> 'n) result" where
  "mld6_tmr_loop uninit out netif [] s n = Inr ([], s, n)"
| "mld6_tmr_loop uninit out netif (g # gs) s n =
     (case mld6_tmr_group uninit out netif g s n of
        Inl e \<Rightarrow> Inl e
      | Inr (g', s1, n1) \<Rightarrow> map_sum id (apfst (Cons g')) (mld6_tmr_loop uninit out netif gs s1 n1))"

definition mld6_tmr ::
  "(nat \<Rightarrow> bytes) \<Rightarrow> 'n output_ip6_fn \<Rightarrow> netif option \<Rightarrow> mld_group list \<Rightarrow> alloc_state \<Rightarrow> 'n \<Rightarrow> (mld_group list \<times> alloc_state \<times> 'n) result" where
  "mld6_tmr uninit out netif_default gs s n =
     (case netif_default of None \<Rightarrow> Inr (gs, s, n) | Some netif \<Rightarrow> mld6_tmr_loop uninit out netif gs s n)"

text \<open>The general query: a delayed report for every group but the interface-local ones and the all-nodes group.\<close>

fun mld6_general_query :: "'n rand_fn \<Rightarrow> u16 \<Rightarrow> mld_group list \<Rightarrow> 'n \<Rightarrow> mld_group list \<times> 'n" where
  "mld6_general_query rand delay [] n = ([], n)"
| "mld6_general_query rand delay (g # gs) n =
     (let (g', n1) = (if \<not> ip6_addr_ismulticast_iflocal (group_address g) \<and> \<not> ip6_addr_isallnodes_linklocal (group_address g)
                      then mld6_delayed_report rand delay g n else (g, n));
          (gs', n2) = mld6_general_query rand delay gs n1
      in (g' # gs', n2))"

definition mld6_query ::
  "'n rand_fn \<Rightarrow> u16 \<Rightarrow> ip6_addr \<Rightarrow> ip6_addr \<Rightarrow> mld_group list \<Rightarrow> 'n \<Rightarrow> mld_group list \<times> 'n" where
  "mld6_query rand delay mcast dest gs n =
     (if ip6_addr_isallnodes_linklocal dest \<and> mcast = IP6_ADDR_ANY then mld6_general_query rand delay gs n
      else
        (case mld6_lookfor_group gs dest of
           None \<Rightarrow> (gs, n)
         | Some g \<Rightarrow> (let (g', n1) = mld6_delayed_report rand delay g n in (upd_group (grp_ptr g) (\<lambda>_. g') gs, n1))))"

definition mld6_heard_report :: "ip6_addr \<Rightarrow> mld_group list \<Rightarrow> mld_group list" where
  "mld6_heard_report dest gs =
     (case mld6_lookfor_group gs dest of
        None \<Rightarrow> gs
      | Some g \<Rightarrow>
          if group_state g = MLD6_GROUP_DELAYING_MEMBER
          then upd_group (grp_ptr g)
                 (\<lambda>g. g\<lparr>grp_timer := 0, group_state := MLD6_GROUP_IDLE_MEMBER, last_reporter_flag := 0\<rparr>) gs
          else gs)"

text \<open>\<open>mld6_input\<close>: \<open>dest\<close> is \<open>ip6_current_dest_addr()\<close>.\<close>

definition mld6_input ::
  "'n rand_fn \<Rightarrow> chain \<Rightarrow> ip6_addr \<Rightarrow> mld_group list \<Rightarrow> alloc_state \<Rightarrow> 'n \<Rightarrow> (mld_group list \<times> alloc_state \<times> 'n) result" where
  "mld6_input rand p dest gs s n =
     (case p of
        [] \<Rightarrow> Inl NullDeref
      | b # bs \<Rightarrow>
          if unat (p_len b) < 24 then map_sum id (\<lambda>(cnt, rest, s'). (gs, s', n)) (pbuf_free p s)
          else
            (case mem_read (pbuf_mem b) (payload b) 24 of
               Inl e \<Rightarrow> Inl e
             | Inr h \<Rightarrow>
                 (let (gs', n') =
                        (if h ! 0 = ICMP6_TYPE_MLQ
                         then mld6_query rand (of_be16 (h ! 4) (h ! 5)) (ip6_addr_of_bytes (drop 8 h)) dest gs n
                         else if h ! 0 = ICMP6_TYPE_MLR then (mld6_heard_report dest gs, n)
                         else (gs, n))
                  in map_sum id (\<lambda>(cnt, rest, s'). (gs', s', n')) (pbuf_free p s))))"

section \<open>Messages\<close>

lemma put_icmp6_chksum_spec:
  assumes "chain_ok (b # bs)" "4 \<le> unat (p_len b)" "chain_data (b # bs) = x # y # 0 # 0 # rest"
  shows "\<exists>b' ck. put_icmp6_chksum (b # bs) len src dst = Inr (b' # bs) \<and> chain_ok (b' # bs)
    \<and> chain_data (b' # bs) = x # y # be16 ck @ rest \<and> ip6_chksum_pseudo (b' # bs) IP6_NEXTH_ICMP6 len src dst = 0
    \<and> p_ref b' = p_ref b \<and> pbuf_addr b' = pbuf_addr b \<and> type_internal b' = type_internal b \<and> payload b' = payload b
    \<and> p_len b' = p_len b \<and> tot_len b' = tot_len b"
proof -
  define ck where "ck = ip6_chksum_pseudo (b # bs) IP6_NEXTH_ICMP6 len src dst"
  define b' where "b' = b\<lparr>pbuf_mem := put_bytes (pbuf_mem b) (payload b + 2) (be16 ck)\<rparr>"
  have in_mem: "payload b + unat (p_len b) \<le> length (pbuf_mem b)" using assms(1) by simp
  have "2 + length (be16 ck) \<le> unat (p_len b)" using assms(2) by simp
  note w = write_payload_bytes [OF in_mem this, folded b'_def]
  have ok: "chain_ok (b' # bs)" using assms(1) w(3) by (simp add: b'_def)
  have data: "chain_data (b' # bs) = x # y # be16 ck @ rest"
  proof -
    have lb: "length (pbuf_bytes b) = unat (p_len b)" by (rule length_pbuf_bytes [OF in_mem])
    have "chain_data (b' # bs) = put_bytes (pbuf_bytes b) 2 (be16 ck) @ chain_data bs" unfolding chain_data_simps w(2) ..
    also have "\<dots> = take 2 (chain_data (b # bs)) @ be16 ck @ drop 4 (chain_data (b # bs))"
      using assms(2) lb by (simp add: put_bytes_def)
    finally show ?thesis unfolding assms(3) by (simp add: numeral_2_eq_2 numeral_eq_Suc)
  qed
  have "ip6_chksum_pseudo (b' # bs) IP6_NEXTH_ICMP6 len src dst = 0"
  proof -
    let ?h = "pseudo_header src dst len IP6_NEXTH_ICMP6 @ [x, y]"
    have "even (length ?h)" by (cases src; cases dst) (simp add: pseudo_header_def)
    moreover have "unat ck = 65535 - ones (word_sum (?h @ [0, 0] @ rest))"
      unfolding ck_def ip6_chksum_pseudo_ones [OF assms(1)] assms(3) by simp
    ultimately have "ones (word_sum (?h @ be16 ck @ rest)) = 65535" by (intro checksum_fills [OF _ refl]) simp_all
    then have "unat (ip6_chksum_pseudo (b' # bs) IP6_NEXTH_ICMP6 len src dst) = 0"
      unfolding ip6_chksum_pseudo_ones [OF ok] data by simp
    then show ?thesis by (simp add: unat_eq_0)
  qed
  then show ?thesis
    using ok data w(1) by (intro exI [of _ b'] exI [of _ ck]) (simp add: put_icmp6_chksum_def ck_def b'_def del: chain_data_simps)
qed

lemma hbh_ra_added:
  assumes "chain_ok (b # bs)" "room_for 8 b"
  shows "\<exists>b'. ip6_options_add_hbh_ra b nxt v = Inr (ERR_OK, b') \<and> chain_ok (b' # bs)
    \<and> chain_data (b' # bs) = hbh_ra_bytes nxt v @ chain_data (b # bs)
    \<and> p_ref b' = p_ref b \<and> pbuf_addr b' = pbuf_addr b \<and> type_internal b' = type_internal b \<and> payload b' = payload b - 8
    \<and> unat (tot_len b') = unat (tot_len b) + 8"
proof -
  define b1 where "b1 = grow_front 8 b"
  have add: "pbuf_add_header b (of_nat 8) = Inr (False, b1)" "chain_ok (b1 # bs)" "drop 8 (chain_data (b1 # bs)) = chain_data (b # bs)"
    unfolding b1_def by (rule pbuf_add_header_room [OF assms], simp)+
  note len = grow_front_len [OF assms, folded b1_def]
  have l8: "length (hbh_ra_bytes nxt v) = 8" by (simp add: hbh_ra_bytes_def)
  have le: "length (hbh_ra_bytes nxt v) \<le> unat (p_len b1)" using len(1) l8 by simp
  define b2 where "b2 = b1\<lparr>pbuf_mem := put_bytes (pbuf_mem b1) (payload b1) (hbh_ra_bytes nxt v)\<rparr>"
  note w = write_header [OF add(2) le, folded b2_def]
  have "ip6_options_add_hbh_ra b nxt v = Inr (ERR_OK, b2)" using add(1) w(1) by (simp add: ip6_options_add_hbh_ra_def)
  moreover have "chain_data (b2 # bs) = hbh_ra_bytes nxt v @ chain_data (b # bs)" unfolding w(3) l8 add(3) ..
  ultimately show ?thesis using w(2) len by (intro exI [of _ b2]) (simp add: b2_def b1_def del: chain_data_simps)
qed

text \<open>The source of a message: the first address of the interface, once it is valid.\<close>

definition mld_src :: "netif \<Rightarrow> ip6_addr" where
  "mld_src netif = (case ip6_addrs netif of [] \<Rightarrow> IP6_ADDR_ANY | (a, st) # _ \<Rightarrow> if \<not> ip6_addr_isvalid st then IP6_ADDR_ANY else a)"

lemma mld_header_bytes_Cons: "mld_header_bytes type 0 a = type # 0 # 0 # 0 # be16 0 @ be16 0 @ ip6_addr_bytes a"
  by (simp add: mld_header_bytes_def be16_def)

lemma mld6_send_message:
  fixes g :: mld_group and type :: u8
  assumes s: "heap_ok (al_heap s)" "fresh_ok uninit" and nif: "ip6_addrs netif \<noteq> []"
  defines "g1 \<equiv> (if type = ICMP6_TYPE_MLR then g\<lparr>last_reporter_flag := 1\<rparr> else g)"
  obtains "pbuf_alloc uninit PBUF_IP 32 PBUF_RAM s = Inr ([], s)" "mld6_send uninit out netif type g s n = Inr (g, s, n)"
  | b m ck s1 where "ip_packet 54 s1 b" "al_memp s1 = al_memp s" "chain_data [b] = hbh_ra_bytes IP6_NEXTH_ICMP6 0 @ chain_data [m]"
      "chain_data [m] = mld_header_bytes type ck (group_address g)"
      "chain_ok [m]" "ip6_chksum_pseudo [m] IP6_NEXTH_ICMP6 (tot_len m) (mld_src netif) (group_address g) = 0"
      "mld6_send uninit out netif type g s n =
         (case ip6_output_if out [b] (if mld_src netif = IP6_ADDR_ANY then None else Some (mld_src netif))
                 (Some (group_address g)) MLD6_HL 0 IP6_NEXTH_HOPBYHOP netif s1 n of
            Inl e \<Rightarrow> Inl e
          | Inr (err, c, s2, n2) \<Rightarrow> map_sum id (\<lambda>(cnt, rest, s3). (g1, s3, n2)) (pbuf_free c s2))"
proof -
  obtain a st as where ad: "ip6_addrs netif = (a, st) # as" using nif by (cases "ip6_addrs netif") auto
  have src: "mld_src netif = (if \<not> ip6_addr_isvalid st then IP6_ADDR_ANY else a)" by (simp add: mld_src_def ad)
  have "unat (32 :: u16) + 54 < 65536" by simp
  from pbuf_alloc_ip [OF s this] show thesis
  proof (cases, goal_cases)
    case 1
    then show ?case using that(1) by (simp add: mld6_send_def MLD6_HBH_HLEN_def)
  next
    case (2 b s1)
    have okb: "chain_ok [b]" "8 \<le> unat (p_len b)" using 2 by (simp_all add: ip_packet_def)
    define b1 where "b1 = cut_front 8 b"
    have cut: "pbuf_remove_header b (of_nat 8) = (False, b1)" "chain_ok [b1]"
      unfolding b1_def by (rule pbuf_remove_header_cut [OF okb], simp?)+
    have l1: "unat (p_len b1) = 24" using cut_front_len [OF okb] 2 by (simp add: b1_def)
    have lh: "length (mld_header_bytes type ck x) = 24" for ck x by (simp add: mld_header_bytes_def)
    define b2 where "b2 = b1\<lparr>pbuf_mem := put_bytes (pbuf_mem b1) (payload b1) (mld_header_bytes type 0 (group_address g))\<rparr>"
    have "length (mld_header_bytes type 0 (group_address g)) \<le> unat (p_len b1)" using l1 lh by simp
    note w = write_header [OF cut(2) this, folded b2_def]
    have "length (chain_data [b1]) = 24" using length_chain_data [OF cut(2)] l1 by simp
    then have d2: "chain_data [b2] = type # 0 # 0 # 0 # be16 0 @ be16 0 @ ip6_addr_bytes (group_address g)"
      unfolding w(3) lh mld_header_bytes_Cons by simp
    have "4 \<le> unat (p_len b2)" using l1 by (simp add: b2_def)
    from put_icmp6_chksum_spec [OF w(2) this d2, of "p_len b2" "mld_src netif" "group_address g"]
    obtain b3 ck where b3: "put_icmp6_chksum [b2] (p_len b2) (mld_src netif) (group_address g) = Inr [b3]" "chain_ok [b3]"
        "chain_data [b3] = mld_header_bytes type ck (group_address g)"
        "ip6_chksum_pseudo [b3] IP6_NEXTH_ICMP6 (p_len b2) (mld_src netif) (group_address g) = 0"
        "p_ref b3 = p_ref b2" "pbuf_addr b3 = pbuf_addr b2" "type_internal b3 = type_internal b2" "payload b3 = payload b2"
        "p_len b3 = p_len b2" "tot_len b3 = tot_len b2"
      by (auto simp: mld_header_bytes_def simp del: chain_data_simps)
    have tl: "tot_len b3 = p_len b2" using b3(2,9) by (simp add: word_unat_eq_iff)
    have p3: "payload b3 = payload b + 8" "type_internal b3 = 0x80" "p_ref b3 = 1" "pbuf_addr b3 = pbuf_addr b"
      using 2(2) b3 by (simp_all add: b2_def b1_def ip_packet_def)
    have t3: "unat (tot_len b3) = 24" using tl l1 by (simp add: b2_def)
    have "room_for 8 b3" using p3 t3 by (simp add: room_for_def PBUF_TYPE_FLAG_STRUCT_DATA_CONTIGUOUS_def)
    from hbh_ra_added [OF b3(2) this, of IP6_NEXTH_ICMP6 0] obtain b4 where
      b4: "ip6_options_add_hbh_ra b3 IP6_NEXTH_ICMP6 0 = Inr (ERR_OK, b4)" "chain_ok [b4]"
        "chain_data [b4] = hbh_ra_bytes IP6_NEXTH_ICMP6 0 @ chain_data [b3]" "p_ref b4 = p_ref b3" "pbuf_addr b4 = pbuf_addr b3"
        "type_internal b4 = type_internal b3" "payload b4 = payload b3 - 8" "unat (tot_len b4) = unat (tot_len b3) + 8"
      by blast
    have "ip_packet 54 s1 b4" using 2(2) b4 p3 t3 by (simp add: ip_packet_def)
    moreover have "mld6_send uninit out netif type g s n =
         (case ip6_output_if out [b4] (if mld_src netif = IP6_ADDR_ANY then None else Some (mld_src netif))
                 (Some (group_address g)) MLD6_HL 0 IP6_NEXTH_HOPBYHOP netif s1 n of
            Inl e \<Rightarrow> Inl e
          | Inr (err, c, s2, n2) \<Rightarrow> map_sum id (\<lambda>(cnt, rest, s3). (g1, s3, n2)) (pbuf_free c s2))"
      using 2(1) cut(1) w(1) b3(1) b4(1) unfolding mld6_send_def MLD6_HBH_HLEN_def ad src [symmetric] g1_def
      by (simp add: src [symmetric])
    ultimately show ?case using that(2) [OF _ 2(5) b4(3) b3(3,2)] b3(4) tl by simp
  qed
qed

lemma mld6_send_returns:
  assumes "heap_ok (al_heap s)" "fresh_ok uninit" "ip6_addrs netif \<noteq> []" "output_ok pools out" "memp_ok pools (al_memp s)"
  shows "\<exists>g1 s' n'. mld6_send uninit out netif type g s n = Inr (g1, s', n') \<and> heap_ok (al_heap s') \<and> memp_ok pools (al_memp s')
    \<and> free_elems (al_memp s') MEMP_MLD6_GROUP = free_elems (al_memp s) MEMP_MLD6_GROUP \<and> keeps_pools (al_memp s) (al_memp s')
    \<and> (g1 = g \<or> g1 = g\<lparr>last_reporter_flag := 1\<rparr>)"
  using mld6_send_message [OF assms(1-3), of out type g n]
proof (cases, goal_cases)
  case 1
  then show ?case using assms by simp
next
  case (2 b m ck s1)
  have "memp_ok pools (al_memp s1)" using assms(5) 2(2) by simp
  from ip6_output_if_returns [OF assms(4) 2(1) this, of "if mld_src netif = IP6_ADDR_ANY then None else Some (mld_src netif)"
      "group_address g" MLD6_HL 0 IP6_NEXTH_HOPBYHOP netif n]
  obtain err c s2 n2 cnt rest s3 where
    "ip6_output_if out [b] (if mld_src netif = IP6_ADDR_ANY then None else Some (mld_src netif))
       (Some (group_address g)) MLD6_HL 0 IP6_NEXTH_HOPBYHOP netif s1 n = Inr (err, c, s2, n2)"
    "pbuf_free c s2 = Inr (cnt, rest, s3)" "heap_ok (al_heap s3)" "memp_ok pools (al_memp s3)"
    "keeps_pools (al_memp s1) (al_memp s3)"
    by blast
  then show ?case using 2(2) unfolding 2(7) by (auto simp: keeps_pools_def)
qed

section \<open>Groups\<close>

text \<open>
  The invariant: the groups are allocated elements of the pool, one per address, and a group has a running timer
  exactly while a report is pending.
\<close>

definition group_wf :: "mld_group \<Rightarrow> bool" where
  "group_wf g \<longleftrightarrow> group_state g = (if grp_timer g = 0 then MLD6_GROUP_IDLE_MEMBER else MLD6_GROUP_DELAYING_MEMBER)"

definition mld_ok :: "(memp_t \<Rightarrow> memp_desc) \<Rightarrow> mld_group list \<Rightarrow> alloc_state \<Rightarrow> bool" where
  "mld_ok pools gs s \<longleftrightarrow> heap_ok (al_heap s) \<and> memp_ok pools (al_memp s) \<and> distinct (map grp_ptr gs) \<and> distinct (map group_address gs)
     \<and> (\<forall>g \<in> set gs. group_wf g \<and> grp_ptr g \<in> set (pool_elems (pools MEMP_MLD6_GROUP)) - free_elems (al_memp s) MEMP_MLD6_GROUP)"

text \<open>What the module promises: how often each group is in use.\<close>

definition mld_uses :: "mld_group list \<Rightarrow> ip6_addr \<Rightarrow> nat" where
  "mld_uses gs a = (case mld6_lookfor_group gs a of None \<Rightarrow> 0 | Some g \<Rightarrow> unat (grp_use g))"

lemma lookfor_simps [simp]:
  "mld6_lookfor_group [] a = None"
  "mld6_lookfor_group (g # gs) a = (if group_address g = a then Some g else mld6_lookfor_group gs a)"
  by (simp_all add: mld6_lookfor_group_def)

lemma lookfor_Some: "mld6_lookfor_group gs a = Some g \<Longrightarrow> g \<in> set gs \<and> group_address g = a"
  by (induction gs) (auto split: if_splits)

lemma lookfor_None: "mld6_lookfor_group gs a = None \<longleftrightarrow> a \<notin> group_address ` set gs"
  by (induction gs) auto

lemma upd_group_simps [simp]:
  "upd_group p f [] = []" "upd_group p f (g # gs) = (if grp_ptr g = p then f g else g) # upd_group p f gs"
  by (simp_all add: upd_group_def)

lemma upd_group_maps:
  assumes "\<And>g. grp_ptr (f g) = grp_ptr g" "\<And>g. group_address (f g) = group_address g"
  shows "map grp_ptr (upd_group p f gs) = map grp_ptr gs" "map group_address (upd_group p f gs) = map group_address gs"
  using assms by (simp_all add: upd_group_def)

lemma upd_group_none: "p \<notin> grp_ptr ` set gs \<Longrightarrow> upd_group p f gs = gs"
  by (induction gs) auto

lemma lookfor_upd:
  assumes "distinct (map grp_ptr gs)" "distinct (map group_address gs)" "mld6_lookfor_group gs a = Some g"
    and "\<And>g. group_address (f g) = group_address g"
  shows "mld6_lookfor_group (upd_group (grp_ptr g) f gs) b = (if b = a then Some (f g) else mld6_lookfor_group gs b)"
  using assms(1-3)
proof (induction gs)
  case (Cons h gs)
  show ?case
  proof (cases "group_address h = a")
    case True
    then have "upd_group (grp_ptr g) f gs = gs" using Cons.prems by (auto intro: upd_group_none)
    then show ?thesis using True Cons.prems assms(4) by auto
  next
    case False
    then have g: "mld6_lookfor_group gs a = Some g" using Cons.prems(3) by simp
    then have "grp_ptr h \<noteq> grp_ptr g" using lookfor_Some [OF g] Cons.prems(1) by force
    then show ?thesis using Cons g False assms(4) by auto
  qed
qed simp

lemma mld_ok_upd:
  assumes "mld_ok pools gs s" "\<And>g. grp_ptr (f g) = grp_ptr g" "\<And>g. group_address (f g) = group_address g"
    and "\<And>g. group_wf g \<Longrightarrow> group_wf (f g)"
  shows "mld_ok pools (upd_group p f gs) s"
  using assms(1) upd_group_maps [where f = f, OF assms(2,3)] assms(2,4) by (auto simp: mld_ok_def) (auto simp: upd_group_def)

lemma mld_ok_alloc:
  "mld_ok pools gs s \<Longrightarrow> heap_ok (al_heap s') \<Longrightarrow> memp_ok pools (al_memp s') \<Longrightarrow>
     free_elems (al_memp s') MEMP_MLD6_GROUP = free_elems (al_memp s) MEMP_MLD6_GROUP \<Longrightarrow> mld_ok pools gs s'"
  by (simp add: mld_ok_def)

lemma remove_group:
  assumes "distinct (map grp_ptr gs)" "g \<in> set gs"
  shows "mld6_remove_group gs (grp_ptr g) = (ERR_OK, remove1 g gs)"
  using assms by (induction gs) auto

lemma lookfor_remove:
  assumes "distinct (map group_address gs)" "mld6_lookfor_group gs a = Some g"
  shows "mld6_lookfor_group (remove1 g gs) b = (if b = a then None else mld6_lookfor_group gs b)"
  using assms
proof (induction gs)
  case (Cons h gs)
  then show ?case using lookfor_Some [of gs a g] lookfor_None [of gs a] by (auto split: if_splits)
qed simp

lemma distinct_map_remove1: "distinct (map f xs) \<Longrightarrow> distinct (map f (remove1 x xs))"
  by (metis distinct_map distinct_remove1 inj_on_subset set_remove1_subset)

lemma report_delay_pos: "report_delay r m \<noteq> 0"
  by (simp add: report_delay_def Let_def)

lemma mld6_delayed_report_wf:
  assumes "group_wf g"
  shows "group_wf (fst (mld6_delayed_report rand m g n))" "grp_ptr (fst (mld6_delayed_report rand m g n)) = grp_ptr g"
    "group_address (fst (mld6_delayed_report rand m g n)) = group_address g" "grp_use (fst (mld6_delayed_report rand m g n)) = grp_use g"
    "grp_timer (fst (mld6_delayed_report rand m g n)) \<noteq> 0"
  using assms report_delay_pos [of "fst (rand n)" m]
  by (auto simp: mld6_delayed_report_def Let_def group_wf_def MLD6_GROUP_IDLE_MEMBER_def MLD6_GROUP_DELAYING_MEMBER_def split: prod.splits if_splits)

section \<open>Properties\<close>

lemma mld_uses_simps: "mld_uses gs = (\<lambda>a. case mld6_lookfor_group gs a of None \<Rightarrow> 0 | Some g \<Rightarrow> unat (grp_use g))"
  by (simp add: mld_uses_def fun_eq_iff)

lemma mld6_join_member:
  assumes ok: "mld_ok pools gs s" and g: "mld6_lookfor_group gs a = Some g"
  shows "\<exists>gs'. mld6_joingroup_netif uninit out rand netif a gs s n = Inr (ERR_OK, gs', s, n) \<and> mld_ok pools gs' s
    \<and> mld6_lookfor_group gs' a \<noteq> None \<and> (mld_uses gs a < 255 \<longrightarrow> mld_uses gs' = (mld_uses gs)(a := mld_uses gs a + 1))"
proof -
  let ?f = "\<lambda>g :: mld_group. g\<lparr>grp_use := grp_use g + 1\<rparr>" and ?gs = "upd_group (grp_ptr g) (\<lambda>g. g\<lparr>grp_use := grp_use g + 1\<rparr>) gs"
  have d: "distinct (map grp_ptr gs)" "distinct (map group_address gs)" using ok by (simp_all add: mld_ok_def)
  have l: "mld6_lookfor_group ?gs b = (if b = a then Some (?f g) else mld6_lookfor_group gs b)" for b
    by (rule lookfor_upd [OF d g]) simp
  have "mld_ok pools ?gs s" by (rule mld_ok_upd [OF ok]) (simp_all add: group_wf_def)
  moreover have "unat (grp_use g) < 255 \<Longrightarrow> unat (grp_use g + 1) = unat (grp_use g) + 1" by (simp add: unat_word_ariths)
  ultimately show ?thesis
    using g l by (intro exI [of _ ?gs]) (auto simp: mld6_joingroup_netif_def mld_uses_def fun_eq_iff)
qed

lemma mld6_join_new:
  assumes ok: "mld_ok pools gs s" "mld6_lookfor_group gs a = None"
    and env: "output_ok pools out" "fresh_ok uninit" "ip6_addrs netif \<noteq> []"
  shows "\<exists>err gs' s' n'. mld6_joingroup_netif uninit out rand netif a gs s n = Inr (err, gs', s', n') \<and> mld_ok pools gs' s'
    \<and> free_elems (al_memp s') MEMP_PBUF_POOL = free_elems (al_memp s) MEMP_PBUF_POOL
    \<and> (if free_elems (al_memp s) MEMP_MLD6_GROUP = {} then err = ERR_MEM \<and> gs' = gs \<and> s' = s
       else err = ERR_OK \<and> mld_uses gs' = (mld_uses gs)(a := 1) \<and> (\<exists>g. mld6_lookfor_group gs' a = Some g \<and> grp_timer g \<noteq> 0))"
proof (cases "free_elems (al_memp s) MEMP_MLD6_GROUP = {}")
  case True
  then have "memp_malloc MEMP_MLD6_GROUP (al_memp s) = Inr (None, al_memp s)"
    using ok(1) pool.malloc_none [of pools] by (simp add: mld_ok_def)
  then show ?thesis using ok True by (simp add: mld6_joingroup_netif_def mld6_new_group_def)
next
  case False
  let ?F = "free_elems (al_memp s)"
  obtain x m where m: "memp_malloc MEMP_MLD6_GROUP (al_memp s) = Inr (Some x, m)" "x \<in> ?F MEMP_MLD6_GROUP" "memp_ok pools m"
      "free_elems m = ?F(MEMP_MLD6_GROUP := ?F MEMP_MLD6_GROUP - {x})"
    using ok(1) pool.malloc_some [of pools, OF _ False] by (auto simp: mld_ok_def)
  define g where "g = \<lparr>grp_ptr = x, group_address = a, last_reporter_flag = 0, group_state = MLD6_GROUP_IDLE_MEMBER, grp_timer = 0, grp_use = 0\<rparr>"
  let ?s1 = "s\<lparr>al_memp := m\<rparr>"
  have h: "heap_ok (al_heap ?s1)" "memp_ok pools (al_memp ?s1)" using ok(1) m(3) by (simp_all add: mld_ok_def)
  from mld6_send_returns [OF h(1) env(2,3,1) h(2), of ICMP6_TYPE_MLR g n] obtain g1 s2 n2 where
    snd: "mld6_send uninit out netif ICMP6_TYPE_MLR g ?s1 n = Inr (g1, s2, n2)" "heap_ok (al_heap s2)" "memp_ok pools (al_memp s2)"
      "free_elems (al_memp s2) MEMP_MLD6_GROUP = ?F MEMP_MLD6_GROUP - {x}" "g1 = g \<or> g1 = g\<lparr>last_reporter_flag := 1\<rparr>"
      "free_elems (al_memp s2) MEMP_PBUF_POOL = ?F MEMP_PBUF_POOL"
    using m(4) by (auto simp: keeps_pools_def)
  have g1: "group_wf g1" "grp_ptr g1 = x" "group_address g1 = a" "grp_use g1 = 0" using snd(5) by (auto simp: g_def group_wf_def)
  obtain g2 n3 where g2: "mld6_delayed_report rand MLD6_JOIN_DELAYING_MEMBER_TMR_MS g1 n2 = (g2, n3)" by (metis surj_pair)
  note w = mld6_delayed_report_wf [OF g1(1), of rand MLD6_JOIN_DELAYING_MEMBER_TMR_MS n2, unfolded g2 fst_conv g1]
  let ?gs = "g2\<lparr>grp_use := grp_use g2 + 1\<rparr> # gs"
  have "mld6_joingroup_netif uninit out rand netif a gs s n = Inr (ERR_OK, ?gs, s2, n3)"
    using ok(2) m(1) snd(1) g2 by (simp add: mld6_joingroup_netif_def mld6_new_group_def g_def)
  moreover have "mld_ok pools ?gs s2"
  proof -
    have "x \<in> set (pool_elems (pools MEMP_MLD6_GROUP))" using ok(1) m(2) pool.free_elems [of pools] by (auto simp: mld_ok_def)
    moreover have "x \<notin> grp_ptr ` set gs" using ok(1) m(2) by (auto simp: mld_ok_def)
    moreover have "a \<notin> group_address ` set gs" using ok(2) by (simp add: lookfor_None)
    ultimately show ?thesis using ok(1) snd(2-4) w by (auto simp: mld_ok_def group_wf_def)
  qed
  moreover have "mld_uses ?gs = (mld_uses gs)(a := 1)" using w(3,4) by (auto simp: mld_uses_def fun_eq_iff)
  ultimately show ?thesis using False w(3,5) snd(6) by (intro exI [of _ ERR_OK] exI [of _ ?gs] exI [of _ s2] exI [of _ n3]) simp
qed

lemma mld6_join_uses:
  assumes "mld_ok pools gs s" "output_ok pools out" "fresh_ok uninit" "ip6_addrs netif \<noteq> []" "mld_uses gs a < 255"
  shows "\<exists>err gs' s' n'. mld6_joingroup_netif uninit out rand netif a gs s n = Inr (err, gs', s', n') \<and> mld_ok pools gs' s'
    \<and> free_elems (al_memp s') MEMP_PBUF_POOL = free_elems (al_memp s) MEMP_PBUF_POOL
    \<and> (if mld6_lookfor_group gs a = None \<and> free_elems (al_memp s) MEMP_MLD6_GROUP = {} then err = ERR_MEM \<and> gs' = gs
       else err = ERR_OK \<and> mld_uses gs' = (mld_uses gs)(a := mld_uses gs a + 1) \<and> mld6_lookfor_group gs' a \<noteq> None)"
proof (cases "mld6_lookfor_group gs a")
  case None
  then have "mld_uses gs a = 0" by (simp add: mld_uses_def)
  then show ?thesis using mld6_join_new [OF assms(1) None assms(2-4), of rand n] None by (fastforce split: if_splits)
next
  case (Some g)
  then show ?thesis using mld6_join_member [OF assms(1) Some, of uninit out rand netif n] assms(5) by auto
qed

lemma mld6_leave_uses:
  assumes ok: "mld_ok pools gs s" and env: "output_ok pools out" "fresh_ok uninit" "ip6_addrs netif \<noteq> []"
  shows "\<exists>err gs' s' n'. mld6_leavegroup_netif uninit out netif a gs s n = Inr (err, gs', s', n') \<and> mld_ok pools gs' s'
    \<and> free_elems (al_memp s') MEMP_PBUF_POOL = free_elems (al_memp s) MEMP_PBUF_POOL
    \<and> (if mld6_lookfor_group gs a = None then err = ERR_VAL \<and> gs' = gs
       else err = ERR_OK \<and> mld_uses gs' = (mld_uses gs)(a := mld_uses gs a - 1)
         \<and> (mld6_lookfor_group gs' a = None \<longleftrightarrow> mld_uses gs a \<le> 1))"
proof (cases "mld6_lookfor_group gs a")
  case None
  then show ?thesis using ok by (simp add: mld6_leavegroup_netif_def)
next
  case (Some g)
  have d: "distinct (map grp_ptr gs)" "distinct (map group_address gs)" using ok by (simp_all add: mld_ok_def)
  have mem: "g \<in> set gs" "group_address g = a" using lookfor_Some [OF Some] by simp_all
  have u: "mld_uses gs a = unat (grp_use g)" using Some by (simp add: mld_uses_def)
  show ?thesis
  proof (cases "grp_use g \<le> 1")
    case False
    let ?f = "\<lambda>g :: mld_group. g\<lparr>grp_use := grp_use g - 1\<rparr>" and ?gs = "upd_group (grp_ptr g) (\<lambda>g. g\<lparr>grp_use := grp_use g - 1\<rparr>) gs"
    have l: "mld6_lookfor_group ?gs b = (if b = a then Some (?f g) else mld6_lookfor_group gs b)" for b
      by (rule lookfor_upd [OF d Some]) simp
    have "mld_ok pools ?gs s" by (rule mld_ok_upd [OF ok]) (simp_all add: group_wf_def)
    moreover have "unat (grp_use g - 1) = unat (grp_use g) - 1" "\<not> unat (grp_use g) \<le> 1"
      using False by (simp_all add: word_le_nat_alt unat_sub)
    ultimately show ?thesis
      using False Some l u by (intro exI [of _ ERR_OK] exI [of _ ?gs] exI [of _ s] exI [of _ n])
        (auto simp: mld6_leavegroup_netif_def mld_uses_def fun_eq_iff)
  next
    case True
    have h: "heap_ok (al_heap s)" "memp_ok pools (al_memp s)" using ok by (simp_all add: mld_ok_def)
    obtain g1 s1 n1 where snd: "(if last_reporter_flag g \<noteq> 0 then mld6_send uninit out netif ICMP6_TYPE_MLD g s n else Inr (g, s, n)) = Inr (g1, s1, n1)"
        "heap_ok (al_heap s1)" "memp_ok pools (al_memp s1)" "free_elems (al_memp s1) MEMP_MLD6_GROUP = free_elems (al_memp s) MEMP_MLD6_GROUP"
        "free_elems (al_memp s1) MEMP_PBUF_POOL = free_elems (al_memp s) MEMP_PBUF_POOL"
      using mld6_send_returns [OF h(1) env(2,3,1) h(2), of ICMP6_TYPE_MLD g n] h
      by (cases "last_reporter_flag g \<noteq> 0") (fastforce simp: keeps_pools_def simp del: split_paired_Ex)+
    have ptr: "grp_ptr g \<in> set (pool_elems (pools MEMP_MLD6_GROUP))" "grp_ptr g \<notin> free_elems (al_memp s1) MEMP_MLD6_GROUP"
      using ok mem(1) snd(4) by (auto simp: mld_ok_def)
    from pool.release_ok [of pools, OF snd(3) ptr] obtain m where
      m: "memp_free MEMP_MLD6_GROUP (grp_ptr g) (al_memp s1) = Inr m" "memp_ok pools m"
        "free_elems m MEMP_MLD6_GROUP = insert (grp_ptr g) (free_elems (al_memp s) MEMP_MLD6_GROUP)"
        "free_elems m MEMP_PBUF_POOL = free_elems (al_memp s) MEMP_PBUF_POOL"
      using snd(4,5) by auto
    have rm: "mld6_remove_group gs (grp_ptr g) = (ERR_OK, remove1 g gs)" by (rule remove_group [OF d(1) mem(1)])
    have "mld6_leavegroup_netif uninit out netif a gs s n = Inr (ERR_OK, remove1 g gs, s1\<lparr>al_memp := m\<rparr>, n1)"
      unfolding mld6_leavegroup_netif_def using Some True rm m(1) snd(1) by (simp only: option.case if_True Let_def prod.case sum.case map_sum.simps)
    moreover have "mld_ok pools (remove1 g gs) (s1\<lparr>al_memp := m\<rparr>)"
    proof -
      have "grp_ptr h \<noteq> grp_ptr g" if "h \<in> set (remove1 g gs)" for h
        using that d(1) mem(1) by (auto simp: distinct_map dest: inj_onD)
      then show ?thesis
        using ok snd(2) m(2,3) d [THEN distinct_map_remove1] by (auto simp: mld_ok_def dest: notin_set_remove1)
    qed
    moreover have "unat (grp_use g) - 1 = 0" "unat (grp_use g) \<le> 1" using True by (simp_all add: word_le_nat_alt)
    ultimately show ?thesis
      using Some u lookfor_remove [OF d(2) Some] m(4)
      by (intro exI [of _ ERR_OK] exI [of _ "remove1 g gs"] exI [of _ "s1\<lparr>al_memp := m\<rparr>"] exI [of _ n1])
         (auto simp: mld_uses_def fun_eq_iff)
  qed
qed

lemma mld6_tmr_group_ok:
  assumes ok: "mld_ok pools (g # gs) s" and env: "output_ok pools out" "fresh_ok uninit" "ip6_addrs netif \<noteq> []"
  shows "\<exists>g' s' n'. mld6_tmr_group uninit out netif g s n = Inr (g', s', n') \<and> mld_ok pools (g' # gs) s' \<and> grp_ptr g' = grp_ptr g
    \<and> group_address g' = group_address g \<and> grp_use g' = grp_use g \<and> unat (grp_timer g') = unat (grp_timer g) - 1"
proof (cases "grp_timer g = 0")
  case True
  then show ?thesis using ok by (simp add: mld6_tmr_group_def)
next
  case False
  let ?g1 = "g\<lparr>grp_timer := grp_timer g - 1\<rparr>"
  have u: "unat (grp_timer g - 1) = unat (grp_timer g) - 1" using False by (simp add: unat_sub word_le_nat_alt unat_gt_0 Suc_le_eq)
  have wf: "group_state g = MLD6_GROUP_DELAYING_MEMBER" using ok False by (simp add: mld_ok_def group_wf_def)
  have pos: "0 < grp_timer g" using False by (simp add: word_neq_0_conv)
  show ?thesis
  proof (cases "grp_timer g - 1 = 0")
    case True
    have h: "heap_ok (al_heap s)" "memp_ok pools (al_memp s)" using ok by (simp_all add: mld_ok_def)
    from mld6_send_returns [OF h(1) env(2,3,1) h(2), of ICMP6_TYPE_MLR ?g1 n] obtain g2 s' n' where
      snd: "mld6_send uninit out netif ICMP6_TYPE_MLR ?g1 s n = Inr (g2, s', n')" "heap_ok (al_heap s')" "memp_ok pools (al_memp s')"
        "free_elems (al_memp s') MEMP_MLD6_GROUP = free_elems (al_memp s) MEMP_MLD6_GROUP" "g2 = ?g1 \<or> g2 = ?g1\<lparr>last_reporter_flag := 1\<rparr>"
      by blast
    have "mld_ok pools (g2\<lparr>group_state := MLD6_GROUP_IDLE_MEMBER\<rparr> # gs) s'"
      using mld_ok_alloc [OF ok snd(2-4)] snd(5) True by (auto simp: mld_ok_def group_wf_def)
    then show ?thesis using True pos wf snd(1,5) u by (auto simp: mld6_tmr_group_def Let_def)
  next
    case False
    then have "mld_ok pools (?g1 # gs) s" using ok wf by (auto simp: mld_ok_def group_wf_def)
    then show ?thesis using False pos u by (simp add: mld6_tmr_group_def Let_def)
  qed
qed

text \<open>The groups already served are in front; the invariant is about all of them.\<close>

lemma mld_ok_perm: "mset gs = mset gs' \<Longrightarrow> mld_ok pools gs s \<longleftrightarrow> mld_ok pools gs' s"
  unfolding mld_ok_def
  by (metis mset_map mset_eq_imp_distinct_iff mset_eq_setD)

lemma mld6_tmr_loop_ok:
  assumes "mld_ok pools (ds @ gs) s" and env: "output_ok pools out" "fresh_ok uninit" "ip6_addrs netif \<noteq> []"
  shows "\<exists>gs' s' n'. mld6_tmr_loop uninit out netif gs s n = Inr (gs', s', n') \<and> mld_ok pools (ds @ gs') s'
    \<and> map grp_ptr gs' = map grp_ptr gs \<and> map group_address gs' = map group_address gs \<and> map grp_use gs' = map grp_use gs
    \<and> map (unat \<circ> grp_timer) gs' = map (\<lambda>g. unat (grp_timer g) - 1) gs"
  using assms(1)
proof (induction gs arbitrary: ds s n)
  case (Cons g gs)
  have "mld_ok pools (g # ds @ gs) s" using Cons.prems mld_ok_perm [of "ds @ g # gs" "g # ds @ gs"] by simp
  from mld6_tmr_group_ok [OF this env, of n] obtain g' s1 n1 where
    g': "mld6_tmr_group uninit out netif g s n = Inr (g', s1, n1)" "mld_ok pools (g' # ds @ gs) s1" "grp_ptr g' = grp_ptr g"
      "group_address g' = group_address g" "grp_use g' = grp_use g" "unat (grp_timer g') = unat (grp_timer g) - 1"
    by blast
  have "mld_ok pools ((ds @ [g']) @ gs) s1" using g'(2) mld_ok_perm [of "(ds @ [g']) @ gs" "g' # ds @ gs"] by simp
  from Cons.IH [OF this, of n1] g' show ?case by auto
qed simp

lemma mld6_tmr_ok:
  assumes "mld_ok pools gs s" "output_ok pools out" "fresh_ok uninit" "ip6_addrs netif \<noteq> []"
  shows "\<exists>gs' s' n'. mld6_tmr uninit out (Some netif) gs s n = Inr (gs', s', n') \<and> mld_ok pools gs' s'
    \<and> map group_address gs' = map group_address gs \<and> map grp_use gs' = map grp_use gs
    \<and> map (unat \<circ> grp_timer) gs' = map (\<lambda>g. unat (grp_timer g) - 1) gs"
  using mld6_tmr_loop_ok [of pools "[]" gs s, OF _ assms(2-4)] assms(1) by (fastforce simp: mld6_tmr_def)

fun mld6_ticks ::
  "(nat \<Rightarrow> bytes) \<Rightarrow> 'n output_ip6_fn \<Rightarrow> netif option \<Rightarrow> nat \<Rightarrow> mld_group list \<Rightarrow> alloc_state \<Rightarrow> 'n \<Rightarrow> (mld_group list \<times> alloc_state \<times> 'n) result" where
  "mld6_ticks uninit out nd 0 gs s n = Inr (gs, s, n)"
| "mld6_ticks uninit out nd (Suc k) gs s n =
     (case mld6_tmr uninit out nd gs s n of Inl e \<Rightarrow> Inl e | Inr (gs', s', n') \<Rightarrow> mld6_ticks uninit out nd k gs' s' n')"

lemma mld6_ticks_ok:
  assumes "mld_ok pools gs s" and env: "output_ok pools out" "fresh_ok uninit" "ip6_addrs netif \<noteq> []"
  shows "\<exists>gs' s' n'. mld6_ticks uninit out (Some netif) k gs s n = Inr (gs', s', n') \<and> mld_ok pools gs' s'
    \<and> map group_address gs' = map group_address gs \<and> map grp_use gs' = map grp_use gs
    \<and> map (unat \<circ> grp_timer) gs' = map (\<lambda>g. unat (grp_timer g) - k) gs"
  using assms(1)
proof (induction k arbitrary: gs s n)
  case (Suc k)
  from mld6_tmr_ok [OF Suc.prems env, of n] obtain gs1 s1 n1 where
    1: "mld6_tmr uninit out (Some netif) gs s n = Inr (gs1, s1, n1)" "mld_ok pools gs1 s1" "map group_address gs1 = map group_address gs"
      "map grp_use gs1 = map grp_use gs" "map (unat \<circ> grp_timer) gs1 = map (\<lambda>g. unat (grp_timer g) - 1) gs"
    by blast
  have "map (\<lambda>g. unat (grp_timer g) - k) gs1 = map (\<lambda>t. t - k) (map (unat \<circ> grp_timer) gs1)" by simp
  also have "\<dots> = map (\<lambda>g. unat (grp_timer g) - Suc k) gs" unfolding 1(5) by simp
  finally show ?case using 1 Suc.IH [OF 1(2), of n1] by auto
qed (simp add: comp_def)

text \<open>
  Joining a group. With a use count below its maximum, \<open>mld6_joingroup_netif\<close> returns; it refuses exactly when the
  group is new and no element of the pool is free, and otherwise counts one use more of that group and of no
  other, so that packets for it are accepted from now on; the invariant of the list is kept.
\<close>

theorem mld6_join_counts:
  assumes "mld_ok pools gs s" "output_ok pools out" "fresh_ok uninit" "ip6_addrs netif \<noteq> []" "mld_uses gs a < 255"
  shows "\<exists>err gs' s' n'. mld6_joingroup_netif uninit out rand netif a gs s n = Inr (err, gs', s', n') \<and> mld_ok pools gs' s'
    \<and> (if mld6_lookfor_group gs a = None \<and> free_elems (al_memp s) MEMP_MLD6_GROUP = {} then err = ERR_MEM \<and> gs' = gs
       else err = ERR_OK \<and> mld_uses gs' = (mld_uses gs)(a := mld_uses gs a + 1) \<and> mld6_lookfor_group gs' a \<noteq> None)"
  using mld6_join_uses [OF assms, of rand n] by blast

text \<open>
  Leaving a group. \<open>mld6_leavegroup_netif\<close> reports an error for a group that is not joined; otherwise the group
  has one use less, and it leaves the list, its element going back to the pool, exactly with its last use.
\<close>

theorem mld6_leave_counts:
  assumes "mld_ok pools gs s" "output_ok pools out" "fresh_ok uninit" "ip6_addrs netif \<noteq> []"
  shows "\<exists>err gs' s' n'. mld6_leavegroup_netif uninit out netif a gs s n = Inr (err, gs', s', n') \<and> mld_ok pools gs' s'
    \<and> (if mld6_lookfor_group gs a = None then err = ERR_VAL \<and> gs' = gs
       else err = ERR_OK \<and> mld_uses gs' = (mld_uses gs)(a := mld_uses gs a - 1)
         \<and> (mld6_lookfor_group gs' a = None \<longleftrightarrow> mld_uses gs a \<le> 1))"
  using mld6_leave_uses [OF assms, of a n] by blast


text \<open>
  Sample runs: empty pools and a heap with one block, an interface with a valid address, a lower layer that keeps the
  bytes of the packets, and the mDNS group.
\<close>

definition alloc0 :: alloc_state where
  "alloc0 = \<lparr>al_memp = memp0, al_heap = heap1\<rparr>"

definition log_output :: "bytes list output_ip6_fn" where
  "log_output nif q d s n = Inr (ERR_OK, q, s, n @ [chain_data q])"

definition mdns_group :: ip6_addr where
  "mdns_group = IP6 0xff020000 0 0 0xfb"

lemma log_output_ok: "output_ok pools log_output"
  by (auto simp: output_ok_def log_output_def ip_packet_def pbuf_get_allocsrc_def)

lemma alloc0_ok: "heap_ok (al_heap alloc0)" "memp_ok sample_pools (al_memp alloc0)"
  "mld_ok sample_pools [] alloc0" "free_elems (al_memp alloc0) MEMP_MLD6_GROUP = set (pool_elems (sample_pools MEMP_MLD6_GROUP))"
  using heap1_inv memp0_ok memp_init_free_elems [OF sample_pools_ok]
  by (auto simp: mld_ok_def alloc0_def heap_ok_def memp0_def)

lemma sample_netif_addrs: "ip6_addrs sample_netif \<noteq> []"
  by (simp add: sample_netif_def)

theorem mld6_join_counts_witness:
  "\<exists>gs' s' n'. mld6_joingroup_netif zeros log_output (\<lambda>n. (7, n)) sample_netif mdns_group [] alloc0 [] = Inr (ERR_OK, gs', s', n')
    \<and> mld_uses gs' mdns_group = 1"
proof -
  have "mld_uses [] mdns_group < 255" "mld_uses [] mdns_group = 0" by (simp_all add: mld_uses_def)
  moreover have "free_elems (al_memp alloc0) MEMP_MLD6_GROUP \<noteq> {}" by (simp add: alloc0_ok pool_elems_def sample_pools_def)
  ultimately show ?thesis
    using mld6_join_counts [OF alloc0_ok(3) log_output_ok zeros_fresh sample_netif_addrs, of mdns_group "\<lambda>n. (7, n)" "[]"] by auto
qed

definition sample_group :: "nat \<Rightarrow> mld_group" where
  "sample_group x = \<lparr>grp_ptr = x, group_address = mdns_group, last_reporter_flag = 1, group_state = MLD6_GROUP_DELAYING_MEMBER,
     grp_timer = 2, grp_use = 1\<rparr>"

lemma sample_group_ok:
  "\<exists>x m. memp_malloc MEMP_MLD6_GROUP (al_memp alloc0) = Inr (Some x, m) \<and> mld_ok sample_pools [sample_group x] (alloc0\<lparr>al_memp := m\<rparr>)"
proof -
  have ne: "free_elems (al_memp alloc0) MEMP_MLD6_GROUP \<noteq> {}" by (simp add: alloc0_ok pool_elems_def sample_pools_def)
  from memp_malloc_some [OF alloc0_ok(2) ne] obtain x m where m: "memp_malloc MEMP_MLD6_GROUP (al_memp alloc0) = Inr (Some x, m)"
      "x \<in> free_elems (al_memp alloc0) MEMP_MLD6_GROUP" "memp_ok sample_pools m" "x \<notin> free_elems m MEMP_MLD6_GROUP"
    by auto
  then have "mld_ok sample_pools [sample_group x] (alloc0\<lparr>al_memp := m\<rparr>)"
    using alloc0_ok(1) unfolding alloc0_ok(4) by (simp add: mld_ok_def group_wf_def sample_group_def)
  with m(1) show ?thesis by blast
qed

theorem mld6_leave_counts_witness:
  "\<exists>x m gs' s' n'. memp_malloc MEMP_MLD6_GROUP (al_memp alloc0) = Inr (Some x, m)
    \<and> mld6_leavegroup_netif zeros log_output sample_netif mdns_group [sample_group x] (alloc0\<lparr>al_memp := m\<rparr>) [] = Inr (ERR_OK, gs', s', n')
    \<and> mld6_lookfor_group gs' mdns_group = None"
proof -
  obtain x m where m: "memp_malloc MEMP_MLD6_GROUP (al_memp alloc0) = Inr (Some x, m)" "mld_ok sample_pools [sample_group x] (alloc0\<lparr>al_memp := m\<rparr>)"
    using sample_group_ok by blast
  have "mld6_lookfor_group [sample_group x] mdns_group \<noteq> None" "mld_uses [sample_group x] mdns_group \<le> 1"
    by (simp_all add: sample_group_def mld_uses_def)
  with mld6_leave_counts [OF m(2) log_output_ok zeros_fresh sample_netif_addrs, of mdns_group "[]"] m(1) show ?thesis by auto
qed


end
