(* ===== verification/Icmp6.thy ===== *)
theory Icmp6
  imports Mld6
begin

text \<open>
  ICMPv6 (lwip/src/core/ipv6/icmp6.c): input with the echo reply, and the error messages. The configuration answers
  multicast echo requests (\<open>LWIP_MULTICAST_PING\<close>). \<open>nd6_input\<close> is an argument.
\<close>

section \<open>Definitions\<close>

definition ICMP6_TYPE_DUR :: u8 where "ICMP6_TYPE_DUR = 1"
definition ICMP6_TYPE_PTB :: u8 where "ICMP6_TYPE_PTB = 2"
definition ICMP6_TYPE_TE :: u8 where "ICMP6_TYPE_TE = 3"
definition ICMP6_TYPE_PP :: u8 where "ICMP6_TYPE_PP = 4"
definition ICMP6_TYPE_EREQ :: u8 where "ICMP6_TYPE_EREQ = 128"
definition ICMP6_TYPE_EREP :: u8 where "ICMP6_TYPE_EREP = 129"
definition ICMP6_TYPE_RS :: u8 where "ICMP6_TYPE_RS = 133"
definition ICMP6_TYPE_RA :: u8 where "ICMP6_TYPE_RA = 134"
definition ICMP6_TYPE_NS :: u8 where "ICMP6_TYPE_NS = 135"
definition ICMP6_TYPE_NA :: u8 where "ICMP6_TYPE_NA = 136"
definition ICMP6_TYPE_RD :: u8 where "ICMP6_TYPE_RD = 137"

definition ICMP6_DUR_PORT :: u8 where "ICMP6_DUR_PORT = 4"
definition ICMP6_PP_FIELD :: u8 where "ICMP6_PP_FIELD = 0"
definition ICMP6_PP_HEADER :: u8 where "ICMP6_PP_HEADER = 1"
definition ICMP6_PP_OPTION :: u8 where "ICMP6_PP_OPTION = 2"

definition LWIP_ICMP6_HL :: u8 where "LWIP_ICMP6_HL = 255"
definition LWIP_ICMP6_DATASIZE :: u16 where "LWIP_ICMP6_DATASIZE = 1280 - 40 - 8"

text \<open>
  \<open>struct ip_globals\<close>, the packet being received. The pointer to its IPv6 header is an offset in the memory of the first
  pbuf; the addresses are zeroed when nothing is received.
\<close>

record ip_globals =
  current_netif :: "netif option"
  current_input_netif :: "netif option"
  current_ip6_header :: "nat option"
  current_ip_header_tot_len :: u16
  current_iphdr_src :: ip6_addr
  current_iphdr_dest :: ip6_addr

text \<open>The state of the stack: control blocks, groups, memory, and the rest (\<open>'n\<close>).\<close>

record ('cb, 'n) ip6_state =
  is_ip :: ip_globals
  is_alloc :: alloc_state
  is_udp :: "'cb udp_state"
  is_mld :: "mld_group list"
  is_net :: 'n

definition drop_packet :: "chain \<Rightarrow> ('cb, 'n) ip6_state \<Rightarrow> ('cb, 'n) ip6_state result" where
  "drop_packet p st = map_sum id (\<lambda>(cnt, rest, s). st\<lparr>is_alloc := s\<rparr>) (pbuf_free p (is_alloc st))"

subsection \<open>Error messages\<close>

definition icmp6_send_response_with_addrs_and_netif ::
  "(nat \<Rightarrow> bytes) \<Rightarrow> 'n output_ip6_fn \<Rightarrow> chain \<Rightarrow> u8 \<Rightarrow> u32 \<Rightarrow> u8 \<Rightarrow> ip6_addr \<Rightarrow> ip6_addr \<Rightarrow> netif \<Rightarrow>
   alloc_state \<Rightarrow> 'n \<Rightarrow> (alloc_state \<times> 'n) result" where
  "icmp6_send_response_with_addrs_and_netif uninit out p code dat type reply_src reply_dest netif s n =
     (case p of
        [] \<Rightarrow> Inl NullDeref
      | h # _ \<Rightarrow>
          (let datalen = min (tot_len h) LWIP_ICMP6_DATASIZE in
           case pbuf_alloc uninit PBUF_IP (8 + datalen) PBUF_RAM s of
             Inl e \<Rightarrow> Inl e
           | Inr ([], s1) \<Rightarrow> Inr (s1, n)
           | Inr (q # qs, s1) \<Rightarrow>
               if unat (p_len q) < 8 then Inl AssertFail
               else
                 (case write_payload q 0 [type, code] of
                    Inl e \<Rightarrow> Inl e
                  | Inr q1 \<Rightarrow>
                      (case write_payload q1 4 (be32 dat) of
                         Inl e \<Rightarrow> Inl e
                       | Inr q2 \<Rightarrow>
                           (case pbuf_copy_partial_pbuf (q2 # qs) p datalen 8 of
                              Inl e \<Rightarrow> Inl e
                            | Inr (err, c3) \<Rightarrow>
                                (case write_payload (hd c3) 2 (be16 0) of
                                   Inl e \<Rightarrow> Inl e
                                 | Inr q4 \<Rightarrow>
                                     (case put_icmp6_chksum (q4 # tl c3) (tot_len q4) reply_src reply_dest of
                                        Inl e \<Rightarrow> Inl e
                                      | Inr c5 \<Rightarrow>
                                          (case ip6_output_if out c5 (Some reply_src) (Some reply_dest) LWIP_ICMP6_HL 0
                                                  IP6_NEXTH_ICMP6 netif s1 n of
                                             Inl e \<Rightarrow> Inl e
                                           | Inr (err', c6, s2, n2) \<Rightarrow>
                                               map_sum id (\<lambda>(cnt, rest, s3). (s3, n2)) (pbuf_free c6 s2)))))))))"

definition icmp6_send_response ::
  "(nat \<Rightarrow> bytes) \<Rightarrow> 'n output_ip6_fn \<Rightarrow> chain \<Rightarrow> u8 \<Rightarrow> u32 \<Rightarrow> u8 \<Rightarrow> ip_globals \<Rightarrow> alloc_state \<Rightarrow> 'n \<Rightarrow> (alloc_state \<times> 'n) result" where
  "icmp6_send_response uninit out p code dat type ip s n =
     (case current_netif ip of
        None \<Rightarrow> Inl AssertFail
      | Some netif \<Rightarrow>
          (case ip6_select_source_address netif (current_iphdr_src ip) of
             None \<Rightarrow> Inr (s, n)
           | Some reply_src \<Rightarrow>
               icmp6_send_response_with_addrs_and_netif uninit out p code dat type reply_src (current_iphdr_src ip) netif s n))"

definition icmp6_send_response_with_addrs ::
  "(nat \<Rightarrow> bytes) \<Rightarrow> 'n output_ip6_fn \<Rightarrow> netif option \<Rightarrow> chain \<Rightarrow> u8 \<Rightarrow> u32 \<Rightarrow> u8 \<Rightarrow> ip6_addr \<Rightarrow> ip6_addr \<Rightarrow>
   alloc_state \<Rightarrow> 'n \<Rightarrow> (alloc_state \<times> 'n) result" where
  "icmp6_send_response_with_addrs uninit out netif_default p code dat type src_addr dest_addr s n =
     (case ip6_route netif_default of
        None \<Rightarrow> Inr (s, n)
      | Some netif \<Rightarrow> icmp6_send_response_with_addrs_and_netif uninit out p code dat type dest_addr src_addr netif s n)"

definition icmp6_dest_unreach ::
  "(nat \<Rightarrow> bytes) \<Rightarrow> 'n output_ip6_fn \<Rightarrow> chain \<Rightarrow> u8 \<Rightarrow> ip_globals \<Rightarrow> alloc_state \<Rightarrow> 'n \<Rightarrow> (alloc_state \<times> 'n) result" where
  "icmp6_dest_unreach uninit out p c ip s n = icmp6_send_response uninit out p c 0 ICMP6_TYPE_DUR ip s n"

definition icmp6_packet_too_big ::
  "(nat \<Rightarrow> bytes) \<Rightarrow> 'n output_ip6_fn \<Rightarrow> chain \<Rightarrow> u32 \<Rightarrow> ip_globals \<Rightarrow> alloc_state \<Rightarrow> 'n \<Rightarrow> (alloc_state \<times> 'n) result" where
  "icmp6_packet_too_big uninit out p mtu ip s n = icmp6_send_response uninit out p 0 mtu ICMP6_TYPE_PTB ip s n"

definition icmp6_time_exceeded ::
  "(nat \<Rightarrow> bytes) \<Rightarrow> 'n output_ip6_fn \<Rightarrow> chain \<Rightarrow> u8 \<Rightarrow> ip_globals \<Rightarrow> alloc_state \<Rightarrow> 'n \<Rightarrow> (alloc_state \<times> 'n) result" where
  "icmp6_time_exceeded uninit out p c ip s n = icmp6_send_response uninit out p c 0 ICMP6_TYPE_TE ip s n"

definition icmp6_time_exceeded_with_addrs ::
  "(nat \<Rightarrow> bytes) \<Rightarrow> 'n output_ip6_fn \<Rightarrow> netif option \<Rightarrow> chain \<Rightarrow> u8 \<Rightarrow> ip6_addr \<Rightarrow> ip6_addr \<Rightarrow>
   alloc_state \<Rightarrow> 'n \<Rightarrow> (alloc_state \<times> 'n) result" where
  "icmp6_time_exceeded_with_addrs uninit out netif_default p c src_addr dest_addr s n =
     icmp6_send_response_with_addrs uninit out netif_default p c 0 ICMP6_TYPE_TE src_addr dest_addr s n"

text \<open>\<open>icmp6_param_problem\<close>: the pointer is an offset in the memory of the first pbuf, as the header is.\<close>

definition icmp6_param_problem ::
  "(nat \<Rightarrow> bytes) \<Rightarrow> 'n output_ip6_fn \<Rightarrow> chain \<Rightarrow> u8 \<Rightarrow> nat \<Rightarrow> ip_globals \<Rightarrow> alloc_state \<Rightarrow> 'n \<Rightarrow> (alloc_state \<times> 'n) result" where
  "icmp6_param_problem uninit out p c pointer ip s n =
     (case current_ip6_header ip of
        None \<Rightarrow> Inl NullDeref
      | Some h \<Rightarrow> icmp6_send_response uninit out p c (of_int (int pointer - int h)) ICMP6_TYPE_PP ip s n)"

subsection \<open>Input\<close>

type_synonym ('cb, 'n) nd6_input_fn = "chain \<Rightarrow> netif \<Rightarrow> ('cb, 'n) ip6_state \<Rightarrow> ('cb, 'n) ip6_state result"

text \<open>The reply \<open>r\<close> to an echo request \<open>p\<close>, once its source address is known.\<close>

definition icmp6_echo_send ::
  "'n output_ip6_fn \<Rightarrow> chain \<Rightarrow> chain \<Rightarrow> ip6_addr \<Rightarrow> netif \<Rightarrow> ('cb, 'n) ip6_state \<Rightarrow> ('cb, 'n) ip6_state result" where
  "icmp6_echo_send out p r reply_src inp st =
     (let src = current_iphdr_src (is_ip st) in
      case write_payload (hd r) 0 [ICMP6_TYPE_EREP] of
        Inl e \<Rightarrow> Inl e
      | Inr r1 \<Rightarrow>
          (case write_payload r1 2 (be16 0) of
             Inl e \<Rightarrow> Inl e
           | Inr r2 \<Rightarrow>
               (case put_icmp6_chksum (r2 # tl r) (tot_len r2) reply_src src of
                  Inl e \<Rightarrow> Inl e
                | Inr c3 \<Rightarrow>
                    (case ip6_output_if out c3 (Some reply_src) (Some src) LWIP_ICMP6_HL 0 IP6_NEXTH_ICMP6 inp (is_alloc st) (is_net st) of
                       Inl e \<Rightarrow> Inl e
                     | Inr (err, c4, s, n) \<Rightarrow>
                         (case drop_packet c4 (st\<lparr>is_alloc := s, is_net := n\<rparr>) of
                            Inl e \<Rightarrow> Inl e
                          | Inr st' \<Rightarrow> drop_packet p st')))))"

definition icmp6_echo ::
  "(nat \<Rightarrow> bytes) \<Rightarrow> 'n output_ip6_fn \<Rightarrow> chain \<Rightarrow> netif \<Rightarrow> ('cb, 'n) ip6_state \<Rightarrow> ('cb, 'n) ip6_state result" where
  "icmp6_echo uninit out p inp st =
     (case pbuf_alloc uninit PBUF_IP (tot_len (hd p)) PBUF_RAM (is_alloc st) of
        Inl e \<Rightarrow> Inl e
      | Inr ([], s) \<Rightarrow> drop_packet p (st\<lparr>is_alloc := s\<rparr>)
      | Inr (r, s) \<Rightarrow>
          (case pbuf_copy r p of
             Inl e \<Rightarrow> Inl e
           | Inr (err, r1) \<Rightarrow>
               (let st1 = st\<lparr>is_alloc := s\<rparr>;
                    dest = current_iphdr_dest (is_ip st);
                    give_up = (case drop_packet p st1 of Inl e \<Rightarrow> Inl e | Inr st2 \<Rightarrow> drop_packet r1 st2)
                in if err \<noteq> ERR_OK then give_up
                   else if ip6_addr_ismulticast dest
                   then (case ip6_select_source_address inp (current_iphdr_src (is_ip st)) of
                           None \<Rightarrow> give_up
                         | Some reply_src \<Rightarrow> icmp6_echo_send out p r1 reply_src inp st1)
                   else icmp6_echo_send out p r1 dest inp st1)))"

definition icmp6_input ::
  "(nat \<Rightarrow> bytes) \<Rightarrow> 'n output_ip6_fn \<Rightarrow> 'n rand_fn \<Rightarrow> ('cb, 'n) nd6_input_fn \<Rightarrow> chain \<Rightarrow> netif \<Rightarrow>
   ('cb, 'n) ip6_state \<Rightarrow> ('cb, 'n) ip6_state result" where
  "icmp6_input uninit out rand nd6_input p inp st =
     (case p of
        [] \<Rightarrow> Inl NullDeref
      | b # bs \<Rightarrow>
          if unat (p_len b) < 8 then drop_packet p st
          else if ip6_chksum_pseudo p IP6_NEXTH_ICMP6 (tot_len b) (current_iphdr_src (is_ip st)) (current_iphdr_dest (is_ip st)) \<noteq> 0
          then drop_packet p st
          else
            (case mem_get (pbuf_mem b) (payload b) of
               Inl e \<Rightarrow> Inl e
             | Inr type \<Rightarrow>
                 if type \<in> {ICMP6_TYPE_NA, ICMP6_TYPE_NS, ICMP6_TYPE_RA, ICMP6_TYPE_RD, ICMP6_TYPE_PTB} then nd6_input p inp st
                 else if type = ICMP6_TYPE_RS then drop_packet p st
                 else if type \<in> {ICMP6_TYPE_MLQ, ICMP6_TYPE_MLR, ICMP6_TYPE_MLD}
                 then map_sum id (\<lambda>(gs, s, n). st\<lparr>is_mld := gs, is_alloc := s, is_net := n\<rparr>)
                        (mld6_input rand p (current_iphdr_dest (is_ip st)) (is_mld st) (is_alloc st) (is_net st))
                 else if type = ICMP6_TYPE_EREQ then icmp6_echo uninit out p inp st
                 else drop_packet p st))"

section \<open>Messages\<close>

text \<open>A received packet: one pbuf or more, with data in every pbuf but possibly the first.\<close>

definition tight_chain :: "chain \<Rightarrow> bool" where
  "tight_chain c \<longleftrightarrow> c \<noteq> [] \<and> chain_ok c \<and> (\<forall>q \<in> set (tl c). p_len q \<noteq> 0)"

lemma tight_chain_len: "tight_chain (h # hs) \<Longrightarrow> unat (tot_len h) = length (chain_data (h # hs))"
  using length_chain_data [of "h # hs"] by (simp add: tight_chain_def)

lemma write_one:
  assumes "chain_ok [b]" "off + length bs \<le> unat (p_len b)"
  shows "\<exists>m. write_payload b off bs = Inr (b\<lparr>pbuf_mem := m\<rparr>) \<and> chain_ok [b\<lparr>pbuf_mem := m\<rparr>]
    \<and> chain_data [b\<lparr>pbuf_mem := m\<rparr>] = put_bytes (chain_data [b]) off bs"
proof -
  have in_mem: "payload b + unat (p_len b) \<le> length (pbuf_mem b)" using assms(1) by simp
  note w = write_payload_bytes [OF in_mem assms(2)]
  show ?thesis using w assms(1) by (intro exI [of _ "put_bytes (pbuf_mem b) (payload b + off) bs"]) simp
qed

lemma ip_packet_mem: "ip_packet k s b \<Longrightarrow> chain_ok [b\<lparr>pbuf_mem := m\<rparr>] \<Longrightarrow> ip_packet k s (b\<lparr>pbuf_mem := m\<rparr>)"
  by (simp add: ip_packet_def)

lemma pbuf_copy_partial_pbuf_one:
  assumes "chain_ok [t]" "tight_chain (f # fs)" "unat off + unat n \<le> unat (p_len t)" "n \<le> tot_len f"
  shows "\<exists>m. pbuf_copy_partial_pbuf [t] (f # fs) n off = Inr (ERR_OK, [t\<lparr>pbuf_mem := m\<rparr>]) \<and> chain_ok [t\<lparr>pbuf_mem := m\<rparr>]
    \<and> chain_data [t\<lparr>pbuf_mem := m\<rparr>] = put_bytes (chain_data [t]) (unat off) (take (unat n) (chain_data (f # fs)))"
proof -
  have in_mem: "payload t + unat (p_len t) \<le> length (pbuf_mem t)" using assms(1) by simp
  have f: "chain_ok (f # fs)" "\<forall>q \<in> set fs. p_len q \<noteq> 0" using assms(2) by (simp_all add: tight_chain_def)
  have n: "0 + unat n \<le> chain_len (f # fs)" "unat n \<le> length (chain_data (f # fs))"
    using assms(4) f(1) length_chain_data [OF f(1)] by (simp_all add: word_le_nat_alt)
  have tt: "unat (tot_len t) = unat (p_len t)" using assms(1) by simp
  let ?bs = "take (unat n) (chain_data (f # fs))"
  have lb: "length ?bs = unat n" using n(2) by (simp add: min_def del: chain_data_simps)
  have "pbuf_copy_loop [] [t] (unat off) (f # fs) 0 (unat n) = Inr (ERR_OK, [t\<lparr>pbuf_mem := put_bytes (pbuf_mem t) (payload t + unat off) ?bs\<rparr>])"
    using pbuf_copy_loop_one [OF in_mem assms(3) f(1) _ n(1) f(2), of "[]"] by simp
  moreover have "unat off + length ?bs \<le> unat (p_len t)" using assms(3) lb by simp
  note w = write_payload_bytes [OF in_mem this]
  ultimately show ?thesis
    using assms(1,3,4) tt w by (intro exI [of _ "put_bytes (pbuf_mem t) (payload t + unat off) ?bs"])
      (simp add: pbuf_copy_partial_pbuf_def)
qed

lemma response_bytes:
  assumes "length xs = 8 + length D"
  shows "put_bytes (put_bytes (put_bytes (put_bytes xs 0 [t, c]) 4 (be32 d)) 8 D) 2 [0, 0] = t # c # 0 # 0 # be32 d @ D"
proof -
  have "length xs = Suc (Suc (Suc (Suc (Suc (Suc (Suc (Suc (length D))))))))" using assms by simp
  then obtain a0 a1 a2 a3 a4 a5 a6 a7 ys where xs: "xs = [a0, a1, a2, a3, a4, a5, a6, a7] @ ys"
    unfolding length_Suc_conv by auto
  then have "length ys = length D" using assms by simp
  then show ?thesis unfolding xs by (simp add: put_bytes_def be32_def)
qed

lemma icmp6_response_message:
  fixes p :: chain
  assumes s: "heap_ok (al_heap s)" "fresh_ok uninit" and p: "tight_chain (h # hs)"
  obtains "icmp6_send_response_with_addrs_and_netif uninit out (h # hs) code dat type src dst netif s n = Inr (s, n)"
  | b ck s1 where "ip_packet 54 s1 b" "al_memp s1 = al_memp s"
      "chain_data [b] = type # code # be16 ck @ be32 dat @ take 1232 (chain_data (h # hs))"
      "ip6_chksum_pseudo [b] IP6_NEXTH_ICMP6 (tot_len b) src dst = 0"
      "icmp6_send_response_with_addrs_and_netif uninit out (h # hs) code dat type src dst netif s n =
         (case ip6_output_if out [b] (Some src) (Some dst) LWIP_ICMP6_HL 0 IP6_NEXTH_ICMP6 netif s1 n of
            Inl e \<Rightarrow> Inl e
          | Inr (err, c, s2, n2) \<Rightarrow> map_sum id (\<lambda>(cnt, rest, s3). (s3, n2)) (pbuf_free c s2))"
proof -
  define k where "k = min (tot_len h) LWIP_ICMP6_DATASIZE"
  define D where "D = take 1232 (chain_data (h # hs))"
  have k: "unat k \<le> 1232" "k \<le> tot_len h" "unat k = min (unat (tot_len h)) 1232"
    by (auto simp: k_def LWIP_ICMP6_DATASIZE_def min_def word_le_nat_alt)
  have D: "length D = unat k" "take (unat k) (chain_data (h # hs)) = D"
    using k(3) tight_chain_len [OF p] by (auto simp: D_def min_def simp del: chain_data_simps)
  have k8: "unat (8 + k) = 8 + unat k" using k(1) by (simp add: unat_word_ariths)
  have "unat (8 + k) + 54 < 65536" using k(1) k8 by simp
  from pbuf_alloc_ip [OF s this] show thesis
  proof (cases, goal_cases)
    case 1
    then show ?case using that(1) by (simp add: icmp6_send_response_with_addrs_and_netif_def k_def)
  next
    case (2 b s1)
    have okb: "chain_ok [b]" using 2(2) by (simp add: ip_packet_def)
    have pl: "unat (p_len b) = 8 + unat k" using 2(3) k8 by simp
    obtain m1 where w1: "write_payload b 0 [type, code] = Inr (b\<lparr>pbuf_mem := m1\<rparr>)" "chain_ok [b\<lparr>pbuf_mem := m1\<rparr>]"
        "chain_data [b\<lparr>pbuf_mem := m1\<rparr>] = put_bytes (chain_data [b]) 0 [type, code]"
      using write_one [OF okb, of 0 "[type, code]"] pl by auto
    obtain m2 where w2: "write_payload (b\<lparr>pbuf_mem := m1\<rparr>) 4 (be32 dat) = Inr (b\<lparr>pbuf_mem := m2\<rparr>)" "chain_ok [b\<lparr>pbuf_mem := m2\<rparr>]"
        "chain_data [b\<lparr>pbuf_mem := m2\<rparr>] = put_bytes (chain_data [b\<lparr>pbuf_mem := m1\<rparr>]) 4 (be32 dat)"
      using write_one [OF w1(2), of 4 "be32 dat"] pl by auto
    have "unat (8 :: u16) + unat k \<le> unat (p_len (b\<lparr>pbuf_mem := m2\<rparr>))" using pl by simp
    from pbuf_copy_partial_pbuf_one [OF w2(2) p this k(2)] obtain m3 where
      w3: "pbuf_copy_partial_pbuf [b\<lparr>pbuf_mem := m2\<rparr>] (h # hs) k 8 = Inr (ERR_OK, [b\<lparr>pbuf_mem := m3\<rparr>])" "chain_ok [b\<lparr>pbuf_mem := m3\<rparr>]"
        "chain_data [b\<lparr>pbuf_mem := m3\<rparr>] = put_bytes (chain_data [b\<lparr>pbuf_mem := m2\<rparr>]) 8 D"
      unfolding D(2) by auto
    obtain m4 where w4: "write_payload (b\<lparr>pbuf_mem := m3\<rparr>) 2 (be16 0) = Inr (b\<lparr>pbuf_mem := m4\<rparr>)" "chain_ok [b\<lparr>pbuf_mem := m4\<rparr>]"
        "chain_data [b\<lparr>pbuf_mem := m4\<rparr>] = put_bytes (chain_data [b\<lparr>pbuf_mem := m3\<rparr>]) 2 (be16 0)"
      using write_one [OF w3(2), of 2 "be16 0"] pl by auto
    have z: "be16 0 = [0, 0]" by (simp add: be16_def)
    have "length (chain_data [b]) = 8 + length D" using length_chain_data [OF okb] pl D(1) by simp
    then have d4: "chain_data [b\<lparr>pbuf_mem := m4\<rparr>] = type # code # 0 # 0 # be32 dat @ D"
      unfolding w4(3) w3(3) w2(3) w1(3) z by (rule response_bytes)
    have "4 \<le> unat (p_len (b\<lparr>pbuf_mem := m4\<rparr>))" using pl by simp
    from put_icmp6_chksum_spec [OF w4(2) this d4, of "tot_len b" src dst] obtain b5 ck where
      b5: "put_icmp6_chksum [b\<lparr>pbuf_mem := m4\<rparr>] (tot_len b) src dst = Inr [b5]" "chain_ok [b5]"
        "chain_data [b5] = type # code # be16 ck @ be32 dat @ D" "ip6_chksum_pseudo [b5] IP6_NEXTH_ICMP6 (tot_len b) src dst = 0"
        "p_ref b5 = p_ref b" "pbuf_addr b5 = pbuf_addr b" "type_internal b5 = type_internal b" "payload b5 = payload b"
        "tot_len b5 = tot_len b"
      by auto
    have "ip_packet 54 s1 b5" using 2(2) b5 by (simp add: ip_packet_def)
    moreover have "icmp6_send_response_with_addrs_and_netif uninit out (h # hs) code dat type src dst netif s n =
         (case ip6_output_if out [b5] (Some src) (Some dst) LWIP_ICMP6_HL 0 IP6_NEXTH_ICMP6 netif s1 n of
            Inl e \<Rightarrow> Inl e
          | Inr (err, c, s2, n2) \<Rightarrow> map_sum id (\<lambda>(cnt, rest, s3). (s3, n2)) (pbuf_free c s2))"
      using 2(1) w1(1) w2(1) w3(1) w4(1) b5(1) pl
      unfolding icmp6_send_response_with_addrs_and_netif_def by (simp add: k_def)
    ultimately show ?case using that(2) [OF _ 2(5)] b5(3,4,9) by (simp add: D_def)
  qed
qed

section \<open>Received packets and their release\<close>

text \<open>A packet in receive buffers of the pool, held by the stack alone.\<close>

definition rx_packet :: "(memp_t \<Rightarrow> memp_desc) \<Rightarrow> chain \<Rightarrow> alloc_state \<Rightarrow> bool" where
  "rx_packet pools p s \<longleftrightarrow> tight_chain p \<and> payload (hd p) + unat (tot_len (hd p)) + 54 < 65536 \<and> heap_ok (al_heap s) \<and> memp_ok pools (al_memp s) \<and> distinct (map pbuf_addr p)
     \<and> (\<forall>q \<in> set p. p_ref q = 1 \<and> type_internal q = 0x82
          \<and> pbuf_addr q \<in> set (pool_elems (pools MEMP_PBUF_POOL)) - free_elems (al_memp s) MEMP_PBUF_POOL)"

definition freed :: "(memp_t \<Rightarrow> memp_desc) \<Rightarrow> nat set \<Rightarrow> alloc_state \<Rightarrow> alloc_state \<Rightarrow> bool" where
  "freed pools A s s' \<longleftrightarrow> heap_ok (al_heap s') \<and> memp_ok pools (al_memp s')
     \<and> free_elems (al_memp s') MEMP_PBUF_POOL = free_elems (al_memp s) MEMP_PBUF_POOL \<union> A
     \<and> free_elems (al_memp s') MEMP_MLD6_GROUP = free_elems (al_memp s) MEMP_MLD6_GROUP"

text \<open>The packet is gone, its buffers are free, and the groups are well formed.\<close>

definition st_freed :: "(memp_t \<Rightarrow> memp_desc) \<Rightarrow> chain \<Rightarrow> ('cb, 'n) ip6_state \<Rightarrow> ('cb, 'n) ip6_state \<Rightarrow> bool" where
  "st_freed pools p st st' \<longleftrightarrow> freed pools (pbuf_addr ` set p) (is_alloc st) (is_alloc st') \<and> mld_ok pools (is_mld st') (is_alloc st')"

lemma rx_packet_keeps:
  "rx_packet pools p s \<Longrightarrow> heap_ok (al_heap s') \<Longrightarrow> memp_ok pools (al_memp s') \<Longrightarrow> keeps_pools (al_memp s) (al_memp s') \<Longrightarrow> rx_packet pools p s'"
  by (simp add: rx_packet_def keeps_pools_def)

lemma freed_keeps: "keeps_pools (al_memp s) (al_memp s1) \<Longrightarrow> freed pools A s1 s' \<Longrightarrow> freed pools A s s'"
  by (simp add: freed_def keeps_pools_def)

lemma mld_ok_freed: "mld_ok pools gs s \<Longrightarrow> freed pools A s s' \<Longrightarrow> mld_ok pools gs s'"
  by (simp add: freed_def mld_ok_def)

lemma mld_ok_keeps:
  "mld_ok pools gs s \<Longrightarrow> heap_ok (al_heap s') \<Longrightarrow> memp_ok pools (al_memp s') \<Longrightarrow> keeps_pools (al_memp s) (al_memp s') \<Longrightarrow> mld_ok pools gs s'"
  by (simp add: mld_ok_def keeps_pools_def)

lemma pbuf_free_loop_rx:
  assumes "heap_ok (al_heap s)" "memp_ok pools (al_memp s)" "distinct (map pbuf_addr p)"
    and "\<forall>q \<in> set p. p_ref q = 1 \<and> type_internal q = 0x82
          \<and> pbuf_addr q \<in> set (pool_elems (pools MEMP_PBUF_POOL)) - free_elems (al_memp s) MEMP_PBUF_POOL"
  shows "\<exists>cnt' s'. pbuf_free_loop cnt p s = Inr (cnt', [], s') \<and> freed pools (pbuf_addr ` set p) s s' \<and> al_heap s' = al_heap s"
  using assms
proof (induction p arbitrary: cnt s)
  case (Cons q qs)
  have q: "p_ref q = 1" "pbuf_get_allocsrc q = 2" using Cons.prems(4) by (simp_all add: pbuf_get_allocsrc_def)
  have el: "pbuf_addr q \<in> set (pool_elems (pools MEMP_PBUF_POOL))" "pbuf_addr q \<notin> free_elems (al_memp s) MEMP_PBUF_POOL"
    using Cons.prems(4) by simp_all
  from pool.release_ok [of pools, OF Cons.prems(2) el] obtain m where
    m: "memp_free MEMP_PBUF_POOL (pbuf_addr q) (al_memp s) = Inr m" "memp_ok pools m"
      "free_elems m = (free_elems (al_memp s))(MEMP_PBUF_POOL := insert (pbuf_addr q) (free_elems (al_memp s) MEMP_PBUF_POOL))"
    by blast
  let ?s1 = "s\<lparr>al_memp := m\<rparr>"
  have "\<exists>cnt' s'. pbuf_free_loop (cnt + 1) qs ?s1 = Inr (cnt', [], s') \<and> freed pools (pbuf_addr ` set qs) ?s1 s' \<and> al_heap s' = al_heap ?s1"
    using Cons.prems m(2,3) by (intro Cons.IH) (auto simp: image_iff)
  then obtain cnt' s' where "pbuf_free_loop (cnt + 1) qs ?s1 = Inr (cnt', [], s')" "freed pools (pbuf_addr ` set qs) ?s1 s'"
      "al_heap s' = al_heap s" by auto
  moreover have "dealloc_pbuf q s = Inr ?s1" using q(2) m(1) by (simp add: dealloc_pbuf_def)
  ultimately show ?case using q(1) m(3) by (auto simp: freed_def)
qed (simp add: freed_def)

lemma pbuf_free_rx:
  assumes "rx_packet pools p s"
  shows "\<exists>cnt s'. pbuf_free p s = Inr (cnt, [], s') \<and> freed pools (pbuf_addr ` set p) s s' \<and> al_heap s' = al_heap s"
  using assms pbuf_free_loop_rx [of s pools p 0] by (simp add: pbuf_free_def rx_packet_def tight_chain_def)

lemma drop_packet_rx:
  assumes "rx_packet pools p (is_alloc st)" "mld_ok pools (is_mld st) (is_alloc st)"
  shows "\<exists>s'. drop_packet p st = Inr (st\<lparr>is_alloc := s'\<rparr>) \<and> st_freed pools p st (st\<lparr>is_alloc := s'\<rparr>) \<and> al_heap s' = al_heap (is_alloc st)"
  using pbuf_free_rx [OF assms(1)] mld_ok_freed [OF assms(2)] by (auto simp: drop_packet_def st_freed_def)

subsection \<open>Groups while receiving\<close>

lemma mld_ok_replace:
  "mld_ok pools (ds @ g # gs) s \<Longrightarrow> grp_ptr g' = grp_ptr g \<Longrightarrow> group_address g' = group_address g \<Longrightarrow> group_wf g' \<Longrightarrow> mld_ok pools (ds @ g' # gs) s"
  by (auto simp: mld_ok_def)

lemma mld_ok_wf: "mld_ok pools gs s \<Longrightarrow> g \<in> set gs \<Longrightarrow> group_wf g"
  by (simp add: mld_ok_def)

lemma mld_ok_upd_group:
  assumes "mld_ok pools gs s" "g \<in> set gs" "grp_ptr (f g) = grp_ptr g" "group_address (f g) = group_address g" "group_wf (f g)"
  shows "mld_ok pools (upd_group (grp_ptr g) f gs) s"
proof -
  obtain ds es where gs: "gs = ds @ g # es" using split_list [OF assms(2)] by blast
  have "grp_ptr g \<notin> grp_ptr ` set ds" "grp_ptr g \<notin> grp_ptr ` set es" using assms(1) gs by (auto simp: mld_ok_def)
  then have "upd_group (grp_ptr g) f gs = ds @ f g # es"
    using gs upd_group_none [of "grp_ptr g" ds f] upd_group_none [of "grp_ptr g" es f] by (simp add: upd_group_def)
  then show ?thesis using mld_ok_replace [of pools ds g es s "f g"] assms gs by simp
qed

lemma mld6_general_query_ok:
  "mld_ok pools (ds @ gs) s \<Longrightarrow> mld_ok pools (ds @ fst (mld6_general_query rand delay gs n)) s"
proof (induction gs arbitrary: ds n)
  case (Cons g gs)
  obtain g' n1 where g': "(if \<not> ip6_addr_ismulticast_iflocal (group_address g) \<and> \<not> ip6_addr_isallnodes_linklocal (group_address g)
      then mld6_delayed_report rand delay g n else (g, n)) = (g', n1)" by (metis surj_pair)
  have wf: "group_wf g" using mld_ok_wf [OF Cons.prems] by simp
  have "grp_ptr g' = grp_ptr g" "group_address g' = group_address g" "group_wf g'"
    using g' wf mld6_delayed_report_wf [OF wf, of rand delay n] by (auto split: if_splits)
  from Cons.IH [of "ds @ [g']" n1] mld_ok_replace [OF Cons.prems this]
  show ?case by (simp add: g' split: prod.splits) (metis fst_conv)
qed simp

lemma mld6_query_ok:
  assumes "mld_ok pools gs s"
  shows "mld_ok pools (fst (mld6_query rand delay mcast dest gs n)) s"
proof -
  have "mld_ok pools (upd_group (grp_ptr g) (\<lambda>_. fst (mld6_delayed_report rand delay g n)) gs) s" if "mld6_lookfor_group gs dest = Some g" for g
  proof -
    have mem: "g \<in> set gs" using lookfor_Some [OF that] by simp
    show ?thesis
      using mld6_delayed_report_wf [OF mld_ok_wf [OF assms mem], of rand delay n] by (intro mld_ok_upd_group [OF assms mem]) simp_all
  qed
  then show ?thesis
    using mld6_general_query_ok [of pools "[]" gs s rand delay n] assms
    by (auto simp: mld6_query_def split: option.splits prod.splits)
qed

lemma mld6_heard_report_ok:
  assumes "mld_ok pools gs s"
  shows "mld_ok pools (mld6_heard_report dest gs) s"
  using assms mld_ok_upd_group [OF assms] lookfor_Some [of gs dest]
  by (auto simp: mld6_heard_report_def group_wf_def split: option.splits)

lemma mld6_input_rx:
  assumes "rx_packet pools p s" "mld_ok pools gs s"
  shows "\<exists>gs' s' n'. mld6_input rand p dest gs s n = Inr (gs', s', n') \<and> freed pools (pbuf_addr ` set p) s s' \<and> mld_ok pools gs' s'"
proof -
  obtain b bs where p: "p = b # bs" using assms(1) by (cases p) (auto simp: rx_packet_def tight_chain_def)
  have in_mem: "payload b + unat (p_len b) \<le> length (pbuf_mem b)" using assms(1) p by (simp add: rx_packet_def tight_chain_def)
  obtain cnt s' where f: "pbuf_free p s = Inr (cnt, [], s')" "freed pools (pbuf_addr ` set p) s s'" using pbuf_free_rx [OF assms(1)] by blast
  show ?thesis
  proof (cases "unat (p_len b) < 24")
    case True
    then show ?thesis using f mld_ok_freed [OF assms(2) f(2)] p by (simp add: mld6_input_def)
  next
    case False
    define h where "h = take 24 (pbuf_bytes b)"
    define r where "r = (if h ! 0 = ICMP6_TYPE_MLQ
        then mld6_query rand (of_be16 (h ! 4) (h ! 5)) (ip6_addr_of_bytes (drop 8 h)) dest gs n
        else if h ! 0 = ICMP6_TYPE_MLR then (mld6_heard_report dest gs, n) else (gs, n))"
    have rd: "mem_read (pbuf_mem b) (payload b) 24 = Inr h" using False pbuf_bytes_read [OF in_mem, of 0 24] by (simp add: h_def)
    have "mld_ok pools (fst r) s"
      unfolding r_def by (simp add: mld6_query_ok [OF assms(2)] mld6_heard_report_ok [OF assms(2)] assms(2))
    moreover have "mld6_input rand p dest gs s n = Inr (fst r, s', snd r)"
      unfolding mld6_input_def p list.case
      by (simp only: False if_False rd sum.case r_def [symmetric] f(1) [unfolded p] Let_def case_prod_beta map_sum.simps fst_conv snd_conv)
    ultimately show ?thesis using f(2) mld_ok_freed [OF _ f(2)] by blast
  qed
qed

subsection \<open>Responses and echo\<close>

lemma output_free:
  assumes "ip6_output_if out [b] src (Some d) hl tc nxt netif s n = Inr (err, c, s1, n1)" "pbuf_free c s1 = Inr (cnt, rest, s2)"
  shows "(case ip6_output_if out [b] src (Some d) hl tc nxt netif s n of
      Inl e \<Rightarrow> Inl e | Inr (err, c, s2, n2) \<Rightarrow> map_sum id (\<lambda>(cnt, rest, s3). (s3, n2)) (pbuf_free c s2)) = Inr (s2, n1)"
  using assms by simp

lemma icmp6_send_response_returns:
  assumes "heap_ok (al_heap s)" "memp_ok pools (al_memp s)" "fresh_ok uninit" "output_ok pools out" "tight_chain p" "current_netif ip \<noteq> None"
  shows "\<exists>s' n'. icmp6_send_response uninit out p code dat type ip s n = Inr (s', n') \<and> heap_ok (al_heap s') \<and> memp_ok pools (al_memp s')
    \<and> keeps_pools (al_memp s) (al_memp s')"
proof -
  obtain netif where nif: "current_netif ip = Some netif" using assms(6) by auto
  obtain h hs where p: "p = h # hs" using assms(5) by (cases p) (auto simp: tight_chain_def)
  show ?thesis
  proof (cases "ip6_select_source_address netif (current_iphdr_src ip)")
    case None
    then show ?thesis using nif assms(1,2) by (simp add: icmp6_send_response_def)
  next
    case (Some src)
    let ?dst = "current_iphdr_src ip"
    have eq: "icmp6_send_response uninit out p code dat type ip s n
        = icmp6_send_response_with_addrs_and_netif uninit out (h # hs) code dat type src ?dst netif s n"
      using nif Some p by (simp add: icmp6_send_response_def)
    from icmp6_response_message [OF assms(1,3) assms(5) [unfolded p], of out code dat type src ?dst netif n] show ?thesis
    proof (cases, goal_cases)
      case 1
      then show ?case using eq assms(1,2) by simp
    next
      case (2 b ck s1)
      have "memp_ok pools (al_memp s1)" using assms(2) 2(2) by simp
      from ip6_output_if_returns [OF assms(4) 2(1) this, of "Some src" ?dst LWIP_ICMP6_HL 0 IP6_NEXTH_ICMP6 netif n]
      obtain err c s2 n2 cnt rest s3 where o: "ip6_output_if out [b] (Some src) (Some ?dst) LWIP_ICMP6_HL 0 IP6_NEXTH_ICMP6 netif s1 n = Inr (err, c, s2, n2)"
          "pbuf_free c s2 = Inr (cnt, rest, s3)" "heap_ok (al_heap s3)" "memp_ok pools (al_memp s3)" "keeps_pools (al_memp s1) (al_memp s3)"
        by blast
      show ?case unfolding eq 2(5) output_free [OF o(1,2)] using o(3-5) 2(2) by auto
    qed
  qed
qed

text \<open>The reply to an echo request carries the bytes of the request, with the type and the checksum changed.\<close>

lemma icmp6_echo_send_message:
  assumes r: "ip_packet 54 (is_alloc st) r" "8 \<le> unat (p_len r)" "chain_data [r] = t # c # x # y # rest"
  defines "src \<equiv> current_iphdr_src (is_ip st)"
  shows "\<exists>b ck. ip_packet 54 (is_alloc st) b \<and> chain_data [b] = ICMP6_TYPE_EREP # c # be16 ck @ rest
    \<and> ip6_chksum_pseudo [b] IP6_NEXTH_ICMP6 (tot_len b) reply_src src = 0
    \<and> icmp6_echo_send out p [r] reply_src inp st =
        (case ip6_output_if out [b] (Some reply_src) (Some src) LWIP_ICMP6_HL 0 IP6_NEXTH_ICMP6 inp (is_alloc st) (is_net st) of
           Inl e \<Rightarrow> Inl e
         | Inr (err, c4, s, n) \<Rightarrow>
             (case drop_packet c4 (st\<lparr>is_alloc := s, is_net := n\<rparr>) of Inl e \<Rightarrow> Inl e | Inr st' \<Rightarrow> drop_packet p st'))"
proof -
  have okr: "chain_ok [r]" using r(1) by (simp add: ip_packet_def)
  obtain m1 where w1: "write_payload r 0 [ICMP6_TYPE_EREP] = Inr (r\<lparr>pbuf_mem := m1\<rparr>)" "chain_ok [r\<lparr>pbuf_mem := m1\<rparr>]"
      "chain_data [r\<lparr>pbuf_mem := m1\<rparr>] = put_bytes (chain_data [r]) 0 [ICMP6_TYPE_EREP]"
    using write_one [OF okr, of 0 "[ICMP6_TYPE_EREP]"] r(2) by auto
  obtain m2 where w2: "write_payload (r\<lparr>pbuf_mem := m1\<rparr>) 2 (be16 0) = Inr (r\<lparr>pbuf_mem := m2\<rparr>)" "chain_ok [r\<lparr>pbuf_mem := m2\<rparr>]"
      "chain_data [r\<lparr>pbuf_mem := m2\<rparr>] = put_bytes (chain_data [r\<lparr>pbuf_mem := m1\<rparr>]) 2 (be16 0)"
    using write_one [OF w1(2), of 2 "be16 0"] r(2) by auto
  have d2: "chain_data [r\<lparr>pbuf_mem := m2\<rparr>] = ICMP6_TYPE_EREP # c # 0 # 0 # rest"
    unfolding w2(3) w1(3) r(3) by (simp add: put_bytes_def be16_def)
  have "4 \<le> unat (p_len (r\<lparr>pbuf_mem := m2\<rparr>))" using r(2) by simp
  from put_icmp6_chksum_spec [OF w2(2) this d2, of "tot_len r" reply_src src] obtain b ck where
    b: "put_icmp6_chksum [r\<lparr>pbuf_mem := m2\<rparr>] (tot_len r) reply_src src = Inr [b]" "chain_ok [b]"
      "chain_data [b] = ICMP6_TYPE_EREP # c # be16 ck @ rest" "ip6_chksum_pseudo [b] IP6_NEXTH_ICMP6 (tot_len r) reply_src src = 0"
      "p_ref b = p_ref r" "pbuf_addr b = pbuf_addr r" "type_internal b = type_internal r" "payload b = payload r" "tot_len b = tot_len r"
    by auto
  have "ip_packet 54 (is_alloc st) b" using r(1) b by (simp add: ip_packet_def)
  moreover have "icmp6_echo_send out p [r] reply_src inp st =
        (case ip6_output_if out [b] (Some reply_src) (Some src) LWIP_ICMP6_HL 0 IP6_NEXTH_ICMP6 inp (is_alloc st) (is_net st) of
           Inl e \<Rightarrow> Inl e
         | Inr (err, c4, s, n) \<Rightarrow>
             (case drop_packet c4 (st\<lparr>is_alloc := s, is_net := n\<rparr>) of Inl e \<Rightarrow> Inl e | Inr st' \<Rightarrow> drop_packet p st'))"
    using w1(1) w2(1) b(1) by (simp add: icmp6_echo_send_def src_def)
  ultimately show ?thesis using b(3,4,9) by (intro exI [of _ b] exI [of _ ck]) simp
qed

lemma icmp6_echo_copy:
  assumes "tight_chain p" "8 \<le> unat (tot_len (hd p))" "unat (tot_len (hd p)) + 54 < 65536" "heap_ok (al_heap s)" "fresh_ok uninit"
  obtains "pbuf_alloc uninit PBUF_IP (tot_len (hd p)) PBUF_RAM s = Inr ([], s)"
  | r r1 s1 where "pbuf_alloc uninit PBUF_IP (tot_len (hd p)) PBUF_RAM s = Inr ([r], s1)" "pbuf_copy [r] p = Inr (ERR_OK, [r1])"
      "ip_packet 54 s1 r1" "p_len r1 = tot_len (hd p)" "chain_data [r1] = chain_data p" "al_memp s1 = al_memp s"
proof -
  obtain h hs where p: "p = h # hs" using assms(1) by (cases p) (auto simp: tight_chain_def)
  have t: "tight_chain (h # hs)" using assms(1) p by simp
  from pbuf_alloc_ip [OF assms(4,5,3)] show thesis
  proof (cases, goal_cases)
    case 1
    then show ?case by (rule that(1))
  next
    case (2 r s1)
    have okr: "chain_ok [r]" using 2(2) by (simp add: ip_packet_def)
    have "unat (0 :: u16) + unat (tot_len h) \<le> unat (p_len r)" using 2(3) p by simp
    from pbuf_copy_partial_pbuf_one [OF okr t this] obtain m where
      m: "pbuf_copy_partial_pbuf [r] (h # hs) (tot_len h) 0 = Inr (ERR_OK, [r\<lparr>pbuf_mem := m\<rparr>])" "chain_ok [r\<lparr>pbuf_mem := m\<rparr>]"
        "chain_data [r\<lparr>pbuf_mem := m\<rparr>] = put_bytes (chain_data [r]) 0 (take (unat (tot_len h)) (chain_data (h # hs)))"
      by auto
    have "length (chain_data [r]) = length (chain_data (h # hs))"
      using length_chain_data [OF okr] 2(3) p tight_chain_len [OF t] by simp
    then have d: "chain_data [r\<lparr>pbuf_mem := m\<rparr>] = chain_data p"
      unfolding m(3) p tight_chain_len [OF t] by (simp add: put_bytes_def del: chain_data_simps)
    show ?case using that(2) [OF 2(1) _ _ _ d 2(5)] m(1) ip_packet_mem [OF 2(2) m(2)] 2(3) p by (simp add: pbuf_copy_def)
  qed
qed

text \<open>A packet from the heap is freed next to a received one.\<close>

lemma drop_held:
  assumes "heap_ok (al_heap (is_alloc st))" "ip_packet k s r" "al_heap s = al_heap (is_alloc st)"
  shows "\<exists>s'. drop_packet [r] st = Inr (st\<lparr>is_alloc := s'\<rparr>) \<and> heap_ok (al_heap s') \<and> al_memp s' = al_memp (is_alloc st)"
proof -
  have "\<exists>cnt rest s'. pbuf_free [r] (is_alloc st) = Inr (cnt, rest, s') \<and> heap_ok (al_heap s') \<and> al_memp s' = al_memp (is_alloc st)"
    using assms by (intro pbuf_free_held) (auto simp: ip_packet_def pbuf_get_allocsrc_def)
  then show ?thesis by (auto simp: drop_packet_def)
qed

lemma st_freed_alloc:
  assumes "st_freed pools p st st'" "heap_ok (al_heap s)" "al_memp s = al_memp (is_alloc st')"
  shows "st_freed pools p st (st'\<lparr>is_alloc := s\<rparr>)"
  using assms by (auto simp: st_freed_def freed_def mld_ok_def)

lemma icmp6_echo_send_rx:
  assumes "rx_packet pools p (is_alloc st)" "mld_ok pools (is_mld st) (is_alloc st)" "output_ok pools out"
    and r: "ip_packet 54 (is_alloc st) r" "8 \<le> unat (p_len r)"
  shows "\<exists>st'. icmp6_echo_send out p [r] reply_src inp st = Inr st' \<and> st_freed pools p st st'"
proof -
  have okr: "chain_ok [r]" using r(1) by (simp add: ip_packet_def)
  have "4 \<le> length (chain_data [r])" using r(2) length_chain_data [OF okr] by simp
  then obtain t c x y rest where d: "chain_data [r] = t # c # x # y # rest"
    by (cases "chain_data [r]"; cases "tl (chain_data [r])"; cases "tl (tl (chain_data [r]))"; cases "tl (tl (tl (chain_data [r])))") auto
  from icmp6_echo_send_message [OF r d, of reply_src out p inp] obtain b where
    b: "ip_packet 54 (is_alloc st) b" and eq: "icmp6_echo_send out p [r] reply_src inp st =
        (case ip6_output_if out [b] (Some reply_src) (Some (current_iphdr_src (is_ip st))) LWIP_ICMP6_HL 0 IP6_NEXTH_ICMP6 inp (is_alloc st) (is_net st) of
           Inl e \<Rightarrow> Inl e
         | Inr (err, c4, s, n) \<Rightarrow>
             (case drop_packet c4 (st\<lparr>is_alloc := s, is_net := n\<rparr>) of Inl e \<Rightarrow> Inl e | Inr st' \<Rightarrow> drop_packet p st'))"
    by blast
  have "memp_ok pools (al_memp (is_alloc st))" using assms(1) by (simp add: rx_packet_def)
  from ip6_output_if_returns [OF assms(3) b this, of "Some reply_src" "current_iphdr_src (is_ip st)" LWIP_ICMP6_HL 0 IP6_NEXTH_ICMP6 inp "is_net st"]
  obtain err c4 s1 n1 cnt rest s2 where
    o: "ip6_output_if out [b] (Some reply_src) (Some (current_iphdr_src (is_ip st))) LWIP_ICMP6_HL 0 IP6_NEXTH_ICMP6 inp (is_alloc st) (is_net st)
        = Inr (err, c4, s1, n1)" "pbuf_free c4 s1 = Inr (cnt, rest, s2)" "heap_ok (al_heap s2)" "memp_ok pools (al_memp s2)"
      "keeps_pools (al_memp (is_alloc st)) (al_memp s2)"
    by blast
  let ?st = "st\<lparr>is_alloc := s2, is_net := n1\<rparr>"
  have "rx_packet pools p (is_alloc ?st)" "mld_ok pools (is_mld ?st) (is_alloc ?st)"
    using rx_packet_keeps [OF assms(1) o(3-5)] mld_ok_keeps [OF assms(2) o(3-5)] by simp_all
  from drop_packet_rx [OF this] obtain s3 where s3: "drop_packet p ?st = Inr (?st\<lparr>is_alloc := s3\<rparr>)" "st_freed pools p ?st (?st\<lparr>is_alloc := s3\<rparr>)"
    by blast
  have "drop_packet c4 (st\<lparr>is_alloc := s1, is_net := n1\<rparr>) = Inr ?st" using o(2) by (simp add: drop_packet_def)
  then have "icmp6_echo_send out p [r] reply_src inp st = Inr (?st\<lparr>is_alloc := s3\<rparr>)" unfolding eq o(1) using s3(1) by simp
  moreover have "st_freed pools p st (?st\<lparr>is_alloc := s3\<rparr>)" using s3(2) freed_keeps [OF o(5)] by (auto simp: st_freed_def)
  ultimately show ?thesis by blast
qed

lemma icmp6_echo_rx:
  assumes rx: "rx_packet pools p (is_alloc st)" "mld_ok pools (is_mld st) (is_alloc st)" and env: "output_ok pools out" "fresh_ok uninit"
    and len: "8 \<le> unat (p_len (hd p))"
  shows "\<exists>st'. icmp6_echo uninit out p inp st = Inr st' \<and> st_freed pools p st st'"
proof -
  have p: "tight_chain p" "unat (tot_len (hd p)) + 54 < 65536" "heap_ok (al_heap (is_alloc st))" "memp_ok pools (al_memp (is_alloc st))"
    using rx(1) by (simp_all add: rx_packet_def)
  have "unat (p_len (hd p)) \<le> unat (tot_len (hd p))" using p(1) by (cases p) (auto simp: tight_chain_def)
  then have tl: "8 \<le> unat (tot_len (hd p))" using len by simp
  from icmp6_echo_copy [OF p(1) tl p(2,3) env(2)] show ?thesis
  proof (cases, goal_cases)
    case 1
    then show ?case using drop_packet_rx [OF rx] by (auto simp: icmp6_echo_def)
  next
    case (2 r r1 s1)
    let ?st = "st\<lparr>is_alloc := s1\<rparr>"
    have h1: "heap_ok (al_heap s1)" "memp_ok pools (al_memp s1)" "keeps_pools (al_memp (is_alloc st)) (al_memp s1)"
      using 2(3,6) p(4) by (simp_all add: ip_packet_def)
    have rx1: "rx_packet pools p (is_alloc ?st)" "mld_ok pools (is_mld ?st) (is_alloc ?st)"
      using rx_packet_keeps [OF rx(1) h1] mld_ok_keeps [OF rx(2) h1] by simp_all
    have fr: "st_freed pools p ?st st' \<Longrightarrow> st_freed pools p st st'" for st' using freed_keeps [OF h1(3)] by (simp add: st_freed_def)
    obtain s2 where s2: "drop_packet p ?st = Inr (?st\<lparr>is_alloc := s2\<rparr>)" "st_freed pools p ?st (?st\<lparr>is_alloc := s2\<rparr>)" "al_heap s2 = al_heap s1"
      using drop_packet_rx [OF rx1] by auto
    have hh: "heap_ok (al_heap (is_alloc (?st\<lparr>is_alloc := s2\<rparr>)))" using s2(2) by (simp add: st_freed_def freed_def)
    have eqh: "al_heap s1 = al_heap (is_alloc (?st\<lparr>is_alloc := s2\<rparr>))" using s2(3) by simp
    from drop_held [OF hh 2(3) eqh] obtain s3 where
      s3: "drop_packet [r1] (?st\<lparr>is_alloc := s2\<rparr>) = Inr (?st\<lparr>is_alloc := s3\<rparr>)" "heap_ok (al_heap s3)" "al_memp s3 = al_memp s2"
      by auto
    have give_up: "\<exists>st'. (case drop_packet p ?st of Inl e \<Rightarrow> Inl e | Inr st2 \<Rightarrow> drop_packet [r1] st2) = Inr st' \<and> st_freed pools p st st'"
      using s2(1) s3 fr [OF st_freed_alloc [OF s2(2) s3(2)]] by simp
    have "8 \<le> unat (p_len r1)" using 2(4) tl by simp
    then have send: "\<exists>st'. icmp6_echo_send out p [r1] a inp ?st = Inr st' \<and> st_freed pools p st st'" for a
      using icmp6_echo_send_rx [OF rx1 env(1), of r1 a inp] 2(3) fr by auto
    let ?d = "current_iphdr_dest (is_ip st)"
    have eq: "icmp6_echo uninit out p inp st =
        (if ip6_addr_ismulticast ?d
         then (case ip6_select_source_address inp (current_iphdr_src (is_ip st)) of
                 None \<Rightarrow> (case drop_packet p ?st of Inl e \<Rightarrow> Inl e | Inr st2 \<Rightarrow> drop_packet [r1] st2)
               | Some a \<Rightarrow> icmp6_echo_send out p [r1] a inp ?st)
         else icmp6_echo_send out p [r1] ?d inp ?st)"
      unfolding icmp6_echo_def 2(1) sum.case prod.case list.case 2(2) Let_def by simp
    show ?case
    proof (cases "ip6_addr_ismulticast ?d")
      case True
      show ?thesis
      proof (cases "ip6_select_source_address inp (current_iphdr_src (is_ip st))")
        case None
        then show ?thesis unfolding eq using True give_up by simp
      next
        case (Some a)
        then show ?thesis unfolding eq using True send [of a] by simp
      qed
    next
      case False
      then show ?thesis unfolding eq using send [of ?d] by simp
    qed
  qed
qed

subsection \<open>Input\<close>

text \<open>What \<open>nd6_input\<close> promises: it returns and has freed the packet.\<close>

definition nd6_ok :: "(memp_t \<Rightarrow> memp_desc) \<Rightarrow> ('cb, 'n) nd6_input_fn \<Rightarrow> bool" where
  "nd6_ok pools nd6_input \<longleftrightarrow>
     (\<forall>p inp st. rx_packet pools p (is_alloc st) \<and> mld_ok pools (is_mld st) (is_alloc st) \<longrightarrow>
        (\<exists>st'. nd6_input p inp st = Inr st' \<and> st_freed pools p st st'))"

lemma icmp6_input_rx:
  assumes rx: "rx_packet pools p (is_alloc st)" "mld_ok pools (is_mld st) (is_alloc st)"
    and env: "output_ok pools out" "fresh_ok uninit" "nd6_ok pools nd6_input"
  shows "\<exists>st'. icmp6_input uninit out rand nd6_input p inp st = Inr st' \<and> st_freed pools p st st'"
proof -
  obtain b bs where p: "p = b # bs" using rx(1) by (cases p) (auto simp: rx_packet_def tight_chain_def)
  have drop: "\<exists>st'. drop_packet p st = Inr st' \<and> st_freed pools p st st'" using drop_packet_rx [OF rx] by blast
  have nd: "\<exists>st'. nd6_input p inp st = Inr st' \<and> st_freed pools p st st'" using env(3) rx unfolding nd6_ok_def by blast
  have mld: "\<exists>st'. map_sum id (\<lambda>(gs, s, n). st\<lparr>is_mld := gs, is_alloc := s, is_net := n\<rparr>)
      (mld6_input rand p (current_iphdr_dest (is_ip st)) (is_mld st) (is_alloc st) (is_net st)) = Inr st' \<and> st_freed pools p st st'"
    using mld6_input_rx [OF rx, of rand "current_iphdr_dest (is_ip st)" "is_net st"] by (auto simp: st_freed_def)
  show ?thesis
  proof (cases "unat (p_len b) < 8")
    case True
    then show ?thesis using drop p by (simp add: icmp6_input_def)
  next
    case False
    have "payload b < length (pbuf_mem b)" using rx(1) p False by (auto simp: rx_packet_def tight_chain_def)
    then have ty: "mem_get (pbuf_mem b) (payload b) = Inr (pbuf_mem b ! payload b)" by simp
    have "8 \<le> unat (p_len (hd p))" using False p by simp
    from icmp6_echo_rx [OF rx env(1,2) this] have echo: "\<exists>st'. icmp6_echo uninit out p inp st = Inr st' \<and> st_freed pools p st st'" .
    show ?thesis
      unfolding icmp6_input_def p list.case ty sum.case using drop nd mld echo unfolding p by simp
  qed
qed

section \<open>Properties\<close>

text \<open>
  C15: the echo reply. An echo request with a valid checksum is answered, memory permitting, with one message: the bytes of the request
  with the type changed to a reply and a checksum that verifies, from the address that was asked (for a group, from one the interface
  selects) to the sender; then the reply and the request are freed.
\<close>

theorem icmp6_echo_replies:
  fixes st :: "('cb, 'n) ip6_state"
  defines "src \<equiv> current_iphdr_src (is_ip st)" and "d \<equiv> current_iphdr_dest (is_ip st)"
  assumes p: "tight_chain p" "8 \<le> unat (p_len (hd p))" "unat (tot_len (hd p)) + 54 < 65536"
      "chain_data p = ICMP6_TYPE_EREQ # code # x # y # rest" "ip6_chksum_pseudo p IP6_NEXTH_ICMP6 (tot_len (hd p)) src d = 0"
    and mem: "heap_ok (al_heap (is_alloc st))" "fresh_ok uninit"
      "pbuf_alloc uninit PBUF_IP (tot_len (hd p)) PBUF_RAM (is_alloc st) \<noteq> Inr ([], is_alloc st)"
    and a: "(if ip6_addr_ismulticast d then ip6_select_source_address inp src else Some d) = Some a"
  shows "\<exists>b ck s1. chain_data [b] = ICMP6_TYPE_EREP # code # be16 ck @ rest \<and> ip6_chksum_pseudo [b] IP6_NEXTH_ICMP6 (tot_len b) a src = 0
    \<and> icmp6_input uninit out rand nd6_input p inp st =
        (case ip6_output_if out [b] (Some a) (Some src) LWIP_ICMP6_HL 0 IP6_NEXTH_ICMP6 inp s1 (is_net st) of
           Inl e \<Rightarrow> Inl e
         | Inr (err, c, s, n) \<Rightarrow> (case drop_packet c (st\<lparr>is_alloc := s, is_net := n\<rparr>) of Inl e \<Rightarrow> Inl e | Inr st' \<Rightarrow> drop_packet p st'))"
proof -
  obtain h hs where hp: "p = h # hs" using p(1) by (cases p) (auto simp: tight_chain_def)
  have in_mem: "payload h + unat (p_len h) \<le> length (pbuf_mem h)" using p(1) hp by (simp add: tight_chain_def)
  have "8 \<le> length (pbuf_bytes h)" using p(2) hp length_pbuf_bytes [OF in_mem] by simp
  then have "pbuf_bytes h ! 0 = chain_data p ! 0" unfolding hp by (cases "pbuf_bytes h") simp_all
  then have "pbuf_mem h ! payload h = ICMP6_TYPE_EREQ" "payload h < length (pbuf_mem h)"
    using p(2,4) hp in_mem by (auto simp: pbuf_bytes_def)
  then have ty: "mem_get (pbuf_mem h) (payload h) = Inr ICMP6_TYPE_EREQ" by simp
  have "icmp6_input uninit out rand nd6_input p inp st = icmp6_echo uninit out p inp st"
    using p(2,5) ty unfolding icmp6_input_def hp src_def d_def
    by (simp add: ICMP6_TYPE_EREQ_def ICMP6_TYPE_NA_def ICMP6_TYPE_NS_def ICMP6_TYPE_RA_def ICMP6_TYPE_RD_def ICMP6_TYPE_PTB_def ICMP6_TYPE_RS_def
        ICMP6_TYPE_MLQ_def ICMP6_TYPE_MLR_def ICMP6_TYPE_MLD_def)
  moreover have tl: "8 \<le> unat (tot_len (hd p))" using p(1,2) hp by (simp add: tight_chain_def)
  moreover obtain r r1 s1 where r: "pbuf_alloc uninit PBUF_IP (tot_len (hd p)) PBUF_RAM (is_alloc st) = Inr ([r], s1)"
      "pbuf_copy [r] p = Inr (ERR_OK, [r1])" "ip_packet 54 s1 r1" "p_len r1 = tot_len (hd p)" "chain_data [r1] = chain_data p"
    using icmp6_echo_copy [OF p(1) tl p(3) mem(1,2)] mem(3) by metis
  moreover have "icmp6_echo uninit out p inp st = icmp6_echo_send out p [r1] a inp (st\<lparr>is_alloc := s1\<rparr>)"
    using a unfolding icmp6_echo_def r(1) sum.case prod.case list.case r(2) Let_def src_def d_def by (auto split: if_splits)
  moreover have "ip_packet 54 (is_alloc (st\<lparr>is_alloc := s1\<rparr>)) r1" "8 \<le> unat (p_len r1)"
      "chain_data [r1] = ICMP6_TYPE_EREQ # code # x # y # rest"
    using r(3-5) p(4) tl by simp_all
  moreover have "st\<lparr>is_alloc := s1, is_alloc := s, is_net := n\<rparr> = st\<lparr>is_alloc := s, is_net := n\<rparr>" for s n by simp
  note icmp6_echo_send_message [of "st\<lparr>is_alloc := s1\<rparr>" r1 ICMP6_TYPE_EREQ code x y rest a out p inp, unfolded this]
  ultimately show ?thesis by (auto simp: src_def)
qed

definition ping :: pbuf where
  "ping = \<lparr>pbuf_addr = 0, pbuf_mem = [128, 0, 0x82, 0xb6, 0, 1, 0, 1], payload = 0, tot_len = 8, p_len = 8,
     type_internal = 0x82, p_flags = 0, p_ref = 1, if_idx = 0\<rparr>"

definition ping_state :: "(nat, bytes list) ip6_state" where
  "ping_state = \<lparr>is_ip = \<lparr>current_netif = Some sample_netif, current_input_netif = Some sample_netif, current_ip6_header = Some 0,
     current_ip_header_tot_len = 40, current_iphdr_src = IP6 0xfe800000 0 0 2, current_iphdr_dest = IP6 0xfe800000 0 0 1\<rparr>,
     is_alloc = alloc0, is_udp = udp0, is_mld = [], is_net = []\<rparr>"

lemma alloc0_memory: "pbuf_alloc zeros PBUF_IP 8 PBUF_RAM alloc0 \<noteq> Inr ([], alloc0)"
proof -
  have "request_ok 80" "find (block_fits heap1 (malloc_size 80)) [0, 112] = Some 112"
    by (simp_all add: request_ok_def block_fits_def is_used_def heap1_hdr malloc_size_def LWIP_MEM_ALIGN_SIZE_def mem_consts)
  then obtain a h where "mem_malloc 80 heap1 = Inr (Some a, h)"
    using mem_malloc_fits [OF heap1_inv] by blast
  then show ?thesis
    by (simp add: pbuf_alloc_def Let_def alloc0_def SIZEOF_STRUCT_PBUF_def LWIP_MEM_ALIGN_SIZE_def)
qed

theorem icmp6_echo_replies_witness:
  "\<exists>b ck s1. chain_data [b] = 129 # 0 # be16 ck @ [0, 1, 0, 1]
    \<and> icmp6_input zeros log_output (\<lambda>n. (0, n)) (\<lambda>p inp st. Inr st) [ping] sample_netif ping_state =
        (case ip6_output_if log_output [b] (Some (IP6 0xfe800000 0 0 1)) (Some (IP6 0xfe800000 0 0 2)) LWIP_ICMP6_HL 0 IP6_NEXTH_ICMP6
                sample_netif s1 [] of
           Inl e \<Rightarrow> Inl e
         | Inr (err, c, s, n) \<Rightarrow> (case drop_packet c (ping_state\<lparr>is_alloc := s, is_net := n\<rparr>) of Inl e \<Rightarrow> Inl e | Inr st' \<Rightarrow> drop_packet [ping] st'))"
proof -
  let ?src = "IP6 0xfe800000 0 0 2" and ?d = "IP6 0xfe800000 0 0 1"
  have st: "current_iphdr_src (is_ip ping_state) = ?src" "current_iphdr_dest (is_ip ping_state) = ?d" "is_alloc ping_state = alloc0" "is_net ping_state = []"
    by (simp_all add: ping_state_def)
  have pk: "tight_chain [ping]" "8 \<le> unat (p_len (hd [ping]))" "unat (tot_len (hd [ping])) + 54 < 65536" "tot_len (hd [ping]) = 8"
      "chain_data [ping] = ICMP6_TYPE_EREQ # 0 # 0x82 # 0xb6 # [0, 1, 0, 1]" "chain_ok [ping]"
    by (simp_all add: ping_def tight_chain_def pbuf_bytes_def ICMP6_TYPE_EREQ_def)
  have "unat (ip6_chksum_pseudo [ping] IP6_NEXTH_ICMP6 8 ?src ?d) = 0"
    unfolding ip6_chksum_pseudo_ones [OF pk(6)] pk(5)
    by (simp add: pseudo_header_def be32_def ones_def IP6_NEXTH_ICMP6_def ICMP6_TYPE_EREQ_def)
  then have ck: "ip6_chksum_pseudo [ping] IP6_NEXTH_ICMP6 (tot_len (hd [ping])) (current_iphdr_src (is_ip ping_state))
      (current_iphdr_dest (is_ip ping_state)) = 0"
    unfolding pk(4) st by (simp add: unat_eq_0)
  have mem: "heap_ok (al_heap (is_alloc ping_state))"
      "pbuf_alloc zeros PBUF_IP (tot_len (hd [ping])) PBUF_RAM (is_alloc ping_state) \<noteq> Inr ([], is_alloc ping_state)"
    unfolding st pk(4) using alloc0_ok(1) alloc0_memory by simp_all
  have a: "(if ip6_addr_ismulticast (current_iphdr_dest (is_ip ping_state)) then ip6_select_source_address sample_netif (current_iphdr_src (is_ip ping_state))
      else Some (current_iphdr_dest (is_ip ping_state))) = Some ?d"
    unfolding st by simp
  have e: "ICMP6_TYPE_EREP = 129" by (simp add: ICMP6_TYPE_EREP_def)
  from icmp6_echo_replies [OF pk(1-3,5) ck mem(1) zeros_fresh mem(2) a, of log_output "\<lambda>n. (0, n)" "\<lambda>p inp st. Inr st"]
  show ?thesis unfolding st e by blast
qed

end
