(* ===== verification/Ip6_Input.thy ===== *)
theory Ip6_Input
  imports Icmp6
begin

text \<open>
  Receiving: \<open>ethernet_input\<close> of lwip/src/netif/ethernet.c and \<open>ip6_input\<close> of lwip/src/core/ipv6/ip6.c with its loop over
  the extension headers, in the configuration without reassembly, forwarding and raw sockets. The receive callbacks of UDP and
  \<open>nd6_input\<close> are arguments.
\<close>

section \<open>Definitions\<close>

subsection \<open>Is the packet for this node?\<close>

fun ip6_addr_isipv4mappedipv6 :: "ip6_addr \<Rightarrow> bool" where
  "ip6_addr_isipv4mappedipv6 (IP6 a b c d) \<longleftrightarrow> a = 0 \<and> b = 0 \<and> c = 0xFFFF"

fun ip6_addr_issolicitednode :: "ip6_addr \<Rightarrow> bool" where
  "ip6_addr_issolicitednode (IP6 a b c d) \<longleftrightarrow> a = 0xff020000 \<and> c = 1 \<and> d AND 0xff000000 = 0xff000000"

definition ip6_input_accept :: "netif \<Rightarrow> ip6_addr \<Rightarrow> bool" where
  "ip6_input_accept netif dest \<longleftrightarrow> netif_is_up netif \<and> list_ex (\<lambda>(a, st). ip6_addr_isvalid st \<and> dest = a) (ip6_addrs netif)"

text \<open>The interface the packet is accepted on; there is no other one to try.\<close>

definition ip6_input_netif :: "netif \<Rightarrow> mld_group list \<Rightarrow> ip6_addr \<Rightarrow> netif option" where
  "ip6_input_netif inp gs dest =
     (if ip6_addr_ismulticast dest
      then (if ip6_addr_isallnodes_iflocal dest \<or> ip6_addr_isallnodes_linklocal dest then Some inp
            else if mld6_lookfor_group gs dest \<noteq> None then Some inp
            else None)
      else if ip6_input_accept inp dest then Some inp
      else None)"

subsection \<open>Extension headers\<close>

definition IP6_JUMBO_OPTION :: u8 where "IP6_JUMBO_OPTION = 194"
definition IP6_HOME_ADDRESS_OPTION :: u8 where "IP6_HOME_ADDRESS_OPTION = 201"

definition IP6_OPT_TYPE_ACTION :: "u8 \<Rightarrow> u8" where
  "IP6_OPT_TYPE_ACTION type = drop_bit 6 type AND 0x3"

text \<open>
  The loop over the options of one header, from \<open>off\<close>: the offset after them, or the reason to drop the packet. The
  header starts at \<open>base\<close> in the memory \<open>m\<close>; \<open>home\<close> is set for destination options.
\<close>

datatype opt_verdict = Opts_done | Opt_discard | Opt_problem nat | Opt_problem_unicast nat

function ip6_options_loop :: "bytes \<Rightarrow> nat \<Rightarrow> nat \<Rightarrow> bool \<Rightarrow> nat \<Rightarrow> opt_verdict result" where
  "ip6_options_loop m base hlen home off =
     (if off < hlen then
        (case mem_get m (base + off) of
           Inl e \<Rightarrow> Inl e
         | Inr type \<Rightarrow>
             if type = IP6_PAD1_OPTION then ip6_options_loop m base hlen home (off + 1)
             else if type = IP6_PADN_OPTION \<or> type = IP6_ROUTER_ALERT_OPTION \<or> type = IP6_JUMBO_OPTION
                 \<or> (home \<and> type = IP6_HOME_ADDRESS_OPTION) \<or> IP6_OPT_TYPE_ACTION type = 0
             then (case mem_get m (base + off + 1) of
                     Inl e \<Rightarrow> Inl e
                   | Inr dlen \<Rightarrow> ip6_options_loop m base hlen home (off + 2 + unat dlen))
             else if IP6_OPT_TYPE_ACTION type = 1 then Inr Opt_discard
             else if IP6_OPT_TYPE_ACTION type = 2 then Inr (Opt_problem (base + off))
             else Inr (Opt_problem_unicast (base + off)))
      else Inr Opts_done)"
  by pat_completeness auto

termination ip6_options_loop
  by (relation "measure (\<lambda>(m, base, hlen, home, off). hlen - off)") auto

declare ip6_options_loop.simps [simp del]

text \<open>
  What one header does to the packet: go on behind it, with the next header value, the place of that value and the length of all headers;
  drop the packet; or report a problem and drop it.
\<close>

datatype ext_verdict = Ext_next chain u8 nat u16 | Ext_drop chain | Ext_problem chain u8 nat

definition skip_header :: "pbuf \<Rightarrow> chain \<Rightarrow> u16 \<Rightarrow> u8 \<Rightarrow> u16 \<Rightarrow> ext_verdict" where
  "skip_header b bs hlen nxt hlen_tot =
     Ext_next (snd (pbuf_remove_header b (ucast hlen)) # bs) nxt (payload b) (hlen_tot + hlen)"

definition ext_hlen :: "u8 \<Rightarrow> u16" where
  "ext_hlen units = 8 * (1 + ucast units)"

definition ip6_options_header :: "bool \<Rightarrow> bool \<Rightarrow> pbuf \<Rightarrow> chain \<Rightarrow> u16 \<Rightarrow> ext_verdict result" where
  "ip6_options_header home mcast b bs hlen_tot =
     (case mem_read (pbuf_mem b) (payload b) 2 of
        Inl e \<Rightarrow> Inl e
      | Inr h \<Rightarrow>
          (let hlen = ext_hlen (h ! 1) in
           if p_len b < 8 \<or> hlen > p_len b then Inr (Ext_drop (b # bs))
           else
             (case ip6_options_loop (pbuf_mem b) (payload b) (unat hlen) home 2 of
                Inl e \<Rightarrow> Inl e
              | Inr Opt_discard \<Rightarrow> Inr (Ext_drop (b # bs))
              | Inr (Opt_problem ptr) \<Rightarrow> Inr (Ext_problem (b # bs) ICMP6_PP_OPTION ptr)
              | Inr (Opt_problem_unicast ptr) \<Rightarrow>
                  Inr (if mcast then Ext_drop (b # bs) else Ext_problem (b # bs) ICMP6_PP_OPTION ptr)
              | Inr Opts_done \<Rightarrow> Inr (skip_header b bs hlen (h ! 0) hlen_tot))))"

definition ip6_routing_header :: "pbuf \<Rightarrow> chain \<Rightarrow> u16 \<Rightarrow> ext_verdict result" where
  "ip6_routing_header b bs hlen_tot =
     (case mem_read (pbuf_mem b) (payload b) 2 of
        Inl e \<Rightarrow> Inl e
      | Inr h \<Rightarrow>
          (let hlen = ext_hlen (h ! 1) in
           if p_len b < 8 \<or> hlen > p_len b then Inr (Ext_drop (b # bs))
           else
             (case mem_read (pbuf_mem b) (payload b) 4 of
                Inl e \<Rightarrow> Inl e
              | Inr r \<Rightarrow>
                  if r ! 3 \<noteq> 0 \<and> r ! 1 AND 1 \<noteq> 0 then Inr (Ext_problem (b # bs) ICMP6_PP_FIELD (payload b + 1))
                  else if r ! 3 \<noteq> 0 \<and> r ! 2 \<noteq> 2 \<and> r ! 2 \<noteq> 3 then Inr (Ext_problem (b # bs) ICMP6_PP_FIELD (payload b + 2))
                  else Inr (skip_header b bs hlen (h ! 0) hlen_tot))))"

definition ip6_fragment_header :: "u16 \<Rightarrow> nat \<Rightarrow> pbuf \<Rightarrow> chain \<Rightarrow> u16 \<Rightarrow> ext_verdict result" where
  "ip6_fragment_header pl iph b bs hlen_tot =
     (if 8 > p_len b then Inr (Ext_drop (b # bs))
      else
        (case mem_read (pbuf_mem b) (payload b) 8 of
           Inl e \<Rightarrow> Inl e
         | Inr f \<Rightarrow>
             (let fo = of_be16 (f ! 2) (f ! 3) in
              if fo AND 1 \<noteq> 0 \<and> pl AND 7 \<noteq> 0 then Inr (Ext_problem (b # bs) ICMP6_PP_FIELD (iph + 4))
              else if fo AND (0xfff8 OR 1) = 0 then Inr (skip_header b bs 8 (f ! 0) hlen_tot)
              else Inr (Ext_drop (b # bs)))))"

text \<open>The \<open>switch\<close> of the loop; \<open>None\<close> is \<open>goto options_done\<close>.\<close>

definition ip6_ext_header :: "bool \<Rightarrow> u16 \<Rightarrow> nat \<Rightarrow> u8 \<Rightarrow> pbuf \<Rightarrow> chain \<Rightarrow> u16 \<Rightarrow> ext_verdict option result" where
  "ip6_ext_header mcast pl iph nxt b bs hlen_tot =
     (if nxt = IP6_NEXTH_HOPBYHOP then map_sum id Some (ip6_options_header False mcast b bs hlen_tot)
      else if nxt = IP6_NEXTH_DESTOPTS then map_sum id Some (ip6_options_header True mcast b bs hlen_tot)
      else if nxt = IP6_NEXTH_ROUTING then map_sum id Some (ip6_routing_header b bs hlen_tot)
      else if nxt = IP6_NEXTH_FRAGMENT then map_sum id Some (ip6_fragment_header pl iph b bs hlen_tot)
      else Inr None)"

lemma ext_hlen_unat: "unat (ext_hlen u) = 8 * (1 + unat u)"
proof -
  have "unat u < 256" using unsigned_less [of u] by simp
  moreover have "unat (ucast u :: u16) = unat u" by (rule unat_ucast_u8)
  ultimately show ?thesis unfolding ext_hlen_def by (simp add: unat_word_ariths)
qed

lemma skip_header_eq:
  assumes "0 < hlen" "hlen \<le> p_len b"
  shows "skip_header b bs hlen nxt ht = Ext_next (cut_front (unat hlen) b # bs) nxt (payload b) (ht + hlen)"
proof -
  have u: "(ucast (ucast hlen :: u32) :: u16) = hlen" "unat (ucast hlen :: u32) = unat hlen"
    by (rule bit_word_eqI) (auto simp: bit_simps unat_ucast_u16)
  have "unat hlen < 65536" "0 < unat hlen" using unsigned_less [of hlen] assms(1) by (simp_all add: word_less_nat_alt)
  then have "\<not> (ucast hlen :: u32) > 0xFFFF" "(ucast hlen :: u32) \<noteq> 0" using u(2) by (auto simp: word_less_nat_alt simp flip: unat_eq_0)
  then show ?thesis using assms(2) by (simp add: skip_header_def pbuf_remove_header_def Let_def u cut_front_def)
qed

lemma ext_hlen_pos: "0 < ext_hlen u"
  by (simp add: word_less_nat_alt ext_hlen_unat)

text \<open>Every header that is skipped fits in the first pbuf.\<close>

lemma ip6_ext_header_next:
  assumes "ip6_ext_header mcast pl iph nxt b bs ht = Inr (Some (Ext_next p' n' np' ht'))"
  shows "\<exists>hlen. 8 \<le> unat hlen \<and> unat hlen mod 8 = 0 \<and> hlen \<le> p_len b \<and> p' = cut_front (unat hlen) b # bs \<and> np' = payload b \<and> ht' = ht + hlen"
proof -
  have "(\<exists>u n. ext_hlen u \<le> p_len b \<and> skip_header b bs (ext_hlen u) n ht = Ext_next p' n' np' ht')
      \<or> (\<exists>n. 8 \<le> p_len b \<and> skip_header b bs 8 n ht = Ext_next p' n' np' ht')"
    using assms
    by (auto simp: ip6_ext_header_def ip6_options_header_def ip6_routing_header_def ip6_fragment_header_def Let_def not_less
        split: if_splits sum.splits opt_verdict.splits)
  then obtain hlen n where h: "8 \<le> unat hlen" "unat hlen mod 8 = 0" "hlen \<le> p_len b" "Ext_next p' n' np' ht' = skip_header b bs hlen n ht"
  proof (elim disjE exE conjE, goal_cases)
    case (1 u n)
    then show ?case using 1(1) [of "ext_hlen u" n] by (simp add: ext_hlen_unat)
  next
    case (2 n)
    then show ?case using 2(1) [of 8 n] by simp
  qed
  have "0 < hlen" using h(1) by (simp add: word_less_nat_alt)
  from h(1-3) h(4) [unfolded skip_header_eq [OF this h(3)]] show ?thesis by (intro exI [of _ hlen]) simp
qed

lemma ip6_ext_header_shrinks:
  assumes "ip6_ext_header mcast pl iph nxt b bs ht = Inr (Some (Ext_next p' n' np' ht'))"
  shows "unat (p_len (hd p')) < unat (p_len b)"
proof -
  obtain hlen where "8 \<le> unat hlen" "hlen \<le> p_len b" "p' = cut_front (unat hlen) b # bs" using ip6_ext_header_next [OF assms] by blast
  then have "unat hlen \<le> unat (p_len b)" "8 \<le> unat hlen" "p_len (hd p') = p_len b - hlen" by (simp_all add: word_le_nat_alt cut_front_def)
  then show ?thesis by (simp add: unat_sub word_le_nat_alt)
qed

function ip6_ext_loop :: "bool \<Rightarrow> u16 \<Rightarrow> nat \<Rightarrow> u8 \<Rightarrow> nat \<Rightarrow> chain \<Rightarrow> u16 \<Rightarrow> ext_verdict result" where
  "ip6_ext_loop mcast pl iph nxt np p hlen_tot =
     (case p of
        [] \<Rightarrow> Inl NullDeref
      | b # bs \<Rightarrow>
          if nxt = IP6_NEXTH_NONE then Inr (Ext_next p nxt np hlen_tot)
          else
            (case ip6_ext_header mcast pl iph nxt b bs hlen_tot of
               Inl e \<Rightarrow> Inl e
             | Inr None \<Rightarrow> Inr (Ext_next p nxt np hlen_tot)
             | Inr (Some (Ext_next p' nxt' np' hlen_tot')) \<Rightarrow>
                 if nxt' = IP6_NEXTH_HOPBYHOP then Inr (Ext_problem p' ICMP6_PP_HEADER np')
                 else ip6_ext_loop mcast pl iph nxt' np' p' hlen_tot'
             | Inr (Some v) \<Rightarrow> Inr v))"
  by pat_completeness auto

termination ip6_ext_loop
  by (relation "measure (\<lambda>(mcast, pl, iph, nxt, np, p, hlen_tot). unat (p_len (hd p)))") (auto dest: ip6_ext_header_shrinks)

declare ip6_ext_loop.simps [simp del]

subsection \<open>Input\<close>

definition no_ip_data :: ip_globals where
  "no_ip_data = \<lparr>current_netif = None, current_input_netif = None, current_ip6_header = None, current_ip_header_tot_len = 0,
     current_iphdr_src = IP6_ADDR_ANY, current_iphdr_dest = IP6_ADDR_ANY\<rparr>"

text \<open>The label \<open>ip6_input_cleanup\<close>.\<close>

definition ip6_input_cleanup :: "('cb, 'n) ip6_state result \<Rightarrow> ('cb, 'n) ip6_state result" where
  "ip6_input_cleanup r = map_sum id (\<lambda>st. st\<lparr>is_ip := no_ip_data\<rparr>) r"

definition report_problem ::
  "(nat \<Rightarrow> bytes) \<Rightarrow> 'n output_ip6_fn \<Rightarrow> chain \<Rightarrow> u8 \<Rightarrow> nat \<Rightarrow> ('cb, 'n) ip6_state \<Rightarrow> ('cb, 'n) ip6_state result" where
  "report_problem uninit out p code ptr st =
     (case icmp6_param_problem uninit out p code ptr (is_ip st) (is_alloc st) (is_net st) of
        Inl e \<Rightarrow> Inl e
      | Inr (s, n) \<Rightarrow> drop_packet p (st\<lparr>is_alloc := s, is_net := n\<rparr>))"

text \<open>\<open>options_done\<close>: the packet goes to the upper layer. \<open>first\<close> is the next header field of the IPv6 header.\<close>

definition ip6_input_upper ::
  "(nat \<Rightarrow> bytes) \<Rightarrow> 'n output_ip6_fn \<Rightarrow> 'n rand_fn \<Rightarrow> ('cb, 'n) nd6_input_fn \<Rightarrow> ('cb, 'n) udp_recv_fn \<Rightarrow>
   u8 \<Rightarrow> u8 \<Rightarrow> nat \<Rightarrow> chain \<Rightarrow> netif \<Rightarrow> ('cb, 'n) ip6_state \<Rightarrow> ('cb, 'n) ip6_state result" where
  "ip6_input_upper uninit out rand nd6_input recv first nxt np p inp st =
     (let ip = is_ip st; hlen_tot = current_ip_header_tot_len ip in
      if nxt = IP6_NEXTH_NONE then drop_packet p st
      else if nxt = IP_PROTO_UDP
      then map_sum id (\<lambda>(s, u, n). st\<lparr>is_alloc := s, is_udp := u, is_net := n\<rparr>)
             (udp_input recv (\<lambda>p s n. icmp6_dest_unreach uninit out p ICMP6_DUR_PORT ip s n) p inp (current_iphdr_src ip)
                (current_iphdr_dest ip) hlen_tot (is_alloc st) (is_udp st) (is_net st))
      else if nxt = IP6_NEXTH_ICMP6 then icmp6_input uninit out rand nd6_input p inp st
      else
        (case p of
           [] \<Rightarrow> Inl NullDeref
         | b # bs \<Rightarrow>
             (case pbuf_add_header_force b (ucast hlen_tot) of
                Inl e \<Rightarrow> Inl e
              | Inr (status, b') \<Rightarrow>
                  if \<not> ip6_addr_ismulticast (current_iphdr_dest ip) \<and> first \<noteq> IP6_NEXTH_ICMP6
                  then report_problem uninit out (b' # bs) ICMP6_PP_HEADER np st
                  else drop_packet (b' # bs) st)))"

text \<open>The packet is for this node: the extension headers and the upper layer.\<close>

definition ip6_input_local ::
  "(nat \<Rightarrow> bytes) \<Rightarrow> 'n output_ip6_fn \<Rightarrow> 'n rand_fn \<Rightarrow> ('cb, 'n) nd6_input_fn \<Rightarrow> ('cb, 'n) udp_recv_fn \<Rightarrow>
   ip6_hdr \<Rightarrow> nat \<Rightarrow> chain \<Rightarrow> netif \<Rightarrow> ('cb, 'n) ip6_state \<Rightarrow> ('cb, 'n) ip6_state result" where
  "ip6_input_local uninit out rand nd6_input recv h iph p inp st =
     (case ip6_ext_loop (ip6_addr_ismulticast (hdr_dest h)) (plen h) iph (nexth h) (iph + 6)
             (snd (pbuf_remove_header (hd p) (of_nat IP6_HLEN)) # tl p) (of_nat IP6_HLEN) of
        Inl e \<Rightarrow> Inl e
      | Inr (Ext_drop p') \<Rightarrow> drop_packet p' st
      | Inr (Ext_problem p' code ptr) \<Rightarrow> report_problem uninit out p' code ptr st
      | Inr (Ext_next p' nxt np hlen_tot) \<Rightarrow>
          ip6_input_upper uninit out rand nd6_input recv (nexth h) nxt np p' inp
            (st\<lparr>is_ip := (is_ip st)\<lparr>current_ip_header_tot_len := hlen_tot\<rparr>\<rparr>))"

definition ip6_input ::
  "(nat \<Rightarrow> bytes) \<Rightarrow> 'n output_ip6_fn \<Rightarrow> 'n rand_fn \<Rightarrow> ('cb, 'n) nd6_input_fn \<Rightarrow> ('cb, 'n) udp_recv_fn \<Rightarrow>
   chain \<Rightarrow> netif \<Rightarrow> ('cb, 'n) ip6_state \<Rightarrow> ('cb, 'n) ip6_state result" where
  "ip6_input uninit out rand nd6_input recv p inp st =
     (case p of
        [] \<Rightarrow> Inl NullDeref
      | b # bs \<Rightarrow>
          (case mem_read (pbuf_mem b) (payload b) 4 of
             Inl e \<Rightarrow> Inl e
           | Inr v \<Rightarrow>
               if drop_bit 28 (of_be32 (v ! 0) (v ! 1) (v ! 2) (v ! 3)) AND 0x0f \<noteq> 6 then drop_packet p st
               else if IP6_HLEN > unat (p_len b) then drop_packet p st
               else
                 (case mem_read (pbuf_mem b) (payload b) IP6_HLEN of
                    Inl e \<Rightarrow> Inl e
                  | Inr hb \<Rightarrow>
                      (let h = ip6_hdr_of_bytes hb in
                       if int (unat (plen h)) > int (unat (tot_len b)) - int IP6_HLEN then drop_packet p st
                       else
                         (case pbuf_realloc p (of_nat IP6_HLEN + plen h) (is_alloc st) of
                            Inl e \<Rightarrow> Inl e
                          | Inr (p1, s1) \<Rightarrow>
                              (let st1 = st\<lparr>is_alloc := s1, is_ip := (is_ip st)\<lparr>current_iphdr_dest := hdr_dest h, current_iphdr_src := hdr_src h\<rparr>\<rparr> in
                               if ip6_addr_isipv4mappedipv6 (hdr_dest h) \<or> ip6_addr_isipv4mappedipv6 (hdr_src h) \<or> ip6_addr_ismulticast (hdr_src h)
                               then drop_packet p1 st1
                               else
                                 (let st2 = st1\<lparr>is_ip := (is_ip st1)\<lparr>current_ip6_header := Some (payload b), current_netif := Some inp,
                                               current_input_netif := Some inp\<rparr>\<rparr> in
                                  ip6_input_cleanup
                                    (if hdr_src h = IP6_ADDR_ANY \<and> \<not> ip6_addr_issolicitednode (hdr_dest h) then drop_packet p1 st2
                                     else
                                       (case ip6_input_netif inp (is_mld st) (hdr_dest h) of
                                          None \<Rightarrow> drop_packet p1 st2
                                        | Some netif \<Rightarrow>
                                            ip6_input_local uninit out rand nd6_input recv h (payload b) p1 inp
                                              (st2\<lparr>is_ip := (is_ip st2)\<lparr>current_netif := Some netif\<rparr>\<rparr>))))))))))"

subsection \<open>Ethernet\<close>

definition PBUF_FLAG_LLBCAST :: u8 where "PBUF_FLAG_LLBCAST = 0x08"
definition PBUF_FLAG_LLMCAST :: u8 where "PBUF_FLAG_LLMCAST = 0x10"

definition eth_mark :: "bytes \<Rightarrow> u8" where
  "eth_mark dst =
     (if dst ! 0 AND 1 = 0 then 0
      else if dst ! 0 = 0x01 then 0
      else if dst ! 0 = 0x33 \<and> dst ! 1 = 0x33 then PBUF_FLAG_LLMCAST
      else if take 6 dst = replicate 6 0xff then PBUF_FLAG_LLBCAST
      else 0)"

definition ethernet_input ::
  "(nat \<Rightarrow> bytes) \<Rightarrow> 'n output_ip6_fn \<Rightarrow> 'n rand_fn \<Rightarrow> ('cb, 'n) nd6_input_fn \<Rightarrow> ('cb, 'n) udp_recv_fn \<Rightarrow>
   chain \<Rightarrow> netif \<Rightarrow> ('cb, 'n) ip6_state \<Rightarrow> ('cb, 'n) ip6_state result" where
  "ethernet_input uninit out rand nd6_input recv p inp st =
     (case p of
        [] \<Rightarrow> Inl NullDeref
      | b # bs \<Rightarrow>
          if unat (p_len b) \<le> SIZEOF_ETH_HDR then drop_packet p st
          else
            (case mem_read (pbuf_mem b) (payload b) SIZEOF_ETH_HDR of
               Inl e \<Rightarrow> Inl e
             | Inr h \<Rightarrow>
                 (let b1 = b\<lparr>if_idx := (if if_idx b = NETIF_NO_INDEX then netif_num inp + 1 else if_idx b),
                             p_flags := p_flags b OR eth_mark h\<rparr> in
                  if of_be16 (h ! 12) (h ! 13) = ETHTYPE_IPV6
                  then (case pbuf_remove_header b1 (of_nat SIZEOF_ETH_HDR) of
                          (True, b2) \<Rightarrow> drop_packet (b2 # bs) st
                        | (False, b2) \<Rightarrow> ip6_input uninit out rand nd6_input recv (b2 # bs) inp st)
                  else drop_packet (b1 # bs) st)))"

section \<open>Receive buffers while headers are removed and restored\<close>

lemma rx_packet_Cons:
  "rx_packet pools (b # bs) s \<Longrightarrow> chain_ok (b # bs) \<and> payload b + unat (p_len b) \<le> length (pbuf_mem b)
     \<and> payload b + unat (tot_len b) + 54 < 65536 \<and> p_ref b = 1 \<and> type_internal b = 0x82 \<and> unat (p_len b) \<le> unat (tot_len b)"
  by (simp add: rx_packet_def tight_chain_def)

lemma rx_packet_head:
  assumes "rx_packet pools (b # bs) s" "chain_ok (b' # bs)" "payload b' + unat (tot_len b') = payload b + unat (tot_len b)"
    and "p_ref b' = p_ref b" "type_internal b' = type_internal b" "pbuf_addr b' = pbuf_addr b"
  shows "rx_packet pools (b' # bs) s"
  using assms by (simp add: rx_packet_def tight_chain_def)

lemma rx_packet_cut:
  assumes "rx_packet pools (b # bs) s" "k \<le> unat (p_len b)"
  shows "rx_packet pools (cut_front k b # bs) s"
proof -
  have ok: "chain_ok (b # bs)" "unat (p_len b) \<le> unat (tot_len b)" using rx_packet_Cons [OF assms(1)] by simp_all
  have "payload (cut_front k b) + unat (tot_len (cut_front k b)) = payload b + unat (tot_len b)"
    using cut_front_len(2) [OF ok(1) assms(2)] ok(2) assms(2) by simp
  with pbuf_remove_header_cut(2) [OF ok(1) assms(2)] show ?thesis by (rule rx_packet_head [OF assms(1)]) simp_all
qed

text \<open>\<open>pbuf_add_header_force\<close> of headers that were removed before.\<close>

lemma add_header_force_rx:
  assumes rx: "rx_packet pools (b # bs) s" and k: "k \<le> payload b"
  shows "\<exists>status b'. pbuf_add_header_impl b (of_nat k) True = Inr (status, b') \<and> rx_packet pools (b' # bs) s \<and> pbuf_addr b' = pbuf_addr b"
proof -
  note c = rx_packet_Cons [OF rx]
  have r: "room_for k b" using c k by (auto simp: room_for_def PBUF_TYPE_FLAG_STRUCT_DATA_CONTIGUOUS_def)
  show ?thesis
  proof (cases "k = 0")
    case True
    then show ?thesis using rx by (intro exI [of _ False] exI [of _ b]) (simp add: pbuf_add_header_impl_def)
  next
    case False
    have ok: "chain_ok (b # bs)" using c by simp
    note add = pbuf_add_header_room [OF ok r] and len = grow_front_len [OF ok r]
    have "pbuf_add_header_impl b (of_nat k) True = pbuf_add_header b (of_nat k)"
      using c by (simp add: pbuf_add_header_def pbuf_add_header_impl_def PBUF_TYPE_FLAG_STRUCT_DATA_CONTIGUOUS_def Let_def)
    then show ?thesis
      using add(1,2) False len k
      by (intro exI [of _ False] exI [of _ "grow_front k b"]) (auto intro!: rx_packet_head [OF rx])
  qed
qed

lemma freed_Un: "freed pools A s s1 \<Longrightarrow> freed pools B s1 s2 \<Longrightarrow> freed pools (A \<union> B) s s2"
  by (auto simp: freed_def)

lemma freed_refl: "heap_ok (al_heap s) \<Longrightarrow> memp_ok pools (al_memp s) \<Longrightarrow> freed pools {} s s"
  by (simp add: freed_def)

text \<open>\<open>pbuf_realloc\<close> cuts a packet to a length it has: the buffers behind that length are freed.\<close>

lemma rx_packet_tl:
  assumes "rx_packet pools (q # r # rs) s" "unat (tot_len r) + payload r + 54 < 65536"
  shows "rx_packet pools (r # rs) s"
  using assms by (auto simp: rx_packet_def tight_chain_def)

definition pool_chain :: "(memp_t \<Rightarrow> memp_desc) \<Rightarrow> chain \<Rightarrow> alloc_state \<Rightarrow> bool" where
  "pool_chain pools p s \<longleftrightarrow> chain_ok p \<and> distinct (map pbuf_addr p) \<and> (\<forall>q \<in> set p. p_ref q = 1 \<and> type_internal q = 0x82
     \<and> pbuf_addr q \<in> set (pool_elems (pools MEMP_PBUF_POOL)) - free_elems (al_memp s) MEMP_PBUF_POOL)"

lemma pbuf_realloc_loop_rx:
  assumes "pool_chain pools p s" "heap_ok (al_heap s)" "memp_ok pools (al_memp s)" "0 < unat n" "unat n \<le> chain_len p"
    and "unat shrink = chain_len p - unat n" "\<forall>q \<in> set (tl p). p_len q \<noteq> 0"
  shows "\<exists>q qs s1 k. pbuf_realloc_loop n shrink p s = Inr (q # qs, s1) \<and> pool_chain pools (q # qs) s1
    \<and> map pbuf_addr (q # qs) = take k (map pbuf_addr p) \<and> freed pools (set (drop k (map pbuf_addr p))) s s1
    \<and> chain_data (q # qs) = take (unat n) (chain_data p) \<and> (\<forall>x \<in> set qs. p_len x \<noteq> 0)
    \<and> payload q = payload (hd p) \<and> pbuf_mem q = pbuf_mem (hd p) \<and> unat (p_len q) = min (unat n) (unat (p_len (hd p)))"
  using assms
proof (induction p arbitrary: n s)
  case (Cons b bs)
  have c: "pool_chain pools (b # bs) s" "chain_ok (b # bs)" "payload b + unat (p_len b) \<le> length (pbuf_mem b)" "chain_ok bs"
    using Cons.prems(1) by (simp_all add: pool_chain_def)
  have lb: "length (pbuf_bytes b) = unat (p_len b)" by (rule length_pbuf_bytes [OF c(3)])
  have src: "pbuf_get_allocsrc b = 2" using c(1) by (simp add: pool_chain_def pbuf_get_allocsrc_def)
  show ?case
  proof (cases "n > p_len b")
    case True
    then have lt: "unat (p_len b) < unat n" "unat (n - p_len b) = unat n - unat (p_len b)"
      by (simp_all add: word_less_nat_alt unat_sub word_le_nat_alt)
    have pc: "pool_chain pools bs s" using c(1,4) by (simp add: pool_chain_def)
    have tls: "\<forall>q \<in> set (tl bs). p_len q \<noteq> 0" using Cons.prems(7) by (cases bs) auto
    have "\<exists>q qs s1 k. pbuf_realloc_loop (n - p_len b) shrink bs s = Inr (q # qs, s1) \<and> pool_chain pools (q # qs) s1
      \<and> map pbuf_addr (q # qs) = take k (map pbuf_addr bs) \<and> freed pools (set (drop k (map pbuf_addr bs))) s s1
      \<and> chain_data (q # qs) = take (unat (n - p_len b)) (chain_data bs) \<and> (\<forall>x \<in> set qs. p_len x \<noteq> 0)
      \<and> payload q = payload (hd bs) \<and> pbuf_mem q = pbuf_mem (hd bs) \<and> unat (p_len q) = min (unat (n - p_len b)) (unat (p_len (hd bs)))"
      by (rule Cons.IH [OF pc Cons.prems(2,3) _ _ _ tls]) (use Cons.prems(5,6) lt in simp_all)
    then obtain q qs s1 k where q: "pbuf_realloc_loop (n - p_len b) shrink bs s = Inr (q # qs, s1)" "pool_chain pools (q # qs) s1"
      "map pbuf_addr (q # qs) = take k (map pbuf_addr bs)" "freed pools (set (drop k (map pbuf_addr bs))) s s1"
      "chain_data (q # qs) = take (unat (n - p_len b)) (chain_data bs)" "\<forall>x \<in> set qs. p_len x \<noteq> 0"
      "unat (p_len q) = min (unat (n - p_len b)) (unat (p_len (hd bs)))"
      by blast
    have "bs \<noteq> []" using lt Cons.prems(5) by (cases bs) simp_all
    then have "p_len (hd bs) \<noteq> 0" using Cons.prems(7) by (cases bs) simp_all
    then have "0 < unat (p_len (hd bs))" by (simp add: unat_gt_0)
    then have "0 < unat (p_len q)" unfolding q(7) using lt by simp
    then have q0: "p_len q \<noteq> 0" by (metis unat_0 less_irrefl)
    let ?b = "b\<lparr>tot_len := tot_len b - shrink\<rparr>"
    have tl: "unat (tot_len b) = chain_len (b # bs)" using c(2) by simp
    have "shrink \<le> tot_len b" using Cons.prems(6) tl by (simp add: word_le_nat_alt)
    then have t: "unat (tot_len b - shrink) = unat n" using Cons.prems(5,6) tl by (simp add: unat_sub)
    have lq: "chain_len (q # qs) = unat n - unat (p_len b)"
    proof -
      have "chain_ok (q # qs)" using q(2) by (simp add: pool_chain_def)
      from length_chain_data [OF this, unfolded q(5)] show ?thesis
        using lt(2) length_chain_data [OF c(4)] Cons.prems(5) by simp
    qed
    have ptrs: "set (map pbuf_addr (q # qs)) \<subseteq> set (map pbuf_addr bs)" unfolding q(3) by (rule set_take_subset)
    have "pool_chain pools (?b # q # qs) s1"
    proof -
      have "pbuf_addr b \<notin> set (map pbuf_addr bs)" "pbuf_addr b \<notin> free_elems (al_memp s) MEMP_PBUF_POOL"
        using c(1) by (auto simp: pool_chain_def)
      moreover have "pbuf_addr b \<notin> set (drop k (map pbuf_addr bs))" using calculation(1) by (meson in_set_dropD)
      ultimately have "pbuf_addr b \<notin> free_elems (al_memp s1) MEMP_PBUF_POOL" "pbuf_addr b \<notin> set (map pbuf_addr (q # qs))"
        using q(4) ptrs by (simp add: freed_def, blast)
      moreover have "unat (tot_len ?b) = chain_len (?b # q # qs)" using t lq lt(1) by simp
      ultimately show ?thesis using c(1,3) q(2) by (simp add: pool_chain_def)
    qed
    moreover have "chain_data (?b # q # qs) = take (unat n) (chain_data (b # bs))"
      using lt lb q(5) by (simp add: pbuf_bytes_def)
    moreover have "pbuf_realloc_loop n shrink (b # bs) s = Inr (?b # q # qs, s1)" using True q(1) by simp
    moreover have "unat (p_len ?b) = min (unat n) (unat (p_len b))" using lt by simp
    moreover have "map pbuf_addr (?b # q # qs) = take (Suc k) (map pbuf_addr (b # bs))"
        "freed pools (set (drop (Suc k) (map pbuf_addr (b # bs)))) s s1"
      using q(3,4) by simp_all
    moreover have "\<forall>x \<in> set (q # qs). p_len x \<noteq> 0" using q(6) q0 by simp
    ultimately show ?thesis
      by (intro exI [of _ ?b] exI [of _ "q # qs"] exI [of _ s1] exI [of _ "Suc k"]) simp
  next
    case False
    let ?b = "b\<lparr>p_len := n, tot_len := n\<rparr>"
    have le: "unat n \<le> unat (p_len b)" using False by (simp add: word_less_nat_alt)
    have d: "chain_data [?b] = take (unat n) (chain_data (b # bs))" using le lb by (simp add: pbuf_bytes_def)
    have "\<exists>s1. pbuf_realloc_loop n shrink (b # bs) s = Inr ([?b], s1) \<and> freed pools (pbuf_addr ` set bs) s s1"
    proof (cases "bs = []")
      case True
      then show ?thesis using False src freed_refl [OF Cons.prems(2,3)] by simp
    next
      case ne: False
      have "\<exists>cnt' s'. pbuf_free_loop 0 bs s = Inr (cnt', [], s') \<and> freed pools (pbuf_addr ` set bs) s s' \<and> al_heap s' = al_heap s"
        using c(1) Cons.prems(2,3) by (intro pbuf_free_loop_rx) (auto simp: pool_chain_def)
      then show ?thesis using False ne src by (auto simp: pbuf_free_def)
    qed
    then obtain s1 where s1: "pbuf_realloc_loop n shrink (b # bs) s = Inr ([?b], s1)" "freed pools (pbuf_addr ` set bs) s s1" by blast
    have "pool_chain pools [?b] s1" using c le s1(2) by (auto simp: pool_chain_def freed_def image_iff)
    then show ?thesis
      using s1 d le by (intro exI [of _ ?b] exI [of _ "[]"] exI [of _ s1] exI [of _ 1]) simp
  qed
qed simp

end
