(* ===== verification/Ip6_Receive.thy ===== *)
theory Ip6_Receive
  imports Ip6_Input
begin

text \<open>
  Properties of receiving: every frame in receive buffers is handled without a fault and its buffers go back to the pool; a UDP
  datagram in a frame reaches \<open>udp_input\<close>; a frame for a group the interface has not joined is dropped.
\<close>

section \<open>The packet cut to its payload length\<close>

lemma rx_packet_pool_chain:
  "rx_packet pools p s \<longleftrightarrow> pool_chain pools p s \<and> p \<noteq> [] \<and> (\<forall>q \<in> set (tl p). p_len q \<noteq> 0) \<and> payload (hd p) + unat (tot_len (hd p)) + 54 < 65536
     \<and> heap_ok (al_heap s) \<and> memp_ok pools (al_memp s)"
  by (auto simp: rx_packet_def pool_chain_def tight_chain_def)

lemma pbuf_realloc_rx:
  assumes rx: "rx_packet pools (b # bs) s" and n: "0 < unat n"
  shows "\<exists>q qs s1 A. pbuf_realloc (b # bs) n s = Inr (q # qs, s1) \<and> rx_packet pools (q # qs) s1 \<and> freed pools A s s1
    \<and> pbuf_addr ` set (b # bs) = A \<union> pbuf_addr ` set (q # qs) \<and> chain_data (q # qs) = take (unat n) (chain_data (b # bs))
    \<and> payload q = payload b \<and> pbuf_mem q = pbuf_mem b \<and> unat (p_len q) = min (unat n) (unat (p_len b))"
proof -
  note c = rx_packet_Cons [OF rx]
  have ok: "heap_ok (al_heap s)" "memp_ok pools (al_memp s)" "pool_chain pools (b # bs) s" "\<forall>q \<in> set (tl (b # bs)). p_len q \<noteq> 0"
    using rx unfolding rx_packet_pool_chain by simp_all
  have tl: "unat (tot_len b) = chain_len (b # bs)" using c by simp
  show ?thesis
  proof (cases "n \<ge> tot_len b")
    case True
    then have "unat (tot_len b) \<le> unat n" by (simp add: word_le_nat_alt)
    then have "take (unat n) (chain_data (b # bs)) = chain_data (b # bs)" "unat (p_len b) = min (unat n) (unat (p_len b))"
      using c tl length_chain_data [of "b # bs"] by (simp_all del: chain_data_simps)
    then show ?thesis
      using True rx freed_refl [OF ok(1,2)]
      by (intro exI [of _ b] exI [of _ bs] exI [of _ s] exI [of _ "{}"]) (simp add: pbuf_realloc_def)
  next
    case False
    then have lt: "unat n < unat (tot_len b)" by (simp add: word_le_nat_alt)
    then have "unat (tot_len b - n) = chain_len (b # bs) - unat n" "unat n \<le> chain_len (b # bs)" using tl by (simp_all add: unat_sub word_le_nat_alt)
    from pbuf_realloc_loop_rx [OF ok(3,1,2) n this(2,1) ok(4)] obtain q qs s1 k where
      q: "pbuf_realloc_loop n (tot_len b - n) (b # bs) s = Inr (q # qs, s1)" "pool_chain pools (q # qs) s1"
        "map pbuf_addr (q # qs) = take k (map pbuf_addr (b # bs))" "freed pools (set (drop k (map pbuf_addr (b # bs)))) s s1"
        "chain_data (q # qs) = take (unat n) (chain_data (b # bs))" "\<forall>x \<in> set qs. p_len x \<noteq> 0"
        "payload q = payload b" "pbuf_mem q = pbuf_mem b" "unat (p_len q) = min (unat n) (unat (p_len b))"
      by auto
    have okq: "chain_ok (q # qs)" using q(2) by (simp add: pool_chain_def)
    have "unat (tot_len q) \<le> unat (tot_len b)"
      using okq length_chain_data [OF okq, unfolded q(5)] lt by simp
    then have "rx_packet pools (q # qs) s1"
      unfolding rx_packet_pool_chain using q(2,4,6,7) c by (simp add: freed_def)
    moreover have "pbuf_addr ` set (b # bs) = set (drop k (map pbuf_addr (b # bs))) \<union> pbuf_addr ` set (q # qs)"
      unfolding set_map [symmetric] q(3) by (subst append_take_drop_id [of k, symmetric], subst set_append) (rule Un_commute)
    ultimately show ?thesis using False q by (auto simp: pbuf_realloc_def)
  qed
qed

section \<open>The extension headers\<close>

lemma ip6_options_loop_returns: "base + hlen < length m \<Longrightarrow> \<exists>v. ip6_options_loop m base hlen home off = Inr v"
proof (induction m base hlen home off rule: ip6_options_loop.induct)
  case (1 m base hlen home off)
  show ?case
  proof (cases "off < hlen")
    case True
    then have "mem_get m (base + off) = Inr (m ! (base + off))" "mem_get m (base + off + 1) = Inr (m ! (base + off + 1))"
      using 1(3) by simp_all
    then show ?thesis using 1 True by (subst ip6_options_loop.simps) simp
  next
    case False
    then show ?thesis by (subst ip6_options_loop.simps) simp
  qed
qed

text \<open>
  Headers are read before their length is checked. In this configuration that stays inside the buffer: a header starts six bytes
  behind a multiple of eight, and the length of a buffer is a multiple of eight.
\<close>

definition aligned :: "pbuf \<Rightarrow> bool" where
  "aligned b \<longleftrightarrow> length (pbuf_mem b) mod 8 = 0 \<and> length (pbuf_mem b) < 32000 \<and> payload b mod 8 = 6 \<and> payload b + unat (p_len b) \<le> length (pbuf_mem b)"

lemma slack_8:
  assumes "(l :: nat) mod 8 = 0" "a mod 8 = 6" "k mod 8 = 0" "a + k \<le> l"
  shows "(a + k) mod 8 = 6" "a + k + 2 \<le> l"
proof -
  show ak: "(a + k) mod 8 = 6" using assms(2,3) by (simp add: mod_add_eq [symmetric, of a k])
  obtain q r where "l = 8 * q" "a + k = 8 * r + 6"
    using mult_div_mod_eq [of 8 l] mult_div_mod_eq [of 8 "a + k"] assms(1) ak by (metis add_0_right)
  then show "a + k + 2 \<le> l" using assms(4) by presburger
qed

lemma aligned_slack: "aligned b \<Longrightarrow> k mod 8 = 0 \<Longrightarrow> payload b + k \<le> length (pbuf_mem b) \<Longrightarrow> payload b + k + 2 \<le> length (pbuf_mem b)"
  using slack_8(2) [of "length (pbuf_mem b)" "payload b" k] by (simp add: aligned_def)

lemma aligned_cut:
  assumes "aligned b" "chain_ok (b # bs)" "k \<le> unat (p_len b)" "k mod 8 = 0"
  shows "aligned (cut_front k b)"
proof -
  have "(payload b + k) mod 8 = 6"
    using assms(1,3) slack_8(1) [of "length (pbuf_mem b)" "payload b" k, OF _ _ assms(4)] unfolding aligned_def by linarith
  then show ?thesis using assms cut_front_len(1) [OF assms(2,3)] by (simp add: aligned_def)
qed

lemma aligned_read:
  assumes "aligned b"
  shows "\<exists>h. mem_read (pbuf_mem b) (payload b) 2 = Inr h"
  using aligned_slack [OF assms, of 0] assms by (simp add: aligned_def mem_read_def)

lemma ip6_options_header_returns:
  assumes "aligned b"
  shows "\<exists>v. ip6_options_header home mcast b bs ht = Inr v \<and>
    (case v of Ext_next p' n np ht' \<Rightarrow> True | Ext_drop p' \<Rightarrow> p' = b # bs | Ext_problem p' c ptr \<Rightarrow> p' = b # bs)"
proof -
  obtain h where h: "mem_read (pbuf_mem b) (payload b) 2 = Inr h" using aligned_read [OF assms] by blast
  show ?thesis
  proof (cases "p_len b < 8 \<or> ext_hlen (h ! 1) > p_len b")
    case True
    then show ?thesis using h by (simp add: ip6_options_header_def)
  next
    case False
    then have "unat (ext_hlen (h ! 1)) \<le> unat (p_len b)" by (simp add: word_less_nat_alt)
    then have "payload b + unat (ext_hlen (h ! 1)) < length (pbuf_mem b)"
      using aligned_slack [OF assms, of "unat (ext_hlen (h ! 1))"] assms by (simp add: ext_hlen_unat aligned_def)
    from ip6_options_loop_returns [OF this, of home 2] obtain v where
      v: "ip6_options_loop (pbuf_mem b) (payload b) (unat (ext_hlen (h ! 1))) home 2 = Inr v" by blast
    show ?thesis
      using False h v by (cases v) (auto simp: ip6_options_header_def Let_def skip_header_def)
  qed
qed

lemma ip6_routing_header_returns:
  assumes "aligned b"
  shows "\<exists>v. ip6_routing_header b bs ht = Inr v \<and>
    (case v of Ext_next p' n np ht' \<Rightarrow> True | Ext_drop p' \<Rightarrow> p' = b # bs | Ext_problem p' c ptr \<Rightarrow> p' = b # bs)"
proof -
  obtain h where h: "mem_read (pbuf_mem b) (payload b) 2 = Inr h" using aligned_read [OF assms] by blast
  have "\<exists>r. mem_read (pbuf_mem b) (payload b) 4 = Inr r" if "\<not> p_len b < 8"
    using that assms by (simp add: aligned_def mem_read_def word_less_nat_alt)
  then show ?thesis using h by (auto simp: ip6_routing_header_def Let_def skip_header_def)
qed

lemma ip6_fragment_header_returns:
  assumes "aligned b"
  shows "\<exists>v. ip6_fragment_header pl iph b bs ht = Inr v \<and>
    (case v of Ext_next p' n np ht' \<Rightarrow> True | Ext_drop p' \<Rightarrow> p' = b # bs | Ext_problem p' c ptr \<Rightarrow> p' = b # bs)"
proof -
  have "\<exists>r. mem_read (pbuf_mem b) (payload b) 8 = Inr r" if "\<not> p_len b < 8"
    using that assms by (simp add: aligned_def mem_read_def word_less_nat_alt)
  then show ?thesis by (auto simp: ip6_fragment_header_def Let_def skip_header_def)
qed

lemma ip6_ext_header_returns:
  assumes "aligned b"
  obtains "ip6_ext_header mcast pl iph nxt b bs ht = Inr None"
  | "ip6_ext_header mcast pl iph nxt b bs ht = Inr (Some (Ext_drop (b # bs)))"
  | c ptr where "ip6_ext_header mcast pl iph nxt b bs ht = Inr (Some (Ext_problem (b # bs) c ptr))"
  | p' n' np' ht' where "ip6_ext_header mcast pl iph nxt b bs ht = Inr (Some (Ext_next p' n' np' ht'))"
proof -
  let ?ok = "\<lambda>v. case v of Ext_next p' n np ht' \<Rightarrow> True | Ext_drop p' \<Rightarrow> p' = b # bs | Ext_problem p' c ptr \<Rightarrow> p' = b # bs"
  have lift: "\<exists>v. map_sum id Some r = Inr (Some v) \<and> ?ok v" if "\<exists>v. r = Inr v \<and> ?ok v" for r :: "ext_verdict result"
    using that by (elim exE conjE) simp
  have "ip6_ext_header mcast pl iph nxt b bs ht = Inr None \<or> (\<exists>v. ip6_ext_header mcast pl iph nxt b bs ht = Inr (Some v) \<and> ?ok v)"
  proof -
    consider "nxt = IP6_NEXTH_HOPBYHOP" | "nxt \<noteq> IP6_NEXTH_HOPBYHOP" "nxt = IP6_NEXTH_DESTOPTS"
      | "nxt \<noteq> IP6_NEXTH_HOPBYHOP" "nxt \<noteq> IP6_NEXTH_DESTOPTS" "nxt = IP6_NEXTH_ROUTING"
      | "nxt \<noteq> IP6_NEXTH_HOPBYHOP" "nxt \<noteq> IP6_NEXTH_DESTOPTS" "nxt \<noteq> IP6_NEXTH_ROUTING" "nxt = IP6_NEXTH_FRAGMENT"
      | "nxt \<noteq> IP6_NEXTH_HOPBYHOP" "nxt \<noteq> IP6_NEXTH_DESTOPTS" "nxt \<noteq> IP6_NEXTH_ROUTING" "nxt \<noteq> IP6_NEXTH_FRAGMENT"
      by blast
    then show ?thesis
    proof cases
      case 1
      show ?thesis unfolding ip6_ext_header_def if_P [OF 1] by (rule disjI2, rule lift, rule ip6_options_header_returns [OF assms])
    next
      case 2
      show ?thesis unfolding ip6_ext_header_def if_not_P [OF 2(1)] if_P [OF 2(2)]
        by (rule disjI2, rule lift, rule ip6_options_header_returns [OF assms])
    next
      case 3
      show ?thesis unfolding ip6_ext_header_def if_not_P [OF 3(1)] if_not_P [OF 3(2)] if_P [OF 3(3)]
        by (rule disjI2, rule lift, rule ip6_routing_header_returns [OF assms])
    next
      case 4
      show ?thesis unfolding ip6_ext_header_def if_not_P [OF 4(1)] if_not_P [OF 4(2)] if_not_P [OF 4(3)] if_P [OF 4(4)]
        by (rule disjI2, rule lift, rule ip6_fragment_header_returns [OF assms])
    next
      case 5
      then show ?thesis by (simp add: ip6_ext_header_def)
    qed
  qed
  then show thesis
  proof (elim disjE exE conjE)
    fix v
    assume "ip6_ext_header mcast pl iph nxt b bs ht = Inr (Some v)" "?ok v"
    then show thesis using that(2-4) by (cases v) simp_all
  qed (rule that(1))
qed


text \<open>The packet while its headers are removed: the same buffers, the first one starting \<open>ht\<close> bytes behind the IPv6 header.\<close>

definition rest_of :: "(memp_t \<Rightarrow> memp_desc) \<Rightarrow> pbuf \<Rightarrow> chain \<Rightarrow> alloc_state \<Rightarrow> chain \<Rightarrow> bool" where
  "rest_of pools b bs s p' \<longleftrightarrow> (\<exists>b'. p' = b' # bs \<and> rx_packet pools (b' # bs) s \<and> pbuf_addr b' = pbuf_addr b \<and> aligned b')"

lemma rest_of_cut:
  assumes "rx_packet pools (b # bs) s" "aligned b" "k \<le> unat (p_len b)" "k mod 8 = 0"
  shows "rest_of pools b bs s (cut_front k b # bs)"
proof -
  have "chain_ok (b # bs)" using rx_packet_Cons [OF assms(1)] by simp
  from aligned_cut [OF assms(2) this assms(3,4)] rx_packet_cut [OF assms(1,3)] show ?thesis by (simp add: rest_of_def)
qed

lemma rest_of_trans: "rest_of pools (cut_front k b) bs s p' \<Longrightarrow> rest_of pools b bs s p'"
  by (simp add: rest_of_def)

lemma ip6_ext_loop_returns:
  assumes "rx_packet pools (b # bs) s" "aligned b" "payload b = iph + unat ht"
  shows "\<exists>v. ip6_ext_loop mcast pl iph nxt np (b # bs) ht = Inr v \<and>
    (case v of Ext_next p' n' np' ht' \<Rightarrow> rest_of pools b bs s p' \<and> payload (hd p') = iph + unat ht'
     | Ext_drop p' \<Rightarrow> rest_of pools b bs s p'
     | Ext_problem p' c ptr \<Rightarrow> rest_of pools b bs s p')"
  using assms
proof (induction "unat (p_len b)" arbitrary: b nxt np ht rule: less_induct)
  case less
  have here: "rest_of pools b bs s (b # bs)" using less.prems by (simp add: rest_of_def)
  show ?case
  proof (cases "nxt = IP6_NEXTH_NONE")
    case True
    then show ?thesis using here less.prems(3) by (simp add: ip6_ext_loop.simps)
  next
    case False
    from ip6_ext_header_returns [OF less.prems(2), of mcast pl iph nxt bs ht] show ?thesis
    proof cases
      case (4 p' n' np' ht')
      from ip6_ext_header_next [OF this] obtain hlen where
        hl: "8 \<le> unat hlen \<and> unat hlen mod 8 = 0 \<and> hlen \<le> p_len b \<and> p' = cut_front (unat hlen) b # bs \<and> np' = payload b \<and> ht' = ht + hlen"
        by (rule exE)
      then have h: "8 \<le> unat hlen" "unat hlen mod 8 = 0" "hlen \<le> p_len b" "p' = cut_front (unat hlen) b # bs" "np' = payload b" "ht' = ht + hlen"
        by simp_all
      let ?b = "cut_front (unat hlen) b"
      note c = rx_packet_Cons [OF less.prems(1)]
      have le: "unat hlen \<le> unat (p_len b)" using h(3) by (simp add: word_le_nat_alt)
      have cok: "chain_ok (b # bs)" using c by simp
      note cut = rest_of_cut [OF less.prems(1,2) le h(2)] and len = cut_front_len(1) [OF cok le]
      then have rx: "rx_packet pools (?b # bs) s" "aligned ?b" by (simp_all add: rest_of_def)
      have "iph + unat ht + unat hlen < 65536" using c le less.prems(3) by simp
      then have ht: "unat ht' = unat ht + unat hlen" unfolding h(6) by (simp add: unat_word_ariths)
      have pay: "payload ?b = iph + unat ht'" using less.prems(3) ht by simp
      have eq: "ip6_ext_loop mcast pl iph nxt np (b # bs) ht =
          (if n' = IP6_NEXTH_HOPBYHOP then Inr (Ext_problem (?b # bs) ICMP6_PP_HEADER np')
           else ip6_ext_loop mcast pl iph n' np' (?b # bs) ht')"
        using False 4 h(4) by (subst ip6_ext_loop.simps) simp
      have "unat (p_len ?b) < unat (p_len b)" using len h(1) le by simp
      from less.hyps [OF this rx pay, of n' np'] obtain v where
        v: "ip6_ext_loop mcast pl iph n' np' (?b # bs) ht' = Inr v"
          "case v of Ext_next p' n' np' ht' \<Rightarrow> rest_of pools ?b bs s p' \<and> payload (hd p') = iph + unat ht'
           | Ext_drop p' \<Rightarrow> rest_of pools ?b bs s p' | Ext_problem p' c ptr \<Rightarrow> rest_of pools ?b bs s p'"
        by blast
      have "case v of Ext_next p' n' np' ht' \<Rightarrow> rest_of pools b bs s p' \<and> payload (hd p') = iph + unat ht'
           | Ext_drop p' \<Rightarrow> rest_of pools b bs s p' | Ext_problem p' c ptr \<Rightarrow> rest_of pools b bs s p'"
        using v(2) rest_of_trans by (cases v) auto
      then show ?thesis unfolding eq v(1) using cut by (cases "n' = IP6_NEXTH_HOPBYHOP") simp_all
    qed (use False here less.prems(3) in \<open>simp_all add: ip6_ext_loop.simps\<close>)
  qed
qed


section \<open>The upper layers\<close>

lemma rx_packet_mem: "rx_packet pools p s \<Longrightarrow> heap_ok (al_heap s) \<and> memp_ok pools (al_memp s) \<and> tight_chain p"
  by (simp add: rx_packet_def)

lemma report_problem_rx:
  assumes rx: "rx_packet pools p (is_alloc st)" "mld_ok pools (is_mld st) (is_alloc st)" and env: "output_ok pools out" "fresh_ok uninit"
    and ip: "current_netif (is_ip st) \<noteq> None" "current_ip6_header (is_ip st) \<noteq> None"
  shows "\<exists>st'. report_problem uninit out p code ptr st = Inr st' \<and> st_freed pools p st st'"
proof -
  obtain h where h: "current_ip6_header (is_ip st) = Some h" using ip(2) by auto
  note m = rx_packet_mem [OF rx(1)]
  obtain s n where r: "icmp6_param_problem uninit out p code ptr (is_ip st) (is_alloc st) (is_net st) = Inr (s, n)"
      "heap_ok (al_heap s)" "memp_ok pools (al_memp s)" "keeps_pools (al_memp (is_alloc st)) (al_memp s)"
    using icmp6_send_response_returns [of "is_alloc st" pools uninit out p "is_ip st" code "of_int (int ptr - int h)" ICMP6_TYPE_PP "is_net st"] m env ip(1)
    by (auto simp: icmp6_param_problem_def h)
  let ?st = "st\<lparr>is_alloc := s, is_net := n\<rparr>"
  have "rx_packet pools p (is_alloc ?st)" "mld_ok pools (is_mld ?st) (is_alloc ?st)"
    using rx_packet_keeps [OF rx(1) r(2-4)] mld_ok_keeps [OF rx(2) r(2-4)] by simp_all
  from drop_packet_rx [OF this] obtain s' where "drop_packet p ?st = Inr (?st\<lparr>is_alloc := s'\<rparr>)" "st_freed pools p ?st (?st\<lparr>is_alloc := s'\<rparr>)"
    by blast
  then show ?thesis using r(1) freed_keeps [OF r(4)] by (auto simp: report_problem_def st_freed_def)
qed

lemma header_force_rx:
  assumes "rx_packet pools (b # bs) s" "unat k \<le> payload b" "unat k < 32768"
  shows "\<exists>status b'. pbuf_header_force b k = Inr (status, b') \<and> rx_packet pools (b' # bs) s \<and> pbuf_addr b' = pbuf_addr b"
proof -
  have "uint k < 32768" using assms(3) unfolding uint_nat by linarith
  moreover have "- 32768 \<le> uint k" using uint_ge_0 [of k] by linarith
  ultimately have "sint k = uint k" unfolding sint_uint by (intro signed_take_bit_int_eq_self) simp_all
  then have "\<not> sint k < 0" by simp
  moreover have "(ucast k :: u32) = of_nat (unat k)" by simp
  ultimately show ?thesis using add_header_force_rx [OF assms(1,2)] by (simp add: pbuf_header_force_def pbuf_header_impl_def)
qed

text \<open>What a receive callback promises in the state \<open>n\<close>: it returns and has freed the packet.\<close>

definition recv_ok :: "(memp_t \<Rightarrow> memp_desc) \<Rightarrow> ('cb, 'n) udp_recv_fn \<Rightarrow> 'n \<Rightarrow> bool" where
  "recv_ok pools recv n \<longleftrightarrow>
     (\<forall>cb c p a port s. rx_packet pools p s \<longrightarrow> (\<exists>s' n'. recv cb c p a port s n = Inr (s', n') \<and> freed pools (pbuf_addr ` set p) s s'))"

definition unreach_ok :: "(memp_t \<Rightarrow> memp_desc) \<Rightarrow> 'n unreach_fn \<Rightarrow> bool" where
  "unreach_ok pools unreach \<longleftrightarrow>
     (\<forall>p s n. rx_packet pools p s \<longrightarrow> (\<exists>s' n'. unreach p s n = Inr (s', n') \<and> heap_ok (al_heap s') \<and> memp_ok pools (al_memp s')
        \<and> keeps_pools (al_memp s) (al_memp s')))"

lemma udp_drop_rx: "rx_packet pools p s \<Longrightarrow> \<exists>s' n'. udp_drop p s u n = Inr (s', u, n') \<and> freed pools (pbuf_addr ` set p) s s'"
  using pbuf_free_rx by (fastforce simp: udp_drop_def)

lemma udp_no_port_rx:
  assumes rx: "rx_packet pools (b # bs) s" and un: "unreach_ok pools unreach" and k: "unat (hlen + 8) \<le> payload b" "unat (hlen + 8) < 32768"
  shows "\<exists>s' u' n'. udp_no_port unreach hlen (b # bs) dst s u n = Inr (s', u', n') \<and> freed pools (pbuf_addr ` set (b # bs)) s s'"
proof (cases "ip6_addr_ismulticast dst")
  case True
  then show ?thesis using udp_drop_rx [OF rx, of u n] by (auto simp: udp_no_port_def)
next
  case False
  from header_force_rx [OF rx k] obtain status b' where
    b': "pbuf_header_force b (hlen + 8) = Inr (status, b')" "rx_packet pools (b' # bs) s" "pbuf_addr b' = pbuf_addr b" by blast
  obtain s1 n1 where r: "unreach (b' # bs) s n = Inr (s1, n1)" "heap_ok (al_heap s1)" "memp_ok pools (al_memp s1)" "keeps_pools (al_memp s) (al_memp s1)"
    using un b'(2) unfolding unreach_ok_def by blast
  from udp_drop_rx [OF rx_packet_keeps [OF b'(2) r(2-4)], of u n1] obtain s2 n2 where
    d: "udp_drop (b' # bs) s1 u n1 = Inr (s2, u, n2)" "freed pools (pbuf_addr ` set (b' # bs)) s1 s2" by blast
  have "udp_no_port unreach hlen (b # bs) dst s u n = Inr (s2, u, n2)" using False b'(1) r(1) d(1) by (simp add: udp_no_port_def UDP_HLEN_def)
  then show ?thesis using freed_keeps [OF r(4) d(2)] b'(3) by simp
qed

lemma udp_input_rx:
  assumes rx: "rx_packet pools (b # bs) s" and env: "recv_ok pools recv n" "unreach_ok pools unreach"
    and hlen: "unat hlen \<le> payload b" "unat hlen < 32000"
  shows "\<exists>s' u' n'. udp_input recv unreach (b # bs) inp src dst hlen s u n = Inr (s', u', n') \<and> freed pools (pbuf_addr ` set (b # bs)) s s'"
proof (cases "unat (p_len b) < 8")
  case True
  then show ?thesis using udp_drop_rx [OF rx, of u n] by (auto simp: udp_input_def UDP_HLEN_def)
next
  case False
  note c = rx_packet_Cons [OF rx]
  have ok: "chain_ok (b # bs)" "8 \<le> unat (p_len b)" using c False by simp_all
  have rd: "mem_read (pbuf_mem b) (payload b) UDP_HLEN = Inr (take 8 (drop (payload b) (pbuf_mem b)))"
    using c ok(2) by (simp add: mem_read_def UDP_HLEN_def)
  have rm: "pbuf_remove_header b (of_nat UDP_HLEN) = (False, cut_front 8 b)"
    using pbuf_remove_header_cut(1) [OF ok] by (simp add: UDP_HLEN_def)
  note rx8 = rx_packet_cut [OF rx ok(2)]
  have k: "unat (hlen + 8) \<le> payload (cut_front 8 b)" "unat (hlen + 8) < 32768" using hlen by (simp_all add: unat_word_ariths)
  note drop = udp_drop_rx [OF rx] and drop8 = udp_drop_rx [OF rx8] and none = udp_no_port_rx [OF rx8 env(2) k]
  have recv: "\<exists>s' n'. recv cb x (cut_front 8 b # bs) a port s n = Inr (s', n') \<and> freed pools (pbuf_addr ` set (b # bs)) s s'" for cb x a port
    using env(1) rx8 unfolding recv_ok_def by fastforce
  define uh where "uh = take 8 (drop (payload b) (pbuf_mem b))"
  obtain pcb pcbs where find: "udp_input_find (pcb_at u) (netif_num inp + 1) src dst (of_be16 (uh ! 0) (uh ! 1)) (of_be16 (uh ! 2) (uh ! 3)) [] (udp_pcbs u) None
      = (pcb, pcbs)" by (metis surj_pair)
  let ?u = "u\<lparr>udp_pcbs := pcbs\<rparr>"
  have eq: "udp_input recv unreach (b # bs) inp src dst hlen s u n =
      (if pcb = None \<and> netif_get_ip6_addr_match inp dst = None then udp_drop (b # bs) s ?u n
       else if of_be16 (uh ! 6) (uh ! 7) \<noteq> 0 \<and> ip_chksum_pseudo (b # bs) IP_PROTO_UDP (tot_len b) src dst \<noteq> 0 then udp_drop (b # bs) s ?u n
       else (case pcb of
               Some c \<Rightarrow>
                 (case recv_cb (pcb_at ?u c) of
                    Some cb \<Rightarrow> map_sum id (\<lambda>(s', n'). (s', ?u, n')) (recv cb c (cut_front 8 b # bs) src (of_be16 (uh ! 0) (uh ! 1)) s n)
                  | None \<Rightarrow> udp_drop (cut_front 8 b # bs) s ?u n)
             | None \<Rightarrow> udp_no_port unreach hlen (cut_front 8 b # bs) dst s ?u n))"
    using False unfolding udp_input_def list.case rd rm uh_def [symmetric] sum.case find Let_def prod.case bool.case by (simp add: UDP_HLEN_def)
  have up: "\<exists>s' u' n'. (case pcb of
               Some c \<Rightarrow>
                 (case recv_cb (pcb_at ?u c) of
                    Some cb \<Rightarrow> map_sum id (\<lambda>(s', n'). (s', ?u, n')) (recv cb c (cut_front 8 b # bs) src (of_be16 (uh ! 0) (uh ! 1)) s n)
                  | None \<Rightarrow> udp_drop (cut_front 8 b # bs) s ?u n)
             | None \<Rightarrow> udp_no_port unreach hlen (cut_front 8 b # bs) dst s ?u n) = Inr (s', u', n') \<and> freed pools (pbuf_addr ` set (b # bs)) s s'"
  proof (cases pcb)
    case None
    then show ?thesis using none [of dst ?u n] by simp
  next
    case (Some x)
    then show ?thesis
      using drop8 [of ?u n] recv [of "the (recv_cb (pcb_at ?u x))" x src "of_be16 (uh ! 0) (uh ! 1)"] by (cases "recv_cb (pcb_at ?u x)") auto
  qed
  show ?thesis unfolding eq using drop [of ?u n] up by (simp only: split: if_split) blast
qed


lemma unreach_ok_icmp6:
  assumes "output_ok pools out" "fresh_ok uninit" "current_netif ip \<noteq> None"
  shows "unreach_ok pools (\<lambda>p s n. icmp6_dest_unreach uninit out p code ip s n)"
  unfolding unreach_ok_def icmp6_dest_unreach_def
  using icmp6_send_response_returns [OF _ _ assms(2,1) _ assms(3)] rx_packet_mem by blast

text \<open>What the layers around the input path promise.\<close>

definition env_ok ::
  "(memp_t \<Rightarrow> memp_desc) \<Rightarrow> (nat \<Rightarrow> bytes) \<Rightarrow> 'n output_ip6_fn \<Rightarrow> ('cb, 'n) nd6_input_fn \<Rightarrow> ('cb, 'n) udp_recv_fn \<Rightarrow> 'n \<Rightarrow> bool" where
  "env_ok pools uninit out nd6_input recv n \<longleftrightarrow>
     output_ok pools out \<and> fresh_ok uninit \<and> nd6_ok pools nd6_input \<and> recv_ok pools recv n"

definition ip_set :: "ip_globals \<Rightarrow> bool" where
  "ip_set ip \<longleftrightarrow> current_netif ip \<noteq> None \<and> current_ip6_header ip \<noteq> None"

lemma ip6_input_upper_rx:
  assumes rx: "rx_packet pools (b # bs) (is_alloc st)" "mld_ok pools (is_mld st) (is_alloc st)" and ip: "ip_set (is_ip st)"
    and env: "env_ok pools uninit out nd6_input recv (is_net st)"
    and hlen: "unat (current_ip_header_tot_len (is_ip st)) \<le> payload b" "payload b < 32000"
  shows "\<exists>st'. ip6_input_upper uninit out rand nd6_input recv first nxt np (b # bs) inp st = Inr st' \<and> st_freed pools (b # bs) st st'"
proof -
  let ?h = "current_ip_header_tot_len (is_ip st)"
  have e: "output_ok pools out" "fresh_ok uninit" "nd6_ok pools nd6_input" "recv_ok pools recv (is_net st)"
      "current_netif (is_ip st) \<noteq> None" "current_ip6_header (is_ip st) \<noteq> None"
    using env ip by (simp_all add: env_ok_def ip_set_def)
  have drop: "\<exists>st'. drop_packet p st = Inr st' \<and> st_freed pools p st st'" if "rx_packet pools p (is_alloc st)" for p
    using drop_packet_rx [OF that rx(2)] by blast
  have "unat ?h < 32000" using hlen by simp
  from udp_input_rx [OF rx(1) e(4) unreach_ok_icmp6 [OF e(1,2,5)] hlen(1) this, of ICMP6_DUR_PORT inp "current_iphdr_src (is_ip st)"
      "current_iphdr_dest (is_ip st)" "is_udp st"]
  have udp: "\<exists>st'. map_sum id (\<lambda>(s, u, n). st\<lparr>is_alloc := s, is_udp := u, is_net := n\<rparr>)
      (udp_input recv (\<lambda>p s n. icmp6_dest_unreach uninit out p ICMP6_DUR_PORT (is_ip st) s n) (b # bs) inp (current_iphdr_src (is_ip st))
        (current_iphdr_dest (is_ip st)) ?h (is_alloc st) (is_udp st) (is_net st)) = Inr st' \<and> st_freed pools (b # bs) st st'"
    using mld_ok_freed [OF rx(2)] by (auto simp: st_freed_def)
  note icmp = icmp6_input_rx [OF rx e(1-3), of rand inp]
  obtain status b' where b': "pbuf_add_header_force b (ucast ?h) = Inr (status, b')" "rx_packet pools (b' # bs) (is_alloc st)" "pbuf_addr b' = pbuf_addr b"
    using add_header_force_rx [OF rx(1) hlen(1)] by (auto simp: pbuf_add_header_force_def)
  have prob: "\<exists>st'. report_problem uninit out (b' # bs) ICMP6_PP_HEADER np st = Inr st' \<and> st_freed pools (b' # bs) st st'"
    by (rule report_problem_rx [OF b'(2) rx(2) e(1,2,5,6)])
  have same: "st_freed pools (b' # bs) st st' = st_freed pools (b # bs) st st'" for st' using b'(3) by (simp add: st_freed_def)
  show ?thesis
    unfolding ip6_input_upper_def Let_def list.case b'(1) sum.case prod.case
    using drop [OF rx(1)] udp icmp prob [unfolded same] drop [OF b'(2), unfolded same] by (simp split: if_split)
qed

text \<open>\<open>st_freed\<close> does not depend on the globals of the packet being handled.\<close>

lemma st_freed_ip: "st_freed pools p (st\<lparr>is_ip := ip\<rparr>) st' = st_freed pools p st st'" "st_freed pools p st (st'\<lparr>is_ip := ip\<rparr>) = st_freed pools p st st'"
  by (simp_all add: st_freed_def)

lemma ip6_input_local_rx:
  assumes rx: "rx_packet pools (b # bs) (is_alloc st)" "mld_ok pools (is_mld st) (is_alloc st)" and ip: "ip_set (is_ip st)"
    and env: "env_ok pools uninit out nd6_input recv (is_net st)" and b: "aligned b" "40 \<le> unat (p_len b)"
  shows "\<exists>st'. ip6_input_local uninit out rand nd6_input recv h (payload b) (b # bs) inp st = Inr st' \<and> st_freed pools (b # bs) st st'"
proof -
  note c = rx_packet_Cons [OF rx(1)]
  have ok: "chain_ok (b # bs)" using c by simp
  let ?b = "cut_front 40 b"
  have rm: "snd (pbuf_remove_header b (of_nat IP6_HLEN)) = ?b"
    using pbuf_remove_header_cut(1) [OF ok b(2)] by (simp add: IP6_HLEN_def)
  have rx40: "rx_packet pools (?b # bs) (is_alloc st)" "aligned ?b" using rx_packet_cut [OF rx(1) b(2)] aligned_cut [OF b(1) ok b(2)] by simp_all
  have "payload ?b = payload b + unat (40 :: u16)" by simp
  from ip6_ext_loop_returns [OF rx40 this, of "ip6_addr_ismulticast (hdr_dest h)" "plen h" "nexth h" "payload b + 6"] obtain v where
    v: "ip6_ext_loop (ip6_addr_ismulticast (hdr_dest h)) (plen h) (payload b) (nexth h) (payload b + 6) (?b # bs) (of_nat IP6_HLEN) = Inr v"
      "case v of Ext_next p' n' np' ht' \<Rightarrow> rest_of pools ?b bs (is_alloc st) p' \<and> payload (hd p') = payload b + unat ht'
         | Ext_drop p' \<Rightarrow> rest_of pools ?b bs (is_alloc st) p' | Ext_problem p' c ptr \<Rightarrow> rest_of pools ?b bs (is_alloc st) p'"
    by (auto simp: IP6_HLEN_def)
  have rest: "rx_packet pools p' (is_alloc st) \<and> st_freed pools p' st = st_freed pools (b # bs) st \<and> (\<exists>b'. p' = b' # bs \<and> aligned b')"
    if "rest_of pools ?b bs (is_alloc st) p'" for p'
    using that by (auto simp: rest_of_def fun_eq_iff st_freed_def)
  have e: "output_ok pools out" "fresh_ok uninit" "current_netif (is_ip st) \<noteq> None" "current_ip6_header (is_ip st) \<noteq> None"
    using env ip by (simp_all add: env_ok_def ip_set_def)
  show ?thesis
  proof (cases v)
    case (Ext_drop p')
    then show ?thesis using rm v rest [of p'] drop_packet_rx [of pools p' st] rx(2) by (auto simp: ip6_input_local_def)
  next
    case (Ext_problem p' code ptr)
    then show ?thesis using rm v rest [of p'] report_problem_rx [OF _ rx(2) e, of p' code ptr] by (simp add: ip6_input_local_def)
  next
    case (Ext_next p' n' np' ht')
    let ?st = "st\<lparr>is_ip := (is_ip st)\<lparr>current_ip_header_tot_len := ht'\<rparr>\<rparr>"
    obtain b' where p': "p' = b' # bs" "aligned b'" "rx_packet pools (b' # bs) (is_alloc ?st)" "st_freed pools p' st = st_freed pools (b # bs) st"
        "payload b' = payload b + unat ht'"
      using v(2) Ext_next rest [of p'] by auto
    have "\<exists>st'. ip6_input_upper uninit out rand nd6_input recv (nexth h) n' np' (b' # bs) inp ?st = Inr st' \<and> st_freed pools (b' # bs) ?st st'"
      by (rule ip6_input_upper_rx [OF p'(3)]) (use rx(2) ip env p'(2,5) in \<open>simp_all add: ip_set_def aligned_def\<close>)
    then show ?thesis using rm v(1) Ext_next p'(1,4) by (simp add: ip6_input_local_def st_freed_ip)
  qed
qed


section \<open>Input\<close>

text \<open>The state in which the packet with the header \<open>h\<close> is handled; its first pbuf starts at \<open>iph\<close>.\<close>

definition addressed :: "ip6_hdr \<Rightarrow> alloc_state \<Rightarrow> ('cb, 'n) ip6_state \<Rightarrow> ('cb, 'n) ip6_state" where
  "addressed h s st = st\<lparr>is_alloc := s, is_ip := (is_ip st)\<lparr>current_iphdr_dest := hdr_dest h, current_iphdr_src := hdr_src h\<rparr>\<rparr>"

definition arrived :: "ip6_hdr \<Rightarrow> nat \<Rightarrow> netif \<Rightarrow> alloc_state \<Rightarrow> ('cb, 'n) ip6_state \<Rightarrow> ('cb, 'n) ip6_state" where
  "arrived h iph inp s st = (addressed h s st)\<lparr>is_ip := (is_ip (addressed h s st))\<lparr>current_ip6_header := Some iph, current_netif := Some inp,
     current_input_netif := Some inp\<rparr>\<rparr>"

lemma addressed_simps [simp]:
  "is_alloc (addressed h s st) = s" "is_mld (addressed h s st) = is_mld st" "is_alloc (arrived h iph inp s st) = s"
  "is_mld (arrived h iph inp s st) = is_mld st" "is_net (arrived h iph inp s st) = is_net st" "is_udp (arrived h iph inp s st) = is_udp st"
  "current_ip6_header (is_ip (arrived h iph inp s st)) = Some iph"
  "current_iphdr_src (is_ip (arrived h iph inp s st)) = hdr_src h" "current_iphdr_dest (is_ip (arrived h iph inp s st)) = hdr_dest h"
  by (simp_all add: addressed_def arrived_def)

lemma ip6_input_header:
  assumes rx: "rx_packet pools (b # bs) (is_alloc st)"
    and rd: "mem_read (pbuf_mem b) (payload b) 4 = Inr v" "mem_read (pbuf_mem b) (payload b) IP6_HLEN = Inr hb"
    and v: "drop_bit 28 (of_be32 (v ! 0) (v ! 1) (v ! 2) (v ! 3)) AND 0x0f = 6"
    and len: "40 \<le> unat (p_len b)" "unat (plen h) + 40 \<le> unat (tot_len b)" and h: "h = ip6_hdr_of_bytes hb"
  obtains q qs s1 A where "rx_packet pools (q # qs) s1" "freed pools A (is_alloc st) s1"
    "pbuf_addr ` set (b # bs) = A \<union> pbuf_addr ` set (q # qs)" "chain_data (q # qs) = take (40 + unat (plen h)) (chain_data (b # bs))"
    "payload q = payload b" "pbuf_mem q = pbuf_mem b" "unat (p_len q) = min (40 + unat (plen h)) (unat (p_len b))"
    "ip6_input uninit out rand nd6_input recv (b # bs) inp st =
        (if ip6_addr_isipv4mappedipv6 (hdr_dest h) \<or> ip6_addr_isipv4mappedipv6 (hdr_src h) \<or> ip6_addr_ismulticast (hdr_src h)
         then drop_packet (q # qs) (addressed h s1 st)
         else ip6_input_cleanup
           (if hdr_src h = IP6_ADDR_ANY \<and> \<not> ip6_addr_issolicitednode (hdr_dest h) then drop_packet (q # qs) (arrived h (payload b) inp s1 st)
            else (case ip6_input_netif inp (is_mld st) (hdr_dest h) of
                    None \<Rightarrow> drop_packet (q # qs) (arrived h (payload b) inp s1 st)
                  | Some nif \<Rightarrow> ip6_input_local uninit out rand nd6_input recv h (payload b) (q # qs) inp
                      ((arrived h (payload b) inp s1 st)\<lparr>is_ip := (is_ip (arrived h (payload b) inp s1 st))\<lparr>current_netif := Some nif\<rparr>\<rparr>))))"
proof -
  have "unat (tot_len b) < 65536" using unsigned_less [of "tot_len b"] by simp
  then have n: "unat (of_nat IP6_HLEN + plen h) = 40 + unat (plen h)" using len by (simp add: unat_word_ariths IP6_HLEN_def)
  then have "0 < unat (of_nat IP6_HLEN + plen h)" by simp
  from pbuf_realloc_rx [OF rx this] obtain q qs s1 A where
    q: "pbuf_realloc (b # bs) (of_nat IP6_HLEN + plen h) (is_alloc st) = Inr (q # qs, s1)" "rx_packet pools (q # qs) s1"
      "freed pools A (is_alloc st) s1" "pbuf_addr ` set (b # bs) = A \<union> pbuf_addr ` set (q # qs)"
      "chain_data (q # qs) = take (unat (of_nat IP6_HLEN + plen h)) (chain_data (b # bs))"
      "payload q = payload b" "pbuf_mem q = pbuf_mem b" "unat (p_len q) = min (unat (of_nat IP6_HLEN + plen h)) (unat (p_len b))"
    by (elim exE conjE)
  have le: "\<not> IP6_HLEN > unat (p_len b)" "\<not> int (unat (plen h)) > int (unat (tot_len b)) - int IP6_HLEN"
    using len unfolding IP6_HLEN_def by linarith+
  note q(5,8) [unfolded n]
  moreover have "ip6_input uninit out rand nd6_input recv (b # bs) inp st =
        (if ip6_addr_isipv4mappedipv6 (hdr_dest h) \<or> ip6_addr_isipv4mappedipv6 (hdr_src h) \<or> ip6_addr_ismulticast (hdr_src h)
         then drop_packet (q # qs) (addressed h s1 st)
         else ip6_input_cleanup
           (if hdr_src h = IP6_ADDR_ANY \<and> \<not> ip6_addr_issolicitednode (hdr_dest h) then drop_packet (q # qs) (arrived h (payload b) inp s1 st)
            else (case ip6_input_netif inp (is_mld st) (hdr_dest h) of
                    None \<Rightarrow> drop_packet (q # qs) (arrived h (payload b) inp s1 st)
                  | Some nif \<Rightarrow> ip6_input_local uninit out rand nd6_input recv h (payload b) (q # qs) inp
                      ((arrived h (payload b) inp s1 st)\<lparr>is_ip := (is_ip (arrived h (payload b) inp s1 st))\<lparr>current_netif := Some nif\<rparr>\<rparr>))))"
    unfolding ip6_input_def list.case rd sum.case h [symmetric] Let_def q(1) prod.case addressed_def [symmetric] arrived_def [symmetric]
    using v le by simp
  ultimately show thesis using q by (intro that) assumption+
qed

lemma ip6_input_rx:
  assumes rx: "rx_packet pools (b # bs) (is_alloc st)" "mld_ok pools (is_mld st) (is_alloc st)"
    and env: "env_ok pools uninit out nd6_input recv (is_net st)" and b: "aligned b" "payload b + 40 \<le> length (pbuf_mem b)"
  shows "\<exists>st'. ip6_input uninit out rand nd6_input recv (b # bs) inp st = Inr st' \<and> st_freed pools (b # bs) st st'"
proof -
  have drop: "\<exists>st'. drop_packet (b # bs) st = Inr st' \<and> st_freed pools (b # bs) st st'" using drop_packet_rx [OF rx] by blast
  obtain v hb where rd: "mem_read (pbuf_mem b) (payload b) 4 = Inr v" "mem_read (pbuf_mem b) (payload b) IP6_HLEN = Inr hb"
    using b(2) by (simp add: mem_read_def IP6_HLEN_def)
  define h where "h = ip6_hdr_of_bytes hb"
  show ?thesis
  proof (cases "drop_bit 28 (of_be32 (v ! 0) (v ! 1) (v ! 2) (v ! 3)) AND 0x0f \<noteq> 6 \<or> IP6_HLEN > unat (p_len b)
      \<or> int (unat (plen h)) > int (unat (tot_len b)) - int IP6_HLEN")
    case True
    then show ?thesis using rd drop by (auto simp: ip6_input_def Let_def h_def)
  next
    case False
    have v: "drop_bit 28 (of_be32 (v ! 0) (v ! 1) (v ! 2) (v ! 3)) AND 0x0f = 6" using False by blast
    have len: "40 \<le> unat (p_len b)" "unat (plen h) + 40 \<le> unat (tot_len b)" using False unfolding IP6_HLEN_def by linarith+
    show ?thesis
    proof (rule ip6_input_header [OF rx(1) rd v len h_def, of uninit out rand nd6_input recv inp], goal_cases)
      case (1 q qs s1 A)
      have al: "aligned q" "40 \<le> unat (p_len q)" using b(1) 1(5-7) len by (auto simp: aligned_def)
      note mld = mld_ok_freed [OF rx(2) 1(2)]
      have all: "st_freed pools (b # bs) st st'" if "st_freed pools (q # qs) x st'" "is_alloc x = s1" for x st'
        using that freed_Un [OF 1(2)] unfolding st_freed_def 1(3) by blast
      have drop1: "\<exists>st'. drop_packet (q # qs) x = Inr st' \<and> st_freed pools (b # bs) st st'"
        if "is_alloc x = s1" "is_mld x = is_mld st" for x
      proof -
        have "rx_packet pools (q # qs) (is_alloc x)" "mld_ok pools (is_mld x) (is_alloc x)" using 1(1) mld that by simp_all
        from drop_packet_rx [OF this] show ?thesis using all [OF _ that(1)] by blast
      qed
      let ?st2 = "arrived h (payload b) inp s1 st"
      have loc: "\<exists>st'. ip6_input_local uninit out rand nd6_input recv h (payload b) (q # qs) inp (?st2\<lparr>is_ip := (is_ip ?st2)\<lparr>current_netif := Some nif\<rparr>\<rparr>)
          = Inr st' \<and> st_freed pools (b # bs) st st'" for nif
      proof -
        let ?st = "?st2\<lparr>is_ip := (is_ip ?st2)\<lparr>current_netif := Some nif\<rparr>\<rparr>"
        have "rx_packet pools (q # qs) (is_alloc ?st)" "mld_ok pools (is_mld ?st) (is_alloc ?st)" "ip_set (is_ip ?st)"
            "env_ok pools uninit out nd6_input recv (is_net ?st)" "is_alloc ?st = s1"
          using 1(1) mld env by (simp_all add: ip_set_def)
        then show ?thesis using ip6_input_local_rx [of pools q qs ?st, OF _ _ _ _ al, of uninit out nd6_input recv rand h inp] all [of ?st]
          unfolding 1(5) by blast
      qed
      have cl: "\<exists>st'. ip6_input_cleanup r = Inr st' \<and> st_freed pools (b # bs) st st'" if "\<exists>st'. r = Inr st' \<and> st_freed pools (b # bs) st st'" for r
        using that by (auto simp: ip6_input_cleanup_def st_freed_ip)
      show ?case
        unfolding 1(8) using drop1 [of "addressed h s1 st"] cl [OF drop1 [of ?st2]] cl [OF loc]
        by (cases "ip6_input_netif inp (is_mld st) (hdr_dest h)") simp_all
    qed
  qed
qed

section \<open>Well-formed frames\<close>

lemma chain_head_bytes:
  assumes "chain_ok (b # bs)" "k \<le> unat (p_len b)"
  shows "mem_read (pbuf_mem b) (payload b) k = Inr (take k (chain_data (b # bs)))"
proof -
  have in_mem: "payload b + unat (p_len b) \<le> length (pbuf_mem b)" using assms(1) by simp
  from pbuf_bytes_read [OF in_mem, of 0 k] length_pbuf_bytes [OF in_mem] assms(2) show ?thesis by simp
qed

lemma ethernet_input_ip6:
  assumes rx: "rx_packet pools (b # bs) (is_alloc st)" "14 < unat (p_len b)"
    and dat: "chain_data (b # bs) = eth_frame mac smac rest" "length mac = 6" "length smac = 6"
  shows "\<exists>b2. rx_packet pools (b2 # bs) (is_alloc st) \<and> chain_data (b2 # bs) = rest \<and> pbuf_addr b2 = pbuf_addr b \<and> pbuf_mem b2 = pbuf_mem b
    \<and> payload b2 = payload b + 14 \<and> unat (p_len b2) = unat (p_len b) - 14
    \<and> ethernet_input uninit out rand nd6_input recv (b # bs) inp st = ip6_input uninit out rand nd6_input recv (b2 # bs) inp st"
proof -
  have ok: "chain_ok (b # bs)" using rx_packet_Cons [OF rx(1)] by simp
  define h where "h = take 14 (chain_data (b # bs))"
  have rd: "mem_read (pbuf_mem b) (payload b) SIZEOF_ETH_HDR = Inr h"
    using chain_head_bytes [OF ok, of 14] rx(2) by (simp add: h_def SIZEOF_ETH_HDR_def del: chain_data_simps)
  have "h ! 12 = be16 ETHTYPE_IPV6 ! 0" "h ! 13 = be16 ETHTYPE_IPV6 ! 1"
    using dat(2,3) by (simp_all add: h_def dat(1) eth_frame_def nth_append del: chain_data_simps)
  then have ty: "of_be16 (h ! 12) (h ! 13) = ETHTYPE_IPV6" by (simp add: be16_def of_be16_be16)
  define b1 where "b1 = b\<lparr>if_idx := (if if_idx b = NETIF_NO_INDEX then netif_num inp + 1 else if_idx b), p_flags := p_flags b OR eth_mark h\<rparr>"
  have c1: "chain_ok (b1 # bs)" "rx_packet pools (b1 # bs) (is_alloc st)" "14 \<le> unat (p_len b1)"
    using ok rx_packet_head [OF rx(1), of b1] rx(2) by (simp_all add: b1_def)
  have rm: "pbuf_remove_header b1 (of_nat SIZEOF_ETH_HDR) = (False, cut_front 14 b1)"
    using pbuf_remove_header_cut(1) [OF c1(1,3)] by (simp add: SIZEOF_ETH_HDR_def)
  have "chain_data (b1 # bs) = chain_data (b # bs)" by (simp add: b1_def pbuf_bytes_def)
  then have "chain_data (cut_front 14 b1 # bs) = rest"
    using dat(2,3) unfolding pbuf_remove_header_cut(3) [OF c1(1,3)] dat(1) by (simp add: eth_frame_def)
  moreover have "ethernet_input uninit out rand nd6_input recv (b # bs) inp st = ip6_input uninit out rand nd6_input recv (cut_front 14 b1 # bs) inp st"
    unfolding ethernet_input_def list.case rd sum.case Let_def b1_def [symmetric] rm prod.case bool.case using rx(2) ty by (simp add: SIZEOF_ETH_HDR_def)
  ultimately show ?thesis
    using rx_packet_cut [OF c1(2,3)] cut_front_len(1) [OF c1(1,3)] by (intro exI [of _ "cut_front 14 b1"]) (simp add: b1_def)
qed

text \<open>A frame with an IPv6 packet of which the header is in the first buffer, perhaps with padding.\<close>

definition ip6_frame :: "chain \<Rightarrow> u8 \<Rightarrow> ip6_addr \<Rightarrow> ip6_addr \<Rightarrow> bytes \<Rightarrow> bool" where
  "ip6_frame p nxt src dst dat \<longleftrightarrow> 54 \<le> unat (p_len (hd p)) \<and>
     (\<exists>mac smac tc hl pad. length mac = 6 \<and> length smac = 6 \<and> chain_data p = eth_frame mac smac (ip6_packet tc nxt hl src dst dat @ pad))"

definition received :: "u8 \<Rightarrow> ip6_addr \<Rightarrow> ip6_addr \<Rightarrow> ip6_hdr \<Rightarrow> bool" where
  "received nxt src dst h \<longleftrightarrow> nexth h = nxt \<and> hdr_src h = src \<and> hdr_dest h = dst"

lemma ethernet_input_packet:
  assumes rx: "rx_packet pools (b # bs) (is_alloc st)" and p: "ip6_frame (b # bs) nxt src dst dat"
  obtains h q qs s1 A where "received nxt src dst h" "rx_packet pools (q # qs) s1" "freed pools A (is_alloc st) s1"
    "pbuf_addr ` set (b # bs) = A \<union> pbuf_addr ` set (q # qs)" "length (chain_data (q # qs)) = 40 + length dat" "drop 40 (chain_data (q # qs)) = dat"
    "payload q = payload b + 14" "pbuf_mem q = pbuf_mem b" "40 \<le> unat (p_len q)" "unat (p_len q) = min (40 + length dat) (unat (p_len b) - 14)"
    "ethernet_input uninit out rand nd6_input recv (b # bs) inp st =
        (if ip6_addr_isipv4mappedipv6 dst \<or> ip6_addr_isipv4mappedipv6 src \<or> ip6_addr_ismulticast src
         then drop_packet (q # qs) (addressed h s1 st)
         else ip6_input_cleanup
           (if src = IP6_ADDR_ANY \<and> \<not> ip6_addr_issolicitednode dst then drop_packet (q # qs) (arrived h (payload q) inp s1 st)
            else (case ip6_input_netif inp (is_mld st) dst of
                    None \<Rightarrow> drop_packet (q # qs) (arrived h (payload q) inp s1 st)
                  | Some nif \<Rightarrow> ip6_input_local uninit out rand nd6_input recv h (payload q) (q # qs) inp
                      ((arrived h (payload q) inp s1 st)\<lparr>is_ip := (is_ip (arrived h (payload q) inp s1 st))\<lparr>current_netif := Some nif\<rparr>\<rparr>))))"
proof -
  obtain mac smac tc hl pad where f: "54 \<le> unat (p_len b)" "length mac = 6" "length smac = 6"
      "chain_data (b # bs) = eth_frame mac smac (ip6_packet tc nxt hl src dst dat @ pad)"
    using p by (auto simp: ip6_frame_def simp del: chain_data_simps)
  have "14 < unat (p_len b)" using f(1) by simp
  from ethernet_input_ip6 [OF rx this f(4,2,3), of uninit out rand nd6_input recv inp] obtain b2 where
    b2: "rx_packet pools (b2 # bs) (is_alloc st)" "chain_data (b2 # bs) = ip6_packet tc nxt hl src dst dat @ pad" "pbuf_addr b2 = pbuf_addr b"
      "pbuf_mem b2 = pbuf_mem b" "payload b2 = payload b + 14" "unat (p_len b2) = unat (p_len b) - 14"
      "ethernet_input uninit out rand nd6_input recv (b # bs) inp st = ip6_input uninit out rand nd6_input recv (b2 # bs) inp st"
    by (elim exE conjE)
  define h where "h = \<lparr>v_tc_fl = IP6H_VTCFL 6 tc 0, plen = of_nat (length dat), nexth = nxt, hoplim = hl, hdr_src = src, hdr_dest = dst\<rparr>"
  have d2: "chain_data (b2 # bs) = ip6_hdr_bytes h @ dat @ pad" unfolding b2(2) by (simp add: ip6_packet_def h_def)
  note c2 = rx_packet_Cons [OF b2(1)]
  have ok: "chain_ok (b2 # bs)" "40 \<le> unat (p_len b2)" "4 \<le> unat (p_len b2)" using c2 f(1) b2(6) by simp_all
  define v where "v = take 4 (ip6_hdr_bytes h)"
  have rd: "mem_read (pbuf_mem b2) (payload b2) 4 = Inr v" "mem_read (pbuf_mem b2) (payload b2) IP6_HLEN = Inr (ip6_hdr_bytes h)"
    unfolding IP6_HLEN_def chain_head_bytes [OF ok(1,2)] chain_head_bytes [OF ok(1,3)] d2 v_def by simp_all
  have "v = be32 (v_tc_fl h)" by (simp add: v_def ip6_hdr_bytes_def)
  then have "of_be32 (v ! 0) (v ! 1) (v ! 2) (v ! 3) = v_tc_fl h" by (simp add: be32_def of_be32_be32)
  then have ver: "drop_bit 28 (of_be32 (v ! 0) (v ! 1) (v ! 2) (v ! 3)) AND 0x0f = 6"
    using vtcfl_version [of h tc] by (simp add: IP6H_V_def h_def)
  have tl: "unat (tot_len b2) = 40 + length dat + length pad" using c2 length_chain_data [OF ok(1), unfolded d2] by simp
  moreover have "unat (tot_len b2) < 65536" using unsigned_less [of "tot_len b2"] by simp
  ultimately have pl: "unat (plen h) = length dat" by (simp add: h_def unat_of_nat take_bit_nat_def)
  have len: "unat (plen h) + 40 \<le> unat (tot_len b2)" using pl tl by simp
  have a: "hdr_src h = src" "hdr_dest h = dst" "received nxt src dst h" by (simp_all add: h_def received_def)
  show thesis
  proof (rule ip6_input_header [OF b2(1) rd ver ok(2) len ip6_hdr_of_bytes_bytes [symmetric], of uninit out rand nd6_input recv inp], goal_cases)
    case (1 q qs s1 A)
    have d: "length (chain_data (q # qs)) = 40 + length dat" "drop 40 (chain_data (q # qs)) = dat"
      unfolding 1(4) pl d2 by simp_all
    have "payload q = payload b + 14" "pbuf_mem q = pbuf_mem b" "40 \<le> unat (p_len q)" "unat (p_len q) = min (40 + length dat) (unat (p_len b) - 14)"
      "pbuf_addr ` set (b # bs) = A \<union> pbuf_addr ` set (q # qs)"
      using 1(3,5-7) b2(3-6) pl ok(2) by simp_all
    then show ?case using that [OF a(3) 1(1,2) _ d] b2(7) 1(8) [unfolded 1(5) [symmetric] a] by simp
  qed
qed

lemma ethernet_input_rx:
  assumes rx: "rx_packet pools p (is_alloc st)" "payload (hd p) = 0" "length (pbuf_mem (hd p)) = PBUF_POOL_BUFSIZE_ALIGNED"
    and mld: "mld_ok pools (is_mld st) (is_alloc st)" and env: "env_ok pools uninit out nd6_input recv (is_net st)"
  shows "\<exists>st'. ethernet_input uninit out rand nd6_input recv p inp st = Inr st' \<and> st_freed pools p st st'"
proof -
  obtain b bs where p: "p = b # bs" using rx(1) by (cases p) (auto simp: rx_packet_def tight_chain_def)
  show ?thesis
  proof (cases "unat (p_len b) \<le> SIZEOF_ETH_HDR")
    case True
    then show ?thesis using drop_packet_rx [OF rx(1) mld] p by (auto simp: ethernet_input_def)
  next
    case False
    then have long: "14 \<le> unat (p_len b)" by (simp add: SIZEOF_ETH_HDR_def)
    have b: "payload b = 0" "length (pbuf_mem b) = 1400" using rx(2,3) p by (simp_all add: PBUF_POOL_BUFSIZE_ALIGNED_def)
    obtain h where rd: "mem_read (pbuf_mem b) (payload b) SIZEOF_ETH_HDR = Inr h" using b by (simp add: mem_read_def SIZEOF_ETH_HDR_def)
    define b1 where "b1 = b\<lparr>if_idx := (if if_idx b = NETIF_NO_INDEX then netif_num inp + 1 else if_idx b), p_flags := p_flags b OR eth_mark h\<rparr>"
    have c1: "chain_ok (b1 # bs)" "rx_packet pools (b1 # bs) (is_alloc st)" "14 \<le> unat (p_len b1)" "st_freed pools (b1 # bs) st = st_freed pools p st"
      using rx_packet_Cons [OF rx(1) [unfolded p]] rx_packet_head [OF rx(1) [unfolded p], of b1] long p
      by (simp_all add: b1_def st_freed_def fun_eq_iff)
    have rm: "pbuf_remove_header b1 (of_nat SIZEOF_ETH_HDR) = (False, cut_front 14 b1)"
      using pbuf_remove_header_cut(1) [OF c1(1,3)] by (simp add: SIZEOF_ETH_HDR_def)
    have "unat (p_len b1) \<le> 1400" using c1(1) b by (simp add: b1_def)
    then have al: "aligned (cut_front 14 b1)" "payload (cut_front 14 b1) + 40 \<le> length (pbuf_mem (cut_front 14 b1))"
      using b cut_front_len(1) [OF c1(1,3)] by (simp_all add: aligned_def b1_def)
    have "st_freed pools (cut_front 14 b1 # bs) st = st_freed pools p st" using c1(4) by (simp add: st_freed_def fun_eq_iff)
    note ip = ip6_input_rx [OF rx_packet_cut [OF c1(2,3)] mld env al, of rand inp, unfolded this]
      and drop = drop_packet_rx [OF c1(2) mld, unfolded c1(4)]
    show ?thesis
      unfolding ethernet_input_def p list.case rd sum.case Let_def b1_def [symmetric] rm prod.case bool.case
      using False ip drop unfolding p by auto
  qed
qed

section \<open>Properties\<close>


lemma ip6_input_local_udp:
  assumes rx: "rx_packet pools (q # qs) (is_alloc st)" "40 \<le> unat (p_len q)" and h: "nexth h = IP_PROTO_UDP"
  shows "ip6_input_local uninit out rand nd6_input recv h iph (q # qs) inp st =
    (let ip = (is_ip st)\<lparr>current_ip_header_tot_len := 40\<rparr> in
     map_sum id (\<lambda>(s, u, n). st\<lparr>is_ip := ip, is_alloc := s, is_udp := u, is_net := n\<rparr>)
       (udp_input recv (\<lambda>p s n. icmp6_dest_unreach uninit out p ICMP6_DUR_PORT ip s n) (cut_front 40 q # qs) inp (current_iphdr_src (is_ip st))
          (current_iphdr_dest (is_ip st)) 40 (is_alloc st) (is_udp st) (is_net st)))"
proof -
  have ok: "chain_ok (q # qs)" using rx_packet_Cons [OF rx(1)] by simp
  have rm: "snd (pbuf_remove_header q 40) = cut_front 40 q" using pbuf_remove_header_cut(1) [OF ok rx(2)] by simp
  have "ip6_ext_loop m pl i IP_PROTO_UDP np (cut_front 40 q # qs) 40 = Inr (Ext_next (cut_front 40 q # qs) IP_PROTO_UDP np 40)" for m pl i np
    by (subst ip6_ext_loop.simps) (simp add: ip6_ext_header_def IP_PROTO_UDP_def IP6_NEXTH_NONE_def IP6_NEXTH_HOPBYHOP_def
        IP6_NEXTH_DESTOPTS_def IP6_NEXTH_ROUTING_def IP6_NEXTH_FRAGMENT_def)
  then show ?thesis
    unfolding ip6_input_local_def IP6_HLEN_def h
    by (simp add: rm) (simp add: ip6_input_upper_def IP_PROTO_UDP_def IP6_NEXTH_NONE_def Let_def)
qed

text \<open>
  Delivery. A frame that holds a UDP datagram for an address of the interface or a group it has joined, from an ordinary
  source, reaches \<open>udp_input\<close> with exactly the bytes of the datagram (the padding is cut off) and with its addresses.
\<close>

lemma ethernet_input_delivers:
  assumes rx: "rx_packet pools p (is_alloc st)" "ip6_frame p IP_PROTO_UDP src dst dat"
    and a: "\<not> ip6_addr_isipv4mappedipv6 dst" "\<not> ip6_addr_isipv4mappedipv6 src" "\<not> ip6_addr_ismulticast src" "src \<noteq> IP6_ADDR_ANY"
      "ip6_input_netif inp (is_mld st) dst \<noteq> None"
  shows "\<exists>q qs s1 A ip. rx_packet pools (q # qs) s1 \<and> chain_data (q # qs) = dat \<and> unat (p_len q) = min (length dat) (unat (p_len (hd p)) - 54)
    \<and> freed pools A (is_alloc st) s1 \<and> pbuf_addr ` set p = A \<union> pbuf_addr ` set (q # qs)
    \<and> current_iphdr_src ip = src \<and> current_iphdr_dest ip = dst
    \<and> ethernet_input uninit out rand nd6_input recv p inp st =
        map_sum id (\<lambda>(s, u, n). st\<lparr>is_ip := no_ip_data, is_alloc := s, is_udp := u, is_net := n\<rparr>)
          (udp_input recv (\<lambda>p s n. icmp6_dest_unreach uninit out p ICMP6_DUR_PORT ip s n) (q # qs) inp src dst 40 s1 (is_udp st) (is_net st))"
proof -
  obtain b bs where p: "p = b # bs" using rx(1) by (cases p) (auto simp: rx_packet_def tight_chain_def)
  obtain nif where nif: "ip6_input_netif inp (is_mld st) dst = Some nif" using a(5) by auto
  show ?thesis
  proof (rule ethernet_input_packet [OF rx [unfolded p], of uninit out rand nd6_input recv inp], goal_cases)
    case (1 h q qs s1 A)
    let ?st2 = "arrived h (payload q) inp s1 st"
    let ?st = "?st2\<lparr>is_ip := (is_ip ?st2)\<lparr>current_netif := Some nif\<rparr>\<rparr>"
    let ?ip = "(is_ip ?st)\<lparr>current_ip_header_tot_len := 40\<rparr>"
    have h: "nexth h = IP_PROTO_UDP" "hdr_src h = src" "hdr_dest h = dst" using 1(1) by (simp_all add: received_def)
    have st: "is_alloc ?st = s1" "is_udp ?st = is_udp st" "is_net ?st = is_net st" "current_iphdr_src (is_ip ?st) = src" "current_iphdr_dest (is_ip ?st) = dst"
      by (simp_all add: h)
    have rxq: "rx_packet pools (q # qs) (is_alloc ?st)" using 1(2) by simp
    have ok: "chain_ok (q # qs)" using rx_packet_Cons [OF 1(2)] by simp
    have fin: "ip6_input_cleanup (map_sum id (\<lambda>(s, u, n). ?st\<lparr>is_ip := ?ip, is_alloc := s, is_udp := u, is_net := n\<rparr>) r)
        = map_sum id (\<lambda>(s, u, n). st\<lparr>is_ip := no_ip_data, is_alloc := s, is_udp := u, is_net := n\<rparr>) r" for r
      by (cases r) (auto simp: ip6_input_cleanup_def arrived_def addressed_def)
    have eq: "ethernet_input uninit out rand nd6_input recv p inp st =
        ip6_input_cleanup (ip6_input_local uninit out rand nd6_input recv h (payload q) (q # qs) inp ?st)"
      unfolding p 1(11) using a nif by simp
    show ?case
      unfolding eq ip6_input_local_udp [OF rxq 1(9) h(1)] st Let_def fin
    proof (intro exI conjI)
      show "rx_packet pools (cut_front 40 q # qs) s1" by (rule rx_packet_cut [OF 1(2,9)])
      show "chain_data (cut_front 40 q # qs) = dat" unfolding pbuf_remove_header_cut(3) [OF ok 1(9)] by (rule 1(6))
      show "unat (p_len (cut_front 40 q)) = min (length dat) (unat (p_len (hd p)) - 54)"
        unfolding cut_front_len(1) [OF ok 1(9)] 1(10) p by simp
      show "freed pools A (is_alloc st) s1" by (rule 1(3))
      show "pbuf_addr ` set p = A \<union> pbuf_addr ` set (cut_front 40 q # qs)" using 1(4) p by simp
    qed (simp_all add: h)
  qed
qed

text \<open>
  C20: the multicast filter. A frame for a group other than the all-nodes groups that the interface has not joined is dropped:
  its buffers are freed, no callback runs and nothing is sent.
\<close>

theorem ethernet_input_filters:
  assumes rx: "rx_packet pools p (is_alloc st)" "ip6_frame p nxt src dst dat" and mld: "mld_ok pools (is_mld st) (is_alloc st)"
    and d: "ip6_addr_ismulticast dst" "\<not> ip6_addr_isallnodes_iflocal dst" "\<not> ip6_addr_isallnodes_linklocal dst"
      "\<forall>g \<in> set (is_mld st). group_address g \<noteq> dst"
  shows "\<exists>st'. ethernet_input uninit out rand nd6_input recv p inp st = Inr st' \<and> is_udp st' = is_udp st \<and> is_mld st' = is_mld st \<and> is_net st' = is_net st
    \<and> freed pools (pbuf_addr ` set p) (is_alloc st) (is_alloc st')"
proof -
  obtain b bs where p: "p = b # bs" using rx(1) by (cases p) (auto simp: rx_packet_def tight_chain_def)
  have "mld6_lookfor_group (is_mld st) dst = None" using d(4) lookfor_Some [of "is_mld st" dst] by (cases "mld6_lookfor_group (is_mld st) dst") auto
  then have nif: "ip6_input_netif inp (is_mld st) dst = None" using d by (simp add: ip6_input_netif_def)
  show ?thesis
  proof (rule ethernet_input_packet [OF rx [unfolded p], of uninit out rand nd6_input recv inp], goal_cases)
    case (1 h q qs s1 A)
    note mld1 = mld_ok_freed [OF mld 1(3)]
    have drop: "\<exists>st'. drop_packet (q # qs) x = Inr st' \<and> is_udp st' = is_udp x \<and> is_mld st' = is_mld x \<and> is_net st' = is_net x
        \<and> freed pools (pbuf_addr ` set p) (is_alloc st) (is_alloc st')" if "is_alloc x = s1" "is_mld x = is_mld st" for x
    proof -
      have "rx_packet pools (q # qs) (is_alloc x)" "mld_ok pools (is_mld x) (is_alloc x)" using 1(2) mld1 that by simp_all
      from drop_packet_rx [OF this] obtain s' where s': "drop_packet (q # qs) x = Inr (x\<lparr>is_alloc := s'\<rparr>)" "st_freed pools (q # qs) x (x\<lparr>is_alloc := s'\<rparr>)"
        by blast
      have "freed pools (pbuf_addr ` set (q # qs)) s1 s'" using s'(2) that(1) by (simp add: st_freed_def)
      from freed_Un [OF 1(3) this] s'(1) show ?thesis unfolding p 1(4) by simp
    qed
    have cl: "\<exists>st'. ip6_input_cleanup (drop_packet (q # qs) (arrived h (payload q) inp s1 st)) = Inr st' \<and> is_udp st' = is_udp st \<and> is_mld st' = is_mld st
        \<and> is_net st' = is_net st \<and> freed pools (pbuf_addr ` set p) (is_alloc st) (is_alloc st')"
      using drop [of "arrived h (payload q) inp s1 st"] by (auto simp: ip6_input_cleanup_def)
    have "is_udp (addressed h s1 st) = is_udp st" "is_net (addressed h s1 st) = is_net st" by (simp_all add: addressed_def)
    then show ?case unfolding p 1(11) nif option.case if_cancel using drop [of "addressed h s1 st"] cl by (simp add: p)
  qed
qed


section \<open>Examples\<close>

text \<open>A receive buffer from the pool with a frame in it, and callbacks that only free the packet.\<close>

definition rx_buf :: "nat \<Rightarrow> bytes \<Rightarrow> pbuf" where
  "rx_buf x dat = \<lparr>pbuf_addr = x, pbuf_mem = dat @ replicate (1400 - length dat) 0, payload = 0, tot_len = of_nat (length dat),
     p_len = of_nat (length dat), type_internal = 0x82, p_flags = 0, p_ref = 1, if_idx = 0\<rparr>"

definition free_recv :: "('cb, 'n) udp_recv_fn" where
  "free_recv cb c p a port s n = map_sum id (\<lambda>(cnt, rest, s'). (s', n)) (pbuf_free p s)"

definition sample_frame :: "ip6_addr \<Rightarrow> bytes" where
  "sample_frame dst = eth_frame [0x33, 0x33, 0, 0, 0, 0xfb] [2, 0, 0, 0, 0, 2] (ip6_packet 0 IP_PROTO_UDP 255 (IP6 0xfe800000 0 0 2) dst (be16 7 @ be16 9 @ be16 8 @ be16 0))"

definition sample_state :: "memp_state \<Rightarrow> (nat, bytes list) ip6_state" where
  "sample_state m = ping_state\<lparr>is_alloc := alloc0\<lparr>al_memp := m\<rparr>\<rparr>"

lemma length_eth_frame: "length mac = 6 \<Longrightarrow> length smac = 6 \<Longrightarrow> length (eth_frame mac smac dat) = 14 + length dat"
  by (simp add: eth_frame_def be16_def)

lemma length_sample_frame: "length (sample_frame dst) = 62"
  unfolding sample_frame_def by (subst length_eth_frame) (simp_all add: ip6_packet_def)

lemma rx_buf_simps:
  assumes "length dat \<le> 1400"
  shows "unat (p_len (rx_buf x dat)) = length dat" "unat (tot_len (rx_buf x dat)) = length dat" "chain_data [rx_buf x dat] = dat" "chain_ok [rx_buf x dat]"
    "payload (rx_buf x dat) = 0" "length (pbuf_mem (rx_buf x dat)) = 1400" "pbuf_addr (rx_buf x dat) = x"
  using assms by (simp_all add: rx_buf_def unat_of_nat take_bit_nat_def pbuf_bytes_def)

lemma rx_buf_packet:
  "\<exists>x m. memp_malloc MEMP_PBUF_POOL (al_memp alloc0) = Inr (Some x, m) \<and> mld_ok sample_pools [] (alloc0\<lparr>al_memp := m\<rparr>) \<and>
     (\<forall>dat. length dat \<le> 1400 \<longrightarrow> rx_packet sample_pools [rx_buf x dat] (alloc0\<lparr>al_memp := m\<rparr>))"
proof -
  have fe: "free_elems (al_memp alloc0) MEMP_PBUF_POOL = set (pool_elems (sample_pools MEMP_PBUF_POOL))"
    using memp_init_free_elems [OF sample_pools_ok] by (simp add: alloc0_def memp0_def)
  have "free_elems (al_memp alloc0) MEMP_PBUF_POOL \<noteq> {}" unfolding fe by (simp add: pool_elems_def sample_pools_def)
  from memp_malloc_some [OF alloc0_ok(2) this] obtain x m where
    m: "memp_malloc MEMP_PBUF_POOL (al_memp alloc0) = Inr (Some x, m)" "x \<in> set (pool_elems (sample_pools MEMP_PBUF_POOL))" "memp_ok sample_pools m"
      "x \<notin> free_elems m MEMP_PBUF_POOL"
    unfolding fe by auto
  have "rx_packet sample_pools [rx_buf x dat] (alloc0\<lparr>al_memp := m\<rparr>)" if "length dat \<le> 1400" for dat
    using that rx_buf_simps [OF that, of x] m(2-4) alloc0_ok(1) by (simp add: rx_packet_def tight_chain_def) (simp add: rx_buf_def)
  moreover have "mld_ok sample_pools [] (alloc0\<lparr>al_memp := m\<rparr>)" using m(3) alloc0_ok(1) by (simp add: mld_ok_def)
  ultimately show ?thesis using m(1) by blast
qed

lemma sample_env_ok: "env_ok pools zeros log_output (\<lambda>p inp st. drop_packet p st) free_recv n"
proof -
  have "nd6_ok pools (\<lambda>p inp st. drop_packet p st)" unfolding nd6_ok_def using drop_packet_rx by blast
  moreover have "recv_ok pools free_recv n" unfolding recv_ok_def free_recv_def using pbuf_free_rx by fastforce
  ultimately show ?thesis by (simp add: env_ok_def log_output_ok zeros_fresh)
qed

lemma sample_ip6_frame: "ip6_frame [rx_buf x (sample_frame dst)] IP_PROTO_UDP (IP6 0xfe800000 0 0 2) dst (be16 7 @ be16 9 @ be16 8 @ be16 0)"
proof -
  have len: "length (sample_frame dst) \<le> 1400" by (simp add: length_sample_frame)
  have "54 \<le> unat (p_len (hd [rx_buf x (sample_frame dst)]))" using rx_buf_simps(1) [OF len, of x] by (simp add: length_sample_frame)
  moreover have "\<exists>mac smac tc hl pad. length mac = 6 \<and> length smac = 6 \<and> sample_frame dst
      = eth_frame mac smac (ip6_packet tc IP_PROTO_UDP hl (IP6 0xfe800000 0 0 2) dst (be16 7 @ be16 9 @ be16 8 @ be16 0) @ pad)"
    unfolding sample_frame_def
    by (rule exI [of _ "[0x33, 0x33, 0, 0, 0, 0xfb]"], rule exI [of _ "[2, 0, 0, 0, 0, 2]"], rule exI [of _ 0], rule exI [of _ 255],
        rule exI [of _ "[]"]) simp
  ultimately show ?thesis unfolding ip6_frame_def rx_buf_simps(3) [OF len] by (rule conjI)
qed


theorem ethernet_input_filters_witness:
  "\<exists>x m st'. memp_malloc MEMP_PBUF_POOL (al_memp alloc0) = Inr (Some x, m) \<and> is_net st' = []
    \<and> ethernet_input zeros log_output (\<lambda>n. (0, n)) (\<lambda>p inp st. drop_packet p st) free_recv [rx_buf x (sample_frame (IP6 0xff020000 0 0x0200 0x01020304))]
        sample_netif (sample_state m) = Inr st'"
proof -
  let ?dst = "IP6 0xff020000 0 0x0200 0x01020304"
  obtain x m where m: "memp_malloc MEMP_PBUF_POOL (al_memp alloc0) = Inr (Some x, m)" "mld_ok sample_pools [] (alloc0\<lparr>al_memp := m\<rparr>)"
      "\<And>dat. length dat \<le> 1400 \<Longrightarrow> rx_packet sample_pools [rx_buf x dat] (alloc0\<lparr>al_memp := m\<rparr>)"
    using rx_buf_packet by blast
  let ?p = "[rx_buf x (sample_frame ?dst)]"
  have len: "length (sample_frame ?dst) \<le> 1400" by (simp add: length_sample_frame)
  have rx: "rx_packet sample_pools ?p (is_alloc (sample_state m))" using m(3) [OF len] by (simp add: sample_state_def)
  have st: "is_net (sample_state m) = []" "is_mld (sample_state m) = []" "mld_ok sample_pools (is_mld (sample_state m)) (is_alloc (sample_state m))"
    using m(2) by (simp_all add: sample_state_def ping_state_def)
  have d: "ip6_addr_ismulticast ?dst" "\<not> ip6_addr_isallnodes_iflocal ?dst" "\<not> ip6_addr_isallnodes_linklocal ?dst"
      "\<forall>g \<in> set (is_mld (sample_state m)). group_address g \<noteq> ?dst"
    by (simp_all add: st(2) ip6_addr_isallnodes_iflocal_def ip6_addr_isallnodes_linklocal_def)
  from ethernet_input_filters [OF rx sample_ip6_frame st(3) d, of zeros log_output "\<lambda>n. (0, n)" "\<lambda>p inp st. drop_packet p st" free_recv sample_netif] m(1) st(1)
  show ?thesis by auto
qed

end
