(* ===== verification/Stack.thy ===== *)
theory Stack
  imports Network Ip6_Receive
begin

text \<open>
  The gateway on its network: a datagram of \<open>transmit_udp_frame\<close> through UDP, IPv6 and Ethernet to \<open>linkoutput\<close>, and the frame on
  another gateway from \<open>ethernet_input\<close> to the CAN transmit queue.
\<close>

section \<open>A frame in one receive buffer\<close>

lemma rx_single:
  assumes "rx_packet pools (q # qs) s1" "freed pools A s s1" "{x} = A \<union> pbuf_addr ` set (q # qs)"
  shows "qs = []" "A = {}" "pbuf_addr q = x"
proof -
  have d: "distinct (map pbuf_addr (q # qs))" and nf: "\<forall>y \<in> set (q # qs). pbuf_addr y \<notin> free_elems (al_memp s1) MEMP_PBUF_POOL"
    using assms(1) by (auto simp: rx_packet_def)
  have sub: "A \<subseteq> {x}" "pbuf_addr ` set (q # qs) \<subseteq> {x}" using assms(3) by blast+
  then show x: "pbuf_addr q = x" by simp
  show "qs = []"
  proof (cases qs)
    case (Cons y ys)
    then have "pbuf_addr y = x" using sub(2) by simp
    then show ?thesis using d x Cons by simp
  qed
  have "A \<subseteq> free_elems (al_memp s1) MEMP_PBUF_POOL" using assms(2) by (auto simp: freed_def)
  then have "x \<notin> A" using nf x by auto
  then show "A = {}" using sub(1) by auto
qed

lemma dealloc_rx:
  assumes "rx_packet pools [q] s"
  shows "\<exists>s'. dealloc_pbuf q s = Inr s' \<and> freed pools {pbuf_addr q} s s'"
proof -
  have p: "type_internal q = 0x82" "p_ref q = 1" using assms by (simp_all add: rx_packet_def)
  from pbuf_free_rx [OF assms] obtain cnt s' where "pbuf_free [q] s = Inr (cnt, [], s')" "freed pools {pbuf_addr q} s s'" by auto
  then show ?thesis using p by (auto simp: pbuf_free_def split: sum.splits)
qed

text \<open>
  A gateway that gets a UDP datagram of the protocol in a frame, for an address or a group it accepts.
\<close>

lemma gateway_receives_frame:
  fixes st :: "(recv_fn, 'k gateway) ip6_state"
  assumes g: "gw_ok (is_net st)" "i < CAN_IFACES" "listens (is_net st) c dport i" "is_udp st = gw_udp (gw_net (is_net st))"
    and a: "\<not> ip6_addr_isipv4mappedipv6 dst" "\<not> ip6_addr_isipv4mappedipv6 src" "\<not> ip6_addr_ismulticast src" "src \<noteq> IP6_ADDR_ANY"
      "ip6_input_netif inp (is_mld st) dst \<noteq> None"
    and r: "rx_packet pools [r] (is_alloc st)" "ip6_frame [r] IP_PROTO_UDP src dst (chain_data [q])"
    and q: "chain_ok [q]" "8 \<le> unat (p_len q)" "chain_data [q] = udp_packet sport dport len ck (encode_packet seq fs)"
      "ip_chksum_pseudo [q] IP_PROTO_UDP (tot_len q) src dst = 0"
    and fs: "\<forall>f \<in> set fs. plain_frame f" "0 < length fs" "length fs < 65536"
  shows "\<exists>st'. ethernet_input uninit out rand nd6_input (gw_recv mdns) [r] inp st = Inr st' \<and> freed pools {pbuf_addr r} (is_alloc st) (is_alloc st')
    \<and> gw_alloc (is_net st') = is_alloc st'
    \<and> map frame_view (tx_frames (iface_state i (is_net st'))) = map frame_view (tx_frames (iface_state i (is_net st)))
        @ map frame_view (take (tx_room i (is_net st)) fs)"
proof -
  from ethernet_input_delivers [OF r a, of uninit out rand nd6_input "gw_recv mdns"]
  obtain b bs s1 A ip where d: "rx_packet pools (b # bs) s1" "chain_data (b # bs) = chain_data [q]"
      "freed pools A (is_alloc st) s1" "pbuf_addr ` set [r] = A \<union> pbuf_addr ` set (b # bs)"
      "ethernet_input uninit out rand nd6_input (gw_recv mdns) [r] inp st =
        map_sum id (\<lambda>(s, u, n). st\<lparr>is_ip := no_ip_data, is_alloc := s, is_udp := u, is_net := n\<rparr>)
          (udp_input (gw_recv mdns) (\<lambda>p s n. icmp6_dest_unreach uninit out p ICMP6_DUR_PORT ip s n) (b # bs) inp src dst 40 s1 (is_udp st) (is_net st))"
    by (elim exE conjE)
  have "{pbuf_addr r} = A \<union> pbuf_addr ` set (b # bs)" using d(4) by simp
  note one = rx_single [OF d(1,3) this]
  have b: "chain_ok [b]" "rx_packet pools [b] s1" "chain_data [b] = chain_data [q]" using d(1,2) rx_packet_Cons [OF d(1)] unfolding one(1) by simp_all
  note same = same_data_verifies [OF b(1) q(1) b(3)]
  have len: "8 \<le> unat (p_len b)" using q(1,2) b(1) same(1) by simp
  obtain al where al: "dealloc_pbuf b s1 = Inr al" "freed pools {pbuf_addr b} s1 al" using dealloc_rx [OF b(2)] by blast
  have ok: "gw_ok ((is_net st)\<lparr>gw_alloc := s1\<rparr>)" using g(1) rx_packet_mem [OF d(1)] by (simp add: gw_ok_def)
  have ref: "p_ref b = 1" using rx_packet_Cons [OF d(1)] by simp
  have dat: "chain_data [b] = udp_packet sport dport len ck (encode_packet seq fs)" unfolding b(3) by (rule q(3))
  have ck: "ip_chksum_pseudo [b] IP_PROTO_UDP (tot_len b) src dst = 0" unfolding same(2) by (rule q(4))
  from udp_input_frames [OF ok g(2,3) b(1) len dat ck ref al(1) fs, of mdns "\<lambda>p s n. icmp6_dest_unreach uninit out p ICMP6_DUR_PORT ip s n" inp 40]
  obtain g' ps where g': "udp_input (gw_recv mdns) (\<lambda>p s n. icmp6_dest_unreach uninit out p ICMP6_DUR_PORT ip s n) [b] inp src dst 40 s1
        (gw_udp (gw_net (is_net st))) (is_net st) = Inr (al, (gw_udp (gw_net (is_net st)))\<lparr>udp_pcbs := ps\<rparr>, g')" "gw_alloc g' = al"
      "map frame_view (tx_frames (iface_state i g')) = map frame_view (tx_frames (iface_state i (is_net st)))
        @ map frame_view (take (tx_room i (is_net st)) fs)"
    by (elim exE conjE)
  have "freed pools {pbuf_addr r} (is_alloc st) al" using freed_Un [OF d(3) al(2)] one(2,3) by simp
  then show ?thesis unfolding d(5) one(1) g(4) g'(1) using g'(2,3) by simp
qed

section \<open>Properties\<close>

text \<open>
  C1: the gateway over Ethernet. When \<open>transmit_udp_frame\<close> has memory for a datagram, exactly one Ethernet frame goes to
  \<open>linkoutput\<close>. Any other gateway that gets its bytes in one receive buffer, perhaps padded, on an interface that accepts the
  destination and listens on the port, appends exactly the packed CAN frames (identifier, length and data), in order and as far as there
  is room, to the transmit queue of that interface, and the buffer is free again.
\<close>

theorem gateway_over_ethernet:
  fixes s :: "'h gw_net cnl_state" and st :: "(recv_fn, 'k gateway) ip6_state"
  defines "dst \<equiv> init_addr (cs_handle s)" and "g \<equiv> is_net st"
  assumes s: "cnl_ok s" "\<forall>f \<in> set (rx_frames s). plain_frame f" "rx_frames s \<noteq> []" "fresh_ok uninit"
      "pbuf_alloc uninit PBUF_TRANSPORT 1200 PBUF_RAM (cs_alloc s) \<noteq> Inr ([], cs_alloc s)" "can_reach s nd nif src"
    and link: "length (hwaddr nif) = 6" "hop_mac next_hop nif dst mac"
    and g: "gw_ok g" "i < CAN_IFACES" "listens g c (init_remote_port (cs_handle s)) i" "is_udp st = gw_udp (gw_net g)"
    and a: "\<not> ip6_addr_isipv4mappedipv6 dst" "\<not> ip6_addr_isipv4mappedipv6 src" "\<not> ip6_addr_ismulticast src" "src \<noteq> IP6_ADDR_ANY"
      "ip6_input_netif inp (is_mld st) dst \<noteq> None"
  shows "\<exists>f al rq. chain_ok [f] \<and> length (chain_data [f]) < 1262
    \<and> transmit_udp_frame uninit (gw_sendto uninit (eth_ip_output linkoutput next_hop) nd) s =
        (case linkoutput nif [f] al (cs_net s) of
           Inl e \<Rightarrow> Inl e
         | Inr (err, q2, s2, n2) \<Rightarrow>
             (case pbuf_free q2 s2 of
                Inl e \<Rightarrow> Inl e
              | Inr (n, rest, al'') \<Rightarrow>
                  Inr (length (packet_frames s) < length (rx_frames s),
                    s\<lparr>cs_handle := (cs_handle s)\<lparr>rx_queue := rq, sequence_number := sequence_number (cs_handle s) + 1\<rparr>,
                      cs_alloc := al'', cs_net := n2\<lparr>gw_udp := gw_udp (cs_net s)\<rparr>\<rparr>)))
    \<and> queue_contents (cs_frames s) rq = drop (length (packet_frames s)) (rx_frames s) \<and> packet_frames s \<noteq> []
    \<and> (\<forall>r pad. rx_packet pools [r] (is_alloc st) \<and> chain_data [r] = chain_data [f] @ pad \<longrightarrow>
         (\<exists>st'. ethernet_input uninit' out rand nd6_input (gw_recv mdns) [r] inp st = Inr st' \<and> freed pools {pbuf_addr r} (is_alloc st) (is_alloc st')
           \<and> map frame_view (tx_frames (iface_state i (is_net st'))) = map frame_view (tx_frames (iface_state i g))
               @ map frame_view (take (tx_room i g) (packet_frames s))))"
proof -
  let ?fs = "packet_frames s" and ?h = "cs_handle s"
  note plain = packet_frames_plain(1) [OF s(2,3)] and ne = packet_frames_plain(2) [OF s(2,3)] and small = packet_frames_plain(3) [OF s(2,3)]
  from transmit_hands_over [OF s, of "eth_ip_output linkoutput next_hop"] obtain q len ck tt al rq where
    q: "chain_ok [q]" "8 \<le> unat (p_len q)" "room_for 54 q" "p_ref q = 1" "unat (tot_len q) < 1208"
      "chain_data [q] = udp_packet (local_port (pcb_at (gw_udp (cs_net s)) (cnl_pcb ?h))) (init_remote_port ?h) len ck
        (encode_packet (ucast (sequence_number ?h)) ?fs)"
      "ip_chksum_pseudo [q] IP_PROTO_UDP (tot_len q) src dst = 0"
    and t: "transmit_udp_frame uninit (gw_sendto uninit (eth_ip_output linkoutput next_hop) nd) s =
        (case eth_ip_output linkoutput next_hop [q] src dst tt IP_PROTO_UDP nif al (cs_net s) of
           Inl e \<Rightarrow> Inl e
         | Inr (err, q2, s2, n2) \<Rightarrow>
             (case pbuf_free q2 s2 of
                Inl e \<Rightarrow> Inl e
              | Inr (n, rest, al'') \<Rightarrow>
                  Inr (length ?fs < length (rx_frames s),
                    s\<lparr>cs_handle := ?h\<lparr>rx_queue := rq, sequence_number := sequence_number ?h + 1\<rparr>,
                      cs_alloc := al'', cs_net := n2\<lparr>gw_udp := gw_udp (cs_net s)\<rparr>\<rparr>)))"
    and rq: "queue_contents (cs_frames s) rq = drop (length ?fs) (rx_frames s)"
    unfolding dst_def by (elim exE conjE)
  from eth_ip_output_frame [OF q(1,3,4) link, of IP_PROTO_UDP tt src linkoutput al "cs_net s"] obtain f where
    f: "chain_ok [f]" "chain_data [f] = eth_frame mac (hwaddr nif) (ip6_packet 0 IP_PROTO_UDP tt src dst (chain_data [q]))"
      "eth_ip_output linkoutput next_hop [q] src dst tt IP_PROTO_UDP nif al (cs_net s) = linkoutput nif [f] al (cs_net s)"
    by (elim exE conjE)
  have lm: "length mac = 6" using link(2) by (simp add: hop_mac_def)
  have lq: "length (chain_data [q]) < 1208" using q(1,5) length_chain_data [OF q(1)] by simp
  have lf: "length (chain_data [f]) < 1262" unfolding f(2) using lq by (simp add: length_eth_frame [OF lm link(1)] ip6_packet_def)
  have recv: "\<exists>st'. ethernet_input uninit' out rand nd6_input (gw_recv mdns) [r] inp st = Inr st' \<and> freed pools {pbuf_addr r} (is_alloc st) (is_alloc st')
           \<and> map frame_view (tx_frames (iface_state i (is_net st'))) = map frame_view (tx_frames (iface_state i g))
               @ map frame_view (take (tx_room i g) ?fs)"
    if r: "rx_packet pools [r] (is_alloc st)" "chain_data [r] = chain_data [f] @ pad" for r pad
  proof -
    have "chain_ok [r]" using rx_packet_Cons [OF r(1)] by simp
    then have "unat (p_len r) = length (chain_data [r])" using length_chain_data [of "[r]"] by simp
    then have "54 \<le> unat (p_len r)" unfolding r(2) f(2) by (simp add: length_eth_frame [OF lm link(1)] ip6_packet_def)
    then have "ip6_frame [r] IP_PROTO_UDP src dst (chain_data [q])"
      unfolding ip6_frame_def r(2) f(2) eth_frame_def using lm link(1)
      by (intro conjI exI [of _ mac] exI [of _ "hwaddr nif"] exI [of _ 0] exI [of _ tt] exI [of _ pad]) simp_all
    from gateway_receives_frame [OF g [unfolded g_def] a r(1) this q(1,2,6,7) plain ne small, of uninit' out rand nd6_input mdns]
    show ?thesis unfolding g_def by blast
  qed
  show ?thesis
    apply (rule exI [of _ f], rule exI [of _ al], rule exI [of _ rq])
    using f(1) lf rq ne recv t [unfolded f(3)] by auto
qed


text \<open>
  The sample gateway hands one frame with two CAN frames, for the all-nodes group, to a link that keeps the packet; a second gateway gets
  it in a buffer from the pool.
\<close>

definition quiet_link :: "'n linkoutput_fn" where
  "quiet_link nif p s n = Inr (ERR_OK, p, s, n)"

definition gw_state :: "memp_state \<Rightarrow> (recv_fn, unit gateway) ip6_state" where
  "gw_state m = \<lparr>is_ip = no_ip_data, is_alloc = alloc0\<lparr>al_memp := m\<rparr>, is_udp = gw_udp net_gw, is_mld = [], is_net = gw1\<lparr>gw_net := net_gw\<rparr>\<rparr>"


lemma sample_gw_room:
  "tx_room 1 (gw1\<lparr>gw_net := net_gw\<rparr>) = 127" "tx_frames (iface_state 1 (gw1\<lparr>gw_net := net_gw\<rparr>)) = []"
  using sample_queue(2) by (simp_all add: tx_room_def tx_frames_def iface_state_def gw1_def) (simp add: queue_init_def)

theorem gateway_over_ethernet_witness:
  "\<exists>x m dat st'. memp_malloc MEMP_PBUF_POOL (al_memp alloc0) = Inr (Some x, m)
    \<and> ethernet_input zeros (\<lambda>nif q d s n. Inr (ERR_OK, q, s, n)) (\<lambda>n. (0, n)) (\<lambda>p inp st. drop_packet p st) (gw_recv (\<lambda>pcb p a port s g. Inr (s, g)))
        [rx_buf x dat] sample_netif (gw_state m) = Inr st'
    \<and> map frame_view (tx_frames (iface_state 1 (is_net st'))) = map frame_view [frame_ab 1, frame_ab 2]"
proof -
  let ?s = "cnl0 net_gw" and ?src = "IP6 0xfe800000 0 0x0200 0x01020304" and ?dst = "IP6 0xff020000 0 0 1" and ?g = "gw1\<lparr>gw_net := net_gw\<rparr>"
  obtain x m where m: "memp_malloc MEMP_PBUF_POOL (al_memp alloc0) = Inr (Some x, m)"
      "\<And>dat. length dat \<le> 1400 \<Longrightarrow> rx_packet sample_pools [rx_buf x dat] (alloc0\<lparr>al_memp := m\<rparr>)"
    using rx_buf_packet by blast
  have st: "is_net (gw_state m) = ?g" "is_alloc (gw_state m) = alloc0\<lparr>al_memp := m\<rparr>" "is_udp (gw_state m) = gw_udp (gw_net ?g)" "is_mld (gw_state m) = []"
    by (simp_all add: gw_state_def)
  have h: "init_remote_port (cs_handle ?s) = 20010" "init_addr (cs_handle ?s) = ?dst" by (simp_all add: cnl0_def handle0_def)
  have plain: "\<forall>f \<in> set (rx_frames ?s). plain_frame f" "rx_frames ?s \<noteq> []"
    using frame_ab_plain by (simp_all add: cnl0_queues CAN_RTR_FLAG_def)
  have pf: "packet_frames ?s = [frame_ab 1, frame_ab 2]"
    by (simp add: packet_frames_def cnl0_queues frame_ab_def canfd_len_def CANFD_FRAME_def)
  have link: "length (hwaddr sample_netif) = 6" "hop_mac (\<lambda>nif q d s n. Inr (ERR_OK, None, q, s, n)) sample_netif (init_addr (cs_handle ?s)) (multicast_mac ?dst)"
    by (simp_all add: sample_netif_def hop_mac_def h)
  have a: "\<not> ip6_addr_isipv4mappedipv6 (init_addr (cs_handle ?s))" "\<not> ip6_addr_isipv4mappedipv6 ?src" "\<not> ip6_addr_ismulticast ?src"
      "?src \<noteq> IP6_ADDR_ANY" "ip6_input_netif sample_netif (is_mld (gw_state m)) (init_addr (cs_handle ?s)) \<noteq> None"
    unfolding h by (simp_all add: IP6_ADDR_ANY_def ip6_input_netif_def ip6_addr_isallnodes_linklocal_def)
  have g: "gw_ok (is_net (gw_state m))" "1 < CAN_IFACES" "listens (is_net (gw_state m)) 4 (init_remote_port (cs_handle ?s)) 1"
      "is_udp (gw_state m) = gw_udp (gw_net (is_net (gw_state m)))"
    using sample_gw sample_listens unfolding h st by (simp_all add: CAN_IFACES_def)
  from gateway_over_ethernet [where linkoutput = quiet_link and pools = sample_pools and uninit' = zeros
      and out = "\<lambda>nif q d s n. Inr (ERR_OK, q, s, n)" and rand = "\<lambda>n. (0, n)" and nd6_input = "\<lambda>p inp st. drop_packet p st"
      and mdns = "\<lambda>pcb p a port s g. Inr (s, g)", OF cnl0_ok plain zeros_fresh cnl0_memory sample_reach link g a]
  show ?thesis
  proof (elim exE conjE, goal_cases)
    case (1 f al rq)
    let ?r = "rx_buf x (chain_data [f])"
    have len: "length (chain_data [f]) \<le> 1400" using 1(2) by simp
    have "rx_packet sample_pools [?r] (is_alloc (gw_state m)) \<and> chain_data [?r] = chain_data [f] @ []"
      using m(2) [OF len] rx_buf_simps(3) [OF len] unfolding st by simp
    from 1(6) [rule_format, OF this] obtain st' where
      st': "ethernet_input zeros (\<lambda>nif q d s n. Inr (ERR_OK, q, s, n)) (\<lambda>n. (0, n)) (\<lambda>p inp st. drop_packet p st) (gw_recv (\<lambda>pcb p a port s g. Inr (s, g)))
          [?r] sample_netif (gw_state m) = Inr st'"
        "map frame_view (tx_frames (iface_state 1 (is_net st'))) = map frame_view [] @ map frame_view (take 127 [frame_ab 1, frame_ab 2])"
      unfolding pf st sample_gw_room by (elim exE conjE)
    have "take 127 [frame_ab 1, frame_ab 2] = [frame_ab 1, frame_ab 2]" by simp
    then show ?case using m(1) st' by (intro exI [of _ x] exI [of _ m] exI [of _ "chain_data [f]"] exI [of _ st'] conjI) (simp_all only: list.map append_Nil)
  qed
qed

end
