(* ===== verification/Timeouts.thy ===== *)
theory Timeouts
  imports Memp "HOL-Library.Multiset"
begin

text \<open>
  The software timers of lwip/src/core/timeouts.c: a list of timeouts ordered by due time on a
  32-bit millisecond clock that wraps around. The elements come from the pool MEMP_SYS_TIMEOUT.
  A handler is \<open>lwip_cyclic_timer\<close>, which reschedules itself, or another function of type \<open>'h\<close>;
  what the handlers do besides is given by the arguments \<open>tmr\<close> (the cyclic handlers \<open>nd6_tmr\<close> and
  \<open>mld6_tmr\<close>) and \<open>other\<close>. The clock \<open>tick_ms\<close> of src/src/drivers/timer.c advances while they run.
\<close>

section \<open>Data\<close>

datatype 'h timeo_handler = Lwip_cyclic_timer | Other_handler 'h

record 'h sys_timeo =
  timeo_addr :: nat
  timeo_time :: u32
  timeo_h :: "'h timeo_handler option"
  timeo_arg :: nat

record ('h, 'n) timer_state =
  next_timeout :: "'h sys_timeo list"
  current_timeout_due_time :: u32
  timer_memp :: memp_state
  tick_ms :: u32
  timer_env :: 'n

type_synonym ('h, 'n) timer_fn = "nat \<Rightarrow> ('h, 'n) timer_state \<Rightarrow> ('h, 'n) timer_state result"

definition LWIP_MAX_TIMEOUT :: u32 where "LWIP_MAX_TIMEOUT = 0x7fffffff"

definition TIME_LESS_THAN :: "u32 \<Rightarrow> u32 \<Rightarrow> bool" where
  "TIME_LESS_THAN t compare_to \<longleftrightarrow> t - compare_to > LWIP_MAX_TIMEOUT"

text \<open>The intervals of \<open>nd6_tmr\<close> and \<open>mld6_tmr\<close>, the cyclic timers of this configuration.\<close>

definition lwip_cyclic_timers :: "u32 list" where
  "lwip_cyclic_timers = [1000, 100]"

definition sys_now :: "('h, 'n) timer_state \<Rightarrow> u32" where
  "sys_now s = tick_ms s"

text \<open>The interrupt handler of the timer.\<close>

definition rtiCompare0Interrupt :: "('h, 'n) timer_state \<Rightarrow> ('h, 'n) timer_state" where
  "rtiCompare0Interrupt s = s\<lparr>tick_ms := tick_ms s + 1\<rparr>"

section \<open>Operations\<close>

text \<open>The loop of \<open>sys_timeout_abs\<close>, at a list element that is not later than the new one.\<close>

fun insert_after :: "'h sys_timeo \<Rightarrow> 'h sys_timeo list \<Rightarrow> 'h sys_timeo list" where
  "insert_after x [] = []"
| "insert_after x [t] = [t, x]"
| "insert_after x (t # u # ts) =
     (if TIME_LESS_THAN (timeo_time x) (timeo_time u) then t # x # u # ts else t # insert_after x (u # ts))"

definition insert_timeo :: "'h sys_timeo \<Rightarrow> 'h sys_timeo list \<Rightarrow> 'h sys_timeo list" where
  "insert_timeo x ts =
     (case ts of
        [] \<Rightarrow> [x]
      | t # r \<Rightarrow> if TIME_LESS_THAN (timeo_time x) (timeo_time t) then x # ts else insert_after x ts)"

definition sys_timeout_abs ::
  "u32 \<Rightarrow> 'h timeo_handler option \<Rightarrow> nat \<Rightarrow> ('h, 'n) timer_state \<Rightarrow> ('h, 'n) timer_state result" where
  "sys_timeout_abs abs_time handler arg s =
     (case memp_malloc MEMP_SYS_TIMEOUT (timer_memp s) of
        Inl e \<Rightarrow> Inl e
      | Inr (None, m) \<Rightarrow> Inl AssertFail
      | Inr (Some a, m) \<Rightarrow>
          (let timeout = \<lparr>timeo_addr = a, timeo_time = abs_time, timeo_h = handler, timeo_arg = arg\<rparr> in
           Inr (s\<lparr>timer_memp := m, next_timeout := insert_timeo timeout (next_timeout s)\<rparr>)))"

definition sys_timeout ::
  "u32 \<Rightarrow> 'h timeo_handler option \<Rightarrow> nat \<Rightarrow> ('h, 'n) timer_state \<Rightarrow> ('h, 'n) timer_state result" where
  "sys_timeout msecs handler arg s =
     (if msecs \<le> 0xffffffff div 4 then sys_timeout_abs (sys_now s + msecs) handler arg s else Inl AssertFail)"

definition lwip_cyclic_timer :: "('h, 'n) timer_fn \<Rightarrow> ('h, 'n) timer_fn" where
  "lwip_cyclic_timer tmr arg s =
     (if arg < length lwip_cyclic_timers then
        (case tmr arg s of
           Inl e \<Rightarrow> Inl e
         | Inr s1 \<Rightarrow>
             (let now = sys_now s1;
                  interval_ms = lwip_cyclic_timers ! arg;
                  next_timeout_time = current_timeout_due_time s1 + interval_ms
              in if TIME_LESS_THAN next_timeout_time now
                 then sys_timeout_abs (now + interval_ms) (Some Lwip_cyclic_timer) arg s1
                 else sys_timeout_abs next_timeout_time (Some Lwip_cyclic_timer) arg s1))
      else Inl OutOfBounds)"

fun timeouts_init_loop :: "nat list \<Rightarrow> ('h, 'n) timer_state \<Rightarrow> ('h, 'n) timer_state result" where
  "timeouts_init_loop [] s = Inr s"
| "timeouts_init_loop (i # is) s =
     (case sys_timeout (lwip_cyclic_timers ! i) (Some Lwip_cyclic_timer) i s of
        Inl e \<Rightarrow> Inl e
      | Inr s' \<Rightarrow> timeouts_init_loop is s')"

definition sys_timeouts_init :: "('h, 'n) timer_state \<Rightarrow> ('h, 'n) timer_state result" where
  "sys_timeouts_init s = timeouts_init_loop [0..<length lwip_cyclic_timers] s"

text \<open>\<open>sys_untimeout\<close>: the entries before the first match, and the match with the rest.\<close>

fun untimeout_split :: "'h timeo_handler option \<Rightarrow> nat \<Rightarrow> 'h sys_timeo list \<Rightarrow> 'h sys_timeo list \<Rightarrow>
    ('h sys_timeo list \<times> 'h sys_timeo \<times> 'h sys_timeo list) option" where
  "untimeout_split h arg prev [] = None"
| "untimeout_split h arg prev (t # ts) =
     (if timeo_h t = h \<and> timeo_arg t = arg then Some (prev, t, ts) else untimeout_split h arg (prev @ [t]) ts)"

definition sys_untimeout ::
  "'h timeo_handler option \<Rightarrow> nat \<Rightarrow> ('h, 'n) timer_state \<Rightarrow> ('h, 'n) timer_state result" where
  "sys_untimeout handler arg s =
     (case untimeout_split handler arg [] (next_timeout s) of
        None \<Rightarrow> Inr s
      | Some (prev, t, ts) \<Rightarrow>
          map_sum id (\<lambda>m. s\<lparr>next_timeout := prev @ ts, timer_memp := m\<rparr>)
            (memp_free MEMP_SYS_TIMEOUT (timeo_addr t) (timer_memp s)))"

definition call_handler :: "('h, 'n) timer_fn \<Rightarrow> ('h \<Rightarrow> ('h, 'n) timer_fn) \<Rightarrow> 'h timeo_handler option \<Rightarrow> ('h, 'n) timer_fn" where
  "call_handler tmr other handler arg s =
     (case handler of
        None \<Rightarrow> Inr s
      | Some Lwip_cyclic_timer \<Rightarrow> lwip_cyclic_timer tmr arg s
      | Some (Other_handler f) \<Rightarrow> other f arg s)"

text \<open>The loop of \<open>sys_check_timeouts\<close>; \<open>None\<close> when it does not end.\<close>

partial_function (option) check_timeouts_loop ::
  "('h, 'n) timer_fn \<Rightarrow> ('h \<Rightarrow> ('h, 'n) timer_fn) \<Rightarrow> u32 \<Rightarrow> ('h, 'n) timer_state \<Rightarrow> ('h, 'n) timer_state result option" where
  "check_timeouts_loop tmr other now s =
     (case next_timeout s of
        [] \<Rightarrow> Some (Inr s)
      | t # ts \<Rightarrow>
          if TIME_LESS_THAN now (timeo_time t) then Some (Inr s)
          else
            (case memp_free MEMP_SYS_TIMEOUT (timeo_addr t) (timer_memp s) of
               Inl e \<Rightarrow> Some (Inl e)
             | Inr m \<Rightarrow>
                 (case call_handler tmr other (timeo_h t) (timeo_arg t)
                         (s\<lparr>next_timeout := ts, current_timeout_due_time := timeo_time t, timer_memp := m\<rparr>) of
                    Inl e \<Rightarrow> Some (Inl e)
                  | Inr s' \<Rightarrow> check_timeouts_loop tmr other now s')))"

definition sys_check_timeouts ::
  "('h, 'n) timer_fn \<Rightarrow> ('h \<Rightarrow> ('h, 'n) timer_fn) \<Rightarrow> ('h, 'n) timer_state \<Rightarrow> ('h, 'n) timer_state result" where
  "sys_check_timeouts tmr other s =
     (case check_timeouts_loop tmr other (sys_now s) s of None \<Rightarrow> Inl Hang | Some r \<Rightarrow> r)"

definition sys_restart_timeouts :: "('h, 'n) timer_state \<Rightarrow> ('h, 'n) timer_state" where
  "sys_restart_timeouts s =
     (case next_timeout s of
        [] \<Rightarrow> s
      | t # ts \<Rightarrow>
          s\<lparr>next_timeout := map (\<lambda>x. x\<lparr>timeo_time := (timeo_time x - timeo_time t) + sys_now s\<rparr>) (next_timeout s)\<rparr>)"

definition sys_timeouts_sleeptime :: "('h, 'n) timer_state \<Rightarrow> u32 result" where
  "sys_timeouts_sleeptime s =
     (case next_timeout s of
        [] \<Rightarrow> Inr 0xffffffff
      | t # ts \<Rightarrow>
          if TIME_LESS_THAN (timeo_time t) (sys_now s) then Inr 0
          else
            (let ret = timeo_time t - sys_now s in
             if ret \<le> LWIP_MAX_TIMEOUT then Inr ret else Inl AssertFail))"

section \<open>Times on a wrapping clock\<close>

text \<open>The time of an event as a distance from a base; comparisons are right inside half the range.\<close>

definition ofs :: "u32 \<Rightarrow> u32 \<Rightarrow> nat" where
  "ofs base t = unat (t - base)"

definition timeo_ofs :: "u32 \<Rightarrow> 'h sys_timeo \<Rightarrow> nat" where
  "timeo_ofs base t = ofs base (timeo_time t)"

lemma word_diff_half:
  fixes x y :: u32
  assumes "unat x < 2 ^ 31" "unat y < 2 ^ 31"
  shows "unat (x - y) > 0x7fffffff \<longleftrightarrow> unat x < unat y"
  using assms by (cases "unat y \<le> unat x") (auto simp: unat_sub_if_size word_size word_le_nat_alt)

lemma time_less_ofs:
  assumes "ofs base a < 2 ^ 31" "ofs base b < 2 ^ 31"
  shows "TIME_LESS_THAN a b \<longleftrightarrow> ofs base a < ofs base b"
proof -
  have "a - b = (a - base) - (b - base)" by simp
  then have "TIME_LESS_THAN a b \<longleftrightarrow> unat ((a - base) - (b - base)) > 0x7fffffff"
    by (simp add: TIME_LESS_THAN_def LWIP_MAX_TIMEOUT_def word_less_nat_alt)
  also have "\<dots> \<longleftrightarrow> ofs base a < ofs base b"
    unfolding ofs_def by (rule word_diff_half) (use assms in \<open>simp_all only: ofs_def\<close>)
  finally show ?thesis .
qed

lemma ofs_add:
  assumes "ofs base t + unat d < 2 ^ 32"
  shows "ofs base (t + d) = ofs base t + unat d"
proof -
  have "t + d - base = (t - base) + d" by simp
  then have "ofs base (t + d) = (unat (t - base) + unat d) mod 2 ^ 32" by (simp only: ofs_def unat_word_ariths) simp
  then show ?thesis using assms by (simp add: ofs_def)
qed

section \<open>The list of timeouts\<close>

text \<open>The window of half the range from \<open>base\<close> holds every due time, and the list is in order.\<close>

definition in_window :: "u32 \<Rightarrow> 'h sys_timeo list \<Rightarrow> bool" where
  "in_window base ts \<longleftrightarrow> (\<forall>t \<in> set ts. timeo_ofs base t < 2 ^ 31) \<and> sorted (map (timeo_ofs base) ts)"

lemma in_window_Cons:
  "in_window base (t # ts) \<longleftrightarrow> timeo_ofs base t < 2 ^ 31 \<and> (\<forall>u \<in> set ts. timeo_ofs base t \<le> timeo_ofs base u)
    \<and> in_window base ts"
  by (auto simp: in_window_def)

lemma time_less_timeo:
  "timeo_ofs base x < 2 ^ 31 \<Longrightarrow> timeo_ofs base y < 2 ^ 31 \<Longrightarrow>
    TIME_LESS_THAN (timeo_time x) (timeo_time y) \<longleftrightarrow> timeo_ofs base x < timeo_ofs base y"
  unfolding timeo_ofs_def by (rule time_less_ofs)

text \<open>A new timeout goes behind the ones that are due at the same time or earlier.\<close>

definition place :: "u32 \<Rightarrow> 'h sys_timeo \<Rightarrow> 'h sys_timeo list \<Rightarrow> 'h sys_timeo list" where
  "place base x ts = takeWhile (\<lambda>t. timeo_ofs base t \<le> timeo_ofs base x) ts @ [x]
     @ dropWhile (\<lambda>t. timeo_ofs base t \<le> timeo_ofs base x) ts"

lemma insert_after_place:
  "in_window base (t # ts) \<Longrightarrow> timeo_ofs base x < 2 ^ 31 \<Longrightarrow> timeo_ofs base t \<le> timeo_ofs base x \<Longrightarrow>
    insert_after x (t # ts) = place base x (t # ts)"
proof (induction ts arbitrary: t)
  case Nil
  then show ?case by (simp add: place_def)
next
  case (Cons u ts)
  then have "TIME_LESS_THAN (timeo_time x) (timeo_time u) \<longleftrightarrow> timeo_ofs base x < timeo_ofs base u"
    by (intro time_less_timeo) (simp_all add: in_window_Cons)
  then show ?case using Cons by (auto simp: place_def in_window_Cons)
qed

lemma insert_timeo_place:
  assumes "in_window base ts" "timeo_ofs base x < 2 ^ 31"
  shows "insert_timeo x ts = place base x ts"
proof (cases ts)
  case (Cons t r)
  then have "TIME_LESS_THAN (timeo_time x) (timeo_time t) \<longleftrightarrow> timeo_ofs base x < timeo_ofs base t"
    using assms by (intro time_less_timeo) (simp_all add: in_window_Cons)
  then show ?thesis
    using assms Cons insert_after_place [of base t r x] by (auto simp: insert_timeo_def place_def)
qed (simp add: insert_timeo_def place_def)

lemma mset_place: "mset (place base x ts) = add_mset x (mset ts)"
  by (metis (no_types, lifting) place_def append_Cons append_Nil mset.simps(2) mset_append takeWhile_dropWhile_id
      union_mset_add_mset_right)

lemma set_place: "set (place base x ts) = insert x (set ts)"
  using arg_cong [OF mset_place [of base x ts], of set_mset] by simp

lemma place_simps:
  "place base x [] = [x]"
  "place base x (t # ts) = (if timeo_ofs base t \<le> timeo_ofs base x then t # place base x ts else x # t # ts)"
  by (simp_all add: place_def)

lemma place_window:
  assumes "in_window base ts" "timeo_ofs base x < 2 ^ 31"
  shows "in_window base (place base x ts)"
proof -
  have "sorted (map (timeo_ofs base) (place base x ts))"
    using assms(1) by (induction ts) (auto simp: place_simps in_window_Cons set_place, simp add: in_window_def)
  then show ?thesis using assms by (auto simp: in_window_def set_place)
qed

section \<open>Elements of the pool\<close>

text \<open>The timeouts in the list are distinct elements of the pool that are not free.\<close>

definition pooled :: "(memp_t \<Rightarrow> memp_desc) \<Rightarrow> ('h, 'n) timer_state \<Rightarrow> bool" where
  "pooled pools s \<longleftrightarrow> memp_ok pools (timer_memp s) \<and> distinct (map timeo_addr (next_timeout s))
     \<and> set (map timeo_addr (next_timeout s)) \<subseteq> set (pool_elems (pools MEMP_SYS_TIMEOUT))
     \<and> set (map timeo_addr (next_timeout s)) \<inter> free_elems (timer_memp s) MEMP_SYS_TIMEOUT = {}"

definition timeouts_free :: "('h, 'n) timer_state \<Rightarrow> nat set" where
  "timeouts_free s = free_elems (timer_memp s) MEMP_SYS_TIMEOUT"

lemma memp_ok_elems: "memp_ok pools m \<Longrightarrow> free_elems m t \<subseteq> set (pool_elems (pools t))"
  using free_elems_eq by (fastforce simp: memp_ok_def)

lemma sys_timeout_abs_ok:
  assumes "pooled pools s" "timeouts_free s \<noteq> {}" "in_window base (next_timeout s)" "ofs base time < 2 ^ 31"
  shows "\<exists>x m. sys_timeout_abs time h arg s = Inr (s\<lparr>timer_memp := m, next_timeout := place base x (next_timeout s)\<rparr>)
    \<and> timeo_time x = time \<and> timeo_h x = h \<and> timeo_arg x = arg
    \<and> pooled pools (s\<lparr>timer_memp := m, next_timeout := place base x (next_timeout s)\<rparr>)
    \<and> free_elems m MEMP_SYS_TIMEOUT = timeouts_free s - {timeo_addr x} \<and> timeo_addr x \<in> timeouts_free s"
proof -
  obtain a m where m: "memp_malloc MEMP_SYS_TIMEOUT (timer_memp s) = Inr (Some a, m)"
      "a \<in> timeouts_free s" "memp_ok pools m"
      "free_elems m = (free_elems (timer_memp s))(MEMP_SYS_TIMEOUT := timeouts_free s - {a})"
    using memp_malloc_some [of pools "timer_memp s" MEMP_SYS_TIMEOUT] assms(1,2)
    unfolding timeouts_free_def pooled_def by blast
  define x where "x = \<lparr>timeo_addr = a, timeo_time = time, timeo_h = h, timeo_arg = arg\<rparr>"
  have ins: "insert_timeo x (next_timeout s) = place base x (next_timeout s)"
    using assms(3,4) by (intro insert_timeo_place) (simp_all add: timeo_ofs_def x_def)
  have "mset (map timeo_addr (place base x (next_timeout s))) = mset (a # map timeo_addr (next_timeout s))"
    unfolding mset_map mset_place by (simp add: x_def)
  then have "distinct (map timeo_addr (place base x (next_timeout s))) \<longleftrightarrow> distinct (a # map timeo_addr (next_timeout s))"
    by (rule mset_eq_imp_distinct_iff)
  then have "distinct (map timeo_addr (place base x (next_timeout s)))"
    using assms(1) m(2) by (auto simp: pooled_def timeouts_free_def)
  moreover have "set (map timeo_addr (place base x (next_timeout s))) = insert a (set (map timeo_addr (next_timeout s)))"
    by (simp add: set_place x_def)
  ultimately have "pooled pools (s\<lparr>timer_memp := m, next_timeout := place base x (next_timeout s)\<rparr>)"
    using assms(1) m memp_ok_elems [of pools "timer_memp s" MEMP_SYS_TIMEOUT]
    by (auto simp: pooled_def timeouts_free_def)
  then show ?thesis
    using m by (intro exI [of _ x] exI [of _ m]) (simp add: sys_timeout_abs_def Let_def ins flip: x_def, simp add: x_def)
qed

section \<open>A round of expired timers\<close>

text \<open>
  \<open>base\<close> is \<open>2 ^ 30\<close> ms before the call of \<open>sys_check_timeouts\<close>, which may take up to \<open>2 ^ 29\<close> ms: the
  clock stays in the window of the comparisons, whatever its value.
\<close>

definition timers_ok :: "(memp_t \<Rightarrow> memp_desc) \<Rightarrow> u32 \<Rightarrow> ('h, 'n) timer_state \<Rightarrow> bool" where
  "timers_ok pools base s \<longleftrightarrow> pooled pools s \<and> in_window base (next_timeout s)
     \<and> (\<forall>t \<in> set (next_timeout s). timeo_h t = Some Lwip_cyclic_timer \<longrightarrow> timeo_arg t < length lwip_cyclic_timers)
     \<and> 2 ^ 30 \<le> ofs base (tick_ms s) \<and> ofs base (tick_ms s) \<le> 2 ^ 30 + 2 ^ 29"

definition overdue :: "u32 \<Rightarrow> ('h, 'n) timer_state \<Rightarrow> 'h sys_timeo list" where
  "overdue base s = filter (\<lambda>t. timeo_ofs base t \<le> 2 ^ 30) (next_timeout s)"

definition cyclic_timers :: "('h, 'n) timer_state \<Rightarrow> nat multiset" where
  "cyclic_timers s = image_mset timeo_arg {#t \<in># mset (next_timeout s). timeo_h t = Some Lwip_cyclic_timer#}"

text \<open>
  What the handlers may do: the cyclic ones leave the timers alone, the others may start timers for
  later, and time may pass.
\<close>

definition tmr_ok :: "(memp_t \<Rightarrow> memp_desc) \<Rightarrow> u32 \<Rightarrow> ('h, 'n) timer_fn \<Rightarrow> bool" where
  "tmr_ok pools base tmr \<longleftrightarrow>
     (\<forall>i s. timers_ok pools base s \<longrightarrow>
        (\<exists>s'. tmr i s = Inr s' \<and> next_timeout s' = next_timeout s \<and> current_timeout_due_time s' = current_timeout_due_time s
          \<and> memp_ok pools (timer_memp s') \<and> timeouts_free s' = timeouts_free s
          \<and> ofs base (tick_ms s) \<le> ofs base (tick_ms s') \<and> ofs base (tick_ms s') \<le> 2 ^ 30 + 2 ^ 29))"

definition other_ok :: "(memp_t \<Rightarrow> memp_desc) \<Rightarrow> u32 \<Rightarrow> ('h \<Rightarrow> ('h, 'n) timer_fn) \<Rightarrow> bool" where
  "other_ok pools base other \<longleftrightarrow>
     (\<forall>f arg s. timers_ok pools base s \<longrightarrow>
        (\<exists>s'. other f arg s = Inr s' \<and> timers_ok pools base s' \<and> overdue base s' = overdue base s
          \<and> cyclic_timers s' = cyclic_timers s))"

text \<open>How long the expired timers have been waiting, in total: every round of the loop reduces it.\<close>

definition backlog :: "u32 \<Rightarrow> ('h, 'n) timer_state \<Rightarrow> nat" where
  "backlog base s = (\<Sum>t \<in># mset (next_timeout s). 2 ^ 30 + 1 - timeo_ofs base t)"

lemma backlog_overdue: "backlog base s = sum_list (map (\<lambda>t. 2 ^ 30 + 1 - timeo_ofs base t) (overdue base s))"
proof -
  have "(\<Sum>t \<in># mset ts. 2 ^ 30 + 1 - timeo_ofs base t)
      = sum_list (map (\<lambda>t. 2 ^ 30 + 1 - timeo_ofs base t) (filter (\<lambda>t. timeo_ofs base t \<le> 2 ^ 30) ts))" for ts :: "'a sys_timeo list"
    by (induction ts) auto
  then show ?thesis unfolding backlog_def overdue_def .
qed

lemma pop_timeout:
  assumes "timers_ok pools base s" "next_timeout s = t # ts"
  shows "\<exists>m. memp_free MEMP_SYS_TIMEOUT (timeo_addr t) (timer_memp s) = Inr m
    \<and> timers_ok pools base (s\<lparr>next_timeout := ts, current_timeout_due_time := timeo_time t, timer_memp := m\<rparr>)
    \<and> timeo_addr t \<in> free_elems m MEMP_SYS_TIMEOUT"
proof -
  have p: "memp_ok pools (timer_memp s)" "timeo_addr t \<in> set (pool_elems (pools MEMP_SYS_TIMEOUT))"
      "timeo_addr t \<notin> free_elems (timer_memp s) MEMP_SYS_TIMEOUT"
    using assms by (auto simp: timers_ok_def pooled_def)
  from memp_free_ok [OF p] obtain m where "memp_free MEMP_SYS_TIMEOUT (timeo_addr t) (timer_memp s) = Inr m" "memp_ok pools m"
      "free_elems m = (free_elems (timer_memp s))(MEMP_SYS_TIMEOUT := insert (timeo_addr t) (free_elems (timer_memp s) MEMP_SYS_TIMEOUT))"
    by blast
  then show ?thesis using assms by (auto simp: timers_ok_def pooled_def in_window_Cons)
qed

lemma cyclic_intervals: "i < length lwip_cyclic_timers \<Longrightarrow> 0 < unat (lwip_cyclic_timers ! i) \<and> unat (lwip_cyclic_timers ! i) \<le> 1000"
  by (auto simp: lwip_cyclic_timers_def less_Suc_eq)

text \<open>The due time that \<open>lwip_cyclic_timer\<close> picks is later than the last one, and not in the past.\<close>

lemma lwip_cyclic_timer_ok:
  assumes tmr: "tmr_ok pools base tmr" and s: "timers_ok pools base s" "timeouts_free s \<noteq> {}"
    and due: "ofs base (current_timeout_due_time s) \<le> 2 ^ 30" and i: "i < length lwip_cyclic_timers"
  shows "\<exists>s' x. lwip_cyclic_timer tmr i s = Inr s' \<and> timers_ok pools base s'
    \<and> next_timeout s' = place base x (next_timeout s) \<and> timeo_h x = Some Lwip_cyclic_timer \<and> timeo_arg x = i
    \<and> ofs base (current_timeout_due_time s) < timeo_ofs base x"
proof -
  obtain s1 where s1: "tmr i s = Inr s1" "next_timeout s1 = next_timeout s"
      "current_timeout_due_time s1 = current_timeout_due_time s" "memp_ok pools (timer_memp s1)" "timeouts_free s1 = timeouts_free s"
      "ofs base (tick_ms s) \<le> ofs base (tick_ms s1)" "ofs base (tick_ms s1) \<le> 2 ^ 30 + 2 ^ 29"
    using tmr s(1) unfolding tmr_ok_def by blast
  have "pooled pools s1" using s(1) s1 by (auto simp: timers_ok_def pooled_def timeouts_free_def)
  moreover have win: "in_window base (next_timeout s1)" using s(1) s1(2) by (simp add: timers_ok_def)
  moreover have ne: "timeouts_free s1 \<noteq> {}" using s(2) s1(5) by simp
  ultimately have abs: "\<exists>x m. sys_timeout_abs time h i s1 = Inr (s1\<lparr>timer_memp := m, next_timeout := place base x (next_timeout s)\<rparr>)
      \<and> timeo_time x = time \<and> timeo_h x = h \<and> timeo_arg x = i
      \<and> pooled pools (s1\<lparr>timer_memp := m, next_timeout := place base x (next_timeout s)\<rparr>)" if "ofs base time < 2 ^ 31" for time h
    using sys_timeout_abs_ok [OF _ _ _ that, of pools s1 h i] s1(2) by metis
  define next_time where "next_time = current_timeout_due_time s1 + lwip_cyclic_timers ! i"
  define late where "late = tick_ms s1 + lwip_cyclic_timers ! i"
  have iv: "0 < unat (lwip_cyclic_timers ! i)" "unat (lwip_cyclic_timers ! i) \<le> 1000" using cyclic_intervals [OF i] by auto
  have o1: "ofs base next_time = ofs base (current_timeout_due_time s) + unat (lwip_cyclic_timers ! i)"
    unfolding next_time_def s1(3) by (rule ofs_add) (use due iv in simp)
  have o2: "ofs base late = ofs base (tick_ms s1) + unat (lwip_cyclic_timers ! i)"
    unfolding late_def by (rule ofs_add) (use s1(7) iv in simp)
  define time where "time = (if TIME_LESS_THAN next_time (tick_ms s1) then late else next_time)"
  have now: "2 ^ 30 \<le> ofs base (tick_ms s1)" using s(1) s1(6) by (simp add: timers_ok_def)
  have o: "ofs base time < 2 ^ 31" "ofs base (current_timeout_due_time s) < ofs base time"
    using o1 o2 iv due s1(7) now by (auto simp: time_def)
  obtain x m where x: "sys_timeout_abs time (Some Lwip_cyclic_timer) i s1 = Inr (s1\<lparr>timer_memp := m, next_timeout := place base x (next_timeout s)\<rparr>)"
      "timeo_time x = time" "timeo_h x = Some Lwip_cyclic_timer" "timeo_arg x = i"
      "pooled pools (s1\<lparr>timer_memp := m, next_timeout := place base x (next_timeout s)\<rparr>)"
    using abs [OF o(1)] by blast
  have "lwip_cyclic_timer tmr i s = sys_timeout_abs time (Some Lwip_cyclic_timer) i s1"
    using i s1(1) by (simp add: lwip_cyclic_timer_def Let_def sys_now_def time_def next_time_def late_def)
  moreover have "timers_ok pools base (s1\<lparr>timer_memp := m, next_timeout := place base x (next_timeout s)\<rparr>)"
    using x s(1) s1 o(1) now i place_window [of base "next_timeout s" x] by (auto simp: timers_ok_def set_place timeo_ofs_def)
  ultimately show ?thesis using x o(2)
    by (intro exI [of _ "s1\<lparr>timer_memp := m, next_timeout := place base x (next_timeout s)\<rparr>"] exI [of _ x]) (simp add: timeo_ofs_def)
qed

text \<open>One round: the handler of an expired timer is called, and the backlog shrinks.\<close>

lemma call_expired:
  fixes s :: "('h, 'n) timer_state"
  assumes tmr: "tmr_ok pools base tmr" and other: "other_ok pools base other"
    and s: "timers_ok pools base s" "next_timeout s = t # ts" and t: "timeo_ofs base t \<le> 2 ^ 30"
    and m: "memp_free MEMP_SYS_TIMEOUT (timeo_addr t) (timer_memp s) = Inr m"
  defines "s1 \<equiv> s\<lparr>next_timeout := ts, current_timeout_due_time := timeo_time t, timer_memp := m\<rparr>"
  shows "\<exists>s'. call_handler tmr other (timeo_h t) (timeo_arg t) s1 = Inr s' \<and> timers_ok pools base s'
    \<and> backlog base s' < backlog base s \<and> cyclic_timers s' = cyclic_timers s"
proof -
  have s1: "timers_ok pools base s1" "timeouts_free s1 \<noteq> {}" "next_timeout s1 = ts"
      "ofs base (current_timeout_due_time s1) = timeo_ofs base t"
    using pop_timeout [OF s] m by (auto simp: s1_def timeouts_free_def timeo_ofs_def)
  have b: "backlog base s = backlog base s1 + (2 ^ 30 + 1 - timeo_ofs base t)"
    using s(2) s1(3) by (simp add: backlog_def)
  have c: "cyclic_timers s = (if timeo_h t = Some Lwip_cyclic_timer then {#timeo_arg t#} else {#}) + cyclic_timers s1"
    using s(2) s1(3) by (simp add: cyclic_timers_def)
  show ?thesis
  proof (cases "timeo_h t")
    case None
    then show ?thesis using s1(1) b c t by (simp add: call_handler_def)
  next
    case (Some h)
    show ?thesis
    proof (cases h)
      case Lwip_cyclic_timer
      have "timeo_arg t < length lwip_cyclic_timers" using s Some Lwip_cyclic_timer by (simp add: timers_ok_def)
      then obtain s' x where x: "lwip_cyclic_timer tmr (timeo_arg t) s1 = Inr s'" "timers_ok pools base s'"
          "next_timeout s' = place base x ts" "timeo_h x = Some Lwip_cyclic_timer" "timeo_arg x = timeo_arg t"
          "timeo_ofs base t < timeo_ofs base x"
        using lwip_cyclic_timer_ok [OF tmr s1(1,2) _, of "timeo_arg t"] s1(3,4) t by auto
      have "backlog base s' < backlog base s"
        unfolding b using x(3,6) s1(3) t by (simp add: backlog_def mset_place)
      moreover have "cyclic_timers s' = cyclic_timers s"
        unfolding c using x(3,4,5) s1(3) Some Lwip_cyclic_timer by (simp add: cyclic_timers_def mset_place)
      ultimately show ?thesis using x(1,2) Some Lwip_cyclic_timer by (simp add: call_handler_def)
    next
      case (Other_handler f)
      obtain s' where "other f (timeo_arg t) s1 = Inr s'" "timers_ok pools base s'" "overdue base s' = overdue base s1"
          "cyclic_timers s' = cyclic_timers s1"
        using other s1(1) unfolding other_ok_def by blast
      then show ?thesis using b c t Some Other_handler by (simp add: call_handler_def backlog_overdue)
    qed
  qed
qed

lemma check_timeouts_loop_ok:
  fixes s :: "('h, 'n) timer_state"
  assumes tmr: "tmr_ok pools base tmr" and other: "other_ok pools base other" and now: "ofs base now = 2 ^ 30"
  shows "timers_ok pools base s \<Longrightarrow>
    \<exists>s'. check_timeouts_loop tmr other now s = Some (Inr s') \<and> timers_ok pools base s'
      \<and> (\<forall>t \<in> set (next_timeout s'). 2 ^ 30 < timeo_ofs base t) \<and> cyclic_timers s' = cyclic_timers s"
proof (induction "backlog base s" arbitrary: s rule: less_induct)
  case less
  show ?case
  proof (cases "next_timeout s")
    case Nil
    then show ?thesis using less.prems by (subst check_timeouts_loop.simps) simp
  next
    case (Cons t ts)
    have w: "timeo_ofs base t < 2 ^ 31" "\<forall>u \<in> set ts. timeo_ofs base t \<le> timeo_ofs base u"
      using less.prems Cons by (simp_all add: timers_ok_def in_window_Cons)
    have lt: "TIME_LESS_THAN now (timeo_time t) \<longleftrightarrow> 2 ^ 30 < timeo_ofs base t"
      using time_less_ofs [of base now "timeo_time t"] w(1) now by (simp add: timeo_ofs_def)
    show ?thesis
    proof (cases "2 ^ 30 < timeo_ofs base t")
      case True
      then show ?thesis using less.prems w Cons lt by (subst check_timeouts_loop.simps) (auto intro: less_le_trans)
    next
      case False
      obtain m where m: "memp_free MEMP_SYS_TIMEOUT (timeo_addr t) (timer_memp s) = Inr m"
        using pop_timeout [OF less.prems Cons] by blast
      let ?s1 = "s\<lparr>next_timeout := ts, current_timeout_due_time := timeo_time t, timer_memp := m\<rparr>"
      obtain s' where s': "call_handler tmr other (timeo_h t) (timeo_arg t) ?s1 = Inr s'" "timers_ok pools base s'"
          "backlog base s' < backlog base s" "cyclic_timers s' = cyclic_timers s"
        using call_expired [OF tmr other less.prems Cons _ m] False by auto
      have "check_timeouts_loop tmr other now s = check_timeouts_loop tmr other now s'"
        using Cons False lt m s'(1) by (subst check_timeouts_loop.simps) simp
      then show ?thesis using less.hyps [OF s'(3,2)] s'(4) by simp
    qed
  qed
qed

section \<open>Properties\<close>

text \<open>
  \<open>sys_timeout\<close>. With all due times within half the range of the clock from some base, the new
  timeout is put into the list at its place: behind those that are due earlier or at the same time,
  before the later ones, across a wrap-around of the clock as well. The list stays ordered, and the call
  succeeds whenever the pool has an element.
\<close>

theorem sys_timeout_in_order:
  assumes "pooled pools s" "timeouts_free s \<noteq> {}" "in_window base (next_timeout s)"
    and "unat msecs \<le> 0x3fffffff" "ofs base (tick_ms s) + unat msecs < 2 ^ 31"
  shows "\<exists>x m. sys_timeout msecs h arg s = Inr (s\<lparr>timer_memp := m, next_timeout :=
        takeWhile (\<lambda>t. timeo_ofs base t \<le> timeo_ofs base x) (next_timeout s) @ [x]
        @ dropWhile (\<lambda>t. timeo_ofs base t \<le> timeo_ofs base x) (next_timeout s)\<rparr>)
    \<and> timeo_ofs base x = ofs base (tick_ms s) + unat msecs \<and> timeo_h x = h \<and> timeo_arg x = arg
    \<and> in_window base (takeWhile (\<lambda>t. timeo_ofs base t \<le> timeo_ofs base x) (next_timeout s) @ [x]
        @ dropWhile (\<lambda>t. timeo_ofs base t \<le> timeo_ofs base x) (next_timeout s))"
proof -
  have ofs: "ofs base (tick_ms s + msecs) = ofs base (tick_ms s) + unat msecs" by (rule ofs_add) (use assms(5) in simp)
  then have "ofs base (tick_ms s + msecs) < 2 ^ 31" using assms(5) by simp
  from sys_timeout_abs_ok [OF assms(1-3) this, of h arg] obtain x m where
    x: "sys_timeout_abs (tick_ms s + msecs) h arg s = Inr (s\<lparr>timer_memp := m, next_timeout := place base x (next_timeout s)\<rparr>)"
      "timeo_time x = tick_ms s + msecs" "timeo_h x = h" "timeo_arg x = arg"
    by blast
  moreover have "timeo_ofs base x = ofs base (tick_ms s) + unat msecs" using ofs x(2) by (simp add: timeo_ofs_def)
  moreover have "msecs \<le> 0xffffffff div 4" using assms(4) by (simp add: word_le_nat_alt)
  ultimately show ?thesis
    using place_window [OF assms(3), of x] assms(5) unfolding place_def
    by (intro exI [of _ x] exI [of _ m]) (simp add: sys_timeout_def sys_now_def)
qed

text \<open>
  C21: \<open>sys_check_timeouts\<close> ends. Provided that no timer is overdue or set by more than a quarter of the range, that
  the cyclic handlers leave the timers alone and the other handlers only start timers for later, a call
  returns. It has taken every timer that was due off the list, and every cyclic timer is still, or again, in
  it. What the list holds is due after the time of the call.
\<close>

theorem sys_check_timeouts_returns:
  fixes s :: "('h, 'n) timer_state"
  assumes "timers_ok pools (tick_ms s - 2 ^ 30) s"
    and "tmr_ok pools (tick_ms s - 2 ^ 30) tmr" "other_ok pools (tick_ms s - 2 ^ 30) other"
  shows "\<exists>s'. sys_check_timeouts tmr other s = Inr s' \<and> timers_ok pools (tick_ms s - 2 ^ 30) s'
    \<and> (\<forall>t \<in> set (next_timeout s'). TIME_LESS_THAN (tick_ms s) (timeo_time t))
    \<and> cyclic_timers s' = cyclic_timers s"
proof -
  let ?base = "tick_ms s - 2 ^ 30"
  have now: "ofs ?base (tick_ms s) = 2 ^ 30" by (simp add: ofs_def)
  obtain s' where s': "check_timeouts_loop tmr other (tick_ms s) s = Some (Inr s')" "timers_ok pools ?base s'"
      "\<forall>t \<in> set (next_timeout s'). 2 ^ 30 < timeo_ofs ?base t" "cyclic_timers s' = cyclic_timers s"
    using check_timeouts_loop_ok [OF assms(2,3) now assms(1)] by blast
  have "TIME_LESS_THAN (tick_ms s) (timeo_time t)" if "t \<in> set (next_timeout s')" for t
    using time_less_ofs [of ?base "tick_ms s" "timeo_time t"] that s'(2,3) now
    by (auto simp: timers_ok_def in_window_def timeo_ofs_def)
  then show ?thesis using s' by (simp add: sys_check_timeouts_def sys_now_def)
qed


text \<open>
  A sample run over a wrap-around of the clock: \<open>sys_timeouts_init\<close> 500 ms before it, and a check 300 ms later,
  when the timer of \<open>mld6_tmr\<close> has expired.
\<close>

definition timers0 :: "(unit, nat list) timer_state" where
  "timers0 = \<lparr>next_timeout = [], current_timeout_due_time = 0, timer_memp = memp0, tick_ms = - 500, timer_env = []\<rparr>"

lemma timers0_ok: "pooled sample_pools timers0" "timeouts_free timers0 \<noteq> {}" "in_window (- 1000) (next_timeout timers0)"
proof -
  show "pooled sample_pools timers0" using memp0_ok by (simp add: pooled_def timers0_def)
  have "timeouts_free timers0 = set (pool_elems (sample_pools MEMP_SYS_TIMEOUT))"
    unfolding timeouts_free_def timers0_def memp0_def using memp_init_free_elems [OF sample_pools_ok] by simp
  then show "timeouts_free timers0 \<noteq> {}" by (simp add: pool_elems_def sample_pools_def)
qed (simp add: timers0_def in_window_def)

theorem sys_timeout_in_order_witness:
  "\<exists>x m. sys_timeout 1000 (Some Lwip_cyclic_timer) 0 timers0 = Inr (timers0\<lparr>timer_memp := m, next_timeout := [x]\<rparr>)
    \<and> timeo_ofs (- 1000) x = 1500"
proof -
  have "ofs (- 1000) (tick_ms timers0) = 500" by (simp add: ofs_def timers0_def)
  with sys_timeout_in_order [OF timers0_ok, of 1000 "Some Lwip_cyclic_timer" 0] show ?thesis
    by (auto simp: timers0_def)
qed

definition log_tmr :: "(unit, nat list) timer_fn" where
  "log_tmr i s = Inr (s\<lparr>timer_env := timer_env s @ [i]\<rparr>)"

definition timers1 :: "(unit, nat list) timer_state" where
  "timers1 = (case sys_timeout_abs (- 400) (Some Lwip_cyclic_timer) 1 timers0 of Inr s \<Rightarrow> s\<lparr>tick_ms := - 200\<rparr> | Inl e \<Rightarrow> timers0)"

lemma timers1_ok: "timers_ok sample_pools (tick_ms timers1 - 2 ^ 30) timers1" "cyclic_timers timers1 = {#1#}"
proof -
  let ?base = "- 200 - 2 ^ 30 :: u32"
  have w: "in_window ?base (next_timeout timers0)" "ofs ?base (- 400) < 2 ^ 31" by (simp_all add: timers0_def in_window_def ofs_def)
  obtain x m where x: "sys_timeout_abs (- 400) (Some Lwip_cyclic_timer) 1 timers0
        = Inr (timers0\<lparr>timer_memp := m, next_timeout := place ?base x (next_timeout timers0)\<rparr>)"
      "timeo_time x = - 400" "timeo_h x = Some Lwip_cyclic_timer" "timeo_arg x = 1"
      "pooled sample_pools (timers0\<lparr>timer_memp := m, next_timeout := place ?base x (next_timeout timers0)\<rparr>)"
    using sys_timeout_abs_ok [OF timers0_ok(1,2) w, of "Some Lwip_cyclic_timer" 1] by blast
  have t1: "timers1 = timers0\<lparr>timer_memp := m, next_timeout := [x], tick_ms := - 200\<rparr>"
    unfolding timers1_def x(1) by (simp add: timers0_def place_simps)
  have "pooled sample_pools timers1" using x(5) by (simp add: t1 pooled_def timers0_def place_simps)
  then show "timers_ok sample_pools (tick_ms timers1 - 2 ^ 30) timers1"
    using x by (simp add: timers_ok_def t1 in_window_def timeo_ofs_def ofs_def lwip_cyclic_timers_def)
  show "cyclic_timers timers1 = {#1#}" using x by (simp add: cyclic_timers_def t1)
qed

theorem sys_check_timeouts_returns_witness:
  "\<exists>s'. sys_check_timeouts log_tmr (\<lambda>f. log_tmr) timers1 = Inr s' \<and> cyclic_timers s' = {#1#}
    \<and> (\<forall>t. t \<in> set (next_timeout s') = (t \<in> set (next_timeout s') \<and> TIME_LESS_THAN (tick_ms timers1) (timeo_time t)))"
proof -
  have "tmr_ok sample_pools (tick_ms timers1 - 2 ^ 30) log_tmr"
    by (auto simp: tmr_ok_def log_tmr_def timeouts_free_def timers_ok_def pooled_def)
  moreover have "other_ok sample_pools (tick_ms timers1 - 2 ^ 30) (\<lambda>f. log_tmr)"
    by (auto simp: other_ok_def log_tmr_def timers_ok_def pooled_def overdue_def cyclic_timers_def)
  ultimately show ?thesis
    using sys_check_timeouts_returns [OF timers1_ok(1), of log_tmr "\<lambda>f. log_tmr"] timers1_ok(2) by metis
qed


end
