(* ===== verification/Hdkif.thy ===== *)
theory Hdkif
  imports Pbuf
begin

text \<open>
  The Ethernet driver lwip/ports/hdk/netif/hdkif.c: the registers of the EMAC and the transmit side
  (\<open>hdkif_output\<close>, \<open>hdkif_transmit\<close>, \<open>hdkif_tx_inthandler\<close> and the set-up of the transmit ring). A
  packet is described to the DMA engine by a list of buffer descriptors in the CPPI RAM, whose words
  are byte-swapped. Pbufs are referred to by address here; \<open>pbuf_store\<close> maps the address of the first
  pbuf of a chain to the chain. \<open>dma\<close> is what the hardware does while the driver waits for it.
\<close>

section \<open>Registers\<close>

definition EMAC_0_BASE :: u32 where "EMAC_0_BASE = 0xFCF78000"
definition EMAC_CTRL_0_BASE :: u32 where "EMAC_CTRL_0_BASE = 0xFCF78800"
definition EMAC_CTRL_RAM_0_BASE :: u32 where "EMAC_CTRL_RAM_0_BASE = 0xFC520000"

definition EMAC_BUF_DESC_SOP :: u32 where "EMAC_BUF_DESC_SOP = 0x80000000"
definition EMAC_BUF_DESC_EOP :: u32 where "EMAC_BUF_DESC_EOP = 0x40000000"
definition EMAC_BUF_DESC_OWNER :: u32 where "EMAC_BUF_DESC_OWNER = 0x20000000"
definition EMAC_BUF_DESC_EOQ :: u32 where "EMAC_BUF_DESC_EOQ = 0x10000000"

lemmas desc_flags = EMAC_BUF_DESC_SOP_def EMAC_BUF_DESC_EOP_def EMAC_BUF_DESC_OWNER_def EMAC_BUF_DESC_EOQ_def

type_synonym hwregs = "u32 \<Rightarrow> u32"

definition HWREG_or :: "u32 \<Rightarrow> u32 \<Rightarrow> hwregs \<Rightarrow> hwregs" where
  "HWREG_or a v r = r(a := r a OR v)"

definition EMACTxIntPulseEnable :: "u32 \<Rightarrow> u32 \<Rightarrow> nat \<Rightarrow> nat \<Rightarrow> hwregs \<Rightarrow> hwregs" where
  "EMACTxIntPulseEnable emacBase emacCtrlBase ctrlCore channel r =
     HWREG_or (emacCtrlBase + (0x18 + push_bit 4 (of_nat ctrlCore))) (push_bit channel 1)
       (HWREG_or (emacBase + 0x88) (push_bit channel 1) r)"

definition EMACRxIntPulseEnable :: "u32 \<Rightarrow> u32 \<Rightarrow> nat \<Rightarrow> nat \<Rightarrow> hwregs \<Rightarrow> hwregs" where
  "EMACRxIntPulseEnable emacBase emacCtrlBase ctrlCore channel r =
     HWREG_or (emacCtrlBase + (0x14 + push_bit 4 (of_nat ctrlCore))) (push_bit channel 1)
       (HWREG_or (emacBase + 0xA8) (push_bit channel 1) r)"

definition EMACRMIISpeedSet :: "u32 \<Rightarrow> u32 \<Rightarrow> hwregs \<Rightarrow> hwregs" where
  "EMACRMIISpeedSet emacBase speed r =
     HWREG_or (emacBase + 0x160) speed (r(emacBase + 0x160 := r (emacBase + 0x160) AND NOT 0x8000))"

definition EMACMIIEnable :: "u32 \<Rightarrow> hwregs \<Rightarrow> hwregs" where
  "EMACMIIEnable emacBase r = HWREG_or (emacBase + 0x160) 0x20 r"

definition EMACDuplexSet :: "u32 \<Rightarrow> u32 \<Rightarrow> hwregs \<Rightarrow> hwregs" where
  "EMACDuplexSet emacBase duplexMode r =
     HWREG_or (emacBase + 0x160) duplexMode (r(emacBase + 0x160 := r (emacBase + 0x160) AND NOT 1))"

definition EMACTxEnable :: "u32 \<Rightarrow> hwregs \<Rightarrow> hwregs" where
  "EMACTxEnable emacBase r = r(emacBase + 0x4 := 1)"

definition EMACRxEnable :: "u32 \<Rightarrow> hwregs \<Rightarrow> hwregs" where
  "EMACRxEnable emacBase r = r(emacBase + 0x14 := 1)"

definition EMAC_TXHDP :: "nat \<Rightarrow> u32" where "EMAC_TXHDP n = 0x600 + of_nat n * 4"
definition EMAC_RXHDP :: "nat \<Rightarrow> u32" where "EMAC_RXHDP n = 0x620 + of_nat n * 4"
definition EMAC_TXCP :: "nat \<Rightarrow> u32" where "EMAC_TXCP n = 0x640 + of_nat n * 4"
definition EMAC_RXCP :: "nat \<Rightarrow> u32" where "EMAC_RXCP n = 0x660 + of_nat n * 4"
definition EMAC_RXFREEBUFFER :: "nat \<Rightarrow> u32" where "EMAC_RXFREEBUFFER n = 0x140 + of_nat n * 4"

definition EMACTxHdrDescPtrWrite :: "u32 \<Rightarrow> u32 \<Rightarrow> nat \<Rightarrow> hwregs \<Rightarrow> hwregs" where
  "EMACTxHdrDescPtrWrite emacBase descHdr channel r = r(emacBase + EMAC_TXHDP channel := descHdr)"

definition EMACRxHdrDescPtrWrite :: "u32 \<Rightarrow> u32 \<Rightarrow> nat \<Rightarrow> hwregs \<Rightarrow> hwregs" where
  "EMACRxHdrDescPtrWrite emacBase descHdr channel r = r(emacBase + EMAC_RXHDP channel := descHdr)"

definition emac_clear_channel :: "u32 \<Rightarrow> nat \<Rightarrow> hwregs \<Rightarrow> hwregs" where
  "emac_clear_channel b cnt r =
     r(b + EMAC_RXHDP cnt := 0, b + EMAC_TXHDP cnt := 0, b + EMAC_RXCP cnt := 0, b + EMAC_TXCP cnt := 0,
       b + EMAC_RXFREEBUFFER cnt := 0xFF)"

text \<open>\<open>dev\<close> is what the module does to its registers while the reset bit is polled.\<close>

definition EMACInit :: "(hwregs \<Rightarrow> hwregs) \<Rightarrow> u32 \<Rightarrow> u32 \<Rightarrow> hwregs \<Rightarrow> hwregs option" where
  "EMACInit dev emacCtrlBase emacBase r =
     (case poll_until (\<lambda>r. r (emacCtrlBase + 0x4) AND 1 \<noteq> 1) dev (r(emacCtrlBase + 0x4 := 1)) of
        None \<Rightarrow> None
      | Some r1 \<Rightarrow>
          (case poll_until (\<lambda>r. r (emacBase + 0x174) AND 1 \<noteq> 1) dev (r1(emacBase + 0x174 := 1)) of
             None \<Rightarrow> None
           | Some r2 \<Rightarrow>
               (let r3 = r2(emacBase + 0x160 := 0, emacBase + 0x14 := 0, emacBase + 0x4 := 0);
                    r4 = fold (emac_clear_channel emacBase) [0..<8] r3
                in Some (r4(emacBase + 0x8C := 0xFF, emacBase + 0xAC := 0xFF,
                            emacBase + 0x1D8 := 0, emacBase + 0x1DC := 0, emacBase + 0x110 := 0)))))"

definition EMACMACSrcAddrSet :: "u32 \<Rightarrow> bytes \<Rightarrow> hwregs \<Rightarrow> hwregs" where
  "EMACMACSrcAddrSet emacBase mac r =
     r(emacBase + 0x1D4 := ucast (mac ! 0) OR push_bit 8 (ucast (mac ! 1)) OR push_bit 16 (ucast (mac ! 2)) OR push_bit 24 (ucast (mac ! 3)),
       emacBase + 0x1D0 := ucast (mac ! 4) OR push_bit 8 (ucast (mac ! 5)))"

definition EMACCoreIntAck :: "u32 \<Rightarrow> u32 \<Rightarrow> hwregs \<Rightarrow> hwregs" where
  "EMACCoreIntAck emacBase eoiFlag r = r(emacBase + 0x94 := eoiFlag)"

definition EMACTxCPWrite :: "u32 \<Rightarrow> nat \<Rightarrow> u32 \<Rightarrow> hwregs \<Rightarrow> hwregs" where
  "EMACTxCPWrite emacBase channel comPtr r = r(emacBase + EMAC_TXCP channel := comPtr)"

definition EMACRxCPWrite :: "u32 \<Rightarrow> nat \<Rightarrow> u32 \<Rightarrow> hwregs \<Rightarrow> hwregs" where
  "EMACRxCPWrite emacBase channel comPtr r = r(emacBase + EMAC_RXCP channel := comPtr)"

definition EMACNumFreeBufSet :: "u32 \<Rightarrow> nat \<Rightarrow> u32 \<Rightarrow> hwregs \<Rightarrow> hwregs" where
  "EMACNumFreeBufSet emacBase channel nBuf r = r(emacBase + EMAC_RXFREEBUFFER channel := nBuf)"

definition hdkif_swizzle_data :: "u32 \<Rightarrow> u32" where
  "hdkif_swizzle_data w =
     (push_bit 24 w AND 0xFF000000) OR (push_bit 8 w AND 0x00FF0000)
     OR (drop_bit 8 w AND 0x0000FF00) OR (drop_bit 24 w AND 0x000000FF)"

section \<open>Descriptors\<close>

record emac_tx_bdp =
  bd_next :: u32
  bd_bufptr :: u32
  bd_bufoff_len :: u32
  bd_flags_pktlen :: u32
  bd_pbuf :: nat

record hdkif =
  emac_regs :: hwregs
  tx_ram :: "u32 \<Rightarrow> emac_tx_bdp"
  tx_free_head :: u32
  tx_active_tail :: u32
  tx_next_bd_to_process :: u32
  pbuf_store :: "nat \<Rightarrow> chain"
  emac_alloc :: alloc_state

definition sizeof_bdp :: u32 where "sizeof_bdp = 20"

text \<open>The transmit ring that \<open>hdkif_hw_init\<close> sets up, with \<open>num_bd\<close> descriptors left to link.\<close>

fun tx_ring_loop :: "nat \<Rightarrow> u32 \<Rightarrow> u32 \<Rightarrow> (u32 \<Rightarrow> emac_tx_bdp) \<Rightarrow> u32 \<times> (u32 \<Rightarrow> emac_tx_bdp)" where
  "tx_ring_loop 0 cur lst ram = (lst, ram)"
| "tx_ring_loop (Suc n) cur lst ram =
     tx_ring_loop n (cur + sizeof_bdp) cur
       (ram(cur := (ram cur)\<lparr>bd_next := hdkif_swizzle_data (cur + sizeof_bdp), bd_flags_pktlen := 0\<rparr>))"

definition NUM_TX_BD :: nat where "NUM_TX_BD = 204"

definition hdkif_tx_init :: "hdkif \<Rightarrow> hdkif" where
  "hdkif_tx_init e =
     (let h = EMAC_CTRL_RAM_0_BASE;
          (lst, ram) = tx_ring_loop NUM_TX_BD h h (tx_ram e)
      in e\<lparr>tx_free_head := h, tx_next_bd_to_process := h, tx_active_tail := 0,
           tx_ram := ram(lst := (ram lst)\<lparr>bd_next := hdkif_swizzle_data h\<rparr>)\<rparr>)"

section \<open>Transmission\<close>

text \<open>
  The loop of \<open>hdkif_transmit\<close> over the pbufs of a packet: the descriptors filled, the next free one and
  the lst one filled. \<open>payload_addr\<close> is the bus address of the payload of a pbuf.
\<close>

fun fill_tx_bds :: "(pbuf \<Rightarrow> u32) \<Rightarrow> nat \<Rightarrow> chain \<Rightarrow> u32 \<Rightarrow> u32 \<Rightarrow> (u32 \<Rightarrow> emac_tx_bdp) \<Rightarrow> (u32 \<times> u32 \<times> (u32 \<Rightarrow> emac_tx_bdp)) result" where
  "fill_tx_bds payload_addr pb [] cur bd_end ram = Inr (cur, bd_end, ram)"
| "fill_tx_bds payload_addr pb (q # qs) cur bd_end ram =
     (if cur = 0 then Inl NullDeref
      else fill_tx_bds payload_addr pb qs (hdkif_swizzle_data (bd_next (ram cur))) cur
             (ram(cur := (ram cur)\<lparr>bd_bufptr := hdkif_swizzle_data (payload_addr q),
                                     bd_bufoff_len := hdkif_swizzle_data (ucast (p_len q) AND 0xFFFF),
                                     bd_pbuf := pb\<rparr>)))"

definition tx_eoq :: "u32 \<Rightarrow> hdkif \<Rightarrow> bool" where
  "tx_eoq bd e \<longleftrightarrow> hdkif_swizzle_data (bd_flags_pktlen (tx_ram e bd)) AND EMAC_BUF_DESC_EOQ = EMAC_BUF_DESC_EOQ"

definition tx_hdp_clear :: "hdkif \<Rightarrow> bool" where
  "tx_hdp_clear e \<longleftrightarrow> emac_regs e 0xFCF78600 = 0"

definition start_tx :: "u32 \<Rightarrow> hdkif \<Rightarrow> hdkif" where
  "start_tx active_head e = e\<lparr>emac_regs := EMACTxHdrDescPtrWrite EMAC_0_BASE active_head 0 (emac_regs e)\<rparr>"

text \<open>Handing the packet to the DMA engine, after the descriptors are written.\<close>

definition tx_queue_packet :: "(hdkif \<Rightarrow> hdkif) \<Rightarrow> u32 \<Rightarrow> hdkif \<Rightarrow> hdkif result" where
  "tx_queue_packet dma active_head e =
     (let tail = tx_active_tail e in
      if tail = 0 then Inr (start_tx active_head e)
      else
        (case poll_until (tx_eoq tail) dma e of
           None \<Rightarrow> Inl Hang
         | Some e1 \<Rightarrow>
             (case poll_until tx_hdp_clear dma e1 of
                None \<Rightarrow> Inl Hang
              | Some e2 \<Rightarrow>
                  (let e3 = e2\<lparr>tx_ram := (tx_ram e2)(tail := (tx_ram e2 tail)\<lparr>bd_next := hdkif_swizzle_data active_head\<rparr>)\<rparr> in
                   Inr (if tx_eoq tail e3 then start_tx active_head e3 else e3)))))"

definition hdkif_transmit :: "(pbuf \<Rightarrow> u32) \<Rightarrow> (hdkif \<Rightarrow> hdkif) \<Rightarrow> nat \<Rightarrow> hdkif \<Rightarrow> hdkif result" where
  "hdkif_transmit payload_addr dma pb e =
     (let pbuf = pbuf_store e pb;
          active_head = tx_free_head e;
          flags = ucast (tot_len (hd pbuf)) OR (EMAC_BUF_DESC_SOP OR EMAC_BUF_DESC_OWNER)
      in if pbuf = [] \<or> active_head = 0 then Inl NullDeref
         else
           (case fill_tx_bds payload_addr pb pbuf active_head active_head
                   ((tx_ram e)(active_head := (tx_ram e active_head)\<lparr>bd_flags_pktlen := hdkif_swizzle_data flags\<rparr>)) of
              Inl x \<Rightarrow> Inl x
            | Inr (cur, bd_end, ram) \<Rightarrow>
                (let ram1 = ram(bd_end := (ram bd_end)\<lparr>bd_next := 0,
                       bd_flags_pktlen := bd_flags_pktlen (ram bd_end) OR hdkif_swizzle_data EMAC_BUF_DESC_EOP\<rparr>)
                 in map_sum id (\<lambda>e'. e'\<lparr>tx_active_tail := bd_end\<rparr>)
                      (tx_queue_packet dma active_head (e\<lparr>tx_ram := ram1, tx_free_head := cur\<rparr>)))))"

definition MIN_PKT_LEN :: u16 where "MIN_PKT_LEN = 60"

text \<open>
  \<open>hdkif_output\<close>, with interrupts disabled. A short packet is stretched without looking at its buffer.
\<close>

definition pad_packet :: "chain \<Rightarrow> chain" where
  "pad_packet c =
     (case c of
        [] \<Rightarrow> []
      | p # ps \<Rightarrow> if tot_len p < MIN_PKT_LEN then p\<lparr>tot_len := MIN_PKT_LEN, p_len := MIN_PKT_LEN\<rparr> # ps else c)"

definition hdkif_output :: "(pbuf \<Rightarrow> u32) \<Rightarrow> (hdkif \<Rightarrow> hdkif) \<Rightarrow> nat \<Rightarrow> hdkif \<Rightarrow> (err_t \<times> hdkif) result" where
  "hdkif_output payload_addr dma pb e =
     (if pbuf_store e pb = [] then Inl NullDeref
      else
        (case pbuf_ref (pad_packet (pbuf_store e pb)) of
           Inl x \<Rightarrow> Inl x
         | Inr c \<Rightarrow>
             map_sum id (\<lambda>e'. (ERR_OK, e')) (hdkif_transmit payload_addr dma pb (e\<lparr>pbuf_store := (pbuf_store e)(pb := c)\<rparr>))))"

section \<open>The transmit interrupt\<close>

definition bd_flag :: "u32 \<Rightarrow> (u32 \<Rightarrow> emac_tx_bdp) \<Rightarrow> u32 \<Rightarrow> bool" where
  "bd_flag fl ram a \<longleftrightarrow> hdkif_swizzle_data (bd_flags_pktlen (ram a)) AND fl = fl"

text \<open>The inner loop that looks for the end of the packet.\<close>

partial_function (option) find_eop :: "(u32 \<Rightarrow> emac_tx_bdp) \<Rightarrow> u32 \<Rightarrow> u32 option" where
  "find_eop ram cur =
     (if bd_flag EMAC_BUF_DESC_EOP ram cur then Some cur
      else find_eop ram (hdkif_swizzle_data (bd_next (ram cur))))"

definition clear_flag :: "u32 \<Rightarrow> u32 \<Rightarrow> (u32 \<Rightarrow> emac_tx_bdp) \<Rightarrow> (u32 \<Rightarrow> emac_tx_bdp)" where
  "clear_flag fl a ram =
     ram(a := (ram a)\<lparr>bd_flags_pktlen := bd_flags_pktlen (ram a) AND hdkif_swizzle_data (NOT fl)\<rparr>)"

definition tx_complete :: "u32 \<Rightarrow> hdkif \<Rightarrow> hdkif result" where
  "tx_complete cur e =
     (let ram = clear_flag EMAC_BUF_DESC_EOP cur (clear_flag EMAC_BUF_DESC_SOP (tx_next_bd_to_process e) (tx_ram e));
          nxt = (if bd_next (ram cur) = 0 then tx_free_head e else hdkif_swizzle_data (bd_next (ram cur)));
          pb = bd_pbuf (ram cur)
      in case pbuf_free (pbuf_store e pb) (emac_alloc e) of
           Inl x \<Rightarrow> Inl x
         | Inr (cnt, rest, al) \<Rightarrow>
             Inr (e\<lparr>tx_ram := ram, tx_next_bd_to_process := nxt,
                    emac_regs := EMACTxCPWrite EMAC_0_BASE 0 cur (emac_regs e),
                    pbuf_store := (pbuf_store e)(pb := rest), emac_alloc := al\<rparr>))"

partial_function (option) tx_int_loop :: "(hdkif \<Rightarrow> hdkif) \<Rightarrow> hdkif \<Rightarrow> hdkif result option" where
  "tx_int_loop dma e =
     (let bd = tx_next_bd_to_process e in
      if \<not> bd_flag EMAC_BUF_DESC_SOP (tx_ram e) bd then Some (Inr e)
      else
        (case poll_until (\<lambda>e. \<not> bd_flag EMAC_BUF_DESC_OWNER (tx_ram e) bd) dma e of
           None \<Rightarrow> None
         | Some e1 \<Rightarrow>
             (case find_eop (tx_ram e1) bd of
                None \<Rightarrow> None
              | Some cur \<Rightarrow>
                  (case tx_complete cur e1 of Inl x \<Rightarrow> Some (Inl x) | Inr e2 \<Rightarrow> tx_int_loop dma e2))))"

definition hdkif_tx_inthandler :: "(hdkif \<Rightarrow> hdkif) \<Rightarrow> hdkif \<Rightarrow> hdkif result" where
  "hdkif_tx_inthandler dma e =
     (case tx_int_loop dma e of
        None \<Rightarrow> Inl Hang
      | Some (Inl x) \<Rightarrow> Inl x
      | Some (Inr e1) \<Rightarrow>
          Inr (e1\<lparr>emac_regs := EMACCoreIntAck EMAC_0_BASE 2 (EMACCoreIntAck EMAC_0_BASE 1 (emac_regs e1))\<rparr>))"

section \<open>Byte order\<close>

lemma swizzle_bytes:
  "hdkif_swizzle_data w = of_be32 (ucast w) (ucast (drop_bit 8 w)) (ucast (drop_bit 16 w)) (ucast (drop_bit 24 w))"
proof (rule bit_word_eqI)
  fix n
  assume n: "n < LENGTH(32)"
  have m: "(0xFF000000 :: u32) = push_bit 24 (mask 8)" "(0x00FF0000 :: u32) = push_bit 16 (mask 8)" "(0x0000FF00 :: u32) = push_bit 8 (mask 8)" "(0x000000FF :: u32) = mask 8"
    by (simp_all add: mask_eq_exp_minus_1)
  show "bit (hdkif_swizzle_data w) n
      = bit (of_be32 (ucast w) (ucast (drop_bit 8 w)) (ucast (drop_bit 16 w)) (ucast (drop_bit 24 w))) n"
    unfolding hdkif_swizzle_data_def of_be32_def m using n
    by (cases "n < 8"; cases "n < 16"; cases "n < 24") (auto simp: bit_simps)
qed

lemma bit_swizzle: "bit (hdkif_swizzle_data w) n \<longleftrightarrow> n < 32 \<and> bit w (24 - 8 * (n div 8) + n mod 8)"
proof (cases "n < 32")
  case True
  then have "n div 8 < 4" by (simp add: less_mult_imp_div_less)
  then consider "n div 8 = 0" | "n div 8 = 1" | "n div 8 = 2" | "n div 8 = 3" by linarith
  then show ?thesis
  proof cases
    case 1
    then have "n < 8" by (simp add: div_eq_0_iff)
    then show ?thesis by (simp add: swizzle_bytes of_be32_def bit_simps)
  next
    case 2
    then have "8 \<le> n" "n < 16" "n mod 8 = n - 8" by (auto simp: modulo_nat_def)
    then show ?thesis using 2 by (auto simp: swizzle_bytes of_be32_def bit_simps)
  next
    case 3
    then have "16 \<le> n" "n < 24" "n mod 8 = n - 16" by (auto simp: modulo_nat_def)
    then show ?thesis using 3 by (auto simp: swizzle_bytes of_be32_def bit_simps)
  next
    case 4
    then have "24 \<le> n" "n < 32" "n mod 8 = n - 24" using True by (auto simp: modulo_nat_def)
    then show ?thesis using 4 by (auto simp: swizzle_bytes of_be32_def bit_simps)
  qed
qed (simp add: impossible_bit)

lemma swizzle_swizzle [simp]: "hdkif_swizzle_data (hdkif_swizzle_data w) = w"
proof (rule bit_word_eqI)
  fix n assume n: "n < LENGTH(32)"
  then have d: "n div 8 < 4" by (simp add: less_mult_imp_div_less)
  have "(24 - 8 * (n div 8) + n mod 8) div 8 = 3 - n div 8"
  proof -
    have "24 - 8 * (n div 8) + n mod 8 = n mod 8 + (3 - n div 8) * 8" using d by simp
    then show ?thesis by (simp only: div_mult_self3) simp
  qed
  moreover have "(24 - 8 * (n div 8) + n mod 8) mod 8 = n mod 8"
  proof -
    have "24 - 8 * (n div 8) + n mod 8 = n mod 8 + (3 - n div 8) * 8" using d by simp
    then show ?thesis by (simp only: mod_mult_self1) simp
  qed
  moreover have "24 - 8 * (n div 8) + n mod 8 < 32" using mod_less_divisor [of 8 n] by linarith
  moreover have "24 - 8 * (3 - n div 8) + n mod 8 = n"
    using d div_mult_mod_eq [of n 8] by linarith
  ultimately show "bit (hdkif_swizzle_data (hdkif_swizzle_data w)) n = bit w n" using n by (simp add: bit_swizzle)
qed

lemma swizzle_or: "hdkif_swizzle_data (a OR b) = hdkif_swizzle_data a OR hdkif_swizzle_data b"
  by (rule bit_word_eqI) (auto simp: bit_swizzle bit_simps)

lemma swizzle_and: "hdkif_swizzle_data (a AND b) = hdkif_swizzle_data a AND hdkif_swizzle_data b"
  by (rule bit_word_eqI) (auto simp: bit_swizzle bit_simps)

lemma swizzle_0 [simp]: "hdkif_swizzle_data 0 = 0"
  by (simp add: hdkif_swizzle_data_def)

lemma swizzle_eq_0 [simp]: "hdkif_swizzle_data w = 0 \<longleftrightarrow> w = 0"
  by (metis swizzle_swizzle swizzle_0)

lemma flag_bit: "n < 32 \<Longrightarrow> (w :: u32) AND push_bit n 1 = push_bit n 1 \<longleftrightarrow> bit w n"
proof
  assume "n < 32" "w AND push_bit n 1 = push_bit n 1"
  then have "bit (w AND push_bit n 1) n" by (simp add: bit_simps)
  then show "bit w n" by (simp add: bit_simps)
next
  assume "n < 32" "bit w n"
  then show "w AND push_bit n 1 = push_bit n 1" by (intro bit_word_eqI) (auto simp: bit_simps)
qed

lemma desc_flag_bits: "EMAC_BUF_DESC_SOP = push_bit 31 1" "EMAC_BUF_DESC_EOP = push_bit 30 1" "EMAC_BUF_DESC_OWNER = push_bit 29 1" "EMAC_BUF_DESC_EOQ = push_bit 28 1"
  by (simp_all add: desc_flags)

lemma bd_flag_bits:
  "bd_flag EMAC_BUF_DESC_SOP ram a \<longleftrightarrow> bit (hdkif_swizzle_data (bd_flags_pktlen (ram a))) 31"
  "bd_flag EMAC_BUF_DESC_EOP ram a \<longleftrightarrow> bit (hdkif_swizzle_data (bd_flags_pktlen (ram a))) 30"
  "bd_flag EMAC_BUF_DESC_OWNER ram a \<longleftrightarrow> bit (hdkif_swizzle_data (bd_flags_pktlen (ram a))) 29"
  "bd_flag EMAC_BUF_DESC_EOQ ram a \<longleftrightarrow> bit (hdkif_swizzle_data (bd_flags_pktlen (ram a))) 28"
  unfolding bd_flag_def desc_flag_bits by (rule flag_bit, simp)+

lemma tx_eoq_flag: "tx_eoq a e \<longleftrightarrow> bd_flag EMAC_BUF_DESC_EOQ (tx_ram e) a"
  by (simp add: tx_eoq_def bd_flag_def)

section \<open>The transmit ring\<close>

text \<open>
  The descriptors form a ring: the free ones from \<open>free_head\<close> on, then those of the packets that the
  interrupt has not reclaimed, the oldest first. The link of the newest descriptor is cut; the next
  packet closes it again.
\<close>

definition bd_nxt :: "(u32 \<Rightarrow> emac_tx_bdp) \<Rightarrow> u32 \<Rightarrow> u32" where
  "bd_nxt ram a = hdkif_swizzle_data (bd_next (ram a))"

fun bd_linked :: "(u32 \<Rightarrow> u32) \<Rightarrow> u32 list \<Rightarrow> u32 \<Rightarrow> bool" where
  "bd_linked nx [] z = True"
| "bd_linked nx (b # bs) z = (nx b = hd (bs @ [z]) \<and> bd_linked nx bs z)"

definition packet_bds :: "(u32 \<Rightarrow> emac_tx_bdp) \<Rightarrow> nat \<times> u32 list \<Rightarrow> bool" where
  "packet_bds ram = (\<lambda>(pb, ds). ds \<noteq> []
     \<and> bd_flag EMAC_BUF_DESC_SOP ram (hd ds) \<and> (\<forall>d \<in> set (tl ds). \<not> bd_flag EMAC_BUF_DESC_SOP ram d)
     \<and> bd_flag EMAC_BUF_DESC_EOP ram (last ds) \<and> (\<forall>d \<in> set (butlast ds). \<not> bd_flag EMAC_BUF_DESC_EOP ram d)
     \<and> bd_pbuf (ram (last ds)) = pb)"

definition ring_bds :: "u32 list \<Rightarrow> (nat \<times> u32 list) list \<Rightarrow> u32 list" where
  "ring_bds free pend = free @ concat (map snd pend)"

definition tx_ring :: "hdkif \<Rightarrow> u32 list \<Rightarrow> (nat \<times> u32 list) list \<Rightarrow> bool" where
  "tx_ring e free pend \<longleftrightarrow>
     free \<noteq> [] \<and> distinct (ring_bds free pend) \<and> 0 \<notin> set (ring_bds free pend)
     \<and> tx_free_head e = hd free
     \<and> tx_next_bd_to_process e = hd (concat (map snd pend) @ free)
     \<and> (if tx_active_tail e = 0 then pend = [] \<and> bd_linked (bd_nxt (tx_ram e)) free (hd free)
        else tx_active_tail e = last (ring_bds free pend) \<and> bd_linked (bd_nxt (tx_ram e)) (ring_bds free pend) 0)
     \<and> (\<forall>d \<in> set free. \<not> bd_flag EMAC_BUF_DESC_SOP (tx_ram e) d \<and> \<not> bd_flag EMAC_BUF_DESC_EOP (tx_ram e) d)
     \<and> list_all (packet_bds (tx_ram e)) pend"

lemma bd_linked_append: "bd_linked nx (as @ bs) z \<longleftrightarrow> bd_linked nx as (hd (bs @ [z])) \<and> bd_linked nx bs z"
  by (induction as) (auto simp: hd_append)

lemma bd_linked_cong: "(\<And>d. d \<in> set bs \<Longrightarrow> nx d = nx' d) \<Longrightarrow> bd_linked nx bs z = bd_linked nx' bs z"
  by (induction bs) auto

lemma bd_linked_last: "bs \<noteq> [] \<Longrightarrow> bd_linked nx bs z \<longleftrightarrow> bd_linked nx (butlast bs) (last bs) \<and> nx (last bs) = z"
  by (induction bs) auto

lemma bd_linked_upd_last:
  "bs \<noteq> [] \<Longrightarrow> distinct bs \<Longrightarrow> bd_linked nx bs z \<Longrightarrow> bd_linked (nx(last bs := y)) bs y"
  by (cases bs rule: rev_cases) (auto simp: bd_linked_append elim!: bd_linked_cong [THEN iffD1, rotated])

subsection \<open>What the engine reads\<close>

text \<open>
  The buffers of the packet whose first descriptor is \<open>a\<close>, as the engine reads them: pairs of address
  and length up to the descriptor marked \<open>EOP\<close>.
\<close>

fun bd_packet :: "nat \<Rightarrow> (u32 \<Rightarrow> emac_tx_bdp) \<Rightarrow> u32 \<Rightarrow> (u32 \<times> u32) list option" where
  "bd_packet 0 ram a = None"
| "bd_packet (Suc n) ram a =
     (if bd_flag EMAC_BUF_DESC_EOP ram a
      then Some [(hdkif_swizzle_data (bd_bufptr (ram a)), hdkif_swizzle_data (bd_bufoff_len (ram a)))]
      else map_option (Cons (hdkif_swizzle_data (bd_bufptr (ram a)), hdkif_swizzle_data (bd_bufoff_len (ram a))))
             (bd_packet n ram (bd_nxt ram a)))"

definition bd_pktlen :: "(u32 \<Rightarrow> emac_tx_bdp) \<Rightarrow> u32 \<Rightarrow> u32" where
  "bd_pktlen ram a = hdkif_swizzle_data (bd_flags_pktlen (ram a)) AND 0xFFFF"

definition bd_of :: "(pbuf \<Rightarrow> u32) \<Rightarrow> nat \<Rightarrow> pbuf \<Rightarrow> emac_tx_bdp \<Rightarrow> emac_tx_bdp" where
  "bd_of payload_addr pb q d = d\<lparr>bd_bufptr := hdkif_swizzle_data (payload_addr q), bd_bufoff_len := hdkif_swizzle_data (ucast (p_len q) AND 0xFFFF), bd_pbuf := pb\<rparr>"

lemma fill_tx_bds_ok:
  "bd_linked (bd_nxt ram) bs z \<Longrightarrow> distinct bs \<Longrightarrow> 0 \<notin> set bs \<Longrightarrow> length c \<le> length bs \<Longrightarrow>
    \<exists>ram'. fill_tx_bds pa pb c (hd (bs @ [z])) be ram
        = Inr (hd (drop (length c) bs @ [z]), last (be # take (length c) bs), ram')
      \<and> (\<forall>i < length c. ram' (bs ! i) = bd_of pa pb (c ! i) (ram (bs ! i)))
      \<and> (\<forall>a. a \<notin> set (take (length c) bs) \<longrightarrow> ram' a = ram a)"
proof (induction c arbitrary: bs be ram)
  case (Cons q qs)
  then obtain b bs' where bs: "bs = b # bs'" by (cases bs) auto
  let ?ram = "ram(b := bd_of pa pb q (ram b))"
  have nx: "bd_nxt ?ram = bd_nxt ram" by (rule ext) (simp add: bd_nxt_def bd_of_def)
  have "bd_linked (bd_nxt ?ram) bs' z" using Cons.prems by (simp add: nx bs)
  from Cons.IH [OF this, of b] obtain ram' where r:
    "fill_tx_bds pa pb qs (hd (bs' @ [z])) b ?ram = Inr (hd (drop (length qs) bs' @ [z]), last (b # take (length qs) bs'), ram')"
    "\<forall>i < length qs. ram' (bs' ! i) = bd_of pa pb (qs ! i) (?ram (bs' ! i))"
    "\<forall>a. a \<notin> set (take (length qs) bs') \<longrightarrow> ram' a = ?ram a"
    using Cons.prems unfolding bs by (simp del: fun_upd_apply last.simps) blast
  have nb: "b \<notin> set bs'" using Cons.prems by (simp add: bs)
  have ne: "bs' ! i \<noteq> b" if "i < length qs" for i using that nb Cons.prems by (auto simp: bs in_set_conv_nth)
  show ?case
  proof (intro exI [of _ ram'] conjI allI impI)
    show "fill_tx_bds pa pb (q # qs) (hd (bs @ [z])) be ram
        = Inr (hd (drop (length (q # qs)) bs @ [z]), last (be # take (length (q # qs)) bs), ram')"
      using r(1) Cons.prems by (simp add: bs bd_of_def bd_nxt_def)
  next
    fix i assume "i < length (q # qs)"
    then show "ram' (bs ! i) = bd_of pa pb ((q # qs) ! i) (ram (bs ! i))"
      using r(2,3) nb ne by (cases i) (auto simp: bs dest: in_set_takeD)
  next
    fix a assume "a \<notin> set (take (length (q # qs)) bs)"
    then show "ram' a = ram a" using r(3) by (simp add: bs)
  qed
qed simp

lemma bd_linked_rotate:
  assumes "distinct (as @ bs)" "as \<noteq> []" "bs \<noteq> []" "bd_linked nx (as @ bs) z"
  shows "bd_linked (nx(last as := 0, last bs := hd as)) (bs @ as) 0"
proof -
  have l: "last as \<in> set as" "last bs \<in> set bs" using assms by simp_all
  then have ne: "last as \<noteq> last bs" "last bs \<notin> set as" "last as \<notin> set bs" using assms(1) by auto
  have "bd_linked nx as (hd bs)" "bd_linked nx bs z" using assms(3,4) by (simp_all add: bd_linked_append)
  then have "bd_linked (nx(last as := 0)) as 0" "bd_linked (nx(last bs := hd as)) bs (hd as)"
    using bd_linked_upd_last assms(1,2,3) by auto
  moreover have "bd_linked (nx(last as := 0, last bs := hd as)) as 0 = bd_linked (nx(last as := 0)) as 0"
    by (rule bd_linked_cong) (use ne in auto)
  moreover have "bd_linked (nx(last as := 0, last bs := hd as)) bs (hd as) = bd_linked (nx(last bs := hd as)) bs (hd as)"
    by (rule bd_linked_cong) (use ne in auto)
  ultimately show ?thesis using assms(2) by (simp add: bd_linked_append)
qed

lemma ucast_and_ffff [simp]: "(ucast (x :: u16) :: u32) AND 0xFFFF = ucast x"
proof -
  have m: "(0xFFFF :: u32) = mask 16" by (simp add: mask_eq_exp_minus_1)
  show ?thesis unfolding m by (rule bit_word_eqI) (auto simp: bit_simps dest: bit_imp_le_length)
qed

lemma bd_packet_ok:
  "length ds = length c \<Longrightarrow> c \<noteq> [] \<Longrightarrow> length c \<le> n \<Longrightarrow> bd_linked (bd_nxt ram) ds z \<Longrightarrow>
    bd_flag EMAC_BUF_DESC_EOP ram (last ds) \<Longrightarrow> (\<forall>d \<in> set (butlast ds). \<not> bd_flag EMAC_BUF_DESC_EOP ram d) \<Longrightarrow>
    (\<And>i. i < length c \<Longrightarrow> bd_bufptr (ram (ds ! i)) = hdkif_swizzle_data (pa (c ! i))
        \<and> bd_bufoff_len (ram (ds ! i)) = hdkif_swizzle_data (ucast (p_len (c ! i)))) \<Longrightarrow>
    bd_packet n ram (hd ds) = Some (map (\<lambda>q. (pa q, ucast (p_len q))) c)"
proof (induction c arbitrary: ds n)
  case (Cons q qs)
  obtain d ds' m where d: "ds = d # ds'" "n = Suc m" using Cons.prems by (cases ds; cases n) auto
  have q: "bd_bufptr (ram d) = hdkif_swizzle_data (pa q)" "bd_bufoff_len (ram d) = hdkif_swizzle_data (ucast (p_len q))"
    using Cons.prems(7) [of 0] by (simp_all add: d)
  show ?case
  proof (cases "qs = []")
    case True
    then show ?thesis using Cons.prems q by (simp add: d)
  next
    case False
    then have ds': "ds' \<noteq> []" using Cons.prems by (auto simp: d)
    have "bd_packet m ram (hd ds') = Some (map (\<lambda>q. (pa q, ucast (p_len q))) qs)"
    proof (rule Cons.IH)
      fix i assume "i < length qs"
      then show "bd_bufptr (ram (ds' ! i)) = hdkif_swizzle_data (pa (qs ! i)) \<and> bd_bufoff_len (ram (ds' ! i)) = hdkif_swizzle_data (ucast (p_len (qs ! i)))"
        using Cons.prems(7) [of "Suc i"] by (simp add: d)
    qed (use Cons.prems False ds' in \<open>auto simp: d\<close>)
    then show ?thesis using Cons.prems q ds' by (simp add: d)
  qed
qed simp

subsection \<open>What the hardware may do\<close>

text \<open>
  Between two reads of the driver the engine changes the registers and the flag words of descriptors
  only. It leaves \<open>SOP\<close> and \<open>EOP\<close> as they are, never takes \<open>EOQ\<close> back and never takes ownership.
\<close>

definition tx_hw_step :: "hdkif \<Rightarrow> hdkif \<Rightarrow> bool" where
  "tx_hw_step e e' \<longleftrightarrow>
     tx_free_head e' = tx_free_head e \<and> tx_active_tail e' = tx_active_tail e
     \<and> tx_next_bd_to_process e' = tx_next_bd_to_process e \<and> pbuf_store e' = pbuf_store e \<and> emac_alloc e' = emac_alloc e
     \<and> (\<forall>a. bd_next (tx_ram e' a) = bd_next (tx_ram e a) \<and> bd_bufptr (tx_ram e' a) = bd_bufptr (tx_ram e a)
          \<and> bd_bufoff_len (tx_ram e' a) = bd_bufoff_len (tx_ram e a) \<and> bd_pbuf (tx_ram e' a) = bd_pbuf (tx_ram e a)
          \<and> bd_pktlen (tx_ram e') a = bd_pktlen (tx_ram e) a
          \<and> bd_flag EMAC_BUF_DESC_SOP (tx_ram e') a = bd_flag EMAC_BUF_DESC_SOP (tx_ram e) a
          \<and> bd_flag EMAC_BUF_DESC_EOP (tx_ram e') a = bd_flag EMAC_BUF_DESC_EOP (tx_ram e) a
          \<and> (bd_flag EMAC_BUF_DESC_OWNER (tx_ram e') a \<longrightarrow> bd_flag EMAC_BUF_DESC_OWNER (tx_ram e) a)
          \<and> (bd_flag EMAC_BUF_DESC_EOQ (tx_ram e) a \<longrightarrow> bd_flag EMAC_BUF_DESC_EOQ (tx_ram e') a))"

definition dma_keeps :: "(hdkif \<Rightarrow> hdkif) \<Rightarrow> bool" where
  "dma_keeps dma \<longleftrightarrow> (\<forall>e. tx_hw_step e (dma e))"

lemma tx_hw_step_refl [simp]: "tx_hw_step e e"
  by (simp add: tx_hw_step_def)

lemma tx_hw_step_trans: "tx_hw_step e e1 \<Longrightarrow> tx_hw_step e1 e2 \<Longrightarrow> tx_hw_step e e2"
  by (simp add: tx_hw_step_def)

lemma dma_keeps_steps: "dma_keeps dma \<Longrightarrow> tx_hw_step e ((dma ^^ n) e)"
  by (induction n) (auto simp: dma_keeps_def intro: tx_hw_step_trans)

lemma packet_bds_hw: "tx_hw_step e e' \<Longrightarrow> packet_bds (tx_ram e') = packet_bds (tx_ram e)"
  by (simp add: packet_bds_def tx_hw_step_def fun_eq_iff)

lemma bd_nxt_hw: "tx_hw_step e e' \<Longrightarrow> bd_nxt (tx_ram e') = bd_nxt (tx_ram e)"
  by (simp add: bd_nxt_def tx_hw_step_def fun_eq_iff)

lemma tx_ring_hw: "tx_hw_step e e' \<Longrightarrow> tx_ring e free pend \<Longrightarrow> tx_ring e' free pend"
  using packet_bds_hw [of e e'] bd_nxt_hw [of e e'] by (simp add: tx_ring_def tx_hw_step_def)

lemma bd_packet_hw: "tx_hw_step e e' \<Longrightarrow> bd_packet n (tx_ram e') a = bd_packet n (tx_ram e) a"
  by (induction n arbitrary: a) (simp_all add: tx_hw_step_def bd_nxt_def)

subsection \<open>Building the descriptors of a packet\<close>

definition tx_built :: "(pbuf \<Rightarrow> u32) \<Rightarrow> nat \<Rightarrow> chain \<Rightarrow> u32 list \<Rightarrow> (u32 \<Rightarrow> emac_tx_bdp) \<Rightarrow> (u32 \<Rightarrow> emac_tx_bdp) \<Rightarrow> bool" where
  "tx_built pa pb c ds ram ram' \<longleftrightarrow>
     (\<forall>a. a \<notin> set ds \<longrightarrow> ram' a = ram a)
     \<and> bd_nxt ram' = (bd_nxt ram)(last ds := 0)
     \<and> bd_pktlen ram' (hd ds) = ucast (tot_len (hd c))
     \<and> bd_flag EMAC_BUF_DESC_OWNER ram' (hd ds)
     \<and> packet_bds ram' (pb, ds)
     \<and> (\<forall>i < length c. bd_bufptr (ram' (ds ! i)) = hdkif_swizzle_data (pa (c ! i))
          \<and> bd_bufoff_len (ram' (ds ! i)) = hdkif_swizzle_data (ucast (p_len (c ! i))))"

lemma flags_and_ffff:
  "(ucast (x :: u16) OR (EMAC_BUF_DESC_SOP OR EMAC_BUF_DESC_OWNER) :: u32) AND 0xFFFF = ucast x"
  "((ucast x OR (EMAC_BUF_DESC_SOP OR EMAC_BUF_DESC_OWNER)) OR EMAC_BUF_DESC_EOP :: u32) AND 0xFFFF = ucast x"
  by (simp_all add: bit.conj_disj_distrib2 desc_flags)

lemma built_flags:
  fixes x :: u16 and w :: u32
  shows "bit ((ucast x OR (EMAC_BUF_DESC_SOP OR EMAC_BUF_DESC_OWNER)) :: u32) 31"
    "\<not> bit ((ucast x OR (EMAC_BUF_DESC_SOP OR EMAC_BUF_DESC_OWNER)) :: u32) 30"
    "bit ((ucast x OR (EMAC_BUF_DESC_SOP OR EMAC_BUF_DESC_OWNER)) :: u32) 29"
    "bit (w OR EMAC_BUF_DESC_EOP) 31 = bit w 31" "bit (w OR EMAC_BUF_DESC_EOP) 30" "bit (w OR EMAC_BUF_DESC_EOP) 29 = bit w 29"
  unfolding desc_flag_bits by (auto simp: bit_simps dest: bit_imp_le_length)

lemma tx_built_intro:
  fixes ram r' :: "u32 \<Rightarrow> emac_tx_bdp" and c :: chain and ds :: "u32 list"
  defines "r0 \<equiv> ram(hd ds := (ram (hd ds))\<lparr>bd_flags_pktlen := hdkif_swizzle_data (ucast (tot_len (hd c)) OR (EMAC_BUF_DESC_SOP OR EMAC_BUF_DESC_OWNER))\<rparr>)"
  assumes ds: "ds \<noteq> []" "distinct ds" "length ds = length c"
    and free: "\<forall>d \<in> set ds. \<not> bd_flag EMAC_BUF_DESC_SOP ram d \<and> \<not> bd_flag EMAC_BUF_DESC_EOP ram d"
    and fill: "\<forall>i < length c. r' (ds ! i) = bd_of pa pb (c ! i) (r0 (ds ! i))"
    and rest: "\<forall>a. a \<notin> set ds \<longrightarrow> r' a = r0 a"
  shows "tx_built pa pb c ds ram (r'(last ds := (r' (last ds))\<lparr>bd_next := 0,
           bd_flags_pktlen := bd_flags_pktlen (r' (last ds)) OR hdkif_swizzle_data EMAC_BUF_DESC_EOP\<rparr>))" (is "tx_built _ _ _ _ _ ?R")
proof -
  have "bd_flags_pktlen (r' a) = bd_flags_pktlen (r0 a) \<and> bd_next (r' a) = bd_next (ram a)
    \<and> (a \<in> set ds \<longrightarrow> bd_pbuf (r' a) = pb)" for a
  proof (cases "a \<in> set ds")
    case True
    then obtain i where "i < length c" "a = ds ! i" using ds(3) by (auto simp: in_set_conv_nth)
    then show ?thesis using fill by (simp add: bd_of_def r0_def)
  qed (use rest in \<open>simp add: r0_def\<close>)
  then have fl: "bd_flags_pktlen (r' a) = bd_flags_pktlen (r0 a)" and nx: "bd_next (r' a) = bd_next (ram a)"
    and pb: "a \<in> set ds \<Longrightarrow> bd_pbuf (r' a) = pb" for a by blast+
  have R: "hdkif_swizzle_data (bd_flags_pktlen (?R a)) =
     (let w = (if a = hd ds then ucast (tot_len (hd c)) OR (EMAC_BUF_DESC_SOP OR EMAC_BUF_DESC_OWNER)
               else hdkif_swizzle_data (bd_flags_pktlen (ram a)))
      in if a = last ds then w OR EMAC_BUF_DESC_EOP else w)" for a
    using fl by (simp add: r0_def swizzle_or Let_def)
  have tl: "hd ds \<notin> set (tl ds)" "set (tl ds) \<subseteq> set ds" using ds by (cases ds; auto)+
  have bl: "last ds \<notin> set (butlast ds)" "set (butlast ds) \<subseteq> set ds" using ds by (cases ds rule: rev_cases; auto)+
  have "packet_bds ?R (pb, ds)"
    unfolding packet_bds_def bd_flag_bits R using ds(1) tl bl free pb
    by (auto simp: Let_def built_flags bd_flag_bits)
  moreover have "bd_flag EMAC_BUF_DESC_OWNER ?R (hd ds)"
    unfolding bd_flag_bits R by (simp add: Let_def built_flags)
  moreover have "bd_pktlen ?R (hd ds) = ucast (tot_len (hd c))"
    unfolding bd_pktlen_def R by (simp add: Let_def flags_and_ffff)
  moreover have "bd_nxt ?R = (bd_nxt ram)(last ds := 0)"
    by (rule ext) (simp add: bd_nxt_def nx)
  moreover have "\<forall>a. a \<notin> set ds \<longrightarrow> ?R a = ram a"
    using rest ds(1) by (auto simp: r0_def)
  moreover have "\<forall>i < length c. bd_bufptr (?R (ds ! i)) = hdkif_swizzle_data (pa (c ! i)) \<and> bd_bufoff_len (?R (ds ! i)) = hdkif_swizzle_data (ucast (p_len (c ! i)))"
    using fill by (auto simp: bd_of_def)
  ultimately show ?thesis unfolding tx_built_def by blast
qed

lemma tx_build_ok:
  assumes "bd_linked (bd_nxt ram) bs z" "distinct bs" "0 \<notin> set bs" "c \<noteq> []" "length c \<le> length bs"
    and free: "\<forall>d \<in> set (take (length c) bs). \<not> bd_flag EMAC_BUF_DESC_SOP ram d \<and> \<not> bd_flag EMAC_BUF_DESC_EOP ram d"
  shows "\<exists>ram'. fill_tx_bds pa pb c (hd bs) (hd bs) (ram(hd bs := (ram (hd bs))\<lparr>bd_flags_pktlen :=
            hdkif_swizzle_data (ucast (tot_len (hd c)) OR (EMAC_BUF_DESC_SOP OR EMAC_BUF_DESC_OWNER))\<rparr>))
        = Inr (hd (drop (length c) bs @ [z]), last (take (length c) bs), ram')
     \<and> tx_built pa pb c (take (length c) bs) ram (ram'(last (take (length c) bs) := (ram' (last (take (length c) bs)))\<lparr>bd_next := 0,
           bd_flags_pktlen := bd_flags_pktlen (ram' (last (take (length c) bs))) OR hdkif_swizzle_data EMAC_BUF_DESC_EOP\<rparr>))"
proof -
  let ?ds = "take (length c) bs"
  let ?r0 = "ram(hd bs := (ram (hd bs))\<lparr>bd_flags_pktlen := hdkif_swizzle_data (ucast (tot_len (hd c)) OR (EMAC_BUF_DESC_SOP OR EMAC_BUF_DESC_OWNER))\<rparr>)"
  have bs: "bs \<noteq> []" "hd ?ds = hd bs" "?ds \<noteq> []" using assms(4,5) by (cases bs; cases c; simp)+
  have "bd_nxt ?r0 = bd_nxt ram" by (rule ext) (simp add: bd_nxt_def)
  then have "bd_linked (bd_nxt ?r0) bs z" using assms(1) by simp
  from fill_tx_bds_ok [OF this assms(2,3,5), of pa pb "hd bs"] obtain r' where r':
    "fill_tx_bds pa pb c (hd (bs @ [z])) (hd bs) ?r0 = Inr (hd (drop (length c) bs @ [z]), last (hd bs # ?ds), r')"
    "\<forall>i < length c. r' (bs ! i) = bd_of pa pb (c ! i) (?r0 (bs ! i))"
    "\<forall>a. a \<notin> set ?ds \<longrightarrow> r' a = ?r0 a" by blast
  have "tx_built pa pb c ?ds ram (r'(last ?ds := (r' (last ?ds))\<lparr>bd_next := 0,
           bd_flags_pktlen := bd_flags_pktlen (r' (last ?ds)) OR hdkif_swizzle_data EMAC_BUF_DESC_EOP\<rparr>))"
    by (rule tx_built_intro) (use assms r' bs in \<open>auto simp: min_def\<close>)
  moreover have "last (hd bs # ?ds) = last ?ds" "hd (bs @ [z]) = hd bs" using bs by simp_all
  ultimately show ?thesis using r'(1) by (intro exI [of _ r'] conjI) simp_all
qed

subsection \<open>Queueing a packet\<close>

text \<open>
  The engine finishes the queue that ends at the active tail, whatever the driver does to descriptors
  outside \<open>D\<close>: the tail gets its \<open>EOQ\<close>, the head descriptor pointer goes back to 0, and by then the
  packets \<open>ps\<close> are no longer owned by the engine.
\<close>

definition dma_finishes :: "(hdkif \<Rightarrow> hdkif) \<Rightarrow> hdkif \<Rightarrow> u32 set \<Rightarrow> (nat \<times> u32 list) list \<Rightarrow> bool" where
  "dma_finishes dma e D ps \<longleftrightarrow>
     (\<forall>e'. emac_regs e' = emac_regs e \<and> tx_active_tail e' = tx_active_tail e \<and> (\<forall>a \<in> D. tx_ram e' a = tx_ram e a) \<longrightarrow>
        (\<exists>n. tx_eoq (tx_active_tail e) ((dma ^^ n) e'))
        \<and> (\<forall>m. \<exists>n. tx_hdp_clear ((dma ^^ (m + n)) e'))
        \<and> (\<forall>n. tx_hdp_clear ((dma ^^ n) e') \<longrightarrow>
             (\<forall>(pb, ds) \<in> set ps. \<not> bd_flag EMAC_BUF_DESC_OWNER (tx_ram ((dma ^^ n) e')) (hd ds))))"

definition tx_link :: "u32 \<Rightarrow> hdkif \<Rightarrow> hdkif" where
  "tx_link h e =
     (if tx_active_tail e = 0 then e
      else e\<lparr>tx_ram := (tx_ram e)(tx_active_tail e := (tx_ram e (tx_active_tail e))\<lparr>bd_next := hdkif_swizzle_data h\<rparr>)\<rparr>)"

lemma start_tx_simps [simp]:
  "tx_ram (start_tx h e) = tx_ram e" "tx_free_head (start_tx h e) = tx_free_head e"
  "tx_active_tail (start_tx h e) = tx_active_tail e" "tx_next_bd_to_process (start_tx h e) = tx_next_bd_to_process e"
  "pbuf_store (start_tx h e) = pbuf_store e" "emac_alloc (start_tx h e) = emac_alloc e"
  "emac_regs (start_tx h e) 0xFCF78600 = h"
  by (simp_all add: start_tx_def EMACTxHdrDescPtrWrite_def EMAC_0_BASE_def EMAC_TXHDP_def)

lemma bd_flag_upd_next: "bd_flag fl (ram(a := (ram a)\<lparr>bd_next := x\<rparr>)) = bd_flag fl ram"
  by (rule ext) (simp add: bd_flag_def)

lemma tx_link_hw: "tx_hw_step e e2 \<Longrightarrow> tx_hw_step (tx_link h e) (start_tx h (tx_link h e2))"
  by (simp add: tx_hw_step_def tx_link_def bd_flag_upd_next) (simp add: bd_pktlen_def)

lemma tx_queue_packet_ok:
  assumes "dma_keeps dma"
    and eoq: "tx_active_tail e \<noteq> 0 \<Longrightarrow> \<exists>n. tx_eoq (tx_active_tail e) ((dma ^^ n) e)"
    and hdp: "tx_active_tail e \<noteq> 0 \<Longrightarrow> \<forall>m. \<exists>n. tx_hdp_clear ((dma ^^ (m + n)) e)"
  shows "\<exists>n. tx_queue_packet dma h e = Inr (start_tx h (tx_link h ((dma ^^ n) e)))
          \<and> (tx_active_tail e \<noteq> 0 \<longrightarrow> tx_hdp_clear ((dma ^^ n) e))"
proof (cases "tx_active_tail e = 0")
  case True
  then show ?thesis by (intro exI [of _ 0]) (simp add: tx_queue_packet_def tx_link_def)
next
  case False
  obtain n where "tx_eoq (tx_active_tail e) ((dma ^^ n) e)" using eoq False by blast
  then obtain m where m: "poll_until (tx_eoq (tx_active_tail e)) dma e = Some ((dma ^^ m) e)" "tx_eoq (tx_active_tail e) ((dma ^^ m) e)"
    using poll_until_ends [of "tx_eoq (tx_active_tail e)" n dma e] by blast
  obtain k where "tx_hdp_clear ((dma ^^ k) ((dma ^^ m) e))" using hdp False by (metis add.commute comp_apply funpow_add)
  then obtain l where l: "poll_until tx_hdp_clear dma ((dma ^^ m) e) = Some ((dma ^^ l) ((dma ^^ m) e))" "tx_hdp_clear ((dma ^^ l) ((dma ^^ m) e))"
    using poll_until_ends [of tx_hdp_clear k dma "(dma ^^ m) e"] by blast
  let ?e2 = "(dma ^^ l) ((dma ^^ m) e)"
  have hw: "tx_hw_step ((dma ^^ m) e) ?e2" "tx_hw_step e ?e2"
    using assms(1) dma_keeps_steps tx_hw_step_trans by blast+
  then have "tx_eoq (tx_active_tail e) ?e2" using m(2) by (simp add: tx_eoq_flag tx_hw_step_def)
  then have q: "bd_flag EMAC_BUF_DESC_EOQ (tx_ram ?e2) (tx_active_tail e)" by (simp add: tx_eoq_flag)
  have t: "tx_active_tail ?e2 = tx_active_tail e" using hw(2) by (simp add: tx_hw_step_def)
  have e2: "?e2 = (dma ^^ (l + m)) e" by (simp add: funpow_add)
  have "tx_queue_packet dma h e = Inr (start_tx h (tx_link h ?e2))"
    using False m(1) l(1) q by (simp add: tx_queue_packet_def Let_def tx_link_def t tx_eoq_flag bd_flag_upd_next)
  then show ?thesis using l(2) unfolding e2 by blast
qed

lemma tx_hw_step_tail: "tx_hw_step e e' \<Longrightarrow> tx_hw_step (e\<lparr>tx_active_tail := t\<rparr>) (e'\<lparr>tx_active_tail := t\<rparr>)"
  by (simp add: tx_hw_step_def)

lemma packet_bds_cong:
  assumes "\<And>d. d \<in> set (snd x) \<Longrightarrow> bd_flags_pktlen (ram' d) = bd_flags_pktlen (ram d) \<and> bd_pbuf (ram' d) = bd_pbuf (ram d)"
  shows "packet_bds ram' x = packet_bds ram x"
proof (cases x)
  case (Pair pb ds)
  show ?thesis
  proof (cases "ds = []")
    case False
    have f: "bd_flag fl ram' d = bd_flag fl ram d" "bd_pbuf (ram' d) = bd_pbuf (ram d)" if "d \<in> set ds" for fl d
      using assms [of d] that by (simp_all add: Pair bd_flag_def)
    have "(\<forall>d \<in> set (tl ds). \<not> bd_flag fl ram' d) = (\<forall>d \<in> set (tl ds). \<not> bd_flag fl ram d)" for fl
      by (rule ball_cong) (use f False in \<open>auto dest: list.set_sel(2)\<close>)
    moreover have "(\<forall>d \<in> set (butlast ds). \<not> bd_flag fl ram' d) = (\<forall>d \<in> set (butlast ds). \<not> bd_flag fl ram d)" for fl
      by (rule ball_cong) (use f in \<open>auto dest: in_set_butlastD\<close>)
    ultimately show ?thesis using False f by (simp add: Pair packet_bds_def)
  qed (simp add: Pair packet_bds_def)
qed

lemma tx_ring_built:
  assumes ring: "tx_ring e free pend" and k: "c \<noteq> []" "length c < length free"
    and built: "tx_built pa pb c (take (length c) free) (tx_ram e) R"
  shows "tx_ring ((tx_link (hd free) (e\<lparr>tx_ram := R, tx_free_head := hd (drop (length c) free)\<rparr>))\<lparr>tx_active_tail := last (take (length c) free)\<rparr>)
           (drop (length c) free) (pend @ [(pb, take (length c) free)])" (is "tx_ring ?X ?F ?P")
proof -
  let ?pd = "concat (map snd pend)"
  obtain ds F where dsF: "ds = take (length c) free" "F = drop (length c) free" by blast
  have free: "free = ds @ F" and ne: "ds \<noteq> []" "F \<noteq> []" using k by (auto simp: dsF)
  have r: "distinct (ds @ F @ ?pd)" "0 \<notin> set (ds @ F @ ?pd)"
    using ring by (auto simp: tx_ring_def ring_bds_def free)
  have tail: "tx_active_tail e \<noteq> 0 \<Longrightarrow> tx_active_tail e = last (F @ ?pd)"
    using ring ne(2) by (auto simp: tx_ring_def ring_bds_def free)
  have out: "R a = tx_ram e a" if "a \<notin> set ds" for a using built [folded dsF] that by (simp add: tx_built_def)
  have same: "bd_flags_pktlen (tx_ram ?X a) = bd_flags_pktlen (R a) \<and> bd_pbuf (tx_ram ?X a) = bd_pbuf (R a)" for a
    by (simp add: tx_link_def)
  have "\<exists>z. bd_linked (bd_nxt (tx_ram e)) (ds @ F @ ?pd) z \<and> (tx_active_tail e = 0 \<longrightarrow> ?pd = [] \<and> z = hd free)"
    using ring by (auto simp: tx_ring_def ring_bds_def free split: if_splits)
  then obtain z where z: "bd_linked (bd_nxt (tx_ram e)) (ds @ F @ ?pd) z" "tx_active_tail e = 0 \<Longrightarrow> ?pd = [] \<and> z = hd free" by blast
  have hd: "last ds \<in> set ds" "hd ds = hd free" using ne by (simp_all add: free)
  have lT: "last (F @ ?pd) \<in> set (F @ ?pd)" by (rule last_in_set) (simp add: ne)
  have T: "last (F @ ?pd) \<noteq> last ds" using lT hd(1) r(1) unfolding distinct_append [of ds] by (metis disjoint_iff)
  have Rn: "bd_nxt R = (bd_nxt (tx_ram e))(last ds := 0)" using built [folded dsF] by (simp add: tx_built_def)
  have nx: "bd_nxt (tx_ram ?X) = (bd_nxt (tx_ram e))(last ds := 0, last (F @ ?pd) := hd ds)"
  proof (cases "tx_active_tail e = 0")
    case True
    then have "bd_nxt (tx_ram e) (last F) = hd ds" using z ne hd(2) by (simp add: bd_linked_append bd_linked_last)
    then show ?thesis using True z(2) T Rn by (simp add: tx_link_def fun_eq_iff)
  next
    case False
    then have "bd_nxt (tx_ram ?X) = (bd_nxt R)(last (F @ ?pd) := hd ds)"
      using tail hd(2) by (simp add: tx_link_def bd_nxt_def fun_eq_iff)
    then show ?thesis using Rn by simp
  qed
  have "bd_linked (bd_nxt (tx_ram ?X)) ((F @ ?pd) @ ds) 0"
    unfolding nx by (rule bd_linked_rotate [OF _ _ _ z(1)]) (use r ne in auto)
  moreover have "distinct (F @ ?pd @ ds)" "0 \<notin> set (F @ ?pd @ ds)" using r by auto
  moreover have "last ds \<noteq> 0" using r ne(1) by (metis UnCI last_in_set set_append)
  moreover have "\<forall>d \<in> set F. \<not> bd_flag EMAC_BUF_DESC_SOP (tx_ram ?X) d \<and> \<not> bd_flag EMAC_BUF_DESC_EOP (tx_ram ?X) d"
  proof
    fix d assume d: "d \<in> set F"
    then have "d \<notin> set ds" "d \<in> set free" using r by (auto simp: free)
    then show "\<not> bd_flag EMAC_BUF_DESC_SOP (tx_ram ?X) d \<and> \<not> bd_flag EMAC_BUF_DESC_EOP (tx_ram ?X) d"
      using ring same [of d] out [of d] by (simp add: bd_flag_def tx_ring_def)
  qed
  moreover have "list_all (packet_bds (tx_ram ?X)) pend"
  proof -
    have "packet_bds (tx_ram ?X) x = packet_bds (tx_ram e) x" if "x \<in> set pend" for x
    proof (rule packet_bds_cong)
      fix d assume "d \<in> set (snd x)"
      then have "d \<notin> set ds" using that r(1) by auto
      then show "bd_flags_pktlen (tx_ram ?X d) = bd_flags_pktlen (tx_ram e d) \<and> bd_pbuf (tx_ram ?X d) = bd_pbuf (tx_ram e d)"
        using same [of d] out [of d] by simp
    qed
    then show ?thesis using ring by (simp add: tx_ring_def list_all_iff)
  qed
  moreover have "packet_bds (tx_ram ?X) (pb, ds)"
    using packet_bds_cong [of "(pb, ds)" "tx_ram ?X" R] same built [folded dsF] by (simp add: tx_built_def)
  moreover have "hd (?pd @ ds @ F) = hd (?pd @ free)" using free by simp
  ultimately show ?thesis
    unfolding dsF [symmetric] using ring ne by (simp add: tx_ring_def ring_bds_def tx_link_def)
qed

lemma tx_built_reads:
  assumes ring: "tx_ring x free' (pend @ [(pb, ds)])" and c: "c \<noteq> []" "length ds = length c" and built: "tx_built pa pb c ds ram R"
    and same: "\<And>a. bd_bufptr (tx_ram x a) = bd_bufptr (R a) \<and> bd_bufoff_len (tx_ram x a) = bd_bufoff_len (R a)"
  shows "bd_packet (length c) (tx_ram x) (hd ds) = Some (map (\<lambda>q. (pa q, ucast (p_len q))) c)"
proof (rule bd_packet_ok)
  have ds: "ds \<noteq> []" using c by auto
  show "bd_linked (bd_nxt (tx_ram x)) ds 0"
    using ring ds by (auto simp: tx_ring_def ring_bds_def bd_linked_append split: if_splits)
  show "bd_flag EMAC_BUF_DESC_EOP (tx_ram x) (last ds)" "\<forall>d \<in> set (butlast ds). \<not> bd_flag EMAC_BUF_DESC_EOP (tx_ram x) d"
    using ring by (simp_all add: tx_ring_def packet_bds_def)
  fix i assume "i < length c"
  then show "bd_bufptr (tx_ram x (ds ! i)) = hdkif_swizzle_data (pa (c ! i)) \<and> bd_bufoff_len (tx_ram x (ds ! i)) = hdkif_swizzle_data (ucast (p_len (c ! i)))"
    using built same by (simp add: tx_built_def)
qed (use c in simp_all)

lemma hdkif_transmit_ok:
  assumes ring: "tx_ring e free pend" and c: "pbuf_store e pb = c" "c \<noteq> []" "length c < length free"
    and hw: "dma_keeps dma"
    and fin: "tx_active_tail e \<noteq> 0 \<longrightarrow> dma_finishes dma e (set (drop (length c) free) \<union> set (concat (map snd pend))) pend"
  shows "\<exists>e'. hdkif_transmit pa dma pb e = Inr e'
     \<and> tx_ring e' (drop (length c) free) (pend @ [(pb, take (length c) free)])
     \<and> emac_regs e' 0xFCF78600 = hd free
     \<and> bd_packet (length c) (tx_ram e') (hd free) = Some (map (\<lambda>q. (pa q, ucast (p_len q))) c)
     \<and> bd_pktlen (tx_ram e') (hd free) = ucast (tot_len (hd c))
     \<and> (\<forall>(p, ds) \<in> set pend. \<not> bd_flag EMAC_BUF_DESC_OWNER (tx_ram e') (hd ds))
     \<and> pbuf_store e' = pbuf_store e \<and> emac_alloc e' = emac_alloc e"
proof -
  let ?k = "length c" and ?ds = "take (length c) free"
  obtain z where lk: "bd_linked (bd_nxt (tx_ram e)) free z"
    using ring by (auto simp: tx_ring_def ring_bds_def bd_linked_append split: if_splits)
  have fr: "distinct free" "0 \<notin> set free" "tx_free_head e = hd free" "hd free \<noteq> 0" "hd ?ds = hd free" "?ds \<noteq> []" "drop ?k free \<noteq> []" "length ?ds = length c"
    using ring c by (auto simp: tx_ring_def ring_bds_def) (metis list.set_sel(1))
  have fl: "\<forall>d \<in> set ?ds. \<not> bd_flag EMAC_BUF_DESC_SOP (tx_ram e) d \<and> \<not> bd_flag EMAC_BUF_DESC_EOP (tx_ram e) d"
    using ring by (auto simp: tx_ring_def dest: in_set_takeD)
  from tx_build_ok [OF lk fr(1,2) c(2) less_imp_le [OF c(3)] fl, of pa pb] obtain r' R where fill:
    "fill_tx_bds pa pb c (hd free) (hd free) ((tx_ram e)(hd free := (tx_ram e (hd free))\<lparr>bd_flags_pktlen :=
            hdkif_swizzle_data (ucast (tot_len (hd c)) OR (EMAC_BUF_DESC_SOP OR EMAC_BUF_DESC_OWNER))\<rparr>))
        = Inr (hd (drop ?k free), last ?ds, r')"
    and R: "R = r'(last ?ds := (r' (last ?ds))\<lparr>bd_next := 0, bd_flags_pktlen := bd_flags_pktlen (r' (last ?ds)) OR hdkif_swizzle_data EMAC_BUF_DESC_EOP\<rparr>)"
    and built: "tx_built pa pb c ?ds (tx_ram e) R"
    using fr(7) by auto
  let ?e1 = "e\<lparr>tx_ram := R, tx_free_head := hd (drop ?k free)\<rparr>"
  have D: "\<forall>a \<in> set (drop ?k free) \<union> set (concat (map snd pend)). tx_ram ?e1 a = tx_ram e a"
  proof
    fix a assume "a \<in> set (drop ?k free) \<union> set (concat (map snd pend))"
    moreover have "distinct (?ds @ drop ?k free @ concat (map snd pend))"
      using ring unfolding tx_ring_def ring_bds_def by (metis append.assoc append_take_drop_id)
    ultimately have "a \<notin> set ?ds" unfolding distinct_append [of ?ds] by (auto simp del: set_take_disj_set_drop_if_distinct)
    then show "tx_ram ?e1 a = tx_ram e a" using built by (simp add: tx_built_def)
  qed
  have "\<exists>n. tx_queue_packet dma (hd free) ?e1 = Inr (start_tx (hd free) (tx_link (hd free) ((dma ^^ n) ?e1)))
          \<and> (tx_active_tail ?e1 \<noteq> 0 \<longrightarrow> tx_hdp_clear ((dma ^^ n) ?e1))"
    by (rule tx_queue_packet_ok [OF hw]) (use fin D in \<open>simp_all add: dma_finishes_def\<close>)
  then obtain n where q: "tx_queue_packet dma (hd free) ?e1 = Inr (start_tx (hd free) (tx_link (hd free) ((dma ^^ n) ?e1)))"
    and clr: "tx_active_tail e \<noteq> 0 \<Longrightarrow> tx_hdp_clear ((dma ^^ n) ?e1)" by auto
  let ?e' = "(start_tx (hd free) (tx_link (hd free) ((dma ^^ n) ?e1)))\<lparr>tx_active_tail := last ?ds\<rparr>"
  let ?X = "(tx_link (hd free) ?e1)\<lparr>tx_active_tail := last ?ds\<rparr>"
  have step: "tx_hw_step ?X ?e'" by (intro tx_hw_step_tail tx_link_hw dma_keeps_steps hw)
  have "hdkif_transmit pa dma pb e = Inr ?e'"
    using c(1,2) fr(3,4) fill q by (simp add: hdkif_transmit_def Let_def R)
  moreover have ring': "tx_ring ?X (drop ?k free) (pend @ [(pb, ?ds)])" by (rule tx_ring_built [OF ring c(2,3) built])
  then have "tx_ring ?e' (drop ?k free) (pend @ [(pb, ?ds)])" by (rule tx_ring_hw [OF step])
  moreover have "bd_packet ?k (tx_ram ?X) (hd ?ds) = Some (map (\<lambda>q. (pa q, ucast (p_len q))) c)"
    by (rule tx_built_reads [OF ring' c(2) fr(8) built]) (simp add: tx_link_def)
  then have "bd_packet ?k (tx_ram ?e') (hd free) = Some (map (\<lambda>q. (pa q, ucast (p_len q))) c)" using bd_packet_hw [OF step] fr(5) by simp
  moreover have "bd_pktlen (tx_ram ?X) (hd free) = bd_pktlen R (hd free)" by (simp add: tx_link_def bd_pktlen_def)
  then have "bd_pktlen (tx_ram ?e') (hd free) = bd_pktlen R (hd free)" using step by (simp add: tx_hw_step_def)
  then have "bd_pktlen (tx_ram ?e') (hd free) = ucast (tot_len (hd c))"
    using built fr(5) by (simp add: tx_built_def)
  moreover have "\<forall>(p, ds) \<in> set pend. \<not> bd_flag EMAC_BUF_DESC_OWNER (tx_ram ?e') (hd ds)"
  proof (cases "tx_active_tail e = 0")
    case False
    then have "\<forall>(p, ds) \<in> set pend. \<not> bd_flag EMAC_BUF_DESC_OWNER (tx_ram ((dma ^^ n) ?e1)) (hd ds)"
      using fin clr D unfolding dma_finishes_def by simp
    then show ?thesis by (simp add: tx_link_def bd_flag_upd_next)
  qed (use ring in \<open>simp add: tx_ring_def\<close>)
  moreover have "pbuf_store ?e' = pbuf_store e" "emac_alloc ?e' = emac_alloc e" using step by (simp_all add: tx_hw_step_def tx_link_def)
  moreover have "emac_regs ?e' 0xFCF78600 = hd free" by simp
  ultimately show ?thesis by blast
qed

section \<open>Sending a packet\<close>

lemma hdkif_output_ok:
  assumes "tx_ring e free pend" "pbuf_store e pb = p # ps" "p_ref p \<noteq> 255" "Suc (length ps) < length free"
    and "dma_keeps dma"
    and "tx_active_tail e \<noteq> 0 \<longrightarrow> dma_finishes dma e (set (drop (Suc (length ps)) free) \<union> set (concat (map snd pend))) pend"
  shows "\<exists>e' p'. hdkif_output pa dma pb e = Inr (ERR_OK, e')
     \<and> p' = hd (pad_packet (p # ps))\<lparr>p_ref := p_ref p + 1\<rparr>
     \<and> tx_ring e' (drop (Suc (length ps)) free) (pend @ [(pb, take (Suc (length ps)) free)])
     \<and> emac_regs e' 0xFCF78600 = hd free
     \<and> bd_packet (Suc (length ps)) (tx_ram e') (hd free) = Some (map (\<lambda>q. (pa q, ucast (p_len q))) (p' # ps))
     \<and> bd_pktlen (tx_ram e') (hd free) = ucast (max 60 (tot_len p))
     \<and> (\<forall>(q, ds) \<in> set pend. \<not> bd_flag EMAC_BUF_DESC_OWNER (tx_ram e') (hd ds))
     \<and> pbuf_store e' = (pbuf_store e)(pb := p' # ps) \<and> emac_alloc e' = emac_alloc e"
proof -
  obtain p1 where p1: "pad_packet (p # ps) = p1 # ps" "p_ref p1 = p_ref p" "tot_len p1 = max 60 (tot_len p)"
    by (cases "tot_len p < 60") (auto simp: pad_packet_def MIN_PKT_LEN_def)
  have "p_ref p + 1 \<noteq> 0"
  proof
    assume "p_ref p + 1 = 0"
    then have "p_ref p = - 1" by (simp add: eq_neg_iff_add_eq_0)
    then show False using assms(3) by simp
  qed
  then have r: "pbuf_ref (pad_packet (p # ps)) = Inr (p1\<lparr>p_ref := p_ref p + 1\<rparr> # ps)" by (simp add: p1 pbuf_ref_def)
  let ?c = "p1\<lparr>p_ref := p_ref p + 1\<rparr> # ps"
  let ?e = "e\<lparr>pbuf_store := (pbuf_store e)(pb := ?c)\<rparr>"
  have "tx_ring ?e free pend" using assms(1) by (simp add: tx_ring_def)
  moreover have "tx_active_tail ?e \<noteq> 0 \<longrightarrow> dma_finishes dma ?e (set (drop (length ?c) free) \<union> set (concat (map snd pend))) pend"
    using assms(6) by (simp add: dma_finishes_def)
  ultimately show ?thesis
    using hdkif_transmit_ok [of ?e free pend pb ?c dma pa] assms(2,4,5) r
    by (auto simp: hdkif_output_def p1)
qed

text \<open>
  C8: With enough free descriptors \<open>hdkif_output\<close> hands the packet to the engine: the transmit ring stays
  well formed with the packet as its newest entry, the head descriptor pointer names the first
  descriptor of the packet, and following the descriptors gives exactly the payload addresses and
  lengths of the (padded) chain, with its total length in the first one. Every packet queued before has
  left the engine, and the driver holds one more reference to the packet.
\<close>

theorem hdkif_output_queues_packet:
  assumes "tx_ring e free pend" "pbuf_store e pb = p # ps" "p_ref p \<noteq> 255" "Suc (length ps) < length free"
    and "dma_keeps dma"
    and "tx_active_tail e \<noteq> 0 \<longrightarrow> dma_finishes dma e (set (drop (Suc (length ps)) free) \<union> set (concat (map snd pend))) pend"
  shows "\<exists>e' p'. hdkif_output pa dma pb e = Inr (ERR_OK, e')
     \<and> p' = hd (pad_packet (p # ps))\<lparr>p_ref := p_ref p + 1\<rparr>
     \<and> tx_ring e' (drop (Suc (length ps)) free) (pend @ [(pb, take (Suc (length ps)) free)])
     \<and> emac_regs e' 0xFCF78600 = hd free
     \<and> bd_packet (Suc (length ps)) (tx_ram e') (hd free) = Some (map (\<lambda>q. (pa q, ucast (p_len q))) (p' # ps))
     \<and> bd_pktlen (tx_ram e') (hd free) = ucast (max 60 (tot_len p))
     \<and> (\<forall>(q, ds) \<in> set pend. \<not> bd_flag EMAC_BUF_DESC_OWNER (tx_ram e') (hd ds))
     \<and> pbuf_store e' = (pbuf_store e)(pb := p' # ps) \<and> emac_alloc e' = emac_alloc e"
  using hdkif_output_ok [OF assms] .

section \<open>Reclaiming packets\<close>

text \<open>
  \<open>dma_releases\<close>: the engine gives up a packet it was handed, whatever the driver does to descriptors
  of other packets. \<open>release_all\<close> is the effect of freeing a list of packets one after the other.
\<close>

definition dma_releases :: "(hdkif \<Rightarrow> hdkif) \<Rightarrow> hdkif \<Rightarrow> u32 list \<Rightarrow> bool" where
  "dma_releases dma e ds \<longleftrightarrow>
     (\<forall>e'. emac_regs e' 0xFCF78600 = emac_regs e 0xFCF78600 \<and> (\<forall>a \<in> set ds. tx_ram e' a = tx_ram e a) \<longrightarrow>
        (\<exists>n. \<not> bd_flag EMAC_BUF_DESC_OWNER (tx_ram ((dma ^^ n) e')) (hd ds)))"

fun release_all :: "nat list \<Rightarrow> (nat \<Rightarrow> chain) \<Rightarrow> alloc_state \<Rightarrow> ((nat \<Rightarrow> chain) \<times> alloc_state) result" where
  "release_all [] st al = Inr (st, al)"
| "release_all (pb # pbs) st al =
     (case pbuf_free (st pb) al of
        Inl x \<Rightarrow> Inl x
      | Inr (cnt, rest, al') \<Rightarrow> release_all pbs (st(pb := rest)) al')"

lemma find_eop_packet:
  "bd_linked (bd_nxt ram) ds z \<Longrightarrow> ds \<noteq> [] \<Longrightarrow> bd_flag EMAC_BUF_DESC_EOP ram (last ds) \<Longrightarrow>
    (\<forall>d \<in> set (butlast ds). \<not> bd_flag EMAC_BUF_DESC_EOP ram d) \<Longrightarrow> find_eop ram (hd ds) = Some (last ds)"
proof (induction ds)
  case (Cons d ds)
  show ?case
  proof (cases "ds = []")
    case False
    then have "find_eop ram (hd ds) = Some (last ds)" using Cons by simp
    then show ?thesis using Cons.prems False by (subst find_eop.simps) (simp add: bd_nxt_def)
  qed (use Cons.prems in \<open>subst find_eop.simps, simp\<close>)
qed simp

lemma clear_flag_simps:
  "bd_next (clear_flag fl a ram x) = bd_next (ram x)" "bd_pbuf (clear_flag fl a ram x) = bd_pbuf (ram x)"
  "x \<noteq> a \<Longrightarrow> clear_flag fl a ram x = ram x"
  by (simp_all add: clear_flag_def)

lemma bit_desc_flag: "bit EMAC_BUF_DESC_SOP 31" "\<not> bit EMAC_BUF_DESC_SOP 30" "bit EMAC_BUF_DESC_EOP 30" "\<not> bit EMAC_BUF_DESC_EOP 31"
  unfolding desc_flag_bits by (auto simp: bit_simps)

lemma bit_clear_flag:
  "n < 32 \<Longrightarrow> bit (hdkif_swizzle_data (bd_flags_pktlen (clear_flag fl a ram x))) n
     \<longleftrightarrow> bit (hdkif_swizzle_data (bd_flags_pktlen (ram x))) n \<and> (x = a \<longrightarrow> \<not> bit fl n)"
  by (simp add: clear_flag_def swizzle_and bit_simps)

lemma bd_flag_clear:
  "bd_flag EMAC_BUF_DESC_SOP (clear_flag EMAC_BUF_DESC_EOP a ram) x = bd_flag EMAC_BUF_DESC_SOP ram x"
  "bd_flag EMAC_BUF_DESC_EOP (clear_flag EMAC_BUF_DESC_EOP a ram) x \<longleftrightarrow> x \<noteq> a \<and> bd_flag EMAC_BUF_DESC_EOP ram x"
  "bd_flag EMAC_BUF_DESC_SOP (clear_flag EMAC_BUF_DESC_SOP a ram) x \<longleftrightarrow> x \<noteq> a \<and> bd_flag EMAC_BUF_DESC_SOP ram x"
  "bd_flag EMAC_BUF_DESC_EOP (clear_flag EMAC_BUF_DESC_SOP a ram) x = bd_flag EMAC_BUF_DESC_EOP ram x"
  by (auto simp: bd_flag_bits bit_clear_flag bit_desc_flag)

lemma tx_complete_ok:
  assumes ring: "tx_ring e free ((pb, ds) # pend)"
    and free: "pbuf_free (pbuf_store e pb) (emac_alloc e) = Inr (cnt, rest, al)"
  shows "\<exists>e'. tx_complete (last ds) e = Inr e' \<and> tx_ring e' (free @ ds) pend
     \<and> pbuf_store e' = (pbuf_store e)(pb := rest) \<and> emac_alloc e' = al
     \<and> emac_regs e' = (emac_regs e)(0xFCF78640 := last ds) \<and> (\<forall>a. a \<notin> set ds \<longrightarrow> tx_ram e' a = tx_ram e a)"
proof -
  let ?ram = "clear_flag EMAC_BUF_DESC_EOP (last ds) (clear_flag EMAC_BUF_DESC_SOP (tx_next_bd_to_process e) (tx_ram e))"
  let ?pd = "concat (map snd pend)"
  have p: "ds \<noteq> []" "\<forall>d \<in> set (tl ds). \<not> bd_flag EMAC_BUF_DESC_SOP (tx_ram e) d"
    "\<forall>d \<in> set (butlast ds). \<not> bd_flag EMAC_BUF_DESC_EOP (tx_ram e) d" "bd_pbuf (tx_ram e (last ds)) = pb"
    using ring by (simp_all add: tx_ring_def packet_bds_def)
  have nb: "tx_next_bd_to_process e = hd ds" using ring p(1) by (simp add: tx_ring_def)
  have out: "?ram a = tx_ram e a" if "a \<notin> set ds" for a
  proof -
    have "a \<noteq> hd ds" "a \<noteq> last ds" using that p(1) by auto
    then show ?thesis by (simp add: nb clear_flag_simps)
  qed
  have nx: "bd_nxt ?ram = bd_nxt (tx_ram e)" by (simp add: bd_nxt_def fun_eq_iff clear_flag_simps)
  have lk: "bd_linked (bd_nxt (tx_ram e)) (free @ ds @ ?pd) 0" "tx_active_tail e \<noteq> 0" "tx_active_tail e = last (free @ ds @ ?pd)"
    using ring by (auto simp: tx_ring_def ring_bds_def split: if_splits)
  then have nl: "bd_nxt (tx_ram e) (last ds) = hd (?pd @ [0])"
    using p(1) bd_linked_last [of ds] by (simp add: bd_linked_append)
  have dis: "distinct (free @ ds @ ?pd)" "0 \<notin> set (free @ ds @ ?pd)" "tx_free_head e = hd free" "free \<noteq> []"
    using ring by (simp_all add: tx_ring_def ring_bds_def)
  have nxt: "(if bd_next (?ram (last ds)) = 0 then tx_free_head e else hdkif_swizzle_data (bd_next (?ram (last ds)))) = hd (?pd @ free @ ds)"
  proof (cases "?pd = []")
    case True
    show ?thesis using nl dis unfolding True by (simp add: bd_nxt_def clear_flag_simps)
  next
    case False
    then have "hd (?pd @ [0]) \<noteq> 0" using dis(2) by (metis UnCI hd_append2 list.set_sel(1) set_append)
    then show ?thesis using nl False by (auto simp: bd_nxt_def clear_flag_simps)
  qed
  let ?e' = "e\<lparr>tx_ram := ?ram, tx_next_bd_to_process := hd (?pd @ free @ ds),
               emac_regs := (emac_regs e)(0xFCF78640 := last ds), pbuf_store := (pbuf_store e)(pb := rest), emac_alloc := al\<rparr>"
  have "tx_complete (last ds) e = Inr ?e'"
    using free p(4) nxt by (simp add: tx_complete_def Let_def clear_flag_simps EMACTxCPWrite_def EMAC_0_BASE_def EMAC_TXCP_def)
  moreover have "\<forall>d \<in> set (free @ ds). \<not> bd_flag EMAC_BUF_DESC_SOP ?ram d \<and> \<not> bd_flag EMAC_BUF_DESC_EOP ?ram d"
  proof
    fix d assume d: "d \<in> set (free @ ds)"
    have "d \<in> set ds \<Longrightarrow> d = hd ds \<or> d \<in> set (tl ds)" "d \<in> set ds \<Longrightarrow> d = last ds \<or> d \<in> set (butlast ds)"
      by (cases ds; auto) (cases ds rule: rev_cases; auto)
    then show "\<not> bd_flag EMAC_BUF_DESC_SOP ?ram d \<and> \<not> bd_flag EMAC_BUF_DESC_EOP ?ram d"
      using d p ring unfolding bd_flag_clear nb by (auto simp: tx_ring_def)
  qed
  moreover have "list_all (packet_bds ?ram) pend"
  proof -
    have "packet_bds ?ram x = packet_bds (tx_ram e) x" if "x \<in> set pend" for x
    proof (rule packet_bds_cong)
      fix d assume "d \<in> set (snd x)"
      then have "d \<notin> set ds" using that dis(1) by auto
      then show "bd_flags_pktlen (?ram d) = bd_flags_pktlen (tx_ram e d) \<and> bd_pbuf (?ram d) = bd_pbuf (tx_ram e d)" by (simp add: out)
    qed
    then show ?thesis using ring by (simp add: tx_ring_def list_all_iff)
  qed
  ultimately show ?thesis
    using lk dis out by (intro exI [of _ ?e'] conjI) (simp_all add: tx_ring_def ring_bds_def nx)
qed

lemma tx_owner_poll:
  assumes "pend = [] \<Longrightarrow> dma_releases dma e ds" "pend \<noteq> [] \<Longrightarrow> \<not> bd_flag EMAC_BUF_DESC_OWNER (tx_ram e) (hd ds)"
  shows "\<exists>m. poll_until (\<lambda>e. \<not> bd_flag EMAC_BUF_DESC_OWNER (tx_ram e) (hd ds)) dma e = Some ((dma ^^ m) e) \<and> (pend \<noteq> [] \<longrightarrow> m = 0)"
proof (cases "pend = []")
  case True
  then obtain n where "\<not> bd_flag EMAC_BUF_DESC_OWNER (tx_ram ((dma ^^ n) e)) (hd ds)"
    using assms(1) by (auto simp: dma_releases_def)
  then show ?thesis using True poll_until_ends [of "\<lambda>e. \<not> bd_flag EMAC_BUF_DESC_OWNER (tx_ram e) (hd ds)" n dma e] by blast
next
  case False
  then show ?thesis using assms(2) by (intro exI [of _ 0]) (simp add: poll_until_ready)
qed

lemma tx_int_loop_empty: "tx_ring e free [] \<Longrightarrow> tx_int_loop dma e = Some (Inr e)"
proof -
  assume "tx_ring e free []"
  then have "\<not> bd_flag EMAC_BUF_DESC_SOP (tx_ram e) (tx_next_bd_to_process e)" by (simp add: tx_ring_def)
  then show ?thesis by (subst tx_int_loop.simps) simp
qed

lemma tx_int_loop_ok:
  assumes hw: "dma_keeps dma"
  shows "tx_ring e free pend \<Longrightarrow> (\<forall>(p, ds) \<in> set (butlast pend). \<not> bd_flag EMAC_BUF_DESC_OWNER (tx_ram e) (hd ds)) \<Longrightarrow>
    (pend \<noteq> [] \<longrightarrow> dma_releases dma e (snd (last pend))) \<Longrightarrow>
    release_all (map fst pend) (pbuf_store e) (emac_alloc e) = Inr (st, al) \<Longrightarrow>
    \<exists>e'. tx_int_loop dma e = Some (Inr e') \<and> tx_ring e' (free @ concat (map snd pend)) []
       \<and> pbuf_store e' = st \<and> emac_alloc e' = al \<and> (pend \<noteq> [] \<longrightarrow> emac_regs e' 0xFCF78640 = last (snd (last pend)))"
proof (induction pend arbitrary: e free)
  case Nil
  then show ?case using tx_int_loop_empty [OF Nil(1)] by simp
next
  case (Cons x pend)
  obtain pb ds where x: "x = (pb, ds)" by fastforce
  have p: "ds \<noteq> []" "bd_flag EMAC_BUF_DESC_SOP (tx_ram e) (hd ds)" "tx_next_bd_to_process e = hd ds"
    using Cons.prems(1) by (simp_all add: tx_ring_def x packet_bds_def)
  obtain m where m: "poll_until (\<lambda>e. \<not> bd_flag EMAC_BUF_DESC_OWNER (tx_ram e) (hd ds)) dma e = Some ((dma ^^ m) e)" "pend \<noteq> [] \<Longrightarrow> m = 0"
    using tx_owner_poll [of pend dma e ds] Cons.prems(2,3) by (cases "pend = []") (auto simp: x)
  let ?e1 = "(dma ^^ m) e"
  have hw1: "tx_hw_step e ?e1" using hw by (rule dma_keeps_steps)
  have ring1: "tx_ring ?e1 free ((pb, ds) # pend)" using tx_ring_hw [OF hw1] Cons.prems(1) by (simp add: x)
  then have "find_eop (tx_ram ?e1) (hd ds) = Some (last ds)"
    by (intro find_eop_packet [where z = "hd (concat (map snd pend) @ [0])"])
       (auto simp: tx_ring_def packet_bds_def ring_bds_def bd_linked_append split: if_splits)
  moreover have st: "pbuf_store ?e1 = pbuf_store e" "emac_alloc ?e1 = emac_alloc e" using hw1 by (simp_all add: tx_hw_step_def)
  moreover obtain cnt rest al' where fr: "pbuf_free (pbuf_store e pb) (emac_alloc e) = Inr (cnt, rest, al')"
      "release_all (map fst pend) ((pbuf_store e)(pb := rest)) al' = Inr (st, al)"
    using Cons.prems(4) by (auto simp: x split: sum.splits)
  ultimately obtain e2 where e2: "tx_complete (last ds) ?e1 = Inr e2" "tx_ring e2 (free @ ds) pend"
      "pbuf_store e2 = (pbuf_store e)(pb := rest)" "emac_alloc e2 = al'"
      "emac_regs e2 = (emac_regs ?e1)(0xFCF78640 := last ds)" "\<forall>a. a \<notin> set ds \<longrightarrow> tx_ram e2 a = tx_ram ?e1 a"
    using tx_complete_ok [OF ring1, of cnt rest al'] by auto
  have loop: "tx_int_loop dma e = tx_int_loop dma e2"
    using p m(1) \<open>find_eop (tx_ram ?e1) (hd ds) = Some (last ds)\<close> e2(1) by (subst tx_int_loop.simps) simp
  have dis: "a \<notin> set ds" if "y \<in> set pend" "a \<in> set (snd y)" for y a
    using ring1 that by (auto simp: tx_ring_def ring_bds_def)
  have "\<exists>e'. tx_int_loop dma e2 = Some (Inr e') \<and> tx_ring e' ((free @ ds) @ concat (map snd pend)) []
     \<and> pbuf_store e' = st \<and> emac_alloc e' = al \<and> (pend \<noteq> [] \<longrightarrow> emac_regs e' 0xFCF78640 = last (snd (last pend)))"
  proof (rule Cons.IH [OF e2(2)])
    show "\<forall>(p, ds) \<in> set (butlast pend). \<not> bd_flag EMAC_BUF_DESC_OWNER (tx_ram e2) (hd ds)"
    proof (clarify)
      fix q bs assume q: "(q, bs) \<in> set (butlast pend)" "bd_flag EMAC_BUF_DESC_OWNER (tx_ram e2) (hd bs)"
      then have "(q, bs) \<in> set pend" "pend \<noteq> []" by (auto dest: in_set_butlastD)
      moreover from this have "bs \<noteq> []" using ring1 by (auto simp: tx_ring_def list_all_iff packet_bds_def)
      ultimately have "hd bs \<notin> set ds" "m = 0" using dis [of "(q, bs)" "hd bs"] m(2) by simp_all
      then have "bd_flag EMAC_BUF_DESC_OWNER (tx_ram e) (hd bs)" using q(2) e2(6) by (simp add: bd_flag_def)
      then show False using Cons.prems(2) q(1) \<open>pend \<noteq> []\<close> by (auto simp: x)
    qed
    show "pend \<noteq> [] \<longrightarrow> dma_releases dma e2 (snd (last pend))"
      using Cons.prems(3) m(2) e2(5,6) dis [of "last pend"] by (auto simp: dma_releases_def)
  qed (simp only: e2(3,4) fr(2))
  then show ?case
  proof (elim exE conjE, goal_cases)
    case (1 e')
    have "emac_regs e' 0xFCF78640 = last ds" if "pend = []"
    proof -
      have "tx_int_loop dma e2 = Some (Inr e2)" using tx_int_loop_empty e2(2) that by blast
      then show ?thesis using 1(1) e2(5) by simp
    qed
    then show ?thesis using 1 loop by (intro exI [of _ e']) (auto simp: x)
  qed
qed

lemma hdkif_tx_inthandler_ok:
  assumes "tx_ring e free pend" "dma_keeps dma"
    and "\<forall>(p, ds) \<in> set (butlast pend). \<not> bd_flag EMAC_BUF_DESC_OWNER (tx_ram e) (hd ds)"
    and "pend \<noteq> [] \<longrightarrow> dma_releases dma e (snd (last pend))"
    and "release_all (map fst pend) (pbuf_store e) (emac_alloc e) = Inr (st, al)"
  shows "\<exists>e'. hdkif_tx_inthandler dma e = Inr e' \<and> tx_ring e' (free @ concat (map snd pend)) []
     \<and> pbuf_store e' = st \<and> emac_alloc e' = al
     \<and> (pend \<noteq> [] \<longrightarrow> emac_regs e' 0xFCF78640 = last (snd (last pend)))"
proof -
  from tx_int_loop_ok [OF assms(2,1,3,4,5)] obtain e' where e': "tx_int_loop dma e = Some (Inr e')"
    "tx_ring e' (free @ concat (map snd pend)) []" "pbuf_store e' = st" "emac_alloc e' = al"
    "pend \<noteq> [] \<longrightarrow> emac_regs e' 0xFCF78640 = last (snd (last pend))" by blast
  then show ?thesis
    by (auto simp: hdkif_tx_inthandler_def EMACCoreIntAck_def EMAC_0_BASE_def tx_ring_def)
qed

text \<open>
  C9: The transmit interrupt ends and reclaims every queued packet: its descriptors go back, unmarked, to
  the end of the free ones, the last of them is acknowledged to the engine, and the packets are freed
  in the order in which they were queued.
\<close>

theorem hdkif_tx_inthandler_reclaims:
  assumes "tx_ring e free pend" "dma_keeps dma"
    and "\<forall>(p, ds) \<in> set (butlast pend). \<not> bd_flag EMAC_BUF_DESC_OWNER (tx_ram e) (hd ds)"
    and "pend \<noteq> [] \<longrightarrow> dma_releases dma e (snd (last pend))"
    and "release_all (map fst pend) (pbuf_store e) (emac_alloc e) = Inr (st, al)"
  shows "\<exists>e'. hdkif_tx_inthandler dma e = Inr e' \<and> tx_ring e' (free @ concat (map snd pend)) []
     \<and> pbuf_store e' = st \<and> emac_alloc e' = al
     \<and> (pend \<noteq> [] \<longrightarrow> emac_regs e' 0xFCF78640 = last (snd (last pend)))"
  using hdkif_tx_inthandler_ok [OF assms] .

section \<open>Setting up the ring\<close>

fun bds_from :: "nat \<Rightarrow> u32 \<Rightarrow> u32 list" where
  "bds_from 0 a = []"
| "bds_from (Suc n) a = a # bds_from n (a + sizeof_bdp)"

lemma bds_from_map: "bds_from n a = map (\<lambda>i. a + of_nat (20 * i)) [0..<n]"
proof (induction n arbitrary: a)
  case (Suc n)
  have "map (\<lambda>i. a + of_nat (20 * i)) [0..<Suc n] = a # map (\<lambda>i. a + 20 + of_nat (20 * i)) [0..<n]"
    by (simp add: upt_conv_Cons map_upt_shift algebra_simps del: upt_Suc)
  then show ?case by (simp add: Suc sizeof_bdp_def del: upt_Suc)
qed simp

lemma unat_of_nat_u32: "x < 2 ^ 32 \<Longrightarrow> unat (of_nat x :: u32) = x"
  by (simp add: unat_of_nat)

lemma bds_from_ring:
  assumes "unat a + 20 * n < 2 ^ 32" "a \<noteq> 0"
  shows "distinct (bds_from n a)" "0 \<notin> set (bds_from n a)"
proof -
  have b: "20 * i < 2 ^ 32" "unat a + 20 * i < 2 ^ 32" if "i < n" for i using that assms(1) by linarith+
  show "distinct (bds_from n a)"
  proof -
    have "i = j" if "i < n" "j < n" "a + of_nat (20 * i) = a + of_nat (20 * j)" for i j
    proof -
      have "unat (of_nat (20 * i) :: u32) = unat (of_nat (20 * j) :: u32)" using that(3) by (simp only: add_left_cancel)
      then show ?thesis using b(1) [OF that(1)] b(1) [OF that(2)] by (simp only: unat_of_nat_u32)
    qed
    then show ?thesis unfolding bds_from_map by (simp add: distinct_map inj_on_def del: of_nat_mult)
  qed
  have "a + of_nat (20 * i) \<noteq> 0" if "i < n" for i
  proof -
    have "unat (of_nat (20 * i) :: u32) = 20 * i" using b(1) [OF that] by (rule unat_of_nat_u32)
    then have "unat (a + of_nat (20 * i)) = unat a + 20 * i" using b(2) [OF that] by (subst unat_add_lem [THEN iffD1]) simp_all
    moreover have "unat a > 0" using assms(2) by (simp add: unat_gt_0)
    ultimately show ?thesis by (metis add_gr_0 less_irrefl unat_0)
  qed
  then show "0 \<notin> set (bds_from n a)" unfolding bds_from_map by (auto simp del: of_nat_mult)
qed

lemma tx_ring_loop_ok:
  "distinct (bds_from n a) \<Longrightarrow> \<exists>ram'. tx_ring_loop n a l ram = (last (l # bds_from n a), ram')
     \<and> (\<forall>d \<in> set (bds_from n a). bd_flags_pktlen (ram' d) = 0 \<and> bd_nxt ram' d = d + sizeof_bdp)
     \<and> (\<forall>d. d \<notin> set (bds_from n a) \<longrightarrow> ram' d = ram d)"
proof (induction n arbitrary: a l ram)
  case (Suc n)
  let ?ram = "ram(a := (ram a)\<lparr>bd_next := hdkif_swizzle_data (a + sizeof_bdp), bd_flags_pktlen := 0\<rparr>)"
  obtain ram' where r: "tx_ring_loop n (a + sizeof_bdp) a ?ram = (last (a # bds_from n (a + sizeof_bdp)), ram')"
     "\<forall>d \<in> set (bds_from n (a + sizeof_bdp)). bd_flags_pktlen (ram' d) = 0 \<and> bd_nxt ram' d = d + sizeof_bdp"
     "\<forall>d. d \<notin> set (bds_from n (a + sizeof_bdp)) \<longrightarrow> ram' d = ?ram d"
    using Suc.IH [of "a + sizeof_bdp" a ?ram] Suc.prems by (simp del: fun_upd_apply last.simps) blast
  have "bd_flags_pktlen (ram' a) = 0 \<and> bd_nxt ram' a = a + sizeof_bdp" using r(3) Suc.prems by (simp add: bd_nxt_def)
  then show ?case using r by (intro exI [of _ ram']) simp
qed simp

lemma bds_from_linked:
  "(\<forall>d \<in> set (bds_from n a). nx d = d + sizeof_bdp) \<Longrightarrow> n > 0 \<Longrightarrow> \<exists>z. bd_linked nx (bds_from n a) z"
proof (induction n arbitrary: a)
  case (Suc n)
  show ?case
  proof (cases n)
    case (Suc m)
    then obtain z where "bd_linked nx (bds_from n (a + sizeof_bdp)) z" using Suc.IH [of "a + sizeof_bdp"] Suc.prems by auto
    moreover have "hd (bds_from n (a + sizeof_bdp) @ [z]) = a + sizeof_bdp" by (simp add: Suc)
    ultimately show ?thesis using Suc.prems by (intro exI [of _ z]) simp
  qed simp
qed simp

lemma tx_init_ring: "tx_ring (hdkif_tx_init e) (bds_from NUM_TX_BD EMAC_CTRL_RAM_0_BASE) []"
proof -
  let ?h = EMAC_CTRL_RAM_0_BASE and ?bs = "bds_from NUM_TX_BD EMAC_CTRL_RAM_0_BASE"
  have bs: "distinct ?bs" "0 \<notin> set ?bs" by (rule bds_from_ring; simp add: NUM_TX_BD_def EMAC_CTRL_RAM_0_BASE_def)+
  have ne: "?bs \<noteq> []" "hd ?bs = ?h" by (simp_all add: NUM_TX_BD_def numeral_eq_Suc)
  obtain ram' where r: "tx_ring_loop NUM_TX_BD ?h ?h (tx_ram e) = (last ?bs, ram')"
      "\<forall>d \<in> set ?bs. bd_flags_pktlen (ram' d) = 0 \<and> bd_nxt ram' d = d + sizeof_bdp"
    using tx_ring_loop_ok [OF bs(1), of ?h "tx_ram e"] ne by auto
  let ?R = "ram'(last ?bs := (ram' (last ?bs))\<lparr>bd_next := hdkif_swizzle_data ?h\<rparr>)"
  have "bd_nxt ?R = (bd_nxt ram')(last ?bs := ?h)" by (simp add: bd_nxt_def fun_eq_iff)
  moreover obtain z where "bd_linked (bd_nxt ram') ?bs z" using bds_from_linked [of NUM_TX_BD ?h "bd_nxt ram'"] r(2) by (auto simp: NUM_TX_BD_def)
  ultimately have "bd_linked (bd_nxt ?R) ?bs ?h" using bd_linked_upd_last [OF ne(1) bs(1)] by metis
  moreover have "\<not> bd_flag EMAC_BUF_DESC_SOP ?R d \<and> \<not> bd_flag EMAC_BUF_DESC_EOP ?R d" if "d \<in> set ?bs" for d
    using r(2) that by (auto simp: bd_flag_def desc_flags)
  ultimately show ?thesis using r(1) bs ne by (simp add: hdkif_tx_init_def tx_ring_def ring_bds_def Let_def)
qed

text \<open>
  The descriptors that \<open>hdkif_hw_init\<close> writes into the CPPI RAM form a well-formed transmit ring of 204
  free descriptors, 20 bytes apart.
\<close>

theorem hdkif_tx_init_ring:
  "tx_ring (hdkif_tx_init e) (map (\<lambda>i. 0xFC520000 + of_nat (20 * i)) [0..<204]) []"
  using tx_init_ring [of e] by (simp add: bds_from_map EMAC_CTRL_RAM_0_BASE_def NUM_TX_BD_def)

text \<open>
  A packet that is sent and then reclaimed by the interrupt leaves the ring rotated by its descriptors
  with all of them free again, and the caller's packet as it was but for the padding: the reference
  that \<open>hdkif_output\<close> took is given back and nothing is released behind the caller's back.
\<close>

theorem hdkif_output_then_interrupt:
  assumes "tx_ring e free []" "pbuf_store e pb = p # ps" "p_ref p \<noteq> 255" "p_ref p \<noteq> 0" "Suc (length ps) < length free"
    and "dma_keeps dma" "tx_active_tail e \<noteq> 0 \<longrightarrow> dma_finishes dma e (set (drop (Suc (length ps)) free)) []"
    and rel: "\<forall>e'. emac_regs e' 0xFCF78600 = hd free \<and> packet_bds (tx_ram e') (pb, take (Suc (length ps)) free) \<longrightarrow>
          dma_releases dma e' (take (Suc (length ps)) free)"
  shows "\<exists>e1 e2. hdkif_output pa dma pb e = Inr (ERR_OK, e1) \<and> hdkif_tx_inthandler dma e1 = Inr e2
     \<and> tx_ring e2 (drop (Suc (length ps)) free @ take (Suc (length ps)) free) []
     \<and> pbuf_store e2 = (pbuf_store e)(pb := pad_packet (p # ps)) \<and> emac_alloc e2 = emac_alloc e"
proof -
  let ?k = "Suc (length ps)" and ?p1 = "hd (pad_packet (p # ps))"
  have pad: "pad_packet (p # ps) = ?p1 # ps" "p_ref ?p1 = p_ref p" by (simp_all add: pad_packet_def)
  have "tx_active_tail e \<noteq> 0 \<longrightarrow> dma_finishes dma e (set (drop ?k free) \<union> set (concat (map snd []))) []" using assms(7) by simp
  from hdkif_output_ok [OF assms(1-3,5,6) this, of pa] obtain e1 where e1:
    "hdkif_output pa dma pb e = Inr (ERR_OK, e1)" "tx_ring e1 (drop ?k free) [(pb, take ?k free)]"
    "emac_regs e1 0xFCF78600 = hd free"
    "pbuf_store e1 = (pbuf_store e)(pb := ?p1\<lparr>p_ref := p_ref p + 1\<rparr> # ps)" "emac_alloc e1 = emac_alloc e" by auto
  have r: "p_ref p + 1 \<noteq> 0" "p_ref p + 1 - 1 \<noteq> 0"
    using assms(3,4) by (auto simp: eq_neg_iff_add_eq_0 [symmetric])
  have "?p1\<lparr>p_ref := p_ref p + 1, p_ref := p_ref p\<rparr> = ?p1" using pad(2) by simp
  then have "release_all (map fst [(pb, take ?k free)]) (pbuf_store e1) (emac_alloc e1)
      = Inr ((pbuf_store e)(pb := ?p1 # ps), emac_alloc e)"
    using r by (simp add: e1(4,5) pbuf_free_def)
  moreover have "dma_releases dma e1 (take ?k free)" using rel e1(2,3) by (simp add: tx_ring_def)
  ultimately show ?thesis
    using hdkif_tx_inthandler_ok [OF e1(2) assms(6), of "(pbuf_store e)(pb := ?p1 # ps)" "emac_alloc e"] e1(1) pad(1) by auto
qed

section \<open>A sample engine and driver state\<close>

text \<open>
  An engine that finishes everything at once, and a ring of three descriptors of which the last holds a
  packet in transmission.
\<close>

definition sample_dma :: "hdkif \<Rightarrow> hdkif" where
  "sample_dma e = e\<lparr>emac_regs := (emac_regs e)(0xFCF78600 := 0),
     tx_ram := \<lambda>a. (tx_ram e a)\<lparr>bd_flags_pktlen :=
        (bd_flags_pktlen (tx_ram e a) OR hdkif_swizzle_data EMAC_BUF_DESC_EOQ) AND hdkif_swizzle_data (NOT EMAC_BUF_DESC_OWNER)\<rparr>\<rparr>"

definition sample_chain :: chain where
  "sample_chain = [\<lparr>pbuf_addr = 0, pbuf_mem = replicate 64 0, payload = 0, tot_len = 62, p_len = 62,
                    type_internal = 0x80, p_flags = 0, p_ref = 2, if_idx = 0\<rparr>]"

definition sample_emac :: "memp_state \<Rightarrow> heap \<Rightarrow> hdkif" where
  "sample_emac m h =
     \<lparr>emac_regs = (\<lambda>_. 12),
      tx_ram = (\<lambda>a. \<lparr>bd_next = hdkif_swizzle_data (if a = 12 then 0 else a + 4), bd_bufptr = 0, bd_bufoff_len = 0,
                     bd_flags_pktlen = (if a = 12 then hdkif_swizzle_data (EMAC_BUF_DESC_SOP OR EMAC_BUF_DESC_EOP OR EMAC_BUF_DESC_OWNER) else 0),
                     bd_pbuf = 7\<rparr>),
      tx_free_head = 4, tx_active_tail = 12, tx_next_bd_to_process = 12,
      pbuf_store = (\<lambda>_. sample_chain), emac_alloc = \<lparr>al_memp = m, al_heap = h\<rparr>\<rparr>"

lemma bit_dma_flags:
  "n < 32 \<Longrightarrow> bit (hdkif_swizzle_data (bd_flags_pktlen (tx_ram (sample_dma e) a))) n
     \<longleftrightarrow> n \<noteq> 29 \<and> (n = 28 \<or> bit (hdkif_swizzle_data (bd_flags_pktlen (tx_ram e a))) n)"
proof -
  assume "n < 32"
  moreover have "bit EMAC_BUF_DESC_EOQ n \<longleftrightarrow> n = 28" "bit EMAC_BUF_DESC_OWNER n \<longleftrightarrow> n = 29"
    using \<open>n < 32\<close> by (simp_all only: desc_flag_bits bit_push_bit_iff bit_1_iff possible_bit_word) auto
  ultimately show ?thesis by (auto simp: sample_dma_def swizzle_or swizzle_and bit_simps)
qed

lemma sample_dma_owner: "\<not> bd_flag EMAC_BUF_DESC_OWNER (tx_ram (sample_dma e)) a"
  by (simp add: bd_flag_bits bit_dma_flags)

lemma sample_dma_keeps: "dma_keeps sample_dma"
proof -
  have "bd_pktlen (tx_ram (sample_dma e)) a = bd_pktlen (tx_ram e) a" for e a
  proof (rule bit_word_eqI)
    fix n assume "n < LENGTH(32)"
    moreover have "(0xFFFF :: u32) = mask 16" by (simp add: mask_eq_exp_minus_1)
    ultimately show "bit (bd_pktlen (tx_ram (sample_dma e)) a) n = bit (bd_pktlen (tx_ram e) a) n"
      by (auto simp: bd_pktlen_def bit_and_iff bit_dma_flags bit_mask_iff)
  qed
  moreover have "bd_flag EMAC_BUF_DESC_SOP (tx_ram (sample_dma e)) a = bd_flag EMAC_BUF_DESC_SOP (tx_ram e) a"
    "bd_flag EMAC_BUF_DESC_EOP (tx_ram (sample_dma e)) a = bd_flag EMAC_BUF_DESC_EOP (tx_ram e) a"
    "bd_flag EMAC_BUF_DESC_EOQ (tx_ram (sample_dma e)) a" for e a
    by (simp_all add: bd_flag_bits bit_dma_flags)
  ultimately show ?thesis
    unfolding dma_keeps_def tx_hw_step_def using sample_dma_owner by (simp add: sample_dma_def)
qed

lemma sample_dma_finishes: "emac_regs e 0xFCF78600 \<noteq> 0 \<Longrightarrow> dma_finishes sample_dma e D ps"
proof -
  assume r: "emac_regs e 0xFCF78600 \<noteq> 0"
  have q: "tx_eoq a (sample_dma x)" "tx_hdp_clear (sample_dma x)" for a x
    by (simp add: tx_eoq_flag bd_flag_bits bit_dma_flags) (simp add: tx_hdp_clear_def sample_dma_def)
  show ?thesis unfolding dma_finishes_def
  proof (intro allI impI conjI)
    fix e' :: hdkif assume e': "emac_regs e' = emac_regs e \<and> tx_active_tail e' = tx_active_tail e \<and> (\<forall>a \<in> D. tx_ram e' a = tx_ram e a)"
    show "\<exists>n. tx_eoq (tx_active_tail e) ((sample_dma ^^ n) e')" by (rule exI [of _ 1]) (simp add: q)
    fix m
    show "\<exists>n. tx_hdp_clear ((sample_dma ^^ (m + n)) e')" by (rule exI [of _ 1]) (simp add: q)
    assume "tx_hdp_clear ((sample_dma ^^ m) e')"
    then have "m \<noteq> 0" using r e' by (intro notI) (simp add: tx_hdp_clear_def)
    then obtain k where "m = Suc k" by (cases m) auto
    then show "\<forall>(pb, ds) \<in> set ps. \<not> bd_flag EMAC_BUF_DESC_OWNER (tx_ram ((sample_dma ^^ m) e')) (hd ds)"
      by (simp add: sample_dma_owner split: prod.split)
  qed
qed

lemma sample_dma_releases: "dma_releases sample_dma e ds"
  unfolding dma_releases_def by (intro allI impI exI [of _ 1]) (simp add: sample_dma_owner)

lemma sample_emac_ring: "tx_ring (sample_emac m h) [4, 8] [(7, [12])]"
  by (simp add: tx_ring_def ring_bds_def sample_emac_def bd_nxt_def packet_bds_def bd_flag_def desc_flags)

theorem hdkif_output_queues_packet_witness:
  "\<forall>m h. \<exists>e'. hdkif_output (\<lambda>q. 0x08001000) sample_dma 3 (sample_emac m h) = Inr (ERR_OK, e')
     \<and> tx_ring e' [8] [(7, [12]), (3, [4])] \<and> emac_regs e' 0xFCF78600 = 4
     \<and> bd_packet 1 (tx_ram e') 4 = Some [(0x08001000, 62)] \<and> \<not> bd_flag EMAC_BUF_DESC_OWNER (tx_ram e') 12"
proof (intro allI)
  fix m h
  let ?e = "sample_emac m h" and ?p = "hd sample_chain"
  have "dma_finishes sample_dma ?e D ps" for D ps by (rule sample_dma_finishes) (simp add: sample_emac_def)
  moreover have "pbuf_store ?e 3 = ?p # []" "p_ref ?p \<noteq> 255" "Suc (length ([] :: chain)) < length [4, 8 :: u32]"
    by (simp_all add: sample_emac_def sample_chain_def)
  ultimately have "\<exists>e' p'. hdkif_output (\<lambda>q. 0x08001000) sample_dma 3 ?e = Inr (ERR_OK, e')
     \<and> p' = hd (pad_packet (?p # []))\<lparr>p_ref := p_ref ?p + 1\<rparr>
     \<and> tx_ring e' (drop (Suc (length ([] :: chain))) [4, 8]) ([(7, [12])] @ [(3, take (Suc (length ([] :: chain))) [4, 8])])
     \<and> emac_regs e' 0xFCF78600 = hd [4, 8]
     \<and> bd_packet (Suc (length ([] :: chain))) (tx_ram e') (hd [4, 8]) = Some (map (\<lambda>q. (0x08001000, ucast (p_len q))) (p' # []))
     \<and> bd_pktlen (tx_ram e') (hd [4, 8]) = ucast (max 60 (tot_len ?p))
     \<and> (\<forall>(q, ds) \<in> set [(7 :: nat, [12])]. \<not> bd_flag EMAC_BUF_DESC_OWNER (tx_ram e') (hd ds))
     \<and> pbuf_store e' = (pbuf_store ?e)(3 := p' # []) \<and> emac_alloc e' = emac_alloc ?e"
    by (intro hdkif_output_queues_packet [OF sample_emac_ring _ _ _ sample_dma_keeps]) auto
  then show "\<exists>e'. hdkif_output (\<lambda>q. 0x08001000) sample_dma 3 ?e = Inr (ERR_OK, e')
     \<and> tx_ring e' [8] [(7, [12]), (3, [4])] \<and> emac_regs e' 0xFCF78600 = 4
     \<and> bd_packet 1 (tx_ram e') 4 = Some [(0x08001000, 62)] \<and> \<not> bd_flag EMAC_BUF_DESC_OWNER (tx_ram e') 12"
    by (auto simp: sample_chain_def pad_packet_def MIN_PKT_LEN_def simp del: bd_packet.simps)
qed

theorem hdkif_tx_inthandler_reclaims_witness:
  "\<forall>m h. \<exists>e'. hdkif_tx_inthandler sample_dma (sample_emac m h) = Inr e' \<and> tx_ring e' [4, 8, 12] []
     \<and> map p_ref (pbuf_store e' 7) = [1] \<and> emac_regs e' 0xFCF78640 = 12"
proof (intro allI)
  fix m h
  let ?e = "sample_emac m h" and ?p = "hd sample_chain"
  have "release_all (map fst [(7, [12 :: u32])]) (pbuf_store ?e) (emac_alloc ?e) = Inr ((pbuf_store ?e)(7 := [?p\<lparr>p_ref := 1\<rparr>]), emac_alloc ?e)"
    by (simp add: sample_emac_def sample_chain_def pbuf_free_def)
  from hdkif_tx_inthandler_reclaims [OF sample_emac_ring sample_dma_keeps _ _ this]
  show "\<exists>e'. hdkif_tx_inthandler sample_dma ?e = Inr e' \<and> tx_ring e' [4, 8, 12] []
     \<and> map p_ref (pbuf_store e' 7) = [1] \<and> emac_regs e' 0xFCF78640 = 12"
    by (auto simp: sample_dma_releases)
qed

theorem hdkif_output_then_interrupt_witness:
  "\<forall>m h. \<exists>e1 e2. hdkif_output (\<lambda>q. 0x08001000) sample_dma 3 (hdkif_tx_init (sample_emac m h)) = Inr (ERR_OK, e1)
     \<and> hdkif_tx_inthandler sample_dma e1 = Inr e2 \<and> pbuf_store e2 3 = sample_chain"
proof (intro allI)
  fix m h
  let ?e = "hdkif_tx_init (sample_emac m h)" and ?p = "hd sample_chain"
  have e: "pbuf_store ?e = (\<lambda>_. sample_chain)" "tx_active_tail ?e = 0" "emac_alloc ?e = \<lparr>al_memp = m, al_heap = h\<rparr>"
    by (simp_all add: hdkif_tx_init_def Let_def sample_emac_def split: prod.split)
  have p: "sample_chain = ?p # []" "p_ref ?p \<noteq> 255" "p_ref ?p \<noteq> 0" "pad_packet (?p # []) = sample_chain"
    by (simp_all add: sample_chain_def pad_packet_def MIN_PKT_LEN_def)
  have "length (bds_from NUM_TX_BD EMAC_CTRL_RAM_0_BASE) = 204" by (simp add: bds_from_map NUM_TX_BD_def)
  then have "Suc (length ([] :: chain)) < length (bds_from NUM_TX_BD EMAC_CTRL_RAM_0_BASE)" by simp
  from hdkif_output_then_interrupt [where e = ?e and pb = 3 and p = ?p and ps = "[]" and dma = sample_dma and pa = "\<lambda>q. 0x08001000",
      OF tx_init_ring _ p(2,3) this sample_dma_keeps]
  show "\<exists>e1 e2. hdkif_output (\<lambda>q. 0x08001000) sample_dma 3 ?e = Inr (ERR_OK, e1)
     \<and> hdkif_tx_inthandler sample_dma e1 = Inr e2 \<and> pbuf_store e2 3 = sample_chain"
    using e p(1,4) by (auto simp: sample_dma_releases)
qed

section \<open>Bringing the module up\<close>

lemma channel_offsets:
  assumes "c < 8"
  shows "EMAC_RXFREEBUFFER c \<in> {0x140..0x15C}" "EMAC_TXHDP c \<in> {0x600..0x67C}" "EMAC_RXHDP c \<in> {0x600..0x67C}"
    "EMAC_TXCP c \<in> {0x600..0x67C}" "EMAC_RXCP c \<in> {0x600..0x67C}"
proof -
  have "c \<in> {0, 1, 2, 3, 4, 5, 6, 7}" using assms by auto
  then show "EMAC_RXFREEBUFFER c \<in> {0x140..0x15C}" "EMAC_TXHDP c \<in> {0x600..0x67C}" "EMAC_RXHDP c \<in> {0x600..0x67C}"
    "EMAC_TXCP c \<in> {0x600..0x67C}" "EMAC_RXCP c \<in> {0x600..0x67C}"
    by (auto simp: EMAC_TXHDP_def EMAC_RXHDP_def EMAC_TXCP_def EMAC_RXCP_def EMAC_RXFREEBUFFER_def)
qed

lemma emac_clear_keeps:
  "\<forall>c \<in> set cs. c < 8 \<Longrightarrow> a \<notin> {0x140..0x15C} \<Longrightarrow> r (b + a) = 0 \<Longrightarrow> fold (emac_clear_channel b) cs r (b + a) = 0"
proof (induction cs arbitrary: r)
  case (Cons c cs)
  have "a \<noteq> EMAC_RXFREEBUFFER c" using Cons.prems(1,2) channel_offsets(1) [of c] by auto
  then have "emac_clear_channel b c r (b + a) = 0" using Cons.prems(3) by (simp add: emac_clear_channel_def)
  then show ?case using Cons by simp
qed simp

lemma emac_clear_clears:
  "\<forall>c \<in> set cs. c < 8 \<Longrightarrow> ch \<in> set cs \<Longrightarrow> a \<in> {EMAC_TXHDP ch, EMAC_RXHDP ch, EMAC_TXCP ch, EMAC_RXCP ch} \<Longrightarrow>
    fold (emac_clear_channel b) cs r (b + a) = 0"
proof (induction cs arbitrary: r)
  case (Cons c cs)
  have a: "a \<notin> {0x140..0x15C}"
  proof -
    have "a \<in> {0x600..0x67C}" using Cons.prems channel_offsets(2-5) [of ch] by auto
    then have "0x15C < a" using less_le_trans [of "0x15C" "0x600" a] by simp
    then show ?thesis by auto
  qed
  show ?case
  proof (cases "c = ch")
    case True
    have "a \<noteq> EMAC_RXFREEBUFFER ch" using a channel_offsets(1) [of ch] Cons.prems(1,2) by auto
    then have "emac_clear_channel b c r (b + a) = 0"
      using Cons.prems(3) unfolding emac_clear_channel_def True fun_upd_apply add_left_cancel by simp blast
    then show ?thesis using emac_clear_keeps [of cs a] a Cons.prems by simp
  qed (use Cons in auto)
qed simp

text \<open>
  Once the two reset bits clear themselves, \<open>EMACInit\<close> returns, with receiver and transmitter
  disabled, the channel interrupts masked, and the head descriptor and completion pointers of all eight
  channels cleared, as has to be before descriptors are queued.
\<close>

theorem EMACInit_quiet:
  assumes "\<forall>r. \<exists>n. (dev ^^ n) r (EMAC_CTRL_0_BASE + 0x4) AND 1 \<noteq> 1" "\<forall>r. \<exists>n. (dev ^^ n) r (EMAC_0_BASE + 0x174) AND 1 \<noteq> 1"
  shows "\<exists>r'. EMACInit dev EMAC_CTRL_0_BASE EMAC_0_BASE r = Some r'
     \<and> r' (EMAC_0_BASE + 0x4) = 0 \<and> r' (EMAC_0_BASE + 0x14) = 0
     \<and> r' (EMAC_0_BASE + 0x8C) = 0xFF \<and> r' (EMAC_0_BASE + 0xAC) = 0xFF
     \<and> (\<forall>ch < 8. r' (EMAC_0_BASE + EMAC_TXHDP ch) = 0 \<and> r' (EMAC_0_BASE + EMAC_RXHDP ch) = 0
          \<and> r' (EMAC_0_BASE + EMAC_TXCP ch) = 0 \<and> r' (EMAC_0_BASE + EMAC_RXCP ch) = 0)"
proof -
  have poll: "\<exists>s'. poll_until c dev s = Some s'" if "\<forall>r. \<exists>n. c ((dev ^^ n) r)" for c s
    using that poll_until_ends [of c _ dev s] by blast
  obtain r1 where r1: "poll_until (\<lambda>r. r (EMAC_CTRL_0_BASE + 0x4) AND 1 \<noteq> 1) dev (r(EMAC_CTRL_0_BASE + 0x4 := 1)) = Some r1"
    using poll [OF assms(1)] by blast
  obtain r2 where r2: "poll_until (\<lambda>r. r (EMAC_0_BASE + 0x174) AND 1 \<noteq> 1) dev (r1(EMAC_0_BASE + 0x174 := 1)) = Some r2"
    using poll [OF assms(2)] by blast
  let ?r3 = "r2(EMAC_0_BASE + 0x160 := 0, EMAC_0_BASE + 0x14 := 0, EMAC_0_BASE + 0x4 := 0)"
  obtain r4 where r4: "r4 = fold (emac_clear_channel EMAC_0_BASE) [0..<8] ?r3" by blast
  let ?r5 = "r4(EMAC_0_BASE + 0x8C := 0xFF, EMAC_0_BASE + 0xAC := 0xFF, EMAC_0_BASE + 0x1D8 := 0, EMAC_0_BASE + 0x1DC := 0, EMAC_0_BASE + 0x110 := 0)"
  have init: "EMACInit dev EMAC_CTRL_0_BASE EMAC_0_BASE r = Some ?r5"
    by (simp only: EMACInit_def r1 r2 r4 option.case Let_def)
  have en: "r4 (EMAC_0_BASE + 0x4) = 0" "r4 (EMAC_0_BASE + 0x14) = 0"
    unfolding r4 by (rule emac_clear_keeps; simp)+
  have hi: "?r5 (EMAC_0_BASE + a) = r4 (EMAC_0_BASE + a)" if "a \<in> {0x600..0x67C}" for a
    using that by auto
  have "?r5 (EMAC_0_BASE + a) = 0" if "ch < 8" "a \<in> {EMAC_TXHDP ch, EMAC_RXHDP ch, EMAC_TXCP ch, EMAC_RXCP ch}" for ch a
  proof -
    have "a \<in> {0x600..0x67C}" using channel_offsets(2-5) [OF that(1)] that(2) by auto
    then have "?r5 (EMAC_0_BASE + a) = r4 (EMAC_0_BASE + a)" by (rule hi)
    also have "\<dots> = 0" unfolding r4 by (rule emac_clear_clears [where ch = ch]) (use that in auto)
    finally show ?thesis .
  qed
  then show ?thesis using init en by (intro exI [of _ ?r5] conjI) (auto simp: EMAC_0_BASE_def)
qed

theorem EMACInit_quiet_witness:
  "\<exists>r'. EMACInit (\<lambda>r. r(0xFCF78804 := 0, 0xFCF78174 := 0)) EMAC_CTRL_0_BASE EMAC_0_BASE (\<lambda>_. 7) = Some r'
     \<and> r' 0xFCF78004 = 0 \<and> r' 0xFCF78600 = 0"
proof -
  let ?dev = "\<lambda>r :: hwregs. r(0xFCF78804 := 0, 0xFCF78174 := 0)"
  have "\<forall>r. \<exists>n. (?dev ^^ n) r (EMAC_CTRL_0_BASE + 0x4) AND 1 \<noteq> 1" "\<forall>r. \<exists>n. (?dev ^^ n) r (EMAC_0_BASE + 0x174) AND 1 \<noteq> 1"
    by (intro allI exI [of _ 1]; simp add: EMAC_CTRL_0_BASE_def EMAC_0_BASE_def)+
  from EMACInit_quiet [OF this, of "\<lambda>_. 7"] obtain r' where
    r': "EMACInit ?dev EMAC_CTRL_0_BASE EMAC_0_BASE (\<lambda>_. 7) = Some r'" "r' (EMAC_0_BASE + 0x4) = 0" "r' (EMAC_0_BASE + EMAC_TXHDP 0) = 0"
    by auto
  then show ?thesis by (simp add: EMAC_0_BASE_def EMAC_TXHDP_def)
qed

section \<open>The driver as a state machine\<close>

text \<open>
  The states of the driver under any interleaving of \<open>hdkif_output\<close>, the transmit interrupt, steps of the
  engine, and changes that the rest of the stack makes to packets and memory. \<open>free\<close> and \<open>pend\<close> record
  which descriptors are free and which packets are queued.
\<close>

inductive tx_reach :: "(pbuf \<Rightarrow> u32) \<Rightarrow> (hdkif \<Rightarrow> hdkif) \<Rightarrow> hdkif \<Rightarrow> u32 list \<Rightarrow> (nat \<times> u32 list) list \<Rightarrow> bool"
  for payload_addr dma where
  tx_reach_init: "tx_reach payload_addr dma (hdkif_tx_init e) (bds_from NUM_TX_BD EMAC_CTRL_RAM_0_BASE) []"
| tx_reach_output: "tx_reach payload_addr dma e free pend \<Longrightarrow> length (pbuf_store e pb) = k \<Longrightarrow> k < length free \<Longrightarrow>
    tx_active_tail e \<noteq> 0 \<longrightarrow> dma_finishes dma e (set (drop k free) \<union> set (concat (map snd pend))) pend \<Longrightarrow>
    hdkif_output payload_addr dma pb e = Inr (err, e') \<Longrightarrow>
    tx_reach payload_addr dma e' (drop k free) (pend @ [(pb, take k free)])"
| tx_reach_interrupt: "tx_reach payload_addr dma e free pend \<Longrightarrow>
    \<forall>(p, ds) \<in> set (butlast pend). \<not> bd_flag EMAC_BUF_DESC_OWNER (tx_ram e) (hd ds) \<Longrightarrow>
    pend \<noteq> [] \<longrightarrow> dma_releases dma e (snd (last pend)) \<Longrightarrow>
    release_all (map fst pend) (pbuf_store e) (emac_alloc e) = Inr (st, al) \<Longrightarrow>
    hdkif_tx_inthandler dma e = Inr e' \<Longrightarrow>
    tx_reach payload_addr dma e' (free @ concat (map snd pend)) []"
| tx_reach_dma: "tx_reach payload_addr dma e free pend \<Longrightarrow> tx_reach payload_addr dma (dma e) free pend"
| tx_reach_stack: "tx_reach payload_addr dma e free pend \<Longrightarrow>
    tx_reach payload_addr dma (e\<lparr>pbuf_store := st, emac_alloc := al\<rparr>) free pend"

lemma hdkif_output_returns:
  "hdkif_output pa dma pb e = Inr (err, e') \<Longrightarrow> \<exists>p ps. pbuf_store e pb = p # ps \<and> p_ref p \<noteq> 255"
  by (cases "pbuf_store e pb") (auto simp: hdkif_output_def pad_packet_def pbuf_ref_def split: if_splits)

lemma tx_reach_ring:
  assumes "tx_reach pa dma e free pend" "dma_keeps dma"
  shows "tx_ring e free pend \<and> set (ring_bds free pend) = set (bds_from NUM_TX_BD EMAC_CTRL_RAM_0_BASE)"
  using assms(1)
proof (induction rule: tx_reach.induct)
  case (tx_reach_init e)
  then show ?case using tx_init_ring by (simp add: ring_bds_def)
next
  case (tx_reach_output e free pend pb k err e')
  obtain p ps where c: "pbuf_store e pb = p # ps" "p_ref p \<noteq> 255" using hdkif_output_returns [OF tx_reach_output(5)] by blast
  then have k: "k = Suc (length ps)" using tx_reach_output(2) by simp
  have "tx_ring e' (drop k free) (pend @ [(pb, take k free)])"
    using hdkif_output_ok [of e free pend pb p ps dma pa] tx_reach_output assms(2) c unfolding k by auto
  moreover have "set (drop k free) \<union> set (take k free) = set free" by (metis append_take_drop_id set_append sup_commute)
  ultimately show ?case using tx_reach_output.IH by (auto simp: ring_bds_def)
next
  case (tx_reach_interrupt e free pend st al e')
  then show ?case
    using hdkif_tx_inthandler_ok [of e free pend dma st al] assms(2) by (auto simp: ring_bds_def)
next
  case (tx_reach_dma e free pend)
  then show ?case using tx_ring_hw [of e "dma e" free pend] assms(2) by (auto simp: dma_keeps_def)
next
  case (tx_reach_stack e free pend)
  have "tx_ring (e\<lparr>pbuf_store := st, emac_alloc := al\<rparr>) free pend = tx_ring e free pend" for st al by (simp add: tx_ring_def)
  then show ?case using tx_reach_stack by simp
qed



end
