(* ===== verification/Hdkif_Rx.thy ===== *)
theory Hdkif_Rx
  imports Hdkif Ip6_Receive
begin

text \<open>
  The receive side of lwip/ports/hdk/netif/hdkif.c: the receive descriptors that \<open>hdkif_hw_init\<close> sets up and the receive
  interrupt. The driver links pbufs in place, so that pbufs are kept in a store here, with their \<open>next\<close> pointers apart;
  the packet that goes to \<open>ethernet_input\<close> is the chain these pointers make. \<open>dma\<close> is what the hardware does between two
  rounds of the loop.
\<close>

section \<open>Definitions\<close>

record emac_rx_bdp =
  rbd_next :: u32
  rbd_bufptr :: u32
  rbd_bufoff_len :: u32
  rbd_flags_pktlen :: u32
  rbd_pbuf :: nat

text \<open>\<open>struct rxch\<close> with the descriptors, the registers, the pbufs and the stack above the driver.\<close>

record ('cb, 'n) rxif =
  rx_regs :: hwregs
  rx_ram :: "u32 \<Rightarrow> emac_rx_bdp"
  rx_free_head :: u32
  rx_active_head :: u32
  rx_active_tail :: u32
  freed_pbuf_len :: u32
  pb_at :: "nat \<Rightarrow> pbuf"
  pb_next :: "nat \<Rightarrow> nat"
  rx_up :: "('cb, 'n) ip6_state"

definition rbd_flag :: "u32 \<Rightarrow> emac_rx_bdp \<Rightarrow> bool" where
  "rbd_flag fl bd \<longleftrightarrow> hdkif_swizzle_data (rbd_flags_pktlen bd) AND fl \<noteq> 0"

definition rbd_len :: "emac_rx_bdp \<Rightarrow> u16" where
  "rbd_len bd = ucast (hdkif_swizzle_data (rbd_bufoff_len bd) AND 0xFFFF)"

definition rbd_pktlen :: "emac_rx_bdp \<Rightarrow> u16" where
  "rbd_pktlen bd = ucast (hdkif_swizzle_data (rbd_flags_pktlen bd) AND 0xFFFF)"

definition rbd_succ :: "emac_rx_bdp \<Rightarrow> u32" where
  "rbd_succ bd = hdkif_swizzle_data (rbd_next bd)"

text \<open>A chain that \<open>pbuf_alloc\<close> returned, put into the store.\<close>

fun store_chain :: "chain \<Rightarrow> (nat \<Rightarrow> pbuf) \<Rightarrow> (nat \<Rightarrow> nat) \<Rightarrow> (nat \<Rightarrow> pbuf) \<times> (nat \<Rightarrow> nat)" where
  "store_chain [] pb nx = (pb, nx)"
| "store_chain (q # qs) pb nx =
     store_chain qs (pb(pbuf_addr q := q)) (nx(pbuf_addr q := (case qs of [] \<Rightarrow> 0 | r # _ \<Rightarrow> pbuf_addr r)))"

definition put_chain :: "chain \<Rightarrow> ('cb, 'n, 'z) rxif_scheme \<Rightarrow> ('cb, 'n, 'z) rxif_scheme" where
  "put_chain c e = (let (pb, nx) = store_chain c (pb_at e) (pb_next e) in e\<lparr>pb_at := pb, pb_next := nx\<rparr>)"

text \<open>The chain that starts at a pbuf.\<close>

partial_function (option) chain_at :: "(nat \<Rightarrow> pbuf) \<Rightarrow> (nat \<Rightarrow> nat) \<Rightarrow> nat \<Rightarrow> chain option" where
  "chain_at pb nx a = (if a = 0 then Some [] else Option.bind (chain_at pb nx (nx a)) (\<lambda>c. Some (pb a # c)))"

subsection \<open>The receive interrupt\<close>

text \<open>
  The \<open>do\<close> loop over the descriptors of a packet: the last one, the one behind it, and the length of the buffers.
\<close>

partial_function (option) rx_collect ::
  "u16 \<Rightarrow> u32 \<Rightarrow> u32 \<Rightarrow> u32 \<Rightarrow> ('cb, 'n, 'z) rxif_scheme \<Rightarrow> (u32 \<times> u32 \<times> u32 \<times> ('cb, 'n, 'z) rxif_scheme) result option" where
  "rx_collect tot cur ex_len len_to_alloc e =
     (let bd = rx_ram e cur; a = rbd_pbuf bd; b = pb_at e a; nxt = rbd_succ bd;
          e1 = e\<lparr>pb_next := (if pb_next e a = 0 then (pb_next e)(a := rbd_pbuf (rx_ram e nxt)) else pb_next e),
                 pb_at := (pb_at e)(a := b\<lparr>p_len := rbd_len bd, tot_len := tot - ucast ex_len\<rparr>)\<rparr>
      in if cur = 0 \<or> a = 0 \<or> (pb_next e a = 0 \<and> nxt = 0) then Some (Inl NullDeref)
         else if rbd_flag EMAC_BUF_DESC_EOP bd then Some (Inr (cur, nxt, len_to_alloc + ucast (p_len b), e1))
         else rx_collect tot nxt (ex_len + ucast (rbd_len bd)) (len_to_alloc + ucast (p_len b)) e1)"

text \<open>The \<open>for\<close> loop that gives the new pbufs to the free descriptors: the next one, the last one, the pbufs left.\<close>

fun rx_refill ::
  "(pbuf \<Rightarrow> u32) \<Rightarrow> chain \<Rightarrow> u32 \<Rightarrow> u32 \<Rightarrow> ('cb, 'n, 'z) rxif_scheme \<Rightarrow> (u32 \<times> u32 \<times> chain \<times> ('cb, 'n, 'z) rxif_scheme) result" where
  "rx_refill payload_addr [] cur last_bd e = Inr (cur, last_bd, [], e)"
| "rx_refill payload_addr (q # qs) cur last_bd e =
     (if cur = rx_active_head e then Inr (cur, last_bd, q # qs, e)
      else if cur = 0 then Inl NullDeref
      else rx_refill payload_addr qs (rbd_succ (rx_ram e cur)) cur
             (e\<lparr>rx_ram := (rx_ram e)(cur := (rx_ram e cur)\<lparr>rbd_bufptr := hdkif_swizzle_data (payload_addr q),
                                        rbd_bufoff_len := hdkif_swizzle_data (ucast (p_len q) AND 0xFFFF),
                                        rbd_flags_pktlen := hdkif_swizzle_data EMAC_BUF_DESC_OWNER,
                                        rbd_pbuf := pbuf_addr q\<rparr>),
                freed_pbuf_len := freed_pbuf_len e - ucast (p_len q)\<rparr>))"

text \<open>Linking the refilled descriptors behind the active ones.\<close>

definition rx_append :: "u32 \<Rightarrow> u32 \<Rightarrow> ('cb, 'n, 'z) rxif_scheme \<Rightarrow> ('cb, 'n, 'z) rxif_scheme" where
  "rx_append cur last_bd e =
     (let tail = rx_active_tail e; head = rx_free_head e;
          ram1 = (rx_ram e)(last_bd := (rx_ram e last_bd)\<lparr>rbd_next := 0\<rparr>);
          ram2 = ram1(tail := (ram1 tail)\<lparr>rbd_next := hdkif_swizzle_data head\<rparr>)
      in e\<lparr>rx_ram := ram2,
           rx_regs := (if rbd_flag EMAC_BUF_DESC_EOQ (ram2 tail) then EMACRxHdrDescPtrWrite EMAC_0_BASE head 0 (rx_regs e) else rx_regs e),
           rx_free_head := cur, rx_active_tail := last_bd\<rparr>)"

definition put_alloc :: "alloc_state \<Rightarrow> ('cb, 'n, 'z) rxif_scheme \<Rightarrow> ('cb, 'n, 'z) rxif_scheme" where
  "put_alloc s e = e\<lparr>rx_up := (rx_up e)\<lparr>is_alloc := s\<rparr>\<rparr>"

definition rx_replace ::
  "(nat \<Rightarrow> bytes) \<Rightarrow> (pbuf \<Rightarrow> u32) \<Rightarrow> u32 \<Rightarrow> ('cb, 'n, 'z) rxif_scheme \<Rightarrow> (u32 \<times> ('cb, 'n, 'z) rxif_scheme) result" where
  "rx_replace uninit payload_addr last_bd e =
     (case pbuf_alloc uninit PBUF_RAW (ucast (freed_pbuf_len e)) PBUF_POOL (is_alloc (rx_up e)) of
        Inl x \<Rightarrow> Inl x
      | Inr ([], s) \<Rightarrow> Inr (last_bd, put_alloc s e)
      | Inr (q # qs, s) \<Rightarrow>
          (case rx_refill payload_addr (q # qs) (rx_free_head e) last_bd (put_chain (q # qs) (put_alloc s e)) of
             Inl x \<Rightarrow> Inl x
           | Inr (cur, lst, rest, e1) \<Rightarrow>
               (case (if rest = [] then Inr (is_alloc (rx_up e1))
                      else map_sum id (\<lambda>(cnt, r, s1). s1) (pbuf_free rest (is_alloc (rx_up e1)))) of
                  Inl x \<Rightarrow> Inl x
                | Inr s1 \<Rightarrow> Inr (lst, rx_append cur lst (put_alloc s1 e1)))))"

text \<open>The body of the loop for a packet that is complete.\<close>

definition rx_receive ::
  "(chain \<Rightarrow> ('cb, 'n) ip6_state \<Rightarrow> ('cb, 'n) ip6_state result) \<Rightarrow> (nat \<Rightarrow> bytes) \<Rightarrow> (pbuf \<Rightarrow> u32) \<Rightarrow> u32 \<Rightarrow>
   ('cb, 'n, 'z) rxif_scheme \<Rightarrow> (u32 \<times> ('cb, 'n, 'z) rxif_scheme) result" where
  "rx_receive input uninit payload_addr last_bd e =
     (let cur = rx_active_head e;
          e0 = e\<lparr>rx_free_head := (if rx_free_head e = 0 then cur else rx_free_head e)\<rparr>;
          q = rbd_pbuf (rx_ram e0 cur)
      in case rx_collect (rbd_pktlen (rx_ram e0 cur)) cur 0 0 e0 of
           None \<Rightarrow> Inl Hang
         | Some (Inl x) \<Rightarrow> Inl x
         | Some (Inr (processed, nxt, len_to_alloc, e1)) \<Rightarrow>
             (let e2 = e1\<lparr>pb_next := (pb_next e1)(rbd_pbuf (rx_ram e1 processed) := 0)\<rparr> in
              case chain_at (pb_at e2) (pb_next e2) q of
                None \<Rightarrow> Inl Hang
              | Some p \<Rightarrow>
                  (case input p (rx_up e2) of
                     Inl x \<Rightarrow> Inl x
                   | Inr st \<Rightarrow>
                       rx_replace uninit payload_addr last_bd
                         (e2\<lparr>rx_up := st, rx_regs := EMACRxCPWrite EMAC_0_BASE 0 processed (rx_regs e2), rx_active_head := nxt,
                             freed_pbuf_len := freed_pbuf_len e2 + len_to_alloc\<rparr>))))"

partial_function (option) rx_int_loop ::
  "(chain \<Rightarrow> ('cb, 'n) ip6_state \<Rightarrow> ('cb, 'n) ip6_state result) \<Rightarrow> (nat \<Rightarrow> bytes) \<Rightarrow> (pbuf \<Rightarrow> u32) \<Rightarrow>
   (('cb, 'n, 'z) rxif_scheme \<Rightarrow> ('cb, 'n, 'z) rxif_scheme) \<Rightarrow> u32 \<Rightarrow> ('cb, 'n, 'z) rxif_scheme \<Rightarrow> ('cb, 'n, 'z) rxif_scheme result option" where
  "rx_int_loop input uninit payload_addr dma last_bd e =
     (let e1 = dma e; bd = rx_ram e1 (rx_active_head e1) in
      if rx_active_head e1 = 0 then Some (Inl NullDeref)
      else if \<not> rbd_flag EMAC_BUF_DESC_SOP bd then Some (Inr e1)
      else if rbd_flag EMAC_BUF_DESC_OWNER bd then rx_int_loop input uninit payload_addr dma last_bd e1
      else
        (case rx_receive input uninit payload_addr last_bd e1 of
           Inl x \<Rightarrow> Some (Inl x)
         | Inr (last_bd', e2) \<Rightarrow> rx_int_loop input uninit payload_addr dma last_bd' e2))"

definition hdkif_rx_inthandler ::
  "(chain \<Rightarrow> ('cb, 'n) ip6_state \<Rightarrow> ('cb, 'n) ip6_state result) \<Rightarrow> (nat \<Rightarrow> bytes) \<Rightarrow> (pbuf \<Rightarrow> u32) \<Rightarrow>
   (('cb, 'n, 'z) rxif_scheme \<Rightarrow> ('cb, 'n, 'z) rxif_scheme) \<Rightarrow> ('cb, 'n, 'z) rxif_scheme \<Rightarrow> ('cb, 'n, 'z) rxif_scheme result" where
  "hdkif_rx_inthandler input uninit payload_addr dma e =
     (case rx_int_loop input uninit payload_addr dma (rx_active_tail e) e of
        None \<Rightarrow> Inl Hang
      | Some (Inl x) \<Rightarrow> Inl x
      | Some (Inr e1) \<Rightarrow> Inr (e1\<lparr>rx_regs := EMACCoreIntAck EMAC_0_BASE 2 (EMACCoreIntAck EMAC_0_BASE 1 (rx_regs e1))\<rparr>))"

subsection \<open>Set-up\<close>

definition MAX_RX_PBUF_ALLOC :: nat where "MAX_RX_PBUF_ALLOC = 10"
definition PBUF_LEN_MAX :: u16 where "PBUF_LEN_MAX = 1514"
definition NUM_RX_BD :: nat where "NUM_RX_BD = 203"

text \<open>The \<open>for\<close> loop over the pbufs of one allocation: the next descriptor and the last one written.\<close>

fun rx_fill_bds :: "(pbuf \<Rightarrow> u32) \<Rightarrow> chain \<Rightarrow> u32 \<Rightarrow> u32 \<Rightarrow> (u32 \<Rightarrow> emac_rx_bdp) \<Rightarrow> u32 \<times> u32 \<times> (u32 \<Rightarrow> emac_rx_bdp)" where
  "rx_fill_bds payload_addr [] cur lst ram = (cur, lst, ram)"
| "rx_fill_bds payload_addr (q # qs) cur lst ram =
     rx_fill_bds payload_addr qs (cur + sizeof_bdp) cur
       (ram(cur := \<lparr>rbd_next = hdkif_swizzle_data (cur + sizeof_bdp), rbd_bufptr = hdkif_swizzle_data (payload_addr q),
                    rbd_bufoff_len = hdkif_swizzle_data (ucast (p_len q)), rbd_flags_pktlen = hdkif_swizzle_data EMAC_BUF_DESC_OWNER,
                    rbd_pbuf = pbuf_addr q\<rparr>))"

fun rx_init_loop ::
  "(nat \<Rightarrow> bytes) \<Rightarrow> (pbuf \<Rightarrow> u32) \<Rightarrow> nat \<Rightarrow> nat \<Rightarrow> u32 \<Rightarrow> u32 \<Rightarrow> ('cb, 'n, 'z) rxif_scheme \<Rightarrow> (u32 \<times> ('cb, 'n, 'z) rxif_scheme) result" where
  "rx_init_loop uninit payload_addr 0 num_bd cur lst e = Inr (lst, e)"
| "rx_init_loop uninit payload_addr (Suc k) num_bd cur lst e =
     (case pbuf_alloc uninit PBUF_RAW PBUF_LEN_MAX PBUF_POOL (is_alloc (rx_up e)) of
        Inl x \<Rightarrow> Inl x
      | Inr ([], s) \<Rightarrow> Inr (lst, put_alloc s e)
      | Inr (q # qs, s) \<Rightarrow>
          if unat (pbuf_clen (q # qs)) \<le> num_bd
          then (case rx_fill_bds payload_addr (q # qs) cur lst (rx_ram e) of
                  (cur', lst', ram) \<Rightarrow>
                    rx_init_loop uninit payload_addr k (num_bd - length (q # qs)) cur' lst' ((put_chain (q # qs) (put_alloc s e))\<lparr>rx_ram := ram\<rparr>))
          else map_sum id (\<lambda>(cnt, r, s1). (lst, put_alloc s1 e)) (pbuf_free (q # qs) s))"

text \<open>\<open>hdkif_hw_init\<close> from the receive channel on to \<open>active_tail\<close>; \<open>curr_txbd\<close> is behind the transmit descriptors.\<close>

definition hdkif_rx_init :: "(nat \<Rightarrow> bytes) \<Rightarrow> (pbuf \<Rightarrow> u32) \<Rightarrow> ('cb, 'n, 'z) rxif_scheme \<Rightarrow> ('cb, 'n, 'z) rxif_scheme result" where
  "hdkif_rx_init uninit payload_addr e =
     (let curr_txbd = EMAC_CTRL_RAM_0_BASE + of_nat NUM_TX_BD * sizeof_bdp;
          h = curr_txbd + sizeof_bdp;
          e0 = e\<lparr>rx_active_head := h, rx_free_head := 0, freed_pbuf_len := 0\<rparr>
      in map_sum id (\<lambda>(lst, e1). e1\<lparr>rx_ram := (rx_ram e1)(lst := (rx_ram e1 lst)\<lparr>rbd_next := 0\<rparr>), rx_active_tail := lst\<rparr>)
           (rx_init_loop uninit payload_addr MAX_RX_PBUF_ALLOC NUM_RX_BD h h e0))"


section \<open>New receive buffers\<close>

definition new_buf :: "pbuf \<Rightarrow> bool" where
  "new_buf q \<longleftrightarrow> type_internal q = 0x82 \<and> p_ref q = 1 \<and> payload q = 0 \<and> length (pbuf_mem q) = 1400 \<and> 0 < unat (p_len q) \<and> unat (p_len q) \<le> 1400"

lemma pool_room_0: "pool_room 0 = 1400"
  by (simp add: pool_room_def PBUF_POOL_BUFSIZE_ALIGNED_def LWIP_MEM_ALIGN_SIZE_def MEM_ALIGNMENT_def)

lemma pbuf_pool_loop_fits:
  assumes "fresh_ok uninit" "memp_ok pools (al_memp s)" "0 < unat n" "unat n \<le> 1400 * k" "k \<le> card (free_elems (al_memp s) MEMP_PBUF_POOL)"
  shows "\<exists>c m. pbuf_pool_loop uninit p n 0 s = Inr (p @ c, s\<lparr>al_memp := m\<rparr>) \<and> memp_ok pools m \<and> c \<noteq> [] \<and> length c \<le> k \<and> chain_len c = unat n
    \<and> distinct (map pbuf_addr c) \<and> pbuf_addr ` set c \<subseteq> free_elems (al_memp s) MEMP_PBUF_POOL \<and> (\<forall>q \<in> set c. new_buf q)
    \<and> free_elems m = (free_elems (al_memp s))(MEMP_PBUF_POOL := free_elems (al_memp s) MEMP_PBUF_POOL - pbuf_addr ` set c)"
  using assms
proof (induction k arbitrary: n s p)
  case (Suc k)
  let ?F = "free_elems (al_memp s) MEMP_PBUF_POOL"
  have "?F \<noteq> {}" using Suc.prems(5) by auto
  from memp_malloc_some [OF Suc.prems(2) this] obtain x m where
    m: "memp_malloc MEMP_PBUF_POOL (al_memp s) = Inr (Some x, m)" "x \<in> ?F" "memp_ok pools m"
      "free_elems m = (free_elems (al_memp s))(MEMP_PBUF_POOL := ?F - {x})"
    by blast
  define b where "b = pbuf_init_alloced_pbuf x (uninit PBUF_POOL_BUFSIZE_ALIGNED) (LWIP_MEM_ALIGN_SIZE (unat (0 :: u16))) n (min n 1400) PBUF_POOL 0"
  let ?s = "s\<lparr>al_memp := m\<rparr>"
  have min: "unat (min n 1400) = min (unat n) 1400" by (simp add: min_def word_le_nat_alt)
  have b: "pbuf_addr b = x" "new_buf b" "unat (p_len b) = min (unat n) 1400"
    using Suc.prems(1,3) min by (simp_all add: b_def new_buf_def pbuf_init_alloced_pbuf_def fresh_ok_def PBUF_POOL_BUFSIZE_ALIGNED_def LWIP_MEM_ALIGN_SIZE_def MEM_ALIGNMENT_def)
  have eq: "pbuf_pool_loop uninit p n 0 s = (if n - min n 1400 = 0 then Inr (p @ [b], ?s) else pbuf_pool_loop uninit (p @ [b]) (n - min n 1400) 0 ?s)"
    by (subst pbuf_pool_loop.simps) (simp add: m(1) pool_room_0 Let_def b_def)
  have le: "min n 1400 \<le> n" by simp
  have rest: "unat (n - min n 1400) = unat n - min (unat n) 1400" using min unat_sub [OF le] by simp
  show ?case
  proof (cases "n - min n 1400 = 0")
    case True
    then have "unat n \<le> 1400" using rest by simp
    then show ?thesis
      using True m b by (intro exI [of _ "[b]"] exI [of _ m]) (simp add: eq)
  next
    case False
    then have pos: "0 < unat (n - min n 1400)" by (simp add: unat_gt_0)
    have big: "1400 < unat n" using pos rest by simp
    have card: "k \<le> card (free_elems (al_memp ?s) MEMP_PBUF_POOL)"
      using Suc.prems(5) m(2,4) by (simp add: card_Diff_singleton)
    have "unat (n - min n 1400) \<le> 1400 * k" using rest big Suc.prems(4) by simp
    have mok: "memp_ok pools (al_memp ?s)" using m(3) by simp
    have fs: "free_elems (al_memp ?s) MEMP_PBUF_POOL = ?F - {x}" using m(4) by simp
    from Suc.IH [OF Suc.prems(1) mok pos \<open>unat (n - min n 1400) \<le> 1400 * k\<close> card, of "p @ [b]", unfolded fs] obtain c m2 where
      c: "pbuf_pool_loop uninit (p @ [b]) (n - min n 1400) 0 ?s = Inr ((p @ [b]) @ c, ?s\<lparr>al_memp := m2\<rparr>)" "memp_ok pools m2" "length c \<le> k"
        "chain_len c = unat (n - min n 1400)" "distinct (map pbuf_addr c)" "pbuf_addr ` set c \<subseteq> ?F - {x}" "\<forall>q \<in> set c. new_buf q"
        "free_elems m2 = (free_elems (al_memp ?s))(MEMP_PBUF_POOL := ?F - {x} - pbuf_addr ` set c)"
      by (elim exE conjE)
    have "chain_len (b # c) = unat n" using c(4) b(3) rest big by simp
    moreover have F: "?F - {x} - pbuf_addr ` set c = ?F - pbuf_addr ` set (b # c)" using b(1) by auto
    have "free_elems m2 = (free_elems (al_memp s))(MEMP_PBUF_POOL := ?F - pbuf_addr ` set (b # c))"
      unfolding c(8) F using m(4) by simp
    moreover have "pbuf_pool_loop uninit p n 0 s = Inr (p @ (b # c), s\<lparr>al_memp := m2\<rparr>)" using False c(1) by (simp add: eq)
    ultimately show ?thesis
      using b c(2,3,5-7) m(2) by (intro exI [of _ "b # c"] exI [of _ m2]) auto
  qed
qed simp

lemma pbuf_alloc_pool:
  assumes "fresh_ok uninit" "memp_ok pools (al_memp s)" "0 < unat n" "unat n \<le> 1400 * k" "k \<le> card (free_elems (al_memp s) MEMP_PBUF_POOL)"
  shows "\<exists>c m. pbuf_alloc uninit PBUF_RAW n PBUF_POOL s = Inr (c, s\<lparr>al_memp := m\<rparr>) \<and> memp_ok pools m \<and> c \<noteq> [] \<and> length c \<le> k \<and> chain_len c = unat n
    \<and> distinct (map pbuf_addr c) \<and> pbuf_addr ` set c \<subseteq> free_elems (al_memp s) MEMP_PBUF_POOL \<and> (\<forall>q \<in> set c. new_buf q)
    \<and> free_elems m = (free_elems (al_memp s))(MEMP_PBUF_POOL := free_elems (al_memp s) MEMP_PBUF_POOL - pbuf_addr ` set c)"
  using pbuf_pool_loop_fits [OF assms, of "[]"] by (simp add: pbuf_alloc_def)


section \<open>Descriptor lists\<close>

abbreviation rx_linked :: "(u32 \<Rightarrow> emac_rx_bdp) \<Rightarrow> u32 list \<Rightarrow> u32 \<Rightarrow> bool" where
  "rx_linked ram ds n \<equiv> bd_linked (\<lambda>d. rbd_succ (ram d)) ds n"

lemma rx_linked_cong: "(\<And>d. d \<in> set ds \<Longrightarrow> rbd_next (ram' d) = rbd_next (ram d)) \<Longrightarrow> rx_linked ram' ds n = rx_linked ram ds n"
  by (rule bd_linked_cong) (simp add: rbd_succ_def)

text \<open>A pbuf in a receive buffer points to no other one or to the one in the next buffer.\<close>

fun links :: "(nat \<Rightarrow> nat) \<Rightarrow> nat list \<Rightarrow> bool" where
  "links nx [] \<longleftrightarrow> True"
| "links nx (a # as) \<longleftrightarrow> (nx a = 0 \<or> (\<exists>x xs. as = x # xs \<and> nx a = x)) \<and> links nx as"

lemma links_cong: "(\<And>a. a \<in> set as \<Longrightarrow> nx' a = nx a) \<Longrightarrow> links nx' as = links nx as"
  by (induction as) auto

lemma links_append: "links nx as \<Longrightarrow> links nx bs \<Longrightarrow> links nx (as @ bs)"
  by (induction as) auto

lemma links_appendD: "links nx (as @ bs) \<Longrightarrow> links nx bs"
  by (induction as) auto

section \<open>Collecting the pbufs of a packet\<close>

fun rx_pbufs :: "u16 \<Rightarrow> u32 \<Rightarrow> (emac_rx_bdp \<times> pbuf) list \<Rightarrow> chain" where
  "rx_pbufs tot ex [] = []"
| "rx_pbufs tot ex ((bd, b) # r) = b\<lparr>p_len := rbd_len bd, tot_len := tot - ucast ex\<rparr> # rx_pbufs tot (ex + ucast (rbd_len bd)) r"

definition bufs :: "('cb, 'n, 'z) rxif_scheme \<Rightarrow> u32 list \<Rightarrow> nat list" where
  "bufs e ds = map (\<lambda>d. rbd_pbuf (rx_ram e d)) ds"

definition pb_list :: "('cb, 'n, 'z) rxif_scheme \<Rightarrow> u32 list \<Rightarrow> (emac_rx_bdp \<times> pbuf) list" where
  "pb_list e ds = map (\<lambda>d. (rx_ram e d, pb_at e (rbd_pbuf (rx_ram e d)))) ds"

lemma bufs_simps [simp]: "bufs e [] = []" "bufs e (d # ds) = rbd_pbuf (rx_ram e d) # bufs e ds" "bufs e (ds @ es) = bufs e ds @ bufs e es"
  by (simp_all add: bufs_def)

lemma pb_list_simps [simp]: "pb_list e [] = []" "pb_list e (d # ds) = (rx_ram e d, pb_at e (rbd_pbuf (rx_ram e d))) # pb_list e ds"
  "pb_list e (ds @ es) = pb_list e ds @ pb_list e es"
  by (simp_all add: pb_list_def)

lemma bufs_length [simp]: "length (bufs e ds) = length ds"
  by (simp add: bufs_def)

definition buf_room :: "('cb, 'n, 'z) rxif_scheme \<Rightarrow> u32 list \<Rightarrow> nat" where
  "buf_room e ds = sum_list (map (\<lambda>d. unat (p_len (pb_at e (rbd_pbuf (rx_ram e d))))) ds)"

lemma buf_room_simps [simp]: "buf_room e [] = 0" "buf_room e (d # ds) = unat (p_len (pb_at e (rbd_pbuf (rx_ram e d)))) + buf_room e ds"
  "buf_room e (ds @ es) = buf_room e ds + buf_room e es"
  by (simp_all add: buf_room_def)

lemma buf_room_bufs: "buf_room e ds = sum_list (map (\<lambda>a. unat (p_len (pb_at e a))) (bufs e ds))"
  by (simp add: buf_room_def bufs_def o_def)

lemma chain_at_Cons: "a \<noteq> 0 \<Longrightarrow> chain_at pb nx (nx a) = Some c \<Longrightarrow> chain_at pb nx a = Some (pb a # c)"
  by (subst chain_at.simps) simp

lemma chain_at_0: "chain_at pb nx 0 = Some []"
  by (subst chain_at.simps) simp

text \<open>One round of the loop.\<close>

definition collect1 :: "u16 \<Rightarrow> u32 \<Rightarrow> u32 \<Rightarrow> ('cb, 'n, 'z) rxif_scheme \<Rightarrow> ('cb, 'n, 'z) rxif_scheme" where
  "collect1 tot cur ex e =
     (let bd = rx_ram e cur; a = rbd_pbuf bd; b = pb_at e a in
      e\<lparr>pb_next := (if pb_next e a = 0 then (pb_next e)(a := rbd_pbuf (rx_ram e (rbd_succ bd))) else pb_next e),
        pb_at := (pb_at e)(a := b\<lparr>p_len := rbd_len bd, tot_len := tot - ucast ex\<rparr>)\<rparr>)"

lemma collect1_simps [simp]:
  "rx_ram (collect1 tot cur ex e) = rx_ram e"
  "pb_at (collect1 tot cur ex e) (rbd_pbuf (rx_ram e cur))
    = (pb_at e (rbd_pbuf (rx_ram e cur)))\<lparr>p_len := rbd_len (rx_ram e cur), tot_len := tot - ucast ex\<rparr>"
  by (simp_all add: collect1_def Let_def)

lemma collect1_frame:
  assumes "x \<noteq> rbd_pbuf (rx_ram e cur)"
  shows "pb_at (collect1 tot cur ex e) x = pb_at e x" "pb_next (collect1 tot cur ex e) x = pb_next e x"
  using assms by (simp_all add: collect1_def Let_def)

lemma collect1_eq: "(collect1 tot cur ex e)\<lparr>pb_at := pb, pb_next := nx\<rparr> = e\<lparr>pb_at := pb, pb_next := nx\<rparr>"
  by (simp add: collect1_def Let_def)

lemma rx_collect_unfold:
  assumes "cur \<noteq> 0" "rbd_pbuf (rx_ram e cur) \<noteq> 0" "rbd_succ (rx_ram e cur) \<noteq> 0"
  shows "rx_collect tot cur ex len e =
    (if rbd_flag EMAC_BUF_DESC_EOP (rx_ram e cur)
     then Some (Inr (cur, rbd_succ (rx_ram e cur), len + ucast (p_len (pb_at e (rbd_pbuf (rx_ram e cur)))), collect1 tot cur ex e))
     else rx_collect tot (rbd_succ (rx_ram e cur)) (ex + ucast (rbd_len (rx_ram e cur)))
            (len + ucast (p_len (pb_at e (rbd_pbuf (rx_ram e cur))))) (collect1 tot cur ex e))"
  using assms by (subst rx_collect.simps) (simp add: Let_def collect1_def)

lemma of_nat_u16: "of_nat (unat (n :: u16)) = (ucast n :: u32)"
  by simp

lemma rx_collect_packet:
  fixes e :: "('cb, 'n, 'z) rxif_scheme"
  assumes "ps \<noteq> []" "rx_linked (rx_ram e) ps n" "n \<noteq> 0" "0 \<notin> set ps" "0 \<notin> set (bufs e ps)" "distinct (bufs e ps @ as)"
    and "links (pb_next e) (bufs e ps @ as)"
    and "\<forall>d \<in> set (butlast ps). \<not> rbd_flag EMAC_BUF_DESC_EOP (rx_ram e d)" "rbd_flag EMAC_BUF_DESC_EOP (rx_ram e (last ps))"
  shows "\<exists>pb nx. rx_collect tot (hd ps) ex len e = Some (Inr (last ps, n, len + of_nat (buf_room e ps), e\<lparr>pb_at := pb, pb_next := nx\<rparr>))
    \<and> (\<forall>a. a \<notin> set (bufs e ps) \<longrightarrow> pb a = pb_at e a \<and> nx a = pb_next e a)
    \<and> chain_at pb (nx(last (bufs e ps) := 0)) (hd (bufs e ps)) = Some (rx_pbufs tot ex (pb_list e ps))"
  using assms
proof (induction ps arbitrary: ex len e)
  case (Cons d ps)
  let ?a = "rbd_pbuf (rx_ram e d)" and ?e1 = "collect1 tot d ex e"
  have d: "d \<noteq> 0" "?a \<noteq> 0" using Cons.prems(4,5) by auto
  show ?case
  proof (cases ps)
    case Nil
    then have sc: "rbd_succ (rx_ram e d) = n" "rbd_flag EMAC_BUF_DESC_EOP (rx_ram e d)" using Cons.prems(2,9) by simp_all
    have eq: "rx_collect tot d ex len e = Some (Inr (d, n, len + ucast (p_len (pb_at e ?a)), ?e1))"
      using rx_collect_unfold [OF d, of tot ex len] sc Cons.prems(3) by simp
    have e1: "e\<lparr>pb_at := pb_at ?e1, pb_next := pb_next ?e1\<rparr> = ?e1" using collect1_eq [where pb = "pb_at ?e1" and nx = "pb_next ?e1" and tot = tot and cur = d and ex = ex and e = e] by simp
    have c: "chain_at (pb_at ?e1) ((pb_next ?e1)(?a := 0)) ?a = Some [pb_at ?e1 ?a]"
      using d(2) by (intro chain_at_Cons) (simp_all add: chain_at_0)
    show ?thesis
      by (rule exI [of _ "pb_at ?e1"], rule exI [of _ "pb_next ?e1"]) (use eq e1 c Nil in \<open>simp add: collect1_frame del: fun_upd_apply\<close>)
  next
    case ps: (Cons d2 ps')
    have sc: "rbd_succ (rx_ram e d) = d2" "\<not> rbd_flag EMAC_BUF_DESC_EOP (rx_ram e d)" "d2 \<noteq> 0" using Cons.prems(2,4,8) ps by auto
    have b1: "bufs ?e1 ds = bufs e ds" for ds by (simp add: bufs_def)
    have a: "?a \<notin> set (bufs e ps)" using Cons.prems(6) by simp
    have same: "pb_at ?e1 x = pb_at e x" "pb_next ?e1 x = pb_next e x" if "x \<in> set (bufs e ps)" for x
      using collect1_frame [of x e d] that a by auto
    have lst: "pb_list ?e1 ps = pb_list e ps" "buf_room ?e1 ps = buf_room e ps"
      using same(1) by (auto simp: pb_list_def buf_room_def bufs_def intro!: arg_cong [where f = sum_list])
    have lk: "links (pb_next ?e1) (bufs ?e1 ps @ as)"
    proof -
      have "links (pb_next ?e1) (bufs e ps @ as) = links (pb_next e) (bufs e ps @ as)"
        using Cons.prems(6) by (intro links_cong) (auto intro: collect1_frame(2))
      then show ?thesis using Cons.prems(7) by (simp add: b1)
    qed
    have "\<exists>pb nx. rx_collect tot (hd ps) (ex + ucast (rbd_len (rx_ram e d))) (len + ucast (p_len (pb_at e ?a))) ?e1
        = Some (Inr (last ps, n, len + ucast (p_len (pb_at e ?a)) + of_nat (buf_room ?e1 ps), ?e1\<lparr>pb_at := pb, pb_next := nx\<rparr>))
      \<and> (\<forall>x. x \<notin> set (bufs ?e1 ps) \<longrightarrow> pb x = pb_at ?e1 x \<and> nx x = pb_next ?e1 x)
      \<and> chain_at pb (nx(last (bufs ?e1 ps) := 0)) (hd (bufs ?e1 ps)) = Some (rx_pbufs tot (ex + ucast (rbd_len (rx_ram e d))) (pb_list ?e1 ps))"
      by (rule Cons.IH) (use Cons.prems ps lk in \<open>simp_all add: b1\<close>)
    then obtain pb nx where r: "rx_collect tot d2 (ex + ucast (rbd_len (rx_ram e d))) (len + ucast (p_len (pb_at e ?a))) ?e1
        = Some (Inr (last ps, n, len + ucast (p_len (pb_at e ?a)) + of_nat (buf_room e ps), e\<lparr>pb_at := pb, pb_next := nx\<rparr>))"
      "\<And>x. x \<notin> set (bufs e ps) \<Longrightarrow> pb x = pb_at ?e1 x \<and> nx x = pb_next ?e1 x"
      "chain_at pb (nx(last (bufs e ps) := 0)) (hd (bufs e ps)) = Some (rx_pbufs tot (ex + ucast (rbd_len (rx_ram e d))) (pb_list e ps))"
      unfolding b1 lst collect1_eq using ps by auto
    have nxa: "nx ?a = hd (bufs e ps)"
    proof -
      have "pb_next e ?a = 0 \<or> pb_next e ?a = rbd_pbuf (rx_ram e d2)" using Cons.prems(7) ps by auto
      then have "pb_next ?e1 ?a = rbd_pbuf (rx_ram e d2)" using sc(1) d(2) by (auto simp: collect1_def Let_def)
      then show ?thesis using r(2) [OF a] ps by simp
    qed
    have "?a \<noteq> last (bufs e ps)" using a ps by (metis bufs_length last_in_set length_0_conv list.discI)
    then have "chain_at pb (nx(last (bufs e ps) := 0)) ((nx(last (bufs e ps) := 0)) ?a) = Some (rx_pbufs tot (ex + ucast (rbd_len (rx_ram e d))) (pb_list e ps))"
      using r(3) nxa by simp
    from chain_at_Cons [OF d(2) this] have c: "chain_at pb (nx(last (bufs e (d # ps)) := 0)) ?a = Some (rx_pbufs tot ex (pb_list e (d # ps)))"
      using r(2) [OF a] ps by simp
    have f: "pb x = pb_at e x \<and> nx x = pb_next e x" if "x \<notin> set (bufs e (d # ps))" for x
      using that r(2) [of x] collect1_frame [of x e d] by simp
    have "rx_collect tot d ex len e = Some (Inr (last (d # ps), n, len + of_nat (buf_room e (d # ps)), e\<lparr>pb_at := pb, pb_next := nx\<rparr>))"
      using rx_collect_unfold [OF d, of tot ex len] sc r(1) ps by (simp add: add.assoc)
    then show ?thesis using c f by (intro exI [of _ pb] exI [of _ nx]) (simp del: fun_upd_apply)
  qed
qed simp

definition rx_lens :: "(emac_rx_bdp \<times> pbuf) list \<Rightarrow> nat" where
  "rx_lens l = sum_list (map (\<lambda>(bd, b). unat (rbd_len bd)) l)"

definition rx_data :: "(emac_rx_bdp \<times> pbuf) list \<Rightarrow> bytes" where
  "rx_data l = concat (map (\<lambda>(bd, b). take (unat (rbd_len bd)) (pbuf_mem b)) l)"

lemma rx_lens_simps [simp]: "rx_lens [] = 0" "rx_lens ((bd, b) # l) = unat (rbd_len bd) + rx_lens l"
  by (simp_all add: rx_lens_def)

lemma rx_data_simps [simp]: "rx_data [] = []" "rx_data ((bd, b) # l) = take (unat (rbd_len bd)) (pbuf_mem b) @ rx_data l"
  by (simp_all add: rx_data_def)

lemma rx_pbufs_simps [simp]: "rx_pbufs tot ex l = [] \<longleftrightarrow> l = []" "map pbuf_addr (rx_pbufs tot ex l) = map (\<lambda>(bd, b). pbuf_addr b) l"
  by (induction l arbitrary: ex) auto

lemma rx_pbufs_chain:
  assumes "unat tot = x + rx_lens l" "ex = of_nat x" "\<forall>(bd, b) \<in> set l. new_buf b \<and> 0 < unat (rbd_len bd) \<and> unat (rbd_len bd) \<le> unat (p_len b)"
  shows "chain_ok (rx_pbufs tot ex l) \<and> chain_len (rx_pbufs tot ex l) = rx_lens l \<and> chain_data (rx_pbufs tot ex l) = rx_data l
    \<and> (\<forall>q \<in> set (rx_pbufs tot ex l). p_len q \<noteq> 0 \<and> p_ref q = 1 \<and> type_internal q = 0x82 \<and> payload q = 0 \<and> length (pbuf_mem q) = 1400)"
  using assms
proof (induction l arbitrary: ex x)
  case (Cons a l)
  obtain bd b where a: "a = (bd, b)" by (cases a)
  have b: "new_buf b" "0 < unat (rbd_len bd)" "unat (rbd_len bd) \<le> unat (p_len b)" using Cons.prems(3) a by auto
  have "unat tot < 2 ^ LENGTH(16)" by (rule unsigned_less)
  then have x: "x < 2 ^ 16" using Cons.prems(1) by simp
  then have ux: "unat (ucast ex :: u16) = x" using Cons.prems(2) by (simp add: unsigned_ucast_eq unat_of_nat take_bit_nat_def)
  then have "ucast ex \<le> tot" using Cons.prems(1) by (simp add: word_le_nat_alt)
  from unat_sub [OF this] have t: "unat (tot - ucast ex) = unat (rbd_len bd) + rx_lens l" using ux Cons.prems(1) a by simp
  have "unat tot = (x + unat (rbd_len bd)) + rx_lens l" "ex + ucast (rbd_len bd) = of_nat (x + unat (rbd_len bd))"
    using Cons.prems(1,2) a by simp_all
  from Cons.IH [OF this] Cons.prems(3) have IH: "chain_ok (rx_pbufs tot (ex + ucast (rbd_len bd)) l)"
    "chain_len (rx_pbufs tot (ex + ucast (rbd_len bd)) l) = rx_lens l" "chain_data (rx_pbufs tot (ex + ucast (rbd_len bd)) l) = rx_data l"
    "\<forall>q \<in> set (rx_pbufs tot (ex + ucast (rbd_len bd)) l). p_len q \<noteq> 0 \<and> p_ref q = 1 \<and> type_internal q = 0x82 \<and> payload q = 0 \<and> length (pbuf_mem q) = 1400"
    by simp_all
  have "rbd_len bd \<noteq> 0" using b(2) by auto
  then show ?case using IH b t a by (simp add: new_buf_def pbuf_bytes_def)
qed (simp add: chain_data_def)


section \<open>New buffers in the free descriptors\<close>

definition fresh_bd :: "(pbuf \<Rightarrow> u32) \<Rightarrow> pbuf \<Rightarrow> emac_rx_bdp \<Rightarrow> emac_rx_bdp" where
  "fresh_bd payload_addr q bd = bd\<lparr>rbd_bufptr := hdkif_swizzle_data (payload_addr q), rbd_bufoff_len := hdkif_swizzle_data (ucast (p_len q) AND 0xFFFF),
     rbd_flags_pktlen := hdkif_swizzle_data EMAC_BUF_DESC_OWNER, rbd_pbuf := pbuf_addr q\<rparr>"

lemma fresh_bd_simps [simp]: "rbd_next (fresh_bd pa q bd) = rbd_next bd" "rbd_pbuf (fresh_bd pa q bd) = pbuf_addr q"
  by (simp_all add: fresh_bd_def)

lemma fresh_bd_flags [simp]: "\<not> rbd_flag EMAC_BUF_DESC_SOP (fresh_bd pa q bd)" "rbd_flag EMAC_BUF_DESC_OWNER (fresh_bd pa q bd)"
  by (simp_all add: fresh_bd_def rbd_flag_def EMAC_BUF_DESC_SOP_def EMAC_BUF_DESC_OWNER_def hdkif_swizzle_data_def)

text \<open>There are enough free descriptors for the new buffers.\<close>

lemma rx_refill_fits:
  fixes e :: "('cb, 'n, 'z) rxif_scheme"
  assumes "length c \<le> length fl" "rx_linked (rx_ram e) fl h" "rx_active_head e = h" "h \<notin> set fl" "0 \<notin> set fl" "distinct fl"
  shows "\<exists>ram. rx_refill pa c (hd (fl @ [h])) lst e
      = Inr (hd (drop (length c) fl @ [h]), (if c = [] then lst else last (take (length c) fl)), [],
             e\<lparr>rx_ram := ram, freed_pbuf_len := freed_pbuf_len e - of_nat (chain_len c)\<rparr>)
    \<and> (\<forall>d. d \<notin> set (take (length c) fl) \<longrightarrow> ram d = rx_ram e d)
    \<and> map ram (take (length c) fl) = map2 (fresh_bd pa) c (map (rx_ram e) (take (length c) fl))"
  using assms
proof (induction c arbitrary: fl lst e)
  case Nil
  show ?case by (rule exI [of _ "rx_ram e"]) simp
next
  case (Cons q c)
  obtain d fl' where fl: "fl = d # fl'" using Cons.prems(1) by (cases fl) auto
  let ?e1 = "e\<lparr>rx_ram := (rx_ram e)(d := fresh_bd pa q (rx_ram e d)), freed_pbuf_len := freed_pbuf_len e - ucast (p_len q)\<rparr>"
  have d: "d \<noteq> 0" "d \<noteq> h" "d \<notin> set fl'" using Cons.prems(4-6) fl by auto
  have sc: "rbd_succ (rx_ram e d) = hd (fl' @ [h])" using Cons.prems(2) fl by (cases fl') simp_all
  have "rx_linked (rx_ram ?e1) fl' h = rx_linked (rx_ram e) fl' h" by (intro rx_linked_cong) simp
  then have sg: "rx_linked (rx_ram ?e1) fl' h" using Cons.prems(2) fl by simp
  have pr: "length c \<le> length fl'" "rx_active_head ?e1 = h" "h \<notin> set fl'" "0 \<notin> set fl'" "distinct fl'" using Cons.prems fl by simp_all
  from Cons.IH [OF pr(1) sg pr(2-5), of d] obtain ram where r:
    "rx_refill pa c (hd (fl' @ [h])) d ?e1
      = Inr (hd (drop (length c) fl' @ [h]), (if c = [] then d else last (take (length c) fl')), [],
             ?e1\<lparr>rx_ram := ram, freed_pbuf_len := freed_pbuf_len ?e1 - of_nat (chain_len c)\<rparr>)"
    "\<forall>d'. d' \<notin> set (take (length c) fl') \<longrightarrow> ram d' = rx_ram ?e1 d'"
    "map ram (take (length c) fl') = map2 (fresh_bd pa) c (map (rx_ram ?e1) (take (length c) fl'))"
    by (elim exE conjE)
  have nd: "d \<notin> set (take (length c) fl')" using d(3) by (meson in_set_takeD)
  have m: "map (rx_ram ?e1) (take (length c) fl') = map (rx_ram e) (take (length c) fl')" using nd by auto
  have eq: "rx_refill pa (q # c) (hd (fl @ [h])) lst e = rx_refill pa c (hd (fl' @ [h])) d ?e1"
    using d sc Cons.prems(3) fl by (simp add: fresh_bd_def)
  show ?case
    by (rule exI [of _ ram]) (use r nd m eq fl pr(1) in \<open>auto simp: diff_diff_eq\<close>)
qed

lemma store_chain_frame:
  "a \<notin> pbuf_addr ` set c \<Longrightarrow> store_chain c pb nx = (pb', nx') \<Longrightarrow> pb' a = pb a \<and> nx' a = nx a"
  by (induction c pb nx rule: store_chain.induct) auto

lemma store_chain_links:
  assumes "distinct (map pbuf_addr c)" "store_chain c pb nx = (pb', nx')"
  shows "(\<forall>q \<in> set c. pb' (pbuf_addr q) = q) \<and> links nx' (map pbuf_addr c)"
  using assms
proof (induction c pb nx rule: store_chain.induct)
  case (2 q qs pb nx)
  let ?pb = "pb(pbuf_addr q := q)" and ?nx = "nx(pbuf_addr q := (case qs of [] \<Rightarrow> 0 | r # _ \<Rightarrow> pbuf_addr r))"
  have st: "store_chain qs ?pb ?nx = (pb', nx')" using 2(3) by simp
  have q: "pbuf_addr q \<notin> pbuf_addr ` set qs" using 2(2) by simp
  from store_chain_frame [OF q st] have "pb' (pbuf_addr q) = q" "nx' (pbuf_addr q) = (case qs of [] \<Rightarrow> 0 | r # _ \<Rightarrow> pbuf_addr r)" by simp_all
  then show ?case using 2(1) [OF _ st] 2(2) by (cases qs) simp_all
qed simp

definition input_ok :: "(memp_t \<Rightarrow> memp_desc) \<Rightarrow> (chain \<Rightarrow> ('cb, 'n) ip6_state \<Rightarrow> ('cb, 'n) ip6_state result) \<Rightarrow> bool" where
  "input_ok pools input \<longleftrightarrow>
     (\<forall>p st. rx_packet pools p (is_alloc st) \<and> payload (hd p) = 0 \<and> length (pbuf_mem (hd p)) = PBUF_POOL_BUFSIZE_ALIGNED \<and> mld_ok pools (is_mld st) (is_alloc st)
        \<longrightarrow> (\<exists>st'. input p st = Inr st' \<and> st_freed pools p st st'))"

text \<open>The active descriptors \<open>ds\<close> end with \<open>active_tail\<close>; the ones without a buffer, \<open>fs\<close>, lead to \<open>active_head\<close>.\<close>

definition rx_bufs_ok :: "(memp_t \<Rightarrow> memp_desc) \<Rightarrow> ('cb, 'n, 'z) rxif_scheme \<Rightarrow> u32 list \<Rightarrow> bool" where
  "rx_bufs_ok pools e ds \<longleftrightarrow> distinct (bufs e ds) \<and> links (pb_next e) (bufs e ds)
     \<and> (\<forall>a \<in> set (bufs e ds). a \<noteq> 0 \<and> pbuf_addr (pb_at e a) = a \<and> new_buf (pb_at e a)
          \<and> a \<in> set (pool_elems (pools MEMP_PBUF_POOL)) - free_elems (al_memp (is_alloc (rx_up e))) MEMP_PBUF_POOL)"

definition rx_ring :: "(memp_t \<Rightarrow> memp_desc) \<Rightarrow> ('cb, 'n, 'z) rxif_scheme \<Rightarrow> u32 list \<Rightarrow> u32 list \<Rightarrow> bool" where
  "rx_ring pools e ds fs \<longleftrightarrow> ds \<noteq> [] \<and> distinct (fs @ ds) \<and> 0 \<notin> set (fs @ ds) \<and> rx_linked (rx_ram e) (fs @ ds) 0
     \<and> rx_active_head e = hd ds \<and> rx_active_tail e = last ds \<and> (rx_free_head e = hd (fs @ ds) \<or> fs = [] \<and> rx_free_head e = 0)
     \<and> freed_pbuf_len e = 0 \<and> rx_bufs_ok pools e ds \<and> mld_ok pools (is_mld (rx_up e)) (is_alloc (rx_up e))"

text \<open>The engine has written a packet to the descriptors \<open>ps\<close>, filling every buffer but the last one.\<close>

definition rx_done :: "('cb, 'n, 'z) rxif_scheme \<Rightarrow> u32 list \<Rightarrow> bool" where
  "rx_done e ps \<longleftrightarrow> ps \<noteq> [] \<and> rbd_flag EMAC_BUF_DESC_SOP (rx_ram e (hd ps)) \<and> \<not> rbd_flag EMAC_BUF_DESC_OWNER (rx_ram e (hd ps))
     \<and> (\<forall>d \<in> set (butlast ps). \<not> rbd_flag EMAC_BUF_DESC_EOP (rx_ram e d) \<and> unat (rbd_len (rx_ram e d)) = unat (p_len (pb_at e (rbd_pbuf (rx_ram e d)))))
     \<and> rbd_flag EMAC_BUF_DESC_EOP (rx_ram e (last ps))
     \<and> (\<forall>d \<in> set ps. 0 < unat (rbd_len (rx_ram e d)) \<and> unat (rbd_len (rx_ram e d)) \<le> unat (p_len (pb_at e (rbd_pbuf (rx_ram e d)))))
     \<and> unat (rbd_pktlen (rx_ram e (hd ps))) = rx_lens (pb_list e ps) \<and> rx_lens (pb_list e ps) \<le> 1518"

lemma rx_done_room:
  assumes "rx_done e ps" "\<forall>a \<in> set (bufs e ps). new_buf (pb_at e a)"
  shows "0 < buf_room e ps" "buf_room e ps < 2918" "buf_room e ps \<le> 1400 * length ps"
proof -
  obtain qs d where ps: "ps = qs @ [d]" using assms(1) by (cases ps rule: rev_cases) (auto simp: rx_done_def)
  have "map (\<lambda>d. unat (rbd_len (rx_ram e d))) qs = map (\<lambda>d. unat (p_len (pb_at e (rbd_pbuf (rx_ram e d))))) qs"
    using assms(1) ps by (auto simp: rx_done_def)
  from arg_cong [OF this, of sum_list] have "rx_lens (pb_list e qs) = buf_room e qs" by (simp add: rx_lens_def pb_list_def buf_room_def o_def)
  moreover have "rx_lens (pb_list e ps) = rx_lens (pb_list e qs) + unat (rbd_len (rx_ram e d))" using ps by (simp add: rx_lens_def)
  moreover have d: "0 < unat (rbd_len (rx_ram e d))" "rx_lens (pb_list e ps) \<le> 1518" using assms(1) ps by (auto simp: rx_done_def)
  moreover have "new_buf (pb_at e (rbd_pbuf (rx_ram e d)))" using assms(2) ps by simp
  ultimately show "0 < buf_room e ps" "buf_room e ps < 2918" using ps by (simp_all add: new_buf_def)
  have "unat (p_len (pb_at e (rbd_pbuf (rx_ram e d)))) \<le> 1400" if "d \<in> set ps" for d
    using assms(2) that by (auto simp: new_buf_def bufs_def)
  then show "buf_room e ps \<le> 1400 * length ps"
    by (simp add: buf_room_def) (induction ps; simp; fastforce)
qed

lemma free_pool_elem:
  assumes "memp_ok pools m" "a \<in> free_elems m t"
  shows "a \<in> set (pool_elems (pools t))" "a \<noteq> 0" "finite (free_elems m t)"
proof -
  obtain xs where "free_list m t xs" "set xs \<subseteq> set (pool_elems (pools t))" using assms(1) by (auto simp: memp_ok_def)
  then show "a \<in> set (pool_elems (pools t))" "finite (free_elems m t)" using assms(2) free_elems_eq [of m t xs] by auto
  then show "a \<noteq> 0" using assms(1) pool_elems_aligned by (auto simp: memp_ok_def)
qed

lemma put_chain_simps:
  assumes "distinct (map pbuf_addr c)"
  shows "\<exists>pb nx. put_chain c e = e\<lparr>pb_at := pb, pb_next := nx\<rparr> \<and> links nx (map pbuf_addr c) \<and> (\<forall>q \<in> set c. pb (pbuf_addr q) = q)
    \<and> (\<forall>a. a \<notin> pbuf_addr ` set c \<longrightarrow> pb a = pb_at e a \<and> nx a = pb_next e a)"
proof -
  obtain pb nx where st: "store_chain c (pb_at e) (pb_next e) = (pb, nx)" by fastforce
  show ?thesis
    by (rule exI [of _ pb], rule exI [of _ nx]) (use st store_chain_links [OF assms st] store_chain_frame [OF _ st] in \<open>auto simp: put_chain_def\<close>)
qed

text \<open>Two descriptors that differ in \<open>next\<close> only.\<close>

definition same_bd :: "emac_rx_bdp \<Rightarrow> emac_rx_bdp \<Rightarrow> bool" where
  "same_bd bd bd' \<longleftrightarrow> bd\<lparr>rbd_next := 0\<rparr> = bd'\<lparr>rbd_next := 0\<rparr>"

lemma same_bdD:
  assumes "same_bd bd bd'"
  shows "rbd_pbuf bd = rbd_pbuf bd'" "rbd_len bd = rbd_len bd'" "rbd_pktlen bd = rbd_pktlen bd'" "rbd_flag fl bd = rbd_flag fl bd'"
  using assms by (cases bd; cases bd'; simp add: same_bd_def rbd_len_def rbd_pktlen_def rbd_flag_def)+

lemma rx_append_ram:
  assumes "us \<noteq> []" "gs \<noteq> []" "distinct (gs @ rs @ us)" "rx_linked ram (gs @ rs @ us) 0" "rx_active_tail e = last us" "rx_free_head e = hd gs" "rx_ram e = ram"
  shows "rx_linked (rx_ram (rx_append cur (last gs) e)) (rs @ us @ gs) 0" "same_bd (rx_ram (rx_append cur (last gs) e) d) (ram d)"
proof -
  define e' where "e' = rx_append cur (last gs) e"
  let ?f = "\<lambda>d. rbd_succ (ram d)" and ?g = "\<lambda>d. rbd_succ (rx_ram e' d)"
  have "last gs \<in> set gs" "last us \<in> set us" using assms(1,2) by simp_all
  then have nt: "last gs \<noteq> last us" "last gs \<notin> set (rs @ us)" "last us \<notin> set (gs @ rs)" using assms(3) by auto
  have g: "?g = ?f(last gs := 0, last us := hd gs)"
    using nt assms(5-7) by (auto simp: e'_def rx_append_def Let_def rbd_succ_def)
  have l: "bd_linked ?f gs (hd (rs @ us @ [0]))" "bd_linked ?f rs (hd us)" "bd_linked ?f us 0"
    using assms(1,4) by (simp_all add: bd_linked_append)
  have "bd_linked ?g gs 0 = bd_linked (?f(last gs := 0)) gs 0" unfolding g using nt by (intro bd_linked_cong) auto
  moreover have "bd_linked (?f(last gs := 0)) gs 0" using assms(2,3) l(1) by (intro bd_linked_upd_last) simp_all
  moreover have "bd_linked ?g us (hd gs) = bd_linked (?f(last us := hd gs)) us (hd gs)" unfolding g using nt by (intro bd_linked_cong) auto
  moreover have "bd_linked (?f(last us := hd gs)) us (hd gs)" using assms(1,3) l(3) by (intro bd_linked_upd_last) simp_all
  moreover have "bd_linked ?g rs (hd us) = bd_linked ?f rs (hd us)" unfolding g using nt by (intro bd_linked_cong) auto
  ultimately show "rx_linked (rx_ram (rx_append cur (last gs) e)) (rs @ us @ gs) 0" unfolding e'_def [symmetric] using l(2) assms(1,2) by (simp add: bd_linked_append)
  show "same_bd (rx_ram (rx_append cur (last gs) e) d) (ram d)" using assms(5-7) by (simp add: rx_append_def Let_def same_bd_def)
qed

text \<open>\<open>rx_after\<close>: what the driver leaves after it gave the buffers of \<open>ps\<close> away and got new ones for \<open>gs\<close>.\<close>

definition rx_kept :: "('cb, 'n, 'z) rxif_scheme \<Rightarrow> ('cb, 'n, 'z) rxif_scheme \<Rightarrow> u32 list \<Rightarrow> bool" where
  "rx_kept e e' us \<longleftrightarrow> (\<forall>d \<in> set us. same_bd (rx_ram e' d) (rx_ram e d) \<and> pb_at e' (rbd_pbuf (rx_ram e d)) = pb_at e (rbd_pbuf (rx_ram e d)))"

definition pool_free :: "('cb, 'n, 'z) rxif_scheme \<Rightarrow> nat set" where
  "pool_free e = free_elems (al_memp (is_alloc (rx_up e))) MEMP_PBUF_POOL"

lemma fresh_bds:
  assumes "length c = length gs" "map ram gs = map2 (fresh_bd pa) c (map ram0 gs)"
  shows "map (\<lambda>d. rbd_pbuf (ram d)) gs = map pbuf_addr c \<and> (\<forall>d \<in> set gs. rbd_next (ram d) = rbd_next (ram0 d) \<and> \<not> rbd_flag EMAC_BUF_DESC_SOP (ram d))"
  using assms by (induction c gs rule: list_induct2) auto

lemma rx_bufs_ok_extend:
  assumes us: "rx_bufs_ok pools e us" and mok: "memp_ok pools (al_memp (is_alloc (rx_up e)))"
    and c: "distinct (map pbuf_addr c)" "pbuf_addr ` set c \<subseteq> pool_free e" "\<forall>q \<in> set c. new_buf q"
    and pb: "\<forall>q \<in> set c. pb_at e' (pbuf_addr q) = q" and nx: "links (pb_next e') (map pbuf_addr c)"
    and frame: "\<forall>a. a \<notin> pbuf_addr ` set c \<longrightarrow> pb_at e' a = pb_at e a \<and> pb_next e' a = pb_next e a"
    and bufs: "bufs e' us = bufs e us" "bufs e' gs = map pbuf_addr c" and pf: "pool_free e' = pool_free e - pbuf_addr ` set c"
  shows "rx_bufs_ok pools e' (us @ gs)" "buf_room e' (us @ gs) = buf_room e us + chain_len c"
proof -
  have old: "a \<notin> pbuf_addr ` set c" if "a \<in> set (bufs e us)" for a using that us c(2) by (auto simp: rx_bufs_ok_def pool_free_def)
  have "links (pb_next e') (bufs e us) = links (pb_next e) (bufs e us)" using frame old by (intro links_cong) simp
  then have l: "links (pb_next e') (bufs e us @ map pbuf_addr c)" using nx us by (simp add: links_append rx_bufs_ok_def)
  have d: "distinct (bufs e us @ map pbuf_addr c)" using us old c(1) by (auto simp: rx_bufs_ok_def)
  have at: "pb_at e' a = pb_at e a" if "a \<in> set (bufs e us)" for a using frame old [OF that] by simp
  moreover have "a \<noteq> 0 \<and> a \<in> set (pool_elems (pools MEMP_PBUF_POOL))" if "a \<in> pbuf_addr ` set c" for a
    using free_pool_elem [OF mok] c(2) that by (auto simp: pool_free_def)
  ultimately have "a \<noteq> 0 \<and> pbuf_addr (pb_at e' a) = a \<and> new_buf (pb_at e' a) \<and> a \<in> set (pool_elems (pools MEMP_PBUF_POOL)) - pool_free e'"
    if "a \<in> set (bufs e us @ map pbuf_addr c)" for a
    using that us old pb c(3) unfolding pf by (auto simp: rx_bufs_ok_def pool_free_def)
  then show "rx_bufs_ok pools e' (us @ gs)" using l d by (simp add: rx_bufs_ok_def bufs pool_free_def)
  have m1: "map (\<lambda>a. unat (p_len (pb_at e' a))) (bufs e us) = map (\<lambda>a. unat (p_len (pb_at e a))) (bufs e us)" using at by simp
  have m2: "map (\<lambda>a. unat (p_len (pb_at e' a))) (map pbuf_addr c) = map (\<lambda>q. unat (p_len q)) c" using pb by simp
  show "buf_room e' (us @ gs) = buf_room e us + chain_len c"
    by (simp only: buf_room_bufs bufs_simps map_append sum_list_append bufs m1 m2 chain_len_def)
qed

lemma rx_replace_ring:
  fixes e :: "('cb, 'n, 'z) rxif_scheme"
  assumes fl: "distinct (fl @ us)" "0 \<notin> set (fl @ us)" "rx_linked (rx_ram e) (fl @ us) 0" "us \<noteq> []"
    and hd: "rx_active_head e = hd us" "rx_active_tail e = last us" "rx_free_head e = hd fl"
    and n: "freed_pbuf_len e = of_nat n" "0 < n" "n < 65536" "n \<le> 1400 * k" "k \<le> length fl" "k \<le> card (pool_free e)"
    and us: "rx_bufs_ok pools e us" and mld: "mld_ok pools (is_mld (rx_up e)) (is_alloc (rx_up e))" and fresh: "fresh_ok uninit"
  shows "\<exists>m e'. rx_replace uninit pa lst e = Inr (rx_active_tail e', e') \<and> 0 < m \<and> m \<le> k
    \<and> rx_ring pools e' (us @ take m fl) (drop m fl) \<and> buf_room e' (us @ take m fl) = buf_room e us + n \<and> card (pool_free e') + m = card (pool_free e)
    \<and> rx_kept e e' us \<and> (\<forall>d \<in> set (take m fl). \<not> rbd_flag EMAC_BUF_DESC_SOP (rx_ram e' d))
    \<and> (\<exists>s. rx_up e' = (rx_up e)\<lparr>is_alloc := s\<rparr>) \<and> rxif.more e' = rxif.more e
    \<and> rx_regs e' = (if rbd_flag EMAC_BUF_DESC_EOQ (rx_ram e (last us)) then EMACRxHdrDescPtrWrite EMAC_0_BASE (hd fl) 0 (rx_regs e) else rx_regs e)"
proof -
  let ?s = "is_alloc (rx_up e)" and ?F = "pool_free e"
  have mok: "memp_ok pools (al_memp ?s)" using mld by (simp add: mld_ok_def)
  have un: "unat (ucast (freed_pbuf_len e) :: u16) = n" using n(1,3) by (simp add: unsigned_ucast_eq unat_of_nat take_bit_nat_def)
  from n(2) pbuf_alloc_pool [OF fresh mok, of "ucast (freed_pbuf_len e)" k, unfolded un, OF n(2,4) n(6) [unfolded pool_free_def]] obtain c m where
    c: "pbuf_alloc uninit PBUF_RAW (ucast (freed_pbuf_len e)) PBUF_POOL ?s = Inr (c, ?s\<lparr>al_memp := m\<rparr>)" "memp_ok pools m" "c \<noteq> []" "length c \<le> k"
      "chain_len c = n" "distinct (map pbuf_addr c)" "pbuf_addr ` set c \<subseteq> ?F" "\<forall>q \<in> set c. new_buf q"
      "free_elems m = (free_elems (al_memp ?s))(MEMP_PBUF_POOL := ?F - pbuf_addr ` set c)"
    unfolding pool_free_def by (elim exE conjE)
  let ?m = "length c" and ?s1 = "?s\<lparr>al_memp := m\<rparr>"
  from put_chain_simps [OF c(6), of "put_alloc ?s1 e"] obtain pb nx where
    pc: "put_chain c (put_alloc ?s1 e) = (put_alloc ?s1 e)\<lparr>pb_at := pb, pb_next := nx\<rparr>" "links nx (map pbuf_addr c)" "\<forall>q \<in> set c. pb (pbuf_addr q) = q"
      "\<forall>a. a \<notin> pbuf_addr ` set c \<longrightarrow> pb a = pb_at e a \<and> nx a = pb_next e a"
    by (elim exE conjE) (simp add: put_alloc_def)
  let ?e1 = "(put_alloc ?s1 e)\<lparr>pb_at := pb, pb_next := nx\<rparr>"
  define gs rs where "gs = take ?m fl" and "rs = drop ?m fl"
  have len: "length c \<le> length fl" "length c = length gs" using c(4) n(5) by (simp_all add: gs_def)
  have spl: "fl = gs @ rs" by (simp add: gs_def rs_def)
  have gs: "gs \<noteq> []" using c(3) len(2) by auto
  have lk: "rx_linked (rx_ram ?e1) fl (hd us)" "rx_active_head ?e1 = hd us" "hd us \<notin> set fl" "0 \<notin> set fl" "distinct fl"
    using fl hd(1) by (auto simp: bd_linked_append put_alloc_def)
  from rx_refill_fits [OF len(1) lk, of pa lst] obtain ram where
    rf: "rx_refill pa c (hd (fl @ [hd us])) lst ?e1
        = Inr (hd (rs @ [hd us]), (if c = [] then lst else last gs), [], ?e1\<lparr>rx_ram := ram, freed_pbuf_len := freed_pbuf_len ?e1 - of_nat (chain_len c)\<rparr>)"
      "\<forall>d. d \<notin> set gs \<longrightarrow> ram d = rx_ram ?e1 d" "map ram gs = map2 (fresh_bd pa) c (map (rx_ram ?e1) gs)"
    unfolding gs_def [symmetric] rs_def [symmetric] by (elim exE conjE)
  let ?e2 = "?e1\<lparr>rx_ram := ram, freed_pbuf_len := 0\<rparr>"
  define e' where "e' = rx_append (hd (rs @ [hd us])) (last gs) ?e2"
  note fb = fresh_bds [OF len(2) rf(3)]
  have "rx_refill pa c (rx_free_head e) lst (put_chain c (put_alloc ?s1 e)) = Inr (hd (rs @ [hd us]), last gs, [], ?e2)"
    using rf(1) pc(1) c(3,5) hd(3) spl gs n(1) by (simp add: put_alloc_def)
  then have run: "rx_replace uninit pa lst e = Inr (last gs, e')"
    using c(1,3) by (cases c) (simp_all add: rx_replace_def e'_def put_alloc_def)
  have next_: "rbd_next (ram d) = rbd_next (rx_ram e d)" for d using fb rf(2) by (cases "d \<in> set gs") (auto simp: put_alloc_def)
  have "rx_linked ram (gs @ rs @ us) 0 = rx_linked (rx_ram e) (gs @ rs @ us) 0" using next_ by (intro rx_linked_cong) simp
  then have lk2: "rx_linked ram (gs @ rs @ us) 0" using fl(3) unfolding spl by simp
  have dist: "distinct (gs @ rs @ us)" using fl(1) unfolding spl by simp
  have t2: "rx_active_tail ?e2 = last us" "rx_free_head ?e2 = hd gs" "rx_ram ?e2 = ram" using hd spl gs by (simp_all add: put_alloc_def)
  note ap = rx_append_ram [OF fl(4) gs dist lk2 t2, of "hd (rs @ [hd us])", folded e'_def]
  have e': "rx_up e' = (rx_up e)\<lparr>is_alloc := ?s1\<rparr>" "pb_at e' = pb" "pb_next e' = nx" "freed_pbuf_len e' = 0" "rx_active_head e' = hd us"
    "rx_active_tail e' = last gs" "rx_free_head e' = hd (rs @ [hd us])" "rxif.more e' = rxif.more e"
    using hd(1) by (simp_all add: e'_def rx_append_def Let_def put_alloc_def)
  have pf: "pool_free e' = ?F - pbuf_addr ` set c" using e'(1) c(9) by (simp add: pool_free_def)
  have "card (pbuf_addr ` set c) = length c" using distinct_card [OF c(6)] by simp
  moreover have "finite ?F" using free_pool_elem(3) [OF mok] n(6) c(3,4,7) by (cases c) (auto simp: pool_free_def)
  ultimately have card: "card (pool_free e') + length c = card ?F"
    unfolding pf using c(7) card_mono [of ?F "pbuf_addr ` set c"] by (simp add: card_Diff_subset)
  have same: "same_bd (rx_ram e' d) (rx_ram e d)" if "d \<in> set us" for d
    using ap(2) [of d] rf(2) that dist by (auto simp: put_alloc_def)
  have bus: "bufs e' us = bufs e us" using same_bdD(1) [OF same] by (simp add: bufs_def)
  have bgs: "bufs e' gs = map pbuf_addr c" using conjunct1 [OF fb] same_bdD(1) [OF ap(2)] by (simp add: bufs_def)
  have old: "a \<notin> pbuf_addr ` set c" if "a \<in> set (bufs e us)" for a using that us c(7) by (auto simp: rx_bufs_ok_def pool_free_def)
  have kept: "rx_kept e e' us" using same pc(4) old e'(2) by (auto simp: rx_kept_def bufs_def)
  have "\<forall>q \<in> set c. pb_at e' (pbuf_addr q) = q" "links (pb_next e') (map pbuf_addr c)"
    "\<forall>a. a \<notin> pbuf_addr ` set c \<longrightarrow> pb_at e' a = pb_at e a \<and> pb_next e' a = pb_next e a"
    using pc(2-4) e'(2,3) by simp_all
  note ext = rx_bufs_ok_extend [OF us mok c(6-8) this bus bgs pf, unfolded c(5)]
  have bok: "rx_bufs_ok pools e' (us @ gs)" and room: "buf_room e' (us @ gs) = buf_room e us + n" by (fact ext)+
  have "mld_ok pools (is_mld (rx_up e')) (is_alloc (rx_up e'))" using mld c(2,9) e'(1) by (simp add: mld_ok_def)
  then have ring: "rx_ring pools e' (us @ gs) rs"
    unfolding rx_ring_def using bok e' ap(1) gs fl(2,4) dist unfolding spl by (auto simp: hd_append)
  have sop: "\<not> rbd_flag EMAC_BUF_DESC_SOP (rx_ram e' d)" if "d \<in> set gs" for d using fb that same_bdD(4) [OF ap(2)] by simp
  have regs: "rx_regs e' = (if rbd_flag EMAC_BUF_DESC_EOQ (rx_ram e (last us)) then EMACRxHdrDescPtrWrite EMAC_0_BASE (hd fl) 0 (rx_regs e) else rx_regs e)"
  proof -
    have "last us \<in> set us" "last gs \<in> set gs" using fl(4) gs by simp_all
    then have "ram (last us) = rx_ram e (last us)" "last us \<noteq> last gs" using rf(2) dist by (auto simp: put_alloc_def)
    then show ?thesis using t2(2) hd(2) gs unfolding spl by (simp add: e'_def rx_append_def Let_def put_alloc_def rbd_flag_def)
  qed
  have up: "\<exists>s. rx_up e' = (rx_up e)\<lparr>is_alloc := s\<rparr>" by (rule exI, rule e'(1))
  show ?thesis
    by (rule exI [of _ ?m], rule exI [of _ e'], unfold gs_def [symmetric] rs_def [symmetric])
      (use run up e'(6,8) c(3,4) ring room card kept sop regs in simp)
qed

text \<open>The chain that goes up holds what the engine wrote to the buffers.\<close>

lemma rx_packet_built:
  fixes e :: "('cb, 'n, 'z) rxif_scheme"
  assumes ring: "rx_ring pools e (ps @ us) fs" and us: "us \<noteq> []" and done_: "rx_done e ps"
  shows "\<exists>pb nx p. rx_collect (rbd_pktlen (rx_ram e (hd ps))) (hd ps) 0 0 e = Some (Inr (last ps, hd us, of_nat (buf_room e ps), e\<lparr>pb_at := pb, pb_next := nx\<rparr>))
    \<and> (\<forall>a. a \<notin> set (bufs e ps) \<longrightarrow> pb a = pb_at e a \<and> nx a = pb_next e a)
    \<and> chain_at pb (nx(rbd_pbuf (rx_ram e (last ps)) := 0)) (rbd_pbuf (rx_ram e (hd ps))) = Some p
    \<and> rx_packet pools p (is_alloc (rx_up e)) \<and> payload (hd p) = 0 \<and> length (pbuf_mem (hd p)) = PBUF_POOL_BUFSIZE_ALIGNED
    \<and> chain_data p = rx_data (pb_list e ps) \<and> pbuf_addr ` set p = set (bufs e ps)"
proof -
  let ?tot = "rbd_pktlen (rx_ram e (hd ps))" and ?p = "rx_pbufs (rbd_pktlen (rx_ram e (hd ps))) 0 (pb_list e ps)"
  have ne: "ps \<noteq> []" using done_ by (simp add: rx_done_def)
  have bo: "rx_bufs_ok pools e (ps @ us)" using ring by (simp add: rx_ring_def)
  have lk: "rx_linked (rx_ram e) ps (hd us)" using ring us by (simp add: rx_ring_def bd_linked_append)
  have "0 \<notin> set us" "0 \<notin> set ps" using ring by (simp_all add: rx_ring_def)
  then have "hd us \<noteq> 0" "0 \<notin> set ps" using hd_in_set [OF us] by auto
  moreover have "0 \<notin> set (bufs e ps)" "distinct (bufs e ps @ bufs e us)" "links (pb_next e) (bufs e ps @ bufs e us)" using bo by (auto simp: rx_bufs_ok_def)
  moreover have "\<forall>d \<in> set (butlast ps). \<not> rbd_flag EMAC_BUF_DESC_EOP (rx_ram e d)" "rbd_flag EMAC_BUF_DESC_EOP (rx_ram e (last ps))"
    using done_ by (simp_all add: rx_done_def)
  ultimately have "\<exists>pb nx. rx_collect ?tot (hd ps) 0 0 e = Some (Inr (last ps, hd us, 0 + of_nat (buf_room e ps), e\<lparr>pb_at := pb, pb_next := nx\<rparr>))
      \<and> (\<forall>a. a \<notin> set (bufs e ps) \<longrightarrow> pb a = pb_at e a \<and> nx a = pb_next e a)
      \<and> chain_at pb (nx(last (bufs e ps) := 0)) (hd (bufs e ps)) = Some ?p"
    by (rule rx_collect_packet [OF ne lk])
  then obtain pb nx where col: "rx_collect ?tot (hd ps) 0 0 e = Some (Inr (last ps, hd us, of_nat (buf_room e ps), e\<lparr>pb_at := pb, pb_next := nx\<rparr>))"
      "\<forall>a. a \<notin> set (bufs e ps) \<longrightarrow> pb a = pb_at e a \<and> nx a = pb_next e a" "chain_at pb (nx(last (bufs e ps) := 0)) (hd (bufs e ps)) = Some ?p"
    by (elim exE conjE) (simp del: fun_upd_apply)
  have lasts: "last (bufs e ps) = rbd_pbuf (rx_ram e (last ps))" "hd (bufs e ps) = rbd_pbuf (rx_ram e (hd ps))"
    using ne by (simp_all add: bufs_def last_map hd_map)
  have tot: "unat ?tot = 0 + rx_lens (pb_list e ps)" "rx_lens (pb_list e ps) \<le> 1518" using done_ by (simp_all add: rx_done_def)
  have "\<forall>(bd, b) \<in> set (pb_list e ps). new_buf b \<and> 0 < unat (rbd_len bd) \<and> unat (rbd_len bd) \<le> unat (p_len b)"
    using done_ bo by (auto simp: rx_done_def rx_bufs_ok_def pb_list_def bufs_def)
  note ch = rx_pbufs_chain [OF tot(1) _ this, of 0, simplified]
  have ad: "map pbuf_addr ?p = bufs e ps" using bo by (auto simp: pb_list_def bufs_def rx_bufs_ok_def)
  have np: "?p \<noteq> []" using ne by (cases ps) (simp_all add: pb_list_def)
  then obtain b bs where p: "?p = b # bs" by (cases ?p) auto
  have tl: "unat (tot_len (hd ?p)) \<le> 1518" using ch p tot by simp
  have ab: "pbuf_addr ` set ?p = set (bufs e ps)" unfolding ad [symmetric] by (rule set_map [symmetric])
  have mem: "pbuf_addr q \<in> set (pool_elems (pools MEMP_PBUF_POOL)) - free_elems (al_memp (is_alloc (rx_up e))) MEMP_PBUF_POOL" if "q \<in> set ?p" for q
  proof -
    have "pbuf_addr q \<in> set (bufs e ps)" unfolding ab [symmetric] using that by simp
    then show ?thesis using bo by (simp add: rx_bufs_ok_def)
  qed
  have "rx_packet pools ?p (is_alloc (rx_up e))"
    unfolding rx_packet_def tight_chain_def
    using ch np mem ad tl ring bo p by (simp add: rx_ring_def mld_ok_def rx_bufs_ok_def)
  moreover have "payload (hd ?p) = 0" "length (pbuf_mem (hd ?p)) = PBUF_POOL_BUFSIZE_ALIGNED"
    using ch p by (simp_all add: PBUF_POOL_BUFSIZE_ALIGNED_def)
  ultimately show ?thesis
    using col [unfolded lasts] ch ab by (intro exI [of _ pb] exI [of _ nx] exI [of _ ?p]) (simp del: fun_upd_apply)
qed

lemma rx_bufs_ok_us:
  assumes "rx_bufs_ok pools e (ps @ us)" "\<forall>a. a \<notin> set (bufs e ps) \<longrightarrow> pb_at e' a = pb_at e a \<and> pb_next e' a = pb_next e a" "rx_ram e' = rx_ram e"
    "pool_free e' = pool_free e \<union> set (bufs e ps)"
  shows "rx_bufs_ok pools e' us"
proof -
  have b: "bufs e' us = bufs e us" using assms(3) by (simp add: bufs_def)
  have d: "a \<notin> set (bufs e ps)" if "a \<in> set (bufs e us)" for a using assms(1) that by (auto simp: rx_bufs_ok_def)
  have "links (pb_next e') (bufs e us) = links (pb_next e) (bufs e us)" using assms(2) d by (intro links_cong) simp
  then have "links (pb_next e') (bufs e us)" using assms(1) links_appendD by (auto simp: rx_bufs_ok_def)
  then show ?thesis using assms(1,2,4) d by (simp add: rx_bufs_ok_def b pool_free_def)
qed

lemma card_pool_free_add:
  assumes "rx_bufs_ok pools e (ps @ us)" "memp_ok pools (al_memp (is_alloc (rx_up e)))" "pool_free e' = pool_free e \<union> set (bufs e ps)"
  shows "card (pool_free e') = card (pool_free e) + length ps"
proof -
  have "finite (pool_free e)" using free_pool_elem(3) [OF assms(2)] by (cases "pool_free e = {}") (auto simp: pool_free_def)
  moreover have "pool_free e \<inter> set (bufs e ps) = {}" using assms(1) by (auto simp: rx_bufs_ok_def pool_free_def)
  moreover have "card (set (bufs e ps)) = length ps" using assms(1) by (simp add: distinct_card rx_bufs_ok_def)
  ultimately show ?thesis unfolding assms(3) by (simp add: card_Un_disjoint)
qed

lemma rx_receive_ring:
  fixes e :: "('cb, 'n, 'z) rxif_scheme"
  assumes ring: "rx_ring pools e (ps @ us) fs" and us: "us \<noteq> []" and done_: "rx_done e ps" and inp: "input_ok pools input" and fresh: "fresh_ok uninit"
  shows "\<exists>p st' gs rs e'. rx_receive input uninit pa lst e = Inr (rx_active_tail e', e') \<and> input p (rx_up e) = Inr st' \<and> chain_data p = rx_data (pb_list e ps)
    \<and> (\<exists>s. rx_up e' = st'\<lparr>is_alloc := s\<rparr>) \<and> rxif.more e' = rxif.more e \<and> rx_ring pools e' (us @ gs) rs \<and> gs @ rs = fs @ ps \<and> gs \<noteq> []
    \<and> buf_room e' (us @ gs) = buf_room e (ps @ us) \<and> card (pool_free e') + length gs = card (pool_free e) + length ps
    \<and> rx_kept e e' us \<and> (\<forall>d \<in> set gs. \<not> rbd_flag EMAC_BUF_DESC_SOP (rx_ram e' d))
    \<and> rx_regs e' = (let r = EMACRxCPWrite EMAC_0_BASE 0 (last ps) (rx_regs e)
                    in if rbd_flag EMAC_BUF_DESC_EOQ (rx_ram e (last us)) then EMACRxHdrDescPtrWrite EMAC_0_BASE (hd (fs @ ps)) 0 r else r)"
proof -
  define fr where "fr = (if rx_free_head e = 0 then rx_active_head e else rx_free_head e)"
  let ?e0 = "e\<lparr>rx_free_head := fr\<rparr>"
  have ne: "ps \<noteq> []" using done_ by (simp add: rx_done_def)
  have nf: "hd fs \<noteq> 0" if "fs \<noteq> []" using ring hd_in_set [OF that] by (auto simp: rx_ring_def)
  have head: "rx_active_head e = hd ps" using ring ne by (simp add: rx_ring_def)
  have fh: "fr = hd (fs @ ps)" using ring ne nf by (auto simp: fr_def rx_ring_def hd_append)
  have b0: "bufs ?e0 ds = bufs e ds" "pb_list ?e0 ds = pb_list e ds" "buf_room ?e0 ds = buf_room e ds" for ds
    by (simp_all add: bufs_def pb_list_def buf_room_def)
  have ring0: "rx_ring pools ?e0 (ps @ us) fs" using ring fh ne unfolding rx_ring_def rx_bufs_ok_def b0 by (auto simp: hd_append)
  have done0: "rx_done ?e0 ps" using done_ unfolding rx_done_def b0 by simp
  from rx_packet_built [OF ring0 us done0] obtain pb nx p where
    col: "rx_collect (rbd_pktlen (rx_ram e (hd ps))) (hd ps) 0 0 ?e0 = Some (Inr (last ps, hd us, of_nat (buf_room e ps), ?e0\<lparr>pb_at := pb, pb_next := nx\<rparr>))"
      "\<forall>a. a \<notin> set (bufs e ps) \<longrightarrow> pb a = pb_at e a \<and> nx a = pb_next e a"
      "chain_at pb (nx(rbd_pbuf (rx_ram e (last ps)) := 0)) (rbd_pbuf (rx_ram e (hd ps))) = Some p"
    and p: "rx_packet pools p (is_alloc (rx_up e))" "payload (hd p) = 0" "length (pbuf_mem (hd p)) = PBUF_POOL_BUFSIZE_ALIGNED"
      "chain_data p = rx_data (pb_list e ps)" "pbuf_addr ` set p = set (bufs e ps)"
    unfolding b0 by (elim exE conjE) (simp del: fun_upd_apply)
  have mld: "mld_ok pools (is_mld (rx_up e)) (is_alloc (rx_up e))" and bo: "rx_bufs_ok pools e (ps @ us)" and fl0: "freed_pbuf_len e = 0" using ring by (simp_all add: rx_ring_def)
  obtain st' where st': "input p (rx_up e) = Inr st'" "st_freed pools p (rx_up e) st'" using inp p(1-3) mld by (auto simp: input_ok_def)
  let ?nx = "nx(rbd_pbuf (rx_ram e (last ps)) := 0)"
  define e3 where "e3 = e\<lparr>rx_free_head := fr, pb_at := pb, pb_next := ?nx, rx_up := st', rx_regs := EMACRxCPWrite EMAC_0_BASE 0 (last ps) (rx_regs e),
    rx_active_head := hd us, freed_pbuf_len := of_nat (buf_room e ps)\<rparr>"
  have run: "rx_receive input uninit pa lst e = rx_replace uninit pa lst e3"
    unfolding rx_receive_def e3_def Let_def fr_def [symmetric] using head col(1,3) st'(1) fl0 by (simp del: fun_upd_apply)
  have e3: "rx_ram e3 = rx_ram e" "rx_up e3 = st'" "rx_active_head e3 = hd us" "rx_active_tail e3 = last us" "rx_free_head e3 = hd (fs @ ps)"
    "freed_pbuf_len e3 = of_nat (buf_room e ps)"
    using ring us unfolding e3_def fh by (simp_all add: rx_ring_def)
  have lastb: "rbd_pbuf (rx_ram e (last ps)) \<in> set (bufs e ps)" using ne by (simp add: bufs_def)
  have frame: "\<forall>a. a \<notin> set (bufs e ps) \<longrightarrow> pb_at e3 a = pb_at e a \<and> pb_next e3 a = pb_next e a" using col(2) lastb by (auto simp: e3_def)
  have pf: "pool_free e3 = pool_free e \<union> set (bufs e ps)" using st'(2) p(5) e3(2) by (simp add: st_freed_def freed_def pool_free_def)
  have bo3: "rx_bufs_ok pools e3 us" by (rule rx_bufs_ok_us [OF bo frame e3(1) pf])
  have card: "card (pool_free e3) = card (pool_free e) + length ps" using mld by (intro card_pool_free_add [OF bo _ pf]) (simp add: mld_ok_def)
  have mld3: "mld_ok pools (is_mld (rx_up e3)) (is_alloc (rx_up e3))" using st'(2) e3(2) by (simp add: st_freed_def)
  have nb: "\<forall>a \<in> set (bufs e ps). new_buf (pb_at e a)" using bo by (simp add: rx_bufs_ok_def)
  note room = rx_done_room [OF done_ nb]
  have lk: "distinct ((fs @ ps) @ us)" "0 \<notin> set ((fs @ ps) @ us)" "rx_linked (rx_ram e3) ((fs @ ps) @ us) 0"
    using ring e3(1) by (simp_all add: rx_ring_def)
  have ks: "buf_room e ps < 65536" "length ps \<le> length (fs @ ps)" "length ps \<le> card (pool_free e3)" using room(2) card by simp_all
  from rx_replace_ring [OF lk us e3(3-6) room(1) ks(1) room(3) ks(2,3) bo3 mld3 fresh, of pa lst] obtain m e' s where
    r: "rx_replace uninit pa lst e3 = Inr (rx_active_tail e', e')" "0 < m" "m \<le> length ps" "rx_ring pools e' (us @ take m (fs @ ps)) (drop m (fs @ ps))"
      "buf_room e' (us @ take m (fs @ ps)) = buf_room e3 us + buf_room e ps" "card (pool_free e') + m = card (pool_free e3)" "rx_kept e3 e' us"
      "\<forall>d \<in> set (take m (fs @ ps)). \<not> rbd_flag EMAC_BUF_DESC_SOP (rx_ram e' d)" "rx_up e' = (rx_up e3)\<lparr>is_alloc := s\<rparr>" "rxif.more e' = rxif.more e3"
      "rx_regs e' = (if rbd_flag EMAC_BUF_DESC_EOQ (rx_ram e3 (last us)) then EMACRxHdrDescPtrWrite EMAC_0_BASE (hd (fs @ ps)) 0 (rx_regs e3) else rx_regs e3)"
    by (elim exE conjE)
  define gs rs where "gs = take m (fs @ ps)" and "rs = drop m (fs @ ps)"
  have "gs @ rs = fs @ ps" unfolding gs_def rs_def by (rule append_take_drop_id)
  moreover have "length gs = m" using r(3) by (simp add: gs_def)
  ultimately have gs: "gs @ rs = fs @ ps" "gs \<noteq> []" "length gs = m" using r(2) by auto
  have "pb_at e3 (rbd_pbuf (rx_ram e d)) = pb_at e (rbd_pbuf (rx_ram e d))" if "d \<in> set us" for d
    using frame bo that by (auto simp: rx_bufs_ok_def bufs_def)
  then have us3: "buf_room e3 us = buf_room e us" "rx_kept e e' us"
    using r(7) e3(1) by (auto simp: rx_kept_def buf_room_def intro!: arg_cong [where f = sum_list])
  have up: "\<exists>s. rx_up e' = st'\<lparr>is_alloc := s\<rparr>" by (rule exI [of _ s]) (simp only: r(9) e3(2))
  show ?thesis
    by (rule exI [of _ p], rule exI [of _ st'], rule exI [of _ gs], rule exI [of _ rs], rule exI [of _ e'])
      (use run up r(1-8,10,11) [folded gs_def rs_def] st'(1) p(4) gs us3 e3(1) card in \<open>simp add: e3_def Let_def\<close>)
qed


section \<open>The receive interrupt\<close>

text \<open>
  The packets \<open>pss\<close> are complete and wait in this order; the descriptors \<open>us\<close> behind them, if any, hold nothing yet. The buffers are large
  enough together that no packet takes all of them: its last buffer takes 1400 bytes at most, and what is before it less than the 1518 of a frame.
\<close>

definition rx_state :: "(memp_t \<Rightarrow> memp_desc) \<Rightarrow> ('cb, 'n, 'z) rxif_scheme \<Rightarrow> u32 list list \<Rightarrow> u32 list \<Rightarrow> u32 list \<Rightarrow> bool" where
  "rx_state pools e pss us fs \<longleftrightarrow> rx_ring pools e (concat pss @ us) fs \<and> 2918 \<le> buf_room e (concat pss @ us) \<and> (\<forall>ps \<in> set pss. rx_done e ps)
     \<and> (\<forall>d \<in> set us. \<not> rbd_flag EMAC_BUF_DESC_SOP (rx_ram e d))"

definition rx_frames :: "('cb, 'n, 'z) rxif_scheme \<Rightarrow> u32 list list \<Rightarrow> bytes list" where
  "rx_frames e pss = map (\<lambda>ps. rx_data (pb_list e ps)) pss"

lemma rx_kept_list:
  assumes "rx_kept e e' us" "set ps \<subseteq> set us"
  shows "rx_data (pb_list e' ps) = rx_data (pb_list e ps)" "rx_lens (pb_list e' ps) = rx_lens (pb_list e ps)"
proof -
  have d: "rbd_len (rx_ram e' d) = rbd_len (rx_ram e d) \<and> pb_at e' (rbd_pbuf (rx_ram e' d)) = pb_at e (rbd_pbuf (rx_ram e d))" if "d \<in> set ps" for d
    using assms that same_bdD [of "rx_ram e' d" "rx_ram e d"] by (auto simp: rx_kept_def)
  then show "rx_data (pb_list e' ps) = rx_data (pb_list e ps)" by (auto simp: rx_data_def pb_list_def intro!: arg_cong [where f = concat])
  show "rx_lens (pb_list e' ps) = rx_lens (pb_list e ps)" using d by (auto simp: rx_lens_def pb_list_def intro!: arg_cong [where f = sum_list])
qed

lemma rx_kept_done:
  assumes "rx_kept e e' us" "set ps \<subseteq> set us" "rx_done e ps"
  shows "rx_done e' ps"
proof -
  have s: "same_bd (rx_ram e' d) (rx_ram e d)" "pb_at e' (rbd_pbuf (rx_ram e d)) = pb_at e (rbd_pbuf (rx_ram e d))" if "d \<in> set ps" for d
    using assms(1,2) that by (auto simp: rx_kept_def)
  have ne: "hd ps \<in> set ps" "last ps \<in> set ps" using assms(3) by (simp_all add: rx_done_def)
  have b: "d \<in> set ps" if "d \<in> set (butlast ps)" for d using that by (rule in_set_butlastD)
  show ?thesis
    using assms(3) same_bdD [OF s(1)] s(2) ne b unfolding rx_done_def rx_kept_list(2) [OF assms(1,2)] by auto
qed

text \<open>One round of the loop takes the first packet.\<close>

lemma rx_receive_state:
  fixes e :: "('cb, 'n, 'z) rxif_scheme"
  assumes st: "rx_state pools e (ps # pss) us fs" and inp: "input_ok pools input" "fresh_ok uninit"
  shows "\<exists>p st' gs rs e'. rx_receive input uninit pa lst e = Inr (rx_active_tail e', e') \<and> input p (rx_up e) = Inr st' \<and> chain_data p = rx_data (pb_list e ps)
    \<and> (\<exists>s. rx_up e' = st'\<lparr>is_alloc := s\<rparr>) \<and> rxif.more e' = rxif.more e \<and> rx_state pools e' pss (us @ gs) rs \<and> rx_frames e' pss = rx_frames e pss"
proof -
  let ?us = "concat pss @ us"
  have ring0: "rx_ring pools e (ps @ ?us) fs" "rx_done e ps" using st by (simp_all add: rx_state_def)
  have "\<forall>a \<in> set (bufs e ps). new_buf (pb_at e a)" using ring0(1) by (simp add: rx_ring_def rx_bufs_ok_def)
  note small = rx_done_room(2) [OF ring0(2) this]
  have "2918 \<le> buf_room e (ps @ ?us)" using st by (simp add: rx_state_def)
  then have "0 < buf_room e ?us" using small unfolding buf_room_simps(3) [of e ps ?us] by linarith
  then have "?us \<noteq> []" by (cases "?us = []") (simp_all del: append_is_Nil_conv buf_room_simps(3))
  note ring = ring0(1) this ring0(2)
  from rx_receive_ring [OF ring inp, of pa lst] obtain p st' gs rs e' s where
    r: "rx_receive input uninit pa lst e = Inr (rx_active_tail e', e')" "input p (rx_up e) = Inr st'" "chain_data p = rx_data (pb_list e ps)"
      "rx_up e' = st'\<lparr>is_alloc := s\<rparr>" "rxif.more e' = rxif.more e" "rx_ring pools e' (?us @ gs) rs" "rx_kept e e' ?us" "buf_room e' (?us @ gs) = buf_room e (ps @ ?us)"
      "\<forall>d \<in> set gs. \<not> rbd_flag EMAC_BUF_DESC_SOP (rx_ram e' d)"
    by (elim exE conjE)
  have sub: "set ps' \<subseteq> set ?us" if "ps' \<in> set pss" for ps' using that by auto
  have "rx_done e' ps'" if "ps' \<in> set pss" for ps'
    using rx_kept_done [OF r(7) sub [OF that]] st that by (simp add: rx_state_def)
  moreover have "\<not> rbd_flag EMAC_BUF_DESC_SOP (rx_ram e' d)" if "d \<in> set us" for d
    using r(7) that st same_bdD(4) [of "rx_ram e' d" "rx_ram e d"] by (auto simp: rx_kept_def rx_state_def)
  moreover have "2918 \<le> buf_room e' (concat pss @ us @ gs)" using r(8) st by (simp add: rx_state_def)
  ultimately have "rx_state pools e' pss (us @ gs) rs" using r(6,9) by (auto simp: rx_state_def)
  moreover have "rx_frames e' pss = rx_frames e pss" using rx_kept_list(1) [OF r(7) sub] by (simp add: rx_frames_def)
  moreover have "\<exists>s. rx_up e' = st'\<lparr>is_alloc := s\<rparr>" by (rule exI, rule r(4))
  ultimately show ?thesis using r(1-3,5) by (intro exI [of _ p] exI [of _ st'] exI [of _ gs] exI [of _ rs] exI [of _ e']) simp
qed

text \<open>
  What the engine may do between two rounds: it completes packets in the descriptors behind the ones it completed before, with the next frames
  of the wire, until it has used them all. \<open>wire\<close> reads the frames that are still to come from the part of the state that the
  driver does not know.
\<close>

definition dma_ok :: "(memp_t \<Rightarrow> memp_desc) \<Rightarrow> ('z \<Rightarrow> bytes list) \<Rightarrow> (('cb, 'n, 'z) rxif_scheme \<Rightarrow> ('cb, 'n, 'z) rxif_scheme) \<Rightarrow> bool" where
  "dma_ok pools wire dma \<longleftrightarrow> (\<forall>e pss us fs. rx_state pools e pss us fs \<longrightarrow>
     (\<exists>qss vs. rx_state pools (dma e) (pss @ qss) vs fs \<and> us = concat qss @ vs \<and> rx_up (dma e) = rx_up e
        \<and> rx_frames (dma e) pss = rx_frames e pss \<and> wire (rxif.more e) = rx_frames (dma e) qss @ wire (rxif.more (dma e))))"

text \<open>The input function takes packets with these frames, in this order; the driver changes nothing but the allocators in between.\<close>

inductive takes ::
  "(chain \<Rightarrow> ('cb, 'n) ip6_state \<Rightarrow> ('cb, 'n) ip6_state result) \<Rightarrow> bytes list \<Rightarrow> ('cb, 'n) ip6_state \<Rightarrow> ('cb, 'n) ip6_state \<Rightarrow> bool"
  for input where
  takes_none: "takes input [] st st"
| takes_frame: "input p st = Inr st1 \<Longrightarrow> takes input fs (st1\<lparr>is_alloc := s\<rparr>) st' \<Longrightarrow> takes input (chain_data p # fs) st st'"

lemma rx_state_head:
  assumes "rx_state pools e pss us fs"
  shows "rx_active_head e \<noteq> 0" "rbd_flag EMAC_BUF_DESC_SOP (rx_ram e (rx_active_head e)) \<longleftrightarrow> pss \<noteq> []"
    "pss \<noteq> [] \<Longrightarrow> \<not> rbd_flag EMAC_BUF_DESC_OWNER (rx_ram e (rx_active_head e))"
proof -
  have h: "rx_active_head e = hd (concat pss @ us)" "concat pss @ us \<noteq> []" "0 \<notin> set (concat pss @ us)"
    using assms by (simp_all add: rx_state_def rx_ring_def)
  show "rx_active_head e \<noteq> 0" using h hd_in_set [OF h(2)] by metis
  show "rbd_flag EMAC_BUF_DESC_SOP (rx_ram e (rx_active_head e)) \<longleftrightarrow> pss \<noteq> []"
    using assms h(1,2) hd_in_set [of us] by (cases pss) (auto simp: rx_state_def rx_done_def)
  show "\<not> rbd_flag EMAC_BUF_DESC_OWNER (rx_ram e (rx_active_head e))" if "pss \<noteq> []"
    using assms h(1) that by (cases pss) (auto simp: rx_state_def rx_done_def)
qed

lemma rx_int_loop_delivers:
  fixes e :: "('cb, 'n, 'z) rxif_scheme"
  assumes "rx_state pools e pss us fs" "input_ok pools input" "fresh_ok uninit" "dma_ok pools wire dma"
  shows "\<exists>e' us' fs' got. rx_int_loop input uninit pa dma lst e = Some (Inr e') \<and> rx_state pools e' [] us' fs'
    \<and> takes input got (rx_up e) (rx_up e') \<and> rx_frames e pss @ wire (rxif.more e) = got @ wire (rxif.more e')"
  using assms(1)
proof (induction "length pss + length (wire (rxif.more e))" arbitrary: e pss us fs lst rule: less_induct)
  case less
  from assms(4) less.prems obtain qss vs where
    q: "rx_state pools (dma e) (pss @ qss) vs fs" "rx_up (dma e) = rx_up e" "rx_frames (dma e) pss = rx_frames e pss"
      "wire (rxif.more e) = rx_frames (dma e) qss @ wire (rxif.more (dma e))"
    unfolding dma_ok_def by blast
  note h = rx_state_head [OF q(1)]
  show ?case
  proof (cases "pss @ qss")
    case Nil
    then have "rx_int_loop input uninit pa dma lst e = Some (Inr (dma e))"
      using h by (subst rx_int_loop.simps) (simp add: Let_def)
    moreover have "takes input [] (rx_up e) (rx_up (dma e))" unfolding q(2) by (rule takes_none)
    ultimately show ?thesis using q Nil by (intro exI [of _ "dma e"] exI [of _ vs] exI [of _ fs] exI [of _ "[]"]) (simp add: rx_frames_def)
  next
    case (Cons ps rss)
    from rx_receive_state [OF q(1) [unfolded Cons] assms(2,3), of pa lst] obtain p st' gs rs e' s where
      r: "rx_receive input uninit pa lst (dma e) = Inr (rx_active_tail e', e')" "input p (rx_up (dma e)) = Inr st'" "chain_data p = rx_data (pb_list (dma e) ps)"
        "rx_up e' = st'\<lparr>is_alloc := s\<rparr>" "rxif.more e' = rxif.more (dma e)" "rx_state pools e' rss (vs @ gs) rs" "rx_frames e' rss = rx_frames (dma e) rss"
      by (elim exE conjE)
    have "length rss + length (wire (rxif.more e')) < length pss + length (wire (rxif.more e))"
      using arg_cong [OF Cons, of length] q(4) r(5) by (simp add: rx_frames_def)
    from less.hyps [OF this r(6), of "rx_active_tail e'"] obtain e2 us' fs' got where
      IH: "rx_int_loop input uninit pa dma (rx_active_tail e') e' = Some (Inr e2)" "rx_state pools e2 [] us' fs'"
        "takes input got (rx_up e') (rx_up e2)" "rx_frames e' rss @ wire (rxif.more e') = got @ wire (rxif.more e2)"
      by (elim exE conjE)
    have run: "rx_int_loop input uninit pa dma lst e = rx_int_loop input uninit pa dma (rx_active_tail e') e'"
      using h Cons r(1) by (subst rx_int_loop.simps) (simp add: Let_def)
    have t: "takes input (chain_data p # got) (rx_up e) (rx_up e2)"
      using r(2) IH(3) unfolding r(4) q(2) by (rule takes_frame)
    have "rx_frames e pss @ rx_frames (dma e) qss = rx_data (pb_list (dma e) ps) # rx_frames (dma e) rss"
      unfolding q(3) [symmetric] using arg_cong [OF Cons, of "rx_frames (dma e)"] by (simp add: rx_frames_def)
    then have "rx_frames e pss @ wire (rxif.more e) = (chain_data p # got) @ wire (rxif.more e2)"
      using IH(4) unfolding q(4) r(3,5,7) append_assoc [symmetric] by simp
    then show ?thesis using run IH(1,2) t by (intro exI [of _ e2] exI [of _ us'] exI [of _ fs'] exI [of _ "chain_data p # got"]) simp
  qed
qed


section \<open>Set-up of the receive descriptors\<close>

definition rx_bd :: "nat \<Rightarrow> u32" where
  "rx_bd i = EMAC_CTRL_RAM_0_BASE + of_nat NUM_TX_BD * sizeof_bdp + sizeof_bdp + of_nat i * sizeof_bdp"

lemma rx_bd_addr: "i < 1000 \<Longrightarrow> unat (rx_bd i) = 0xFC521004 + 20 * i"
proof -
  assume i: "i < 1000"
  have eq: "rx_bd i = of_nat (0xFC521004 + 20 * i)" by (simp add: rx_bd_def EMAC_CTRL_RAM_0_BASE_def NUM_TX_BD_def sizeof_bdp_def)
  have "0xFC521004 + 20 * i < 2 ^ LENGTH(32)" using i by simp
  then show ?thesis by (simp only: eq unsigned_of_nat take_bit_nat_eq_self of_nat_id)
qed

lemma rx_bd_simps: "rx_bd 0 = EMAC_CTRL_RAM_0_BASE + of_nat NUM_TX_BD * sizeof_bdp + sizeof_bdp" "rx_bd i + sizeof_bdp = rx_bd (Suc i)"
  by (simp_all add: rx_bd_def algebra_simps)

lemma rx_bd_eq: "i < 1000 \<Longrightarrow> j < 1000 \<Longrightarrow> rx_bd i = rx_bd j \<longleftrightarrow> i = j"
  using rx_bd_addr by (metis add_left_imp_eq mult_left_cancel zero_neq_numeral)

lemma rx_bd_nonzero: "i < 1000 \<Longrightarrow> rx_bd i \<noteq> 0"
  using rx_bd_addr [of i] by auto

lemma rx_bd_not_in: "n \<le> m \<Longrightarrow> m < 1000 \<Longrightarrow> rx_bd m \<notin> rx_bd ` {..<n}"
  by (auto simp: rx_bd_eq)

definition rx_filled :: "(memp_t \<Rightarrow> memp_desc) \<Rightarrow> ('cb, 'n, 'z) rxif_scheme \<Rightarrow> nat \<Rightarrow> bool" where
  "rx_filled pools e n \<longleftrightarrow> rx_linked (rx_ram e) (map rx_bd [0..<n]) (rx_bd n) \<and> rx_bufs_ok pools e (map rx_bd [0..<n])
     \<and> (\<forall>a \<in> set (bufs e (map rx_bd [0..<n])). 114 \<le> unat (p_len (pb_at e a)))
     \<and> (\<forall>i < n. \<not> rbd_flag EMAC_BUF_DESC_SOP (rx_ram e (rx_bd i))) \<and> mld_ok pools (is_mld (rx_up e)) (is_alloc (rx_up e))"

lemma two_buffers:
  assumes "length c \<le> 2" "chain_len c = 1514" "\<forall>q \<in> set c. new_buf q"
  shows "\<exists>a b. c = [a, b]"
proof -
  have "chain_len c \<le> 1400 * length c" using assms(3) by (induction c) (auto simp: new_buf_def)
  then have "length c = Suc (Suc 0)" using assms(1,2) by simp
  then show ?thesis by (auto simp: length_Suc_conv)
qed

lemma rx_init_step:
  fixes e :: "('cb, 'n, 'z) rxif_scheme"
  assumes inv: "rx_filled pools e n" and n: "n \<le> 40" and card: "2 \<le> card (pool_free e)" and fresh: "fresh_ok uninit"
  shows "\<exists>e'. (\<forall>k num_bd lst. 2 \<le> num_bd \<longrightarrow> rx_init_loop uninit pa (Suc k) num_bd (rx_bd n) lst e
        = rx_init_loop uninit pa k (num_bd - 2) (rx_bd (n + 2)) (rx_bd (n + 1)) e')
    \<and> rx_filled pools e' (n + 2) \<and> card (pool_free e') + 2 = card (pool_free e) \<and> buf_room e' (map rx_bd [0..<n + 2]) = buf_room e (map rx_bd [0..<n]) + 1514
    \<and> rx_active_head e' = rx_active_head e \<and> rx_free_head e' = rx_free_head e \<and> freed_pbuf_len e' = freed_pbuf_len e \<and> rxif.more e' = rxif.more e \<and> rx_regs e' = rx_regs e"
proof -
  let ?s = "is_alloc (rx_up e)" and ?F = "pool_free e" and ?ds = "map rx_bd [0..<n]" and ?gs = "[rx_bd n, rx_bd (n + 1)]"
  have mok: "memp_ok pools (al_memp ?s)" and bo: "rx_bufs_ok pools e ?ds" using inv by (simp_all add: rx_filled_def mld_ok_def)
  have len: "unat PBUF_LEN_MAX = 1514" by (simp add: PBUF_LEN_MAX_def)
  from len pbuf_alloc_pool [OF fresh mok, of PBUF_LEN_MAX 2, unfolded len, OF _ _ card [unfolded pool_free_def]] obtain c m where
    c: "pbuf_alloc uninit PBUF_RAW PBUF_LEN_MAX PBUF_POOL ?s = Inr (c, ?s\<lparr>al_memp := m\<rparr>)" "memp_ok pools m" "length c \<le> 2"
      "chain_len c = 1514" "distinct (map pbuf_addr c)" "pbuf_addr ` set c \<subseteq> ?F" "\<forall>q \<in> set c. new_buf q"
      "free_elems m = (free_elems (al_memp ?s))(MEMP_PBUF_POOL := ?F - pbuf_addr ` set c)"
    unfolding pool_free_def by (auto simp: pool_free_def)
  obtain a b where ab: "c = [a, b]" using two_buffers [OF c(3,4,7)] by blast
  let ?e1 = "put_alloc (?s\<lparr>al_memp := m\<rparr>) e"
  from put_chain_simps [OF c(5), of ?e1] obtain pb nx where
    pc: "put_chain c ?e1 = ?e1\<lparr>pb_at := pb, pb_next := nx\<rparr>" "links nx (map pbuf_addr c)" "\<forall>q \<in> set c. pb (pbuf_addr q) = q"
      "\<forall>a. a \<notin> pbuf_addr ` set c \<longrightarrow> pb a = pb_at e a \<and> nx a = pb_next e a"
    by (elim exE conjE) (simp add: put_alloc_def)
  define bdf where "bdf = (\<lambda>i q. \<lparr>rbd_next = hdkif_swizzle_data (rx_bd (Suc i)), rbd_bufptr = hdkif_swizzle_data (pa q),
    rbd_bufoff_len = hdkif_swizzle_data (ucast (p_len q)), rbd_flags_pktlen = hdkif_swizzle_data EMAC_BUF_DESC_OWNER, rbd_pbuf = pbuf_addr q\<rparr>)"
  define ram where "ram = (rx_ram e)(rx_bd n := bdf n a, rx_bd (n + 1) := bdf (n + 1) b)"
  have fill: "rx_fill_bds pa c (rx_bd n) lst (rx_ram e) = (rx_bd (n + 2), rx_bd (n + 1), ram)" for lst
    by (simp add: ab rx_bd_simps ram_def bdf_def)
  define e' where "e' = ?e1\<lparr>pb_at := pb, pb_next := nx, rx_ram := ram\<rparr>"
  have cl: "unat (pbuf_clen [a, b]) = 2" by (simp add: pbuf_clen_def)
  have two: "x - Suc (Suc 0) = x - 2" for x :: nat by simp
  have run: "rx_init_loop uninit pa (Suc k) num_bd (rx_bd n) lst e = rx_init_loop uninit pa k (num_bd - 2) (rx_bd (n + 2)) (rx_bd (n + 1)) e'"
    if "2 \<le> num_bd" for k num_bd lst
    using that c(1) fill [of lst] pc(1) two by (simp add: ab e'_def cl del: rx_fill_bds.simps)
  have old: "ram (rx_bd i) = rx_ram e (rx_bd i)" if "i < n" for i using that n by (simp add: ram_def rx_bd_eq)
  have new: "ram (rx_bd n) = bdf n a" "ram (rx_bd (n + 1)) = bdf (n + 1) b" using n by (simp_all add: ram_def rx_bd_eq)
  have e': "rx_ram e' = ram" "pb_at e' = pb" "pb_next e' = nx" "rx_up e' = (rx_up e)\<lparr>is_alloc := ?s\<lparr>al_memp := m\<rparr>\<rparr>" by (simp_all add: e'_def put_alloc_def)
  have bus: "bufs e' ?ds = bufs e ?ds" using old by (simp add: bufs_def e'(1))
  have bgs: "bufs e' ?gs = map pbuf_addr c" using new by (simp add: bufs_def e'(1) ab bdf_def)
  have pf: "pool_free e' = ?F - pbuf_addr ` set c" using c(8) by (simp add: pool_free_def e'(4))
  have fin: "finite ?F" using card by (metis card.infinite not_numeral_le_zero)
  have "card (pbuf_addr ` set c) = 2" using distinct_card [OF c(5)] ab by simp
  then have card': "card (pool_free e') + 2 = card ?F" unfolding pf using c(6) card fin by (simp add: card_Diff_subset finite_subset)
  have pbs: "\<forall>q \<in> set c. pb_at e' (pbuf_addr q) = q" "links (pb_next e') (map pbuf_addr c)"
    "\<forall>a. a \<notin> pbuf_addr ` set c \<longrightarrow> pb_at e' a = pb_at e a \<and> pb_next e' a = pb_next e a" using pc(2-4) by (simp_all add: e')
  note ext = rx_bufs_ok_extend [OF bo mok c(5-7) pbs bus bgs pf]
  have ds: "?ds @ ?gs = map rx_bd [0..<n + 2]" by simp
  have "rx_linked ram ?ds (rx_bd n) = rx_linked (rx_ram e) ?ds (rx_bd n)" using old by (intro rx_linked_cong) auto
  then have lk: "rx_linked ram (?ds @ ?gs) (rx_bd (n + 2))" using inv new by (simp add: bd_linked_append rx_filled_def rbd_succ_def bdf_def)
  have "\<not> rbd_flag EMAC_BUF_DESC_SOP (bdf i q)" for i q by (simp add: bdf_def rbd_flag_def EMAC_BUF_DESC_SOP_def EMAC_BUF_DESC_OWNER_def hdkif_swizzle_data_def)
  then have "\<not> rbd_flag EMAC_BUF_DESC_SOP (ram (rx_bd i))" if "i < n + 2" for i
    using that new old inv by (cases "i < n"; cases "i = n") (auto simp: rx_filled_def less_Suc_eq)
  moreover have "mld_ok pools (is_mld (rx_up e')) (is_alloc (rx_up e'))" using inv c(2,8) by (simp add: e' rx_filled_def mld_ok_def)
  moreover have "114 \<le> unat (p_len (pb_at e' a'))" if a': "a' \<in> set (bufs e' (?ds @ ?gs))" for a'
  proof (cases "a' \<in> pbuf_addr ` set c")
    case True
    then obtain q where q: "q \<in> set c" "pb_at e' a' = q" using pbs(1) by auto
    have "unat (p_len a) \<le> 1400" "unat (p_len b) \<le> 1400" using c(7) ab by (simp_all add: new_buf_def)
    then show ?thesis using q c(4) ab by auto
  next
    case False
    moreover have "a' \<in> set (bufs e ?ds) \<union> pbuf_addr ` set c" using a' unfolding bufs_simps(3) bus bgs by simp
    ultimately have "a' \<in> set (bufs e ?ds)" "pb_at e' a' = pb_at e a'" using pbs(3) by simp_all
    then show ?thesis using inv by (simp add: rx_filled_def)
  qed
  ultimately have "rx_filled pools e' (n + 2)" using ext(1) lk unfolding ds rx_filled_def e'(1) by blast
  then show ?thesis using run card' ext(2) c(4) unfolding ds by (intro exI [of _ e']) (simp add: e'_def put_alloc_def)
qed

lemma rx_init_empty:
  assumes "rx_filled pools e n" "pool_free e = {}"
  shows "rx_init_loop uninit pa (Suc k) num_bd cur lst e = Inr (lst, e)"
proof -
  have "memp_malloc MEMP_PBUF_POOL (al_memp (is_alloc (rx_up e))) = Inr (None, al_memp (is_alloc (rx_up e)))"
    using assms by (intro memp_malloc_none [of pools]) (simp_all add: rx_filled_def mld_ok_def pool_free_def)
  then have "pbuf_alloc uninit PBUF_RAW PBUF_LEN_MAX PBUF_POOL (is_alloc (rx_up e)) = Inr ([], is_alloc (rx_up e))"
    by (simp add: pbuf_alloc_def pbuf_pool_loop.simps)
  then show ?thesis by (simp add: put_alloc_def)
qed

lemma rx_init_loop_fills:
  fixes e :: "('cb, 'n, 'z) rxif_scheme"
  assumes "rx_filled pools e n" "n + 2 * k \<le> 40" "2 * k \<le> num_bd" "even (card (pool_free e))" "finite (pool_free e)" "fresh_ok uninit"
  shows "\<exists>e' j. j = min k (card (pool_free e) div 2) \<and> rx_init_loop uninit pa k num_bd (rx_bd n) lst e = Inr (if j = 0 then lst else rx_bd (n + 2 * j - 1), e')
    \<and> rx_filled pools e' (n + 2 * j) \<and> card (pool_free e') + 2 * j = card (pool_free e) \<and> buf_room e' (map rx_bd [0..<n + 2 * j]) = buf_room e (map rx_bd [0..<n]) + 1514 * j
    \<and> rx_active_head e' = rx_active_head e \<and> rx_free_head e' = rx_free_head e \<and> freed_pbuf_len e' = freed_pbuf_len e \<and> rxif.more e' = rxif.more e \<and> rx_regs e' = rx_regs e"
  using assms
proof (induction k arbitrary: n e num_bd lst)
  case 0
  then show ?case by (intro exI [of _ e] exI [of _ 0]) simp
next
  case (Suc k)
  show ?case
  proof (cases "card (pool_free e) = 0")
    case True
    then have "pool_free e = {}" using Suc.prems(5) by simp
    from rx_init_empty [OF Suc.prems(1) this] show ?thesis using True Suc.prems(1) by (intro exI [of _ e] exI [of _ 0]) simp
  next
    case False
    then have two: "2 \<le> card (pool_free e)" using Suc.prems(4) by presburger
    have n40: "n \<le> 40" using Suc.prems(2) by simp
    from rx_init_step [OF Suc.prems(1) n40 two Suc.prems(6), of pa] obtain e1 where
      s: "\<forall>k num_bd lst. 2 \<le> num_bd \<longrightarrow> rx_init_loop uninit pa (Suc k) num_bd (rx_bd n) lst e = rx_init_loop uninit pa k (num_bd - 2) (rx_bd (n + 2)) (rx_bd (n + 1)) e1"
        "rx_filled pools e1 (n + 2)" "card (pool_free e1) + 2 = card (pool_free e)" "buf_room e1 (map rx_bd [0..<n + 2]) = buf_room e (map rx_bd [0..<n]) + 1514"
        "rx_active_head e1 = rx_active_head e" "rx_free_head e1 = rx_free_head e" "freed_pbuf_len e1 = freed_pbuf_len e" "rxif.more e1 = rxif.more e" "rx_regs e1 = rx_regs e"
      by (elim exE conjE)
    have pr4: "finite (pool_free e1)" using s(2) free_pool_elem(3) [of pools] by (cases "pool_free e1 = {}") (auto simp: rx_filled_def mld_ok_def pool_free_def)
    have pr3: "even (card (pool_free e1))" using s(3) Suc.prems(4) by presburger
    have pr: "(n + 2) + 2 * k \<le> 40" "2 * k \<le> num_bd - 2" using Suc.prems(2,3) by simp_all
    from Suc.IH [OF s(2) pr pr3 pr4 Suc.prems(6), of "rx_bd (n + 1)"] obtain e' j where
      r: "j = min k (card (pool_free e1) div 2)"
        "rx_init_loop uninit pa k (num_bd - 2) (rx_bd (n + 2)) (rx_bd (n + 1)) e1 = Inr (if j = 0 then rx_bd (n + 1) else rx_bd (n + 2 + 2 * j - 1), e')"
        "rx_filled pools e' (n + 2 + 2 * j)" "card (pool_free e') + 2 * j = card (pool_free e1)"
        "buf_room e' (map rx_bd [0..<n + 2 + 2 * j]) = buf_room e1 (map rx_bd [0..<n + 2]) + 1514 * j"
        "rx_active_head e' = rx_active_head e1" "rx_free_head e' = rx_free_head e1" "freed_pbuf_len e' = freed_pbuf_len e1" "rxif.more e' = rxif.more e1" "rx_regs e' = rx_regs e1"
      by (elim exE conjE)
    have j: "n + 2 + 2 * j = n + 2 * Suc j" "Suc j = min (Suc k) (card (pool_free e) div 2)" using r(1) s(3) by auto
    have "rx_init_loop uninit pa (Suc k) num_bd (rx_bd n) lst e = Inr (rx_bd (n + 2 * Suc j - 1), e')"
      using s(1) r(2) Suc.prems(3) by simp
    then show ?thesis using r(3-10) s(3-9) j unfolding j(1) by (intro exI [of _ e'] exI [of _ "Suc j"]) simp
  qed
qed

lemma rx_init_ring:
  fixes e :: "('cb, 'n, 'z) rxif_scheme"
  assumes mld: "mld_ok pools (is_mld (rx_up e)) (is_alloc (rx_up e))" and pool: "4 \<le> card (pool_free e)" "even (card (pool_free e))" and fresh: "fresh_ok uninit"
  defines "n \<equiv> 2 * min MAX_RX_PBUF_ALLOC (card (pool_free e) div 2)"
  shows "\<exists>e'. hdkif_rx_init uninit pa e = Inr e' \<and> rx_state pools e' [] (map rx_bd [0..<n]) [] \<and> card (pool_free e') + n = card (pool_free e)
    \<and> buf_room e' (map rx_bd [0..<n]) = 757 * n \<and> (\<forall>a \<in> set (bufs e' (map rx_bd [0..<n])). 114 \<le> unat (p_len (pb_at e' a))) \<and> rxif.more e' = rxif.more e"
proof -
  let ?e0 = "e\<lparr>rx_active_head := rx_bd 0, rx_free_head := 0, freed_pbuf_len := 0\<rparr>"
  have p0: "pool_free ?e0 = pool_free e" by (simp add: pool_free_def)
  have f0: "rx_filled pools ?e0 0" using mld by (simp add: rx_filled_def rx_bufs_ok_def)
  have cnt: "0 + 2 * MAX_RX_PBUF_ALLOC \<le> 40" "2 * MAX_RX_PBUF_ALLOC \<le> NUM_RX_BD" by (simp_all add: MAX_RX_PBUF_ALLOC_def NUM_RX_BD_def)
  have pl: "even (card (pool_free ?e0))" "finite (pool_free ?e0)" using pool unfolding p0 by (auto intro: card_ge_0_finite)
  from rx_init_loop_fills [OF f0 cnt pl fresh, of pa "rx_bd 0", unfolded p0] obtain e1 j where
    r: "j = min MAX_RX_PBUF_ALLOC (card (pool_free e) div 2)"
      "rx_init_loop uninit pa MAX_RX_PBUF_ALLOC NUM_RX_BD (rx_bd 0) (rx_bd 0) ?e0 = Inr (if j = 0 then rx_bd 0 else rx_bd (0 + 2 * j - 1), e1)"
      "rx_filled pools e1 (0 + 2 * j)" "card (pool_free e1) + 2 * j = card (pool_free e)"
      "buf_room e1 (map rx_bd [0..<0 + 2 * j]) = buf_room ?e0 (map rx_bd [0..<0]) + 1514 * j"
      "rx_active_head e1 = rx_active_head ?e0" "rx_free_head e1 = rx_free_head ?e0" "freed_pbuf_len e1 = freed_pbuf_len ?e0" "rxif.more e1 = rxif.more ?e0"
    by (elim exE conjE)
  have "2 \<le> card (pool_free e) div 2" using pool(1) by linarith
  then have j: "1 < j" "n = 2 * j" "n \<le> 20" using r(1) by (auto simp: n_def MAX_RX_PBUF_ALLOC_def min_def)
  let ?ds = "map rx_bd [0..<n]" and ?ram = "\<lambda>e. (rx_ram e)(rx_bd (n - 1) := (rx_ram e (rx_bd (n - 1)))\<lparr>rbd_next := 0\<rparr>)"
  define e2 where "e2 = e1\<lparr>rx_ram := ?ram e1, rx_active_tail := rx_bd (n - 1)\<rparr>"
  have run: "hdkif_rx_init uninit pa e = Inr e2" using r(2) j by (simp add: hdkif_rx_init_def rx_bd_simps(1) [symmetric] e2_def Let_def)
  have same: "same_bd (rx_ram e2 d) (rx_ram e1 d)" for d by (simp add: e2_def same_bd_def)
  have last: "last ?ds = rx_bd (n - 1)" "hd ?ds = rx_bd 0" "?ds \<noteq> []" using j by (simp_all add: last_map hd_map)
  have dist: "distinct ?ds" "0 \<notin> set ?ds" using j(3) rx_bd_nonzero by (auto simp: distinct_map inj_on_def rx_bd_eq)
  have "rx_linked (rx_ram e1) ?ds (rx_bd n)" using r(3) j(2) by (simp add: rx_filled_def)
  from bd_linked_upd_last [OF last(3) dist(1) this, of 0] have lk: "bd_linked ((\<lambda>d. rbd_succ (rx_ram e1 d))(rx_bd (n - 1) := 0)) ?ds 0" unfolding last .
  have "rx_linked (rx_ram e2) ?ds 0 = bd_linked ((\<lambda>d. rbd_succ (rx_ram e1 d))(rx_bd (n - 1) := 0)) ?ds 0"
    by (intro bd_linked_cong) (simp add: e2_def rbd_succ_def)
  then have lk2: "rx_linked (rx_ram e2) ?ds 0" using lk by simp
  have b: "bufs e2 ds = bufs e1 ds" for ds using same_bdD(1) [OF same] by (simp add: bufs_def)
  have up: "rx_up e2 = rx_up e1" "pb_at e2 = pb_at e1" "pb_next e2 = pb_next e1" "rxif.more e2 = rxif.more e1" "pool_free e2 = pool_free e1"
    by (simp_all add: e2_def pool_free_def)
  have bo: "rx_bufs_ok pools e2 ?ds" using r(3) j(2) unfolding rx_filled_def rx_bufs_ok_def b up by simp
  have "rx_ring pools e2 ?ds []"
    unfolding rx_ring_def using last dist lk2 bo r(3,6-8) by (simp add: e2_def rx_filled_def)
  moreover have "\<not> rbd_flag EMAC_BUF_DESC_SOP (rx_ram e2 d)" if "d \<in> set ?ds" for d
    using r(3) j(2) that same_bdD(4) [OF same] by (auto simp: rx_filled_def)
  moreover have room: "buf_room e2 ?ds = 757 * n" using r(5) j(2) by (simp add: buf_room_bufs b up(2))
  ultimately have "rx_state pools e2 [] ?ds []" using j by (simp add: rx_state_def)
  moreover have "\<forall>a \<in> set (bufs e2 ?ds). 114 \<le> unat (p_len (pb_at e2 a))" using r(3) j(2) unfolding rx_filled_def b up by simp
  ultimately show ?thesis using run r(4,9) room j(2) up by (intro exI [of _ e2]) simp
qed

end
