(* ===== verification/Hdkif_Receive.thy ===== *)
theory Hdkif_Receive
  imports Hdkif_Rx
begin

text \<open>
  What the receive side of hdkif.c promises: the frames that a receive interrupt hands to \<open>ethernet_input\<close>
  and what one packet costs.
\<close>

section \<open>The interrupt\<close>

lemma ethernet_input_ok: "\<forall>n. env_ok pools uninit out nd6_input recv n \<Longrightarrow> input_ok pools (\<lambda>p. ethernet_input uninit out rand nd6_input recv p inp)"
  unfolding input_ok_def using ethernet_input_rx by blast

lemma rx_state_regs: "rx_state pools (e\<lparr>rx_regs := r\<rparr>) pss us fs = rx_state pools e pss us fs"
proof -
  have "bufs (e\<lparr>rx_regs := r\<rparr>) ds = bufs e ds" "pb_list (e\<lparr>rx_regs := r\<rparr>) ds = pb_list e ds" for ds by (simp_all add: bufs_def pb_list_def)
  then show ?thesis by (simp add: rx_state_def rx_ring_def rx_bufs_ok_def rx_done_def buf_room_bufs)
qed


section \<open>Properties\<close>


text \<open>
  C25: A packet that the driver has handed on costs the ring nothing: its descriptors are linked behind the active ones with new
  buffers of the same total size or kept as free descriptors, the pool has as many free buffers as before for each active
  descriptor, the untouched descriptors keep their data, and the engine is acknowledged and restarted with the first free
  descriptor exactly if it had reached the end of the list.
\<close>
theorem rx_receive_conserves:
  fixes e :: "('cb, 'n, 'z) rxif_scheme"
  assumes "rx_ring pools e (ps @ us) fs" "us \<noteq> []" "rx_done e ps" "input_ok pools input" "fresh_ok uninit"
  shows "\<exists>gs rs e'. rx_receive input uninit payload_addr lst e = Inr (rx_active_tail e', e') \<and> rx_ring pools e' (us @ gs) rs \<and> gs @ rs = fs @ ps
    \<and> buf_room e' (us @ gs) = buf_room e (ps @ us) \<and> card (pool_free e') + length (us @ gs) = card (pool_free e) + length (ps @ us) \<and> rx_kept e e' us
    \<and> rx_regs e' = (let r = EMACRxCPWrite EMAC_0_BASE 0 (last ps) (rx_regs e)
                    in if rbd_flag EMAC_BUF_DESC_EOQ (rx_ram e (last us)) then EMACRxHdrDescPtrWrite EMAC_0_BASE (hd (fs @ ps)) 0 r else r)"
  using rx_receive_ring [OF assms, of payload_addr lst]
  by (elim exE conjE) (rule exI, rule exI, rule exI, intro conjI, assumption+, simp, assumption+)


section \<open>Examples\<close>

text \<open>An engine that puts the next frame of the wire into the first descriptor, if the driver has taken the packet before and the buffer is large enough.\<close>

definition rx_write :: "bytes \<Rightarrow> ('cb, 'n, 'z) rxif_scheme \<Rightarrow> ('cb, 'n, 'z) rxif_scheme" where
  "rx_write f e =
     (let d = rx_active_head e; bd = rx_ram e d; a = rbd_pbuf bd; b = pb_at e a in
      e\<lparr>rx_ram := (rx_ram e)(d := bd\<lparr>rbd_bufoff_len := hdkif_swizzle_data (ucast (of_nat (length f) :: u16)),
                                       rbd_flags_pktlen := hdkif_swizzle_data (ucast (of_nat (length f) :: u16) OR (EMAC_BUF_DESC_SOP OR EMAC_BUF_DESC_EOP))\<rparr>),
        pb_at := (pb_at e)(a := b\<lparr>pbuf_mem := f @ drop (length f) (pbuf_mem b)\<rparr>)\<rparr>)"

definition rx_fits :: "bytes \<Rightarrow> ('cb, 'n, 'z) rxif_scheme \<Rightarrow> bool" where
  "rx_fits f e \<longleftrightarrow> f \<noteq> [] \<and> length f \<le> unat (p_len (pb_at e (rbd_pbuf (rx_ram e (rx_active_head e)))))"

definition rx_engine :: "('cb, 'n, bytes list) rxif_scheme \<Rightarrow> ('cb, 'n, bytes list) rxif_scheme" where
  "rx_engine e =
     (case rxif.more e of
        [] \<Rightarrow> e
      | f # fs \<Rightarrow> if rbd_flag EMAC_BUF_DESC_SOP (rx_ram e (rx_active_head e)) \<or> \<not> rx_fits f e then e else rxif.more_update (\<lambda>_. fs) (rx_write f e))"

lemma written_bd:
  fixes x :: u16
  assumes "bd = bd0\<lparr>rbd_bufoff_len := hdkif_swizzle_data (ucast x), rbd_flags_pktlen := hdkif_swizzle_data (ucast x OR (EMAC_BUF_DESC_SOP OR EMAC_BUF_DESC_EOP))\<rparr>"
  shows "rbd_flag EMAC_BUF_DESC_SOP bd" "rbd_flag EMAC_BUF_DESC_EOP bd" "\<not> rbd_flag EMAC_BUF_DESC_OWNER bd" "rbd_len bd = x" "rbd_pktlen bd = x"
    "rbd_pbuf bd = rbd_pbuf bd0" "rbd_next bd = rbd_next bd0"
proof -
  have hi: "(ucast x :: u32) AND 0xFFFF = ucast x" by (rule ucast_and_ffff)
  have "(ucast x :: u32) AND EMAC_BUF_DESC_OWNER = ((ucast x AND 0xFFFF) AND EMAC_BUF_DESC_OWNER)" unfolding hi ..
  then have lo: "(ucast x :: u32) AND EMAC_BUF_DESC_OWNER = 0" by (simp add: and.assoc desc_flags del: ucast_and_ffff)
  show "rbd_flag EMAC_BUF_DESC_SOP bd" "rbd_flag EMAC_BUF_DESC_EOP bd" "\<not> rbd_flag EMAC_BUF_DESC_OWNER bd"
    using lo by (simp_all add: assms rbd_flag_def bit.conj_disj_distrib2 desc_flags or_eq_0_iff)
  have uu: "ucast (ucast x :: u32) = x" by (rule bit_word_eqI) (simp add: bit_simps)
  show "rbd_len bd = x" "rbd_pktlen bd = x" "rbd_pbuf bd = rbd_pbuf bd0" "rbd_next bd = rbd_next bd0"
    using uu by (simp_all add: assms rbd_len_def rbd_pktlen_def bit.conj_disj_distrib2 desc_flags)
qed

lemma rx_write_state:
  fixes e :: "('cb, 'n, 'z) rxif_scheme"
  assumes st: "rx_state pools e [] us fs" and f: "rx_fits f e"
  shows "\<exists>d vs. us = [d] @ vs \<and> rx_state pools (rx_write f e) [[d]] vs fs \<and> rx_frames (rx_write f e) [[d]] = [f]"
proof -
  obtain d vs where us: "us = d # vs" using st by (cases us) (auto simp: rx_state_def rx_ring_def)
  have ring: "rx_ring pools e (d # vs) fs" using st us by (simp add: rx_state_def)
  then have hd: "rx_active_head e = d" by (simp add: rx_ring_def)
  let ?a = "rbd_pbuf (rx_ram e d)" and ?e = "rx_write f e" and ?x = "of_nat (length f) :: u16"
  let ?b = "(pb_at e ?a)\<lparr>pbuf_mem := f @ drop (length f) (pbuf_mem (pb_at e ?a))\<rparr>"
  have bo: "rx_bufs_ok pools e (d # vs)" using ring by (simp add: rx_ring_def)
  have nb: "new_buf (pb_at e ?a)" using bo by (simp add: rx_bufs_ok_def)
  have lf: "length f \<le> unat (p_len (pb_at e ?a))" "f \<noteq> []" "length f \<le> 1400" using f hd nb by (auto simp: rx_fits_def new_buf_def)
  then have x: "unat ?x = length f" by (simp add: unat_of_nat take_bit_nat_def)
  have ram: "rx_ram ?e = (rx_ram e)(d := rx_ram ?e d)" and pb: "pb_at ?e = (pb_at e)(?a := ?b)" by (auto simp: rx_write_def Let_def hd)
  have same: "rx_up ?e = rx_up e" "pb_next ?e = pb_next e" "rx_active_head ?e = d" "rx_active_tail ?e = rx_active_tail e" "rx_free_head ?e = rx_free_head e"
    "freed_pbuf_len ?e = freed_pbuf_len e" by (simp_all add: rx_write_def Let_def hd)
  have "rx_ram ?e d = (rx_ram e d)\<lparr>rbd_bufoff_len := hdkif_swizzle_data (ucast ?x), rbd_flags_pktlen := hdkif_swizzle_data (ucast ?x OR (EMAC_BUF_DESC_SOP OR EMAC_BUF_DESC_EOP))\<rparr>"
    by (simp add: rx_write_def Let_def hd)
  note w = written_bd [OF this]
  have bufs: "bufs ?e ds = bufs e ds" for ds using w(6) ram by (auto simp: bufs_def) (metis fun_upd_other)
  have "new_buf ?b" "pbuf_addr ?b = pbuf_addr (pb_at e ?a)" using nb lf(3) by (simp_all add: new_buf_def)
  then have bo': "rx_bufs_ok pools ?e (d # vs)" using bo unfolding rx_bufs_ok_def bufs same pb by auto
  have "rx_linked (rx_ram ?e) (fs @ d # vs) 0 = rx_linked (rx_ram e) (fs @ d # vs) 0" using w(7) ram by (intro rx_linked_cong) (metis fun_upd_other)
  then have "rx_ring pools ?e (d # vs) fs" using ring bo' same by (simp add: rx_ring_def)
  moreover have "rx_done ?e [d]" using w x lf nb by (simp add: rx_done_def pb new_buf_def)
  moreover have "\<not> rbd_flag EMAC_BUF_DESC_SOP (rx_ram ?e d')" if "d' \<in> set vs" for d'
  proof -
    have "d' \<noteq> d" using ring that by (auto simp: rx_ring_def)
    then have "rx_ram ?e d' = rx_ram e d'" using ram by (metis fun_upd_other)
    then show ?thesis using st that us by (simp add: rx_state_def)
  qed
  moreover have "buf_room ?e (d # vs) = buf_room e (d # vs)" unfolding buf_room_bufs bufs pb by (intro arg_cong [where f = sum_list] map_cong) auto
  ultimately have "rx_state pools ?e [[d]] vs fs" using st us by (simp add: rx_state_def)
  moreover have "rx_frames ?e [[d]] = [f]" using w(4,6) x by (simp add: rx_frames_def pb)
  ultimately show ?thesis using us by (intro exI [of _ d] exI [of _ vs]) simp
qed

lemma rx_state_more: "rx_state pools (rxif.more_update g e) pss us fs = rx_state pools e pss us fs" "rx_frames (rxif.more_update g e) pss = rx_frames e pss"
proof -
  have "bufs (rxif.more_update g e) ds = bufs e ds" "pb_list (rxif.more_update g e) ds = pb_list e ds" for ds by (simp_all add: bufs_def pb_list_def)
  then show "rx_state pools (rxif.more_update g e) pss us fs = rx_state pools e pss us fs" "rx_frames (rxif.more_update g e) pss = rx_frames e pss"
    by (simp_all add: rx_state_def rx_ring_def rx_bufs_ok_def rx_done_def rx_frames_def buf_room_bufs)
qed

lemma rx_engine_ok: "dma_ok pools (\<lambda>w. w) (rx_engine :: ('cb, 'n, bytes list) rxif_scheme \<Rightarrow> ('cb, 'n, bytes list) rxif_scheme)"
  unfolding dma_ok_def
proof (intro allI impI)
  fix e :: "('cb, 'n, bytes list) rxif_scheme" and pss us fs
  assume st: "rx_state pools e pss us fs"
  let ?P = "\<lambda>e'. \<exists>qss vs. rx_state pools e' (pss @ qss) vs fs \<and> us = concat qss @ vs \<and> rx_up e' = rx_up e
    \<and> rx_frames e' pss = rx_frames e pss \<and> rxif.more e = rx_frames e' qss @ rxif.more e'"
  have idle: "?P e" by (rule exI [of _ "[]"], rule exI [of _ us]) (simp add: st rx_frames_def)
  have alt: "rx_engine e = e \<or> (\<exists>f w. rxif.more e = f # w \<and> \<not> rbd_flag EMAC_BUF_DESC_SOP (rx_ram e (rx_active_head e)) \<and> rx_fits f e)"
    by (cases "rxif.more e") (simp_all add: rx_engine_def)
  then consider "rx_engine e = e" | f w where "rxif.more e = f # w" "\<not> rbd_flag EMAC_BUF_DESC_SOP (rx_ram e (rx_active_head e))" "rx_fits f e"
    by blast
  then show "?P (rx_engine e)"
  proof cases
    case 1
    then show ?thesis using idle by simp
  next
    case 2
    then have pss: "pss = []" using rx_state_head(2) [OF st] by simp
    from rx_write_state [OF st [unfolded pss] 2(3)] obtain d vs where
      w: "us = [d] @ vs" "rx_state pools (rx_write f e) [[d]] vs fs" "rx_frames (rx_write f e) [[d]] = [f]" by blast
    have eq: "rx_engine e = rxif.more_update (\<lambda>_. w) (rx_write f e)" using 2 by (simp add: rx_engine_def)
    have "rx_up (rx_write f e) = rx_up e" by (simp add: rx_write_def Let_def)
    then show ?thesis
      unfolding eq rx_state_more pss
      by (intro exI [of _ "[[d]]"] exI [of _ vs]) (use w 2(1) in \<open>simp add: rx_frames_def\<close>)
  qed
qed

definition rx_sample :: "bytes list \<Rightarrow> (nat, bytes list, bytes list) rxif_scheme" where
  "rx_sample w = \<lparr>rx_regs = (\<lambda>_. 0), rx_ram = (\<lambda>_. \<lparr>rbd_next = 0, rbd_bufptr = 0, rbd_bufoff_len = 0, rbd_flags_pktlen = 0, rbd_pbuf = 0\<rparr>), rx_free_head = 0,
     rx_active_head = 0, rx_active_tail = 0, freed_pbuf_len = 0, pb_at = (\<lambda>x. rx_buf x []), pb_next = (\<lambda>_. 0), rx_up = ping_state, \<dots> = w\<rparr>"

abbreviation sample_input :: "chain \<Rightarrow> (nat, bytes list) ip6_state \<Rightarrow> (nat, bytes list) ip6_state result" where
  "sample_input \<equiv> \<lambda>p. ethernet_input zeros log_output (\<lambda>n. (0, n)) (\<lambda>p inp st. drop_packet p st) free_recv p sample_netif"

abbreviation sample_addr :: "pbuf \<Rightarrow> u32" where
  "sample_addr \<equiv> \<lambda>q. of_nat (pbuf_addr q)"

lemma rx_sample_pool:
  "card (pool_free (rx_sample w)) = 16" "mld_ok sample_pools (is_mld (rx_up (rx_sample w))) (is_alloc (rx_up (rx_sample w)))"
proof -
  have "pool_free (rx_sample w) = set (pool_elems (sample_pools MEMP_PBUF_POOL))"
    using memp_init_free_elems [OF sample_pools_ok] by (simp add: pool_free_def rx_sample_def ping_state_def alloc0_def memp0_def)
  then show "card (pool_free (rx_sample w)) = 16" using card_pool_elems [OF sample_pools_ok, of MEMP_PBUF_POOL] by (simp add: sample_pools_def)
  show "mld_ok sample_pools (is_mld (rx_up (rx_sample w))) (is_alloc (rx_up (rx_sample w)))"
    using alloc0_ok by (simp add: rx_sample_def ping_state_def mld_ok_def)
qed

lemma rx_sample_more: "rxif.more (rx_sample w) = w"
  by (simp add: rx_sample_def)

text \<open>The first packet after set-up.\<close>

lemma rx_sample_packet:
  "\<exists>e vs. hdkif_rx_init zeros sample_addr (rx_sample w) = Inr e \<and> rx_state sample_pools (rx_write (sample_frame mdns_group) e) [[rx_bd 0]] vs []
    \<and> vs \<noteq> [] \<and> rx_frames (rx_write (sample_frame mdns_group) e) [[rx_bd 0]] = [sample_frame mdns_group] \<and> rxif.more (rx_write (sample_frame mdns_group) e) = w"
proof -
  let ?f = "sample_frame mdns_group"
  from rx_init_ring [OF rx_sample_pool(2), of w zeros sample_addr] obtain e where
    e: "hdkif_rx_init zeros sample_addr (rx_sample w) = Inr e" "rx_state sample_pools e [] (map rx_bd [0..<16]) []"
      "\<forall>a \<in> set (bufs e (map rx_bd [0..<16])). 114 \<le> unat (p_len (pb_at e a))" "rxif.more e = w"
    by (auto simp: rx_sample_pool(1) zeros_fresh MAX_RX_PBUF_ALLOC_def rx_sample_more)
  have hd: "rx_active_head e = rx_bd 0" using e(2) by (simp add: rx_state_def rx_ring_def hd_map)
  have "rbd_pbuf (rx_ram e (rx_bd 0)) \<in> set (bufs e (map rx_bd [0..<16]))" by (simp add: bufs_def)
  then have fits: "rx_fits ?f e" using e(3) hd length_sample_frame [of mdns_group] by (fastforce simp: rx_fits_def)
  from rx_write_state [OF e(2) fits] obtain d vs where
    w: "map rx_bd [0..<16] = d # vs" "rx_state sample_pools (rx_write ?f e) [[d]] vs []" "rx_frames (rx_write ?f e) [[d]] = [?f]" by auto
  have "d = rx_bd 0" using arg_cong [OF w(1), of hd] by (simp add: hd_map)
  moreover have "length vs = 15" using arg_cong [OF w(1), of length] by simp
  then have "vs \<noteq> []" by auto
  moreover have "rxif.more (rx_write ?f e) = w" using e(4) by (simp add: rx_write_def Let_def)
  ultimately show ?thesis using e(1) w(2,3) by blast
qed


theorem rx_receive_conserves_witness:
  "\<exists>e e' us gs rs. hdkif_rx_init zeros sample_addr (rx_sample []) = Inr e
    \<and> rx_receive sample_input zeros sample_addr 0 (rx_write (sample_frame mdns_group) e) = Inr (rx_active_tail e', e')
    \<and> rx_ring sample_pools e' (us @ gs) rs \<and> gs @ rs = [rx_bd 0]"
proof -
  obtain e vs where e: "hdkif_rx_init zeros sample_addr (rx_sample []) = Inr e" "rx_state sample_pools (rx_write (sample_frame mdns_group) e) [[rx_bd 0]] vs []" "vs \<noteq> []"
    using rx_sample_packet [of "[]"] by blast
  have st: "rx_ring sample_pools (rx_write (sample_frame mdns_group) e) ([rx_bd 0] @ vs) []" "rx_done (rx_write (sample_frame mdns_group) e) [rx_bd 0]"
    using e(2) by (simp_all add: rx_state_def)
  have "\<forall>n. env_ok sample_pools zeros log_output (\<lambda>p inp st. drop_packet p st) free_recv n" using sample_env_ok by blast
  from rx_receive_conserves [OF st(1) e(3) st(2) ethernet_input_ok [OF this] zeros_fresh, of "\<lambda>n. (0, n)" sample_netif sample_addr 0]
  show ?thesis using e(1) by auto
qed

end
