(* ===== verification/Board.thy ===== *)
theory Board
  imports Prelude
begin

text \<open>
  The board drivers under src/src: general-purpose pins (drivers/gio.c), the interrupt table
  (drivers/vim.c), the millisecond timer (drivers/timer.c), SPI (drivers/spi.c), MDIO
  (drivers/mdio.c), and the set-up of the Ethernet PHY (DP8386.c) and of the switch (SJA1105.c)
  through them. Each peripheral is a record of its registers; what the hardware does is an argument.
\<close>

section \<open>Pins\<close>

record gioPORT =
  DIR :: u32
  DSET :: u32
  DCLR :: u32

text \<open>The reset control register \<open>GCR0\<close> of the module.\<close>

definition gio_init :: "u32 \<Rightarrow> u32" where
  "gio_init gcr0 = push_bit 0 1"

definition gio_mode_output :: "nat \<Rightarrow> u32 \<Rightarrow> gioPORT \<Rightarrow> gioPORT" where
  "gio_mode_output pin level port =
     (let port1 = port\<lparr>DIR := DIR port OR push_bit pin 1\<rparr> in
      if level \<noteq> 0 then port1\<lparr>DSET := DSET port1 OR push_bit pin 1\<rparr>
      else port1\<lparr>DCLR := DCLR port1 OR push_bit pin 1\<rparr>)"

section \<open>Interrupt table\<close>

text \<open>The handlers that the program installs.\<close>

datatype isr_handler = PhantomInterrupt | EsmHighInterrupt | RtiCompare0Interrupt | EMACCore0TxIsr | EMACCore0RxIsr

record vim =
  vimRAM :: "nat \<Rightarrow> isr_handler"
  REQMASKSET :: "nat \<Rightarrow> u32"

definition VIM_CHANNELS :: nat where "VIM_CHANNELS = 128"

definition vim_register_irq :: "nat \<Rightarrow> isr_handler \<Rightarrow> vim \<Rightarrow> vim" where
  "vim_register_irq channel handler v =
     (let v1 = v\<lparr>vimRAM := (vimRAM v)(channel + 1 := handler)\<rparr> in
      v1\<lparr>REQMASKSET := (REQMASKSET v1)(channel div 32 := REQMASKSET v1 (channel div 32) OR push_bit (channel mod 32) 1)\<rparr>)"

definition vim_init :: "vim \<Rightarrow> vim" where
  "vim_init v =
     vim_register_irq 0 EsmHighInterrupt
       (fold (\<lambda>i v. v\<lparr>vimRAM := (vimRAM v)(i := PhantomInterrupt)\<rparr>) [0..<VIM_CHANNELS] v)"

text \<open>The error signalling module: its status flags are cleared by writing ones.\<close>

record esm =
  SR7_0 :: u32
  SR4_0 :: u32
  SR1_1 :: u32
  SR1_0 :: u32

definition esmHighInterrupt :: "esm \<Rightarrow> esm" where
  "esmHighInterrupt e = e\<lparr>SR7_0 := 0xFFFFFFFF, SR4_0 := 0xFFFFFFFF, SR1_1 := 0xFFFFFFFF, SR1_0 := 0xFFFFFFFF\<rparr>"

section \<open>Timer\<close>

record rti =
  GCTRL :: u32
  CPUC0 :: u32
  COMP0 :: u32
  UDCP0 :: u32
  INTFLAG :: u32
  SETINTENA :: u32

definition timer_init :: "vim \<times> rti \<Rightarrow> vim \<times> rti" where
  "timer_init = (\<lambda>(v, r).
     (let v1 = vim_register_irq 2 RtiCompare0Interrupt v;
          r1 = r\<lparr>GCTRL := push_bit 16 5\<rparr>;
          r2 = r1\<lparr>CPUC0 := 7, COMP0 := 9375, UDCP0 := 9375\<rparr>;
          r3 = r2\<lparr>INTFLAG := 1, SETINTENA := 1\<rparr>
      in (v1, r3\<lparr>GCTRL := GCTRL r3 OR 1\<rparr>)))"

section \<open>SPI\<close>

text \<open>\<open>DAT1\<close> is the port through which words are sent; the model keeps the words written, in order.\<close>

record mibspi =
  GCR0 :: u32
  PC0 :: u32
  GCR1 :: u32
  DELAY :: u32
  FMT0 :: u32
  BUF :: u32
  DAT1 :: "u32 list"

definition SPIBUF_TXFULL :: u32 where "SPIBUF_TXFULL = push_bit 29 1"
definition SPIDAT1_CSHOLD :: u32 where "SPIDAT1_CSHOLD = push_bit 28 1"

definition spi_init :: "mibspi \<Rightarrow> mibspi" where
  "spi_init s = s\<lparr>GCR0 := 1,
     PC0 := push_bit 0 1 OR push_bit 1 1 OR push_bit 9 1 OR push_bit 10 1 OR push_bit 11 1,
     GCR1 := push_bit 0 1 OR push_bit 1 1 OR push_bit 24 1,
     DELAY := push_bit 24 45 OR push_bit 16 45,
     FMT0 := push_bit 24 0xFF OR push_bit 8 74 OR push_bit 0 8\<rparr>"

text \<open>\<open>dev\<close> is what the shift register does while \<open>TXFULL\<close> is polled; \<open>tx\<close> is the rest of the data.\<close>

definition spi_flags :: "bool \<Rightarrow> u32" where
  "spi_flags is_end =
     (let flags = push_bit 16 (0xFF AND NOT (push_bit 0 1)) OR push_bit 26 1 OR push_bit 24 0
      in if is_end then flags else flags OR SPIDAT1_CSHOLD)"

fun spi_transfer :: "(mibspi \<Rightarrow> mibspi) \<Rightarrow> bytes \<Rightarrow> mibspi \<Rightarrow> mibspi option" where
  "spi_transfer dev [] s = Some s"
| "spi_transfer dev (x # tx) s =
     (case poll_until (\<lambda>s. BUF s AND SPIBUF_TXFULL = 0) dev s of
        None \<Rightarrow> None
      | Some s1 \<Rightarrow> spi_transfer dev tx (s1\<lparr>DAT1 := DAT1 s1 @ [ucast x OR spi_flags (tx = [])]\<rparr>))"

section \<open>Switch\<close>

text \<open>The \<open>WRITE\<close> macro; the array elements are truncated to bytes.\<close>

definition WRITE :: "u32 \<Rightarrow> bytes" where
  "WRITE addr = [0x80 OR ucast (drop_bit 20 addr AND 1), ucast (drop_bit 12 addr),
                 ucast (drop_bit 4 addr AND 0xFF), ucast (push_bit 4 addr AND 0xFF)]"

definition STATIC_CONFIG_ADDR :: u32 where "STATIC_CONFIG_ADDR = 0x20000"

text \<open>The array \<open>config\<close> without the command in front.\<close>

definition switch_config :: bytes where
  "switch_config = [
     0x9e, 0x00, 0x03, 0x0e, 0x06, 0x00, 0x00, 0x00, 0x00, 0x00, 0x00, 0x5a, 0x4e, 0xd2, 0xc5, 0x0f,
     0xfe, 0xf7, 0x00, 0x00, 0x03, 0xff, 0xff, 0xff, 0xfe, 0xf7, 0x00, 0x00, 0x03, 0xff, 0xff, 0xff,
     0xfe, 0xf7, 0x00, 0x00, 0x03, 0xff, 0xff, 0xff, 0xfe, 0xf7, 0x00, 0x00, 0x03, 0xff, 0xff, 0xff,
     0xfe, 0xf7, 0x00, 0x00, 0x03, 0xff, 0xff, 0xff, 0xfe, 0xf7, 0x00, 0x00, 0x03, 0xff, 0xff, 0xff,
     0xfe, 0xf7, 0x00, 0x00, 0x03, 0xff, 0xff, 0xff, 0xfe, 0xf7, 0x00, 0x00, 0x03, 0xff, 0xff, 0xff,
     0xfe, 0xf7, 0x00, 0x00, 0x03, 0xff, 0xff, 0xff, 0xfe, 0xf7, 0x00, 0x00, 0x03, 0xff, 0xff, 0xff,
     0xfe, 0xf7, 0x00, 0x00, 0x03, 0xff, 0xff, 0xff, 0xfe, 0xf7, 0x00, 0x00, 0x03, 0xff, 0xff, 0xff,
     0xfe, 0xf7, 0x00, 0x00, 0x03, 0xff, 0xff, 0xff, 0xfe, 0xf7, 0x00, 0x00, 0x03, 0xff, 0xff, 0xff,
     0xfe, 0xf7, 0x00, 0x00, 0x03, 0xff, 0xff, 0xff, 0xfe, 0xf7, 0x00, 0x00, 0x03, 0xff, 0xff, 0xff,
     0xfe, 0xf7, 0x00, 0x00, 0x03, 0xff, 0xff, 0xff, 0xfe, 0xf7, 0x00, 0x00, 0x03, 0xff, 0xff, 0xff,
     0xfe, 0xf7, 0x00, 0x00, 0x03, 0xff, 0xff, 0xff, 0xfe, 0xf7, 0x00, 0x00, 0x03, 0xff, 0xff, 0xff,
     0xfe, 0xf7, 0x00, 0x00, 0x03, 0xff, 0xff, 0xff, 0xfe, 0xf7, 0x00, 0x00, 0x03, 0xff, 0xff, 0xff,
     0xfe, 0xf7, 0x00, 0x00, 0x03, 0xff, 0xff, 0xff, 0xfe, 0xf7, 0x00, 0x00, 0x03, 0xff, 0xff, 0xff,
     0xfe, 0xf7, 0x00, 0x00, 0x03, 0xff, 0xff, 0xff, 0xfe, 0xf7, 0x00, 0x00, 0x03, 0xff, 0xff, 0xff,
     0xfe, 0xf7, 0x00, 0x00, 0x03, 0xff, 0xff, 0xff, 0xfe, 0xf7, 0x00, 0x00, 0x03, 0xff, 0xff, 0xff,
     0xfe, 0xf7, 0x00, 0x00, 0x03, 0xff, 0xff, 0xff, 0xfe, 0xf7, 0x00, 0x00, 0x03, 0xff, 0xff, 0xff,
     0xfe, 0xf7, 0x00, 0x00, 0x03, 0xff, 0xff, 0xff, 0xfe, 0xf7, 0x00, 0x00, 0x03, 0xff, 0xff, 0xff,
     0xfe, 0xf7, 0x00, 0x00, 0x03, 0xff, 0xff, 0xff, 0xfe, 0xf7, 0x00, 0x00, 0x03, 0xff, 0xff, 0xff,
     0xfe, 0xf7, 0x00, 0x00, 0x03, 0xff, 0xff, 0xff, 0xfe, 0xf7, 0x00, 0x00, 0x03, 0xff, 0xff, 0xff,
     0xfe, 0xf7, 0x00, 0x00, 0x03, 0xff, 0xff, 0xff, 0xfe, 0xf7, 0x00, 0x00, 0x03, 0xff, 0xff, 0xff,
     0xfe, 0xf7, 0x00, 0x00, 0x03, 0xff, 0xff, 0xff, 0xfe, 0xf7, 0x00, 0x00, 0x03, 0xff, 0xff, 0xff,
     0xfe, 0xf7, 0x00, 0x00, 0x03, 0xff, 0xff, 0xff, 0xfe, 0xf7, 0x00, 0x00, 0x03, 0xff, 0xff, 0xff,
     0xfe, 0xf7, 0x00, 0x00, 0x03, 0xff, 0xff, 0xff, 0xfe, 0xf7, 0x00, 0x00, 0x03, 0xff, 0xff, 0xff,
     0xfe, 0xf7, 0x00, 0x00, 0x03, 0xff, 0xff, 0xff, 0xf0, 0x5a, 0xd9, 0x4e, 0x08, 0x00, 0x00, 0x00,
     0x00, 0x00, 0x00, 0x1a, 0x6a, 0xf6, 0x23, 0x53, 0x00, 0x00, 0x00, 0x00, 0xf7, 0xbc, 0x00, 0x00,
     0x00, 0x00, 0x00, 0x00, 0xef, 0x7a, 0x00, 0x00, 0x00, 0x00, 0x00, 0x00, 0xde, 0xf6, 0x00, 0x00,
     0x00, 0x00, 0x00, 0x00, 0xbd, 0xee, 0x00, 0x00, 0x00, 0x00, 0x00, 0x00, 0x7b, 0xde, 0x00, 0x00,
     0x00, 0x00, 0x00, 0x00, 0x00, 0x00, 0x00, 0x00, 0x00, 0x00, 0x00, 0x00, 0x00, 0x00, 0x00, 0x00,
     0x00, 0x00, 0x00, 0x00, 0x00, 0x00, 0x00, 0x00, 0x00, 0x00, 0x00, 0x00, 0x00, 0x00, 0x00, 0x00,
     0x00, 0x00, 0x00, 0x00, 0x00, 0x00, 0x00, 0x00, 0x00, 0x00, 0x00, 0x00, 0x00, 0x00, 0x00, 0x00,
     0x00, 0x00, 0x00, 0x00, 0x00, 0x00, 0x00, 0x00, 0x00, 0x00, 0x00, 0x00, 0x00, 0x00, 0x00, 0x00,
     0xed, 0x1c, 0x07, 0x02, 0x09, 0x00, 0x00, 0x00, 0x00, 0x00, 0x00, 0x23, 0xda, 0xb5, 0xbd, 0xc8,
     0x00, 0x00, 0x00, 0x0e, 0x00, 0x00, 0x00, 0x00, 0x07, 0xfc, 0x01, 0x04, 0x00, 0x00, 0x00, 0x00,
     0x00, 0x00, 0x00, 0x00, 0x00, 0x00, 0x00, 0x00, 0x00, 0x00, 0x00, 0x00, 0x00, 0x00, 0x00, 0x0e,
     0x00, 0x00, 0x00, 0x00, 0x07, 0xfc, 0x01, 0x04, 0x00, 0x00, 0x00, 0x00, 0x00, 0x00, 0x00, 0x00,
     0x00, 0x00, 0x00, 0x00, 0x00, 0x00, 0x00, 0x00, 0x00, 0x00, 0x00, 0x0e, 0x00, 0x00, 0x00, 0x00,
     0x07, 0xfc, 0x01, 0x04, 0x00, 0x00, 0x00, 0x00, 0x00, 0x00, 0x00, 0x00, 0x00, 0x00, 0x00, 0x00,
     0x00, 0x00, 0x00, 0x00, 0x00, 0x00, 0x00, 0x0e, 0x00, 0x00, 0x00, 0x00, 0x07, 0xfc, 0x01, 0x04,
     0x00, 0x00, 0x00, 0x00, 0x00, 0x00, 0x00, 0x00, 0x00, 0x00, 0x00, 0x00, 0x00, 0x00, 0x00, 0x00,
     0x00, 0x00, 0x00, 0x0e, 0x00, 0x00, 0x00, 0x00, 0x07, 0xfc, 0x01, 0x02, 0x00, 0x00, 0x00, 0x00,
     0x00, 0x00, 0x00, 0x00, 0x00, 0x00, 0x00, 0x00, 0x00, 0x00, 0x00, 0x00, 0xb2, 0x41, 0xdf, 0x1f,
     0x0e, 0x00, 0x00, 0x00, 0x00, 0x00, 0x00, 0x03, 0xc8, 0xa7, 0xce, 0xe6, 0x00, 0x74, 0x20, 0x00,
     0x00, 0x00, 0x00, 0x00, 0x00, 0x00, 0x00, 0x00, 0x02, 0xeb, 0x6c, 0x5a, 0x11, 0x00, 0x00, 0x00,
     0x00, 0x00, 0x00, 0x0a, 0x57, 0x1f, 0x81, 0x3f, 0x00, 0x00, 0x00, 0x00, 0x42, 0x04, 0x00, 0x00,
     0x00, 0x00, 0x04, 0x45, 0x00, 0x00, 0x00, 0x00, 0xff, 0x0f, 0xf8, 0x00, 0xff, 0xff, 0xff, 0xff,
     0xff, 0xff, 0xff, 0xff, 0x00, 0xff, 0xff, 0xff, 0x00, 0x00, 0x00, 0x00, 0x00, 0x00, 0x00, 0x00,
     0xa0, 0xee, 0x2a, 0x0c, 0x4e, 0x00, 0x00, 0x00, 0x00, 0x00, 0x00, 0x01, 0x3a, 0x5d, 0x5e, 0x24,
     0x46, 0x48, 0x00, 0x00, 0x86, 0x5b, 0xfe, 0xb4, 0x00, 0x00, 0x00, 0x00, 0x00, 0x00, 0x00, 0x00,
     0xfc, 0x27, 0x42, 0x56]"

definition config :: bytes where
  "config = WRITE STATIC_CONFIG_ADDR @ switch_config"

definition SJA1105_write :: "(mibspi \<Rightarrow> mibspi) \<Rightarrow> u32 \<Rightarrow> u32 \<Rightarrow> mibspi \<Rightarrow> mibspi option" where
  "SJA1105_write dev addr val s = spi_transfer dev (WRITE addr @ be32 val) s"

definition SJA1105_init :: "(mibspi \<Rightarrow> mibspi) \<Rightarrow> mibspi \<Rightarrow> mibspi option" where
  "SJA1105_init dev s =
     (case SJA1105_write dev 0x100032 0xB000800 (spi_init s) of
        None \<Rightarrow> None
      | Some s1 \<Rightarrow> spi_transfer dev config s1)"

section \<open>MDIO\<close>

text \<open>
  The management interface has one command register. \<open>go\<close> is what writing it starts, \<open>poll\<close> how the
  registers change between two reads. The record is extensible: the state of the PHY is a further field.
\<close>

record mdio =
  MDIO_CONTROL :: u32
  MDIO_USERACCESS0 :: u32

definition MDIO_USERACCESS0_GO :: u32 where "MDIO_USERACCESS0_GO = 0x80000000"
definition MDIO_USERACCESS0_WRITE :: u32 where "MDIO_USERACCESS0_WRITE = 0x40000000"
definition MDIO_USERACCESS0_ACK :: u32 where "MDIO_USERACCESS0_ACK = 0x20000000"
definition MDIO_CONTROL_ENABLE :: u32 where "MDIO_CONTROL_ENABLE = 0x40000000"
definition MDIO_CONTROL_FAULTENB :: u32 where "MDIO_CONTROL_FAULTENB = 0x00040000"

definition mdio_wait_until_rdy :: "('p mdio_scheme \<Rightarrow> 'p mdio_scheme) \<Rightarrow> 'p mdio_scheme \<Rightarrow> 'p mdio_scheme option" where
  "mdio_wait_until_rdy poll s =
     poll_until (\<lambda>s. MDIO_USERACCESS0 s AND MDIO_USERACCESS0_GO \<noteq> MDIO_USERACCESS0_GO) poll s"

definition mdio_addr :: "u32 \<Rightarrow> u32 \<Rightarrow> u32" where
  "mdio_addr phyAddr regNum = push_bit 21 (regNum AND 0x1F) OR push_bit 16 (phyAddr AND 0x1F)"

definition mdio_reg_read ::
  "('p mdio_scheme \<Rightarrow> 'p mdio_scheme) \<Rightarrow> ('p mdio_scheme \<Rightarrow> 'p mdio_scheme) \<Rightarrow> u32 \<Rightarrow> u32 \<Rightarrow>
   'p mdio_scheme \<Rightarrow> (u16 \<times> 'p mdio_scheme) option" where
  "mdio_reg_read go poll phyAddr regNum s =
     (case mdio_wait_until_rdy poll s of
        None \<Rightarrow> None
      | Some s1 \<Rightarrow>
          (case mdio_wait_until_rdy poll (go (s1\<lparr>MDIO_USERACCESS0 := 0 OR MDIO_USERACCESS0_GO OR mdio_addr phyAddr regNum\<rparr>)) of
             None \<Rightarrow> None
           | Some s2 \<Rightarrow>
               Some (if MDIO_USERACCESS0 s2 AND MDIO_USERACCESS0_ACK = MDIO_USERACCESS0_ACK
                     then ucast (MDIO_USERACCESS0 s2 AND 0xFFFF) else 0, s2)))"

definition mdio_reg_write ::
  "('p mdio_scheme \<Rightarrow> 'p mdio_scheme) \<Rightarrow> ('p mdio_scheme \<Rightarrow> 'p mdio_scheme) \<Rightarrow> u32 \<Rightarrow> u32 \<Rightarrow> u16 \<Rightarrow>
   'p mdio_scheme \<Rightarrow> 'p mdio_scheme option" where
  "mdio_reg_write go poll phyAddr regNum RegVal s =
     (case mdio_wait_until_rdy poll s of
        None \<Rightarrow> None
      | Some s1 \<Rightarrow>
          mdio_wait_until_rdy poll
            (go (s1\<lparr>MDIO_USERACCESS0 := MDIO_USERACCESS0_WRITE OR MDIO_USERACCESS0_GO OR mdio_addr phyAddr regNum OR ucast RegVal\<rparr>)))"

text \<open>\<open>VCLK3_FREQ\<close> is 75.000F.\<close>

definition mdio_init :: "u32 \<Rightarrow> 'p mdio_scheme \<Rightarrow> 'p mdio_scheme result" where
  "mdio_init clk s =
     (if clk = 0 then Inl DivByZero
      else Inr (s\<lparr>MDIO_CONTROL := ((75000000 div clk - 1) AND 0xFFFF) OR MDIO_CONTROL_ENABLE OR MDIO_CONTROL_FAULTENB\<rparr>))"

definition mdio_disable :: "'p mdio_scheme \<Rightarrow> 'p mdio_scheme" where
  "mdio_disable s = s\<lparr>MDIO_CONTROL := MDIO_CONTROL s AND NOT MDIO_CONTROL_ENABLE\<rparr>"

definition MDIO_LAST_STD_REG :: u16 where "MDIO_LAST_STD_REG = 31"
definition MDIO_ADDAR :: u32 where "MDIO_ADDAR = 0xE"
definition MDIO_REGCR :: u32 where "MDIO_REGCR = 0xD"

definition mdio_send_addr ::
  "('p mdio_scheme \<Rightarrow> 'p mdio_scheme) \<Rightarrow> ('p mdio_scheme \<Rightarrow> 'p mdio_scheme) \<Rightarrow> u32 \<Rightarrow> u16 \<Rightarrow>
   'p mdio_scheme \<Rightarrow> (u8 \<times> 'p mdio_scheme) option" where
  "mdio_send_addr go poll phyid addr s =
     (if addr \<le> MDIO_LAST_STD_REG then Some (ucast addr, s)
      else
        (case mdio_reg_write go poll phyid MDIO_REGCR (0 OR 0x1F) s of
           None \<Rightarrow> None
         | Some s1 \<Rightarrow>
             (case mdio_reg_write go poll phyid MDIO_ADDAR addr s1 of
                None \<Rightarrow> None
              | Some s2 \<Rightarrow>
                  map_option (Pair (ucast MDIO_ADDAR))
                    (mdio_reg_write go poll phyid MDIO_REGCR (push_bit 14 1 OR 0x1F) s2))))"

definition mdio_read ::
  "('p mdio_scheme \<Rightarrow> 'p mdio_scheme) \<Rightarrow> ('p mdio_scheme \<Rightarrow> 'p mdio_scheme) \<Rightarrow> u32 \<Rightarrow> u16 \<Rightarrow>
   'p mdio_scheme \<Rightarrow> (u16 \<times> 'p mdio_scheme) option" where
  "mdio_read go poll phyid addr s =
     (case mdio_send_addr go poll phyid addr s of
        None \<Rightarrow> None
      | Some (a, s1) \<Rightarrow> mdio_reg_read go poll phyid (ucast a) s1)"

definition mdio_write ::
  "('p mdio_scheme \<Rightarrow> 'p mdio_scheme) \<Rightarrow> ('p mdio_scheme \<Rightarrow> 'p mdio_scheme) \<Rightarrow> u32 \<Rightarrow> u16 \<Rightarrow> u16 \<Rightarrow>
   'p mdio_scheme \<Rightarrow> 'p mdio_scheme option" where
  "mdio_write go poll phyid addr val s =
     (case mdio_send_addr go poll phyid addr s of
        None \<Rightarrow> None
      | Some (a, s1) \<Rightarrow> mdio_reg_write go poll phyid (ucast a) val s1)"

section \<open>PHY\<close>

definition DP8386_PHYID :: u32 where "DP8386_PHYID = 3"
definition DP8386_RGMIICTL :: u16 where "DP8386_RGMIICTL = 0x32"

definition RGMIICTL :: u16 where
  "RGMIICTL = push_bit 7 1 OR push_bit 5 2 OR push_bit 3 2 OR push_bit 1 1 OR push_bit 0 1"

partial_function (option) dp8386_loop ::
  "('p mdio_scheme \<Rightarrow> 'p mdio_scheme) \<Rightarrow> ('p mdio_scheme \<Rightarrow> 'p mdio_scheme) \<Rightarrow> 'p mdio_scheme \<Rightarrow> 'p mdio_scheme option" where
  "dp8386_loop go poll s =
     (case mdio_write go poll DP8386_PHYID DP8386_RGMIICTL RGMIICTL s of
        None \<Rightarrow> None
      | Some s1 \<Rightarrow>
          (case mdio_read go poll DP8386_PHYID DP8386_RGMIICTL s1 of
             None \<Rightarrow> None
           | Some (v, s2) \<Rightarrow> if v = RGMIICTL then Some s2 else dp8386_loop go poll s2))"

definition DP8386_init ::
  "('p mdio_scheme \<Rightarrow> 'p mdio_scheme) \<Rightarrow> ('p mdio_scheme \<Rightarrow> 'p mdio_scheme) \<Rightarrow> 'p mdio_scheme \<Rightarrow> 'p mdio_scheme result" where
  "DP8386_init go poll s =
     (case mdio_init 100000 s of
        Inl e \<Rightarrow> Inl e
      | Inr s1 \<Rightarrow>
          (case dp8386_loop go poll s1 of
             None \<Rightarrow> Inl Hang
           | Some s2 \<Rightarrow> Inr (mdio_disable s2)))"

section \<open>SPI transfers\<close>

text \<open>What the SPI module promises: the transmit buffer drains, and what was sent stays sent.\<close>

definition spi_dev_ok :: "(mibspi \<Rightarrow> mibspi) \<Rightarrow> bool" where
  "spi_dev_ok dev \<longleftrightarrow> (\<forall>s. (\<exists>n. BUF ((dev ^^ n) s) AND SPIBUF_TXFULL = 0) \<and> DAT1 (dev s) = DAT1 s)"

definition spi_words :: "bytes \<Rightarrow> u32 list" where
  "spi_words tx = map (\<lambda>i. ucast (tx ! i) OR spi_flags (Suc i = length tx)) [0..<length tx]"

lemma spi_words_Cons: "spi_words (x # tx) = (ucast x OR spi_flags (tx = [])) # spi_words tx"
proof -
  have "spi_words (x # tx) = (ucast x OR spi_flags (tx = [])) # map (\<lambda>i. ucast (tx ! i) OR spi_flags (Suc i = length tx)) [0..<length tx]"
    by (simp add: spi_words_def upt_conv_Cons map_upt_shift del: upt_Suc)
  then show ?thesis by (simp add: spi_words_def)
qed

lemma spi_transfer_ok:
  "spi_dev_ok dev \<Longrightarrow> \<exists>s'. spi_transfer dev tx s = Some s' \<and> DAT1 s' = DAT1 s @ spi_words tx"
proof (induction tx arbitrary: s)
  case (Cons x tx)
  have keep: "DAT1 ((dev ^^ m) s) = DAT1 s" for m using Cons.prems by (induction m) (simp_all add: spi_dev_ok_def)
  obtain n where "BUF ((dev ^^ n) s) AND SPIBUF_TXFULL = 0" using Cons.prems by (auto simp: spi_dev_ok_def)
  then obtain m where "poll_until (\<lambda>s. BUF s AND SPIBUF_TXFULL = 0) dev s = Some ((dev ^^ m) s)"
    using poll_until_ends [of "\<lambda>s. BUF s AND SPIBUF_TXFULL = 0" n dev s] by blast
  then show ?case
    using Cons.IH [OF Cons.prems, of "(dev ^^ m) s\<lparr>DAT1 := DAT1 s @ [ucast x OR spi_flags (tx = [])]\<rparr>"] keep
    by (simp add: spi_words_Cons)
qed (simp add: spi_words_def)

lemma spi_word_fields:
  "(ucast (ucast x OR spi_flags b :: u32) :: u8) = x" "bit (ucast x OR spi_flags b :: u32) 28 \<longleftrightarrow> \<not> b"
  "drop_bit 16 (ucast x OR spi_flags b :: u32) AND 0xFF = 0xFE" for x :: u8
proof -
  have f: "spi_flags b = (if b then 0x04FE0000 else 0x14FE0000)" by (simp add: spi_flags_def SPIDAT1_CSHOLD_def)
  have p: "spi_flags b = push_bit 16 (if b then 0x04FE else 0x14FE)" by (simp add: f)
  show "(ucast (ucast x OR spi_flags b :: u32) :: u8) = x"
    unfolding p by (rule bit_word_eqI) (simp add: bit_ucast_iff bit_or_iff bit_push_bit_iff)
  show "bit (ucast x OR spi_flags b :: u32) 28 \<longleftrightarrow> \<not> b" by (auto simp: f bit_simps dest: bit_imp_le_length)
  have "drop_bit 16 (ucast x :: u32) = 0" by (rule bit_word_eqI) (auto simp: bit_simps dest: bit_imp_le_length)
  then show "drop_bit 16 (ucast x OR spi_flags b :: u32) AND 0xFF = 0xFE" by (simp add: drop_bit_or f)
qed

section \<open>The interrupt table\<close>

definition register_irqs :: "(nat \<times> isr_handler) list \<Rightarrow> vim \<Rightarrow> vim" where
  "register_irqs rs v = fold (\<lambda>(c, h). vim_register_irq c h) rs v"

lemma vim_register_irq_simps:
  "vimRAM (vim_register_irq c h v) i = (if i = c + 1 then h else vimRAM v i)"
  "bit (REQMASKSET (vim_register_irq c h v) (d div 32)) (d mod 32) \<longleftrightarrow> d = c \<or> bit (REQMASKSET v (d div 32)) (d mod 32)"
proof -
  show "vimRAM (vim_register_irq c h v) i = (if i = c + 1 then h else vimRAM v i)" by (simp add: vim_register_irq_def Let_def)
  have "d = c" if "d div 32 = c div 32" "d mod 32 = c mod 32" using that by (metis div_mult_mod_eq)
  then show "bit (REQMASKSET (vim_register_irq c h v) (d div 32)) (d mod 32) \<longleftrightarrow> d = c \<or> bit (REQMASKSET v (d div 32)) (d mod 32)"
    by (auto simp: vim_register_irq_def Let_def bit_or_iff bit_exp_iff)
qed

lemma vim_clear: "vimRAM (fold (\<lambda>i v. v\<lparr>vimRAM := (vimRAM v)(i := PhantomInterrupt)\<rparr>) is v) j
    = (if j \<in> set is then PhantomInterrupt else vimRAM v j)"
  "REQMASKSET (fold (\<lambda>i v. v\<lparr>vimRAM := (vimRAM v)(i := PhantomInterrupt)\<rparr>) is v) = REQMASKSET v"
  by (induction "is" arbitrary: v) auto

lemma register_irqs_table:
  "distinct (map fst rs) \<Longrightarrow>
    vimRAM (register_irqs rs v) (c + 1) = (case map_of rs c of None \<Rightarrow> vimRAM v (c + 1) | Some h \<Rightarrow> h)
    \<and> (bit (REQMASKSET (register_irqs rs v) (c div 32)) (c mod 32) \<longleftrightarrow> c \<in> fst ` set rs \<or> bit (REQMASKSET v (c div 32)) (c mod 32))"
proof (induction rs arbitrary: v)
  case (Cons r rs)
  obtain d h where r: "r = (d, h)" by fastforce
  have "map_of rs d = None" using Cons.prems by (simp add: r map_of_eq_None_iff)
  moreover have "register_irqs (r # rs) v = register_irqs rs (vim_register_irq d h v)" by (simp add: register_irqs_def r)
  ultimately show ?case
    using Cons.IH [of "vim_register_irq d h v"] Cons.prems by (auto simp: r vim_register_irq_simps split: option.split)
qed (simp add: register_irqs_def)

text \<open>
  After \<open>vim_init\<close> and any number of registrations for different channels, each channel has the handler
  registered for it, every other channel has \<open>phantomInterrupt\<close>, and exactly the registered channels (and
  channel 0, the error signal) have been enabled.
\<close>

theorem vim_table:
  assumes "distinct (map fst rs)" "0 \<notin> fst ` set rs" "c < 127"
  shows "vimRAM (register_irqs rs (vim_init v)) (c + 1) = (case map_of ((0, EsmHighInterrupt) # rs) c of None \<Rightarrow> PhantomInterrupt | Some h \<Rightarrow> h)
     \<and> (bit (REQMASKSET (register_irqs rs (vim_init v)) (c div 32)) (c mod 32)
          \<longleftrightarrow> c \<in> insert 0 (fst ` set rs) \<or> bit (REQMASKSET v (c div 32)) (c mod 32))"
proof -
  have i: "vimRAM (vim_init v) (c + 1) = (if c = 0 then EsmHighInterrupt else PhantomInterrupt)"
    "bit (REQMASKSET (vim_init v) (c div 32)) (c mod 32) \<longleftrightarrow> c = 0 \<or> bit (REQMASKSET v (c div 32)) (c mod 32)"
    using assms(3) unfolding vim_init_def vim_register_irq_simps by (simp_all add: vim_clear VIM_CHANNELS_def)
  have "map_of rs 0 = None" using assms(2) by (simp add: map_of_eq_None_iff)
  then show ?thesis using register_irqs_table [OF assms(1), of "vim_init v" c] i by (auto split: option.split)
qed

theorem vim_table_witness:
  "vimRAM (register_irqs [(2, RtiCompare0Interrupt), (77, EMACCore0TxIsr), (79, EMACCore0RxIsr)]
      (vim_init \<lparr>vimRAM = \<lambda>_. EMACCore0RxIsr, REQMASKSET = \<lambda>_. 0\<rparr>)) 80 = EMACCore0RxIsr"
  using vim_table [of "[(2, RtiCompare0Interrupt), (77, EMACCore0TxIsr), (79, EMACCore0RxIsr)]" 79 "\<lparr>vimRAM = \<lambda>_. EMACCore0RxIsr, REQMASKSET = \<lambda>_. 0\<rparr>"]
  by simp

section \<open>MDIO transactions\<close>

definition mdio_idle :: "'p mdio_scheme \<Rightarrow> bool" where
  "mdio_idle s \<longleftrightarrow> MDIO_USERACCESS0 s AND MDIO_USERACCESS0_GO \<noteq> MDIO_USERACCESS0_GO"

definition mdio_enabled :: "'p mdio_scheme \<Rightarrow> bool" where
  "mdio_enabled s \<longleftrightarrow> MDIO_CONTROL s AND MDIO_CONTROL_ENABLE = MDIO_CONTROL_ENABLE"

text \<open>
  What the module promises while it is enabled: a command ends, its effect on the state \<open>phy\<close> of the PHY is a
  register write or read, and a read is acknowledged with the data.
\<close>

definition mdio_cmd_ends ::
  "('p mdio_scheme \<Rightarrow> 'p mdio_scheme) \<Rightarrow> ('p mdio_scheme \<Rightarrow> 'p mdio_scheme) \<Rightarrow> 'p mdio_scheme \<Rightarrow> ('p mdio_scheme \<Rightarrow> bool) \<Rightarrow> bool" where
  "mdio_cmd_ends go poll s post \<longleftrightarrow>
     (\<exists>n. (\<forall>m < n. \<not> mdio_idle ((poll ^^ m) (go s))) \<and> mdio_idle ((poll ^^ n) (go s)) \<and> post ((poll ^^ n) (go s)))"

definition mdio_bus_ok ::
  "('p mdio_scheme \<Rightarrow> 'p mdio_scheme) \<Rightarrow> ('p mdio_scheme \<Rightarrow> 'p mdio_scheme) \<Rightarrow> ('p mdio_scheme \<Rightarrow> 'q) \<Rightarrow>
   (u32 \<Rightarrow> u32 \<Rightarrow> u16 \<Rightarrow> 'q \<Rightarrow> 'q) \<Rightarrow> (u32 \<Rightarrow> u32 \<Rightarrow> 'q \<Rightarrow> u16 \<times> 'q) \<Rightarrow> bool" where
  "mdio_bus_ok go poll phy wr rd \<longleftrightarrow>
     (\<forall>s x. phy (s\<lparr>MDIO_CONTROL := x\<rparr>) = phy s)
     \<and> (\<forall>s a r v. mdio_enabled s \<and> a < 32 \<and> r < 32 \<longrightarrow>
          mdio_cmd_ends go poll (s\<lparr>MDIO_USERACCESS0 := MDIO_USERACCESS0_WRITE OR MDIO_USERACCESS0_GO OR mdio_addr a r OR ucast v\<rparr>)
            (\<lambda>s'. mdio_enabled s' \<and> phy s' = wr a r v (phy s)))
     \<and> (\<forall>s a r. mdio_enabled s \<and> a < 32 \<and> r < 32 \<longrightarrow>
          mdio_cmd_ends go poll (s\<lparr>MDIO_USERACCESS0 := 0 OR MDIO_USERACCESS0_GO OR mdio_addr a r\<rparr>)
            (\<lambda>s'. mdio_enabled s' \<and> phy s' = snd (rd a r (phy s))
               \<and> MDIO_USERACCESS0 s' = MDIO_USERACCESS0_ACK OR ucast (fst (rd a r (phy s)))))"

lemma poll_until_first:
  "(\<forall>m < n. \<not> c ((step ^^ m) s)) \<Longrightarrow> c ((step ^^ n) s) \<Longrightarrow> poll_until c step s = Some ((step ^^ n) s)"
proof (induction n arbitrary: s)
  case (Suc n)
  have "\<not> c s" using Suc.prems(1) by (metis funpow_0 zero_less_Suc)
  moreover have "poll_until c step (step s) = Some ((step ^^ n) (step s))"
  proof (rule Suc.IH)
    show "\<forall>m < n. \<not> c ((step ^^ m) (step s))"
    proof (intro allI impI)
      fix m assume "m < n"
      then have "\<not> c ((step ^^ Suc m) s)" using Suc.prems(1) by blast
      then show "\<not> c ((step ^^ m) (step s))" by (simp add: funpow_swap1)
    qed
    show "c ((step ^^ n) (step s))" using Suc.prems(2) by (simp add: funpow_swap1)
  qed
  ultimately show ?case by (subst poll_until.simps) (simp add: funpow_swap1)
qed (simp add: poll_until_ready)

lemma mdio_wait_idle: "mdio_idle s \<Longrightarrow> mdio_wait_until_rdy poll s = Some s"
  by (simp add: mdio_wait_until_rdy_def poll_until_ready mdio_idle_def)

lemma mdio_wait_cmd:
  assumes "mdio_cmd_ends go poll s post"
  shows "\<exists>s'. mdio_wait_until_rdy poll (go s) = Some s' \<and> mdio_idle s' \<and> post s'"
proof -
  obtain n where n: "\<forall>m < n. \<not> mdio_idle ((poll ^^ m) (go s))" "mdio_idle ((poll ^^ n) (go s))" "post ((poll ^^ n) (go s))"
    using assms by (auto simp: mdio_cmd_ends_def)
  then have "mdio_wait_until_rdy poll (go s) = Some ((poll ^^ n) (go s))"
    unfolding mdio_wait_until_rdy_def by (intro poll_until_first) (simp_all add: mdio_idle_def)
  then show ?thesis using n by blast
qed

lemma mdio_reg_write_ok:
  assumes "mdio_bus_ok go poll phy wr rd" "mdio_idle s" "mdio_enabled s" "a < 32" "r < 32"
  shows "\<exists>s'. mdio_reg_write go poll a r v s = Some s' \<and> mdio_idle s' \<and> mdio_enabled s' \<and> phy s' = wr a r v (phy s)"
proof -
  have "mdio_cmd_ends go poll (s\<lparr>MDIO_USERACCESS0 := MDIO_USERACCESS0_WRITE OR MDIO_USERACCESS0_GO OR mdio_addr a r OR ucast v\<rparr>)
      (\<lambda>s'. mdio_enabled s' \<and> phy s' = wr a r v (phy s))"
    using assms by (simp add: mdio_bus_ok_def)
  from mdio_wait_cmd [OF this] show ?thesis using assms(2) by (auto simp: mdio_reg_write_def mdio_wait_idle)
qed

lemma ack_data: "(ucast ((MDIO_USERACCESS0_ACK OR ucast (x :: u16) :: u32) AND 0xFFFF) :: u16) = x"
  "(MDIO_USERACCESS0_ACK OR ucast x :: u32) AND MDIO_USERACCESS0_ACK = MDIO_USERACCESS0_ACK"
proof -
  have m: "(0xFFFF :: u32) = mask 16" "MDIO_USERACCESS0_ACK = push_bit 29 1" by (simp_all add: mask_eq_exp_minus_1 MDIO_USERACCESS0_ACK_def)
  show "(ucast ((MDIO_USERACCESS0_ACK OR ucast x :: u32) AND 0xFFFF) :: u16) = x"
    unfolding m by (rule bit_word_eqI) (simp add: bit_simps del: push_bit_of_1)
  show "(MDIO_USERACCESS0_ACK OR ucast x :: u32) AND MDIO_USERACCESS0_ACK = MDIO_USERACCESS0_ACK"
    by (rule bit_word_eqI) (auto simp: bit_or_iff bit_and_iff)
qed

lemma mdio_reg_read_ok:
  assumes "mdio_bus_ok go poll phy wr rd" "mdio_idle s" "mdio_enabled s" "a < 32" "r < 32"
  shows "\<exists>s'. mdio_reg_read go poll a r s = Some (fst (rd a r (phy s)), s') \<and> mdio_idle s' \<and> mdio_enabled s' \<and> phy s' = snd (rd a r (phy s))"
proof -
  have "mdio_cmd_ends go poll (s\<lparr>MDIO_USERACCESS0 := 0 OR MDIO_USERACCESS0_GO OR mdio_addr a r\<rparr>)
      (\<lambda>s'. mdio_enabled s' \<and> phy s' = snd (rd a r (phy s)) \<and> MDIO_USERACCESS0 s' = MDIO_USERACCESS0_ACK OR ucast (fst (rd a r (phy s))))"
    using assms unfolding mdio_bus_ok_def by blast
  from mdio_wait_cmd [OF this] show ?thesis using assms(2) by (auto simp: mdio_reg_read_def mdio_wait_idle ack_data)
qed

text \<open>
  The register accesses that select an extended register, and one round of \<open>DP8386_init\<close>: the register is
  written and read back.
\<close>

definition ext_select :: "(u32 \<Rightarrow> u32 \<Rightarrow> u16 \<Rightarrow> 'q \<Rightarrow> 'q) \<Rightarrow> u32 \<Rightarrow> u16 \<Rightarrow> 'q \<Rightarrow> 'q" where
  "ext_select wr a reg q = wr a 0xD 0x401F (wr a 0xE reg (wr a 0xD 0x1F q))"

definition rgmii_round :: "(u32 \<Rightarrow> u32 \<Rightarrow> u16 \<Rightarrow> 'q \<Rightarrow> 'q) \<Rightarrow> (u32 \<Rightarrow> u32 \<Rightarrow> 'q \<Rightarrow> u16 \<times> 'q) \<Rightarrow> 'q \<Rightarrow> u16 \<times> 'q" where
  "rgmii_round wr rd q = rd 3 0xE (ext_select wr 3 0x32 (wr 3 0xE 0xD3 (ext_select wr 3 0x32 q)))"

definition rgmii_next :: "(u32 \<Rightarrow> u32 \<Rightarrow> u16 \<Rightarrow> 'q \<Rightarrow> 'q) \<Rightarrow> (u32 \<Rightarrow> u32 \<Rightarrow> 'q \<Rightarrow> u16 \<times> 'q) \<Rightarrow> 'q \<Rightarrow> 'q" where
  "rgmii_next wr rd q = snd (rgmii_round wr rd q)"

lemma mdio_send_addr_ext:
  assumes bus: "mdio_bus_ok go poll phy wr rd" and s: "mdio_idle s" "mdio_enabled s" "a < 32" "31 < reg"
  shows "\<exists>s'. mdio_send_addr go poll a reg s = Some (0xE, s') \<and> mdio_idle s' \<and> mdio_enabled s' \<and> phy s' = ext_select wr a reg (phy s)"
proof -
  have r: "(0xD :: u32) < 32" "(0xE :: u32) < 32" by simp_all
  obtain s1 where s1: "mdio_reg_write go poll a 0xD 0x1F s = Some s1" "mdio_idle s1" "mdio_enabled s1" "phy s1 = wr a 0xD 0x1F (phy s)"
    using mdio_reg_write_ok [OF bus s(1-3) r(1)] by blast
  obtain s2 where s2: "mdio_reg_write go poll a 0xE reg s1 = Some s2" "mdio_idle s2" "mdio_enabled s2" "phy s2 = wr a 0xE reg (phy s1)"
    using mdio_reg_write_ok [OF bus s1(2,3) s(3) r(2)] by blast
  obtain s3 where s3: "mdio_reg_write go poll a 0xD 0x401F s2 = Some s3" "mdio_idle s3" "mdio_enabled s3" "phy s3 = wr a 0xD 0x401F (phy s2)"
    using mdio_reg_write_ok [OF bus s2(2,3) s(3) r(1)] by blast
  show ?thesis
    using not_le [THEN iffD2, OF s(4)] s1 s2 s3 by (simp add: mdio_send_addr_def MDIO_LAST_STD_REG_def MDIO_REGCR_def MDIO_ADDAR_def ext_select_def)
qed

lemma mdio_write_ext:
  assumes bus: "mdio_bus_ok go poll phy wr rd" and s: "mdio_idle s" "mdio_enabled s" "a < 32" "31 < reg"
  shows "\<exists>s'. mdio_write go poll a reg v s = Some s' \<and> mdio_idle s' \<and> mdio_enabled s' \<and> phy s' = wr a 0xE v (ext_select wr a reg (phy s))"
proof -
  obtain s1 where s1: "mdio_send_addr go poll a reg s = Some (0xE, s1)" "mdio_idle s1" "mdio_enabled s1" "phy s1 = ext_select wr a reg (phy s)"
    using mdio_send_addr_ext [OF assms] by blast
  then show ?thesis using mdio_reg_write_ok [OF bus s1(2,3) s(3), where r = 14 and v = v] by (simp add: mdio_write_def)
qed

lemma mdio_read_ext:
  assumes bus: "mdio_bus_ok go poll phy wr rd" and s: "mdio_idle s" "mdio_enabled s" "a < 32" "31 < reg"
  shows "\<exists>s'. mdio_read go poll a reg s = Some (fst (rd a 0xE (ext_select wr a reg (phy s))), s')
     \<and> mdio_idle s' \<and> mdio_enabled s' \<and> phy s' = snd (rd a 0xE (ext_select wr a reg (phy s)))"
proof -
  obtain s1 where s1: "mdio_send_addr go poll a reg s = Some (0xE, s1)" "mdio_idle s1" "mdio_enabled s1" "phy s1 = ext_select wr a reg (phy s)"
    using mdio_send_addr_ext [OF assms] by blast
  then show ?thesis using mdio_reg_read_ok [OF bus s1(2,3) s(3), where r = 14] by (simp add: mdio_read_def)
qed

lemma dp8386_round:
  assumes bus: "mdio_bus_ok go poll phy wr rd" and s: "mdio_idle s" "mdio_enabled s"
  shows "\<exists>s'. dp8386_loop go poll s = (if fst (rgmii_round wr rd (phy s)) = 0xD3 then Some s' else dp8386_loop go poll s')
     \<and> mdio_idle s' \<and> mdio_enabled s' \<and> phy s' = snd (rgmii_round wr rd (phy s))"
proof -
  have r: "(3 :: u32) < 32" "(31 :: u16) < 0x32" by simp_all
  obtain s1 where s1: "mdio_write go poll 3 0x32 0xD3 s = Some s1" "mdio_idle s1" "mdio_enabled s1"
      "phy s1 = wr 3 0xE 0xD3 (ext_select wr 3 0x32 (phy s))"
    using mdio_write_ext [OF bus s r] by blast
  obtain s2 where s2: "mdio_read go poll 3 0x32 s1 = Some (fst (rgmii_round wr rd (phy s)), s2)" "mdio_idle s2" "mdio_enabled s2"
      "phy s2 = snd (rgmii_round wr rd (phy s))"
    using mdio_read_ext [OF bus s1(2,3) r] unfolding s1(4) rgmii_round_def by blast
  have "RGMIICTL = 0xD3" by (simp add: RGMIICTL_def)
  then have "dp8386_loop go poll s = (if fst (rgmii_round wr rd (phy s)) = 0xD3 then Some s2 else dp8386_loop go poll s2)"
    using s1(1) s2(1) by (subst dp8386_loop.simps) (simp add: DP8386_PHYID_def DP8386_RGMIICTL_def)
  then show ?thesis using s2 by blast
qed

lemma dp8386_loop_ends:
  assumes bus: "mdio_bus_ok go poll phy wr rd"
  shows "mdio_idle s \<Longrightarrow> mdio_enabled s \<Longrightarrow> fst (rgmii_round wr rd (((rgmii_next wr rd) ^^ n) (phy s))) = 0xD3 \<Longrightarrow>
    \<exists>k s'. k \<le> n \<and> dp8386_loop go poll s = Some s' \<and> phy s' = ((rgmii_next wr rd) ^^ Suc k) (phy s)
       \<and> fst (rgmii_round wr rd (((rgmii_next wr rd) ^^ k) (phy s))) = 0xD3"
proof (induction n arbitrary: s)
  case (0 s)
  then show ?case using dp8386_round [OF bus 0(1,2)] by (intro exI [of _ 0]) (auto simp: rgmii_next_def)
next
  case (Suc n)
  obtain s' where s': "dp8386_loop go poll s = (if fst (rgmii_round wr rd (phy s)) = 0xD3 then Some s' else dp8386_loop go poll s')"
      "mdio_idle s'" "mdio_enabled s'" "phy s' = snd (rgmii_round wr rd (phy s))"
    using dp8386_round [OF bus Suc.prems(1,2)] by blast
  show ?case
  proof (cases "fst (rgmii_round wr rd (phy s)) = 0xD3")
    case True
    then show ?thesis using s' by (intro exI [of _ 0]) (auto simp: rgmii_next_def)
  next
    case False
    have "fst (rgmii_round wr rd (((rgmii_next wr rd) ^^ n) (phy s'))) = 0xD3"
      using Suc.prems(3) by (simp add: s'(4) rgmii_next_def [symmetric] funpow_swap1)
    from Suc.IH [OF s'(2,3) this] show ?thesis
    proof (elim exE conjE, goal_cases)
      case (1 k s2)
      then show ?case using False s'(1,4) by (intro exI [of _ "Suc k"] exI [of _ s2]) (simp add: rgmii_next_def [symmetric] funpow_swap1)
    qed
  qed
qed

section \<open>Bringing up PHY and switch\<close>

text \<open>
  C35: \<open>DP8386_init\<close> returns as soon as the PHY takes the value: if some round of writing \<open>RGMIICTL\<close> and
  reading it back gives the value written, it ends after such a round, with the register read back as
  written and the management interface switched off.
\<close>

theorem DP8386_init_ends:
  assumes "mdio_bus_ok go poll phy wr rd" "mdio_idle s"
    and "fst (rgmii_round wr rd ((rgmii_next wr rd ^^ n) (phy s))) = 0xD3"
  shows "\<exists>k s'. k \<le> n \<and> DP8386_init go poll s = Inr s' \<and> phy s' = (rgmii_next wr rd ^^ Suc k) (phy s)
     \<and> fst (rgmii_round wr rd ((rgmii_next wr rd ^^ k) (phy s))) = 0xD3 \<and> \<not> mdio_enabled s'"
proof -
  have phy: "phy (s\<lparr>MDIO_CONTROL := x\<rparr>) = phy s" for s x using assms(1) by (simp add: mdio_bus_ok_def)
  let ?s1 = "s\<lparr>MDIO_CONTROL := 0x400402ED\<rparr>"
  have i: "mdio_init 100000 s = Inr ?s1" by (simp add: mdio_init_def MDIO_CONTROL_ENABLE_def MDIO_CONTROL_FAULTENB_def)
  have "mdio_idle ?s1" "mdio_enabled ?s1" using assms(2) by (simp_all add: mdio_idle_def mdio_enabled_def MDIO_CONTROL_ENABLE_def)
  from dp8386_loop_ends [OF assms(1) this, of n] obtain k s' where k: "k \<le> n" "dp8386_loop go poll ?s1 = Some s'"
      "phy s' = (rgmii_next wr rd ^^ Suc k) (phy s)" "fst (rgmii_round wr rd ((rgmii_next wr rd ^^ k) (phy s))) = 0xD3"
    using assms(3) by (auto simp: phy)
  have "\<not> mdio_enabled (mdio_disable s')"
    by (simp add: mdio_enabled_def mdio_disable_def MDIO_CONTROL_ENABLE_def and.assoc)
  then show ?thesis
    using k i by (intro exI [of _ k] exI [of _ "mdio_disable s'"]) (simp add: DP8386_init_def mdio_disable_def phy)
qed

text \<open>
  \<open>SJA1105_init\<close> returns and has sent two SPI frames, the write of register 0x100032 and the static
  configuration: the words written carry the bytes in order, with chip select 0 asserted on every word and
  held up to, and not beyond, the last byte of each frame.
\<close>

theorem SJA1105_init_sends:
  assumes "spi_dev_ok dev"
  shows "\<exists>s' f1 f2. SJA1105_init dev s = Some s' \<and> DAT1 s' = DAT1 s @ f1 @ f2
     \<and> map ucast f1 = [0x81, 0x00, 0x03, 0x20, 0x0B, 0x00, 0x08, 0x00 :: u8] \<and> map ucast f2 = config
     \<and> (\<forall>f \<in> {f1, f2}. \<forall>i < length f. drop_bit 16 (f ! i) AND 0xFF = 0xFE \<and> (bit (f ! i) 28 \<longleftrightarrow> Suc i < length f))"
proof -
  let ?b1 = "WRITE 0x100032 @ be32 0xB000800"
  have bytes: "map ucast (spi_words tx) = tx" for tx
    by (rule nth_equalityI) (simp_all add: spi_words_def spi_word_fields)
  have ctl: "\<forall>i < length (spi_words tx). drop_bit 16 (spi_words tx ! i) AND 0xFF = 0xFE \<and> (bit (spi_words tx ! i) 28 \<longleftrightarrow> Suc i < length (spi_words tx))" for tx
    by (auto simp: spi_words_def spi_word_fields simp del: drop_bit_or)
  obtain s1 where s1: "spi_transfer dev ?b1 (spi_init s) = Some s1" "DAT1 s1 = DAT1 (spi_init s) @ spi_words ?b1"
    using spi_transfer_ok [OF assms] by blast
  obtain s2 where s2: "spi_transfer dev config s1 = Some s2" "DAT1 s2 = DAT1 s1 @ spi_words config"
    using spi_transfer_ok [OF assms] by blast
  have "?b1 = [0x81, 0x00, 0x03, 0x20, 0x0B, 0x00, 0x08, 0x00]" by (simp add: WRITE_def be32_def)
  then show ?thesis
    using s1 s2 bytes ctl
    by (intro exI [of _ s2] exI [of _ "spi_words ?b1"] exI [of _ "spi_words config"])
       (simp add: SJA1105_init_def SJA1105_write_def spi_init_def)
qed

theorem SJA1105_init_sends_witness:
  "\<exists>s'. SJA1105_init (\<lambda>s. s\<lparr>BUF := 0\<rparr>) \<lparr>GCR0 = 0, PC0 = 0, GCR1 = 0, DELAY = 0, FMT0 = 0, BUF = 0x20000000, DAT1 = []\<rparr> = Some s'
     \<and> map ucast (DAT1 s') = [0x81, 0x00, 0x03, 0x20, 0x0B, 0x00, 0x08, 0x00 :: u8] @ config"
proof -
  have "spi_dev_ok (\<lambda>s. s\<lparr>BUF := 0\<rparr>)"
    unfolding spi_dev_ok_def by (intro allI conjI exI [of _ 1]) simp_all
  from SJA1105_init_sends [OF this, of "\<lparr>GCR0 = 0, PC0 = 0, GCR1 = 0, DELAY = 0, FMT0 = 0, BUF = 0x20000000, DAT1 = []\<rparr>"]
  show ?thesis by (elim exE conjE) simp
qed

text \<open>A PHY that answers at once and keeps the extended registers it is given.\<close>

record ext_phy =
  ep_latch :: u16
  ep_data :: bool
  ep_regs :: "u16 \<Rightarrow> u16"

record phy_mdio = mdio +
  mdio_phy :: ext_phy

definition phy_wr :: "u32 \<Rightarrow> u32 \<Rightarrow> u16 \<Rightarrow> ext_phy \<Rightarrow> ext_phy" where
  "phy_wr a r v q =
     (if r = 0xD then q\<lparr>ep_data := bit v 14\<rparr>
      else if r = 0xE then (if ep_data q then q\<lparr>ep_regs := (ep_regs q)(ep_latch q := v)\<rparr> else q\<lparr>ep_latch := v\<rparr>)
      else q)"

definition phy_rd :: "u32 \<Rightarrow> u32 \<Rightarrow> ext_phy \<Rightarrow> u16 \<times> ext_phy" where
  "phy_rd a r q = (if r = 0xE \<and> ep_data q then ep_regs q (ep_latch q) else 0, q)"

definition phy_go :: "phy_mdio \<Rightarrow> phy_mdio" where
  "phy_go s =
     (let c = MDIO_USERACCESS0 s; r = drop_bit 21 c AND 0x1F in
      if bit c 30 then s\<lparr>MDIO_USERACCESS0 := 0, mdio_phy := phy_wr 0 r (ucast c) (mdio_phy s)\<rparr>
      else s\<lparr>MDIO_USERACCESS0 := MDIO_USERACCESS0_ACK OR ucast (fst (phy_rd 0 r (mdio_phy s)))\<rparr>)"

lemma phy_cmd_fields:
  fixes a r :: u32 and v :: u16
  assumes "r < 32" "a < 32"
  shows "drop_bit 21 (MDIO_USERACCESS0_WRITE OR MDIO_USERACCESS0_GO OR mdio_addr a r OR ucast v) AND 0x1F = r"
    "(ucast (MDIO_USERACCESS0_WRITE OR MDIO_USERACCESS0_GO OR mdio_addr a r OR ucast v) :: u16) = v"
    "bit (MDIO_USERACCESS0_WRITE OR MDIO_USERACCESS0_GO OR mdio_addr a r OR ucast v) 30"
    "drop_bit 21 (MDIO_USERACCESS0_GO OR mdio_addr a r) AND 0x1F = r"
    "\<not> bit (MDIO_USERACCESS0_GO OR mdio_addr a r) 30"
proof -
  have m: "(0x1F :: u32) = mask 5" "MDIO_USERACCESS0_WRITE = push_bit 30 1" "MDIO_USERACCESS0_GO = push_bit 31 1"
    by (simp_all add: mask_eq_exp_minus_1 MDIO_USERACCESS0_WRITE_def MDIO_USERACCESS0_GO_def)
  have "take_bit 5 r = r" using assms(1) by (simp add: word_unat_eq_iff unsigned_take_bit_eq take_bit_nat_def word_less_nat_alt)
  then have r: "bit r n \<Longrightarrow> n < 5" for n by (metis bit_take_bit_iff)
  have cmd: "bit (mdio_addr a r) n \<longleftrightarrow> 21 \<le> n \<and> n < 32 \<and> bit r (n - 21) \<or> 16 \<le> n \<and> n < 21 \<and> bit a (n - 16)" for n
    using r [of "n - 21"] unfolding mdio_addr_def m by (auto simp: bit_simps)
  have flag: "bit MDIO_USERACCESS0_WRITE n \<longleftrightarrow> n = 30" "bit MDIO_USERACCESS0_GO n \<longleftrightarrow> n = 31" if "n < 32" for n
    using that unfolding m(2,3) by (simp_all only: bit_push_bit_iff bit_1_iff possible_bit_word) auto
  have w: "bit (MDIO_USERACCESS0_WRITE OR MDIO_USERACCESS0_GO OR mdio_addr a r OR ucast v) n
      \<longleftrightarrow> n < 32 \<and> (n = 30 \<or> n = 31 \<or> bit (mdio_addr a r) n \<or> n < 16 \<and> bit v n)" for n
    by (cases "n < 32") (auto simp: bit_or_iff flag bit_ucast_iff impossible_bit dest: bit_imp_le_length)
  have g: "bit (MDIO_USERACCESS0_GO OR mdio_addr a r) n \<longleftrightarrow> n < 32 \<and> (n = 31 \<or> bit (mdio_addr a r) n)" for n
    by (cases "n < 32") (auto simp: bit_or_iff flag impossible_bit)
  show "drop_bit 21 (MDIO_USERACCESS0_WRITE OR MDIO_USERACCESS0_GO OR mdio_addr a r OR ucast v) AND 0x1F = r"
    unfolding m(1) by (rule bit_word_eqI) (auto simp: bit_and_iff bit_drop_bit_eq bit_mask_iff w cmd simp del: drop_bit_or dest: r)
  show "(ucast (MDIO_USERACCESS0_WRITE OR MDIO_USERACCESS0_GO OR mdio_addr a r OR ucast v) :: u16) = v"
    by (rule bit_word_eqI) (auto simp: bit_ucast_iff w cmd)
  show "bit (MDIO_USERACCESS0_WRITE OR MDIO_USERACCESS0_GO OR mdio_addr a r OR ucast v) 30"
    unfolding w by simp
  show "drop_bit 21 (MDIO_USERACCESS0_GO OR mdio_addr a r) AND 0x1F = r"
    unfolding m(1) by (rule bit_word_eqI) (auto simp: bit_and_iff bit_drop_bit_eq bit_mask_iff g cmd simp del: drop_bit_or dest: r)
  show "\<not> bit (MDIO_USERACCESS0_GO OR mdio_addr a r) 30"
    unfolding g using r [of 9] by (auto simp: cmd)
qed

lemma bit_GO: "bit MDIO_USERACCESS0_GO 31"
  by (simp add: MDIO_USERACCESS0_GO_def)

lemma phy_bus_ok: "mdio_bus_ok phy_go id mdio_phy phy_wr phy_rd"
proof -
  have w: "phy_wr a r v q = phy_wr 0 r v q" "phy_rd a r q = phy_rd 0 r q" for a r v q by (simp_all add: phy_wr_def phy_rd_def)
  have e: "mdio_enabled (phy_go s) \<longleftrightarrow> mdio_enabled s" for s by (simp add: phy_go_def mdio_enabled_def Let_def)
  have ack: "\<not> bit (MDIO_USERACCESS0_ACK OR ucast (x :: u16) :: u32) 31" for x
    unfolding MDIO_USERACCESS0_ACK_def by (auto simp: bit_simps dest: bit_imp_le_length)
  have i: "mdio_idle (phy_go s)" for s
  proof -
    have "\<not> bit (MDIO_USERACCESS0 (phy_go s)) 31" using ack by (simp add: phy_go_def Let_def)
    then have "MDIO_USERACCESS0 (phy_go s) AND MDIO_USERACCESS0_GO \<noteq> MDIO_USERACCESS0_GO"
      by (metis bit_and_iff bit_GO)
    then show ?thesis by (simp add: mdio_idle_def)
  qed
  have wr: "phy_go (s\<lparr>MDIO_USERACCESS0 := MDIO_USERACCESS0_WRITE OR MDIO_USERACCESS0_GO OR mdio_addr a r OR ucast v\<rparr>)
      = s\<lparr>MDIO_USERACCESS0 := 0, mdio_phy := phy_wr a r v (mdio_phy s)\<rparr>" if "a < 32" "r < 32" for s a r v
    unfolding phy_go_def Let_def w(1) [of a] using phy_cmd_fields(1-3) [OF that(2,1), of v] by (simp del: drop_bit_or)
  have rd: "phy_go (s\<lparr>MDIO_USERACCESS0 := MDIO_USERACCESS0_GO OR mdio_addr a r\<rparr>)
      = s\<lparr>MDIO_USERACCESS0 := MDIO_USERACCESS0_ACK OR ucast (fst (phy_rd a r (mdio_phy s)))\<rparr>" if "a < 32" "r < 32" for s a r
    unfolding phy_go_def Let_def w(2) [of a] using phy_cmd_fields(4,5) [OF that(2,1)] by (simp del: drop_bit_or)
  have rd2: "snd (phy_rd a r q) = q" for a r q by (simp add: phy_rd_def)
  show ?thesis
    unfolding mdio_bus_ok_def mdio_cmd_ends_def
    by (intro conjI allI impI exI [of _ 0]) (simp_all add: i, simp_all add: wr rd rd2 mdio_enabled_def)
qed

theorem DP8386_init_ends_witness:
  "\<exists>s'. DP8386_init phy_go id \<lparr>MDIO_CONTROL = 0, MDIO_USERACCESS0 = 0, mdio_phy = \<lparr>ep_latch = 0, ep_data = False, ep_regs = \<lambda>_. 0\<rparr>\<rparr> = Inr s'
     \<and> ep_regs (mdio_phy s') 0x32 = 0xD3 \<and> \<not> mdio_enabled s'"
proof -
  let ?s = "\<lparr>MDIO_CONTROL = 0, MDIO_USERACCESS0 = 0, mdio_phy = \<lparr>ep_latch = 0, ep_data = False, ep_regs = \<lambda>_. 0\<rparr>\<rparr>"
  have "fst (rgmii_round phy_wr phy_rd ((rgmii_next phy_wr phy_rd ^^ 0) (mdio_phy ?s))) = 0xD3"
    by (simp add: rgmii_round_def ext_select_def phy_wr_def phy_rd_def)
  moreover have "mdio_idle ?s" by (simp add: mdio_idle_def MDIO_USERACCESS0_GO_def)
  ultimately obtain s' where "DP8386_init phy_go id ?s = Inr s'" "mdio_phy s' = rgmii_next phy_wr phy_rd (mdio_phy ?s)" "\<not> mdio_enabled s'"
    using DP8386_init_ends [OF phy_bus_ok, of ?s 0] by auto
  then show ?thesis by (simp add: rgmii_next_def rgmii_round_def ext_select_def phy_wr_def phy_rd_def)
qed

end
