(* ===== verification/Hdkif_Init.thy ===== *)
theory Hdkif_Init
  imports Hdkif_Receive Board
begin

text \<open>
  \<open>hdkif_init\<close> of lwip/ports/hdk/netif/hdkif.c, which \<open>netif_add\<close> calls: the fields of the network interface, the registers of the EMAC,
  both descriptor rings and the interrupt handlers. Both halves of the driver see the same registers and allocators.
\<close>

section \<open>Definitions\<close>

text \<open>The fields of \<open>struct netif\<close> that the driver sets.\<close>

datatype link_fn = Hdkif_output
datatype ip6_fn = Ethip6_output

record netif_fields =
  if_hwaddr_len :: u8
  if_hwaddr :: bytes
  if_mtu :: u16
  if_flags :: u8
  if_name :: string
  if_num :: u8
  if_linkoutput :: "link_fn option"
  if_output_ip6 :: "ip6_fn option"

record ('cb, 'n) hdk =
  hdk_netif :: netif_fields
  hdk_inst_num :: u32
  hdk_bases :: "u32 \<times> u32 \<times> u32"
  hdk_tx :: hdkif
  hdk_rx :: "('cb, 'n) rxif"
  hdk_vim :: vim

definition MAX_TRANSFER_UNIT :: u16 where "MAX_TRANSFER_UNIT = 1514"
definition NETIF_FLAG_BROADCAST :: u8 where "NETIF_FLAG_BROADCAST = 0x02"
definition NETIF_FLAG_LINK_UP :: u8 where "NETIF_FLAG_LINK_UP = 0x04"
definition NETIF_FLAG_MLD6 :: u8 where "NETIF_FLAG_MLD6 = 0x40"

text \<open>The hardware address from the die identifier of the chip.\<close>

definition die_hwaddr :: "u32 \<Rightarrow> bytes" where
  "die_hwaddr die = [0x02, 0x00, ucast (drop_bit 24 die), ucast (drop_bit 16 die), ucast (drop_bit 8 die), ucast die]"

text \<open>The registers before the rings are set up, and after.\<close>

definition emac_configure :: "u32 \<Rightarrow> bytes \<Rightarrow> hwregs \<Rightarrow> hwregs" where
  "emac_configure base mac r =
     HWREG_or (base + 0x100) 0x00200000 (EMACRMIISpeedSet base 0x8000 (EMACDuplexSet base 1 (EMACMACSrcAddrSet base mac r)))"

definition emac_start :: "u32 \<Rightarrow> u32 \<Rightarrow> u32 \<Rightarrow> hwregs \<Rightarrow> hwregs" where
  "emac_start base ctrl rx_head r =
     EMACRxIntPulseEnable base ctrl 0 0 (EMACTxIntPulseEnable base ctrl 0 0 (EMACMIIEnable base
       (EMACRxHdrDescPtrWrite base rx_head 0 (EMACRxEnable base (EMACTxEnable base
         (EMACNumFreeBufSet base 0 10 (EMACCoreIntAck base 2 (EMACCoreIntAck base 1 r))))))))"

definition hdkif_hw_init ::
  "(hwregs \<Rightarrow> hwregs) \<Rightarrow> (nat \<Rightarrow> bytes) \<Rightarrow> (pbuf \<Rightarrow> u32) \<Rightarrow> u32 \<Rightarrow> ('cb, 'n) hdk \<Rightarrow> (err_t \<times> ('cb, 'n) hdk) result" where
  "hdkif_hw_init dev uninit payload_addr die h =
     (let (base, ctrl, ram) = hdk_bases h;
          nif = (hdk_netif h)\<lparr>if_hwaddr_len := 6, if_hwaddr := die_hwaddr die, if_mtu := MAX_TRANSFER_UNIT,
                             if_flags := NETIF_FLAG_BROADCAST OR NETIF_FLAG_LINK_UP OR NETIF_FLAG_MLD6\<rparr>
      in case EMACInit dev ctrl base (emac_regs (hdk_tx h)) of
           None \<Rightarrow> Inl Hang
         | Some r1 \<Rightarrow>
             (let r2 = emac_configure base (if_hwaddr nif) r1; tx = hdkif_tx_init (hdk_tx h) in
              case hdkif_rx_init uninit payload_addr (hdk_rx h) of
                Inl x \<Rightarrow> Inl x
              | Inr rx \<Rightarrow>
                  (let r3 = emac_start base ctrl (rx_active_head rx) r2
                   in Inr (ERR_OK, h\<lparr>hdk_netif := nif, hdk_tx := tx\<lparr>emac_regs := r3, emac_alloc := is_alloc (rx_up rx)\<rparr>, hdk_rx := rx\<lparr>rx_regs := r3\<rparr>,
                                     hdk_vim := vim_register_irq 79 EMACCore0RxIsr (vim_register_irq 77 EMACCore0TxIsr (hdk_vim h))\<rparr>))))"

definition hdkif_inst_config :: "('cb, 'n) hdk \<Rightarrow> ('cb, 'n) hdk" where
  "hdkif_inst_config h = (if hdk_inst_num h = 0 then h\<lparr>hdk_bases := (EMAC_0_BASE, EMAC_CTRL_0_BASE, EMAC_CTRL_RAM_0_BASE)\<rparr> else h)"

text \<open>There is one instance of the driver's data.\<close>

definition hdkif_init ::
  "(hwregs \<Rightarrow> hwregs) \<Rightarrow> (nat \<Rightarrow> bytes) \<Rightarrow> (pbuf \<Rightarrow> u32) \<Rightarrow> u32 \<Rightarrow> u32 \<Rightarrow> ('cb, 'n) hdk \<Rightarrow> (err_t \<times> ('cb, 'n) hdk) result" where
  "hdkif_init dev uninit payload_addr die inst_num h =
     (if inst_num \<noteq> 0 then Inl OutOfBounds
      else hdkif_hw_init dev uninit payload_addr die
             (hdkif_inst_config (h\<lparr>hdk_inst_num := inst_num,
                hdk_netif := (hdk_netif h)\<lparr>if_name := ''en'', if_num := ucast inst_num, if_linkoutput := Some Hdkif_output, if_output_ip6 := Some Ethip6_output\<rparr>\<rparr>)))"


section \<open>Registers\<close>

lemmas emac_defs = emac_configure_def emac_start_def EMACRxIntPulseEnable_def EMACTxIntPulseEnable_def EMACMIIEnable_def EMACRxHdrDescPtrWrite_def EMACRxEnable_def
  EMACTxEnable_def EMACNumFreeBufSet_def EMACCoreIntAck_def EMACRMIISpeedSet_def EMACDuplexSet_def EMACMACSrcAddrSet_def HWREG_or_def EMAC_RXHDP_def EMAC_TXHDP_def
  EMAC_RXFREEBUFFER_def EMAC_0_BASE_def EMAC_CTRL_0_BASE_def

text \<open>The registers of a driver that is ready: both channels enabled, the first receive descriptor given to the engine, interrupts on.\<close>

definition emac_ready :: "u32 \<Rightarrow> hwregs \<Rightarrow> bool" where
  "emac_ready rx_head r \<longleftrightarrow> r (EMAC_0_BASE + EMAC_RXHDP 0) = rx_head \<and> r (EMAC_0_BASE + EMAC_TXHDP 0) = 0 \<and> r (EMAC_0_BASE + 0x4) = 1 \<and> r (EMAC_0_BASE + 0x14) = 1
     \<and> bit (r (EMAC_0_BASE + 0x160)) 0 \<and> bit (r (EMAC_0_BASE + 0x160)) 5 \<and> bit (r (EMAC_0_BASE + 0x160)) 15 \<and> bit (r (EMAC_0_BASE + 0x88)) 0 \<and> bit (r (EMAC_0_BASE + 0xA8)) 0
     \<and> bit (r (EMAC_CTRL_0_BASE + 0x18)) 0 \<and> bit (r (EMAC_CTRL_0_BASE + 0x14)) 0"

lemma emac_start_ready:
  assumes "r (EMAC_0_BASE + EMAC_TXHDP 0) = 0"
  shows "emac_ready h0 (emac_start EMAC_0_BASE EMAC_CTRL_0_BASE h0 (emac_configure EMAC_0_BASE mac r))"
  using assms unfolding emac_ready_def by (simp add: emac_defs bit_or_iff bit_and_iff)


section \<open>Properties\<close>

text \<open>
  C26: If the module leaves its reset, \<open>hdkif_init\<close> returns \<open>ERR_OK\<close> with a driver that is ready: the interface has the hardware address of the
  die; the 204 transmit descriptors form a ring of free ones; the receive descriptors (as many pairs as there are pairs of pool buffers, ten at
  most) are linked in order, hold a buffer each, at least 114 bytes each and 1514 per pair, and are given to the engine; both channels and both
  interrupts are enabled, and the two handlers are installed.
\<close>
theorem hdkif_init_ready:
  fixes h :: "('cb, 'n) hdk"
  assumes "\<forall>r. \<exists>n. (dev ^^ n) r (EMAC_CTRL_0_BASE + 0x4) AND 1 \<noteq> 1" "\<forall>r. \<exists>n. (dev ^^ n) r (EMAC_0_BASE + 0x174) AND 1 \<noteq> 1"
    and "mld_ok pools (is_mld (rx_up (hdk_rx h))) (is_alloc (rx_up (hdk_rx h)))" "4 \<le> card (pool_free (hdk_rx h))" "even (card (pool_free (hdk_rx h)))" "fresh_ok uninit"
  shows "\<exists>h' n. hdkif_init dev uninit payload_addr die 0 h = Inr (ERR_OK, h') \<and> if_hwaddr (hdk_netif h') = die_hwaddr die \<and> if_linkoutput (hdk_netif h') = Some Hdkif_output
    \<and> tx_ring (hdk_tx h') (bds_from NUM_TX_BD EMAC_CTRL_RAM_0_BASE) [] \<and> n = 2 * min MAX_RX_PBUF_ALLOC (card (pool_free (hdk_rx h)) div 2)
    \<and> rx_state pools (hdk_rx h') [] (map rx_bd [0..<n]) [] \<and> card (pool_free (hdk_rx h')) + n = card (pool_free (hdk_rx h))
    \<and> buf_room (hdk_rx h') (map rx_bd [0..<n]) = 757 * n \<and> (\<forall>a \<in> set (bufs (hdk_rx h') (map rx_bd [0..<n])). 114 \<le> unat (p_len (pb_at (hdk_rx h') a)))
    \<and> emac_ready (rx_bd 0) (emac_regs (hdk_tx h')) \<and> rx_regs (hdk_rx h') = emac_regs (hdk_tx h')
    \<and> vimRAM (hdk_vim h') 80 = EMACCore0RxIsr \<and> vimRAM (hdk_vim h') 78 = EMACCore0TxIsr"
proof -
  from EMACInit_quiet [OF assms(1,2), of "emac_regs (hdk_tx h)"] obtain r1 where
    r1: "EMACInit dev EMAC_CTRL_0_BASE EMAC_0_BASE (emac_regs (hdk_tx h)) = Some r1" "r1 (EMAC_0_BASE + EMAC_TXHDP 0) = 0"
    by auto
  define n where "n = 2 * min MAX_RX_PBUF_ALLOC (card (pool_free (hdk_rx h)) div 2)"
  from rx_init_ring [OF assms(3-6), of payload_addr, folded n_def] obtain rx where
    rx: "hdkif_rx_init uninit payload_addr (hdk_rx h) = Inr rx" "rx_state pools rx [] (map rx_bd [0..<n]) []" "card (pool_free rx) + n = card (pool_free (hdk_rx h))"
      "buf_room rx (map rx_bd [0..<n]) = 757 * n" "\<forall>a \<in> set (bufs rx (map rx_bd [0..<n])). 114 \<le> unat (p_len (pb_at rx a))"
    by (elim exE conjE)
  have "n \<noteq> 0" using assms(4) by (simp add: n_def MAX_RX_PBUF_ALLOC_def)
  then have hd: "rx_active_head rx = rx_bd 0" using rx(2) by (simp add: rx_state_def rx_ring_def hd_map)
  define r3 where "r3 = emac_start EMAC_0_BASE EMAC_CTRL_0_BASE (rx_bd 0) (emac_configure EMAC_0_BASE (die_hwaddr die) r1)"
  let ?h = "h\<lparr>hdk_inst_num := 0, hdk_bases := (EMAC_0_BASE, EMAC_CTRL_0_BASE, EMAC_CTRL_RAM_0_BASE),
    hdk_netif := (hdk_netif h)\<lparr>if_name := ''en'', if_num := 0, if_linkoutput := Some Hdkif_output, if_output_ip6 := Some Ethip6_output,
      if_hwaddr_len := 6, if_hwaddr := die_hwaddr die, if_mtu := MAX_TRANSFER_UNIT, if_flags := NETIF_FLAG_BROADCAST OR NETIF_FLAG_LINK_UP OR NETIF_FLAG_MLD6\<rparr>,
    hdk_tx := (hdkif_tx_init (hdk_tx h))\<lparr>emac_regs := r3, emac_alloc := is_alloc (rx_up rx)\<rparr>, hdk_rx := rx\<lparr>rx_regs := r3\<rparr>,
    hdk_vim := vim_register_irq 79 EMACCore0RxIsr (vim_register_irq 77 EMACCore0TxIsr (hdk_vim h))\<rparr>"
  have run: "hdkif_init dev uninit payload_addr die 0 h = Inr (ERR_OK, ?h)"
    using r1(1) rx(1) hd by (simp add: hdkif_init_def hdkif_inst_config_def hdkif_hw_init_def Let_def r3_def)
  have tx: "tx_ring ((hdkif_tx_init (hdk_tx h))\<lparr>emac_regs := r3, emac_alloc := is_alloc (rx_up rx)\<rparr>) (bds_from NUM_TX_BD EMAC_CTRL_RAM_0_BASE) []"
    using tx_init_ring [of "hdk_tx h"] by (simp add: tx_ring_def)
  have rdy: "emac_ready (rx_bd 0) r3" unfolding r3_def using r1(2) by (rule emac_start_ready [where r = r1])
  have same: "bufs (rx\<lparr>rx_regs := r3\<rparr>) ds = bufs rx ds" "buf_room (rx\<lparr>rx_regs := r3\<rparr>) ds = buf_room rx ds" "pool_free (rx\<lparr>rx_regs := r3\<rparr>) = pool_free rx" for ds
    by (simp_all add: bufs_def buf_room_def pool_free_def)
  show ?thesis
    by (rule exI [of _ ?h], rule exI [of _ n]) (use run tx rdy rx(2-5) in \<open>simp add: n_def [symmetric] rx_state_regs same vim_register_irq_simps(1)\<close>)
qed


section \<open>Examples\<close>

definition hdk_sample :: "(nat, bytes list) hdk" where
  "hdk_sample = \<lparr>hdk_netif = \<lparr>if_hwaddr_len = 0, if_hwaddr = [], if_mtu = 0, if_flags = 0, if_name = [], if_num = 0, if_linkoutput = None, if_output_ip6 = None\<rparr>,
     hdk_inst_num = 7, hdk_bases = (0, 0, 0), hdk_tx = sample_emac (al_memp alloc0) (al_heap alloc0), hdk_rx = rxif.truncate (rx_sample []), hdk_vim = \<lparr>vimRAM = \<lambda>_. PhantomInterrupt, REQMASKSET = \<lambda>_. 0\<rparr>\<rparr>"

lemma hdk_sample_pool:
  "card (pool_free (hdk_rx hdk_sample)) = 16" "mld_ok sample_pools (is_mld (rx_up (hdk_rx hdk_sample))) (is_alloc (rx_up (hdk_rx hdk_sample)))"
proof -
  have "rx_up (hdk_rx hdk_sample) = rx_up (rx_sample [])" by (simp add: hdk_sample_def rxif.truncate_def)
  then show "card (pool_free (hdk_rx hdk_sample)) = 16" "mld_ok sample_pools (is_mld (rx_up (hdk_rx hdk_sample))) (is_alloc (rx_up (hdk_rx hdk_sample)))"
    using rx_sample_pool [of "[]"] by (simp_all add: pool_free_def)
qed

theorem hdkif_init_ready_witness:
  "\<exists>h'. hdkif_init (\<lambda>r. r(0xFCF78804 := 0, 0xFCF78174 := 0)) zeros sample_addr 0xAABBCCDD 0 hdk_sample = Inr (ERR_OK, h')
    \<and> if_hwaddr (hdk_netif h') = [0x02, 0x00, 0xAA, 0xBB, 0xCC, 0xDD] \<and> rx_state sample_pools (hdk_rx h') [] (map rx_bd [0..<16]) [] \<and> card (pool_free (hdk_rx h')) = 0"
proof -
  let ?dev = "\<lambda>r :: hwregs. r(0xFCF78804 := 0, 0xFCF78174 := 0)"
  have dev: "\<forall>r. \<exists>n. (?dev ^^ n) r (EMAC_CTRL_0_BASE + 0x4) AND 1 \<noteq> 1" "\<forall>r. \<exists>n. (?dev ^^ n) r (EMAC_0_BASE + 0x174) AND 1 \<noteq> 1"
    by (intro allI exI [of _ 1]; simp add: EMAC_CTRL_0_BASE_def EMAC_0_BASE_def)+
  have "die_hwaddr 0xAABBCCDD = [0x02, 0x00, 0xAA, 0xBB, 0xCC, 0xDD]" by (simp add: die_hwaddr_def)
  with hdkif_init_ready [OF dev hdk_sample_pool(2) _ _ zeros_fresh, of sample_addr "0xAABBCCDD"] show ?thesis
    by (auto simp: hdk_sample_pool(1) MAX_RX_PBUF_ALLOC_def)
qed

end
