(* ===== verification/Nd6.thy ===== *)
theory Nd6
  imports Icmp6
begin

text \<open>
  Neighbour discovery (lwip/src/core/ipv6/nd6.c, priv/nd6_priv.h, prot/nd6.h): the tables, the solicitations and
  advertisements, the choice of the next hop, and the packets queued until its hardware address is known. There is one
  interface; \<open>netif->output_ip6\<close> is an argument until the last section of definitions, which ties it to
  \<open>ethip6_output\<close>. The other theory of this component, Nd6_Input, has the input and the timer.
\<close>

section \<open>Definitions\<close>

subsection \<open>Tables\<close>

definition LWIP_ND6_NUM_NEIGHBORS :: nat where "LWIP_ND6_NUM_NEIGHBORS = 10"
definition LWIP_ND6_NUM_DESTINATIONS :: nat where "LWIP_ND6_NUM_DESTINATIONS = 10"
definition LWIP_ND6_NUM_PREFIXES :: nat where "LWIP_ND6_NUM_PREFIXES = 5"
definition LWIP_ND6_NUM_ROUTERS :: nat where "LWIP_ND6_NUM_ROUTERS = 3"
definition LWIP_IPV6_NUM_ADDRESSES :: nat where "LWIP_IPV6_NUM_ADDRESSES = 3"
definition MEMP_NUM_ND6_QUEUE :: u8 where "MEMP_NUM_ND6_QUEUE = 20"
definition LWIP_ND6_MAX_MULTICAST_SOLICIT :: nat where "LWIP_ND6_MAX_MULTICAST_SOLICIT = 3"
definition LWIP_ND6_REACHABLE_TIME :: u32 where "LWIP_ND6_REACHABLE_TIME = 30000"
definition LWIP_ND6_RETRANS_TIMER :: u32 where "LWIP_ND6_RETRANS_TIMER = 1000"
definition LWIP_ND6_DELAY_FIRST_PROBE_TIME :: u32 where "LWIP_ND6_DELAY_FIRST_PROBE_TIME = 5000"
definition ND6_TMR_INTERVAL :: u32 where "ND6_TMR_INTERVAL = 1000"
definition ND6_HOPLIM :: u8 where "ND6_HOPLIM = 255"
definition IP6_MIN_MTU_LENGTH :: u16 where "IP6_MIN_MTU_LENGTH = 1280"

datatype nd6_neighbor_cache_entry_state =
  ND6_NO_ENTRY | ND6_INCOMPLETE | ND6_REACHABLE | ND6_STALE | ND6_DELAY | ND6_PROBE

text \<open>
  A pointer to a pbuf, by the memory it was allocated from and its address there. \<open>struct nd6_q_entry\<close> is an element of
  the pool \<open>MEMP_ND6_QUEUE\<close>, \<open>q_ptr\<close> its address; the order of a queue is that of \<open>next\<close>.
\<close>

type_synonym pbuf_ptr = "u8 \<times> nat"

definition pbuf_ptr :: "pbuf \<Rightarrow> pbuf_ptr" where
  "pbuf_ptr b = (pbuf_get_allocsrc b, pbuf_addr b)"

record nd6_q_entry =
  q_ptr :: nat
  q_p :: pbuf_ptr

text \<open>
  \<open>netif\<close> of an entry is the interface or NULL. The members of the union \<open>counter\<close> share one word.
\<close>

record nd6_neighbor_cache_entry =
  next_hop_address :: ip6_addr
  nbr_netif :: bool
  lladdr :: bytes
  nbr_q :: "nd6_q_entry list"
  nbr_state :: nd6_neighbor_cache_entry_state
  isrouter :: bool
  counter :: u32

record nd6_destination_cache_entry =
  destination_addr :: ip6_addr
  next_hop_addr :: ip6_addr
  pmtu :: u16
  cached_neighbor_idx :: u8
  age :: u32

record nd6_prefix_list_entry =
  prefix_addr :: ip6_addr
  prefix_netif :: bool
  prefix_timer :: u32

text \<open>\<open>neighbor_entry\<close>, a pointer into the neighbour cache, is the index of the entry.\<close>

record nd6_router_list_entry =
  neighbor_entry :: "nat option"
  router_timer :: u32
  router_flags :: u8

text \<open>
  The static variables of nd6.c, the fields of the interface they work with, and the packets that pointers to pbufs
  designate. A queued packet is shared with the code that sent it (\<open>pbuf_ref\<close>), so the queues hold pointers and the
  packets are in a store; \<open>nd_link\<close> is the state of the driver.
\<close>

record 'n nd6 =
  neighbor_cache :: "nd6_neighbor_cache_entry list"
  destination_cache :: "nd6_destination_cache_entry list"
  prefix_list :: "nd6_prefix_list_entry list"
  default_router_list :: "nd6_router_list_entry list"
  reachable_time :: u32
  retrans_timer :: u32
  nd6_queue_size :: u8
  nd6_cached_destination_index :: nat
  nd6_tmr_rs_reduction :: u8
  nd6_ra_buffer :: bytes
  last_router :: nat
  nd_netif :: netif
  rs_count :: u8
  netif_mtu :: u16
  netif_mtu6 :: u16
  nd_pkts :: "pbuf_ptr \<Rightarrow> chain"
  nd_link :: 'n

text \<open>The loops over a table: the first index whose entry satisfies a predicate.\<close>

fun find_idx :: "('a \<Rightarrow> bool) \<Rightarrow> 'a list \<Rightarrow> nat option" where
  "find_idx P [] = None"
| "find_idx P (x # xs) = (if P x then Some 0 else map_option Suc (find_idx P xs))"

text \<open>A loop whose body may fail.\<close>

fun iterate :: "('a \<Rightarrow> 's \<Rightarrow> 's result) \<Rightarrow> 'a list \<Rightarrow> 's \<Rightarrow> 's result" where
  "iterate f [] s = Inr s"
| "iterate f (x # xs) s = (case f x s of Inl e \<Rightarrow> Inl e | Inr s' \<Rightarrow> iterate f xs s')"

definition upd_nbr :: "nat \<Rightarrow> (nd6_neighbor_cache_entry \<Rightarrow> nd6_neighbor_cache_entry) \<Rightarrow> 'n nd6 \<Rightarrow> 'n nd6" where
  "upd_nbr i f n = n\<lparr>neighbor_cache := (neighbor_cache n)[i := f (neighbor_cache n ! i)]\<rparr>"
definition upd_dst :: "nat \<Rightarrow> (nd6_destination_cache_entry \<Rightarrow> nd6_destination_cache_entry) \<Rightarrow> 'n nd6 \<Rightarrow> 'n nd6" where
  "upd_dst i f n = n\<lparr>destination_cache := (destination_cache n)[i := f (destination_cache n ! i)]\<rparr>"
definition upd_router :: "nat \<Rightarrow> (nd6_router_list_entry \<Rightarrow> nd6_router_list_entry) \<Rightarrow> 'n nd6 \<Rightarrow> 'n nd6" where
  "upd_router i f n = n\<lparr>default_router_list := (default_router_list n)[i := f (default_router_list n ! i)]\<rparr>"

text \<open>\<open>pbuf_free\<close> of a packet that the store may hold: what is left of the chain is still a packet.\<close>

definition put_pkt :: "chain \<Rightarrow> 'n nd6 \<Rightarrow> 'n nd6" where
  "put_pkt c n = (case c of [] \<Rightarrow> n | b # bs \<Rightarrow> n\<lparr>nd_pkts := (nd_pkts n)(pbuf_ptr b := c)\<rparr>)"

definition nd_pbuf_free :: "chain \<Rightarrow> alloc_state \<Rightarrow> 'n nd6 \<Rightarrow> (alloc_state \<times> 'n nd6) result" where
  "nd_pbuf_free c s n =
     (case pbuf_free c s of
        Inl e \<Rightarrow> Inl e
      | Inr (cnt, rest, s') \<Rightarrow> Inr (s', put_pkt rest (n\<lparr>nd_pkts := (nd_pkts n)(pbuf_ptr (hd c) := [])\<rparr>)))"

subsection \<open>Solicitations and advertisements\<close>

definition ND6_SEND_FLAG_MULTICAST_DEST :: u8 where "ND6_SEND_FLAG_MULTICAST_DEST = 0x01"
definition ND6_SEND_FLAG_ALLNODES_DEST :: u8 where "ND6_SEND_FLAG_ALLNODES_DEST = 0x02"
definition ND6_SEND_FLAG_ANY_SRC :: u8 where "ND6_SEND_FLAG_ANY_SRC = 0x04"
definition ND6_FLAG_SOLICITED :: u8 where "ND6_FLAG_SOLICITED = 0x40"
definition ND6_FLAG_OVERRIDE :: u8 where "ND6_FLAG_OVERRIDE = 0x20"
definition ND6_OPTION_TYPE_SOURCE_LLADDR :: u8 where "ND6_OPTION_TYPE_SOURCE_LLADDR = 1"
definition ND6_OPTION_TYPE_TARGET_LLADDR :: u8 where "ND6_OPTION_TYPE_TARGET_LLADDR = 2"

fun ip6_addr_solicitednode :: "ip6_addr \<Rightarrow> ip6_addr" where
  "ip6_addr_solicitednode (IP6 a b c d) = IP6 0xff020000 0 1 (0xff000000 OR d)"
definition ip6_addr_allnodes_linklocal :: ip6_addr where "ip6_addr_allnodes_linklocal = IP6 0xff020000 0 0 1"
definition ip6_addr_allrouters_linklocal :: ip6_addr where "ip6_addr_allrouters_linklocal = IP6 0xff020000 0 0 2"

definition ns_header_bytes :: "ip6_addr \<Rightarrow> bytes" where
  "ns_header_bytes target = [ICMP6_TYPE_NS, 0] @ be16 0 @ be32 0 @ ip6_addr_bytes target"
definition na_header_bytes :: "u8 \<Rightarrow> ip6_addr \<Rightarrow> bytes" where
  "na_header_bytes flags target = [ICMP6_TYPE_NA, 0] @ be16 0 @ [flags AND 0xf0, 0, 0, 0] @ ip6_addr_bytes target"
definition rs_header_bytes :: bytes where
  "rs_header_bytes = [ICMP6_TYPE_RS, 0] @ be16 0 @ be32 0"

text \<open>The length of the link-layer address option in units of 8 bytes, and the option (the padding is not written).\<close>

definition lladdr_opt_len :: "netif \<Rightarrow> nat" where
  "lladdr_opt_len netif = (length (hwaddr netif) + 2 + 7) div 8"
definition lladdr_option_bytes :: "u8 \<Rightarrow> netif \<Rightarrow> bytes" where
  "lladdr_option_bytes type netif = [type, of_nat (lladdr_opt_len netif)] @ hwaddr netif"

text \<open>The end of the three functions that send: the checksum, \<open>ip6_output_if\<close>, \<open>pbuf_free\<close>. A source \<open>None\<close> is NULL.\<close>

definition nd6_xmit ::
  "'n nd6 output_ip6_fn \<Rightarrow> chain \<Rightarrow> ip6_addr option \<Rightarrow> ip6_addr \<Rightarrow> alloc_state \<Rightarrow> 'n nd6 \<Rightarrow> (err_t \<times> alloc_state \<times> 'n nd6) result" where
  "nd6_xmit out c src dest s n =
     (case put_icmp6_chksum c (p_len (hd c)) (case src of None \<Rightarrow> IP6_ADDR_ANY | Some a \<Rightarrow> a) dest of
        Inl e \<Rightarrow> Inl e
      | Inr c1 \<Rightarrow>
          (case ip6_output_if out c1 src (Some dest) ND6_HOPLIM 0 IP6_NEXTH_ICMP6 (nd_netif n) s n of
             Inl e \<Rightarrow> Inl e
           | Inr (err, c2, s2, n2) \<Rightarrow> map_sum id (Pair err) (nd_pbuf_free c2 s2 n2)))"

text \<open>A message: its header, and the link-layer address option when there is one.\<close>

definition nd6_message ::
  "(nat \<Rightarrow> bytes) \<Rightarrow> bytes \<Rightarrow> (u8 \<times> netif) option \<Rightarrow> alloc_state \<Rightarrow> (chain \<times> alloc_state) result" where
  "nd6_message uninit msg opt s =
     (case pbuf_alloc uninit PBUF_IP (of_nat (length msg + (case opt of None \<Rightarrow> 0 | Some (t, nif) \<Rightarrow> 8 * lladdr_opt_len nif))) PBUF_RAM s of
        Inl e \<Rightarrow> Inl e
      | Inr ([], s1) \<Rightarrow> Inr ([], s1)
      | Inr (b # bs, s1) \<Rightarrow>
          (case write_payload b 0 msg of
             Inl e \<Rightarrow> Inl e
           | Inr b1 \<Rightarrow>
               (case opt of
                  None \<Rightarrow> Inr (b1 # bs, s1)
                | Some (t, nif) \<Rightarrow>
                    map_sum id (\<lambda>b2. (b2 # bs, s1)) (write_payload b1 (length msg) (lladdr_option_bytes t nif)))))"

definition ns_source :: "netif \<Rightarrow> ip6_addr \<Rightarrow> ip6_addr option" where
  "ns_source netif target = map_option fst (find (\<lambda>(a, st). ip6_addr_isvalid st \<and> ip6_addr_net_eq target a) (ip6_addrs netif))"

definition nd6_send_ns ::
  "(nat \<Rightarrow> bytes) \<Rightarrow> 'n nd6 output_ip6_fn \<Rightarrow> ip6_addr \<Rightarrow> u8 \<Rightarrow> alloc_state \<Rightarrow> 'n nd6 \<Rightarrow> (alloc_state \<times> 'n nd6) result" where
  "nd6_send_ns uninit out target flags s n =
     (let any = (flags AND ND6_SEND_FLAG_ANY_SRC \<noteq> 0);
          src = (if any then None else ns_source (nd_netif n) target)
      in if \<not> any \<and> src = None then Inr (s, n)
         else
           (case nd6_message uninit (ns_header_bytes target)
                   (if any then None else Some (ND6_OPTION_TYPE_SOURCE_LLADDR, nd_netif n)) s of
              Inl e \<Rightarrow> Inl e
            | Inr ([], s1) \<Rightarrow> Inr (s1, n)
            | Inr (c, s1) \<Rightarrow>
                map_sum id snd
                  (nd6_xmit out c src
                     (if flags AND ND6_SEND_FLAG_MULTICAST_DEST \<noteq> 0 then ip6_addr_solicitednode target else target) s1 n)))"

text \<open>\<open>cur_src\<close> is \<open>ip6_current_src_addr()\<close>.\<close>

definition nd6_send_na ::
  "(nat \<Rightarrow> bytes) \<Rightarrow> 'n nd6 output_ip6_fn \<Rightarrow> ip6_addr \<Rightarrow> ip6_addr \<Rightarrow> u8 \<Rightarrow> alloc_state \<Rightarrow> 'n nd6 \<Rightarrow> (alloc_state \<times> 'n nd6) result" where
  "nd6_send_na uninit out cur_src target flags s n =
     (case nd6_message uninit (na_header_bytes flags target) (Some (ND6_OPTION_TYPE_TARGET_LLADDR, nd_netif n)) s of
        Inl e \<Rightarrow> Inl e
      | Inr ([], s1) \<Rightarrow> Inr (s1, n)
      | Inr (c, s1) \<Rightarrow>
          map_sum id snd
            (nd6_xmit out c (Some target)
               (if flags AND ND6_SEND_FLAG_MULTICAST_DEST \<noteq> 0 then ip6_addr_solicitednode target
                else if flags AND ND6_SEND_FLAG_ALLNODES_DEST \<noteq> 0 then ip6_addr_allnodes_linklocal
                else cur_src) s1 n))"

definition nd6_send_rs ::
  "(nat \<Rightarrow> bytes) \<Rightarrow> 'n nd6 output_ip6_fn \<Rightarrow> alloc_state \<Rightarrow> 'n nd6 \<Rightarrow> (err_t \<times> alloc_state \<times> 'n nd6) result" where
  "nd6_send_rs uninit out s n =
     (case ip6_addrs (nd_netif n) of
        [] \<Rightarrow> Inl OutOfBounds
      | (a, st) # _ \<Rightarrow>
          (let src = (if ip6_addr_isvalid st then Some a else None) in
           case nd6_message uninit rs_header_bytes
                  (if src = None then None else Some (ND6_OPTION_TYPE_SOURCE_LLADDR, nd_netif n)) s of
             Inl e \<Rightarrow> Inl e
           | Inr ([], s1) \<Rightarrow> Inr (ERR_BUF, s1, n)
           | Inr (c, s1) \<Rightarrow> nd6_xmit out c src ip6_addr_allrouters_linklocal s1 n))"

definition nd6_send_neighbor_cache_probe ::
  "(nat \<Rightarrow> bytes) \<Rightarrow> 'n nd6 output_ip6_fn \<Rightarrow> nat \<Rightarrow> u8 \<Rightarrow> alloc_state \<Rightarrow> 'n nd6 \<Rightarrow> (alloc_state \<times> 'n nd6) result" where
  "nd6_send_neighbor_cache_probe uninit out i flags s n =
     (let e = neighbor_cache n ! i in
      if \<not> nbr_netif e then Inl NullDeref else nd6_send_ns uninit out (next_hop_address e) flags s n)"

subsection \<open>Queued packets\<close>

definition PBUF_NEEDS_COPY :: "pbuf \<Rightarrow> bool" where
  "PBUF_NEEDS_COPY p \<longleftrightarrow> type_internal p AND 0x40 \<noteq> 0"

fun nd6_free_q :: "nd6_q_entry list \<Rightarrow> alloc_state \<Rightarrow> 'n nd6 \<Rightarrow> (alloc_state \<times> 'n nd6) result" where
  "nd6_free_q [] s n = Inr (s, n)"
| "nd6_free_q (r # q) s n =
     (case nd_pbuf_free (nd_pkts n (q_p r)) s n of
        Inl e \<Rightarrow> Inl e
      | Inr (s1, n1) \<Rightarrow>
          (case memp_free MEMP_ND6_QUEUE (q_ptr r) (al_memp s1) of
             Inl e \<Rightarrow> Inl e
           | Inr m \<Rightarrow> nd6_free_q q (s1\<lparr>al_memp := m\<rparr>) (n1\<lparr>nd6_queue_size := nd6_queue_size n1 - 1\<rparr>)))"

text \<open>The copy of a packet; while there is no memory, the oldest packet of the queue is given up.\<close>

fun nd6_clone_loop ::
  "(nat \<Rightarrow> bytes) \<Rightarrow> chain \<Rightarrow> nd6_q_entry list \<Rightarrow> alloc_state \<Rightarrow> 'n nd6 \<Rightarrow> (chain \<times> nd6_q_entry list \<times> alloc_state \<times> 'n nd6) result" where
  "nd6_clone_loop uninit c [] s n = map_sum id (\<lambda>(p, s1). (p, [], s1, n)) (pbuf_clone uninit PBUF_LINK PBUF_RAM c s)"
| "nd6_clone_loop uninit c (r # qs) s n =
     (case pbuf_clone uninit PBUF_LINK PBUF_RAM c s of
        Inl e \<Rightarrow> Inl e
      | Inr (p, s1) \<Rightarrow>
          if p \<noteq> [] then Inr (p, r # qs, s1, n)
          else
            (case nd6_free_q [r] s1 n of
               Inl e \<Rightarrow> Inl e
             | Inr (s2, n2) \<Rightarrow> nd6_clone_loop uninit c qs s2 n2))"

definition nd6_q_malloc :: "alloc_state \<Rightarrow> 'n nd6 \<Rightarrow> (nat option \<times> alloc_state \<times> 'n nd6) result" where
  "nd6_q_malloc s n =
     map_sum id (\<lambda>(a, m). (a, s\<lparr>al_memp := m\<rparr>, n\<lparr>nd6_queue_size := nd6_queue_size n + 1\<rparr>)) (memp_malloc MEMP_ND6_QUEUE (al_memp s))"

text \<open>An element for a new entry of the queue of neighbour \<open>i\<close>, if need be the one of the oldest packet.\<close>

definition nd6_q_alloc :: "nat \<Rightarrow> alloc_state \<Rightarrow> 'n nd6 \<Rightarrow> (nat option \<times> alloc_state \<times> 'n nd6) result" where
  "nd6_q_alloc i s n =
     (case (if nd6_queue_size n < MEMP_NUM_ND6_QUEUE then nd6_q_malloc s n else Inr (None, s, n)) of
        Inl e \<Rightarrow> Inl e
      | Inr (Some a, s1, n1) \<Rightarrow> Inr (Some a, s1, n1)
      | Inr (None, s1, n1) \<Rightarrow>
          (case nbr_q (neighbor_cache n1 ! i) of
             [] \<Rightarrow> Inr (None, s1, n1)
           | r # qs \<Rightarrow>
               (case nd6_free_q [r] s1 (upd_nbr i (\<lambda>e. e\<lparr>nbr_q := qs\<rparr>) n1) of
                  Inl e \<Rightarrow> Inl e
                | Inr (s2, n2) \<Rightarrow> nd6_q_malloc s2 n2)))"

definition nd6_queue_packet ::
  "(nat \<Rightarrow> bytes) \<Rightarrow> nat \<Rightarrow> pbuf_ptr \<Rightarrow> alloc_state \<Rightarrow> 'n nd6 \<Rightarrow> (err_t \<times> alloc_state \<times> 'n nd6) result" where
  "nd6_queue_packet uninit i q s n =
     (if i \<ge> LWIP_ND6_NUM_NEIGHBORS then Inr (ERR_ARG, s, n)
      else
        (case (if list_ex PBUF_NEEDS_COPY (nd_pkts n q)
               then map_sum id (\<lambda>(p, qs, s1, n1). (p, s1, upd_nbr i (\<lambda>e. e\<lparr>nbr_q := qs\<rparr>) n1))
                      (nd6_clone_loop uninit (nd_pkts n q) (nbr_q (neighbor_cache n ! i)) s n)
               else map_sum id (\<lambda>p. (p, s, n)) (pbuf_ref (nd_pkts n q))) of
           Inl e \<Rightarrow> Inl e
         | Inr ([], s1, n1) \<Rightarrow> Inr (ERR_MEM, s1, n1)
         | Inr (p # ps, s1, n1) \<Rightarrow>
             (case nd6_q_alloc i s1 (put_pkt (p # ps) n1) of
                Inl e \<Rightarrow> Inl e
              | Inr (Some a, s2, n2) \<Rightarrow>
                  Inr (ERR_OK, s2, upd_nbr i (\<lambda>e. e\<lparr>nbr_q := nbr_q e @ [\<lparr>q_ptr = a, q_p = pbuf_ptr p\<rparr>]\<rparr>) n2)
              | Inr (None, s2, n2) \<Rightarrow> map_sum id (Pair ERR_MEM) (nd_pbuf_free (nd_pkts n2 (pbuf_ptr p)) s2 n2))))"

text \<open>
  \<open>nd6_send_q\<close>. The output may queue packets again, so that nothing bounds the loop: \<open>fuel\<close> is the number of
  turns it is watched for.
\<close>

fun nd6_send_q :: "'n nd6 output_ip6_fn \<Rightarrow> nat \<Rightarrow> nat \<Rightarrow> alloc_state \<Rightarrow> 'n nd6 \<Rightarrow> (alloc_state \<times> 'n nd6) result" where
  "nd6_send_q out 0 i s n = Inl Hang"
| "nd6_send_q out (Suc fuel) i s n =
     (if i \<ge> LWIP_ND6_NUM_NEIGHBORS then Inr (s, n)
      else
        (case nbr_q (neighbor_cache n ! i) of
           [] \<Rightarrow> Inr (s, n)
         | q # qs \<Rightarrow>
             (case nd_pkts n (q_p q) of
                [] \<Rightarrow> Inl NullDeref
              | b # bs \<Rightarrow>
                  (case mem_read (pbuf_mem b) (payload b) IP6_HLEN of
                     Inl e \<Rightarrow> Inl e
                   | Inr h \<Rightarrow>
                       if \<not> nbr_netif (neighbor_cache n ! i) then Inl NullDeref
                       else
                         (case out (nd_netif n) (b # bs) (hdr_dest (ip6_hdr_of_bytes h)) s (upd_nbr i (\<lambda>e. e\<lparr>nbr_q := qs\<rparr>) n) of
                            Inl e \<Rightarrow> Inl e
                          | Inr (err, c, s1, n1) \<Rightarrow>
                              (case nd_pbuf_free c s1 n1 of
                                 Inl e \<Rightarrow> Inl e
                               | Inr (s2, n2) \<Rightarrow>
                                   (case memp_free MEMP_ND6_QUEUE (q_ptr q) (al_memp s2) of
                                      Inl e \<Rightarrow> Inl e
                                    | Inr m \<Rightarrow>
                                        nd6_send_q out fuel i (s2\<lparr>al_memp := m\<rparr>) (n2\<lparr>nd6_queue_size := nd6_queue_size n2 - 1\<rparr>))))))))"

subsection \<open>The neighbour cache\<close>

definition nd6_find_neighbor_cache_entry :: "ip6_addr \<Rightarrow> 'n nd6 \<Rightarrow> nat option" where
  "nd6_find_neighbor_cache_entry a n = find_idx (\<lambda>e. a = next_hop_address e) (neighbor_cache n)"

definition nd6_free_neighbor_cache_entry :: "nat \<Rightarrow> alloc_state \<Rightarrow> 'n nd6 \<Rightarrow> (alloc_state \<times> 'n nd6) result" where
  "nd6_free_neighbor_cache_entry i s n =
     (if i \<ge> LWIP_ND6_NUM_NEIGHBORS \<or> isrouter (neighbor_cache n ! i) then Inr (s, n)
      else
        map_sum id
          (\<lambda>(s1, n1). (s1, upd_nbr i (\<lambda>e. e\<lparr>nbr_q := [], nbr_state := ND6_NO_ENTRY, isrouter := False, nbr_netif := False,
                             counter := 0, next_hop_address := IP6_ADDR_ANY\<rparr>) n1))
          (nd6_free_q (nbr_q (neighbor_cache n ! i)) s n))"

text \<open>The loops for the oldest entry: \<open>time\<close> and \<open>j\<close> are the variables of the code.\<close>

fun oldest_entry ::
  "(u32 \<Rightarrow> u32 \<Rightarrow> bool) \<Rightarrow> (nd6_neighbor_cache_entry \<Rightarrow> bool) \<Rightarrow> nat \<Rightarrow> nd6_neighbor_cache_entry list \<Rightarrow> u32 \<Rightarrow> nat option \<Rightarrow> nat option" where
  "oldest_entry cmp P i [] time j = j"
| "oldest_entry cmp P i (e # es) time j =
     (if P e \<and> cmp (counter e) time then oldest_entry cmp P (Suc i) es (counter e) (Some i)
      else oldest_entry cmp P (Suc i) es time j)"

text \<open>The entry that \<open>nd6_new_neighbor_cache_entry\<close> gives up when none is empty.\<close>

definition recycled_entry :: "nd6_neighbor_cache_entry list \<Rightarrow> nat option" where
  "recycled_entry nc =
     (let stale = find_idx (\<lambda>e. nbr_state e = ND6_STALE \<and> \<not> isrouter e) nc;
          probe = find_idx (\<lambda>e. nbr_state e = ND6_PROBE \<and> \<not> isrouter e) nc;
          delay = find_idx (\<lambda>e. nbr_state e = ND6_DELAY \<and> \<not> isrouter e) nc;
          reachable = oldest_entry (\<lambda>c t. c < t) (\<lambda>e. nbr_state e = ND6_REACHABLE \<and> \<not> isrouter e) 0 nc 0xffffffff None;
          incomplete = oldest_entry (\<lambda>c t. c \<ge> t) (\<lambda>e. nbr_q e = [] \<and> nbr_state e = ND6_INCOMPLETE \<and> \<not> isrouter e) 0 nc 0 None;
          waiting = oldest_entry (\<lambda>c t. c \<ge> t) (\<lambda>e. nbr_state e = ND6_INCOMPLETE \<and> \<not> isrouter e) 0 nc 0 None
      in if stale \<noteq> None then stale
         else if probe \<noteq> None then probe
         else if delay \<noteq> None then delay
         else if reachable \<noteq> None then reachable
         else if incomplete \<noteq> None then incomplete
         else waiting)"

definition nd6_new_neighbor_cache_entry :: "alloc_state \<Rightarrow> 'n nd6 \<Rightarrow> (nat option \<times> alloc_state \<times> 'n nd6) result" where
  "nd6_new_neighbor_cache_entry s n =
     (case find_idx (\<lambda>e. nbr_state e = ND6_NO_ENTRY) (neighbor_cache n) of
        Some i \<Rightarrow> Inr (Some i, s, n)
      | None \<Rightarrow>
          (case recycled_entry (neighbor_cache n) of
             None \<Rightarrow> Inr (None, s, n)
           | Some i \<Rightarrow> map_sum id (Pair (Some i)) (nd6_free_neighbor_cache_entry i s n)))"

subsection \<open>Destinations, prefixes and routers\<close>

definition nd6_find_destination_cache_entry :: "ip6_addr \<Rightarrow> 'n nd6 \<Rightarrow> nat option" where
  "nd6_find_destination_cache_entry a n = find_idx (\<lambda>d. a = destination_addr d) (destination_cache n)"

text \<open>The search for the oldest destination compares with \<open>age = 0\<close> throughout.\<close>

definition nd6_new_destination_cache_entry :: "'n nd6 \<Rightarrow> nat" where
  "nd6_new_destination_cache_entry n =
     (case find_idx (\<lambda>d. destination_addr d = IP6_ADDR_ANY) (destination_cache n) of
        Some i \<Rightarrow> i
      | None \<Rightarrow>
          (let oldest = 0
           in fold (\<lambda>i j. if age (destination_cache n ! i) > oldest then i else j) [0..<LWIP_ND6_NUM_DESTINATIONS]
                (LWIP_ND6_NUM_DESTINATIONS - 1)))"

definition nd6_clear_destination_cache :: "'n nd6 \<Rightarrow> 'n nd6" where
  "nd6_clear_destination_cache n = n\<lparr>destination_cache := map (\<lambda>d. d\<lparr>destination_addr := IP6_ADDR_ANY\<rparr>) (destination_cache n)\<rparr>"

text \<open>Every address is static (\<open>LWIP_IPV6_ADDRESS_LIFETIMES\<close> is 0).\<close>

definition nd6_is_prefix_in_netif :: "ip6_addr \<Rightarrow> 'n nd6 \<Rightarrow> bool" where
  "nd6_is_prefix_in_netif a n \<longleftrightarrow>
     list_ex (\<lambda>p. prefix_netif p \<and> prefix_timer p > 0 \<and> ip6_addr_net_eq a (prefix_addr p)) (prefix_list n)
     \<or> list_ex (\<lambda>(b, st). ip6_addr_isvalid st \<and> ip6_addr_net_eq a b) (ip6_addrs (nd_netif n))"

text \<open>\<open>given\<close> is whether the argument \<open>netif\<close> is the interface (or NULL).\<close>

definition router_suits :: "bool \<Rightarrow> 'n nd6 \<Rightarrow> (nd6_neighbor_cache_entry_state \<Rightarrow> bool) \<Rightarrow> nd6_router_list_entry \<Rightarrow> bool" where
  "router_suits given n P r \<longleftrightarrow>
     (case neighbor_entry r of
        None \<Rightarrow> False
      | Some k \<Rightarrow>
          nbr_netif (neighbor_cache n ! k) \<and> (given \<or> netif_is_up (nd_netif n) \<and> netif_is_link_up (nd_netif n))
          \<and> P (nbr_state (neighbor_cache n ! k)))"

definition nd6_select_router :: "bool \<Rightarrow> 'n nd6 \<Rightarrow> nat option \<times> 'n nd6" where
  "nd6_select_router given n =
     (case find_idx (router_suits given n (\<lambda>st. st = ND6_REACHABLE)) (default_router_list n) of
        Some i \<Rightarrow> (Some i, n)
      | None \<Rightarrow>
          (case find_idx (router_suits given n (\<lambda>st. st \<noteq> ND6_INCOMPLETE)) (default_router_list n) of
             Some i \<Rightarrow> (Some i, n)
           | None \<Rightarrow>
               (let lr = (if given then last_router n
                          else if last_router n + 1 \<ge> LWIP_ND6_NUM_ROUTERS then 0 else last_router n + 1)
                in (find (\<lambda>i. router_suits given n (\<lambda>st. True) (default_router_list n ! i))
                      (map (\<lambda>j. (lr + j) mod LWIP_ND6_NUM_ROUTERS) [0..<LWIP_ND6_NUM_ROUTERS]),
                    n\<lparr>last_router := lr\<rparr>))))"

text \<open>\<open>nd6_find_route\<close>: whether there is a route over the interface.\<close>

definition nd6_find_route :: "ip6_addr \<Rightarrow> 'n nd6 \<Rightarrow> bool \<times> 'n nd6" where
  "nd6_find_route a n =
     (if list_ex (\<lambda>p. prefix_netif p \<and> ip6_addr_net_eq (prefix_addr p) a
                    \<and> netif_is_up (nd_netif n) \<and> netif_is_link_up (nd_netif n)) (prefix_list n)
      then (True, n)
      else apfst (\<lambda>i. i \<noteq> None) (nd6_select_router False n))"

definition nd6_get_router :: "ip6_addr \<Rightarrow> 'n nd6 \<Rightarrow> nat option" where
  "nd6_get_router a n =
     find_idx (\<lambda>r. case neighbor_entry r of
                     None \<Rightarrow> False
                   | Some k \<Rightarrow> nbr_netif (neighbor_cache n ! k) \<and> a = next_hop_address (neighbor_cache n ! k))
       (default_router_list n)"

text \<open>A new entry of the neighbour cache, whose resolution starts.\<close>

definition nd6_incomplete ::
  "(nat \<Rightarrow> bytes) \<Rightarrow> 'n nd6 output_ip6_fn \<Rightarrow> nat \<Rightarrow> (nd6_neighbor_cache_entry \<Rightarrow> nd6_neighbor_cache_entry) \<Rightarrow> ip6_addr \<Rightarrow>
   alloc_state \<Rightarrow> 'n nd6 \<Rightarrow> (alloc_state \<times> 'n nd6) result" where
  "nd6_incomplete uninit out i f a s n =
     nd6_send_neighbor_cache_probe uninit out i ND6_SEND_FLAG_MULTICAST_DEST s
       (upd_nbr i (\<lambda>e. (f e)\<lparr>next_hop_address := a, nbr_netif := True, nbr_state := ND6_INCOMPLETE, counter := 1\<rparr>) n)"

definition nd6_new_router ::
  "(nat \<Rightarrow> bytes) \<Rightarrow> 'n nd6 output_ip6_fn \<Rightarrow> ip6_addr \<Rightarrow> alloc_state \<Rightarrow> 'n nd6 \<Rightarrow> (nat option \<times> alloc_state \<times> 'n nd6) result" where
  "nd6_new_router uninit out a s n =
     (case (case nd6_find_neighbor_cache_entry a n of
              Some k \<Rightarrow> Inr (Some k, s, n)
            | None \<Rightarrow>
                (case nd6_new_neighbor_cache_entry s n of
                   Inl e \<Rightarrow> Inl e
                 | Inr (None, s1, n1) \<Rightarrow> Inr (None, s1, n1)
                 | Inr (Some k, s1, n1) \<Rightarrow> map_sum id (Pair (Some k)) (nd6_incomplete uninit out k (\<lambda>e. e\<lparr>nbr_q := []\<rparr>) a s1 n1))) of
        Inl e \<Rightarrow> Inl e
      | Inr (None, s1, n1) \<Rightarrow> Inr (None, s1, n1)
      | Inr (Some k, s1, n1) \<Rightarrow>
          (let n2 = upd_nbr k (\<lambda>e. e\<lparr>isrouter := True\<rparr>) n1;
               rs = default_router_list n2
           in case find (\<lambda>i. neighbor_entry (rs ! i) = Some k) (rev [0..<LWIP_ND6_NUM_ROUTERS]) of
                Some i \<Rightarrow> Inr (Some i, s1, n2)
              | None \<Rightarrow>
                  (case find (\<lambda>i. neighbor_entry (rs ! i) = None) [0..<LWIP_ND6_NUM_ROUTERS] of
                     Some i \<Rightarrow> Inr (Some i, s1, upd_router i (\<lambda>r. r\<lparr>neighbor_entry := Some k\<rparr>) n2)
                   | None \<Rightarrow> Inr (None, s1, upd_nbr k (\<lambda>e. e\<lparr>isrouter := False\<rparr>) n2))))"

definition nd6_get_onlink_prefix :: "ip6_addr \<Rightarrow> 'n nd6 \<Rightarrow> nat option" where
  "nd6_get_onlink_prefix a n = find_idx (\<lambda>p. ip6_addr_net_eq (prefix_addr p) a \<and> prefix_netif p) (prefix_list n)"

definition nd6_new_onlink_prefix :: "ip6_addr \<Rightarrow> 'n nd6 \<Rightarrow> nat option \<times> 'n nd6" where
  "nd6_new_onlink_prefix a n =
     (case find_idx (\<lambda>p. \<not> prefix_netif p \<or> prefix_timer p = 0) (prefix_list n) of
        None \<Rightarrow> (None, n)
      | Some i \<Rightarrow> (Some i, n\<lparr>prefix_list := (prefix_list n)[i := (prefix_list n ! i)\<lparr>prefix_netif := True, prefix_addr := a\<rparr>]\<rparr>))"

subsection \<open>The next hop\<close>

text \<open>The first half of \<open>nd6_get_next_hop_entry\<close>: the entry of the destination cache, or the error.\<close>

definition nd6_destination :: "ip6_addr \<Rightarrow> 'n nd6 \<Rightarrow> ((err_t + nat) \<times> 'n nd6) result" where
  "nd6_destination a n =
     (if nd6_cached_destination_index n \<ge> LWIP_ND6_NUM_DESTINATIONS then Inl AssertFail
      else if a = destination_addr (destination_cache n ! nd6_cached_destination_index n)
      then Inr (Inr (nd6_cached_destination_index n), n)
      else
        (case nd6_find_destination_cache_entry a n of
           Some d \<Rightarrow> Inr (Inr d, n\<lparr>nd6_cached_destination_index := d\<rparr>)
         | None \<Rightarrow>
             (let d = nd6_new_destination_cache_entry n;
                  n1 = upd_dst d (\<lambda>x. x\<lparr>destination_addr := a\<rparr>) (n\<lparr>nd6_cached_destination_index := d\<rparr>)
              in if ip6_addr_islinklocal a \<or> nd6_is_prefix_in_netif a n1
                 then Inr (Inr d, upd_dst d (\<lambda>x. x\<lparr>pmtu := netif_mtu6 n1, next_hop_addr := a\<rparr>) n1)
                 else
                   (case nd6_select_router True n1 of
                      (None, n2) \<Rightarrow> Inr (Inl ERR_RTE, upd_dst d (\<lambda>x. x\<lparr>destination_addr := IP6_ADDR_ANY\<rparr>) n2)
                    | (Some r, n2) \<Rightarrow>
                        (case neighbor_entry (default_router_list n2 ! r) of
                           None \<Rightarrow> Inl NullDeref
                         | Some k \<Rightarrow>
                             Inr (Inr d, upd_dst d (\<lambda>x. x\<lparr>pmtu := netif_mtu6 n2,
                                           next_hop_addr := next_hop_address (neighbor_cache n2 ! k)\<rparr>) n2))))))"

definition nd6_get_next_hop_entry ::
  "(nat \<Rightarrow> bytes) \<Rightarrow> 'n nd6 output_ip6_fn \<Rightarrow> ip6_addr \<Rightarrow> alloc_state \<Rightarrow> 'n nd6 \<Rightarrow> ((err_t + nat) \<times> alloc_state \<times> 'n nd6) result" where
  "nd6_get_next_hop_entry uninit out a s n =
     (case nd6_destination a n of
        Inl e \<Rightarrow> Inl e
      | Inr (Inl err, n1) \<Rightarrow> Inr (Inl err, s, n1)
      | Inr (Inr d, n1) \<Rightarrow>
          (let x = destination_cache n1 ! d;
               done = (\<lambda>s n. Inr (Inr (unat (cached_neighbor_idx (destination_cache n ! d))), s, upd_dst d (\<lambda>x. x\<lparr>age := 0\<rparr>) n))
           in case mem_get (neighbor_cache n1) (unat (cached_neighbor_idx x)) of
                Inl e \<Rightarrow> Inl e
              | Inr nb \<Rightarrow>
                  if next_hop_addr x = next_hop_address nb then done s n1
                  else
                    (case nd6_find_neighbor_cache_entry (next_hop_addr x) n1 of
                       Some i \<Rightarrow> done s (upd_dst d (\<lambda>x. x\<lparr>cached_neighbor_idx := of_nat i\<rparr>) n1)
                     | None \<Rightarrow>
                         (case nd6_new_neighbor_cache_entry s n1 of
                            Inl e \<Rightarrow> Inl e
                          | Inr (None, s2, n2) \<Rightarrow> Inr (Inl ERR_MEM, s2, n2)
                          | Inr (Some i, s2, n2) \<Rightarrow>
                              (case nd6_incomplete uninit out i (\<lambda>e. e\<lparr>isrouter := False\<rparr>) (next_hop_addr x) s2
                                      (upd_dst d (\<lambda>x. x\<lparr>cached_neighbor_idx := of_nat i\<rparr>) n2) of
                                 Inl e \<Rightarrow> Inl e
                               | Inr (s3, n3) \<Rightarrow> done s3 n3)))))"

definition nd6_delay :: "nd6_neighbor_cache_entry \<Rightarrow> nd6_neighbor_cache_entry" where
  "nd6_delay e = e\<lparr>nbr_state := ND6_DELAY, counter := LWIP_ND6_DELAY_FIRST_PROBE_TIME div ND6_TMR_INTERVAL\<rparr>"

definition nd6_get_next_hop_addr_or_queue ::
  "(nat \<Rightarrow> bytes) \<Rightarrow> 'n nd6 output_ip6_fn \<Rightarrow> pbuf_ptr \<Rightarrow> ip6_addr \<Rightarrow> alloc_state \<Rightarrow> 'n nd6 \<Rightarrow>
   (err_t \<times> bytes option \<times> alloc_state \<times> 'n nd6) result" where
  "nd6_get_next_hop_addr_or_queue uninit out q a s n =
     (case nd6_get_next_hop_entry uninit out a s n of
        Inl e \<Rightarrow> Inl e
      | Inr (Inl err, s1, n1) \<Rightarrow> Inr (err, None, s1, n1)
      | Inr (Inr i, s1, n1) \<Rightarrow>
          (let n2 = (if nbr_state (neighbor_cache n1 ! i) = ND6_STALE then upd_nbr i nd6_delay n1 else n1);
               e = neighbor_cache n2 ! i
           in if nbr_state e \<in> {ND6_REACHABLE, ND6_DELAY, ND6_PROBE} then Inr (ERR_OK, Some (lladdr e), s1, n2)
              else map_sum id (\<lambda>(err, s3, n3). (err, None, s3, n3)) (nd6_queue_packet uninit i q s1 n2)))"

definition nd6_get_destination_mtu :: "ip6_addr \<Rightarrow> bool \<Rightarrow> 'n nd6 \<Rightarrow> u16" where
  "nd6_get_destination_mtu a given n =
     (let default_mtu = (if given then netif_mtu6 n else IP6_MIN_MTU_LENGTH) in
      case nd6_find_destination_cache_entry a n of
        None \<Rightarrow> default_mtu
      | Some d \<Rightarrow> if pmtu (destination_cache n ! d) > 0 then pmtu (destination_cache n ! d) else default_mtu)"

definition nd6_reachability_hint :: "ip6_addr \<Rightarrow> 'n nd6 \<Rightarrow> 'n nd6 result" where
  "nd6_reachability_hint a n =
     (case mem_get (destination_cache n) (nd6_cached_destination_index n) of
        Inl e \<Rightarrow> Inl e
      | Inr x \<Rightarrow>
          (case (if a = destination_addr x then Some (nd6_cached_destination_index n) else nd6_find_destination_cache_entry a n) of
             None \<Rightarrow> Inr n
           | Some d \<Rightarrow>
               (let dest = destination_cache n ! d in
                case mem_get (neighbor_cache n) (unat (cached_neighbor_idx dest)) of
                  Inl e \<Rightarrow> Inl e
                | Inr nb \<Rightarrow>
                    (case (if next_hop_addr dest = next_hop_address nb then Some (unat (cached_neighbor_idx dest))
                           else nd6_find_neighbor_cache_entry (next_hop_addr dest) n) of
                       None \<Rightarrow> Inr n
                     | Some i \<Rightarrow>
                         if nbr_state (neighbor_cache n ! i) \<in> {ND6_INCOMPLETE, ND6_NO_ENTRY} then Inr n
                         else Inr (upd_nbr i (\<lambda>e. e\<lparr>nbr_state := ND6_REACHABLE, counter := reachable_time n\<rparr>) n)))))"

subsection \<open>The interface\<close>

definition nd6_forget_router :: "nat \<Rightarrow> 'n nd6 \<Rightarrow> 'n nd6" where
  "nd6_forget_router i n =
     n\<lparr>default_router_list :=
         map (\<lambda>r. if neighbor_entry r = Some i then r\<lparr>neighbor_entry := None, router_flags := 0\<rparr> else r) (default_router_list n)\<rparr>"

definition nd6_cleanup_netif :: "alloc_state \<Rightarrow> 'n nd6 \<Rightarrow> (alloc_state \<times> 'n nd6) result" where
  "nd6_cleanup_netif s n =
     map_sum id (\<lambda>(s1, n1). (s1, nd6_clear_destination_cache n1))
       (iterate
          (\<lambda>i (s, n). if nbr_netif (neighbor_cache n ! i)
                      then nd6_free_neighbor_cache_entry i s (upd_nbr i (\<lambda>e. e\<lparr>isrouter := False\<rparr>) (nd6_forget_router i n))
                      else Inr (s, n))
          [0..<LWIP_ND6_NUM_NEIGHBORS] (s, n\<lparr>prefix_list := map (\<lambda>p. p\<lparr>prefix_netif := False\<rparr>) (prefix_list n)\<rparr>))"

definition nd6_restart_netif :: "'n nd6 \<Rightarrow> 'n nd6" where
  "nd6_restart_netif n = n\<lparr>rs_count := of_nat LWIP_ND6_MAX_MULTICAST_SOLICIT\<rparr>"

subsection \<open>Output over Ethernet\<close>

text \<open>
  \<open>nd6_get_next_hop_addr_or_queue\<close> as \<open>ethip6_output\<close> calls it, with a pointer to the packet, and the driver on the
  state of nd6.c. The solicitations the next hop may need go to a group, for which \<open>ethip6_output\<close> does not
  ask for a next hop: \<open>nd6_output_group\<close> is enough for them.
\<close>

definition nd6_next_hop :: "(nat \<Rightarrow> bytes) \<Rightarrow> 'n nd6 output_ip6_fn \<Rightarrow> 'n nd6 next_hop_fn" where
  "nd6_next_hop uninit out netif q a s n =
     (case q of
        [] \<Rightarrow> Inl NullDeref
      | b # bs \<Rightarrow>
          map_sum id (\<lambda>(err, hw, s1, n1). (err, hw, nd_pkts n1 (pbuf_ptr b), s1, n1))
            (nd6_get_next_hop_addr_or_queue uninit out (pbuf_ptr b) a s (put_pkt q n)))"

definition nd_linkoutput :: "'n linkoutput_fn \<Rightarrow> 'n nd6 linkoutput_fn" where
  "nd_linkoutput linkoutput netif p s n =
     map_sum id (\<lambda>(err, p', s', l). (err, p', s', n\<lparr>nd_link := l\<rparr>)) (linkoutput netif p s (nd_link n))"

definition nd6_output_group :: "'n linkoutput_fn \<Rightarrow> 'n nd6 output_ip6_fn" where
  "nd6_output_group linkoutput = ethip6_output (nd_linkoutput linkoutput) (\<lambda>_ _ _ _ _. Inl Hang)"

definition nd6_output_ip6 :: "(nat \<Rightarrow> bytes) \<Rightarrow> 'n linkoutput_fn \<Rightarrow> 'n nd6 output_ip6_fn" where
  "nd6_output_ip6 uninit linkoutput =
     ethip6_output (nd_linkoutput linkoutput) (nd6_next_hop uninit (nd6_output_group linkoutput))"

end
