(* ===== verification/Nd6_Input.thy ===== *)
theory Nd6_Input
  imports Nd6
begin

text \<open>
  The messages and the timer of neighbour discovery (\<open>nd6_input\<close> and \<open>nd6_tmr\<close> of lwip/src/core/ipv6/nd6.c), with
  duplicate address detection and the change of an address's state it makes (\<open>netif_ip6_addr_set_state\<close> of
  lwip/src/core/netif.c). The statistics are not compiled in, so a dropped message only frees its packet. \<open>fuel\<close> is that
  of \<open>nd6_send_q\<close>.
\<close>

section \<open>Definitions\<close>

definition IP6_ADDR_DUPLICATED :: u8 where "IP6_ADDR_DUPLICATED = 0x40"
definition IP6_ADDR_TENTATIVE_COUNT_MASK :: u8 where "IP6_ADDR_TENTATIVE_COUNT_MASK = 0x07"
definition LWIP_IPV6_DUP_DETECT_ATTEMPTS :: u8 where "LWIP_IPV6_DUP_DETECT_ATTEMPTS = 1"
definition ND6_RTR_SOLICITATION_INTERVAL :: u32 where "ND6_RTR_SOLICITATION_INTERVAL = 4000"
definition ND6_OPTION_TYPE_PREFIX_INFO :: u8 where "ND6_OPTION_TYPE_PREFIX_INFO = 3"
definition ND6_OPTION_TYPE_MTU :: u8 where "ND6_OPTION_TYPE_MTU = 5"
definition ND6_OPTION_TYPE_RDNSS :: u8 where "ND6_OPTION_TYPE_RDNSS = 25"
definition ND6_PREFIX_FLAG_ON_LINK :: u8 where "ND6_PREFIX_FLAG_ON_LINK = 0x80"

definition ip6_addr_istentative :: "u8 \<Rightarrow> bool" where
  "ip6_addr_istentative st \<longleftrightarrow> st AND IP6_ADDR_TENTATIVE \<noteq> 0"

text \<open>A function on the memory and the state of nd6.c, in the state of the stack.\<close>

definition on_nd ::
  "(alloc_state \<Rightarrow> 'n \<Rightarrow> (alloc_state \<times> 'n) result) \<Rightarrow> ('cb, 'n) ip6_state \<Rightarrow> ('cb, 'n) ip6_state result" where
  "on_nd f st = map_sum id (\<lambda>(s, n). st\<lparr>is_alloc := s, is_net := n\<rparr>) (f (is_alloc st) (is_net st))"

definition nd_addrs :: "('cb, 'n nd6) ip6_state \<Rightarrow> (ip6_addr \<times> u8) list" where
  "nd_addrs st = ip6_addrs (nd_netif (is_net st))"

subsection \<open>The state of an address\<close>

definition solicited_member :: "u8 \<Rightarrow> bool" where
  "solicited_member st \<longleftrightarrow> st \<noteq> IP6_ADDR_INVALID \<and> st \<noteq> IP6_ADDR_DUPLICATED \<and> st \<noteq> IP6_ADDR_TENTATIVE"

definition nd6_adjust_mld_membership ::
  "(nat \<Rightarrow> bytes) \<Rightarrow> 'n nd6 output_ip6_fn \<Rightarrow> 'n nd6 rand_fn \<Rightarrow> nat \<Rightarrow> u8 \<Rightarrow> ('cb, 'n nd6) ip6_state \<Rightarrow> ('cb, 'n nd6) ip6_state result" where
  "nd6_adjust_mld_membership uninit out rand i new_state st =
     (let (a, old_state) = nd_addrs st ! i;
          netif = nd_netif (is_net st);
          group = ip6_addr_solicitednode a
      in if solicited_member old_state = solicited_member new_state then Inr st
         else
           map_sum id (\<lambda>(err, gs, s, n). st\<lparr>is_mld := gs, is_alloc := s, is_net := n\<rparr>)
             (if solicited_member new_state
              then mld6_joingroup_netif uninit out rand netif group (is_mld st) (is_alloc st) (is_net st)
              else mld6_leavegroup_netif uninit out netif group (is_mld st) (is_alloc st) (is_net st)))"

definition netif_issue_reports :: "'n nd6 rand_fn \<Rightarrow> ('cb, 'n nd6) ip6_state \<Rightarrow> ('cb, 'n nd6) ip6_state" where
  "netif_issue_reports rand st =
     (if \<not> netif_is_link_up (nd_netif (is_net st)) \<or> \<not> netif_is_up (nd_netif (is_net st)) then st
      else (let (gs, n) = mld6_report_groups rand (is_mld st) (is_net st) in st\<lparr>is_mld := gs, is_net := n\<rparr>))"

definition put_addr_state :: "nat \<Rightarrow> u8 \<Rightarrow> 'n nd6 \<Rightarrow> 'n nd6" where
  "put_addr_state i new_state n =
     (let netif = nd_netif n in
      n\<lparr>nd_netif := netif\<lparr>ip6_addrs := (ip6_addrs netif)[i := (fst (ip6_addrs netif ! i), new_state)]\<rparr>\<rparr>)"

text \<open>
  The flag \<open>NETIF_FLAG_MLD6\<close> is always set (hdkif.c); no status callback is compiled in, and of the protocols that are told about a
  removed address only UDP is.
\<close>

definition netif_ip6_addr_set_state ::
  "(nat \<Rightarrow> bytes) \<Rightarrow> 'n nd6 output_ip6_fn \<Rightarrow> 'n nd6 rand_fn \<Rightarrow> nat \<Rightarrow> u8 \<Rightarrow> ('cb, 'n nd6) ip6_state \<Rightarrow> ('cb, 'n nd6) ip6_state result" where
  "netif_ip6_addr_set_state uninit out rand i new_state st =
     (if i \<ge> LWIP_IPV6_NUM_ADDRESSES then Inl AssertFail
      else
        (let (a, old_state) = nd_addrs st ! i in
         if old_state = new_state then Inr st
         else
           (case nd6_adjust_mld_membership uninit out rand i new_state st of
              Inl e \<Rightarrow> Inl e
            | Inr st1 \<Rightarrow>
                (let st2 = (if ip6_addr_isvalid old_state \<and> \<not> ip6_addr_isvalid new_state
                            then st1\<lparr>is_udp := udp_netif_ip_addr_changed (Some a) None (is_udp st1)\<rparr> else st1);
                     st3 = st2\<lparr>is_net := put_addr_state i new_state (is_net st2)\<rparr>
                 in Inr (if \<not> ip6_addr_isvalid old_state \<and> ip6_addr_isvalid new_state then netif_issue_reports rand st3 else st3)))))"

definition nd6_duplicate_addr_detected ::
  "(nat \<Rightarrow> bytes) \<Rightarrow> 'n nd6 output_ip6_fn \<Rightarrow> 'n nd6 rand_fn \<Rightarrow> nat \<Rightarrow> ('cb, 'n nd6) ip6_state \<Rightarrow> ('cb, 'n nd6) ip6_state result" where
  "nd6_duplicate_addr_detected uninit out rand i st = netif_ip6_addr_set_state uninit out rand i IP6_ADDR_DUPLICATED st"

subsection \<open>Neighbour advertisements\<close>

text \<open>The hop limit of the packet being received, whose first pbuf is \<open>b\<close>.\<close>

definition current_hoplim :: "pbuf \<Rightarrow> ('cb, 'n) ip6_state \<Rightarrow> u8 result" where
  "current_hoplim b st =
     (case current_ip6_header (is_ip st) of None \<Rightarrow> Inl NullDeref | Some h \<Rightarrow> mem_get (pbuf_mem b) (h + 7))"

text \<open>
  The link-layer address option after a header of \<open>k\<close> bytes: whether it fits in the pbuf, and its address. An option
  of length 0 fits.
\<close>

definition lladdr_opt_fits :: "pbuf \<Rightarrow> nat \<Rightarrow> bool result" where
  "lladdr_opt_fits b k =
     (if unat (p_len b) < k + 2 then Inr False
      else map_sum id (\<lambda>l. \<not> unat (p_len b) < k + 8 * unat l) (mem_get (pbuf_mem b) (payload b + k + 1)))"

definition lladdr_opt_addr :: "pbuf \<Rightarrow> nat \<Rightarrow> 'n nd6 \<Rightarrow> bytes result" where
  "lladdr_opt_addr b k n = mem_read (pbuf_mem b) (payload b + k + 2) (length (hwaddr (nd_netif n)))"

definition set_lladdr :: "bytes \<Rightarrow> nd6_neighbor_cache_entry \<Rightarrow> nd6_neighbor_cache_entry" where
  "set_lladdr hw e = e\<lparr>lladdr := put_bytes (lladdr e) 0 hw\<rparr>"

definition nd6_unsolicited_na ::
  "(nat \<Rightarrow> bytes) \<Rightarrow> 'n nd6 output_ip6_fn \<Rightarrow> 'n nd6 rand_fn \<Rightarrow> pbuf \<Rightarrow> chain \<Rightarrow> u8 \<Rightarrow> ip6_addr \<Rightarrow>
   ('cb, 'n nd6) ip6_state \<Rightarrow> ('cb, 'n nd6) ip6_state result" where
  "nd6_unsolicited_na uninit out rand b bs flags target st =
     (case find_idx (\<lambda>(a, ast). ast \<noteq> IP6_ADDR_INVALID \<and> ast \<noteq> IP6_ADDR_DUPLICATED \<and> target = a) (nd_addrs st) of
        Some i \<Rightarrow>
          (case nd6_duplicate_addr_detected uninit out rand i st of Inl e \<Rightarrow> Inl e | Inr st1 \<Rightarrow> drop_packet (b # bs) st1)
      | None \<Rightarrow>
          (case lladdr_opt_fits b 24 of
             Inl e \<Rightarrow> Inl e
           | Inr False \<Rightarrow> drop_packet (b # bs) st
           | Inr True \<Rightarrow>
               (case nd6_find_neighbor_cache_entry target (is_net st) of
                  Some i \<Rightarrow>
                    if flags AND ND6_FLAG_OVERRIDE \<noteq> 0
                    then (case lladdr_opt_addr b 24 (is_net st) of
                            Inl e \<Rightarrow> Inl e
                          | Inr hw \<Rightarrow> drop_packet (b # bs) (st\<lparr>is_net := upd_nbr i (set_lladdr hw) (is_net st)\<rparr>))
                    else drop_packet (b # bs) st
                | None \<Rightarrow> drop_packet (b # bs) st)))"

definition nd6_confirm ::
  "'n nd6 output_ip6_fn \<Rightarrow> nat \<Rightarrow> pbuf \<Rightarrow> chain \<Rightarrow> nat \<Rightarrow> ('cb, 'n nd6) ip6_state \<Rightarrow> ('cb, 'n nd6) ip6_state result" where
  "nd6_confirm out fuel b bs i st =
     (let n = upd_nbr i (\<lambda>e. e\<lparr>nbr_netif := True, nbr_state := ND6_REACHABLE, counter := reachable_time (is_net st)\<rparr>) (is_net st);
          st1 = st\<lparr>is_net := n\<rparr>
      in if nbr_q (neighbor_cache n ! i) \<noteq> []
         then (case on_nd (nd6_send_q out fuel i) st1 of Inl e \<Rightarrow> Inl e | Inr st2 \<Rightarrow> drop_packet (b # bs) st2)
         else drop_packet (b # bs) st1)"

definition nd6_solicited_na ::
  "'n nd6 output_ip6_fn \<Rightarrow> nat \<Rightarrow> pbuf \<Rightarrow> chain \<Rightarrow> u8 \<Rightarrow> ip6_addr \<Rightarrow> ('cb, 'n nd6) ip6_state \<Rightarrow> ('cb, 'n nd6) ip6_state result" where
  "nd6_solicited_na out fuel b bs flags target st =
     (case nd6_find_neighbor_cache_entry target (is_net st) of
        None \<Rightarrow> drop_packet (b # bs) st
      | Some i \<Rightarrow>
          if flags AND ND6_FLAG_OVERRIDE \<noteq> 0 \<or> nbr_state (neighbor_cache (is_net st) ! i) = ND6_INCOMPLETE
          then
            (case lladdr_opt_fits b 24 of
               Inl e \<Rightarrow> Inl e
             | Inr False \<Rightarrow> drop_packet (b # bs) st
             | Inr True \<Rightarrow>
                 (case lladdr_opt_addr b 24 (is_net st) of
                    Inl e \<Rightarrow> Inl e
                  | Inr hw \<Rightarrow> nd6_confirm out fuel b bs i (st\<lparr>is_net := upd_nbr i (set_lladdr hw) (is_net st)\<rparr>)))
          else nd6_confirm out fuel b bs i st)"

definition nd6_input_na ::
  "(nat \<Rightarrow> bytes) \<Rightarrow> 'n nd6 output_ip6_fn \<Rightarrow> 'n nd6 rand_fn \<Rightarrow> nat \<Rightarrow> pbuf \<Rightarrow> chain \<Rightarrow> ('cb, 'n nd6) ip6_state \<Rightarrow> ('cb, 'n nd6) ip6_state result" where
  "nd6_input_na uninit out rand fuel b bs st =
     (if unat (p_len b) < 24 then drop_packet (b # bs) st
      else
        (case mem_read (pbuf_mem b) (payload b) 24 of
           Inl e \<Rightarrow> Inl e
         | Inr h \<Rightarrow>
             (case current_hoplim b st of
                Inl e \<Rightarrow> Inl e
              | Inr hl \<Rightarrow>
                  (let target = ip6_addr_of_bytes (drop 8 h) in
                   if hl \<noteq> ND6_HOPLIM \<or> h ! 1 \<noteq> 0 \<or> ip6_addr_ismulticast target then drop_packet (b # bs) st
                   else if ip6_addr_ismulticast (current_iphdr_dest (is_ip st))
                   then nd6_unsolicited_na uninit out rand b bs (h ! 4) target st
                   else nd6_solicited_na out fuel b bs (h ! 4) target st))))"

subsection \<open>Neighbour solicitations\<close>

definition nd6_ns_dad ::
  "(nat \<Rightarrow> bytes) \<Rightarrow> 'n nd6 output_ip6_fn \<Rightarrow> 'n nd6 rand_fn \<Rightarrow> ip6_addr \<Rightarrow> nat \<Rightarrow> ('cb, 'n nd6) ip6_state \<Rightarrow> ('cb, 'n nd6) ip6_state result" where
  "nd6_ns_dad uninit out rand target i st =
     (let (a, ast) = nd_addrs st ! i in
      if ast \<noteq> IP6_ADDR_INVALID \<and> target = a
      then
        (case on_nd (nd6_send_na uninit out (current_iphdr_src (is_ip st)) a (ND6_FLAG_OVERRIDE OR ND6_SEND_FLAG_ALLNODES_DEST)) st of
           Inl e \<Rightarrow> Inl e
         | Inr st1 \<Rightarrow>
             if ip6_addr_istentative (snd (nd_addrs st1 ! i)) then nd6_duplicate_addr_detected uninit out rand i st1 else Inr st1)
      else Inr st)"

text \<open>The neighbour that asks, with the address of its option; \<open>None\<close>: there is no room for it.\<close>

definition nd6_ns_neighbor :: "ip6_addr \<Rightarrow> bytes \<Rightarrow> alloc_state \<Rightarrow> 'n nd6 \<Rightarrow> (alloc_state \<times> 'n nd6) option result" where
  "nd6_ns_neighbor src hw s n =
     (case nd6_find_neighbor_cache_entry src n of
        Some i \<Rightarrow>
          Inr (Some (s, if nbr_state (neighbor_cache n ! i) = ND6_INCOMPLETE
                        then upd_nbr i (\<lambda>e. nd6_delay (set_lladdr hw (e\<lparr>nbr_netif := True\<rparr>))) n else n))
      | None \<Rightarrow>
          (case nd6_new_neighbor_cache_entry s n of
             Inl e \<Rightarrow> Inl e
           | Inr (None, s1, n1) \<Rightarrow> Inr None
           | Inr (Some i, s1, n1) \<Rightarrow>
               Inr (Some (s1, upd_nbr i (\<lambda>e. nd6_delay (set_lladdr hw (e\<lparr>nbr_netif := True, next_hop_address := src\<rparr>))) n1))))"

definition nd6_input_ns ::
  "(nat \<Rightarrow> bytes) \<Rightarrow> 'n nd6 output_ip6_fn \<Rightarrow> 'n nd6 rand_fn \<Rightarrow> pbuf \<Rightarrow> chain \<Rightarrow> ('cb, 'n nd6) ip6_state \<Rightarrow> ('cb, 'n nd6) ip6_state result" where
  "nd6_input_ns uninit out rand b bs st =
     (if unat (p_len b) < 24 then drop_packet (b # bs) st
      else
        (case mem_read (pbuf_mem b) (payload b) 24 of
           Inl e \<Rightarrow> Inl e
         | Inr h \<Rightarrow>
             (case current_hoplim b st of
                Inl e \<Rightarrow> Inl e
              | Inr hl \<Rightarrow>
                  (let target = ip6_addr_of_bytes (drop 8 h);
                       src = current_iphdr_src (is_ip st)
                   in if hl \<noteq> ND6_HOPLIM \<or> h ! 1 \<noteq> 0 \<or> ip6_addr_ismulticast target then drop_packet (b # bs) st
                      else
                        (case lladdr_opt_fits b 24 of
                           Inl e \<Rightarrow> Inl e
                         | Inr opt \<Rightarrow>
                             if \<not> list_ex (\<lambda>(a, ast). (ip6_addr_isvalid ast \<or> ip6_addr_istentative ast \<and> src = IP6_ADDR_ANY)
                                              \<and> target = a) (nd_addrs st)
                             then drop_packet (b # bs) st
                             else if src = IP6_ADDR_ANY
                             then
                               (case iterate (nd6_ns_dad uninit out rand target) [0..<LWIP_IPV6_NUM_ADDRESSES] st of
                                  Inl e \<Rightarrow> Inl e
                                | Inr st1 \<Rightarrow> drop_packet (b # bs) st1)
                             else if \<not> opt then drop_packet (b # bs) st
                             else
                               (case lladdr_opt_addr b 24 (is_net st) of
                                  Inl e \<Rightarrow> Inl e
                                | Inr hw \<Rightarrow>
                                    (case nd6_ns_neighbor src hw (is_alloc st) (is_net st) of
                                       Inl e \<Rightarrow> Inl e
                                     | Inr None \<Rightarrow> drop_packet (b # bs) st
                                     | Inr (Some (s1, n1)) \<Rightarrow>
                                         (case on_nd (nd6_send_na uninit out src target (ND6_FLAG_SOLICITED OR ND6_FLAG_OVERRIDE))
                                                 (st\<lparr>is_alloc := s1, is_net := n1\<rparr>) of
                                            Inl e \<Rightarrow> Inl e
                                          | Inr st1 \<Rightarrow> drop_packet (b # bs) st1))))))))"

subsection \<open>Router advertisements\<close>

definition SIZEOF_RA_OPTIONS :: nat where "SIZEOF_RA_OPTIONS = 32"

definition be32_at :: "bytes \<Rightarrow> nat \<Rightarrow> u32" where
  "be32_at bs k = of_be32 (bs ! k) (bs ! (k + 1)) (bs ! (k + 2)) (bs ! (k + 3))"

definition nd6_ra_prefix :: "bytes \<Rightarrow> 'n nd6 \<Rightarrow> 'n nd6" where
  "nd6_ra_prefix buf n =
     (let a = ip6_addr_of_bytes (drop 16 buf);
          valid_life = be32_at buf 4
      in if \<not> ip6_addr_islinklocal a \<and> buf ! 3 AND ND6_PREFIX_FLAG_ON_LINK \<noteq> 0 \<and> buf ! 2 = 64
         then
           (let (i, n1) = (case nd6_get_onlink_prefix a n of
                             Some i \<Rightarrow> (Some i, n)
                           | None \<Rightarrow> if valid_life > 0 then nd6_new_onlink_prefix a n else (None, n))
            in case i of
                 None \<Rightarrow> n1
               | Some i \<Rightarrow> n1\<lparr>prefix_list := (prefix_list n1)[i := (prefix_list n1 ! i)\<lparr>prefix_timer := valid_life\<rparr>]\<rparr>)
         else n)"

text \<open>One option of an advertisement of router \<open>i\<close>; \<open>None\<close>: it is too short, which ends the processing.\<close>

definition nd6_ra_option :: "nat \<Rightarrow> bytes \<Rightarrow> nat \<Rightarrow> 'n nd6 \<Rightarrow> 'n nd6 option" where
  "nd6_ra_option i buf option_len n =
     (if buf ! 0 = ND6_OPTION_TYPE_SOURCE_LLADDR then
        if option_len < 8 then None
        else
          (case neighbor_entry (default_router_list n ! i) of
             Some k \<Rightarrow>
               if nbr_state (neighbor_cache n ! k) = ND6_INCOMPLETE
               then Some (upd_nbr k (\<lambda>e. (set_lladdr (take (length (hwaddr (nd_netif n))) (drop 2 buf)) e)
                                       \<lparr>nbr_state := ND6_REACHABLE, counter := reachable_time n\<rparr>) n)
               else Some n
           | None \<Rightarrow> Some n)
      else if buf ! 0 = ND6_OPTION_TYPE_MTU then
        if option_len < 8 then None
        else
          (let mtu32 = be32_at buf 4 in
           Some (if 1280 \<le> mtu32 \<and> mtu32 \<le> 0xffff
                 then n\<lparr>netif_mtu6 := (if netif_mtu n \<noteq> 0 then min (min (netif_mtu n) (netif_mtu6 n)) (ucast mtu32) else ucast mtu32)\<rparr>
                 else n))
      else if buf ! 0 = ND6_OPTION_TYPE_PREFIX_INFO then
        if option_len < 32 then None else Some (nd6_ra_prefix buf n)
      else Some n)"

text \<open>The bytes of the option at \<open>off\<close>, and how many of them there are.\<close>

definition nd6_ra_fetch :: "chain \<Rightarrow> u16 \<Rightarrow> nat \<Rightarrow> 'n nd6 \<Rightarrow> (bytes \<times> nat \<times> 'n nd6) option result" where
  "nd6_ra_fetch p off option_len n =
     (let b = hd p;
          copy = (\<lambda>len. map_sum id (\<lambda>(cnt, buf). Some (buf, unat cnt, n\<lparr>nd6_ra_buffer := buf\<rparr>))
                          (pbuf_copy_partial p (nd6_ra_buffer n) (of_nat len) off))
      in if p_len b = tot_len b
         then map_sum id (\<lambda>buf. Some (buf, option_len, n)) (mem_read (pbuf_mem b) (payload b + unat off) option_len)
         else if option_len > SIZEOF_RA_OPTIONS
         then
           (case pbuf_get_at p off of
              Inl e \<Rightarrow> Inl e
            | Inr option_type \<Rightarrow> if option_type \<noteq> ND6_OPTION_TYPE_RDNSS then Inr None else copy SIZEOF_RA_OPTIONS)
         else copy option_len)"

lemma ra_option_offset:
  assumes "8 * unat (len8 :: u8) \<le> unat (t :: u16) - unat off" "len8 \<noteq> 0"
  shows "unat (off + 8 * ucast len8 :: u16) = unat off + 8 * unat len8" "0 < unat len8"
proof -
  have "unat len8 < 256" using unsigned_less [of len8] by simp
  then have u: "unat (8 * ucast len8 :: u16) = 8 * unat len8" by (simp add: unat_word_ariths unat_ucast_u8)
  show "0 < unat len8" using assms(2) unat_gt_0 by blast
  with assms(1) have "unat off + 8 * unat len8 \<le> unat t" by linarith
  also have "\<dots> < 2 ^ 16" using unsigned_less [of t] by simp
  finally have "unat off + 8 * unat len8 < 2 ^ 16" .
  then show "unat (off + 8 * ucast len8 :: u16) = unat off + 8 * unat len8" using u by (simp add: unat_word_ariths)
qed

function nd6_ra_options :: "nat \<Rightarrow> chain \<Rightarrow> u16 \<Rightarrow> 'n nd6 \<Rightarrow> 'n nd6 result" where
  "nd6_ra_options i p off n =
     (if unat (tot_len (hd p)) < unat off + 2 then Inr n
      else
        (case pbuf_try_get_at p (off + 1) of
           Inl e \<Rightarrow> Inl e
         | Inr None \<Rightarrow> Inr n
         | Inr (Some len8) \<Rightarrow>
             if len8 = 0 \<or> 8 * unat len8 > unat (tot_len (hd p)) - unat off then Inr n
             else
               (case nd6_ra_fetch p off (8 * unat len8) n of
                  Inl e \<Rightarrow> Inl e
                | Inr None \<Rightarrow> Inr n
                | Inr (Some (buf, option_len, n1)) \<Rightarrow>
                    (case nd6_ra_option i buf option_len n1 of
                       None \<Rightarrow> Inr n1
                     | Some n2 \<Rightarrow> nd6_ra_options i p (off + 8 * ucast len8) n2))))"
  by pat_completeness auto

termination
proof (relation "measure (\<lambda>(i, p, off, n). unat (tot_len (hd p)) - unat off)", goal_cases)
  case (2 i p off n r len8)
  then have "8 * unat len8 \<le> unat (tot_len (hd p)) - unat off" "len8 \<noteq> 0" by auto
  note ra_option_offset [OF this]
  with 2 show ?case by auto
qed simp

definition nd6_ra_router ::
  "bytes \<Rightarrow> nat \<Rightarrow> 'n nd6 \<Rightarrow> 'n nd6" where
  "nd6_ra_router h i n =
     (let n1 = upd_router i (\<lambda>r. r\<lparr>router_timer := ucast (of_be16 (h ! 6) (h ! 7))\<rparr>) n;
          n2 = (if be32_at h 12 > 0 then n1\<lparr>retrans_timer := be32_at h 12\<rparr> else n1);
          n3 = (if be32_at h 8 > 0 then n2\<lparr>reachable_time := be32_at h 8\<rparr> else n2)
      in upd_router i (\<lambda>r. r\<lparr>router_flags := h ! 5\<rparr>) n3)"

definition nd6_ra_stop_rs ::
  "(nat \<Rightarrow> bytes) \<Rightarrow> 'n nd6 output_ip6_fn \<Rightarrow> alloc_state \<Rightarrow> 'n nd6 \<Rightarrow> (alloc_state \<times> 'n nd6) result" where
  "nd6_ra_stop_rs uninit out s n =
     (if rs_count n < of_nat LWIP_ND6_MAX_MULTICAST_SOLICIT then Inr (s, n\<lparr>rs_count := 0\<rparr>)
      else map_sum id (\<lambda>(err, s1, n1). (s1, n1\<lparr>rs_count := (if err = ERR_OK then 0 else 1)\<rparr>)) (nd6_send_rs uninit out s n))"

definition nd6_input_ra ::
  "(nat \<Rightarrow> bytes) \<Rightarrow> 'n nd6 output_ip6_fn \<Rightarrow> pbuf \<Rightarrow> chain \<Rightarrow> ('cb, 'n nd6) ip6_state \<Rightarrow> ('cb, 'n nd6) ip6_state result" where
  "nd6_input_ra uninit out b bs st =
     (if unat (p_len b) < 16 then drop_packet (b # bs) st
      else
        (case mem_read (pbuf_mem b) (payload b) 16 of
           Inl e \<Rightarrow> Inl e
         | Inr h \<Rightarrow>
             (case current_hoplim b st of
                Inl e \<Rightarrow> Inl e
              | Inr hl \<Rightarrow>
                  (let src = current_iphdr_src (is_ip st) in
                   if \<not> ip6_addr_islinklocal src \<or> hl \<noteq> ND6_HOPLIM \<or> h ! 1 \<noteq> 0 then drop_packet (b # bs) st
                   else
                     (case nd6_ra_stop_rs uninit out (is_alloc st) (is_net st) of
                        Inl e \<Rightarrow> Inl e
                      | Inr (s1, n1) \<Rightarrow>
                          (case (case nd6_get_router src n1 of
                                   Some i \<Rightarrow> Inr (Some i, s1, n1)
                                 | None \<Rightarrow> nd6_new_router uninit out src s1 n1) of
                             Inl e \<Rightarrow> Inl e
                           | Inr (None, s2, n2) \<Rightarrow> drop_packet (b # bs) (st\<lparr>is_alloc := s2, is_net := n2\<rparr>)
                           | Inr (Some i, s2, n2) \<Rightarrow>
                               (case nd6_ra_options i (b # bs) 16 (nd6_ra_router h i n2) of
                                  Inl e \<Rightarrow> Inl e
                                | Inr n3 \<Rightarrow> drop_packet (b # bs) (st\<lparr>is_alloc := s2, is_net := n3\<rparr>)))))))) "

subsection \<open>Redirects and path MTU\<close>

definition nd6_redirect_neighbor :: "ip6_addr \<Rightarrow> bytes \<Rightarrow> alloc_state \<Rightarrow> 'n nd6 \<Rightarrow> (alloc_state \<times> 'n nd6) result" where
  "nd6_redirect_neighbor target hw s n =
     (case (case nd6_find_neighbor_cache_entry target n of
              Some i \<Rightarrow> Inr (Some i, s, n)
            | None \<Rightarrow>
                (case nd6_new_neighbor_cache_entry s n of
                   Inl e \<Rightarrow> Inl e
                 | Inr (None, s1, n1) \<Rightarrow> Inr (None, s1, n1)
                 | Inr (Some i, s1, n1) \<Rightarrow>
                     Inr (Some i, s1, upd_nbr i (\<lambda>e. nd6_delay (set_lladdr hw (e\<lparr>nbr_netif := True, next_hop_address := target\<rparr>))) n1))) of
        Inl e \<Rightarrow> Inl e
      | Inr (None, s1, n1) \<Rightarrow> Inr (s1, n1)
      | Inr (Some i, s1, n1) \<Rightarrow>
          Inr (s1, if nbr_state (neighbor_cache n1 ! i) = ND6_INCOMPLETE then upd_nbr i (\<lambda>e. nd6_delay (set_lladdr hw e)) n1 else n1))"

definition nd6_input_rd :: "pbuf \<Rightarrow> chain \<Rightarrow> ('cb, 'n nd6) ip6_state \<Rightarrow> ('cb, 'n nd6) ip6_state result" where
  "nd6_input_rd b bs st =
     (if unat (p_len b) < 40 then drop_packet (b # bs) st
      else
        (case mem_read (pbuf_mem b) (payload b) 40 of
           Inl e \<Rightarrow> Inl e
         | Inr h \<Rightarrow>
             (case current_hoplim b st of
                Inl e \<Rightarrow> Inl e
              | Inr hl \<Rightarrow>
                  (let target = ip6_addr_of_bytes (take 16 (drop 8 h));
                       destination = ip6_addr_of_bytes (drop 24 h)
                   in if \<not> ip6_addr_islinklocal (current_iphdr_src (is_ip st)) \<or> hl \<noteq> ND6_HOPLIM \<or> h ! 1 \<noteq> 0
                         \<or> ip6_addr_ismulticast destination
                      then drop_packet (b # bs) st
                      else
                        (case lladdr_opt_fits b 40 of
                           Inl e \<Rightarrow> Inl e
                         | Inr opt \<Rightarrow>
                             (case nd6_find_destination_cache_entry destination (is_net st) of
                                None \<Rightarrow> drop_packet (b # bs) st
                              | Some d \<Rightarrow>
                                  (let n1 = upd_dst d (\<lambda>x. x\<lparr>next_hop_addr := target\<rparr>) (is_net st) in
                                   if opt \<and> pbuf_mem b ! (payload b + 40) = ND6_OPTION_TYPE_TARGET_LLADDR
                                   then
                                     (case lladdr_opt_addr b 40 n1 of
                                        Inl e \<Rightarrow> Inl e
                                      | Inr hw \<Rightarrow>
                                          (case nd6_redirect_neighbor target hw (is_alloc st) n1 of
                                             Inl e \<Rightarrow> Inl e
                                           | Inr (s2, n2) \<Rightarrow> drop_packet (b # bs) (st\<lparr>is_alloc := s2, is_net := n2\<rparr>)))
                                   else drop_packet (b # bs) (st\<lparr>is_net := n1\<rparr>))))))))"

definition nd6_input_ptb :: "pbuf \<Rightarrow> chain \<Rightarrow> ('cb, 'n nd6) ip6_state \<Rightarrow> ('cb, 'n nd6) ip6_state result" where
  "nd6_input_ptb b bs st =
     (if unat (p_len b) < 8 + IP6_HLEN then drop_packet (b # bs) st
      else
        (case mem_read (pbuf_mem b) (payload b) (8 + IP6_HLEN) of
           Inl e \<Rightarrow> Inl e
         | Inr h \<Rightarrow>
             (case nd6_find_destination_cache_entry (hdr_dest (ip6_hdr_of_bytes (drop 8 h))) (is_net st) of
                None \<Rightarrow> drop_packet (b # bs) st
              | Some d \<Rightarrow>
                  drop_packet (b # bs)
                    (st\<lparr>is_net := upd_dst d (\<lambda>x. x\<lparr>pmtu := ucast (min (be32_at h 4) 0xFFFF)\<rparr>) (is_net st)\<rparr>))))"

definition nd6_input ::
  "(nat \<Rightarrow> bytes) \<Rightarrow> 'n nd6 output_ip6_fn \<Rightarrow> 'n nd6 rand_fn \<Rightarrow> nat \<Rightarrow> ('cb, 'n nd6) nd6_input_fn" where
  "nd6_input uninit out rand fuel p inp st =
     (case p of
        [] \<Rightarrow> Inl NullDeref
      | b # bs \<Rightarrow>
          (case mem_get (pbuf_mem b) (payload b) of
             Inl e \<Rightarrow> Inl e
           | Inr type \<Rightarrow>
               if type = ICMP6_TYPE_NA then nd6_input_na uninit out rand fuel b bs st
               else if type = ICMP6_TYPE_NS then nd6_input_ns uninit out rand b bs st
               else if type = ICMP6_TYPE_RA then nd6_input_ra uninit out b bs st
               else if type = ICMP6_TYPE_RD then nd6_input_rd b bs st
               else if type = ICMP6_TYPE_PTB then nd6_input_ptb b bs st
               else drop_packet p st))"

subsection \<open>The timer\<close>

definition nd6_tmr_probe ::
  "(nat \<Rightarrow> bytes) \<Rightarrow> 'n nd6 output_ip6_fn \<Rightarrow> nat \<Rightarrow> u8 \<Rightarrow> alloc_state \<Rightarrow> 'n nd6 \<Rightarrow> (alloc_state \<times> 'n nd6) result" where
  "nd6_tmr_probe uninit out i flags s n =
     (let e = neighbor_cache n ! i in
      if of_nat LWIP_ND6_MAX_MULTICAST_SOLICIT \<le> counter e \<and> \<not> isrouter e
      then nd6_free_neighbor_cache_entry i s n
      else nd6_send_neighbor_cache_probe uninit out i flags s (upd_nbr i (\<lambda>e. e\<lparr>counter := counter e + 1\<rparr>) n))"

definition nd6_age_reachable :: "nd6_neighbor_cache_entry \<Rightarrow> nd6_neighbor_cache_entry" where
  "nd6_age_reachable e =
     (if counter e \<le> ND6_TMR_INTERVAL then e\<lparr>nbr_state := ND6_STALE, counter := 0\<rparr>
      else e\<lparr>counter := counter e - ND6_TMR_INTERVAL\<rparr>)"

definition nd6_tmr_neighbor ::
  "(nat \<Rightarrow> bytes) \<Rightarrow> 'n nd6 output_ip6_fn \<Rightarrow> nat \<Rightarrow> nat \<Rightarrow> alloc_state \<times> 'n nd6 \<Rightarrow> (alloc_state \<times> 'n nd6) result" where
  "nd6_tmr_neighbor uninit out fuel i sn =
     (let (s, n) = sn;
          e = neighbor_cache n ! i
      in case nbr_state e of
           ND6_INCOMPLETE \<Rightarrow> nd6_tmr_probe uninit out i ND6_SEND_FLAG_MULTICAST_DEST s n
         | ND6_REACHABLE \<Rightarrow>
             map_sum id (\<lambda>(s1, n1). (s1, upd_nbr i nd6_age_reachable n1))
               (if nbr_q e \<noteq> [] then nd6_send_q out fuel i s n else Inr (s, n))
         | ND6_STALE \<Rightarrow> Inr (s, upd_nbr i (\<lambda>e. e\<lparr>counter := counter e + 1\<rparr>) n)
         | ND6_DELAY \<Rightarrow>
             Inr (s, upd_nbr i (\<lambda>e. if counter e \<le> 1 then e\<lparr>nbr_state := ND6_PROBE, counter := 0\<rparr>
                                    else e\<lparr>counter := counter e - 1\<rparr>) n)
         | ND6_PROBE \<Rightarrow> nd6_tmr_probe uninit out i 0 s n
         | ND6_NO_ENTRY \<Rightarrow> Inr (s, n))"

definition nd6_tmr_router :: "nat \<Rightarrow> 'n nd6 \<Rightarrow> 'n nd6" where
  "nd6_tmr_router i n =
     (let r = default_router_list n ! i in
      case neighbor_entry r of
        None \<Rightarrow> n
      | Some k \<Rightarrow>
          if router_timer r \<le> ND6_TMR_INTERVAL div 1000 then
            (let n1 = n\<lparr>destination_cache :=
                          map (\<lambda>d. if next_hop_addr d = next_hop_address (neighbor_cache n ! k)
                                   then d\<lparr>destination_addr := IP6_ADDR_ANY\<rparr> else d) (destination_cache n)\<rparr>
             in upd_router i (\<lambda>r. r\<lparr>neighbor_entry := None, router_timer := 0, router_flags := 0\<rparr>)
                  (upd_nbr k (\<lambda>e. e\<lparr>isrouter := False\<rparr>) n1))
          else upd_router i (\<lambda>r. r\<lparr>router_timer := router_timer r - ND6_TMR_INTERVAL div 1000\<rparr>) n)"

definition nd6_tmr_prefix :: "nd6_prefix_list_entry \<Rightarrow> nd6_prefix_list_entry" where
  "nd6_tmr_prefix p =
     (if prefix_netif p then
        if prefix_timer p \<le> ND6_TMR_INTERVAL div 1000 then p\<lparr>prefix_timer := 0, prefix_netif := False\<rparr>
        else p\<lparr>prefix_timer := prefix_timer p - ND6_TMR_INTERVAL div 1000\<rparr>
      else p)"

definition nd6_tmr_addr ::
  "(nat \<Rightarrow> bytes) \<Rightarrow> 'n nd6 output_ip6_fn \<Rightarrow> 'n nd6 rand_fn \<Rightarrow> nat \<Rightarrow> ('cb, 'n nd6) ip6_state \<Rightarrow> ('cb, 'n nd6) ip6_state result" where
  "nd6_tmr_addr uninit out rand i st =
     (let (a, ast) = nd_addrs st ! i;
          netif = nd_netif (is_net st)
      in if ip6_addr_istentative ast then
           if ast AND IP6_ADDR_TENTATIVE_COUNT_MASK \<ge> LWIP_IPV6_DUP_DETECT_ATTEMPTS
           then netif_ip6_addr_set_state uninit out rand i IP6_ADDR_PREFERRED st
           else if netif_is_up netif \<and> netif_is_link_up netif
           then
             (case netif_ip6_addr_set_state uninit out rand i (ast + 1) st of
                Inl e \<Rightarrow> Inl e
              | Inr st1 \<Rightarrow> on_nd (nd6_send_ns uninit out a (ND6_SEND_FLAG_MULTICAST_DEST OR ND6_SEND_FLAG_ANY_SRC)) st1)
           else Inr st
         else Inr st)"

definition nd6_tmr_rs ::
  "(nat \<Rightarrow> bytes) \<Rightarrow> 'n nd6 output_ip6_fn \<Rightarrow> alloc_state \<Rightarrow> 'n nd6 \<Rightarrow> (alloc_state \<times> 'n nd6) result" where
  "nd6_tmr_rs uninit out s n =
     (if nd6_tmr_rs_reduction n = 0 then
        (let n1 = n\<lparr>nd6_tmr_rs_reduction := ucast (ND6_RTR_SOLICITATION_INTERVAL div ND6_TMR_INTERVAL - 1)\<rparr>;
             netif = nd_netif n1
         in if rs_count n1 > 0 \<and> netif_is_up netif \<and> netif_is_link_up netif
               \<and> snd (ip6_addrs netif ! 0) \<noteq> IP6_ADDR_INVALID \<and> snd (ip6_addrs netif ! 0) \<noteq> IP6_ADDR_DUPLICATED
            then map_sum id (\<lambda>(err, s2, n2). (s2, if err = ERR_OK then n2\<lparr>rs_count := rs_count n2 - 1\<rparr> else n2)) (nd6_send_rs uninit out s n1)
            else Inr (s, n1))
      else Inr (s, n\<lparr>nd6_tmr_rs_reduction := nd6_tmr_rs_reduction n - 1\<rparr>))"

text \<open>The tables, in the order of the code: neighbours, destinations, routers, prefixes.\<close>

definition nd6_tmr_tables ::
  "(nat \<Rightarrow> bytes) \<Rightarrow> 'n nd6 output_ip6_fn \<Rightarrow> nat \<Rightarrow> alloc_state \<Rightarrow> 'n nd6 \<Rightarrow> (alloc_state \<times> 'n nd6) result" where
  "nd6_tmr_tables uninit out fuel s n =
     map_sum id
       (\<lambda>(s1, n1).
          let n2 = n1\<lparr>destination_cache := map (\<lambda>d. d\<lparr>age := age d + 1\<rparr>) (destination_cache n1)\<rparr>;
              n3 = fold nd6_tmr_router [0..<LWIP_ND6_NUM_ROUTERS] n2
          in (s1, n3\<lparr>prefix_list := map nd6_tmr_prefix (prefix_list n3)\<rparr>))
       (iterate (nd6_tmr_neighbor uninit out fuel) [0..<LWIP_ND6_NUM_NEIGHBORS] (s, n))"

definition nd6_tmr ::
  "(nat \<Rightarrow> bytes) \<Rightarrow> 'n nd6 output_ip6_fn \<Rightarrow> 'n nd6 rand_fn \<Rightarrow> nat \<Rightarrow> ('cb, 'n nd6) ip6_state \<Rightarrow> ('cb, 'n nd6) ip6_state result" where
  "nd6_tmr uninit out rand fuel st =
     (case on_nd (nd6_tmr_tables uninit out fuel) st of
        Inl e \<Rightarrow> Inl e
      | Inr st1 \<Rightarrow>
          (case iterate (nd6_tmr_addr uninit out rand) [0..<LWIP_IPV6_NUM_ADDRESSES] st1 of
             Inl e \<Rightarrow> Inl e
           | Inr st2 \<Rightarrow> on_nd (nd6_tmr_rs uninit out) st2))"

end
