(* ===== verification/Nd6_Resolve.thy ===== *)
theory Nd6_Resolve
  imports Nd6_Input
begin

text \<open>
  Facts on neighbour discovery: the recursion between \<open>netif->output_ip6\<close> and the next hop, the tables, sending to a
  known neighbour, and the packets that leave a neighbour's queue when it answers.
\<close>

section \<open>The output function\<close>

lemma solicitednode_multicast [simp]: "ip6_addr_ismulticast (ip6_addr_solicitednode a)"
  by (cases a) simp

definition group_agree :: "'n output_ip6_fn \<Rightarrow> 'n output_ip6_fn \<Rightarrow> bool" where
  "group_agree out out' \<longleftrightarrow> (\<forall>nif c d s n. ip6_addr_ismulticast d \<longrightarrow> out nif c d s n = out' nif c d s n)"

lemma ip6_output_if_agree:
  assumes "group_agree out out'" "ip6_addr_ismulticast d"
  shows "ip6_output_if out c src (Some d) hl tc nxt nif s n = ip6_output_if out' c src (Some d) hl tc nxt nif s n"
proof -
  have eq: "out nif c d s n = out' nif c d s n" for nif c s n using assms by (simp add: group_agree_def)
  show ?thesis unfolding ip6_output_if_def ip6_output_if_src_def option.case eq ..
qed

lemma nd6_xmit_agree:
  assumes "group_agree out out'" "ip6_addr_ismulticast d"
  shows "nd6_xmit out c src d s n = nd6_xmit out' c src d s n"
  unfolding nd6_xmit_def ip6_output_if_agree [OF assms] ..

lemma nd6_incomplete_agree:
  assumes "group_agree out out'"
  shows "nd6_incomplete uninit out i f a s n = nd6_incomplete uninit out' i f a s n"
proof -
  have flag: "((1::u8) AND 1 \<noteq> 0) = True" by simp
  have eq: "nd6_xmit out c src (ip6_addr_solicitednode a) s n = nd6_xmit out' c src (ip6_addr_solicitednode a) s n" for c src a s n
    by (rule nd6_xmit_agree [OF assms]) simp
  show ?thesis
    unfolding nd6_incomplete_def nd6_send_neighbor_cache_probe_def nd6_send_ns_def ND6_SEND_FLAG_MULTICAST_DEST_def flag if_True eq ..
qed

lemma nd6_next_hop_agree:
  assumes "group_agree out out'"
  shows "nd6_next_hop uninit out = nd6_next_hop uninit out'"
  unfolding nd6_next_hop_def nd6_get_next_hop_addr_or_queue_def nd6_get_next_hop_entry_def nd6_incomplete_agree [OF assms] ..

section \<open>The tables\<close>

lemma find_idx_Some: "find_idx P xs = Some i \<Longrightarrow> i < length xs \<and> P (xs ! i) \<and> (\<forall>j < i. \<not> P (xs ! j))"
proof (induction xs arbitrary: i)
  case (Cons x xs)
  then show ?case by (cases i) (auto split: if_splits simp: nth_Cons split: nat.splits)
qed simp

lemma find_idx_None: "find_idx P xs = None \<longleftrightarrow> (\<forall>x \<in> set xs. \<not> P x)"
  by (induction xs) auto

lemma find_idx_first: "i < length xs \<Longrightarrow> P (xs ! i) \<Longrightarrow> (\<And>j. j < length xs \<Longrightarrow> P (xs ! j) \<Longrightarrow> j = i) \<Longrightarrow> find_idx P xs = Some i"
  by (metis find_idx_None find_idx_Some nth_mem option.exhaust)

lemma oldest_entry_Some:
  "oldest_entry cmp P i es t j = Some k \<Longrightarrow> j = Some k \<or> i \<le> k \<and> k < i + length es \<and> P (es ! (k - i))"
proof (induction es arbitrary: i t j)
  case (Cons e es)
  have rest: "oldest_entry cmp P (Suc i) es t' j' = Some k \<Longrightarrow>
      j' = Some k \<or> i \<le> k \<and> k < i + length (e # es) \<and> P ((e # es) ! (k - i))" for t' j'
    using Cons.IH [of "Suc i" t' j'] by (auto simp: nth_Cons Suc_diff_le split: nat.splits) (metis Suc_diff_Suc Suc_le_eq old.nat.inject)+
  show ?case
  proof (cases "P e \<and> cmp (counter e) t")
    case True
    then show ?thesis using rest [of "counter e" "Some i"] Cons.prems by auto
  next
    case False
    then have "oldest_entry cmp P (Suc i) es t j = Some k" using Cons.prems by auto
    from rest [OF this] show ?thesis .
  qed
qed simp

lemma recycled_entry_Some:
  assumes "recycled_entry nc = Some i"
  shows "i < length nc \<and> nbr_state (nc ! i) \<noteq> ND6_NO_ENTRY \<and> \<not> isrouter (nc ! i)"
  using assms unfolding recycled_entry_def Let_def
  by (auto split: if_splits dest!: find_idx_Some oldest_entry_Some)

section \<open>Packets\<close>

text \<open>
  What the driver promises: it returns, records the frame it was given in \<open>sent\<close>, leaves the allocators alone, and may
  keep a reference to the packet.
\<close>

definition link_sends :: "('l \<Rightarrow> bytes list) \<Rightarrow> 'l linkoutput_fn \<Rightarrow> bool" where
  "link_sends sent lo \<longleftrightarrow>
     (\<forall>nif b bs s l. chain_ok (b # bs) \<and> p_ref b = 1 \<longrightarrow>
        (\<exists>err r l'. lo nif (b # bs) s l = Inr (err, b\<lparr>p_ref := r\<rparr> # bs, s, l') \<and> (r = 1 \<or> r = 2)
          \<and> sent l' = sent l @ [chain_data (b # bs)]))"

text \<open>After a packet was released: the rest of the heap is as it was.\<close>

definition heap_but :: "nat \<Rightarrow> alloc_state \<Rightarrow> alloc_state \<Rightarrow> bool" where
  "heap_but a s s' \<longleftrightarrow> heap_ok (al_heap s') \<and> al_memp s' = al_memp s \<and> (\<forall>x. x \<noteq> a \<longrightarrow> live (al_heap s') x = live (al_heap s) x)"

lemma nd_pbuf_free_ram:
  assumes "heap_ok (al_heap s)" "type_internal b = 0x80" "live (al_heap s) (pbuf_addr b) \<noteq> None" "p_ref b = 1 \<or> p_ref b = 2"
  shows "\<exists>s' c. nd_pbuf_free [b] s n = Inr (s', n\<lparr>nd_pkts := (nd_pkts n)(pbuf_ptr b := c)\<rparr>) \<and> heap_but (pbuf_addr b) s s'"
  using assms(4)
proof
  have src: "pbuf_get_allocsrc b = 0" using assms(2) by (simp add: pbuf_get_allocsrc_def)
  assume "p_ref b = 1"
  moreover obtain k where "live (al_heap s) (pbuf_addr b) = Some k" using assms(3) by blast
  ultimately obtain h where "pbuf_free [b] s = Inr (1, [], s\<lparr>al_heap := h\<rparr>)" "heap_ok h" "live h = (live (al_heap s))(pbuf_addr b := None)"
    using pbuf_free_ram [OF assms(1) _ src] by blast
  then show ?thesis by (intro exI [of _ "s\<lparr>al_heap := h\<rparr>"] exI [of _ "[]"]) (simp add: nd_pbuf_free_def put_pkt_def heap_but_def)
next
  assume "p_ref b = 2"
  moreover have "pbuf_ptr (b\<lparr>p_ref := 1\<rparr>) = pbuf_ptr b" by (simp add: pbuf_ptr_def pbuf_get_allocsrc_def)
  ultimately show ?thesis using assms(1)
    by (intro exI [of _ s] exI [of _ "[b\<lparr>p_ref := 1\<rparr>]"]) (simp add: nd_pbuf_free_def pbuf_free_def put_pkt_def heap_but_def)
qed

text \<open>A packet that is waiting to be sent, with room for the Ethernet header, goes to the driver as one frame.\<close>

lemma ethernet_output_waiting:
  assumes "ip_packet 14 s b" "length (hwaddr nif) = 6" "length mac = 6" "link_sends sent lo"
  shows "\<exists>err b' s' l' c. ethernet_output (nd_linkoutput lo) nif [b] (hwaddr nif) mac ETHTYPE_IPV6 s n = Inr (err, [b'], s, n\<lparr>nd_link := l'\<rparr>)
    \<and> nd_pbuf_free [b'] s (n\<lparr>nd_link := l'\<rparr>) = Inr (s', n\<lparr>nd_link := l', nd_pkts := (nd_pkts n)(pbuf_ptr b := c)\<rparr>)
    \<and> heap_but (pbuf_addr b) s s' \<and> sent l' = sent (nd_link n) @ [eth_frame mac (hwaddr nif) (chain_data [b])]"
proof -
  have b: "chain_ok [b]" "room_for 14 b" using assms(1) ip_packet_room [OF assms(1)] by (simp_all add: ip_packet_def)
  from ethernet_output_sends [OF this assms(2,3), where linkoutput = "nd_linkoutput lo" and s = s and n = n]
  obtain b2 where b2: "chain_ok [b2]" "p_ref b2 = p_ref b" "pbuf_addr b2 = pbuf_addr b" "type_internal b2 = type_internal b"
    "chain_data [b2] = eth_frame mac (hwaddr nif) (chain_data [b])"
    "ethernet_output (nd_linkoutput lo) nif [b] (hwaddr nif) mac ETHTYPE_IPV6 s n = nd_linkoutput lo nif [b2] s n"
    by (elim exE conjE)
  have ref: "p_ref b2 = 1" using b2(2) assms(1) by (simp add: ip_packet_def)
  with b2(1) assms(4) obtain err r l' where lo: "lo nif [b2] s (nd_link n) = Inr (err, [b2\<lparr>p_ref := r\<rparr>], s, l')" "r = 1 \<or> r = 2"
    "sent l' = sent (nd_link n) @ [chain_data [b2]]" unfolding link_sends_def by blast
  have out: "ethernet_output (nd_linkoutput lo) nif [b] (hwaddr nif) mac ETHTYPE_IPV6 s n = Inr (err, [b2\<lparr>p_ref := r\<rparr>], s, n\<lparr>nd_link := l'\<rparr>)"
    unfolding b2(6) by (simp add: nd_linkoutput_def lo(1))
  have ptr: "pbuf_ptr (b2\<lparr>p_ref := r\<rparr>) = pbuf_ptr b" using b2(3,4) by (simp add: pbuf_ptr_def pbuf_get_allocsrc_def)
  from nd_pbuf_free_ram [of s "b2\<lparr>p_ref := r\<rparr>" "n\<lparr>nd_link := l'\<rparr>"] assms(1) b2(3,4) lo(2)
  obtain s' c where "nd_pbuf_free [b2\<lparr>p_ref := r\<rparr>] s (n\<lparr>nd_link := l'\<rparr>)
      = Inr (s', n\<lparr>nd_link := l', nd_pkts := (nd_pkts n)(pbuf_ptr b := c)\<rparr>)" "heap_but (pbuf_addr b) s s'"
    unfolding ptr by (auto simp: ip_packet_def)
  then show ?thesis using out lo(3) b2(5) by metis
qed

section \<open>Known destinations\<close>

definition tables_ok :: "'n nd6 \<Rightarrow> bool" where
  "tables_ok n \<longleftrightarrow> length (neighbor_cache n) = LWIP_ND6_NUM_NEIGHBORS \<and> length (destination_cache n) = LWIP_ND6_NUM_DESTINATIONS
     \<and> nd6_cached_destination_index n < LWIP_ND6_NUM_DESTINATIONS
     \<and> (\<forall>d \<in> set (destination_cache n). unat (cached_neighbor_idx d) < LWIP_ND6_NUM_NEIGHBORS)"

text \<open>Entry \<open>i\<close> is the one for address \<open>a\<close>; and the destination cache sends \<open>a\<close> to entry \<open>i\<close>.\<close>

definition neighbour_of :: "'n nd6 \<Rightarrow> nat \<Rightarrow> ip6_addr \<Rightarrow> bool" where
  "neighbour_of n i a \<longleftrightarrow> i < length (neighbor_cache n) \<and> next_hop_address (neighbor_cache n ! i) = a
     \<and> (\<forall>j < length (neighbor_cache n). next_hop_address (neighbor_cache n ! j) = a \<longrightarrow> j = i)"

definition hops :: "'n nd6 \<Rightarrow> (ip6_addr \<times> ip6_addr) list" where
  "hops n = map (\<lambda>d. (destination_addr d, next_hop_addr d)) (destination_cache n)"

definition routes_to :: "'n nd6 \<Rightarrow> ip6_addr \<Rightarrow> nat \<Rightarrow> bool" where
  "routes_to n a i \<longleftrightarrow> a \<in> fst ` set (hops n) \<and> (\<forall>(d, h) \<in> set (hops n). d = a \<longrightarrow> neighbour_of n i h)"

lemma neighbour_of_find: "neighbour_of n i a \<Longrightarrow> nd6_find_neighbor_cache_entry a n = Some i"
  unfolding nd6_find_neighbor_cache_entry_def neighbour_of_def by (rule find_idx_first) auto

lemma nd6_destination_known:
  assumes "tables_ok n" "a \<in> fst ` set (hops n)"
  shows "\<exists>d < length (destination_cache n). destination_addr (destination_cache n ! d) = a
    \<and> nd6_destination a n = Inr (Inr d, n\<lparr>nd6_cached_destination_index := d\<rparr>)"
proof (cases "a = destination_addr (destination_cache n ! nd6_cached_destination_index n)")
  case True
  then show ?thesis
    using assms(1) by (intro exI [of _ "nd6_cached_destination_index n"]) (auto simp: nd6_destination_def tables_ok_def)
next
  case False
  have "nd6_find_destination_cache_entry a n \<noteq> None"
    using assms(2) by (auto simp: nd6_find_destination_cache_entry_def find_idx_None hops_def)
  then obtain d where d: "nd6_find_destination_cache_entry a n = Some d" by blast
  then show ?thesis
    using find_idx_Some [OF d [unfolded nd6_find_destination_cache_entry_def]] False assms(1)
    by (intro exI [of _ d]) (auto simp: nd6_destination_def tables_ok_def)
qed

text \<open>The lookup of a known destination changes nothing but the cached indices and the age.\<close>

definition looked_up :: "'n nd6 \<Rightarrow> 'n nd6 \<Rightarrow> bool" where
  "looked_up n n' \<longleftrightarrow> tables_ok n' \<and> hops n' = hops n
     \<and> (\<exists>dc c. n' = n\<lparr>nd6_cached_destination_index := c, destination_cache := dc\<rparr>)"

lemma nd6_next_hop_entry_known:
  assumes ok: "tables_ok n" and rt: "routes_to n a i"
  shows "\<exists>n'. nd6_get_next_hop_entry uninit out a s n = Inr (Inr i, s, n') \<and> looked_up n n'"
proof -
  have "a \<in> fst ` set (hops n)" using rt by (simp add: routes_to_def)
  from nd6_destination_known [OF ok this] obtain d where d: "d < length (destination_cache n)" "destination_addr (destination_cache n ! d) = a"
    and eq: "nd6_destination a n = Inr (Inr d, n\<lparr>nd6_cached_destination_index := d\<rparr>)" by blast
  let ?x = "destination_cache n ! d" and ?n = "n\<lparr>nd6_cached_destination_index := d\<rparr>"
  let ?k = "unat (cached_neighbor_idx ?x)"
  have nb: "neighbour_of n i (next_hop_addr ?x)" using rt d by (auto simp: routes_to_def hops_def)
  then have i: "i < length (neighbor_cache n)" by (simp add: neighbour_of_def)
  have k: "?k < length (neighbor_cache n)" using ok d(1) by (auto simp: tables_ok_def)
  have i256: "unat (of_nat i :: u8) = i" using i ok by (simp add: tables_ok_def LWIP_ND6_NUM_NEIGHBORS_def unat_of_nat)
  have lk: "looked_up n (upd_dst d (\<lambda>x. x\<lparr>cached_neighbor_idx := c, age := 0\<rparr>) ?n)" if "unat c < LWIP_ND6_NUM_NEIGHBORS" for c
  proof -
    have "set ((destination_cache n)[d := ?x\<lparr>cached_neighbor_idx := c, age := 0\<rparr>])
        \<subseteq> insert (?x\<lparr>cached_neighbor_idx := c, age := 0\<rparr>) (set (destination_cache n))" by (rule set_update_subset_insert)
    then show ?thesis using ok d that
      by (auto simp: looked_up_def tables_ok_def hops_def upd_dst_def map_update intro!: exI list_update_same_conv [THEN iffD2])
  qed
  show ?thesis
  proof (cases "next_hop_addr ?x = next_hop_address (neighbor_cache n ! ?k)")
    case True
    then have "?k = i" using nb k by (auto simp: neighbour_of_def)
    moreover have "nd6_get_next_hop_entry uninit out a s n = Inr (Inr ?k, s, upd_dst d (\<lambda>x. x\<lparr>age := 0\<rparr>) ?n)"
      using True k by (simp add: nd6_get_next_hop_entry_def eq Let_def)
    moreover have "upd_dst d (\<lambda>x. x\<lparr>age := 0\<rparr>) ?n = upd_dst d (\<lambda>x. x\<lparr>cached_neighbor_idx := cached_neighbor_idx ?x, age := 0\<rparr>) ?n"
      by (simp add: upd_dst_def)
    ultimately show ?thesis using lk [of "cached_neighbor_idx ?x"] ok i by (simp add: tables_ok_def)
  next
    case False
    have "nd6_find_neighbor_cache_entry (next_hop_addr ?x) ?n = Some i" using neighbour_of_find [OF nb] by (simp add: nd6_find_neighbor_cache_entry_def)
    then have "nd6_get_next_hop_entry uninit out a s n
        = Inr (Inr i, s, upd_dst d (\<lambda>x. x\<lparr>age := 0\<rparr>) (upd_dst d (\<lambda>x. x\<lparr>cached_neighbor_idx := of_nat i\<rparr>) ?n))"
      using False k d(1) i256 by (simp add: nd6_get_next_hop_entry_def eq Let_def upd_dst_def)
    moreover have "upd_dst d (\<lambda>x. x\<lparr>age := 0\<rparr>) (upd_dst d (\<lambda>x. x\<lparr>cached_neighbor_idx := of_nat i\<rparr>) ?n)
        = upd_dst d (\<lambda>x. x\<lparr>cached_neighbor_idx := of_nat i, age := 0\<rparr>) ?n"
      using d(1) by (simp add: upd_dst_def)
    ultimately show ?thesis using lk [of "of_nat i"] ok i i256 by (simp add: tables_ok_def)
  qed
qed

section \<open>Sending to a known neighbour\<close>

text \<open>The tables as the lookups see them.\<close>

definition same_tables :: "'n nd6 \<Rightarrow> 'n nd6 \<Rightarrow> bool" where
  "same_tables n n' \<longleftrightarrow> neighbor_cache n' = neighbor_cache n \<and> hops n' = hops n \<and> tables_ok n' \<and> nd_netif n' = nd_netif n
     \<and> nd6_queue_size n' = nd6_queue_size n \<and> reachable_time n' = reachable_time n"

lemma routes_to_cong: "hops n' = hops n \<Longrightarrow> map next_hop_address (neighbor_cache n') = map next_hop_address (neighbor_cache n) \<Longrightarrow>
    routes_to n' a i \<longleftrightarrow> routes_to n a i"
proof -
  assume h: "hops n' = hops n" and m: "map next_hop_address (neighbor_cache n') = map next_hop_address (neighbor_cache n)"
  have len: "length (neighbor_cache n') = length (neighbor_cache n)" using m by (metis length_map)
  have "next_hop_address (neighbor_cache n' ! j) = next_hop_address (neighbor_cache n ! j)" if "j < length (neighbor_cache n)" for j
    using m that len by (metis nth_map)
  then have "neighbour_of n' i x \<longleftrightarrow> neighbour_of n i x" for x by (auto simp: neighbour_of_def len)
  then show ?thesis by (simp add: routes_to_def h)
qed

definition usable :: "nd6_neighbor_cache_entry \<Rightarrow> bool" where
  "usable e \<longleftrightarrow> nbr_state e \<in> {ND6_REACHABLE, ND6_DELAY, ND6_PROBE} \<and> length (lladdr e) = 6"

lemma nd6_output_known:
  assumes ok: "tables_ok n" "routes_to n a i" "\<not> ip6_addr_ismulticast a" and e: "usable (neighbor_cache n ! i)"
    and b: "ip_packet 14 s b" and lo: "length (hwaddr (nd_netif n)) = 6" "link_sends sent lo"
  shows "\<exists>err b' s' n1 n2. nd6_output_ip6 uninit lo (nd_netif n) [b] a s n = Inr (err, [b'], s, n1)
    \<and> nd_pbuf_free [b'] s n1 = Inr (s', n2) \<and> heap_but (pbuf_addr b) s s' \<and> same_tables n n2
    \<and> (\<forall>p. p \<noteq> pbuf_ptr b \<longrightarrow> nd_pkts n2 p = nd_pkts n p)
    \<and> sent (nd_link n2) = sent (nd_link n) @ [eth_frame (lladdr (neighbor_cache n ! i)) (hwaddr (nd_netif n)) (chain_data [b])]"
proof -
  let ?n0 = "put_pkt [b] n"
  have eq0: "neighbor_cache ?n0 = neighbor_cache n" "hops ?n0 = hops n" "tables_ok ?n0"
    using ok(1) by (simp_all add: put_pkt_def hops_def tables_ok_def)
  have "routes_to ?n0 a i" using ok(2) routes_to_cong [of ?n0 n] eq0 by simp
  from nd6_next_hop_entry_known [OF eq0(3) this, of uninit "nd6_output_group lo" s] obtain n1 where
    n1: "nd6_get_next_hop_entry uninit (nd6_output_group lo) a s ?n0 = Inr (Inr i, s, n1)" "looked_up ?n0 n1" by blast
  then obtain dc c where n1': "n1 = n\<lparr>nd_pkts := (nd_pkts n)(pbuf_ptr b := [b]), nd6_cached_destination_index := c, destination_cache := dc\<rparr>"
    by (auto simp: looked_up_def put_pkt_def)
  have hp: "hops n1 = hops n" "tables_ok n1" using n1(2) eq0(2) by (simp_all add: looked_up_def)
  have nc: "neighbor_cache n1 = neighbor_cache n" "nd_pkts n1 (pbuf_ptr b) = [b]" using n1' by simp_all
  have st: "nbr_state (neighbor_cache n ! i) \<noteq> ND6_STALE" "nbr_state (neighbor_cache n ! i) \<in> {ND6_REACHABLE, ND6_DELAY, ND6_PROBE}"
    using e by (auto simp: usable_def)
  have "nd6_get_next_hop_addr_or_queue uninit (nd6_output_group lo) (pbuf_ptr b) a s ?n0 = Inr (ERR_OK, Some (lladdr (neighbor_cache n ! i)), s, n1)"
    using n1(1) st nc(1) by (simp add: nd6_get_next_hop_addr_or_queue_def Let_def)
  then have "nd6_next_hop uninit (nd6_output_group lo) (nd_netif n) [b] a s n = Inr (ERR_OK, Some (lladdr (neighbor_cache n ! i)), [b], s, n1)"
    using nc(2) by (simp add: nd6_next_hop_def)
  then have out: "nd6_output_ip6 uninit lo (nd_netif n) [b] a s n =
      ethernet_output (nd_linkoutput lo) (nd_netif n) [b] (hwaddr (nd_netif n)) (lladdr (neighbor_cache n ! i)) ETHTYPE_IPV6 s n1"
    using ok(3) by (simp add: nd6_output_ip6_def ethip6_output_def)
  have mac: "length (lladdr (neighbor_cache n ! i)) = 6" using e by (simp add: usable_def)
  from ethernet_output_waiting [OF b lo(1) mac lo(2), of n1] obtain err b' s' l' k where
    w: "ethernet_output (nd_linkoutput lo) (nd_netif n) [b] (hwaddr (nd_netif n)) (lladdr (neighbor_cache n ! i)) ETHTYPE_IPV6 s n1
        = Inr (err, [b'], s, n1\<lparr>nd_link := l'\<rparr>)"
      "nd_pbuf_free [b'] s (n1\<lparr>nd_link := l'\<rparr>) = Inr (s', n1\<lparr>nd_link := l', nd_pkts := (nd_pkts n1)(pbuf_ptr b := k)\<rparr>)"
      "heap_but (pbuf_addr b) s s'"
      "sent l' = sent (nd_link n1) @ [eth_frame (lladdr (neighbor_cache n ! i)) (hwaddr (nd_netif n)) (chain_data [b])]" by blast
  let ?n2 = "n1\<lparr>nd_link := l', nd_pkts := (nd_pkts n1)(pbuf_ptr b := k)\<rparr>"
  have "same_tables n ?n2" using hp by (simp add: same_tables_def hops_def tables_ok_def) (simp add: n1')
  moreover have "\<forall>p. p \<noteq> pbuf_ptr b \<longrightarrow> nd_pkts ?n2 p = nd_pkts n p" by (simp add: n1')
  moreover have "sent (nd_link ?n2) = sent (nd_link n) @ [eth_frame (lladdr (neighbor_cache n ! i)) (hwaddr (nd_netif n)) (chain_data [b])]"
    using w(4) by (simp add: n1')
  ultimately show ?thesis using w(1-3) unfolding out by blast
qed

section \<open>The queue of a neighbour\<close>

definition pkt_dest :: "pbuf \<Rightarrow> ip6_addr" where
  "pkt_dest b = hdr_dest (ip6_hdr_of_bytes (take IP6_HLEN (chain_data [b])))"

text \<open>A packet that waits in the queue of neighbour \<open>i\<close>: its element and its memory are allocated, its destination is known.\<close>

definition waits :: "(memp_t \<Rightarrow> memp_desc) \<Rightarrow> alloc_state \<Rightarrow> 'n nd6 \<Rightarrow> nat \<Rightarrow> nd6_q_entry \<Rightarrow> bool" where
  "waits pools s n i q \<longleftrightarrow>
     (\<exists>b. nd_pkts n (q_p q) = [b] \<and> pbuf_ptr b = q_p q \<and> ip_packet 14 s b \<and> IP6_HLEN \<le> unat (p_len b)
        \<and> \<not> ip6_addr_ismulticast (pkt_dest b) \<and> routes_to n (pkt_dest b) i)
     \<and> q_ptr q \<in> set (pool_elems (pools MEMP_ND6_QUEUE)) - free_elems (al_memp s) MEMP_ND6_QUEUE"

lemma ip_packet_read:
  assumes "ip_packet k s b" "IP6_HLEN \<le> unat (p_len b)"
  shows "mem_read (pbuf_mem b) (payload b) IP6_HLEN = Inr (take IP6_HLEN (chain_data [b]))"
  using assms by (simp add: ip_packet_def mem_read_def chain_data_def pbuf_bytes_def min_def)

lemma ip_packet_ptr: "ip_packet k s b \<Longrightarrow> ip_packet k' s' b' \<Longrightarrow> pbuf_ptr b = pbuf_ptr b' \<longleftrightarrow> pbuf_addr b = pbuf_addr b'"
  by (simp add: ip_packet_def pbuf_ptr_def pbuf_get_allocsrc_def)

lemma waits_after:
  assumes w: "waits pools s n i q'" and b: "ip_packet 14 s b" "q_p q' \<noteq> pbuf_ptr b" "q_ptr q' \<noteq> x"
    and hp: "heap_but (pbuf_addr b) s s1" "free_elems m = (free_elems (al_memp s))(MEMP_ND6_QUEUE := insert x (free_elems (al_memp s) MEMP_ND6_QUEUE))"
    and n: "hops n1 = hops n" "map next_hop_address (neighbor_cache n1) = map next_hop_address (neighbor_cache n)"
      "\<forall>p. p \<noteq> pbuf_ptr b \<longrightarrow> nd_pkts n1 p = nd_pkts n p"
  shows "waits pools (s1\<lparr>al_memp := m\<rparr>) n1 i q'" "nd_pkts n1 (q_p q') = nd_pkts n (q_p q')"
proof -
  show same: "nd_pkts n1 (q_p q') = nd_pkts n (q_p q')" using n(3) b(2) by blast
  from w obtain b' where b': "nd_pkts n (q_p q') = [b']" "pbuf_ptr b' = q_p q'" "ip_packet 14 s b'" "IP6_HLEN \<le> unat (p_len b')"
    "\<not> ip6_addr_ismulticast (pkt_dest b')" "routes_to n (pkt_dest b') i"
    "q_ptr q' \<in> set (pool_elems (pools MEMP_ND6_QUEUE)) - free_elems (al_memp s) MEMP_ND6_QUEUE"
    by (auto simp: waits_def)
  have "pbuf_addr b' \<noteq> pbuf_addr b" using b(1,2) b'(2,3) ip_packet_ptr by metis
  then have "ip_packet 14 (s1\<lparr>al_memp := m\<rparr>) b'" using b'(3) hp(1) by (simp add: ip_packet_def heap_but_def)
  moreover have "routes_to n1 (pkt_dest b') i" using routes_to_cong [OF n(1,2)] b'(6) by simp
  ultimately show "waits pools (s1\<lparr>al_memp := m\<rparr>) n1 i q'"
    using b' b(3) hp(2) same by (auto simp: waits_def)
qed

definition queue_ok :: "(memp_t \<Rightarrow> memp_desc) \<Rightarrow> alloc_state \<Rightarrow> 'n nd6 \<Rightarrow> nat \<Rightarrow> bool" where
  "queue_ok pools s n i \<longleftrightarrow> (let qs = nbr_q (neighbor_cache n ! i) in
     distinct (map q_p qs) \<and> distinct (map q_ptr qs) \<and> (\<forall>q \<in> set qs. waits pools s n i q))"

text \<open>The queue was sent: its frames went out in order, its elements are free again.\<close>

definition flushed :: "('l \<Rightarrow> bytes list) \<Rightarrow> (memp_t \<Rightarrow> memp_desc) \<Rightarrow> nat \<Rightarrow> alloc_state \<Rightarrow> 'l nd6 \<Rightarrow> alloc_state \<Rightarrow> 'l nd6 \<Rightarrow> bool" where
  "flushed sent pools i s n s' n' \<longleftrightarrow>
     (let e = neighbor_cache n ! i in
      neighbor_cache n' = (neighbor_cache n)[i := e\<lparr>nbr_q := []\<rparr>] \<and> hops n' = hops n \<and> tables_ok n' \<and> nd_netif n' = nd_netif n
      \<and> nd6_queue_size n' = nd6_queue_size n - of_nat (length (nbr_q e))
      \<and> sent (nd_link n') = sent (nd_link n) @ map (\<lambda>q. eth_frame (lladdr e) (hwaddr (nd_netif n)) (chain_data (nd_pkts n (q_p q)))) (nbr_q e)
      \<and> heap_ok (al_heap s') \<and> memp_ok pools (al_memp s') \<and> keeps_pools (al_memp s) (al_memp s')
      \<and> free_elems (al_memp s') MEMP_ND6_QUEUE = free_elems (al_memp s) MEMP_ND6_QUEUE \<union> q_ptr ` set (nbr_q e))"

lemma nd6_send_q_flush:
  assumes "tables_ok n" "i < LWIP_ND6_NUM_NEIGHBORS" "nbr_q (neighbor_cache n ! i) = qs" "usable (neighbor_cache n ! i)"
    "nbr_netif (neighbor_cache n ! i)" "queue_ok pools s n i" "heap_ok (al_heap s)" "memp_ok pools (al_memp s)"
    "length (hwaddr (nd_netif n)) = 6" "link_sends sent lo" "length qs < fuel"
  shows "\<exists>s' n'. nd6_send_q (nd6_output_ip6 uninit lo) fuel i s n = Inr (s', n') \<and> flushed sent pools i s n s' n'"
  using assms
proof (induction qs arbitrary: s n fuel)
  case Nil
  then obtain f where f: "fuel = Suc f" by (cases fuel) auto
  have e: "(neighbor_cache n)[i := (neighbor_cache n ! i)\<lparr>nbr_q := []\<rparr>] = neighbor_cache n"
    using Nil(3) by (metis (no_types, lifting) list_update_id nd6_neighbor_cache_entry.surjective nd6_neighbor_cache_entry.update_convs(4))
  show ?case using Nil by (simp add: f flushed_def Let_def e)
next
  case (Cons q qs)
  obtain f where f: "fuel = Suc f" "length qs < f" using Cons.prems(11) by (cases fuel) auto
  let ?e = "neighbor_cache n ! i"
  have il: "i < length (neighbor_cache n)" using Cons.prems(1,2) by (simp add: tables_ok_def)
  have qk: "q_p q \<notin> set (map q_p qs)" "q_ptr q \<notin> set (map q_ptr qs)" "distinct (map q_p qs)" "distinct (map q_ptr qs)"
    "\<forall>q' \<in> set (q # qs). waits pools s n i q'"
    using Cons.prems(3,6) by (auto simp: queue_ok_def)
  then obtain b where b: "nd_pkts n (q_p q) = [b]" "pbuf_ptr b = q_p q" "ip_packet 14 s b" "IP6_HLEN \<le> unat (p_len b)"
    "\<not> ip6_addr_ismulticast (pkt_dest b)" "routes_to n (pkt_dest b) i"
    and el: "q_ptr q \<in> set (pool_elems (pools MEMP_ND6_QUEUE))" "q_ptr q \<notin> free_elems (al_memp s) MEMP_ND6_QUEUE"
    by (auto simp: waits_def)
  define n0 where "n0 = upd_nbr i (\<lambda>e. e\<lparr>nbr_q := qs\<rparr>) n"
  have n0: "neighbor_cache n0 = (neighbor_cache n)[i := ?e\<lparr>nbr_q := qs\<rparr>]" "hops n0 = hops n" "nd_netif n0 = nd_netif n" "nd_pkts n0 = nd_pkts n"
    "nd_link n0 = nd_link n" "nd6_queue_size n0 = nd6_queue_size n" "tables_ok n0" "neighbor_cache n0 ! i = ?e\<lparr>nbr_q := qs\<rparr>"
    using Cons.prems(1) il by (simp_all add: n0_def upd_nbr_def hops_def tables_ok_def)
  have mp: "map next_hop_address (neighbor_cache n0) = map next_hop_address (neighbor_cache n)"
    using il by (simp add: n0(1) map_update list_update_same_conv)
  have rt: "routes_to n0 (pkt_dest b) i" using routes_to_cong [OF n0(2) mp] b(6) by simp
  have us: "usable (neighbor_cache n0 ! i)" using Cons.prems(4) by (simp add: n0(8) usable_def)
  have hw: "length (hwaddr (nd_netif n0)) = 6" using Cons.prems(9) n0(3) by simp
  from nd6_output_known [OF n0(7) rt b(5) us b(3) hw Cons.prems(10), of uninit] obtain err b' s1 n1 n2 where
    out: "nd6_output_ip6 uninit lo (nd_netif n0) [b] (pkt_dest b) s n0 = Inr (err, [b'], s, n1)" "nd_pbuf_free [b'] s n1 = Inr (s1, n2)"
    and aft: "heap_but (pbuf_addr b) s s1" "same_tables n0 n2" "\<forall>p. p \<noteq> pbuf_ptr b \<longrightarrow> nd_pkts n2 p = nd_pkts n0 p"
      "sent (nd_link n2) = sent (nd_link n0) @ [eth_frame (lladdr (neighbor_cache n0 ! i)) (hwaddr (nd_netif n0)) (chain_data [b])]"
    by blast
  have me: "al_memp s1 = al_memp s" using aft(1) by (simp add: heap_but_def)
  from pool.release_ok [of pools, OF Cons.prems(8) el] obtain m where
    m: "memp_free MEMP_ND6_QUEUE (q_ptr q) (al_memp s) = Inr m" "memp_ok pools m"
      "free_elems m = (free_elems (al_memp s))(MEMP_ND6_QUEUE := insert (q_ptr q) (free_elems (al_memp s) MEMP_ND6_QUEUE))" by blast
  define n3 where "n3 = n2\<lparr>nd6_queue_size := nd6_queue_size n2 - 1\<rparr>"
  define s3 where "s3 = s1\<lparr>al_memp := m\<rparr>"
  have n3: "neighbor_cache n3 = neighbor_cache n0" "hops n3 = hops n" "tables_ok n3" "nd_netif n3 = nd_netif n"
    "nd6_queue_size n3 = nd6_queue_size n - 1" "\<forall>p. p \<noteq> pbuf_ptr b \<longrightarrow> nd_pkts n3 p = nd_pkts n p" "neighbor_cache n3 ! i = ?e\<lparr>nbr_q := qs\<rparr>"
    using aft(2,3) n0 by (simp_all add: n3_def same_tables_def hops_def tables_ok_def)
  have wq: "waits pools s3 n3 i q'" "nd_pkts n3 (q_p q') = nd_pkts n (q_p q')" if "q' \<in> set qs" for q'
  proof -
    have "waits pools s n i q'" "q_p q' \<noteq> pbuf_ptr b" "q_ptr q' \<noteq> q_ptr q" using that qk(1,2,5) b(2) by (auto simp: image_iff)
    from waits_after [OF this(1) b(3) this(2,3) aft(1) m(3) n3(2) _ n3(6)]
    show "waits pools s3 n3 i q'" "nd_pkts n3 (q_p q') = nd_pkts n (q_p q')" unfolding s3_def using mp n3(1) by simp_all
  qed
  have pd: "hdr_dest (ip6_hdr_of_bytes (take IP6_HLEN (pbuf_bytes b))) = pkt_dest b" by (simp add: pkt_dest_def)
  have step: "nd6_send_q (nd6_output_ip6 uninit lo) fuel i s n = nd6_send_q (nd6_output_ip6 uninit lo) f i s3 n3"
    using Cons.prems(2,3,5) out m(1) b(1) ip_packet_read [OF b(3,4)] me
    by (simp add: f(1) n0_def [symmetric] n0(3) n3_def s3_def pd)
  have "\<exists>s' n'. nd6_send_q (nd6_output_ip6 uninit lo) f i s3 n3 = Inr (s', n') \<and> flushed sent pools i s3 n3 s' n'"
  proof (rule Cons.IH)
    show "tables_ok n3" "i < LWIP_ND6_NUM_NEIGHBORS" "link_sends sent lo" "length qs < f" using n3(3) Cons.prems(2,10) f(2) by simp_all
    show "nbr_q (neighbor_cache n3 ! i) = qs" "usable (neighbor_cache n3 ! i)" "nbr_netif (neighbor_cache n3 ! i)"
      using Cons.prems(4,5) by (simp_all add: n3(7) usable_def)
    show "queue_ok pools s3 n3 i" using wq(1) qk(3,4) by (simp add: queue_ok_def n3(7))
    show "heap_ok (al_heap s3)" "memp_ok pools (al_memp s3)" "length (hwaddr (nd_netif n3)) = 6"
      using aft(1) m(2) Cons.prems(9) n3(4) by (simp_all add: s3_def heap_but_def)
  qed
  then obtain s' n' where r: "nd6_send_q (nd6_output_ip6 uninit lo) f i s3 n3 = Inr (s', n')" "flushed sent pools i s3 n3 s' n'" by blast
  have "map (\<lambda>q. eth_frame (lladdr ?e) (hwaddr (nd_netif n)) (chain_data (nd_pkts n3 (q_p q)))) qs
      = map (\<lambda>q. eth_frame (lladdr ?e) (hwaddr (nd_netif n)) (chain_data (nd_pkts n (q_p q)))) qs"
    using wq(2) by simp
  moreover have "sent (nd_link n3) = sent (nd_link n) @ [eth_frame (lladdr ?e) (hwaddr (nd_netif n)) (chain_data [b])]"
    using aft(4) n0 by (simp add: n3_def)
  moreover have "keeps_pools (al_memp s) (al_memp s3)" using m(3) by (simp add: s3_def keeps_pools_def)
  ultimately have "flushed sent pools i s n s' n'"
    using r(2) m(3) n3 n0 b(1) Cons.prems(3) by (auto simp: flushed_def Let_def s3_def keeps_pools_def algebra_simps)
  then show ?case using r(1) step by metis
qed

section \<open>The answer of a neighbour\<close>

lemma pbuf_field:
  assumes "payload b + unat (p_len b) \<le> length (pbuf_mem b)"
  shows "k + m \<le> unat (p_len b) \<Longrightarrow> mem_read (pbuf_mem b) (payload b + k) m = Inr (take m (drop k (pbuf_bytes b)))"
    and "k < unat (p_len b) \<Longrightarrow> mem_get (pbuf_mem b) (payload b + k) = Inr (pbuf_bytes b ! k)"
  using assms by (simp_all add: mem_read_def mem_get_def pbuf_bytes_def drop_take add.commute min_def)

lemma queue_ok_upd:
  assumes "i < length (neighbor_cache n)" "nbr_q (f (neighbor_cache n ! i)) = nbr_q (neighbor_cache n ! i)"
    "next_hop_address (f (neighbor_cache n ! i)) = next_hop_address (neighbor_cache n ! i)"
  shows "queue_ok pools s (upd_nbr i f n) i \<longleftrightarrow> queue_ok pools s n i"
proof -
  have "map next_hop_address (neighbor_cache (upd_nbr i f n)) = map next_hop_address (neighbor_cache n)"
    using assms by (simp add: upd_nbr_def map_update list_update_same_conv)
  moreover have "hops (upd_nbr i f n) = hops n" by (simp add: upd_nbr_def hops_def)
  ultimately have "routes_to (upd_nbr i f n) a i \<longleftrightarrow> routes_to n a i" for a by (rule routes_to_cong [rotated])
  then have "waits pools s (upd_nbr i f n) i q \<longleftrightarrow> waits pools s n i q" for q by (simp add: waits_def) (simp add: upd_nbr_def)
  then show ?thesis using assms(1,2) by (simp add: queue_ok_def upd_nbr_def)
qed

text \<open>A neighbour advertisement with the address of its sender, \<open>ck\<close> being the checksum.\<close>

definition na_message :: "u8 \<Rightarrow> bytes \<Rightarrow> u8 \<Rightarrow> ip6_addr \<Rightarrow> bytes \<Rightarrow> bytes" where
  "na_message type ck flags target mac = [type, 0] @ ck @ [flags, 0, 0, 0] @ ip6_addr_bytes target @ [ND6_OPTION_TYPE_TARGET_LLADDR, 1] @ mac"

definition is_na :: "pbuf \<Rightarrow> u8 \<Rightarrow> ip6_addr \<Rightarrow> bytes \<Rightarrow> bool" where
  "is_na b flags target mac \<longleftrightarrow>
     length mac = 6 \<and> (\<exists>ck. length ck = 2 \<and> pbuf_bytes b = na_message ICMP6_TYPE_NA ck flags target mac)"

lemma is_na_fields:
  assumes na: "is_na b flags target mac" and mem: "payload b + unat (p_len b) \<le> length (pbuf_mem b)"
  obtains h where "mem_get (pbuf_mem b) (payload b) = Inr ICMP6_TYPE_NA" "mem_read (pbuf_mem b) (payload b) 24 = Inr h"
    "h ! 1 = 0" "h ! 4 = flags" "ip6_addr_of_bytes (drop 8 h) = target" "lladdr_opt_fits b 24 = Inr True" "unat (p_len b) = 32"
    "length (hwaddr (nd_netif n)) = 6 \<Longrightarrow> lladdr_opt_addr b 24 n = Inr mac"
proof -
  obtain ck where ck: "length ck = 2" "length mac = 6" "pbuf_bytes b = na_message ICMP6_TYPE_NA ck flags target mac"
    using na by (auto simp: is_na_def)
  then obtain c1 c2 where c: "ck = [c1, c2]" by (auto simp: length_Suc_conv numeral_2_eq_2)
  have len: "unat (p_len b) = 32" using ck length_pbuf_bytes [OF mem] by (simp add: na_message_def)
  let ?h = "take 24 (pbuf_bytes b)"
  have "lladdr_opt_fits b 24 = Inr True"
    using pbuf_field(2) [OF mem, of 25] len ck(3) by (simp add: lladdr_opt_fits_def na_message_def c nth_append add.commute)
  moreover have "length (hwaddr (nd_netif n)) = 6 \<Longrightarrow> lladdr_opt_addr b 24 n = Inr mac"
    using pbuf_field(1) [OF mem, of 26 6] len ck by (simp add: lladdr_opt_addr_def na_message_def c add.commute)
  moreover have "ip6_addr_of_bytes (drop 8 ?h) = target" using ck(3) by (simp add: na_message_def c drop_take)
  moreover have "mem_get (pbuf_mem b) (payload b) = Inr ICMP6_TYPE_NA"
    using pbuf_field(2) [OF mem, of 0] len ck(3) by (simp add: na_message_def)
  moreover have "?h ! 1 = 0" "?h ! 4 = flags" using ck(3) by (simp_all add: na_message_def c)
  moreover have "mem_read (pbuf_mem b) (payload b) 24 = Inr ?h" using pbuf_field(1) [OF mem, of 0 24] len by simp
  ultimately show thesis using that len by blast
qed

lemma set_lladdr_6: "length (lladdr e) = 6 \<Longrightarrow> length mac = 6 \<Longrightarrow> set_lladdr mac e = e\<lparr>lladdr := mac\<rparr>"
  by (simp add: set_lladdr_def put_bytes_def)

text \<open>The packet being received came from the link: its hop limit is still 255.\<close>

definition from_link :: "pbuf \<Rightarrow> ('cb, 'n) ip6_state \<Rightarrow> bool" where
  "from_link b st \<longleftrightarrow> current_hoplim b st = Inr ND6_HOPLIM"

lemma nd6_confirm_flush:
  assumes ok: "tables_ok n" "i < LWIP_ND6_NUM_NEIGHBORS" "length (lladdr (neighbor_cache n ! i)) = 6" "queue_ok pools (is_alloc st) n i"
    and lo: "length (hwaddr (nd_netif n)) = 6" "link_sends sent lo" and fuel: "length (nbr_q (neighbor_cache n ! i)) < fuel"
    and rx: "rx_packet pools (b # bs) (is_alloc st)" "mld_ok pools (is_mld st) (is_alloc st)" and n: "is_net st = n"
  defines "e \<equiv> (neighbor_cache n ! i)\<lparr>nbr_netif := True, nbr_state := ND6_REACHABLE, counter := reachable_time n\<rparr>"
  shows "\<exists>st'. nd6_confirm (nd6_output_ip6 uninit lo) fuel b bs i st = Inr st' \<and> st_freed pools (b # bs) st st'
    \<and> neighbor_cache (is_net st') = (neighbor_cache n)[i := e\<lparr>nbr_q := []\<rparr>]
    \<and> sent (nd_link (is_net st')) = sent (nd_link n)
        @ map (\<lambda>q. eth_frame (lladdr e) (hwaddr (nd_netif n)) (chain_data (nd_pkts n (q_p q)))) (nbr_q e)"
proof -
  let ?out = "nd6_output_ip6 uninit lo"
  have il: "i < length (neighbor_cache n)" using ok(1,2) by (simp add: tables_ok_def)
  define n1 where "n1 = upd_nbr i (\<lambda>x. x\<lparr>nbr_netif := True, nbr_state := ND6_REACHABLE, counter := reachable_time n\<rparr>) n"
  define st1 where "st1 = st\<lparr>is_net := n1\<rparr>"
  have n1: "neighbor_cache n1 = (neighbor_cache n)[i := e]" "neighbor_cache n1 ! i = e" "nd_link n1 = nd_link n" "nd_pkts n1 = nd_pkts n"
    "nd_netif n1 = nd_netif n" using il by (simp_all add: n1_def upd_nbr_def e_def)
  have ok1: "tables_ok n1" using ok(1) by (simp add: n1_def upd_nbr_def tables_ok_def)
  have us: "usable (neighbor_cache n1 ! i)" "nbr_netif (neighbor_cache n1 ! i)" using ok(3) unfolding n1(2) by (simp_all add: usable_def e_def)
  have q1: "queue_ok pools (is_alloc st) n1 i" unfolding n1_def using queue_ok_upd [OF il] ok(4) by simp
  have hp: "heap_ok (al_heap (is_alloc st))" "memp_ok pools (al_memp (is_alloc st))" using rx(1) by (simp_all add: rx_packet_def)
  have hw: "length (hwaddr (nd_netif n1)) = 6" using lo(1) n1(5) by simp
  have fl: "length (nbr_q (neighbor_cache n1 ! i)) < fuel" using fuel by (simp add: n1(2) e_def)
  from nd6_send_q_flush [OF ok1 ok(2) refl us q1 hp hw lo(2) fl, of uninit] obtain s' n' where
    sq: "nd6_send_q ?out fuel i (is_alloc st) n1 = Inr (s', n')" "flushed sent pools i (is_alloc st) n1 s' n'" by blast
  define st2 where "st2 = (if nbr_q e = [] then st1 else st\<lparr>is_alloc := s', is_net := n'\<rparr>)"
  have eq: "nd6_confirm ?out fuel b bs i st = drop_packet (b # bs) st2"
    using sq(1) n1(2) by (auto simp: nd6_confirm_def n n1_def [symmetric] st1_def [symmetric] st2_def on_nd_def Let_def) (simp_all add: st1_def)
  have ek: "(neighbor_cache n)[i := e\<lparr>nbr_q := []\<rparr>] = neighbor_cache n1" if "nbr_q e = []"
    unfolding n1(1) using that by (metis nd6_neighbor_cache_entry.surjective nd6_neighbor_cache_entry.update_convs(4))
  have nn: "neighbor_cache (is_net st2) = (neighbor_cache n)[i := e\<lparr>nbr_q := []\<rparr>]"
    "sent (nd_link (is_net st2)) = sent (nd_link n) @ map (\<lambda>q. eth_frame (lladdr e) (hwaddr (nd_netif n)) (chain_data (nd_pkts n (q_p q)))) (nbr_q e)"
    "keeps_pools (al_memp (is_alloc st)) (al_memp (is_alloc st2))" "heap_ok (al_heap (is_alloc st2))" "memp_ok pools (al_memp (is_alloc st2))"
    "is_mld st2 = is_mld st"
    using sq(2) hp n1 ek by (auto simp: st2_def st1_def flushed_def Let_def)
  have rx2: "rx_packet pools (b # bs) (is_alloc st2)" using rx_packet_keeps [OF rx(1) nn(4,5,3)] .
  have "mld_ok pools (is_mld st2) (is_alloc st2)" unfolding nn(6) by (rule mld_ok_keeps [OF rx(2) nn(4,5,3)])
  from drop_packet_rx [OF rx2 this] obtain s3 where d: "drop_packet (b # bs) st2 = Inr (st2\<lparr>is_alloc := s3\<rparr>)"
    "st_freed pools (b # bs) st2 (st2\<lparr>is_alloc := s3\<rparr>)" by blast
  have "st_freed pools (b # bs) st (st2\<lparr>is_alloc := s3\<rparr>)"
    using d(2) freed_keeps [OF nn(3)] by (simp add: st_freed_def)
  then show ?thesis using d(1) nn(1,2) unfolding eq by (intro exI [of _ "st2\<lparr>is_alloc := s3\<rparr>"]) simp
qed

end
