(* ===== verification/Nd6_Solicit.thy ===== *)
theory Nd6_Solicit
  imports Nd6_Resolve
begin

text \<open>
  Solicitations of neighbour discovery: the frames they become, the entry that is made for an unknown neighbour, and the
  ticks of the timer until the neighbour is given up.
\<close>

section \<open>Messages to a group\<close>

text \<open>A message was made in new memory; the blocks that were allocated before are untouched.\<close>

lemma nd6_message_made:
  assumes "heap_ok (al_heap s)" "fresh_ok uninit" "length (hwaddr nif) = 6" "length msg \<le> 1000"
  obtains "nd6_message uninit msg (Some (t, nif)) s = Inr ([], s)"
  | b s1 where "nd6_message uninit msg (Some (t, nif)) s = Inr ([b], s1)" "ip_packet 54 s1 b" "p_len b = tot_len b"
      "chain_data [b] = msg @ [t, 1] @ hwaddr nif" "al_memp s1 = al_memp s" "live (al_heap s) (pbuf_addr b) = None"
      "\<forall>x. x \<noteq> pbuf_addr b \<longrightarrow> live (al_heap s1) x = live (al_heap s) x"
proof -
  define k :: u16 where "k = of_nat (length msg + 8)"
  have uk: "unat k = length msg + 8" unfolding k_def by (subst unat_of_nat) (use assms(4) in simp)
  have ln: "8 * lladdr_opt_len nif = 8" using assms(3) by (simp add: lladdr_opt_len_def)
  have eq: "nd6_message uninit msg (Some (t, nif)) s =
      (case pbuf_alloc uninit PBUF_IP k PBUF_RAM s of
         Inl e \<Rightarrow> Inl e
       | Inr ([], s1) \<Rightarrow> Inr ([], s1)
       | Inr (b # bs, s1) \<Rightarrow>
           (case write_payload b 0 msg of
              Inl e \<Rightarrow> Inl e
            | Inr b1 \<Rightarrow> map_sum id (\<lambda>b2. (b2 # bs, s1)) (write_payload b1 (length msg) (lladdr_option_bytes t nif))))"
    unfolding nd6_message_def k_def option.case prod.case ln ..
  from pbuf_alloc_ram [OF assms(1), of uninit PBUF_IP k] show thesis
  proof (elim exE conjE disjE, goal_cases)
    case (1 c s')
    then show ?case using that(1) by (simp add: eq)
  next
    case (2 c s' a j)
    let ?b = "pbuf_init_alloced_pbuf a (uninit (ram_len PBUF_IP k)) (LWIP_MEM_ALIGN_SIZE (unat (layer_offset PBUF_IP))) k k PBUF_RAM 0"
    have ip: "ip_packet 54 s' ?b" "p_len ?b = k" "tot_len ?b = k" "pbuf_addr ?b = a"
      using 2(2,6) assms(2,4) aligned_u16(2) [of k] uk
      by (simp_all add: ip_packet_def pbuf_init_alloced_pbuf_def fresh_ok_def ram_len_def) (simp add: LWIP_MEM_ALIGN_SIZE_def)
    obtain b where b: "b = ?b" by blast
    have mem: "payload b + unat (p_len b) \<le> length (pbuf_mem b)" "length (pbuf_bytes b) = length msg + 8"
      using ip(1,2) uk length_pbuf_bytes [of b] by (simp_all add: b ip_packet_def)
    have le: "0 + length msg \<le> unat (p_len b)" using ip(2) uk by (simp add: b)
    note w1 = write_payload_bytes [OF mem(1) le]
    define b1 where "b1 = b\<lparr>pbuf_mem := put_bytes (pbuf_mem b) (payload b + 0) msg\<rparr>"
    have b1: "payload b1 + unat (p_len b1) \<le> length (pbuf_mem b1)" "pbuf_bytes b1 = put_bytes (pbuf_bytes b) 0 msg"
      using mem(1) w1(2,3) by (simp_all add: b1_def)
    have lo: "length (lladdr_option_bytes t nif) = 8" "lladdr_option_bytes t nif = [t, 1] @ hwaddr nif"
      using assms(3) by (simp_all add: lladdr_option_bytes_def lladdr_opt_len_def)
    have le1: "length msg + length (lladdr_option_bytes t nif) \<le> unat (p_len b1)" using ip(2) uk lo(1) by (simp add: b1_def b)
    note w2 = write_payload_bytes [OF b1(1) le1]
    define b2 where "b2 = b1\<lparr>pbuf_mem := put_bytes (pbuf_mem b1) (payload b1 + length msg) (lladdr_option_bytes t nif)\<rparr>"
    have "pbuf_bytes b2 = put_bytes (put_bytes (pbuf_bytes b) 0 msg) (length msg) (lladdr_option_bytes t nif)"
      using w2(2) b1(2) by (simp add: b2_def)
    then have data: "chain_data [b2] = msg @ [t, 1] @ hwaddr nif" using mem(2) lo by (simp add: put_bytes_def)
    have "pbuf_alloc uninit PBUF_IP k PBUF_RAM s = Inr ([b], s')" using 2(1,4) by (simp only: b)
    moreover have "write_payload b 0 msg = Inr b1" unfolding b1_def by (rule w1(1))
    moreover have "write_payload b1 (length msg) (lladdr_option_bytes t nif) = Inr b2" unfolding b2_def by (rule w2(1))
    ultimately have "nd6_message uninit msg (Some (t, nif)) s = Inr ([b2], s')" by (simp add: eq)
    moreover have "ip_packet 54 s' b2" using ip(1) w1(3) w2(3) by (simp add: ip_packet_def b2_def b1_def b)
    ultimately show ?case
      using that(2) [of b2 s'] data 2(3,5,6) ip by (simp add: b2_def b1_def b del: chain_data_simps)
  qed
qed

lemma nd6_xmit_group:
  assumes b: "ip_packet 54 s b" "chain_data [b] = x # y # 0 # 0 # rest" "p_len b = tot_len b"
    and nif: "length (hwaddr (nd_netif n)) = 6" "link_sends sent lo" and d: "ip6_addr_ismulticast dest" "src \<noteq> Some IP6_ADDR_ANY"
  defines "a \<equiv> (case src of None \<Rightarrow> IP6_ADDR_ANY | Some a \<Rightarrow> a)"
  shows "\<exists>err s' l' c ck. nd6_xmit (nd6_output_group lo) [b] src dest s n = Inr (err, s', n\<lparr>nd_link := l', nd_pkts := (nd_pkts n)(pbuf_ptr b := c)\<rparr>)
    \<and> heap_but (pbuf_addr b) s s'
    \<and> sent l' = sent (nd_link n) @ [eth_frame (multicast_mac dest) (hwaddr (nd_netif n))
          (ip6_packet 0 IP6_NEXTH_ICMP6 ND6_HOPLIM a dest (x # y # be16 ck @ rest))]"
proof -
  have okb: "chain_ok [b]" using b(1) by (simp add: ip_packet_def)
  have "4 \<le> unat (p_len b)" using length_chain_data [OF okb] b(2) by (simp del: chain_data_simps)
  from put_icmp6_chksum_spec [OF okb this b(2), of "p_len b" a dest] obtain b1 ck where
    b1: "put_icmp6_chksum [b] (p_len b) a dest = Inr [b1]" "chain_ok [b1]" "chain_data [b1] = x # y # be16 ck @ rest"
      "p_ref b1 = p_ref b" "pbuf_addr b1 = pbuf_addr b" "type_internal b1 = type_internal b" "payload b1 = payload b"
      "tot_len b1 = tot_len b" by (elim exE conjE)
  have ip1: "ip_packet 54 s b1" using b(1) b1 by (simp add: ip_packet_def)
  have r: "room_for 40 b1" "p_ref b1 = 1" using ip_packet_room [OF ip1] ip1 by (simp_all add: ip_packet_def)
  from ip6_output_if_src_sends [OF b1(2) r, where src = src and tc = 0 and nxt = IP6_NEXTH_ICMP6 and hl = ND6_HOPLIM and d = dest
      and out = "nd6_output_group lo" and netif = "nd_netif n" and s = s and n = n]
  obtain b2 where b2: "chain_ok [b2]" "p_ref b2 = 1" "pbuf_addr b2 = pbuf_addr b1" "type_internal b2 = type_internal b1"
      "payload b2 = payload b1 - 40" "unat (tot_len b2) = unat (tot_len b1) + 40"
      "chain_data [b2] = ip6_packet 0 IP6_NEXTH_ICMP6 ND6_HOPLIM a dest (chain_data [b1])"
    and eq: "ip6_output_if_src (nd6_output_group lo) [b1] src (Some dest) ND6_HOPLIM 0 IP6_NEXTH_ICMP6 (nd_netif n) s n
       = nd6_output_group lo (nd_netif n) [b2] dest s n" unfolding a_def by (elim exE conjE)
  have "ip_packet 14 s b2" using ip1 b2(1-6) by (auto simp: ip_packet_def)
  from ethernet_output_waiting [OF this nif(1) length_multicast_mac nif(2), of dest n] obtain err b' s' l' c where
    w: "ethernet_output (nd_linkoutput lo) (nd_netif n) [b2] (hwaddr (nd_netif n)) (multicast_mac dest) ETHTYPE_IPV6 s n = Inr (err, [b'], s, n\<lparr>nd_link := l'\<rparr>)"
      "nd_pbuf_free [b'] s (n\<lparr>nd_link := l'\<rparr>) = Inr (s', n\<lparr>nd_link := l', nd_pkts := (nd_pkts n)(pbuf_ptr b2 := c)\<rparr>)"
      "heap_but (pbuf_addr b2) s s'" "sent l' = sent (nd_link n) @ [eth_frame (multicast_mac dest) (hwaddr (nd_netif n)) (chain_data [b2])]" by blast
  have out: "ip6_output_if (nd6_output_group lo) [b1] src (Some dest) ND6_HOPLIM 0 IP6_NEXTH_ICMP6 (nd_netif n) s n = Inr (err, [b'], s, n\<lparr>nd_link := l'\<rparr>)"
    using d eq w(1) by (simp add: ip6_output_if_def nd6_output_group_def ethip6_output_def)
  have ptr: "pbuf_ptr b2 = pbuf_ptr b" "pbuf_addr b2 = pbuf_addr b" using b2(3,4) b1(5,6) by (simp_all add: pbuf_ptr_def pbuf_get_allocsrc_def)
  have "nd6_xmit (nd6_output_group lo) [b] src dest s n = Inr (err, s', n\<lparr>nd_link := l', nd_pkts := (nd_pkts n)(pbuf_ptr b := c)\<rparr>)"
    using b1(1) out w(2) ptr by (simp add: nd6_xmit_def a_def)
  moreover have "heap_but (pbuf_addr b) s s'" using w(3) ptr(2) by simp
  moreover have "sent l' = sent (nd_link n) @ [eth_frame (multicast_mac dest) (hwaddr (nd_netif n))
      (ip6_packet 0 IP6_NEXTH_ICMP6 ND6_HOPLIM a dest (x # y # be16 ck @ rest))]" unfolding w(4) b2(7) b1(3) ..
  ultimately show ?thesis by (intro exI conjI)
qed

text \<open>The solicitation for an address, as it goes to the link, \<open>ck\<close> being its checksum.\<close>

definition ns_frame :: "netif \<Rightarrow> ip6_addr \<Rightarrow> ip6_addr \<Rightarrow> u16 \<Rightarrow> bytes" where
  "ns_frame nif src target ck =
     eth_frame (multicast_mac (ip6_addr_solicitednode target)) (hwaddr nif)
       (ip6_packet 0 IP6_NEXTH_ICMP6 ND6_HOPLIM src (ip6_addr_solicitednode target)
          ([ICMP6_TYPE_NS, 0] @ be16 ck @ be32 0 @ ip6_addr_bytes target @ [ND6_OPTION_TYPE_SOURCE_LLADDR, 1] @ hwaddr nif))"

text \<open>A solicitation changes only the heap, the driver, and the store where new packets are.\<close>

definition heap_keeps :: "alloc_state \<Rightarrow> alloc_state \<Rightarrow> bool" where
  "heap_keeps s s' \<longleftrightarrow> heap_ok (al_heap s') \<and> al_memp s' = al_memp s
     \<and> (\<forall>x. live (al_heap s) x \<noteq> None \<longrightarrow> live (al_heap s') x = live (al_heap s) x)"

definition pkts_keep :: "alloc_state \<Rightarrow> (pbuf_ptr \<Rightarrow> chain) \<Rightarrow> (pbuf_ptr \<Rightarrow> chain) \<Rightarrow> bool" where
  "pkts_keep s P P' \<longleftrightarrow> (\<forall>t x. t \<noteq> 0 \<or> live (al_heap s) x \<noteq> None \<longrightarrow> P' (t, x) = P (t, x))"

text \<open>The frames of a solicitation: one, unless there is no source address or no memory for it.\<close>

definition solicits :: "(nat \<Rightarrow> bytes) \<Rightarrow> netif \<Rightarrow> ip6_addr \<Rightarrow> alloc_state \<Rightarrow> bytes list \<Rightarrow> bool" where
  "solicits uninit nif target s fs \<longleftrightarrow>
     (case ns_source nif target of
        None \<Rightarrow> fs = []
      | Some a \<Rightarrow>
          if nd6_message uninit (ns_header_bytes target) (Some (ND6_OPTION_TYPE_SOURCE_LLADDR, nif)) s = Inr ([], s) then fs = []
          else \<exists>ck. fs = [ns_frame nif a target ck])"

lemma nd6_send_ns_group:
  assumes s: "heap_ok (al_heap s)" "fresh_ok uninit" and nif: "length (hwaddr (nd_netif n)) = 6" "link_sends sent lo"
    and src: "ns_source (nd_netif n) target \<noteq> Some IP6_ADDR_ANY"
  shows "\<exists>s' l' P fs. nd6_send_ns uninit (nd6_output_group lo) target ND6_SEND_FLAG_MULTICAST_DEST s n
      = Inr (s', n\<lparr>nd_link := l', nd_pkts := P\<rparr>) \<and> heap_keeps s s' \<and> pkts_keep s (nd_pkts n) P \<and> sent l' = sent (nd_link n) @ fs
      \<and> solicits uninit (nd_netif n) target s fs"
proof (cases "ns_source (nd_netif n) target")
  case None
  then have "nd6_send_ns uninit (nd6_output_group lo) target ND6_SEND_FLAG_MULTICAST_DEST s n = Inr (s, n\<lparr>nd_link := nd_link n, nd_pkts := nd_pkts n\<rparr>)"
    by (simp add: nd6_send_ns_def ND6_SEND_FLAG_MULTICAST_DEST_def ND6_SEND_FLAG_ANY_SRC_def)
  then show ?thesis using None s(1) by (intro exI [of _ s] exI [of _ "nd_link n"] exI [of _ "nd_pkts n"] exI [of _ "[]"]) (simp add: heap_keeps_def pkts_keep_def solicits_def)
next
  case (Some a)
  let ?m = "nd6_message uninit (ns_header_bytes target) (Some (ND6_OPTION_TYPE_SOURCE_LLADDR, nd_netif n)) s"
  have eq: "nd6_send_ns uninit (nd6_output_group lo) target ND6_SEND_FLAG_MULTICAST_DEST s n =
      (case ?m of Inl e \<Rightarrow> Inl e | Inr ([], s1) \<Rightarrow> Inr (s1, n)
       | Inr (c, s1) \<Rightarrow> map_sum id snd (nd6_xmit (nd6_output_group lo) c (Some a) (ip6_addr_solicitednode target) s1 n))"
    using Some by (simp add: nd6_send_ns_def ND6_SEND_FLAG_MULTICAST_DEST_def ND6_SEND_FLAG_ANY_SRC_def)
  have hl: "length (ns_header_bytes target) \<le> 1000" by (simp add: ns_header_bytes_def)
  from nd6_message_made [OF s nif(1) hl, of ND6_OPTION_TYPE_SOURCE_LLADDR] show ?thesis
  proof (cases, goal_cases)
    case 1
    then have "nd6_send_ns uninit (nd6_output_group lo) target ND6_SEND_FLAG_MULTICAST_DEST s n = Inr (s, n\<lparr>nd_link := nd_link n, nd_pkts := nd_pkts n\<rparr>)"
      by (simp add: eq)
    then show ?case using Some s(1) 1
      by (intro exI [of _ s] exI [of _ "nd_link n"] exI [of _ "nd_pkts n"] exI [of _ "[]"]) (simp add: heap_keeps_def pkts_keep_def solicits_def)
  next
    case (2 b s1)
    have data: "chain_data [b] = ICMP6_TYPE_NS # 0 # 0 # 0 # be32 0 @ ip6_addr_bytes target @ [ND6_OPTION_TYPE_SOURCE_LLADDR, 1] @ hwaddr (nd_netif n)"
      unfolding 2(4) by (simp add: ns_header_bytes_def be16_def)
    have any: "Some a \<noteq> Some IP6_ADDR_ANY" using src Some by simp
    from nd6_xmit_group [OF 2(2) data 2(3) nif solicitednode_multicast any, of target] obtain err s' l' c ck where
      x: "nd6_xmit (nd6_output_group lo) [b] (Some a) (ip6_addr_solicitednode target) s1 n
          = Inr (err, s', n\<lparr>nd_link := l', nd_pkts := (nd_pkts n)(pbuf_ptr b := c)\<rparr>)" "heap_but (pbuf_addr b) s1 s'"
        "sent l' = sent (nd_link n) @ [ns_frame (nd_netif n) a target ck]"
      unfolding ns_frame_def append_Cons append_Nil option.case by (elim exE conjE)
    have "nd6_send_ns uninit (nd6_output_group lo) target ND6_SEND_FLAG_MULTICAST_DEST s n
        = Inr (s', n\<lparr>nd_link := l', nd_pkts := (nd_pkts n)(pbuf_ptr b := c)\<rparr>)"
      using 2(1) x(1) by (simp add: eq)
    moreover have "heap_keeps s s'" using x(2) 2(5-7) unfolding heap_but_def heap_keeps_def by (metis option.distinct(1))
    moreover have "pkts_keep s (nd_pkts n) ((nd_pkts n)(pbuf_ptr b := c))"
      using 2(2,6) by (auto simp: pkts_keep_def pbuf_ptr_def ip_packet_def pbuf_get_allocsrc_def)
    ultimately show ?case using x(3) Some 2(1) by (intro exI conjI) (auto simp: solicits_def)
  qed
qed

section \<open>The first packet for a neighbour\<close>

lemma fold_keeps: "P j \<Longrightarrow> (\<And>x j. x \<in> set xs \<Longrightarrow> P j \<Longrightarrow> P (f x j)) \<Longrightarrow> P (fold f xs j)"
  by (induction xs arbitrary: j) auto

lemma nd6_new_destination_bound: "tables_ok n \<Longrightarrow> nd6_new_destination_cache_entry n < length (destination_cache n)"
proof (cases "find_idx (\<lambda>d. destination_addr d = IP6_ADDR_ANY) (destination_cache n)")
  case None
  assume "tables_ok n"
  then show ?thesis unfolding nd6_new_destination_cache_entry_def None option.case Let_def
    by (intro fold_keeps [where P = "\<lambda>j. j < length (destination_cache n)"]) (auto simp: tables_ok_def LWIP_ND6_NUM_DESTINATIONS_def)
next
  case (Some i)
  then show ?thesis using find_idx_Some [OF Some] by (simp add: nd6_new_destination_cache_entry_def)
qed

definition on_link :: "'n nd6 \<Rightarrow> ip6_addr \<Rightarrow> bool" where
  "on_link n a \<longleftrightarrow> ip6_addr_islinklocal a \<or> nd6_is_prefix_in_netif a n"

lemma nd6_destination_new:
  assumes "tables_ok n" "a \<notin> fst ` set (hops n)" "on_link n a"
  shows "\<exists>d x. d < length (destination_cache n) \<and> cached_neighbor_idx x = cached_neighbor_idx (destination_cache n ! d)
    \<and> destination_addr x = a \<and> next_hop_addr x = a
    \<and> nd6_destination a n = Inr (Inr d, n\<lparr>nd6_cached_destination_index := d, destination_cache := (destination_cache n)[d := x]\<rparr>)"
proof -
  define d where "d = nd6_new_destination_cache_entry n"
  have d: "d < length (destination_cache n)" using nd6_new_destination_bound [OF assms(1)] by (simp add: d_def)
  have ne: "\<forall>x \<in> set (destination_cache n). a \<noteq> destination_addr x" using assms(2) by (auto simp: hops_def image_image)
  then have "nd6_find_destination_cache_entry a n = None" by (simp add: nd6_find_destination_cache_entry_def find_idx_None)
  moreover have "nd6_cached_destination_index n < length (destination_cache n)" using assms(1) by (simp add: tables_ok_def)
  ultimately have eq: "nd6_destination a n = Inr (Inr d, n\<lparr>nd6_cached_destination_index := d,
      destination_cache := (destination_cache n)[d := (destination_cache n ! d)\<lparr>destination_addr := a, pmtu := netif_mtu6 n, next_hop_addr := a\<rparr>]\<rparr>)"
    using assms(1,3) ne d
    by (auto simp: nd6_destination_def tables_ok_def on_link_def nd6_is_prefix_in_netif_def upd_dst_def Let_def d_def [symmetric])
  show ?thesis by (rule exI [of _ d], rule exI [of _ "(destination_cache n ! d)\<lparr>destination_addr := a, pmtu := netif_mtu6 n, next_hop_addr := a\<rparr>"])
    (simp add: d eq)
qed

lemma nd6_queue_packet_ram:
  assumes i: "i < LWIP_ND6_NUM_NEIGHBORS" "i < length (neighbor_cache n)" and b: "nd_pkts n p = [b]" "pbuf_ptr b = p" "p_ref b = 1" "type_internal b = 0x80"
    and q: "nd6_queue_size n < MEMP_NUM_ND6_QUEUE" "memp_ok pools (al_memp s)" "free_elems (al_memp s) MEMP_ND6_QUEUE \<noteq> {}"
  shows "\<exists>x m. nd6_queue_packet uninit i p s n = Inr (ERR_OK, s\<lparr>al_memp := m\<rparr>,
      upd_nbr i (\<lambda>e. e\<lparr>nbr_q := nbr_q e @ [\<lparr>q_ptr = x, q_p = p\<rparr>]\<rparr>)
        (n\<lparr>nd_pkts := (nd_pkts n)(p := [b\<lparr>p_ref := 2\<rparr>]), nd6_queue_size := nd6_queue_size n + 1\<rparr>))
    \<and> memp_ok pools m \<and> x \<in> free_elems (al_memp s) MEMP_ND6_QUEUE
    \<and> free_elems m = (free_elems (al_memp s))(MEMP_ND6_QUEUE := free_elems (al_memp s) MEMP_ND6_QUEUE - {x})"
proof -
  from pool.malloc_some [of pools, OF q(2,3)] obtain x m where
    m: "memp_malloc MEMP_ND6_QUEUE (al_memp s) = Inr (Some x, m)" "x \<in> free_elems (al_memp s) MEMP_ND6_QUEUE" "memp_ok pools m"
      "free_elems m = (free_elems (al_memp s))(MEMP_ND6_QUEUE := free_elems (al_memp s) MEMP_ND6_QUEUE - {x})" by blast
  have "pbuf_ptr (b\<lparr>p_ref := 2\<rparr>) = p" using b(2) by (simp add: pbuf_ptr_def pbuf_get_allocsrc_def)
  then have "nd6_queue_packet uninit i p s n = Inr (ERR_OK, s\<lparr>al_memp := m\<rparr>,
      upd_nbr i (\<lambda>e. e\<lparr>nbr_q := nbr_q e @ [\<lparr>q_ptr = x, q_p = p\<rparr>]\<rparr>)
        (n\<lparr>nd_pkts := (nd_pkts n)(p := [b\<lparr>p_ref := 2\<rparr>]), nd6_queue_size := nd6_queue_size n + 1\<rparr>))"
    using i(1) b q(1) m(1) by (simp add: nd6_queue_packet_def PBUF_NEEDS_COPY_def pbuf_ref_def put_pkt_def nd6_q_alloc_def nd6_q_malloc_def)
  then show ?thesis using m(2-4) by blast
qed

text \<open>
  The neighbour of an on-link destination that neither cache knows: entry \<open>i\<close>, the first empty one, becomes the
  entry of \<open>a\<close> and a solicitation is sent.
\<close>

definition unknown :: "'n nd6 \<Rightarrow> ip6_addr \<Rightarrow> nat \<Rightarrow> bool" where
  "unknown n a i \<longleftrightarrow> a \<notin> fst ` set (hops n) \<and> (\<forall>e \<in> set (neighbor_cache n). next_hop_address e \<noteq> a)
     \<and> find_idx (\<lambda>e. nbr_state e = ND6_NO_ENTRY) (neighbor_cache n) = Some i"

definition resolving :: "ip6_addr \<Rightarrow> nd6_neighbor_cache_entry \<Rightarrow> nd6_neighbor_cache_entry" where
  "resolving a e = e\<lparr>isrouter := False, next_hop_address := a, nbr_netif := True, nbr_state := ND6_INCOMPLETE, counter := 1\<rparr>"

text \<open>
  The second half of \<open>nd6_get_next_hop_entry\<close> for a next hop \<open>h\<close> that is not in the neighbour cache, when entry \<open>i\<close> is
  available after the change \<open>f\<close> of it.
\<close>

lemma nd6_next_hop_entry_resolve:
  assumes ok: "tables_ok n1" "i < length (neighbor_cache n1)" "\<forall>e \<in> set (neighbor_cache n1). next_hop_address e \<noteq> h"
    and d: "nd6_destination a n = Inr (Inr d, n1)" "d < length (destination_cache n1)" "next_hop_addr (destination_cache n1 ! d) = h"
    and new: "nd6_new_neighbor_cache_entry s n1 = Inr (Some i, s, upd_nbr i f n1)"
    and s: "heap_ok (al_heap s)" "fresh_ok uninit" and nif: "length (hwaddr (nd_netif n1)) = 6" "link_sends sent lo"
    and src: "ns_source (nd_netif n1) h \<noteq> Some IP6_ADDR_ANY"
  shows "\<exists>s' n' fs. nd6_get_next_hop_entry uninit (nd6_output_group lo) a s n = Inr (Inr i, s', n')
    \<and> neighbor_cache n' = (neighbor_cache n1)[i := resolving h (f (neighbor_cache n1 ! i))] \<and> tables_ok n' \<and> hops n' = hops n1
    \<and> nd_netif n' = nd_netif n1 \<and> nd6_queue_size n' = nd6_queue_size n1
    \<and> heap_keeps s s' \<and> pkts_keep s (nd_pkts n1) (nd_pkts n') \<and> sent (nd_link n') = sent (nd_link n1) @ fs \<and> solicits uninit (nd_netif n1) h s fs"
proof -
  define x where "x = destination_cache n1 ! d"
  define k where "k = unat (cached_neighbor_idx x)"
  have k: "k < length (neighbor_cache n1)" using ok(1) d(2) by (auto simp: tables_ok_def k_def x_def)
  have ka: "h \<noteq> next_hop_address (neighbor_cache n1 ! k)" using ok(3) k by (metis nth_mem)
  have nf: "nd6_find_neighbor_cache_entry h n1 = None" using ok(3) by (auto simp: nd6_find_neighbor_cache_entry_def find_idx_None)
  define n2 where "n2 = upd_dst d (\<lambda>x. x\<lparr>cached_neighbor_idx := of_nat i\<rparr>) (upd_nbr i f n1)"
  define n3 where "n3 = upd_nbr i (resolving h) n2"
  have n3: "neighbor_cache n3 = (neighbor_cache n1)[i := resolving h (f (neighbor_cache n1 ! i))]" "nd_netif n3 = nd_netif n1" "nd_link n3 = nd_link n1" "nd_pkts n3 = nd_pkts n1"
    "nd6_queue_size n3 = nd6_queue_size n1" "destination_cache n3 = (destination_cache n1)[d := x\<lparr>cached_neighbor_idx := of_nat i\<rparr>]"
    "nd6_cached_destination_index n3 = nd6_cached_destination_index n1"
    using ok(2) by (simp_all add: n3_def n2_def upd_nbr_def upd_dst_def x_def)
  have e3: "neighbor_cache n3 ! i = resolving h (f (neighbor_cache n1 ! i))" using n3(1) ok(2) by simp
  have nif3: "length (hwaddr (nd_netif n3)) = 6" "ns_source (nd_netif n3) h \<noteq> Some IP6_ADDR_ANY" using nif(1) src n3(2) by simp_all
  from nd6_send_ns_group [OF s nif3(1) nif(2) nif3(2)] obtain s' l' P fs where
    ns: "nd6_send_ns uninit (nd6_output_group lo) h ND6_SEND_FLAG_MULTICAST_DEST s n3 = Inr (s', n3\<lparr>nd_link := l', nd_pkts := P\<rparr>)"
      "heap_keeps s s'" "pkts_keep s (nd_pkts n3) P" "sent l' = sent (nd_link n3) @ fs" "solicits uninit (nd_netif n3) h s fs" by blast
  have inc: "nd6_incomplete uninit (nd6_output_group lo) i (\<lambda>e. e\<lparr>isrouter := False\<rparr>) h s n2 = Inr (s', n3\<lparr>nd_link := l', nd_pkts := P\<rparr>)"
  proof -
    have u: "upd_nbr i (\<lambda>e. e\<lparr>isrouter := False, next_hop_address := h, nbr_netif := True, nbr_state := ND6_INCOMPLETE, counter := 1\<rparr>) n2 = n3"
      by (simp add: n3_def upd_nbr_def resolving_def)
    have r: "nbr_netif (neighbor_cache n3 ! i)" "next_hop_address (neighbor_cache n3 ! i) = h" by (simp_all add: e3 resolving_def)
    show ?thesis unfolding nd6_incomplete_def nd6_send_neighbor_cache_probe_def u Let_def r(2) using r(1) ns(1) by simp
  qed
  define n4 where "n4 = upd_dst d (\<lambda>x. x\<lparr>age := 0\<rparr>) (n3\<lparr>nd_link := l', nd_pkts := P\<rparr>)"
  have i256: "unat (of_nat i :: u8) = i" using ok(1,2) by (simp add: tables_ok_def LWIP_ND6_NUM_NEIGHBORS_def unat_of_nat)
  have "unat (cached_neighbor_idx (destination_cache n3 ! d)) = i" using d(2) i256 by (simp add: n3(6))
  then have entry: "nd6_get_next_hop_entry uninit (nd6_output_group lo) a s n = Inr (Inr i, s', n4)"
    using k ka nf new inc d by (simp add: nd6_get_next_hop_entry_def Let_def x_def [symmetric] k_def [symmetric] n2_def [symmetric] n4_def)
  let ?x = "x\<lparr>cached_neighbor_idx := of_nat i, age := 0\<rparr>"
  have n4: "destination_cache n4 = (destination_cache n1)[d := ?x]" "neighbor_cache n4 = neighbor_cache n3"
    "nd6_cached_destination_index n4 = nd6_cached_destination_index n1"
    "nd_netif n4 = nd_netif n1" "nd_link n4 = l'" "nd_pkts n4 = P" "nd6_queue_size n4 = nd6_queue_size n1"
    using d(2) n3 by (simp_all add: n4_def upd_dst_def)
  have "set (destination_cache n4) \<subseteq> insert ?x (set (destination_cache n1))" unfolding n4(1) by (rule set_update_subset_insert)
  then have "tables_ok n4" using ok(1,2) d(2) i256 n4 n3(1) by (auto simp: tables_ok_def)
  moreover have "hops n4 = hops n1" using d(2) by (simp add: hops_def n4(1) map_update list_update_same_conv x_def)
  ultimately show ?thesis using entry n3 n4 ns
    by (intro exI [of _ s'] exI [of _ n4] exI [of _ fs]) simp
qed

lemma nd6_next_hop_entry_new:
  assumes ok: "tables_ok n" "unknown n a i" "on_link n a"
    and s: "heap_ok (al_heap s)" "fresh_ok uninit" and nif: "length (hwaddr (nd_netif n)) = 6" "link_sends sent lo"
    and src: "ns_source (nd_netif n) a \<noteq> Some IP6_ADDR_ANY"
  shows "\<exists>s' n' d fs. nd6_get_next_hop_entry uninit (nd6_output_group lo) a s n = Inr (Inr i, s', n')
    \<and> neighbor_cache n' = (neighbor_cache n)[i := resolving a (neighbor_cache n ! i)] \<and> tables_ok n' \<and> hops n' = (hops n)[d := (a, a)]
    \<and> d < length (hops n) \<and> nd_netif n' = nd_netif n \<and> nd6_queue_size n' = nd6_queue_size n
    \<and> heap_keeps s s' \<and> pkts_keep s (nd_pkts n) (nd_pkts n') \<and> sent (nd_link n') = sent (nd_link n) @ fs \<and> solicits uninit (nd_netif n) a s fs"
proof -
  have un: "a \<notin> fst ` set (hops n)" "\<forall>e \<in> set (neighbor_cache n). next_hop_address e \<noteq> a"
    and i: "find_idx (\<lambda>e. nbr_state e = ND6_NO_ENTRY) (neighbor_cache n) = Some i" using ok(2) by (simp_all add: unknown_def)
  from nd6_destination_new [OF ok(1) un(1) ok(3)] obtain d x where
    d: "d < length (destination_cache n)" "cached_neighbor_idx x = cached_neighbor_idx (destination_cache n ! d)" "destination_addr x = a" "next_hop_addr x = a"
      "nd6_destination a n = Inr (Inr d, n\<lparr>nd6_cached_destination_index := d, destination_cache := (destination_cache n)[d := x]\<rparr>)" by blast
  define n1 where "n1 = n\<lparr>nd6_cached_destination_index := d, destination_cache := (destination_cache n)[d := x]\<rparr>"
  have "set (destination_cache n1) \<subseteq> insert x (set (destination_cache n))" unfolding n1_def by (simp add: set_update_subset_insert)
  then have t1: "tables_ok n1" using ok(1) d(1,2) by (auto simp: tables_ok_def n1_def)
  have hp: "hops n1 = (hops n)[d := (a, a)]" using d(3,4) by (simp add: hops_def n1_def map_update)
  have eq: "nd6_destination a n = Inr (Inr d, n1)" "next_hop_addr (destination_cache n1 ! d) = a" "d < length (destination_cache n1)"
    using d by (simp_all add: n1_def)
  have new: "nd6_new_neighbor_cache_entry s n1 = Inr (Some i, s, upd_nbr i (\<lambda>e. e) n1)"
    using i by (simp add: nd6_new_neighbor_cache_entry_def n1_def upd_nbr_def)
  have n1: "neighbor_cache n1 = neighbor_cache n" "nd_netif n1 = nd_netif n" "nd_link n1 = nd_link n" "nd_pkts n1 = nd_pkts n" "nd6_queue_size n1 = nd6_queue_size n"
    by (simp_all add: n1_def)
  have "i < length (neighbor_cache n1)" using find_idx_Some [OF i] n1(1) by simp
  from nd6_next_hop_entry_resolve [OF t1 this un(2) [folded n1(1)] eq(1,3,2) new s nif(1) [folded n1(2)] nif(2) src [folded n1(2)]]
  show ?thesis using hp d(1) unfolding n1 by (force simp: hops_def)
qed

lemma routes_to_new:
  assumes "hops n' = (hops n)[d := (a, a)]" "d < length (hops n)" "a \<notin> fst ` set (hops n)" "neighbour_of n' i a"
  shows "routes_to n' a i"
proof -
  have "set (hops n') \<subseteq> insert (a, a) (set (hops n))" unfolding assms(1) by (rule set_update_subset_insert)
  moreover have "(a, a) \<in> set (hops n')" unfolding assms(1) using assms(2) by (rule set_update_memI)
  ultimately show ?thesis using assms(3,4) by (force simp: routes_to_def)
qed

lemma neighbour_of_new:
  assumes "neighbor_cache n' = (neighbor_cache n)[i := e]" "i < length (neighbor_cache n)" "next_hop_address e = a"
    "\<forall>e \<in> set (neighbor_cache n). next_hop_address e \<noteq> a"
  shows "neighbour_of n' i a"
  using assms by (auto simp: neighbour_of_def nth_list_update split: if_splits)

section \<open>A neighbour that does not answer\<close>

lemma nd6_send_ns_agree:
  assumes "group_agree out out'"
  shows "nd6_send_ns uninit out a ND6_SEND_FLAG_MULTICAST_DEST s n = nd6_send_ns uninit out' a ND6_SEND_FLAG_MULTICAST_DEST s n"
proof -
  have flag: "((1::u8) AND 1 \<noteq> 0) = True" by simp
  have eq: "nd6_xmit out c src (ip6_addr_solicitednode a) s n = nd6_xmit out' c src (ip6_addr_solicitednode a) s n" for c src a s n
    by (rule nd6_xmit_agree [OF assms]) simp
  show ?thesis unfolding nd6_send_ns_def ND6_SEND_FLAG_MULTICAST_DEST_def flag if_True eq ..
qed

lemma output_group_agree: "group_agree (nd6_output_ip6 uninit lo) (nd6_output_group lo)"
  by (simp add: group_agree_def nd6_output_group_def nd6_output_ip6_def ethip6_output_def)

lemma waits_keeps:
  assumes "waits pools s n i q" "heap_keeps s s'" "pkts_keep s (nd_pkts n) (nd_pkts n')" "hops n' = hops n"
    "map next_hop_address (neighbor_cache n') = map next_hop_address (neighbor_cache n)"
  shows "waits pools s' n' i q" "nd_pkts n' (q_p q) = nd_pkts n (q_p q)"
proof -
  from assms(1) obtain b where b: "nd_pkts n (q_p q) = [b]" "pbuf_ptr b = q_p q" "ip_packet 14 s b" "IP6_HLEN \<le> unat (p_len b)"
    "\<not> ip6_addr_ismulticast (pkt_dest b)" "routes_to n (pkt_dest b) i"
    and el: "q_ptr q \<in> set (pool_elems (pools MEMP_ND6_QUEUE)) - free_elems (al_memp s) MEMP_ND6_QUEUE" by (auto simp: waits_def)
  have lv: "live (al_heap s) (pbuf_addr b) \<noteq> None" using b(3) by (simp add: ip_packet_def)
  then show pk: "nd_pkts n' (q_p q) = nd_pkts n (q_p q)" using assms(3) b(2) by (simp add: pkts_keep_def pbuf_ptr_def flip: b(2))
  have "ip_packet 14 s' b" using b(3) lv assms(2) by (simp add: ip_packet_def heap_keeps_def)
  then show "waits pools s' n' i q" using b el assms(2) pk routes_to_cong [OF assms(4,5)] by (auto simp: waits_def heap_keeps_def)
qed

text \<open>One tick of an entry that is being resolved: another solicitation.\<close>

lemma nd6_tmr_solicits:
  assumes ok: "tables_ok n" "i < LWIP_ND6_NUM_NEIGHBORS" "nbr_state (neighbor_cache n ! i) = ND6_INCOMPLETE"
      "counter (neighbor_cache n ! i) < 3" "nbr_netif (neighbor_cache n ! i)" "queue_ok pools s n i"
    and s: "heap_ok (al_heap s)" "fresh_ok uninit" and nif: "length (hwaddr (nd_netif n)) = 6" "link_sends sent lo"
    and src: "ns_source (nd_netif n) (next_hop_address (neighbor_cache n ! i)) \<noteq> Some IP6_ADDR_ANY"
  defines "e \<equiv> (neighbor_cache n ! i)\<lparr>counter := counter (neighbor_cache n ! i) + 1\<rparr>"
  shows "\<exists>s' n' fs. nd6_tmr_neighbor uninit (nd6_output_ip6 uninit lo) fuel i (s, n) = Inr (s', n')
    \<and> neighbor_cache n' = (neighbor_cache n)[i := e] \<and> tables_ok n' \<and> nd_netif n' = nd_netif n \<and> nd6_queue_size n' = nd6_queue_size n
    \<and> queue_ok pools s' n' i \<and> heap_keeps s s' \<and> sent (nd_link n') = sent (nd_link n) @ fs
    \<and> (\<forall>q \<in> set (nbr_q e). nd_pkts n' (q_p q) = nd_pkts n (q_p q))
    \<and> solicits uninit (nd_netif n) (next_hop_address e) s fs"
proof -
  have il: "i < length (neighbor_cache n)" using ok(1,2) by (simp add: tables_ok_def)
  define n1 where "n1 = upd_nbr i (\<lambda>e. e\<lparr>counter := counter e + 1\<rparr>) n"
  have n1: "neighbor_cache n1 = (neighbor_cache n)[i := e]" "neighbor_cache n1 ! i = e" "nd_netif n1 = nd_netif n" "nd_link n1 = nd_link n" "nd_pkts n1 = nd_pkts n"
    "nd6_queue_size n1 = nd6_queue_size n" "tables_ok n1" "hops n1 = hops n"
    using il ok(1) by (simp_all add: n1_def upd_nbr_def e_def tables_ok_def hops_def)
  have q1: "queue_ok pools s n1 i" unfolding n1_def using queue_ok_upd [OF il] ok(6) by simp
  have src1: "ns_source (nd_netif n1) (next_hop_address e) \<noteq> Some IP6_ADDR_ANY" "length (hwaddr (nd_netif n1)) = 6" using src nif(1) n1(3) by (simp_all add: e_def)
  from nd6_send_ns_group [OF s src1(2) nif(2) src1(1)] obtain s' l' P fs where
    ns: "nd6_send_ns uninit (nd6_output_group lo) (next_hop_address e) ND6_SEND_FLAG_MULTICAST_DEST s n1 = Inr (s', n1\<lparr>nd_link := l', nd_pkts := P\<rparr>)"
      "heap_keeps s s'" "pkts_keep s (nd_pkts n1) P" "sent l' = sent (nd_link n1) @ fs" "solicits uninit (nd_netif n1) (next_hop_address e) s fs" by blast
  define n2 where "n2 = n1\<lparr>nd_link := l', nd_pkts := P\<rparr>"
  have c3: "\<not> (of_nat LWIP_ND6_MAX_MULTICAST_SOLICIT \<le> counter (neighbor_cache n ! i))" using ok(4) by (simp add: LWIP_ND6_MAX_MULTICAST_SOLICIT_def)
  have "nd6_tmr_neighbor uninit (nd6_output_ip6 uninit lo) fuel i (s, n) = Inr (s', n2)"
    using ok(3,5) c3 ns(1) n1(2)
    by (simp add: nd6_tmr_neighbor_def nd6_tmr_probe_def nd6_send_neighbor_cache_probe_def n1_def [symmetric] nd6_send_ns_agree [OF output_group_agree] n2_def)
       (simp add: e_def)
  moreover have wq: "waits pools s' n2 i q" "nd_pkts n2 (q_p q) = nd_pkts n (q_p q)" if "q \<in> set (nbr_q e)" for q
  proof -
    have w: "waits pools s n1 i q" using q1 that n1(2) by (simp add: queue_ok_def Let_def)
    show "waits pools s' n2 i q" "nd_pkts n2 (q_p q) = nd_pkts n (q_p q)"
      using waits_keeps [OF w ns(2), of n2] ns(3) n1(5) by (simp_all add: n2_def hops_def)
  qed
  moreover have "queue_ok pools s' n2 i" using q1 wq(1) n1(2) by (simp add: queue_ok_def Let_def n2_def)
  ultimately show ?thesis using n1 ns(2,4,5)
    by (intro exI [of _ s'] exI [of _ n2] exI [of _ fs]) (simp add: n2_def tables_ok_def)
qed

text \<open>The packets of a queue and its elements are released.\<close>

lemma nd6_free_q_waits:
  assumes "\<forall>q \<in> set qs. waits pools s n i q" "distinct (map q_p qs)" "distinct (map q_ptr qs)" "heap_ok (al_heap s)" "memp_ok pools (al_memp s)"
  shows "\<exists>s' P. nd6_free_q qs s n = Inr (s', n\<lparr>nd_pkts := P, nd6_queue_size := nd6_queue_size n - of_nat (length qs)\<rparr>)
    \<and> heap_ok (al_heap s') \<and> memp_ok pools (al_memp s') \<and> keeps_pools (al_memp s) (al_memp s')
    \<and> free_elems (al_memp s') MEMP_ND6_QUEUE = free_elems (al_memp s) MEMP_ND6_QUEUE \<union> q_ptr ` set qs"
  using assms
proof (induction qs arbitrary: s n)
  case Nil
  then show ?case by (intro exI [of _ s] exI [of _ "nd_pkts n"]) simp
next
  case (Cons q qs)
  from Cons.prems(1) obtain b where b: "nd_pkts n (q_p q) = [b]" "pbuf_ptr b = q_p q" "ip_packet 14 s b"
    and el: "q_ptr q \<in> set (pool_elems (pools MEMP_ND6_QUEUE))" "q_ptr q \<notin> free_elems (al_memp s) MEMP_ND6_QUEUE" by (auto simp: waits_def)
  from nd_pbuf_free_ram [of s b n] b(3) obtain s1 c where
    f: "nd_pbuf_free [b] s n = Inr (s1, n\<lparr>nd_pkts := (nd_pkts n)(pbuf_ptr b := c)\<rparr>)" "heap_but (pbuf_addr b) s s1" by (auto simp: ip_packet_def)
  have me: "al_memp s1 = al_memp s" using f(2) by (simp add: heap_but_def)
  from pool.release_ok [of pools, OF Cons.prems(5) el] obtain m where
    m: "memp_free MEMP_ND6_QUEUE (q_ptr q) (al_memp s) = Inr m" "memp_ok pools m"
      "free_elems m = (free_elems (al_memp s))(MEMP_ND6_QUEUE := insert (q_ptr q) (free_elems (al_memp s) MEMP_ND6_QUEUE))" by blast
  define n1 where "n1 = n\<lparr>nd_pkts := (nd_pkts n)(pbuf_ptr b := c), nd6_queue_size := nd6_queue_size n - 1\<rparr>"
  define s2 where "s2 = s1\<lparr>al_memp := m\<rparr>"
  have step: "nd6_free_q (q # qs) s n = nd6_free_q qs s2 n1" using b(1) f(1) m(1) me by (simp add: n1_def s2_def)
  have "waits pools s2 n1 i q'" if "q' \<in> set qs" for q'
  proof -
    have "waits pools s n i q'" "q_p q' \<noteq> pbuf_ptr b" "q_ptr q' \<noteq> q_ptr q" using that Cons.prems(1-3) b(2) by (auto simp: image_iff)
    from waits_after(1) [OF this(1) b(3) this(2,3) f(2) m(3), of n1] show ?thesis by (simp add: s2_def n1_def hops_def)
  qed
  then have "\<exists>s' P. nd6_free_q qs s2 n1 = Inr (s', n1\<lparr>nd_pkts := P, nd6_queue_size := nd6_queue_size n1 - of_nat (length qs)\<rparr>)
    \<and> heap_ok (al_heap s') \<and> memp_ok pools (al_memp s') \<and> keeps_pools (al_memp s2) (al_memp s')
    \<and> free_elems (al_memp s') MEMP_ND6_QUEUE = free_elems (al_memp s2) MEMP_ND6_QUEUE \<union> q_ptr ` set qs"
    using Cons.prems(2,3) f(2) m(2) by (intro Cons.IH) (auto simp: s2_def heap_but_def)
  then obtain s' P where r: "nd6_free_q qs s2 n1 = Inr (s', n1\<lparr>nd_pkts := P, nd6_queue_size := nd6_queue_size n1 - of_nat (length qs)\<rparr>)"
    "heap_ok (al_heap s')" "memp_ok pools (al_memp s')" "keeps_pools (al_memp s2) (al_memp s')"
    "free_elems (al_memp s') MEMP_ND6_QUEUE = free_elems (al_memp s2) MEMP_ND6_QUEUE \<union> q_ptr ` set qs" by blast
  have "keeps_pools (al_memp s) (al_memp s')" using r(4) m(3) by (simp add: keeps_pools_def s2_def)
  moreover have "free_elems (al_memp s2) MEMP_ND6_QUEUE = insert (q_ptr q) (free_elems (al_memp s) MEMP_ND6_QUEUE)" using m(3) by (simp add: s2_def)
  moreover have "n1\<lparr>nd_pkts := P, nd6_queue_size := nd6_queue_size n1 - of_nat (length qs)\<rparr>
      = n\<lparr>nd_pkts := P, nd6_queue_size := nd6_queue_size n - of_nat (length (q # qs))\<rparr>" by (simp add: n1_def algebra_simps)
  ultimately show ?case using r step by (intro exI [of _ s'] exI [of _ P]) auto
qed

definition no_entry :: "nd6_neighbor_cache_entry \<Rightarrow> nd6_neighbor_cache_entry" where
  "no_entry e = e\<lparr>nbr_q := [], nbr_state := ND6_NO_ENTRY, isrouter := False, nbr_netif := False, counter := 0, next_hop_address := IP6_ADDR_ANY\<rparr>"

lemma nd6_tmr_gives_up:
  assumes ok: "tables_ok n" "i < LWIP_ND6_NUM_NEIGHBORS" "nbr_state (neighbor_cache n ! i) = ND6_INCOMPLETE"
      "3 \<le> counter (neighbor_cache n ! i)" "\<not> isrouter (neighbor_cache n ! i)" "queue_ok pools s n i"
    and s: "heap_ok (al_heap s)" "memp_ok pools (al_memp s)"
  shows "\<exists>s' n'. nd6_tmr_neighbor uninit out fuel i (s, n) = Inr (s', n')
    \<and> neighbor_cache n' = (neighbor_cache n)[i := no_entry (neighbor_cache n ! i)] \<and> nd_link n' = nd_link n
    \<and> nd6_queue_size n' = nd6_queue_size n - of_nat (length (nbr_q (neighbor_cache n ! i)))
    \<and> heap_ok (al_heap s') \<and> memp_ok pools (al_memp s') \<and> keeps_pools (al_memp s) (al_memp s')
    \<and> free_elems (al_memp s') MEMP_ND6_QUEUE = free_elems (al_memp s) MEMP_ND6_QUEUE \<union> q_ptr ` set (nbr_q (neighbor_cache n ! i))"
proof -
  let ?qs = "nbr_q (neighbor_cache n ! i)"
  have q: "\<forall>q \<in> set ?qs. waits pools s n i q" "distinct (map q_p ?qs)" "distinct (map q_ptr ?qs)" using ok(6) by (simp_all add: queue_ok_def Let_def)
  from nd6_free_q_waits [OF q s] obtain s' P where
    f: "nd6_free_q ?qs s n = Inr (s', n\<lparr>nd_pkts := P, nd6_queue_size := nd6_queue_size n - of_nat (length ?qs)\<rparr>)"
      "heap_ok (al_heap s')" "memp_ok pools (al_memp s')" "keeps_pools (al_memp s) (al_memp s')"
      "free_elems (al_memp s') MEMP_ND6_QUEUE = free_elems (al_memp s) MEMP_ND6_QUEUE \<union> q_ptr ` set ?qs" by blast
  have "of_nat LWIP_ND6_MAX_MULTICAST_SOLICIT \<le> counter (neighbor_cache n ! i)" using ok(4) by (simp add: LWIP_ND6_MAX_MULTICAST_SOLICIT_def)
  then have "nd6_tmr_neighbor uninit out fuel i (s, n)
      = Inr (s', upd_nbr i no_entry (n\<lparr>nd_pkts := P, nd6_queue_size := nd6_queue_size n - of_nat (length ?qs)\<rparr>))"
    using ok(2,3,5) f(1) by (simp add: nd6_tmr_neighbor_def nd6_tmr_probe_def nd6_free_neighbor_cache_entry_def upd_nbr_def no_entry_def Let_def)
  then show ?thesis using f(2-5) by (simp add: upd_nbr_def)
qed

end
