(* ===== verification/Nd6_Discovery.thy ===== *)
theory Nd6_Discovery
  imports Nd6_Solicit
begin

text \<open>
  What neighbour discovery does for a packet: the output function, the first packet for a neighbour, the answer, and what
  happens without one.
\<close>

section \<open>Properties\<close>


text \<open>
  C5: The first packet for a neighbour. When the stack sends a packet to an on-link unicast address that neither the
  destination cache nor the neighbour cache knows, \<open>netif->output_ip6\<close> returns \<open>ERR_OK\<close>; it has sent a
  neighbour solicitation for the address to its solicited-node group (unless the interface has no source address for it, or
  there is no memory) and has put the packet in the queue of a new entry. Once the sender has freed its reference, the state is
  one in which the answer of the neighbour sends the packet: the entry is being resolved, it is the one of this address, and
  its queue holds exactly this packet.
\<close>

theorem nd6_first_packet:
  assumes "tables_ok n" "unknown n a i" "on_link n a" "\<not> ip6_addr_ismulticast a"
    and "nbr_q (neighbor_cache n ! i) = []" "length (lladdr (neighbor_cache n ! i)) = 6"
    and "ip_packet 14 s b" "IP6_HLEN \<le> unat (p_len b)" "pkt_dest b = a"
    and "fresh_ok uninit" "memp_ok pools (al_memp s)" "free_elems (al_memp s) MEMP_ND6_QUEUE \<noteq> {}" "nd6_queue_size n < MEMP_NUM_ND6_QUEUE"
    and "length (hwaddr (nd_netif n)) = 6" "link_sends sent lo" "ns_source (nd_netif n) a \<noteq> Some IP6_ADDR_ANY"
  shows "\<exists>s' n' n'' fs. nd6_output_ip6 uninit lo (nd_netif n) [b] a s n = Inr (ERR_OK, [b\<lparr>p_ref := 2\<rparr>], s', n')
    \<and> sent (nd_link n') = sent (nd_link n) @ fs \<and> solicits uninit (nd_netif n) a s fs
    \<and> nd_pbuf_free [b\<lparr>p_ref := 2\<rparr>] s' n' = Inr (s', n'') \<and> heap_ok (al_heap s') \<and> memp_ok pools (al_memp s')
    \<and> tables_ok n'' \<and> neighbour_of n'' i a \<and> nbr_state (neighbor_cache n'' ! i) = ND6_INCOMPLETE
    \<and> length (lladdr (neighbor_cache n'' ! i)) = 6 \<and> queue_ok pools s' n'' i
    \<and> map (\<lambda>q. nd_pkts n'' (q_p q)) (nbr_q (neighbor_cache n'' ! i)) = [[b]]"
proof -
  let ?p = "pbuf_ptr b" and ?n0 = "put_pkt [b] n"
  have n0: "neighbor_cache ?n0 = neighbor_cache n" "hops ?n0 = hops n" "nd_netif ?n0 = nd_netif n" "nd_link ?n0 = nd_link n"
    "nd6_queue_size ?n0 = nd6_queue_size n" "nd_pkts ?n0 ?p = [b]" "tables_ok ?n0"
    using assms(1) by (simp_all add: put_pkt_def hops_def tables_ok_def)
  have un0: "unknown ?n0 a i" "on_link ?n0 a" using assms(2,3) n0 by (simp_all add: unknown_def on_link_def nd6_is_prefix_in_netif_def put_pkt_def hops_def)
  have il: "i < length (neighbor_cache n)" "i < LWIP_ND6_NUM_NEIGHBORS" and na: "\<forall>e \<in> set (neighbor_cache n). next_hop_address e \<noteq> a" "a \<notin> fst ` set (hops n)"
    using assms(1,2) by (auto simp: unknown_def tables_ok_def dest: find_idx_Some)
  have b: "heap_ok (al_heap s)" "p_ref b = 1" "type_internal b = 0x80" "live (al_heap s) (pbuf_addr b) \<noteq> None" using assms(7) by (simp_all add: ip_packet_def)
  have nif: "length (hwaddr (nd_netif ?n0)) = 6" "ns_source (nd_netif ?n0) a \<noteq> Some IP6_ADDR_ANY" using assms(14,16) n0(3) by simp_all
  from nd6_next_hop_entry_new [OF n0(7) un0 b(1) assms(10) nif(1) assms(15) nif(2)] obtain s1 n1 d fs where
    e1: "nd6_get_next_hop_entry uninit (nd6_output_group lo) a s ?n0 = Inr (Inr i, s1, n1)"
      "neighbor_cache n1 = (neighbor_cache n)[i := resolving a (neighbor_cache n ! i)]" "tables_ok n1" "hops n1 = (hops n)[d := (a, a)]"
      "d < length (hops n)" "nd_netif n1 = nd_netif n" "nd6_queue_size n1 = nd6_queue_size n" "heap_keeps s s1" "pkts_keep s (nd_pkts ?n0) (nd_pkts n1)"
      "sent (nd_link n1) = sent (nd_link n) @ fs" "solicits uninit (nd_netif n) a s fs" unfolding n0 by blast
  have pk: "nd_pkts n1 ?p = [b]" using e1(9) b(4) n0(6) by (simp add: pkts_keep_def pbuf_ptr_def)
  have m1: "al_memp s1 = al_memp s" using e1(8) by (simp add: heap_keeps_def)
  have i1: "i < length (neighbor_cache n1)" "neighbor_cache n1 ! i = resolving a (neighbor_cache n ! i)" using il(1) by (simp_all add: e1(2))
  from nd6_queue_packet_ram [OF il(2) i1(1) pk refl b(2,3), of pools s1 uninit] obtain x m where
    q: "nd6_queue_packet uninit i ?p s1 n1 = Inr (ERR_OK, s1\<lparr>al_memp := m\<rparr>,
        upd_nbr i (\<lambda>e. e\<lparr>nbr_q := nbr_q e @ [\<lparr>q_ptr = x, q_p = ?p\<rparr>]\<rparr>)
          (n1\<lparr>nd_pkts := (nd_pkts n1)(?p := [b\<lparr>p_ref := 2\<rparr>]), nd6_queue_size := nd6_queue_size n1 + 1\<rparr>))"
      "memp_ok pools m" "x \<in> free_elems (al_memp s) MEMP_ND6_QUEUE"
      "free_elems m = (free_elems (al_memp s))(MEMP_ND6_QUEUE := free_elems (al_memp s) MEMP_ND6_QUEUE - {x})"
    using assms(11-13) unfolding m1 e1(7) by blast
  define n2 where "n2 = upd_nbr i (\<lambda>e. e\<lparr>nbr_q := nbr_q e @ [\<lparr>q_ptr = x, q_p = ?p\<rparr>]\<rparr>)
          (n1\<lparr>nd_pkts := (nd_pkts n1)(?p := [b\<lparr>p_ref := 2\<rparr>]), nd6_queue_size := nd6_queue_size n1 + 1\<rparr>)"
  define s2 where "s2 = s1\<lparr>al_memp := m\<rparr>"
  have st: "nbr_state (neighbor_cache n1 ! i) = ND6_INCOMPLETE" by (simp add: i1(2) resolving_def)
  have "nd6_get_next_hop_addr_or_queue uninit (nd6_output_group lo) ?p a s ?n0 = Inr (ERR_OK, None, s2, n2)"
    using e1(1) st q(1) by (simp add: nd6_get_next_hop_addr_or_queue_def Let_def n2_def s2_def)
  moreover have "nd_pkts n2 ?p = [b\<lparr>p_ref := 2\<rparr>]" by (simp add: n2_def upd_nbr_def)
  ultimately have out: "nd6_output_ip6 uninit lo (nd_netif n) [b] a s n = Inr (ERR_OK, [b\<lparr>p_ref := 2\<rparr>], s2, n2)"
    using assms(4) by (simp add: nd6_output_ip6_def ethip6_output_def nd6_next_hop_def)
  define n3 where "n3 = n2\<lparr>nd_pkts := (nd_pkts n2)(?p := [b])\<rparr>"
  have pb: "pbuf_ptr (b\<lparr>p_ref := r\<rparr>) = ?p" "b\<lparr>p_ref := 1\<rparr> = b" for r using b(2) by (simp_all add: pbuf_ptr_def pbuf_get_allocsrc_def)
  have free: "nd_pbuf_free [b\<lparr>p_ref := 2\<rparr>] s2 n2 = Inr (s2, n3)"
    by (simp add: nd_pbuf_free_def pbuf_free_def put_pkt_def pb n3_def)
  have n3: "neighbor_cache n3 ! i = (resolving a (neighbor_cache n ! i))\<lparr>nbr_q := [\<lparr>q_ptr = x, q_p = ?p\<rparr>]\<rparr>" "hops n3 = (hops n)[d := (a, a)]" "nd_pkts n3 ?p = [b]"
    "tables_ok n3" "neighbor_cache n3 = (neighbor_cache n)[i := (resolving a (neighbor_cache n ! i))\<lparr>nbr_q := [\<lparr>q_ptr = x, q_p = ?p\<rparr>]\<rparr>]" "nd_link n2 = nd_link n1"
    using e1(2-4) assms(5) il(1) by (simp_all add: n3_def n2_def upd_nbr_def hops_def tables_ok_def resolving_def)
  have nb: "neighbour_of n3 i a" by (rule neighbour_of_new [OF n3(5) il(1) _ na(1)]) (simp add: resolving_def)
  have rt: "routes_to n3 a i" by (rule routes_to_new [OF n3(2) e1(5) na(2) nb])
  have hk: "heap_ok (al_heap s2)" "memp_ok pools (al_memp s2)" "live (al_heap s2) (pbuf_addr b) \<noteq> None" using e1(8) b(4) q(2) by (simp_all add: heap_keeps_def s2_def)
  then have "ip_packet 14 s2 b" using assms(7) by (simp add: ip_packet_def)
  moreover have "x \<in> set (pool_elems (pools MEMP_ND6_QUEUE))" using q(3) pool.free_elems [OF assms(11)] by blast
  ultimately have "queue_ok pools s2 n3 i"
    using rt assms(4,8,9) n3(1,3) q(4) by (auto simp: queue_ok_def waits_def s2_def)
  then show ?thesis using out free hk n3 nb e1(10,11) assms(6)
    by (intro exI [of _ s2] exI [of _ n2] exI [of _ n3] exI [of _ fs]) (simp add: resolving_def)
qed

text \<open>
  C4: Address resolution completes. When a neighbour whose hardware address is being resolved answers with a solicited
  advertisement (to a unicast address, with hop limit 255 and a target link-layer address option), \<open>nd6_input\<close> returns;
  it has stored the address and made the neighbour reachable, and has handed to the driver, in the order in which they were
  queued, all packets that waited for it, each as one Ethernet frame to the advertised address; the queue is empty and the
  buffers of the advertisement are free. The queued packets are those \<open>queue_ok\<close> describes: allocated in the heap,
  with destinations that the destination cache sends to this neighbour.
\<close>

theorem nd6_na_resolves:
  assumes "tables_ok (is_net st)" "neighbour_of (is_net st) i target" "\<not> ip6_addr_ismulticast target"
    and "nbr_state (neighbor_cache (is_net st) ! i) = ND6_INCOMPLETE" "length (lladdr (neighbor_cache (is_net st) ! i)) = 6"
    and "queue_ok pools (is_alloc st) (is_net st) i" "length (nbr_q (neighbor_cache (is_net st) ! i)) < fuel"
    and "length (hwaddr (nd_netif (is_net st))) = 6" "link_sends sent lo"
    and "is_na b flags target mac" "from_link b st" "\<not> ip6_addr_ismulticast (current_iphdr_dest (is_ip st))"
    and "rx_packet pools (b # bs) (is_alloc st)" "mld_ok pools (is_mld st) (is_alloc st)"
  shows "\<exists>st'. nd6_input uninit (nd6_output_ip6 uninit lo) rand fuel (b # bs) inp st = Inr st' \<and> st_freed pools (b # bs) st st'
    \<and> neighbor_cache (is_net st') =
        (neighbor_cache (is_net st))[i := (neighbor_cache (is_net st) ! i)
           \<lparr>lladdr := mac, nbr_netif := True, nbr_state := ND6_REACHABLE, counter := reachable_time (is_net st), nbr_q := []\<rparr>]
    \<and> sent (nd_link (is_net st')) = sent (nd_link (is_net st))
        @ map (\<lambda>q. eth_frame mac (hwaddr (nd_netif (is_net st))) (chain_data (nd_pkts (is_net st) (q_p q))))
            (nbr_q (neighbor_cache (is_net st) ! i))"
proof -
  let ?n = "is_net st"
  have mem: "payload b + unat (p_len b) \<le> length (pbuf_mem b)" using assms(13) by (simp add: rx_packet_def tight_chain_def)
  obtain h where h: "mem_get (pbuf_mem b) (payload b) = Inr ICMP6_TYPE_NA" "mem_read (pbuf_mem b) (payload b) 24 = Inr h"
    "h ! 1 = 0" "h ! 4 = flags" "ip6_addr_of_bytes (drop 8 h) = target" "lladdr_opt_fits b 24 = Inr True" "unat (p_len b) = 32"
    "lladdr_opt_addr b 24 ?n = Inr mac"
    using is_na_fields [OF assms(10) mem, of ?n] assms(8) by metis
  have il: "i < length (neighbor_cache ?n)" using assms(2) by (simp add: neighbour_of_def)
  then have i10: "i < LWIP_ND6_NUM_NEIGHBORS" using assms(1) by (simp add: tables_ok_def)
  have lm: "length mac = 6" using assms(10) by (simp add: is_na_def)
  define n1 where "n1 = upd_nbr i (set_lladdr mac) ?n"
  define st1 where "st1 = st\<lparr>is_net := n1\<rparr>"
  have e1: "neighbor_cache n1 ! i = (neighbor_cache ?n ! i)\<lparr>lladdr := mac\<rparr>" using il set_lladdr_6 [OF assms(5) lm] by (simp add: n1_def upd_nbr_def)
  have n1: "nd_link n1 = nd_link ?n" "nd_pkts n1 = nd_pkts ?n" "nd_netif n1 = nd_netif ?n" "reachable_time n1 = reachable_time ?n"
    "tables_ok n1" "neighbor_cache n1 = (neighbor_cache ?n)[i := (neighbor_cache ?n ! i)\<lparr>lladdr := mac\<rparr>]"
    using assms(1) set_lladdr_6 [OF assms(5) lm] by (simp_all add: n1_def upd_nbr_def tables_ok_def)
  have q1: "queue_ok pools (is_alloc st1) n1 i"
    unfolding n1_def st1_def using queue_ok_upd [OF il, of "set_lladdr mac"] assms(6) by (simp add: set_lladdr_def)
  have "nd6_input uninit (nd6_output_ip6 uninit lo) rand fuel (b # bs) inp st = nd6_confirm (nd6_output_ip6 uninit lo) fuel b bs i st1"
    using h assms(3,4,11,12) neighbour_of_find [OF assms(2)]
    by (simp add: nd6_input_def nd6_input_na_def nd6_solicited_na_def from_link_def Let_def st1_def n1_def)
  moreover have "length (lladdr (neighbor_cache n1 ! i)) = 6" "length (nbr_q (neighbor_cache n1 ! i)) < fuel"
    using e1 lm assms(7) by simp_all
  ultimately show ?thesis
    using nd6_confirm_flush [OF n1(5) i10 _ q1 _ assms(9), of fuel b bs uninit] assms(8,13,14) n1 e1
    by (simp add: st1_def st_freed_def)
qed


section \<open>Witnesses\<close>

definition log_link :: "bytes list linkoutput_fn" where
  "log_link nif c s l = Inr (ERR_OK, c, s, l @ [chain_data c])"

lemma log_link_sends: "link_sends (\<lambda>l. l) log_link"
proof -
  have "b\<lparr>p_ref := 1\<rparr> = b" if "p_ref b = 1" for b :: pbuf using that by (metis pbuf.surjective pbuf.update_convs(8))
  then show ?thesis unfolding link_sends_def log_link_def by (intro allI impI exI [of _ ERR_OK] exI [of _ 1]) simp
qed

definition nbr0 :: nd6_neighbor_cache_entry where
  "nbr0 = \<lparr>next_hop_address = IP6_ADDR_ANY, nbr_netif = False, lladdr = zeros 6, nbr_q = [], nbr_state = ND6_NO_ENTRY, isrouter = False, counter = 0\<rparr>"

definition dst0 :: nd6_destination_cache_entry where
  "dst0 = \<lparr>destination_addr = IP6_ADDR_ANY, next_hop_addr = IP6_ADDR_ANY, pmtu = 0, cached_neighbor_idx = 0, age = 0\<rparr>"

definition nd0 :: "bytes list nd6" where
  "nd0 = \<lparr>neighbor_cache = replicate 10 nbr0, destination_cache = replicate 10 dst0, prefix_list = [], default_router_list = [],
     reachable_time = LWIP_ND6_REACHABLE_TIME, retrans_timer = LWIP_ND6_RETRANS_TIMER, nd6_queue_size = 0, nd6_cached_destination_index = 0,
     nd6_tmr_rs_reduction = 0, nd6_ra_buffer = zeros 32, last_router = 0, nd_netif = sample_netif, rs_count = 0, netif_mtu = 1500,
     netif_mtu6 = 1500, nd_pkts = (\<lambda>_. []), nd_link = []\<rparr>"

definition peer :: ip6_addr where "peer = IP6 0xfe800000 0 0 2"

text \<open>An IPv6 packet without payload for \<open>peer\<close>, in the memory of \<open>b\<close>.\<close>

definition hello :: "pbuf \<Rightarrow> pbuf" where
  "hello b = b\<lparr>pbuf_mem := zeros 14 @ ip6_packet 0 59 255 (IP6 0xfe800000 0 0x0200 0x01020304) peer [], payload := 14, p_len := 40, tot_len := 40\<rparr>"

lemma nd0_tables: "tables_ok nd0" "unknown nd0 peer 0" "on_link nd0 peer" "\<not> ip6_addr_ismulticast peer"
    "ns_source (nd_netif nd0) peer \<noteq> Some IP6_ADDR_ANY" "length (hwaddr (nd_netif nd0)) = 6"
proof -
  have r: "replicate 10 x = x # replicate 9 x" for x :: nd6_neighbor_cache_entry by (simp add: numeral_eq_Suc)
  show "unknown nd0 peer 0" unfolding unknown_def nd0_def hops_def by (simp add: r) (simp add: nbr0_def dst0_def peer_def IP6_ADDR_ANY_def)
  show "ns_source (nd_netif nd0) peer \<noteq> Some IP6_ADDR_ANY"
    by (simp add: nd0_def ns_source_def sample_netif_def peer_def ip6_addr_isvalid_def IP6_ADDR_VALID_def IP6_ADDR_ANY_def)
qed (simp_all add: nd0_def tables_ok_def LWIP_ND6_NUM_NEIGHBORS_def LWIP_ND6_NUM_DESTINATIONS_def dst0_def on_link_def peer_def
      ip6_addr_islinklocal_def sample_netif_def)

lemma hello_packet:
  assumes "ip_packet 54 s b"
  shows "ip_packet 14 s (hello b)" "IP6_HLEN \<le> unat (p_len (hello b))" "pkt_dest (hello b) = peer"
proof -
  have len: "length (ip6_packet 0 59 255 (IP6 0xfe800000 0 0x0200 0x01020304) peer []) = 40" by (simp add: ip6_packet_def)
  have bytes: "pbuf_bytes (hello b) = ip6_packet 0 59 255 (IP6 0xfe800000 0 0x0200 0x01020304) peer []" using len by (simp add: pbuf_bytes_def hello_def zeros_def)
  show "ip_packet 14 s (hello b)" using assms len by (simp add: ip_packet_def hello_def zeros_def)
  show "IP6_HLEN \<le> unat (p_len (hello b))" by (simp add: hello_def IP6_HLEN_def)
  show "pkt_dest (hello b) = peer" using len by (simp add: pkt_dest_def bytes IP6_HLEN_def) (simp add: ip6_packet_def ip6_hdr_of_bytes_bytes)
qed

lemma alloc0_packet:
  obtains b s where "pbuf_alloc zeros PBUF_IP 8 PBUF_RAM alloc0 = Inr ([b], s)" "ip_packet 54 s b" "al_memp s = al_memp alloc0"
proof -
  have "unat (8::u16) + 54 < 65536" by simp
  from pbuf_alloc_ip [OF alloc0_ok(1) zeros_fresh this] show thesis using that alloc0_memory by (cases) auto
qed

lemma alloc0_queue_elems: "free_elems (al_memp alloc0) MEMP_ND6_QUEUE \<noteq> {}"
proof -
  have "free_elems (al_memp alloc0) MEMP_ND6_QUEUE = set (pool_elems (sample_pools MEMP_ND6_QUEUE))"
    using memp_init_free_elems [OF sample_pools_ok] by (simp add: alloc0_def memp0_def)
  then show ?thesis by (simp add: pool_elems_def sample_pools_def)
qed

theorem nd6_first_packet_witness:
  "\<exists>b s s' n'. pbuf_alloc zeros PBUF_IP 8 PBUF_RAM alloc0 = Inr ([b], s)
     \<and> nd6_output_ip6 zeros log_link sample_netif [hello b] peer s nd0 = Inr (ERR_OK, [(hello b)\<lparr>p_ref := 2\<rparr>], s', n')"
proof -
  obtain b s where b: "pbuf_alloc zeros PBUF_IP 8 PBUF_RAM alloc0 = Inr ([b], s)" "ip_packet 54 s b" "al_memp s = al_memp alloc0"
    by (rule alloc0_packet)
  note h = hello_packet [OF b(2)]
  have e: "nbr_q (neighbor_cache nd0 ! 0) = []" "length (lladdr (neighbor_cache nd0 ! 0)) = 6" "nd6_queue_size nd0 < MEMP_NUM_ND6_QUEUE"
    "nd_netif nd0 = sample_netif"
    by (simp_all add: nd0_def nbr0_def zeros_def MEMP_NUM_ND6_QUEUE_def)
  have m: "memp_ok sample_pools (al_memp s)" "free_elems (al_memp s) MEMP_ND6_QUEUE \<noteq> {}" unfolding b(3) using alloc0_ok(2) alloc0_queue_elems by simp_all
  from nd6_first_packet [OF nd0_tables(1-4) e(1,2) h zeros_fresh m e(3) nd0_tables(6) log_link_sends nd0_tables(5)] obtain s' n' where
    "nd6_output_ip6 zeros log_link sample_netif [hello b] peer s nd0 = Inr (ERR_OK, [(hello b)\<lparr>p_ref := 2\<rparr>], s', n')"
    unfolding e(4) by (elim exE conjE)
  then show ?thesis using b(1) by blast
qed

text \<open>The state in which \<open>hello\<close> waits for \<open>peer\<close> in an element \<open>x\<close> of the queue pool.\<close>

definition nd1 :: "pbuf \<Rightarrow> nat \<Rightarrow> bytes list nd6" where
  "nd1 b x = nd0\<lparr>neighbor_cache := (resolving peer nbr0)\<lparr>nbr_q := [\<lparr>q_ptr = x, q_p = pbuf_ptr b\<rparr>]\<rparr> # replicate 9 nbr0,
     destination_cache := dst0\<lparr>destination_addr := peer, next_hop_addr := peer\<rparr> # replicate 9 dst0,
     nd_pkts := (\<lambda>_. [])(pbuf_ptr b := [b]), nd6_queue_size := 1\<rparr>"

lemma nd1_tables:
  "tables_ok (nd1 b x)" "neighbour_of (nd1 b x) 0 peer" "length (hwaddr (nd_netif (nd1 b x))) = 6"
  "neighbor_cache (nd1 b x) ! 0 = (resolving peer nbr0)\<lparr>nbr_q := [\<lparr>q_ptr = x, q_p = pbuf_ptr b\<rparr>]\<rparr>" "nd_pkts (nd1 b x) (pbuf_ptr b) = [b]"
proof -
  have "peer \<noteq> IP6_ADDR_ANY" by (simp add: peer_def IP6_ADDR_ANY_def)
  then show "neighbour_of (nd1 b x) 0 peer" by (auto simp: neighbour_of_def nd1_def resolving_def nbr0_def nth_Cons split: nat.splits)
qed (auto simp: nd1_def nd0_def tables_ok_def LWIP_ND6_NUM_NEIGHBORS_def LWIP_ND6_NUM_DESTINATIONS_def dst0_def sample_netif_def)

lemma nd1_queue:
  assumes "ip_packet 54 s b" "x \<in> set (pool_elems (sample_pools MEMP_ND6_QUEUE)) - free_elems (al_memp s) MEMP_ND6_QUEUE"
  shows "queue_ok sample_pools s (nd1 (hello b) x) 0"
proof -
  note h = hello_packet [OF assms(1)]
  have hp: "hops (nd1 (hello b) x) = (peer, peer) # replicate 9 (IP6_ADDR_ANY, IP6_ADDR_ANY)" by (simp add: hops_def nd1_def dst0_def)
  have "peer \<noteq> IP6_ADDR_ANY" by (simp add: peer_def IP6_ADDR_ANY_def)
  then have "routes_to (nd1 (hello b) x) peer 0" using nd1_tables(2) [of "hello b" x] by (auto simp: routes_to_def hp)
  then have "waits sample_pools s (nd1 (hello b) x) 0 \<lparr>q_ptr = x, q_p = pbuf_ptr (hello b)\<rparr>"
    using h nd0_tables(4) nd1_tables(5) [of "hello b" x] assms(2) by (auto simp: waits_def)
  then show ?thesis by (simp add: queue_ok_def nd1_tables(4))
qed

text \<open>Memory with the packet, one element of the queue pool and one receive buffer allocated.\<close>

lemma sample_memory:
  "\<exists>b s x y m. pbuf_alloc zeros PBUF_IP 8 PBUF_RAM alloc0 = Inr ([b], s) \<and> (\<forall>m. ip_packet 54 (s\<lparr>al_memp := m\<rparr>) b)
     \<and> memp_ok sample_pools m \<and> x \<in> set (pool_elems (sample_pools MEMP_ND6_QUEUE)) - free_elems m MEMP_ND6_QUEUE
     \<and> y \<in> set (pool_elems (sample_pools MEMP_PBUF_POOL)) - free_elems m MEMP_PBUF_POOL \<and> heap_ok (al_heap s)"
proof -
  obtain b s where b: "pbuf_alloc zeros PBUF_IP 8 PBUF_RAM alloc0 = Inr ([b], s)" "ip_packet 54 s b" by (rule alloc0_packet)
  from memp_malloc_some [OF alloc0_ok(2) alloc0_queue_elems] obtain x m1 where
    m1: "memp_malloc MEMP_ND6_QUEUE (al_memp alloc0) = Inr (Some x, m1)" "x \<in> set (pool_elems (sample_pools MEMP_ND6_QUEUE))" "memp_ok sample_pools m1"
      "x \<notin> free_elems m1 MEMP_ND6_QUEUE" "free_elems m1 MEMP_PBUF_POOL = free_elems (al_memp alloc0) MEMP_PBUF_POOL"
    using pool.free_elems [OF alloc0_ok(2), of MEMP_ND6_QUEUE] by auto
  have "free_elems (al_memp alloc0) MEMP_PBUF_POOL = set (pool_elems (sample_pools MEMP_PBUF_POOL))"
    using memp_init_free_elems [OF sample_pools_ok] by (simp add: alloc0_def memp0_def)
  then have "free_elems m1 MEMP_PBUF_POOL \<noteq> {}" unfolding m1(5) by (simp add: pool_elems_def sample_pools_def)
  from memp_malloc_some [OF m1(3) this] obtain y m2 where
    m2: "memp_ok sample_pools m2" "y \<in> set (pool_elems (sample_pools MEMP_PBUF_POOL))" "y \<notin> free_elems m2 MEMP_PBUF_POOL"
      "free_elems m2 MEMP_ND6_QUEUE = free_elems m1 MEMP_ND6_QUEUE"
    using pool.free_elems [OF m1(3), of MEMP_PBUF_POOL] by auto
  have "\<forall>m. ip_packet 54 (s\<lparr>al_memp := m\<rparr>) b" "heap_ok (al_heap s)" using b(2) by (simp_all add: ip_packet_def)
  then show ?thesis using b(1) m1(2,4) m2 by (intro exI [of _ b] exI [of _ s] exI [of _ x] exI [of _ y] exI [of _ m2]) simp
qed

definition na_buf :: "nat \<Rightarrow> bytes \<Rightarrow> pbuf" where
  "na_buf y mac = \<lparr>pbuf_addr = y, pbuf_mem = ip6_packet 0 IP6_NEXTH_ICMP6 255 peer (IP6 0xfe800000 0 0x0200 0x01020304) (na_message ICMP6_TYPE_NA [0, 0] 0x60 peer mac),
     payload = 40, tot_len = 32, p_len = 32, type_internal = 0x82, p_flags = 0, p_ref = 1, if_idx = 0\<rparr>"

definition na_state :: "alloc_state \<Rightarrow> bytes list nd6 \<Rightarrow> (nat, bytes list nd6) ip6_state" where
  "na_state s n = \<lparr>is_ip = is_ip ping_state, is_alloc = s, is_udp = udp0, is_mld = [], is_net = n\<rparr>"

lemma na_buf_ok:
  assumes "length mac = 6"
  shows "is_na (na_buf y mac) 0x60 peer mac" "from_link (na_buf y mac) (na_state s n)"
    and "y \<in> set (pool_elems (sample_pools MEMP_PBUF_POOL)) - free_elems (al_memp s) MEMP_PBUF_POOL \<Longrightarrow> heap_ok (al_heap s) \<Longrightarrow>
      memp_ok sample_pools (al_memp s) \<Longrightarrow> rx_packet sample_pools [na_buf y mac] s"
proof -
  have len: "length (na_message ICMP6_TYPE_NA [0, 0] 0x60 peer mac) = 32" using assms by (simp add: na_message_def)
  show "is_na (na_buf y mac) 0x60 peer mac" unfolding is_na_def
    using assms len by (intro conjI exI [of _ "[0, 0]"]) (simp_all add: na_buf_def pbuf_bytes_def ip6_packet_def)
  show "from_link (na_buf y mac) (na_state s n)"
    using len by (simp add: from_link_def current_hoplim_def na_state_def ping_state_def na_buf_def mem_get_def ip6_packet_def
        ip6_hdr_bytes_def ND6_HOPLIM_def nth_append be32_def be16_def)
  show "rx_packet sample_pools [na_buf y mac] s" if "y \<in> set (pool_elems (sample_pools MEMP_PBUF_POOL)) - free_elems (al_memp s) MEMP_PBUF_POOL"
    "heap_ok (al_heap s)" "memp_ok sample_pools (al_memp s)"
    using that len by (simp add: rx_packet_def tight_chain_def na_buf_def ip6_packet_def)
qed

theorem nd6_na_resolves_witness:
  "\<exists>b s x y m st'. pbuf_alloc zeros PBUF_IP 8 PBUF_RAM alloc0 = Inr ([b], s)
     \<and> nd6_input zeros (nd6_output_ip6 zeros log_link) (Pair 7) 2 [na_buf y [2, 0, 0, 0, 0, 9]] sample_netif
         (na_state (s\<lparr>al_memp := m\<rparr>) (nd1 (hello b) x)) = Inr st'
     \<and> nd_link (is_net st') = [eth_frame [2, 0, 0, 0, 0, 9] (hwaddr sample_netif) (chain_data [hello b])]"
proof -
  let ?mac = "[2, 0, 0, 0, 0, 9] :: bytes"
  obtain b s x y m where b: "pbuf_alloc zeros PBUF_IP 8 PBUF_RAM alloc0 = Inr ([b], s)" "\<forall>m. ip_packet 54 (s\<lparr>al_memp := m\<rparr>) b"
    and m: "memp_ok sample_pools m" "x \<in> set (pool_elems (sample_pools MEMP_ND6_QUEUE)) - free_elems m MEMP_ND6_QUEUE"
      "y \<in> set (pool_elems (sample_pools MEMP_PBUF_POOL)) - free_elems m MEMP_PBUF_POOL" "heap_ok (al_heap s)" using sample_memory by blast
  define s2 where "s2 = s\<lparr>al_memp := m\<rparr>"
  define st where "st = na_state s2 (nd1 (hello b) x)"
  have st: "is_net st = nd1 (hello b) x" "is_alloc st = s2" "is_mld st = []" by (simp_all add: st_def na_state_def)
  have dest: "\<not> ip6_addr_ismulticast (current_iphdr_dest (is_ip st))" by (simp add: st_def na_state_def ping_state_def)
  note t = nd1_tables [of "hello b" x]
  have e: "nbr_state (neighbor_cache (is_net st) ! 0) = ND6_INCOMPLETE" "length (lladdr (neighbor_cache (is_net st) ! 0)) = 6"
    "length (nbr_q (neighbor_cache (is_net st) ! 0)) < 2" by (simp_all add: st t(4) resolving_def nbr0_def zeros_def)
  have q: "queue_ok sample_pools (is_alloc st) (is_net st) 0" unfolding st using nd1_queue [of s2 b x] b(2) m(2) by (simp add: s2_def)
  have na: "is_na (na_buf y ?mac) 0x60 peer ?mac" "from_link (na_buf y ?mac) st" unfolding st_def by (rule na_buf_ok, simp)+
  have rx: "rx_packet sample_pools [na_buf y ?mac] (is_alloc st)" "mld_ok sample_pools (is_mld st) (is_alloc st)"
    unfolding st using na_buf_ok(3) [of ?mac y s2] m by (simp_all add: s2_def mld_ok_def)
  from nd6_na_resolves [OF t(1) [folded st(1)] t(2) [folded st(1)] nd0_tables(4) e(1,2) q e(3) t(3) [folded st(1)] log_link_sends na dest rx, of zeros "Pair 7" sample_netif]
  obtain st' where "nd6_input zeros (nd6_output_ip6 zeros log_link) (Pair 7) 2 [na_buf y ?mac] sample_netif st = Inr st'"
    "nd_link (is_net st') = nd_link (is_net st) @ map (\<lambda>q. eth_frame ?mac (hwaddr (nd_netif (is_net st))) (chain_data (nd_pkts (is_net st) (q_p q))))
            (nbr_q (neighbor_cache (is_net st) ! 0))" by (elim exE conjE)
  moreover have "nd_link (is_net st) = []" "nd_netif (is_net st) = sample_netif" by (simp_all add: st(1) nd1_def nd0_def)
  ultimately have "nd6_input zeros (nd6_output_ip6 zeros log_link) (Pair 7) 2 [na_buf y ?mac] sample_netif (na_state (s\<lparr>al_memp := m\<rparr>) (nd1 (hello b) x)) = Inr st'"
    "nd_link (is_net st') = [eth_frame ?mac (hwaddr sample_netif) (chain_data [hello b])]"
    using t(4,5) by (simp_all add: st(1) st_def [symmetric] s2_def [symmetric] del: chain_data_simps)
  with b(1) show ?thesis by blast
qed


end
