(* ===== verification/Nd6_Requeue.thy ===== *)
theory Nd6_Requeue
  imports Nd6_Discovery
begin

text \<open>
  The loop of \<open>nd6_send_q\<close> when the output puts the packet back into the queue that is being sent. The loop
  takes the queue from the neighbour cache again in every turn, so it does not end.
\<close>

section \<open>A turn that changes nothing\<close>

text \<open>The entry is being resolved and its queue holds one packet, whose destination leads back to this entry.\<close>

definition stuck :: "(memp_t \<Rightarrow> memp_desc) \<Rightarrow> nat \<Rightarrow> alloc_state \<Rightarrow> 'n nd6 \<Rightarrow> bool" where
  "stuck pools i s n \<longleftrightarrow> tables_ok n \<and> i < LWIP_ND6_NUM_NEIGHBORS \<and> nbr_state (neighbor_cache n ! i) = ND6_INCOMPLETE
     \<and> nbr_netif (neighbor_cache n ! i) \<and> (\<exists>q. nbr_q (neighbor_cache n ! i) = [q] \<and> waits pools s n i q)
     \<and> memp_ok pools (al_memp s) \<and> free_elems (al_memp s) MEMP_ND6_QUEUE \<noteq> {} \<and> nd6_queue_size n < MEMP_NUM_ND6_QUEUE"

text \<open>The end of a turn in which the packet was queued again, in element \<open>x\<close>.\<close>

lemma requeued:
  fixes n :: "'n nd6"
  assumes n1: "tables_ok n1" "i < LWIP_ND6_NUM_NEIGHBORS" "nbr_state (neighbor_cache n1 ! i) = ND6_INCOMPLETE" "nbr_netif (neighbor_cache n1 ! i)"
      "nbr_q (neighbor_cache n1 ! i) = []" "nd_pkts n1 (pbuf_ptr b) = [b]" "routes_to n1 (pkt_dest b) i" "nd6_queue_size n1 < MEMP_NUM_ND6_QUEUE"
    and b: "ip_packet 14 s b" "IP6_HLEN \<le> unat (p_len b)" "\<not> ip6_addr_ismulticast (pkt_dest b)"
    and m: "memp_ok pools (al_memp s)" "free_elems (al_memp s) MEMP_ND6_QUEUE \<noteq> {}"
    and z: "z \<in> set (pool_elems (pools MEMP_ND6_QUEUE)) - free_elems (al_memp s) MEMP_ND6_QUEUE"
  shows "\<exists>n2 s2 n3 m3. nd6_queue_packet uninit i (pbuf_ptr b) s n1 = Inr (ERR_OK, s2, n2) \<and> nd_pkts n2 (pbuf_ptr b) = [b\<lparr>p_ref := 2\<rparr>]
    \<and> nd_pbuf_free [b\<lparr>p_ref := 2\<rparr>] s2 n2 = Inr (s2, n3) \<and> memp_free MEMP_ND6_QUEUE z (al_memp s2) = Inr m3
    \<and> stuck pools i (s2\<lparr>al_memp := m3\<rparr>) (n3\<lparr>nd6_queue_size := nd6_queue_size n3 - 1\<rparr>)"
proof -
  let ?p = "pbuf_ptr b"
  have il: "i < length (neighbor_cache n1)" using n1(1,2) by (simp add: tables_ok_def)
  have br: "p_ref b = 1" "type_internal b = 0x80" using b(1) by (simp_all add: ip_packet_def)
  from nd6_queue_packet_ram [OF n1(2) il n1(6) refl br n1(8) m] obtain x m2 where
    q: "nd6_queue_packet uninit i ?p s n1 = Inr (ERR_OK, s\<lparr>al_memp := m2\<rparr>,
        upd_nbr i (\<lambda>e. e\<lparr>nbr_q := nbr_q e @ [\<lparr>q_ptr = x, q_p = ?p\<rparr>]\<rparr>)
          (n1\<lparr>nd_pkts := (nd_pkts n1)(?p := [b\<lparr>p_ref := 2\<rparr>]), nd6_queue_size := nd6_queue_size n1 + 1\<rparr>))"
      "memp_ok pools m2" "x \<in> free_elems (al_memp s) MEMP_ND6_QUEUE"
      "free_elems m2 = (free_elems (al_memp s))(MEMP_ND6_QUEUE := free_elems (al_memp s) MEMP_ND6_QUEUE - {x})" by blast
  define s2 where "s2 = s\<lparr>al_memp := m2\<rparr>"
  define n2 where "n2 = upd_nbr i (\<lambda>e. e\<lparr>nbr_q := nbr_q e @ [\<lparr>q_ptr = x, q_p = ?p\<rparr>]\<rparr>)
          (n1\<lparr>nd_pkts := (nd_pkts n1)(?p := [b\<lparr>p_ref := 2\<rparr>]), nd6_queue_size := nd6_queue_size n1 + 1\<rparr>)"
  define n3 where "n3 = n2\<lparr>nd_pkts := (nd_pkts n2)(?p := [b])\<rparr>"
  have pb: "pbuf_ptr (b\<lparr>p_ref := r\<rparr>) = ?p" "b\<lparr>p_ref := 1\<rparr> = b" for r using br(1) by (simp_all add: pbuf_ptr_def pbuf_get_allocsrc_def)
  have free: "nd_pbuf_free [b\<lparr>p_ref := 2\<rparr>] s2 n2 = Inr (s2, n3)" by (simp add: nd_pbuf_free_def pbuf_free_def put_pkt_def pb n3_def)
  have zx: "z \<in> set (pool_elems (pools MEMP_ND6_QUEUE))" "z \<notin> free_elems m2 MEMP_ND6_QUEUE" "z \<noteq> x" using z q(3,4) by auto
  from pool.release_ok [of pools, OF q(2) zx(1,2)] obtain m3 where
    m3: "memp_free MEMP_ND6_QUEUE z m2 = Inr m3" "memp_ok pools m3"
      "free_elems m3 = (free_elems m2)(MEMP_ND6_QUEUE := insert z (free_elems m2 MEMP_ND6_QUEUE))" by blast
  define n4 where "n4 = n3\<lparr>nd6_queue_size := nd6_queue_size n3 - 1\<rparr>"
  have n4: "neighbor_cache n4 = (neighbor_cache n1)[i := (neighbor_cache n1 ! i)\<lparr>nbr_q := [\<lparr>q_ptr = x, q_p = ?p\<rparr>]\<rparr>]" "hops n4 = hops n1" "tables_ok n4"
    "nd_pkts n4 ?p = [b]" "nd6_queue_size n4 = nd6_queue_size n1"
    using n1(1,5) by (simp_all add: n4_def n3_def n2_def upd_nbr_def hops_def tables_ok_def)
  have mp: "map next_hop_address (neighbor_cache n4) = map next_hop_address (neighbor_cache n1)" using il by (simp add: n4(1) map_update list_update_same_conv)
  have rt: "routes_to n4 (pkt_dest b) i" using routes_to_cong [OF n4(2) mp] n1(7) by simp
  have "x \<in> set (pool_elems (pools MEMP_ND6_QUEUE))" using q(3) pool.free_elems [OF m(1)] by blast
  then have "waits pools (s2\<lparr>al_memp := m3\<rparr>) n4 i \<lparr>q_ptr = x, q_p = ?p\<rparr>"
    using b n4(4) rt m3(3) q(4) zx(3) by (auto simp: waits_def s2_def ip_packet_def)
  then have "stuck pools i (s2\<lparr>al_memp := m3\<rparr>) n4"
    using n1(2-4,8) n4 il m3(2,3) by (simp add: stuck_def)
  moreover have "nd_pkts n2 ?p = [b\<lparr>p_ref := 2\<rparr>]" by (simp add: n2_def upd_nbr_def)
  moreover have "memp_free MEMP_ND6_QUEUE z (al_memp s2) = Inr m3" using m3(1) by (simp add: s2_def)
  ultimately show ?thesis using q(1) free unfolding n4_def n2_def s2_def by blast
qed

text \<open>One turn of the loop, when the next hop of the packet is an entry \<open>i\<close> that is being resolved and has an empty queue.\<close>

lemma nd6_send_q_turn:
  fixes n :: "'n nd6"
  assumes q: "i < LWIP_ND6_NUM_NEIGHBORS" "nbr_q (neighbor_cache n ! i) = [q]" "nbr_netif (neighbor_cache n ! i)" "nd_pkts n (q_p q) = [b]" "pbuf_ptr b = q_p q"
    and b: "ip_packet 14 s b" "IP6_HLEN \<le> unat (p_len b)" "\<not> ip6_addr_ismulticast (pkt_dest b)"
    and hop: "nd6_get_next_hop_entry uninit (nd6_output_group lo) (pkt_dest b) s (put_pkt [b] (upd_nbr i (\<lambda>e. e\<lparr>nbr_q := []\<rparr>) n)) = Inr (Inr i, s1, n1)"
    and n1: "tables_ok n1" "nbr_state (neighbor_cache n1 ! i) = ND6_INCOMPLETE" "nbr_netif (neighbor_cache n1 ! i)"
      "nbr_q (neighbor_cache n1 ! i) = []" "nd_pkts n1 (pbuf_ptr b) = [b]" "routes_to n1 (pkt_dest b) i" "nd6_queue_size n1 < MEMP_NUM_ND6_QUEUE"
    and s1: "heap_keeps s s1" "memp_ok pools (al_memp s)" "free_elems (al_memp s) MEMP_ND6_QUEUE \<noteq> {}"
      "q_ptr q \<in> set (pool_elems (pools MEMP_ND6_QUEUE)) - free_elems (al_memp s) MEMP_ND6_QUEUE"
  shows "\<exists>s' n'. nd6_send_q (nd6_output_ip6 uninit lo) (Suc fuel) i s n = nd6_send_q (nd6_output_ip6 uninit lo) fuel i s' n' \<and> stuck pools i s' n'"
proof -
  let ?p = "pbuf_ptr b" and ?n0 = "upd_nbr i (\<lambda>e. e\<lparr>nbr_q := []\<rparr>) n"
  have hk: "al_memp s1 = al_memp s" "ip_packet 14 s1 b" using s1(1) b(1) by (simp_all add: heap_keeps_def ip_packet_def)
  from requeued [OF n1(1) q(1) n1(2-7) hk(2) b(2,3), of pools "q_ptr q" uninit] s1(2-4) obtain n2 s2 n3 m3 where
    r: "nd6_queue_packet uninit i ?p s1 n1 = Inr (ERR_OK, s2, n2)" "nd_pkts n2 ?p = [b\<lparr>p_ref := 2\<rparr>]"
      "nd_pbuf_free [b\<lparr>p_ref := 2\<rparr>] s2 n2 = Inr (s2, n3)" "memp_free MEMP_ND6_QUEUE (q_ptr q) (al_memp s2) = Inr m3"
      "stuck pools i (s2\<lparr>al_memp := m3\<rparr>) (n3\<lparr>nd6_queue_size := nd6_queue_size n3 - 1\<rparr>)"
    unfolding hk(1) by blast
  have "nd6_get_next_hop_addr_or_queue uninit (nd6_output_group lo) ?p (pkt_dest b) s (put_pkt [b] ?n0) = Inr (ERR_OK, None, s2, n2)"
    using hop n1(2) r(1) by (simp add: nd6_get_next_hop_addr_or_queue_def Let_def)
  then have out: "nd6_output_ip6 uninit lo (nd_netif n) [b] (pkt_dest b) s ?n0 = Inr (ERR_OK, [b\<lparr>p_ref := 2\<rparr>], s2, n2)"
    using b(3) r(2) by (simp add: nd6_output_ip6_def ethip6_output_def nd6_next_hop_def)
  have pd: "hdr_dest (ip6_hdr_of_bytes (take IP6_HLEN (pbuf_bytes b))) = pkt_dest b" by (simp add: pkt_dest_def)
  have "nd6_send_q (nd6_output_ip6 uninit lo) (Suc fuel) i s n
      = nd6_send_q (nd6_output_ip6 uninit lo) fuel i (s2\<lparr>al_memp := m3\<rparr>) (n3\<lparr>nd6_queue_size := nd6_queue_size n3 - 1\<rparr>)"
    using q(1-4) ip_packet_read [OF b(1,2)] out r(3,4) by (simp add: pd)
  then show ?thesis using r(5) by blast
qed

lemma stuck_turn:
  assumes "stuck pools i s n"
  shows "\<exists>s' n'. nd6_send_q (nd6_output_ip6 uninit lo) (Suc fuel) i s n = nd6_send_q (nd6_output_ip6 uninit lo) fuel i s' n' \<and> stuck pools i s' n'"
proof -
  obtain q b where q: "nbr_q (neighbor_cache n ! i) = [q]" "nd_pkts n (q_p q) = [b]" "pbuf_ptr b = q_p q" "ip_packet 14 s b" "IP6_HLEN \<le> unat (p_len b)"
    "\<not> ip6_addr_ismulticast (pkt_dest b)" "routes_to n (pkt_dest b) i" "q_ptr q \<in> set (pool_elems (pools MEMP_ND6_QUEUE)) - free_elems (al_memp s) MEMP_ND6_QUEUE"
    using assms by (auto simp: stuck_def waits_def)
  have st: "tables_ok n" "i < LWIP_ND6_NUM_NEIGHBORS" "nbr_state (neighbor_cache n ! i) = ND6_INCOMPLETE" "nbr_netif (neighbor_cache n ! i)"
    "memp_ok pools (al_memp s)" "free_elems (al_memp s) MEMP_ND6_QUEUE \<noteq> {}" "nd6_queue_size n < MEMP_NUM_ND6_QUEUE" using assms by (simp_all add: stuck_def)
  have il: "i < length (neighbor_cache n)" using st(1,2) by (simp add: tables_ok_def)
  define n0 where "n0 = put_pkt [b] (upd_nbr i (\<lambda>e. e\<lparr>nbr_q := []\<rparr>) n)"
  have n0: "neighbor_cache n0 = (neighbor_cache n)[i := (neighbor_cache n ! i)\<lparr>nbr_q := []\<rparr>]" "hops n0 = hops n" "tables_ok n0" "nd_pkts n0 (pbuf_ptr b) = [b]"
    "nd6_queue_size n0 = nd6_queue_size n" using st(1) by (simp_all add: n0_def put_pkt_def upd_nbr_def hops_def tables_ok_def)
  have mp: "map next_hop_address (neighbor_cache n0) = map next_hop_address (neighbor_cache n)" using il by (simp add: n0(1) map_update list_update_same_conv)
  have rt: "routes_to n0 (pkt_dest b) i" using routes_to_cong [OF n0(2) mp] q(7) by simp
  from nd6_next_hop_entry_known [OF n0(3) rt, of uninit "nd6_output_group lo" s] obtain n1 where
    n1: "nd6_get_next_hop_entry uninit (nd6_output_group lo) (pkt_dest b) s n0 = Inr (Inr i, s, n1)" "looked_up n0 n1" by blast
  then have k: "neighbor_cache n1 = neighbor_cache n0" "nd_pkts n1 = nd_pkts n0" "nd6_queue_size n1 = nd6_queue_size n0" "tables_ok n1" "hops n1 = hops n0"
    by (auto simp: looked_up_def)
  have rt1: "routes_to n1 (pkt_dest b) i" using routes_to_cong [OF k(5)] k(1) rt by simp
  have hk: "heap_keeps s s" using q(4) by (simp add: heap_keeps_def ip_packet_def)
  show ?thesis
    by (rule nd6_send_q_turn [OF st(2) q(1) st(4) q(2-6) n1(1) [unfolded n0_def] k(4) _ _ _ _ rt1 _ hk st(5,6) q(8)])
      (use k n0 il st(3,4,7) in simp_all)
qed

lemma stuck_hangs: "stuck pools i s n \<Longrightarrow> nd6_send_q (nd6_output_ip6 uninit lo) fuel i s n = Inl Hang"
proof (induction fuel arbitrary: s n)
  case (Suc fuel)
  from stuck_turn [OF Suc.prems, of uninit lo fuel] obtain s' n' where
    "nd6_send_q (nd6_output_ip6 uninit lo) (Suc fuel) i s n = nd6_send_q (nd6_output_ip6 uninit lo) fuel i s' n'" "stuck pools i s' n'" by blast
  then show ?case using Suc.IH by simp
qed simp

section \<open>How the loop gets there\<close>

lemma oldest_entry_none: "\<forall>e \<in> set es. \<not> P e \<Longrightarrow> oldest_entry cmp P k es t j = j"
  by (induction es arbitrary: k) auto

lemma oldest_entry_only:
  assumes "i < length es" "P (es ! i)" "cmp (counter (es ! i)) t" "\<And>j. j < length es \<Longrightarrow> j \<noteq> i \<Longrightarrow> \<not> P (es ! j)"
  shows "oldest_entry cmp P k es t j = Some (k + i)"
  using assms
proof (induction es arbitrary: k i)
  case (Cons e es)
  show ?case
  proof (cases i)
    case 0
    have "\<forall>x \<in> set es. \<not> P x" using Cons.prems(4) [of "Suc _"] 0 by (auto simp: in_set_conv_nth)
    then show ?thesis using Cons.prems(2,3) 0 oldest_entry_none [of es P cmp "Suc k" "counter e" "Some k"] by simp
  next
    case (Suc i')
    have "\<not> P e" using Cons.prems(4) [of 0] Suc by simp
    moreover have "\<not> P (es ! j)" if "j < length es" "j \<noteq> i'" for j using Cons.prems(4) [of "Suc j"] that Suc by simp
    then have "oldest_entry cmp P (Suc k) es t j = Some (Suc k + i')" using Cons.prems(1-3) Suc by (intro Cons.IH) auto
    ultimately show ?thesis using Suc by simp
  qed
qed simp

text \<open>The other entries are being resolved too, or belong to routers.\<close>

definition others_busy :: "nd6_neighbor_cache_entry list \<Rightarrow> nat \<Rightarrow> bool" where
  "others_busy nc i \<longleftrightarrow> (\<forall>j < length nc. j \<noteq> i \<longrightarrow> nbr_state (nc ! j) \<noteq> ND6_NO_ENTRY \<and> (isrouter (nc ! j) \<or> nbr_state (nc ! j) = ND6_INCOMPLETE))"

lemma recycled_reachable:
  assumes "others_busy nc i" "i < length nc" "nbr_state (nc ! i) = ND6_REACHABLE" "\<not> isrouter (nc ! i)" "counter (nc ! i) < 0xffffffff"
  shows "recycled_entry nc = Some i" "find_idx (\<lambda>e. nbr_state e = ND6_NO_ENTRY) nc = None"
proof -
  have other: "nbr_state (nc ! j) \<noteq> ND6_NO_ENTRY" "isrouter (nc ! j) \<or> nbr_state (nc ! j) = ND6_INCOMPLETE" if "j < length nc" "j \<noteq> i" for j
    using assms(1) that by (auto simp: others_busy_def)
  have all: "(isrouter (nc ! j) \<or> nbr_state (nc ! j) \<in> {ND6_INCOMPLETE, ND6_REACHABLE}) \<and> nbr_state (nc ! j) \<noteq> ND6_NO_ENTRY" if "j < length nc" for j
    using other [OF that] assms(3) by (cases "j = i") auto
  then have ne: "\<forall>e \<in> set nc. isrouter e \<or> nbr_state e \<in> {ND6_INCOMPLETE, ND6_REACHABLE}" "\<forall>e \<in> set nc. nbr_state e \<noteq> ND6_NO_ENTRY"
    by (simp_all add: all_set_conv_all_nth)
  show "find_idx (\<lambda>e. nbr_state e = ND6_NO_ENTRY) nc = None" using ne(2) by (simp add: find_idx_None)
  have "find_idx (\<lambda>e. nbr_state e = x \<and> \<not> isrouter e) nc = None" if "x \<in> {ND6_STALE, ND6_PROBE, ND6_DELAY}" for x
    using ne(1) that by (auto simp: find_idx_None)
  moreover have "oldest_entry (\<lambda>c t. c < t) (\<lambda>e. nbr_state e = ND6_REACHABLE \<and> \<not> isrouter e) 0 nc 0xffffffff None = Some (0 + i)"
  proof (rule oldest_entry_only)
    show "\<not> (nbr_state (nc ! j) = ND6_REACHABLE \<and> \<not> isrouter (nc ! j))" if "j < length nc" "j \<noteq> i" for j using other(2) [OF that] by auto
  qed (use assms(2-5) in simp_all)
  ultimately show "recycled_entry nc = Some i" by (simp add: recycled_entry_def)
qed

text \<open>The first turn: the next hop of the packet needs an entry, and the only one to be had is the one whose queue is being sent.\<close>

lemma recycled_hangs:
  assumes n: "tables_ok n" "i < LWIP_ND6_NUM_NEIGHBORS" "nbr_q (neighbor_cache n ! i) = [q]" "nbr_netif (neighbor_cache n ! i)"
      "nbr_state (neighbor_cache n ! i) = ND6_REACHABLE" "\<not> isrouter (neighbor_cache n ! i)" "counter (neighbor_cache n ! i) < 0xffffffff"
      "others_busy (neighbor_cache n) i" "nd6_queue_size n < MEMP_NUM_ND6_QUEUE"
    and b: "nd_pkts n (q_p q) = [b]" "pbuf_ptr b = q_p q" "ip_packet 14 s b" "IP6_HLEN \<le> unat (p_len b)" "\<not> ip6_addr_ismulticast (pkt_dest b)"
    and h: "pkt_dest b \<in> fst ` set (hops n)" "\<forall>(d, h') \<in> set (hops n). d = pkt_dest b \<longrightarrow> h' = h" "\<forall>e \<in> set (neighbor_cache n). next_hop_address e \<noteq> h"
    and m: "memp_ok pools (al_memp s)" "free_elems (al_memp s) MEMP_ND6_QUEUE \<noteq> {}" "fresh_ok uninit"
      "q_ptr q \<in> set (pool_elems (pools MEMP_ND6_QUEUE)) - free_elems (al_memp s) MEMP_ND6_QUEUE"
    and nif: "length (hwaddr (nd_netif n)) = 6" "link_sends sent lo" "ns_source (nd_netif n) h \<noteq> Some IP6_ADDR_ANY"
  shows "nd6_send_q (nd6_output_ip6 uninit lo) fuel i s n = Inl Hang"
proof (cases fuel)
  case (Suc f)
  let ?e = "neighbor_cache n ! i"
  have il: "i < length (neighbor_cache n)" using n(1,2) by (simp add: tables_ok_def)
  define n0 where "n0 = put_pkt [b] (upd_nbr i (\<lambda>e. e\<lparr>nbr_q := []\<rparr>) n)"
  have n0: "neighbor_cache n0 = (neighbor_cache n)[i := ?e\<lparr>nbr_q := []\<rparr>]" "hops n0 = hops n" "tables_ok n0" "nd_pkts n0 (pbuf_ptr b) = [b]"
    "nd6_queue_size n0 = nd6_queue_size n" "nd_netif n0 = nd_netif n" using n(1) by (simp_all add: n0_def put_pkt_def upd_nbr_def hops_def tables_ok_def)
  from nd6_destination_known [OF n0(3)] h(1) obtain d where d: "d < length (destination_cache n0)" "destination_addr (destination_cache n0 ! d) = pkt_dest b"
    "nd6_destination (pkt_dest b) n0 = Inr (Inr d, n0\<lparr>nd6_cached_destination_index := d\<rparr>)" unfolding n0(2) by blast
  define n1 where "n1 = n0\<lparr>nd6_cached_destination_index := d\<rparr>"
  have n1: "neighbor_cache n1 = (neighbor_cache n)[i := ?e\<lparr>nbr_q := []\<rparr>]" "hops n1 = hops n" "tables_ok n1" "nd_pkts n1 (pbuf_ptr b) = [b]"
    "nd6_queue_size n1 = nd6_queue_size n" "nd_netif n1 = nd_netif n" "destination_cache n1 = destination_cache n0" "d < length (destination_cache n1)"
    using n0 d(1) by (simp_all add: n1_def hops_def tables_ok_def)
  have "(pkt_dest b, next_hop_addr (destination_cache n0 ! d)) \<in> set (hops n0)" using d(1,2) by (auto simp: hops_def image_iff intro!: bexI [of _ "destination_cache n0 ! d"])
  then have nh: "next_hop_addr (destination_cache n1 ! d) = h" using h(2) unfolding n0(2) n1(7) by auto
  have e1: "neighbor_cache n1 ! i = ?e\<lparr>nbr_q := []\<rparr>" "i < length (neighbor_cache n1)" using il by (simp_all add: n1(1))
  have un: "\<forall>e \<in> set (neighbor_cache n1). next_hop_address e \<noteq> h"
  proof -
    have "set (neighbor_cache n1) \<subseteq> insert (?e\<lparr>nbr_q := []\<rparr>) (set (neighbor_cache n))" unfolding n1(1) by (rule set_update_subset_insert)
    moreover have "next_hop_address (?e\<lparr>nbr_q := []\<rparr>) \<noteq> h" using h(3) il by simp
    ultimately show ?thesis using h(3) by blast
  qed
  have busy: "others_busy (neighbor_cache n1) i" using n(8) by (simp add: others_busy_def n1(1))
  note rc = recycled_reachable [OF busy e1(2)]
  have new: "nd6_new_neighbor_cache_entry s n1 = Inr (Some i, s, upd_nbr i no_entry n1)"
    using rc n(2,5,6,7) by (simp add: e1(1) nd6_new_neighbor_cache_entry_def nd6_free_neighbor_cache_entry_def upd_nbr_def no_entry_def)
  have hp: "heap_ok (al_heap s)" using b(3) by (simp add: ip_packet_def)
  from nd6_next_hop_entry_resolve [OF n1(3) e1(2) un d(3) [folded n1_def] n1(8) nh new hp m(3) nif(1) [folded n1(6)] nif(2) nif(3) [folded n1(6)]]
  obtain s1 n2 where r: "nd6_get_next_hop_entry uninit (nd6_output_group lo) (pkt_dest b) s n0 = Inr (Inr i, s1, n2)"
    "neighbor_cache n2 = (neighbor_cache n1)[i := resolving h (no_entry (neighbor_cache n1 ! i))]" "tables_ok n2" "hops n2 = hops n1"
    "nd6_queue_size n2 = nd6_queue_size n1" "heap_keeps s s1" "pkts_keep s (nd_pkts n1) (nd_pkts n2)" by blast
  have e2: "neighbor_cache n2 ! i = resolving h (no_entry (neighbor_cache n1 ! i))" using e1(2) by (simp add: r(2))
  have nb: "neighbour_of n2 i h" by (rule neighbour_of_new [OF r(2) e1(2) _ un]) (simp add: resolving_def)
  have rt: "routes_to n2 (pkt_dest b) i" using h(1,2) nb by (auto simp: routes_to_def r(4) n1(2))
  have pk: "nd_pkts n2 (pbuf_ptr b) = [b]" using r(7) n1(4) b(3) by (simp add: pkts_keep_def pbuf_ptr_def ip_packet_def)
  have "\<exists>s' n'. nd6_send_q (nd6_output_ip6 uninit lo) (Suc f) i s n = nd6_send_q (nd6_output_ip6 uninit lo) f i s' n' \<and> stuck pools i s' n'"
    by (rule nd6_send_q_turn [OF n(2-4) b(1-5) r(1) [unfolded n0_def] r(3) _ _ _ pk rt _ r(6) m(1,2,4)])
      (use n(9) r(5) n1(5) in \<open>simp_all add: e2 resolving_def no_entry_def\<close>)
  then show ?thesis using stuck_hangs Suc by metis
qed simp

text \<open>
  C40: A neighbour advertisement can stop the program. Let the advertisement answer for a neighbour whose queue holds
  a packet, and let a redirect or the loss of a router have changed the next hop of the packet's destination to an address that is
  not in the neighbour cache, with all other entries being resolved or belonging to routers. The
  packet then needs a new entry, and \<open>nd6_new_neighbor_cache_entry\<close> recycles the one that has just become reachable, whose
  queue \<open>nd6_send_q\<close> is sending; the packet goes back into that queue, and the loop sends it again without end:
  \<open>nd6_input\<close> does not return, however long it is watched.
\<close>

theorem nd6_input_hangs:
  assumes "tables_ok (is_net st)" "neighbour_of (is_net st) i target" "\<not> ip6_addr_ismulticast target"
    and "nbr_state (neighbor_cache (is_net st) ! i) = ND6_INCOMPLETE" "length (lladdr (neighbor_cache (is_net st) ! i)) = 6"
      "\<not> isrouter (neighbor_cache (is_net st) ! i)" "nbr_q (neighbor_cache (is_net st) ! i) = [q]"
    and "others_busy (neighbor_cache (is_net st)) i" "reachable_time (is_net st) < 0xffffffff" "nd6_queue_size (is_net st) < MEMP_NUM_ND6_QUEUE"
    and "nd_pkts (is_net st) (q_p q) = [p]" "pbuf_ptr p = q_p q" "ip_packet 14 (is_alloc st) p" "IP6_HLEN \<le> unat (p_len p)" "\<not> ip6_addr_ismulticast (pkt_dest p)"
    and "pkt_dest p \<in> fst ` set (hops (is_net st))" "\<forall>(d, h') \<in> set (hops (is_net st)). d = pkt_dest p \<longrightarrow> h' = h"
      "\<forall>e \<in> set (neighbor_cache (is_net st)). next_hop_address e \<noteq> h"
    and "memp_ok pools (al_memp (is_alloc st))" "free_elems (al_memp (is_alloc st)) MEMP_ND6_QUEUE \<noteq> {}" "fresh_ok uninit"
      "q_ptr q \<in> set (pool_elems (pools MEMP_ND6_QUEUE)) - free_elems (al_memp (is_alloc st)) MEMP_ND6_QUEUE"
    and "length (hwaddr (nd_netif (is_net st))) = 6" "link_sends sent lo" "ns_source (nd_netif (is_net st)) h \<noteq> Some IP6_ADDR_ANY"
    and "is_na b flags target mac" "from_link b st" "\<not> ip6_addr_ismulticast (current_iphdr_dest (is_ip st))"
      "payload b + unat (p_len b) \<le> length (pbuf_mem b)"
  shows "nd6_input uninit (nd6_output_ip6 uninit lo) rand fuel (b # bs) inp st = Inl Hang"
proof -
  let ?n = "is_net st" and ?e = "neighbor_cache (is_net st) ! i"
  obtain h' where h: "mem_get (pbuf_mem b) (payload b) = Inr ICMP6_TYPE_NA" "mem_read (pbuf_mem b) (payload b) 24 = Inr h'"
    "h' ! 1 = 0" "h' ! 4 = flags" "ip6_addr_of_bytes (drop 8 h') = target" "lladdr_opt_fits b 24 = Inr True" "unat (p_len b) = 32"
    "lladdr_opt_addr b 24 ?n = Inr mac"
    using is_na_fields [OF assms(26,29), of ?n] assms(23) by metis
  have lm: "length mac = 6" using assms(26) by (simp add: is_na_def)
  have il: "i < length (neighbor_cache ?n)" "i < LWIP_ND6_NUM_NEIGHBORS" using assms(1,2) by (simp_all add: neighbour_of_def tables_ok_def)
  define e where "e = ?e\<lparr>lladdr := mac, nbr_netif := True, nbr_state := ND6_REACHABLE, counter := reachable_time ?n\<rparr>"
  define n where "n = ?n\<lparr>neighbor_cache := (neighbor_cache ?n)[i := e]\<rparr>"
  have n: "neighbor_cache n ! i = e" "hops n = hops ?n" "nd_pkts n = nd_pkts ?n" "nd_netif n = nd_netif ?n" "nd6_queue_size n = nd6_queue_size ?n" "tables_ok n"
    using il(1) assms(1) by (simp_all add: n_def hops_def tables_ok_def)
  have "set (neighbor_cache n) \<subseteq> insert e (set (neighbor_cache ?n))" unfolding n_def by (simp add: set_update_subset_insert)
  moreover have "next_hop_address e \<noteq> h" using assms(18) il(1) by (simp add: e_def)
  ultimately have un: "\<forall>x \<in> set (neighbor_cache n). next_hop_address x \<noteq> h" using assms(18) by blast
  have busy: "others_busy (neighbor_cache n) i" using assms(8) by (simp add: others_busy_def n_def)
  have hang: "nd6_send_q (nd6_output_ip6 uninit lo) fuel i (is_alloc st) n = Inl Hang"
    by (rule recycled_hangs [OF n(6) il(2) _ _ _ _ _ busy _ _ assms(12-15) _ _ un assms(19-22) _ assms(24)])
      (use assms(6,7,9,10,11,16,17,23,25) n in \<open>simp_all add: e_def\<close>)
  have "nd6_input uninit (nd6_output_ip6 uninit lo) rand fuel (b # bs) inp st
      = nd6_confirm (nd6_output_ip6 uninit lo) fuel b bs i (st\<lparr>is_net := upd_nbr i (set_lladdr mac) ?n\<rparr>)"
    using h assms(3,4,27,28) neighbour_of_find [OF assms(2)]
    by (simp add: nd6_input_def nd6_input_na_def nd6_solicited_na_def from_link_def Let_def)
  moreover have "upd_nbr i (\<lambda>e. e\<lparr>nbr_netif := True, nbr_state := ND6_REACHABLE, counter := reachable_time (upd_nbr i (set_lladdr mac) ?n)\<rparr>)
      (upd_nbr i (set_lladdr mac) ?n) = n"
    using il(1) set_lladdr_6 [OF assms(5) lm] by (simp add: n_def upd_nbr_def e_def)
  moreover have "nbr_q (neighbor_cache n ! i) \<noteq> []" using assms(7) by (simp add: n(1) e_def)
  ultimately show ?thesis using hang by (simp add: nd6_confirm_def on_nd_def Let_def)
qed

section \<open>Witness\<close>

text \<open>A redirect has sent \<open>peer\<close> to \<open>hop\<close>; the nine other entries are being resolved.\<close>

definition hop :: ip6_addr where "hop = IP6 0xfe800000 0 0 0x99"

definition busy9 :: "nd6_neighbor_cache_entry list" where
  "busy9 = map (\<lambda>k. resolving (IP6 0xfe800000 0 1 k) nbr0) [1, 2, 3, 4, 5, 6, 7, 8, 9]"

definition nd2 :: "pbuf \<Rightarrow> nat \<Rightarrow> bytes list nd6" where
  "nd2 b x = (nd1 b x)\<lparr>neighbor_cache := (resolving peer nbr0)\<lparr>nbr_q := [\<lparr>q_ptr = x, q_p = pbuf_ptr b\<rparr>]\<rparr> # busy9,
     destination_cache := dst0\<lparr>destination_addr := peer, next_hop_addr := hop\<rparr> # replicate 9 dst0\<rparr>"

lemma busy9: "length busy9 = 9" "\<forall>e \<in> set busy9. nbr_state e = ND6_INCOMPLETE \<and> next_hop_address e \<noteq> peer \<and> next_hop_address e \<noteq> hop"
  by (simp_all add: busy9_def resolving_def peer_def hop_def)

lemma nd2_tables:
  "tables_ok (nd2 b x)" "neighbour_of (nd2 b x) 0 peer" "others_busy (neighbor_cache (nd2 b x)) 0"
  "hops (nd2 b x) = (peer, hop) # replicate 9 (IP6_ADDR_ANY, IP6_ADDR_ANY)" "\<forall>e \<in> set (neighbor_cache (nd2 b x)). next_hop_address e \<noteq> hop"
  "neighbor_cache (nd2 b x) ! 0 = (resolving peer nbr0)\<lparr>nbr_q := [\<lparr>q_ptr = x, q_p = pbuf_ptr b\<rparr>]\<rparr>"
proof -
  have b: "nbr_state (busy9 ! j) = ND6_INCOMPLETE" "next_hop_address (busy9 ! j) \<noteq> peer" if "j < 9" for j
    using busy9 that by (metis nth_mem)+
  show "neighbour_of (nd2 b x) 0 peer" using b(2) busy9(1)
    by (auto simp: neighbour_of_def nd2_def resolving_def nth_Cons split: nat.splits)
  show "others_busy (neighbor_cache (nd2 b x)) 0" using b(1) busy9(1)
    by (auto simp: others_busy_def nd2_def nth_Cons split: nat.splits)
  show "\<forall>e \<in> set (neighbor_cache (nd2 b x)). next_hop_address e \<noteq> hop" using busy9(2)
    by (simp add: nd2_def resolving_def) (simp add: peer_def hop_def)
qed (auto simp: nd2_def nd1_def nd0_def tables_ok_def hops_def LWIP_ND6_NUM_NEIGHBORS_def LWIP_ND6_NUM_DESTINATIONS_def dst0_def busy9(1))

lemma sample_queue_free:
  "\<exists>b s x m. pbuf_alloc zeros PBUF_IP 8 PBUF_RAM alloc0 = Inr ([b], s) \<and> (\<forall>m. ip_packet 54 (s\<lparr>al_memp := m\<rparr>) b)
     \<and> memp_ok sample_pools m \<and> x \<in> set (pool_elems (sample_pools MEMP_ND6_QUEUE)) - free_elems m MEMP_ND6_QUEUE
     \<and> free_elems m MEMP_ND6_QUEUE \<noteq> {}"
proof -
  obtain b s where b: "pbuf_alloc zeros PBUF_IP 8 PBUF_RAM alloc0 = Inr ([b], s)" "ip_packet 54 s b" by (rule alloc0_packet)
  let ?F = "free_elems (al_memp alloc0) MEMP_ND6_QUEUE"
  have F: "?F = set (pool_elems (sample_pools MEMP_ND6_QUEUE))"
    using memp_init_free_elems [OF sample_pools_ok] by (simp add: alloc0_def memp0_def)
  from memp_malloc_some [OF alloc0_ok(2) alloc0_queue_elems] obtain x m where
    m: "x \<in> ?F" "memp_ok sample_pools m" "free_elems m MEMP_ND6_QUEUE = ?F - {x}" by auto
  have "card ?F = 20" unfolding F card_pool_elems [OF sample_pools_ok] by (simp add: sample_pools_def)
  then have "card (?F - {x}) = 19" using m(1) by (simp add: card_Diff_singleton)
  then have ne: "free_elems m MEMP_ND6_QUEUE \<noteq> {}" unfolding m(3) by (metis card.empty zero_neq_numeral)
  have ip: "\<forall>m. ip_packet 54 (s\<lparr>al_memp := m\<rparr>) b" using b(2) by (simp add: ip_packet_def)
  have x: "x \<in> set (pool_elems (sample_pools MEMP_ND6_QUEUE)) - free_elems m MEMP_ND6_QUEUE" using m(1) unfolding m(3) F by simp
  show ?thesis by (intro exI [of _ b] exI [of _ s] exI [of _ x] exI [of _ m] conjI b(1) ip m(2) x ne)
qed

theorem nd6_input_hangs_witness:
  "\<exists>b s x m. pbuf_alloc zeros PBUF_IP 8 PBUF_RAM alloc0 = Inr ([b], s) \<and>
     nd6_input zeros (nd6_output_ip6 zeros log_link) (Pair 7) 1000 [na_buf 4 [2, 0, 0, 0, 0, 9]] sample_netif
       (na_state (s\<lparr>al_memp := m\<rparr>) (nd2 (hello b) x)) = Inl Hang"
proof -
  let ?mac = "[2, 0, 0, 0, 0, 9] :: bytes"
  obtain b s x m where b: "pbuf_alloc zeros PBUF_IP 8 PBUF_RAM alloc0 = Inr ([b], s)" "\<forall>m. ip_packet 54 (s\<lparr>al_memp := m\<rparr>) b"
    and m: "memp_ok sample_pools m" "x \<in> set (pool_elems (sample_pools MEMP_ND6_QUEUE)) - free_elems m MEMP_ND6_QUEUE" "free_elems m MEMP_ND6_QUEUE \<noteq> {}"
    using sample_queue_free by blast
  define s2 where "s2 = s\<lparr>al_memp := m\<rparr>"
  define st where "st = na_state s2 (nd2 (hello b) x)"
  have st: "is_net st = nd2 (hello b) x" "is_alloc st = s2" by (simp_all add: st_def na_state_def)
  have ip: "ip_packet 54 s2 b" using b(2) by (simp add: s2_def)
  note h = hello_packet [OF ip] and t = nd2_tables [of "hello b" x, folded st(1)]
  have na: "is_na (na_buf 4 ?mac) 0x60 peer ?mac" "from_link (na_buf 4 ?mac) st" unfolding st_def by (rule na_buf_ok, simp)+
  have mem: "payload (na_buf 4 ?mac) + unat (p_len (na_buf 4 ?mac)) \<le> length (pbuf_mem (na_buf 4 ?mac))" by (simp add: na_buf_def ip6_packet_def na_message_def)
  have dest: "\<not> ip6_addr_ismulticast (current_iphdr_dest (is_ip st))" by (simp add: st_def na_state_def ping_state_def)
  have n: "reachable_time (is_net st) < 0xffffffff" "nd6_queue_size (is_net st) < MEMP_NUM_ND6_QUEUE" "nd_pkts (is_net st) (pbuf_ptr (hello b)) = [hello b]"
    "length (hwaddr (nd_netif (is_net st))) = 6" "ns_source (nd_netif (is_net st)) hop \<noteq> Some IP6_ADDR_ANY"
    by (simp_all add: st(1) nd2_def nd1_def nd0_def LWIP_ND6_REACHABLE_TIME_def MEMP_NUM_ND6_QUEUE_def sample_netif_def ns_source_def hop_def
        ip6_addr_isvalid_def IP6_ADDR_VALID_def IP6_ADDR_ANY_def)
  have any: "peer \<noteq> IP6_ADDR_ANY" by (simp add: peer_def IP6_ADDR_ANY_def)
  have "nd6_input zeros (nd6_output_ip6 zeros log_link) (Pair 7) 1000 [na_buf 4 ?mac] sample_netif st = Inl Hang"
    by (rule nd6_input_hangs [where i = 0 and q = "\<lparr>q_ptr = x, q_p = pbuf_ptr (hello b)\<rparr>" and p = "hello b" and h = hop and pools = sample_pools
          and sent = "\<lambda>l. l", OF t(1,2) nd0_tables(4) _ _ _ _ t(3) n(1,2) _ _ _ _ _ _ _ t(5) _ _ zeros_fresh _ n(4) log_link_sends n(5) na dest mem])
      (use h m nd0_tables(4) n(3) t(4,6) any in \<open>auto simp: st(2) s2_def resolving_def nbr0_def zeros_def\<close>)
  then show ?thesis using b(1) unfolding st_def s2_def by blast
qed

end
