(* ===== verification/Nd6_Dad.thy ===== *)
theory Nd6_Dad
  imports Nd6_Discovery
begin

text \<open>
  Duplicate address detection (\<open>nd6_tmr\<close>, \<open>nd6_input\<close> and \<open>nd6_duplicate_addr_detected\<close> of lwip/src/core/ipv6/nd6.c with
  \<open>netif_ip6_addr_set_state\<close> of lwip/src/core/netif.c): the states of the addresses of the interface and the solicited-node groups it
  has joined for them.
\<close>

section \<open>What is relied on\<close>

text \<open>The output function does not touch the interface, and neither does the random number generator.\<close>

definition keeps_netif :: "'n nd6 output_ip6_fn \<Rightarrow> bool" where
  "keeps_netif out \<longleftrightarrow> (\<forall>nif p d s n err p' s' n'. out nif p d s n = Inr (err, p', s', n') \<longrightarrow> nd_netif n' = nd_netif n)"

definition dad_env :: "(memp_t \<Rightarrow> memp_desc) \<Rightarrow> (nat \<Rightarrow> bytes) \<Rightarrow> 'n nd6 output_ip6_fn \<Rightarrow> 'n nd6 rand_fn \<Rightarrow> bool" where
  "dad_env pools uninit out rand \<longleftrightarrow>
     output_ok pools out \<and> fresh_ok uninit \<and> keeps_netif out \<and> (\<forall>n. nd_netif (snd (rand n)) = nd_netif n)"

lemma ip6_output_if_netif:
  assumes "keeps_netif out" "ip6_output_if out p src dest hl tc nxt netif s n = Inr (err, p', s', n')"
  shows "nd_netif n' = nd_netif n"
proof -
  have src: "nd_netif n' = nd_netif n" if "ip6_output_if_src out p a dest hl tc nxt netif s n = Inr (err, p', s', n')" for a
    using that assms(1) unfolding ip6_output_if_src_def keeps_netif_def
    by (auto split: list.splits if_splits option.splits sum.splits bool.splits prod.splits)
  show ?thesis using assms(2) src unfolding ip6_output_if_def by (auto split: option.splits if_splits)
qed

lemma mld6_send_netif:
  assumes "keeps_netif out" "mld6_send uninit out netif type g s n = Inr (g', s', n')"
  shows "nd_netif n' = nd_netif n"
  using assms(2) ip6_output_if_netif [OF assms(1)] unfolding mld6_send_def Let_def
  by (auto simp: map_sum_def split: list.splits if_splits option.splits sum.splits bool.splits prod.splits)

lemma mld6_delayed_report_netif:
  assumes "\<And>n. nd_netif (snd (rand n)) = nd_netif n"
  shows "nd_netif (snd (mld6_delayed_report rand m g n)) = nd_netif n"
  using assms [of n] by (auto simp: mld6_delayed_report_def Let_def split: prod.splits)

lemma mld6_join_netif:
  assumes "keeps_netif out" "\<And>n. nd_netif (snd (rand n)) = nd_netif n"
    and "mld6_joingroup_netif uninit out rand netif a gs s n = Inr (err, gs', s', n')"
  shows "nd_netif n' = nd_netif n"
  using assms(3) mld6_send_netif [OF assms(1)] mld6_delayed_report_netif [of rand MLD6_JOIN_DELAYING_MEMBER_TMR_MS, OF assms(2)]
  unfolding mld6_joingroup_netif_def Let_def
  by (auto split: list.splits option.splits sum.splits prod.splits) (metis snd_conv)+

lemma mld6_leave_netif:
  assumes "keeps_netif out" "mld6_leavegroup_netif uninit out netif a gs s n = Inr (err, gs', s', n')"
  shows "nd_netif n' = nd_netif n"
  using assms(2) mld6_send_netif [OF assms(1)] unfolding mld6_leavegroup_netif_def Let_def
  by (auto simp: map_sum_def split: list.splits option.splits sum.splits prod.splits if_splits)

lemma mld6_report_groups_uses:
  assumes "\<And>n. nd_netif (snd (rand n)) = nd_netif n" "\<forall>g \<in> set gs. group_wf g" "mld6_report_groups rand gs n = (gs', n')"
  shows "map grp_ptr gs' = map grp_ptr gs" "map group_address gs' = map group_address gs" "\<forall>g \<in> set gs'. group_wf g"
    "mld_uses gs' = mld_uses gs" "nd_netif n' = nd_netif n"
proof -
  have "map grp_ptr gs' = map grp_ptr gs \<and> map group_address gs' = map group_address gs \<and> (\<forall>g \<in> set gs'. group_wf g)
    \<and> mld_uses gs' = mld_uses gs \<and> nd_netif n' = nd_netif n"
    using assms(2,3)
  proof (induction gs arbitrary: gs' n n')
    case (Cons g gs)
    obtain g1 n1 where g1: "mld6_delayed_report rand MLD6_JOIN_DELAYING_MEMBER_TMR_MS g n = (g1, n1)" by (metis surj_pair)
    obtain gs2 n2 where r: "mld6_report_groups rand gs n1 = (gs2, n2)" by (metis surj_pair)
    have wf: "group_wf g" "\<forall>g \<in> set gs. group_wf g" using Cons.prems(1) by simp_all
    note w = mld6_delayed_report_wf [OF wf(1), of rand MLD6_JOIN_DELAYING_MEMBER_TMR_MS n, unfolded g1 fst_conv]
      and nn = mld6_delayed_report_netif [OF assms(1), of MLD6_JOIN_DELAYING_MEMBER_TMR_MS g n, unfolded g1 snd_conv]
    have eq: "gs' = g1 # gs2" "n' = n2" using Cons.prems(2) g1 r by simp_all
    from Cons.IH [OF wf(2) r] have "mld_uses (g1 # gs2) = mld_uses (g # gs)" using w by (simp add: mld_uses_def fun_eq_iff)
    then show ?case unfolding eq using Cons.IH [OF wf(2) r] w nn by simp
  qed simp
  then show "map grp_ptr gs' = map grp_ptr gs" "map group_address gs' = map group_address gs" "\<forall>g \<in> set gs'. group_wf g"
    "mld_uses gs' = mld_uses gs" "nd_netif n' = nd_netif n" by simp_all
qed

section \<open>The state of an address and its group\<close>

text \<open>A group that can be joined: another use is counted, or there is an element for a new group.\<close>

definition can_join :: "ip6_addr \<Rightarrow> ('cb, 'n) ip6_state \<Rightarrow> bool" where
  "can_join g st \<longleftrightarrow> mld_uses (is_mld st) g < 255
     \<and> (mld6_lookfor_group (is_mld st) g \<noteq> None \<or> free_elems (al_memp (is_alloc st)) MEMP_MLD6_GROUP \<noteq> {})"

text \<open>
  The step from \<open>st\<close> to \<open>st'\<close> keeps the memory well formed and the receive buffers as they are, and the use of group
  \<open>g\<close> is \<open>k\<close> afterwards.
\<close>

definition regroups :: "(memp_t \<Rightarrow> memp_desc) \<Rightarrow> ip6_addr \<Rightarrow> nat \<Rightarrow> ('cb, 'n nd6) ip6_state \<Rightarrow> ('cb, 'n nd6) ip6_state \<Rightarrow> bool" where
  "regroups pools g k st st' \<longleftrightarrow> mld_ok pools (is_mld st') (is_alloc st')
     \<and> free_elems (al_memp (is_alloc st')) MEMP_PBUF_POOL = free_elems (al_memp (is_alloc st)) MEMP_PBUF_POOL
     \<and> mld_uses (is_mld st') = (mld_uses (is_mld st))(g := k)"

definition group_use_after :: "u8 \<Rightarrow> u8 \<Rightarrow> nat \<Rightarrow> nat" where
  "group_use_after old new k = k + of_bool (solicited_member new) - of_bool (solicited_member old)"

lemma nd6_adjust_mld_membership_ok:
  assumes env: "dad_env pools uninit out rand" and ok: "mld_ok pools (is_mld st) (is_alloc st)"
    and i: "i < length (nd_addrs st)" "nd_addrs st ! i = (a, old)"
    and room: "solicited_member new \<Longrightarrow> \<not> solicited_member old \<Longrightarrow> can_join (ip6_addr_solicitednode a) st"
    and joined: "solicited_member old \<Longrightarrow> 0 < mld_uses (is_mld st) (ip6_addr_solicitednode a)"
  shows "\<exists>gs s n. nd6_adjust_mld_membership uninit out rand i new st = Inr (st\<lparr>is_mld := gs, is_alloc := s, is_net := n\<rparr>)
    \<and> regroups pools (ip6_addr_solicitednode a) (group_use_after old new (mld_uses (is_mld st) (ip6_addr_solicitednode a))) st
        (st\<lparr>is_mld := gs, is_alloc := s, is_net := n\<rparr>) \<and> nd_netif n = nd_netif (is_net st)"
proof -
  let ?g = "ip6_addr_solicitednode a" and ?nif = "nd_netif (is_net st)"
  have e: "output_ok pools out" "fresh_ok uninit" "keeps_netif out" "\<And>n. nd_netif (snd (rand n)) = nd_netif n"
    using env by (simp_all add: dad_env_def)
  have nif: "ip6_addrs ?nif \<noteq> []" using i(1) by (auto simp: nd_addrs_def)
  have eq: "nd6_adjust_mld_membership uninit out rand i new st =
      (if solicited_member old = solicited_member new then Inr st
       else map_sum id (\<lambda>(err, gs, s, n). st\<lparr>is_mld := gs, is_alloc := s, is_net := n\<rparr>)
              (if solicited_member new then mld6_joingroup_netif uninit out rand ?nif ?g (is_mld st) (is_alloc st) (is_net st)
               else mld6_leavegroup_netif uninit out ?nif ?g (is_mld st) (is_alloc st) (is_net st)))"
    by (simp add: nd6_adjust_mld_membership_def i(2))
  consider (same) "solicited_member old = solicited_member new" | (join) "solicited_member new" "\<not> solicited_member old"
    | (leave) "solicited_member old" "\<not> solicited_member new" by blast
  then show ?thesis
  proof cases
    case same
    then show ?thesis using ok
      by (intro exI [of _ "is_mld st"] exI [of _ "is_alloc st"] exI [of _ "is_net st"]) (simp add: eq regroups_def group_use_after_def)
  next
    case join
    have c: "mld_uses (is_mld st) ?g < 255" "\<not> (mld6_lookfor_group (is_mld st) ?g = None \<and> free_elems (al_memp (is_alloc st)) MEMP_MLD6_GROUP = {})"
      using room [OF join] by (auto simp: can_join_def)
    from mld6_join_uses [OF ok e(1,2) nif c(1), of rand "is_net st"] obtain err gs s n where
      j: "mld6_joingroup_netif uninit out rand ?nif ?g (is_mld st) (is_alloc st) (is_net st) = Inr (err, gs, s, n)" "mld_ok pools gs s"
        "free_elems (al_memp s) MEMP_PBUF_POOL = free_elems (al_memp (is_alloc st)) MEMP_PBUF_POOL"
        "mld_uses gs = (mld_uses (is_mld st))(?g := mld_uses (is_mld st) ?g + 1)"
      using c(2) by (auto split: if_splits)
    then show ?thesis using join mld6_join_netif [OF e(3,4) j(1)]
      by (intro exI [of _ gs] exI [of _ s] exI [of _ n]) (simp add: eq regroups_def group_use_after_def)
  next
    case leave
    have l: "mld6_lookfor_group (is_mld st) ?g \<noteq> None" using joined [OF leave(1)] by (cases "mld6_lookfor_group (is_mld st) ?g") (simp_all add: mld_uses_def)
    from mld6_leave_uses [OF ok e(1,2) nif, of ?g "is_net st"] obtain err gs s n where
      j: "mld6_leavegroup_netif uninit out ?nif ?g (is_mld st) (is_alloc st) (is_net st) = Inr (err, gs, s, n)" "mld_ok pools gs s"
        "free_elems (al_memp s) MEMP_PBUF_POOL = free_elems (al_memp (is_alloc st)) MEMP_PBUF_POOL"
        "mld_uses gs = (mld_uses (is_mld st))(?g := mld_uses (is_mld st) ?g - 1)"
      using l by auto
    then show ?thesis using leave mld6_leave_netif [OF e(3) j(1)]
      by (intro exI [of _ gs] exI [of _ s] exI [of _ n]) (simp add: eq regroups_def group_use_after_def)
  qed
qed

lemma netif_issue_reports_ok:
  assumes env: "dad_env pools uninit out rand" and ok: "mld_ok pools (is_mld st) (is_alloc st)"
  shows "mld_ok pools (is_mld (netif_issue_reports rand st)) (is_alloc (netif_issue_reports rand st))"
    "mld_uses (is_mld (netif_issue_reports rand st)) = mld_uses (is_mld st)" "nd_addrs (netif_issue_reports rand st) = nd_addrs st"
    "nd_netif (is_net (netif_issue_reports rand st)) = nd_netif (is_net st)"
    "is_alloc (netif_issue_reports rand st) = is_alloc st" "is_ip (netif_issue_reports rand st) = is_ip st"
proof -
  obtain gs n where r: "mld6_report_groups rand (is_mld st) (is_net st) = (gs, n)" by (metis surj_pair)
  have rand: "\<And>n. nd_netif (snd (rand n)) = nd_netif n" using env by (simp add: dad_env_def)
  have wf: "\<forall>g \<in> set (is_mld st). group_wf g" using ok by (simp add: mld_ok_def)
  note m = mld6_report_groups_uses [OF rand wf r]
  have "grp_ptr ` set gs = grp_ptr ` set (is_mld st)" using m(1) by (metis image_set)
  moreover have "\<forall>x \<in> grp_ptr ` set (is_mld st). x \<in> set (pool_elems (pools MEMP_MLD6_GROUP)) - free_elems (al_memp (is_alloc st)) MEMP_MLD6_GROUP"
    using ok by (auto simp: mld_ok_def)
  ultimately have "\<forall>x \<in> grp_ptr ` set gs. x \<in> set (pool_elems (pools MEMP_MLD6_GROUP)) - free_elems (al_memp (is_alloc st)) MEMP_MLD6_GROUP"
    by simp
  then have "mld_ok pools gs (is_alloc st)" using ok m(1-3) by (simp add: mld_ok_def)
  then show "mld_ok pools (is_mld (netif_issue_reports rand st)) (is_alloc (netif_issue_reports rand st))"
    "mld_uses (is_mld (netif_issue_reports rand st)) = mld_uses (is_mld st)" "nd_addrs (netif_issue_reports rand st) = nd_addrs st"
    "nd_netif (is_net (netif_issue_reports rand st)) = nd_netif (is_net st)"
    "is_alloc (netif_issue_reports rand st) = is_alloc st" "is_ip (netif_issue_reports rand st) = is_ip st"
    using ok m(4,5) by (simp_all add: netif_issue_reports_def r nd_addrs_def)
qed

text \<open>
  \<open>netif_ip6_addr_set_state\<close> gives one address its new state, and counts the use of its solicited-node group accordingly.
\<close>

definition readdresses ::
  "(memp_t \<Rightarrow> memp_desc) \<Rightarrow> nat \<Rightarrow> ip6_addr \<Rightarrow> u8 \<Rightarrow> u8 \<Rightarrow> ('cb, 'n nd6) ip6_state \<Rightarrow> ('cb, 'n nd6) ip6_state \<Rightarrow> bool" where
  "readdresses pools i a old new st st' \<longleftrightarrow>
     regroups pools (ip6_addr_solicitednode a) (group_use_after old new (mld_uses (is_mld st) (ip6_addr_solicitednode a))) st st'
     \<and> nd_netif (is_net st') = (nd_netif (is_net st))\<lparr>ip6_addrs := (nd_addrs st)[i := (a, new)]\<rparr> \<and> is_ip st' = is_ip st"

lemma readdresses_addrs: "readdresses pools i a old new st st' \<Longrightarrow> nd_addrs st' = (nd_addrs st)[i := (a, new)]"
  by (simp add: readdresses_def nd_addrs_def)

lemma netif_ip6_addr_set_state_ok:
  assumes env: "dad_env pools uninit out rand" and ok: "mld_ok pools (is_mld st) (is_alloc st)"
    and i: "i < LWIP_IPV6_NUM_ADDRESSES" "i < length (nd_addrs st)" "nd_addrs st ! i = (a, old)"
    and room: "solicited_member new \<Longrightarrow> \<not> solicited_member old \<Longrightarrow> can_join (ip6_addr_solicitednode a) st"
    and joined: "solicited_member old \<Longrightarrow> 0 < mld_uses (is_mld st) (ip6_addr_solicitednode a)"
  shows "\<exists>st'. netif_ip6_addr_set_state uninit out rand i new st = Inr st' \<and> readdresses pools i a old new st st'"
proof (cases "old = new")
  case True
  have "(nd_addrs st)[i := (a, new)] = nd_addrs st" using i(3) True by (metis list_update_id)
  then have "readdresses pools i a old new st st" using True ok by (simp add: readdresses_def regroups_def group_use_after_def nd_addrs_def)
  then show ?thesis using True i by (simp add: netif_ip6_addr_set_state_def)
next
  case False
  from nd6_adjust_mld_membership_ok [OF env ok i(2,3) room joined] obtain gs s n where
    adj: "nd6_adjust_mld_membership uninit out rand i new st = Inr (st\<lparr>is_mld := gs, is_alloc := s, is_net := n\<rparr>)"
      "regroups pools (ip6_addr_solicitednode a) (group_use_after old new (mld_uses (is_mld st) (ip6_addr_solicitednode a))) st
        (st\<lparr>is_mld := gs, is_alloc := s, is_net := n\<rparr>)" "nd_netif n = nd_netif (is_net st)"
    by blast
  define st2 where "st2 = (if ip6_addr_isvalid old \<and> \<not> ip6_addr_isvalid new
      then st\<lparr>is_mld := gs, is_alloc := s, is_net := n, is_udp := udp_netif_ip_addr_changed (Some a) None (is_udp st)\<rparr>
      else st\<lparr>is_mld := gs, is_alloc := s, is_net := n\<rparr>)"
  define st3 where "st3 = st2\<lparr>is_net := put_addr_state i new n\<rparr>"
  have st3: "is_mld st3 = gs" "is_alloc st3 = s" "is_ip st3 = is_ip st" by (simp_all add: st3_def st2_def)
  have "nd_netif (put_addr_state i new n) = (nd_netif (is_net st))\<lparr>ip6_addrs := (nd_addrs st)[i := (a, new)]\<rparr>"
    using i(3) adj(3) by (simp add: put_addr_state_def Let_def nd_addrs_def)
  then have n3: "nd_netif (is_net st3) = (nd_netif (is_net st))\<lparr>ip6_addrs := (nd_addrs st)[i := (a, new)]\<rparr>" by (simp add: st3_def)
  have eq: "netif_ip6_addr_set_state uninit out rand i new st =
      Inr (if \<not> ip6_addr_isvalid old \<and> ip6_addr_isvalid new then netif_issue_reports rand st3 else st3)"
    using i False adj(1) by (simp add: netif_ip6_addr_set_state_def st3_def st2_def Let_def)
  have ok3: "mld_ok pools (is_mld st3) (is_alloc st3)" using adj(2) by (simp add: st3 regroups_def)
  have "readdresses pools i a old new st st3" using adj(2) n3 by (simp add: readdresses_def regroups_def st3)
  moreover have "readdresses pools i a old new st (netif_issue_reports rand st3)"
    using adj(2) n3 netif_issue_reports_ok [OF env ok3] by (simp add: readdresses_def regroups_def st3)
  ultimately show ?thesis unfolding eq by simp
qed

text \<open>
  The invariant: for every group, the addresses whose solicited-node group it is and that take part in neighbour discovery
  (all but the invalid, the duplicated and the ones not yet probed) are counted among the uses of the group.
\<close>

definition sol_uses :: "(ip6_addr \<times> u8) list \<Rightarrow> ip6_addr \<Rightarrow> nat" where
  "sol_uses as g = length (filter (\<lambda>(a, st). solicited_member st \<and> ip6_addr_solicitednode a = g) as)"

definition groups_joined :: "('cb, 'n nd6) ip6_state \<Rightarrow> bool" where
  "groups_joined st \<longleftrightarrow> (\<forall>g. sol_uses (nd_addrs st) g \<le> mld_uses (is_mld st) g)"

lemma sol_uses_split:
  assumes "i < length as"
  shows "sol_uses (as[i := x]) g = sol_uses (take i as) g + sol_uses [x] g + sol_uses (drop (Suc i) as) g"
  using assms by (simp add: sol_uses_def upd_conv_take_nth_drop)

lemma sol_uses_update:
  assumes "i < length as" "as ! i = (a, old)"
  shows "sol_uses (as[i := (a, new)]) g = (if g = ip6_addr_solicitednode a then group_use_after old new (sol_uses as g) else sol_uses as g)"
    "solicited_member old \<Longrightarrow> 0 < sol_uses as (ip6_addr_solicitednode a)"
proof -
  have "sol_uses as g = sol_uses (take i as) g + sol_uses [(a, old)] g + sol_uses (drop (Suc i) as) g" for g
    using sol_uses_split [OF assms(1), of "(a, old)" g] assms(2) by (metis list_update_id)
  then show "sol_uses (as[i := (a, new)]) g = (if g = ip6_addr_solicitednode a then group_use_after old new (sol_uses as g) else sol_uses as g)"
    "solicited_member old \<Longrightarrow> 0 < sol_uses as (ip6_addr_solicitednode a)"
    unfolding sol_uses_split [OF assms(1)] by (simp_all add: group_use_after_def) (auto simp: sol_uses_def)
qed

lemma groups_joined_uses:
  assumes "groups_joined st" "i < length (nd_addrs st)" "nd_addrs st ! i = (a, ast)" "solicited_member ast"
  shows "0 < mld_uses (is_mld st) (ip6_addr_solicitednode a)"
  using assms(1) sol_uses_update(2) [OF assms(2-4)] order.strict_trans2 unfolding groups_joined_def by blast

lemma groups_joined_readdresses:
  assumes "groups_joined st" "readdresses pools i a old new st st'" "i < length (nd_addrs st)" "nd_addrs st ! i = (a, old)"
  shows "groups_joined st'"
proof -
  let ?g = "ip6_addr_solicitednode a"
  have "sol_uses (nd_addrs st) ?g \<le> mld_uses (is_mld st) ?g" using assms(1) by (simp add: groups_joined_def)
  then have "group_use_after old new (sol_uses (nd_addrs st) ?g) \<le> group_use_after old new (mld_uses (is_mld st) ?g)"
    by (simp add: group_use_after_def)
  moreover have "mld_uses (is_mld st') = (mld_uses (is_mld st))(?g := group_use_after old new (mld_uses (is_mld st) ?g))"
    using assms(2) by (simp add: readdresses_def regroups_def)
  ultimately show ?thesis
    using assms(1) unfolding groups_joined_def readdresses_addrs [OF assms(2)] sol_uses_update(1) [OF assms(3,4)] by simp
qed

section \<open>Properties\<close>



subsection \<open>The probe\<close>

lemma nd6_message_plain:
  assumes "heap_ok (al_heap s)" "fresh_ok uninit" "length msg \<le> 1000"
  obtains "nd6_message uninit msg None s = Inr ([], s)"
  | b s1 where "nd6_message uninit msg None s = Inr ([b], s1)" "ip_packet 54 s1 b" "chain_data [b] = msg" "al_memp s1 = al_memp s"
proof -
  define k :: u16 where "k = of_nat (length msg)"
  have uk: "unat k = length msg" unfolding k_def by (subst unat_of_nat) (use assms(3) in simp)
  have eq: "nd6_message uninit msg None s = (case pbuf_alloc uninit PBUF_IP k PBUF_RAM s of
      Inl e \<Rightarrow> Inl e | Inr ([], s1) \<Rightarrow> Inr ([], s1) | Inr (b # bs, s1) \<Rightarrow> (case write_payload b 0 msg of Inl e \<Rightarrow> Inl e | Inr b1 \<Rightarrow> Inr (b1 # bs, s1)))"
    unfolding nd6_message_def k_def option.case add_0_right ..
  have "unat k + 54 < 65536" using uk assms(3) by simp
  from pbuf_alloc_ip [OF assms(1,2) this] show thesis
  proof cases
    case 1
    then show ?thesis using that(1) by (simp add: eq)
  next
    case (2 b s')
    have mem: "payload b + unat (p_len b) \<le> length (pbuf_mem b)" "0 + length msg \<le> unat (p_len b)"
      using 2(2,3) uk by (simp_all add: ip_packet_def)
    note w = write_payload_bytes [OF mem]
    let ?b = "b\<lparr>pbuf_mem := put_bytes (pbuf_mem b) (payload b + 0) msg\<rparr>"
    have "ip_packet 54 s' ?b" using 2(2) w(3) by (simp add: ip_packet_def)
    moreover have "chain_data [?b] = msg"
      using w(2) length_pbuf_bytes [OF mem(1)] 2(3) uk by (simp add: put_bytes_def)
    ultimately show ?thesis using that(2) [of ?b s'] w(1) 2(1,5) by (simp add: eq)
  qed
qed

lemma put_pkt_netif: "nd_netif (put_pkt c n) = nd_netif n"
  by (cases c) (simp_all add: put_pkt_def)

lemma nd6_xmit_returns:
  assumes out: "output_ok pools out" "keeps_netif out" and b: "ip_packet 54 s b" "chain_data [b] = x # y # 0 # 0 # rest" and m: "memp_ok pools (al_memp s)"
  shows "\<exists>err s' n'. nd6_xmit out [b] src dest s n = Inr (err, s', n') \<and> heap_ok (al_heap s') \<and> memp_ok pools (al_memp s')
    \<and> keeps_pools (al_memp s) (al_memp s') \<and> nd_netif n' = nd_netif n"
proof -
  let ?a = "case src of None \<Rightarrow> IP6_ADDR_ANY | Some a \<Rightarrow> a"
  have okb: "chain_ok [b]" using b(1) by (simp add: ip_packet_def)
  have "4 \<le> unat (p_len b)" using length_chain_data [OF okb] b(2) okb by (simp del: chain_data_simps)
  from put_icmp6_chksum_spec [OF okb this b(2), of "p_len b" ?a dest] obtain b1 where
    b1: "put_icmp6_chksum [b] (p_len b) ?a dest = Inr [b1]" "chain_ok [b1]" "p_ref b1 = p_ref b" "pbuf_addr b1 = pbuf_addr b"
      "type_internal b1 = type_internal b" "payload b1 = payload b" "tot_len b1 = tot_len b" by (elim exE conjE)
  have "ip_packet 54 s b1" using b(1) b1 by (simp add: ip_packet_def)
  from ip6_output_if_returns [OF out(1) this m, of src dest ND6_HOPLIM 0 IP6_NEXTH_ICMP6 "nd_netif n" n] obtain err c s1 n1 cnt rst s2 where
    o: "ip6_output_if out [b1] src (Some dest) ND6_HOPLIM 0 IP6_NEXTH_ICMP6 (nd_netif n) s n = Inr (err, c, s1, n1)"
      "pbuf_free c s1 = Inr (cnt, rst, s2)" "heap_ok (al_heap s2)" "memp_ok pools (al_memp s2)" "keeps_pools (al_memp s) (al_memp s2)"
    by (elim exE conjE)
  have "nd6_xmit out [b] src dest s n = Inr (err, s2, put_pkt rst (n1\<lparr>nd_pkts := (nd_pkts n1)(pbuf_ptr (hd c) := [])\<rparr>))"
    using b1(1) o(1,2) by (simp add: nd6_xmit_def nd_pbuf_free_def)
  then show ?thesis using o(3-5) ip6_output_if_netif [OF out(2) o(1)] by (simp add: put_pkt_netif)
qed

lemma nd6_send_ns_any:
  assumes out: "output_ok pools out" "keeps_netif out" "fresh_ok uninit" and s: "heap_ok (al_heap s)" "memp_ok pools (al_memp s)"
  shows "\<exists>s' n'. nd6_send_ns uninit out a (ND6_SEND_FLAG_MULTICAST_DEST OR ND6_SEND_FLAG_ANY_SRC) s n = Inr (s', n') \<and> heap_ok (al_heap s')
    \<and> memp_ok pools (al_memp s') \<and> keeps_pools (al_memp s) (al_memp s') \<and> nd_netif n' = nd_netif n"
proof -
  have len: "length (ns_header_bytes a) \<le> 1000" by (simp add: ns_header_bytes_def)
  have flags: "(ND6_SEND_FLAG_MULTICAST_DEST OR ND6_SEND_FLAG_ANY_SRC) AND ND6_SEND_FLAG_ANY_SRC \<noteq> 0"
    "(ND6_SEND_FLAG_MULTICAST_DEST OR ND6_SEND_FLAG_ANY_SRC) AND ND6_SEND_FLAG_MULTICAST_DEST \<noteq> 0"
    by (simp_all add: ND6_SEND_FLAG_MULTICAST_DEST_def ND6_SEND_FLAG_ANY_SRC_def)
  have eq: "nd6_send_ns uninit out a (ND6_SEND_FLAG_MULTICAST_DEST OR ND6_SEND_FLAG_ANY_SRC) s n =
      (case nd6_message uninit (ns_header_bytes a) None s of
         Inl e \<Rightarrow> Inl e
       | Inr ([], s1) \<Rightarrow> Inr (s1, n)
       | Inr (c, s1) \<Rightarrow> map_sum id snd (nd6_xmit out c None (ip6_addr_solicitednode a) s1 n))"
    using flags by (simp add: nd6_send_ns_def)
  show ?thesis
  proof (cases rule: nd6_message_plain [OF s(1) out(3) len])
    case 1
    then show ?thesis using s by (simp add: eq)
  next
    case (2 b s1)
    have "chain_data [b] = ICMP6_TYPE_NS # 0 # 0 # 0 # be32 0 @ ip6_addr_bytes a"
      using 2(3) by (simp add: ns_header_bytes_def be16_def del: chain_data_simps)
    moreover have "memp_ok pools (al_memp s1)" using s(2) 2(4) by simp
    ultimately obtain err s' n' where "nd6_xmit out [b] None (ip6_addr_solicitednode a) s1 n = Inr (err, s', n')" "heap_ok (al_heap s')"
        "memp_ok pools (al_memp s')" "keeps_pools (al_memp s1) (al_memp s')" "nd_netif n' = nd_netif n"
      using nd6_xmit_returns [OF out(1,2) 2(2), of ICMP6_TYPE_NS 0 "be32 0 @ ip6_addr_bytes a" None "ip6_addr_solicitednode a" n] by blast
    then show ?thesis using 2(1,4) by (simp add: eq)
  qed
qed

text \<open>
  C19: Duplicate address detection completes. On an interface that is up, the first step of the timer for a tentative address joins its
  solicited-node group, so that a conflict can be heard, and counts a probe; the second one, nothing having been heard, makes the
  address preferred. Both times the step returns, no other address changes, and in the end the group of the address
  is used once more than before.
\<close>

theorem nd6_dad_completes:
  assumes "dad_env pools uninit out rand" "mld_ok pools (is_mld st) (is_alloc st)" "groups_joined st"
    and "i < LWIP_IPV6_NUM_ADDRESSES" "i < length (nd_addrs st)" "nd_addrs st ! i = (a, IP6_ADDR_TENTATIVE)"
    and "netif_is_up (nd_netif (is_net st))" "netif_is_link_up (nd_netif (is_net st))" "can_join (ip6_addr_solicitednode a) st"
  shows "\<exists>st1 st2. nd6_tmr_addr uninit out rand i st = Inr st1 \<and> nd_addrs st1 = (nd_addrs st)[i := (a, IP6_ADDR_TENTATIVE + 1)]
    \<and> nd6_tmr_addr uninit out rand i st1 = Inr st2 \<and> nd_addrs st2 = (nd_addrs st)[i := (a, IP6_ADDR_PREFERRED)]
    \<and> mld_ok pools (is_mld st2) (is_alloc st2) \<and> groups_joined st1 \<and> groups_joined st2
    \<and> mld_uses (is_mld st2) = (mld_uses (is_mld st))(ip6_addr_solicitednode a := mld_uses (is_mld st) (ip6_addr_solicitednode a) + 1)"
proof -
  let ?g = "ip6_addr_solicitednode a" and ?T = IP6_ADDR_TENTATIVE
  have e: "output_ok pools out" "fresh_ok uninit" "keeps_netif out" using assms(1) by (simp_all add: dad_env_def)
  have w: "ip6_addr_istentative ?T" "ip6_addr_istentative (?T + 1)" "\<not> ?T AND IP6_ADDR_TENTATIVE_COUNT_MASK \<ge> LWIP_IPV6_DUP_DETECT_ATTEMPTS"
    "(?T + 1) AND IP6_ADDR_TENTATIVE_COUNT_MASK \<ge> LWIP_IPV6_DUP_DETECT_ATTEMPTS" "\<not> solicited_member ?T" "solicited_member (?T + 1)"
    "solicited_member IP6_ADDR_PREFERRED"
    by (simp_all add: ip6_addr_istentative_def solicited_member_def IP6_ADDR_TENTATIVE_def IP6_ADDR_TENTATIVE_COUNT_MASK_def
        LWIP_IPV6_DUP_DETECT_ATTEMPTS_def IP6_ADDR_INVALID_def IP6_ADDR_DUPLICATED_def IP6_ADDR_PREFERRED_def)
  from netif_ip6_addr_set_state_ok [OF assms(1,2,4-6), of "?T + 1"] assms(9) w(5) obtain st0 where
    st0: "netif_ip6_addr_set_state uninit out rand i (?T + 1) st = Inr st0" "readdresses pools i a ?T (?T + 1) st st0" by blast
  have ok0: "mld_ok pools (is_mld st0) (is_alloc st0)" "mld_uses (is_mld st0) = (mld_uses (is_mld st))(?g := mld_uses (is_mld st) ?g + 1)"
    using st0(2) w(5,6) by (simp_all add: readdresses_def regroups_def group_use_after_def)
  have h0: "heap_ok (al_heap (is_alloc st0))" "memp_ok pools (al_memp (is_alloc st0))" using ok0(1) by (simp_all add: mld_ok_def)
  from nd6_send_ns_any [OF e(1,3,2) h0, of a "is_net st0"] obtain s1 n1 where
    ns: "nd6_send_ns uninit out a (ND6_SEND_FLAG_MULTICAST_DEST OR ND6_SEND_FLAG_ANY_SRC) (is_alloc st0) (is_net st0) = Inr (s1, n1)"
      "heap_ok (al_heap s1)" "memp_ok pools (al_memp s1)" "keeps_pools (al_memp (is_alloc st0)) (al_memp s1)" "nd_netif n1 = nd_netif (is_net st0)" by blast
  define st1 where "st1 = st0\<lparr>is_alloc := s1, is_net := n1\<rparr>"
  have t1: "nd6_tmr_addr uninit out rand i st = Inr st1"
    using assms(6-8) w(1,3) st0(1) ns(1) by (simp add: nd6_tmr_addr_def on_nd_def st1_def)
  have a1: "nd_addrs st1 = (nd_addrs st)[i := (a, ?T + 1)]" using readdresses_addrs [OF st0(2)] ns(5) by (simp add: st1_def nd_addrs_def)
  have j1: "groups_joined st1" using groups_joined_readdresses [OF assms(3) st0(2) assms(5,6)] ns(5) by (simp add: groups_joined_def st1_def nd_addrs_def)
  have ok1: "mld_ok pools (is_mld st1) (is_alloc st1)" using mld_ok_keeps [OF ok0(1) ns(2-4)] by (simp add: st1_def)
  have i1: "i < length (nd_addrs st1)" "nd_addrs st1 ! i = (a, ?T + 1)" using a1 assms(5) by simp_all
  from netif_ip6_addr_set_state_ok [OF assms(1) ok1 assms(4) i1 _ groups_joined_uses [OF j1 i1], of IP6_ADDR_PREFERRED] w(6) obtain st2 where
    st2: "netif_ip6_addr_set_state uninit out rand i IP6_ADDR_PREFERRED st1 = Inr st2" "readdresses pools i a (?T + 1) IP6_ADDR_PREFERRED st1 st2" by blast
  have t2: "nd6_tmr_addr uninit out rand i st1 = Inr st2" using i1 w(2,4) st2(1) by (simp add: nd6_tmr_addr_def)
  have "mld_uses (is_mld st2) = mld_uses (is_mld st1)" "mld_ok pools (is_mld st2) (is_alloc st2)"
    using st2(2) w(6,7) by (simp_all add: readdresses_def regroups_def group_use_after_def)
  moreover have "nd_addrs st2 = (nd_addrs st)[i := (a, IP6_ADDR_PREFERRED)]" using readdresses_addrs [OF st2(2)] a1 by simp
  moreover have "groups_joined st2" by (rule groups_joined_readdresses [OF j1 st2(2) i1])
  ultimately show ?thesis using t1 t2 a1 j1 ok0(2)
    by (intro exI [of _ st1] exI [of _ st2]) (simp add: st1_def)
qed

section \<open>Witnesses\<close>

text \<open>An interface with a tentative address, no groups, and an output that keeps the bytes of the packets.\<close>

definition nd_log :: "bytes list nd6 output_ip6_fn" where
  "nd_log nif q d s n = Inr (ERR_OK, q, s, n\<lparr>nd_link := nd_link n @ [chain_data q]\<rparr>)"

lemma nd_log_env: "dad_env pools zeros nd_log (Pair 7)"
  using zeros_fresh by (auto simp: dad_env_def output_ok_def keeps_netif_def nd_log_def ip_packet_def pbuf_get_allocsrc_def)

definition dad_state :: "alloc_state \<Rightarrow> ip6_addr \<Rightarrow> (nat, bytes list nd6) ip6_state" where
  "dad_state s d = (na_state s (nd0\<lparr>nd_netif := sample_netif\<lparr>ip6_addrs := [(peer, IP6_ADDR_TENTATIVE)]\<rparr>\<rparr>))
     \<lparr>is_ip := (is_ip ping_state)\<lparr>current_iphdr_dest := d\<rparr>\<rparr>"

lemma dad_state_ok:
  "nd_addrs (dad_state s d) = [(peer, IP6_ADDR_TENTATIVE)]" "groups_joined (dad_state s d)" "is_mld (dad_state s d) = []" "is_alloc (dad_state s d) = s"
  "netif_is_up (nd_netif (is_net (dad_state s d)))" "netif_is_link_up (nd_netif (is_net (dad_state s d)))"
  "can_join g (dad_state alloc0 d)"
proof -
  have "free_elems (al_memp alloc0) MEMP_MLD6_GROUP \<noteq> {}" by (simp add: alloc0_ok pool_elems_def sample_pools_def)
  then show "can_join g (dad_state alloc0 d)" by (simp add: can_join_def dad_state_def na_state_def mld_uses_def)
qed (simp_all add: dad_state_def na_state_def nd_addrs_def groups_joined_def sol_uses_def solicited_member_def sample_netif_def)


theorem nd6_dad_completes_witness:
  "\<exists>st1 st2. nd6_tmr_addr zeros nd_log (Pair 7) 0 (dad_state alloc0 peer) = Inr st1 \<and> nd6_tmr_addr zeros nd_log (Pair 7) 0 st1 = Inr st2
     \<and> nd_addrs st2 = [(peer, IP6_ADDR_PREFERRED)]"
proof -
  define st where "st = dad_state alloc0 peer"
  note k = dad_state_ok(1-6) [of alloc0 peer, folded st_def] and c = dad_state_ok(7) [of "ip6_addr_solicitednode peer" peer, folded st_def]
  have i: "(0::nat) < LWIP_IPV6_NUM_ADDRESSES" "0 < length (nd_addrs st)" "nd_addrs st ! 0 = (peer, IP6_ADDR_TENTATIVE)"
    by (simp_all add: LWIP_IPV6_NUM_ADDRESSES_def k)
  have ok: "mld_ok sample_pools (is_mld st) (is_alloc st)" by (simp add: k alloc0_ok)
  from nd6_dad_completes [OF nd_log_env ok k(2) i k(5,6) c] obtain st1 st2 where
    "nd6_tmr_addr zeros nd_log (Pair 7) 0 st = Inr st1" "nd6_tmr_addr zeros nd_log (Pair 7) 0 st1 = Inr st2"
    "nd_addrs st2 = (nd_addrs st)[0 := (peer, IP6_ADDR_PREFERRED)]" by (elim exE conjE)
  then show ?thesis unfolding st_def by (auto simp: dad_state_ok)
qed


end
